(* ===== verification/Prelude.thy ===== *)
theory Prelude
  imports Main "HOL-Library.Word"
begin

text \<open>
  Shared vocabulary of the development: machine bytes and integers, the collections the
  component theories fill, and generic facts on lists, bytes and event runs that more than
  one component uses.
\<close>

section \<open>Types\<close>

type_synonym byte = "8 word"
type_synonym bytes = "byte list"
type_synonym u16 = "16 word"
type_synonym u32 = "32 word"
type_synonym u64 = "64 word"

text \<open>
  Signed integers are \<open>int\<close>; what leaves the range of an \<open>int\<close> or a \<open>qint64\<close> wraps around, as on the
  client's platforms.
\<close>

definition int32 :: "int \<Rightarrow> int" where
  "int32 x = signed_take_bit 31 x"

definition int64 :: "int \<Rightarrow> int" where
  "int64 x = signed_take_bit 63 x"

lemma int32_in_range: "- (2 ^ 31) \<le> x \<Longrightarrow> x < 2 ^ 31 \<Longrightarrow> int32 x = x"
  unfolding int32_def by (rule signed_take_bit_int_eq_self)

lemma int64_in_range: "- (2 ^ 63) \<le> x \<Longrightarrow> x < 2 ^ 63 \<Longrightarrow> int64 x = x"
  unfolding int64_def by (rule signed_take_bit_int_eq_self)

section \<open>Collections\<close>

text \<open>Preservation facts of the component invariants, used as introduction rules.\<close>
named_theorems inv_intros

text \<open>Facts that give the length of what an operation returns.\<close>
named_theorems length_facts

section \<open>Lists\<close>

lemma nth_append_left: "i < length xs \<Longrightarrow> (xs @ ys) ! i = xs ! i"
  by (simp add: nth_append)

lemma take_append_left: "n \<le> length xs \<Longrightarrow> take n (xs @ ys) = take n xs"
  by simp

lemma drop_append_left: "n \<le> length xs \<Longrightarrow> drop n (xs @ ys) = drop n xs @ ys"
  by simp

lemma take_drop_append_left:
  "c + n \<le> length xs \<Longrightarrow> take n (drop c (xs @ ys)) = take n (drop c xs)"
  by simp

text \<open>What a cursor-based reader extracts from the middle of a buffer.\<close>

lemma take_drop_middle:
  "length pre = c \<Longrightarrow> length mid = n \<Longrightarrow> take n (drop c (pre @ mid @ post)) = mid"
  by simp

lemmas prefix_stable = nth_append_left take_append_left drop_append_left take_drop_append_left

section \<open>Runs of a step function\<close>

text \<open>An event-driven component is a step function; a run feeds it a list of events.\<close>

definition run_events :: "('s \<Rightarrow> 'e \<Rightarrow> 's) \<Rightarrow> 's \<Rightarrow> 'e list \<Rightarrow> 's" where
  "run_events step s es = foldl step s es"

lemma run_events_Nil [simp]: "run_events step s [] = s"
  by (simp add: run_events_def)

lemma run_events_Cons [simp]: "run_events step s (e # es) = run_events step (step s e) es"
  by (simp add: run_events_def)

lemma run_events_append [simp]:
  "run_events step s (es @ es') = run_events step (run_events step s es) es'"
  by (simp add: run_events_def)

lemma run_events_invariant:
  assumes "I s" and "\<And>s e. I s \<Longrightarrow> I (step s e)"
  shows "I (run_events step s es)"
  using assms(1) by (induction es arbitrary: s) (auto intro: assms(2))

section \<open>Readers fed in chunks\<close>

text \<open>
  A reader of a byte stream is called again each time more bytes arrive. The contract: reading
  a longer buffer is reading the shorter one and then resuming with the rest. What the reader
  sees then depends on the bytes alone, not on how the transport cut them.
\<close>

locale chunked_reader =
  fixes reads :: "'s \<Rightarrow> bytes \<Rightarrow> 'r"
    and resume :: "'r \<Rightarrow> bytes \<Rightarrow> 'r"
  assumes reads_append: "reads s (b @ x) = resume (reads s b) x"
begin

lemma feed_concat: "foldl resume (reads s b) cs = reads s (b @ concat cs)"
  by (induction cs arbitrary: b) (simp_all add: reads_append [symmetric])

lemma feed_cut:
  assumes "concat cs = concat cs'"
  shows "foldl resume (reads s b) cs = foldl resume (reads s b) cs'"
  using assms by (simp add: feed_concat)

end

end
