(* ===== verification/HostModel.thy ===== *)
theory HostModel
  imports Prelude
begin

text \<open>
  A host as the client knows it (\<open>src/app/backend/nvcomputer.cpp\<close>, \<open>nvaddress.cpp\<close>, \<open>nvapp.h\<close>):
  its record, the merge of fresh information into it, its app list and its addresses. The locks
  make each operation atomic and do not appear. A missing \<open>QString\<close>, byte array or certificate is
  the empty list, as their comparisons do not tell the two apart.
\<close>

section \<open>The record\<close>

record nv_address =
  m_Address :: string
  m_Port :: u16

definition no_address :: nv_address where
  "no_address = \<lparr>m_Address = [], m_Port = 0\<rparr>"

definition null_address :: "nv_address \<Rightarrow> bool" where
  "null_address a \<longleftrightarrow> m_Address a = []"

record nv_app =
  app_name :: string
  app_id :: int
  hdr_supported :: bool
  app_collector :: bool
  hidden :: bool
  direct_launch :: bool

text \<open>\<open>NvAddress::toString\<close>; whether a text is an IPv6 literal and how a port is printed are Qt's.\<close>

record address_printer =
  is_ipv6 :: "string \<Rightarrow> bool"
  show_port :: "u16 \<Rightarrow> string"

definition address_text :: "('q) address_printer_scheme \<Rightarrow> nv_address \<Rightarrow> string" where
  "address_text q a =
     (if m_Address a = [] then ''<NULL>''
      else if is_ipv6 q (m_Address a) then ''['' @ m_Address a @ '']:'' @ show_port q (m_Port a)
      else m_Address a @ '':'' @ show_port q (m_Port a))"

datatype pairing_state = PS_UNKNOWN | PS_PAIRED | PS_NOT_PAIRED

datatype computer_state = CS_UNKNOWN | CS_ONLINE | CS_OFFLINE

datatype reachability = RI_UNKNOWN | RI_LAN | RI_VPN

record nv_computer =
  comp_state :: computer_state
  pair_status :: pairing_state
  activeAddress :: nv_address
  pinnedAddress :: nv_address
  activeHttpsPort :: u16
  currentGameId :: int
  gfeVersion :: string
  appVersion :: string
  displayModes :: "(int \<times> int \<times> int) list"
  maxLumaPixelsHEVC :: int
  serverCodecModeSupport :: int
  gpuModel :: string
  isSupportedServerVersion :: bool
  localAddress :: nv_address
  remoteAddress :: nv_address
  ipv6Address :: nv_address
  manualAddress :: nv_address
  macAddress :: bytes
  comp_name :: string
  hasCustomName :: bool
  comp_uuid :: string
  serverCert :: bytes
  appList :: "nv_app list"
  isNvidiaServerSoftware :: bool
  pendingQuit :: bool
  externalPort :: u16
  m_TestedAddresses :: "nv_address list"
  m_HasReachability :: bool
  m_ReachabilityAddress :: nv_address
  m_Reachability :: reachability

section \<open>Addresses\<close>

text \<open>
  \<open>uniqueAddresses\<close>: the candidates in order of preference, pruned in place. \<open>drop_later\<close> is the
  inner loop, which removes the later occurrences of the element at \<open>i\<close>; \<open>prune\<close> is the outer one.
\<close>

definition remove_at :: "nat \<Rightarrow> 'a list \<Rightarrow> 'a list" where
  "remove_at j l = take j l @ drop (Suc j) l"

lemma length_remove_at [simp]: "j < length l \<Longrightarrow> length (remove_at j l) = length l - 1"
  by (simp add: remove_at_def)

function drop_later :: "nv_address list \<Rightarrow> nat \<Rightarrow> nat \<Rightarrow> nv_address list" where
  "drop_later l i j =
     (if j < length l
      then if l ! i = l ! j then drop_later (remove_at j l) i j else drop_later l i (Suc j)
      else l)"
  by auto
termination by (relation "measure (\<lambda>(l, i, j). length l - j)") auto

declare drop_later.simps [simp del]

lemma length_drop_later: "length (drop_later l i j) \<le> length l"
proof (induction l i j rule: drop_later.induct)
  case (1 l i j)
  then show ?case by (subst drop_later.simps) (auto intro: order_trans [OF 1(1)])
qed

function prune :: "nv_address list \<Rightarrow> nat \<Rightarrow> nv_address list" where
  "prune l i =
     (if i < length l
      then if null_address (l ! i) then prune (remove_at i l) i
           else prune (drop_later l i (Suc i)) (Suc i)
      else l)"
  by auto
termination
proof (relation "measure (\<lambda>(l, i). length l - i)", goal_cases)
  case (3 l i)
  then show ?case using length_drop_later [of l i "Suc i"] by simp
qed auto

declare prune.simps [simp del]

definition uniqueAddresses :: "nv_computer \<Rightarrow> nv_address list" where
  "uniqueAddresses c =
     prune [pinnedAddress c, activeAddress c, localAddress c, remoteAddress c, ipv6Address c,
            manualAddress c] 0"

definition pinAddress :: "nv_address \<Rightarrow> nv_computer \<Rightarrow> nv_computer" where
  "pinAddress a c = c\<lparr>pinnedAddress := a, activeAddress := a\<rparr>"

definition resetToAutomaticAddress :: "nv_computer \<Rightarrow> nv_computer \<times> bool" where
  "resetToAutomaticAddress c =
     (let c = c\<lparr>pinnedAddress := no_address\<rparr> in
      case find (\<lambda>a. \<not> null_address a) [localAddress c, remoteAddress c, ipv6Address c, manualAddress c] of
        Some a \<Rightarrow> (c\<lparr>activeAddress := a\<rparr>, True)
      | None \<Rightarrow> (c, False))"

definition markAddressTestSucceeded :: "nv_address \<Rightarrow> nv_computer \<Rightarrow> nv_computer" where
  "markAddressTestSucceeded a c =
     (if null_address a \<or> a \<in> set (m_TestedAddresses c) then c
      else c\<lparr>m_TestedAddresses := m_TestedAddresses c @ [a]\<rparr>)"

definition hasAddressTestSucceeded :: "nv_address \<Rightarrow> nv_computer \<Rightarrow> bool" where
  "hasAddressTestSucceeded a c \<longleftrightarrow> \<not> null_address a \<and> a \<in> set (m_TestedAddresses c)"

section \<open>Merging information\<close>

text \<open>
  \<open>updateAppList\<close>: for every app there was, in order, the entries of the new list with its
  identifier take over the attributes that only the client knows.
\<close>

definition propagate :: "nv_app \<Rightarrow> nv_app list \<Rightarrow> nv_app list" where
  "propagate old new =
     map (\<lambda>a. if app_id old = app_id a
              then a\<lparr>hidden := hidden old, direct_launch := direct_launch old\<rparr> else a) new"

definition updateAppList :: "nv_app list \<Rightarrow> nv_computer \<Rightarrow> nv_computer \<times> bool" where
  "updateAppList newAppList c =
     (if appList c = newAppList then (c, False)
      else (c\<lparr>appList := foldl (\<lambda>l old. propagate old l) newAppList (appList c)\<rparr>, True))"

text \<open>
  The macros of \<open>update\<close>: a member is assigned when it differs and the new value passes a check;
  the flag records that something was assigned.
\<close>

definition assign ::
  "(nv_computer \<Rightarrow> 'a) \<Rightarrow> (('a \<Rightarrow> 'a) \<Rightarrow> nv_computer \<Rightarrow> nv_computer) \<Rightarrow> ('a \<Rightarrow> bool)
     \<Rightarrow> nv_computer \<Rightarrow> nv_computer \<times> bool \<Rightarrow> nv_computer \<times> bool" where
  "assign get put ok that r =
     (case r of (this, changed) \<Rightarrow>
        if ok (get that) \<and> get this \<noteq> get that then (put (\<lambda>_. get that) this, True) else r)"

definition assign_active :: "nv_computer \<Rightarrow> nv_computer \<times> bool \<Rightarrow> nv_computer \<times> bool" where
  "assign_active that r =
     (case r of (this, changed) \<Rightarrow>
        if activeAddress this \<noteq> activeAddress that
        then (this\<lparr>activeAddress := activeAddress that, m_HasReachability := False,
                   m_ReachabilityAddress := no_address, m_Reachability := RI_UNKNOWN\<rparr>, True)
        else r)"

definition update_members :: "nv_computer \<Rightarrow> nv_computer \<Rightarrow> nv_computer \<times> bool" where
  "update_members this that =
     (let nonnull = (\<lambda>a. \<not> null_address a);
          r = (if hasCustomName this then (this, False)
               else assign comp_name comp_name_update (\<lambda>_. True) that (this, False));
          r = assign macAddress macAddress_update (\<lambda>m. m \<noteq> []) that r;
          r = assign localAddress localAddress_update nonnull that r;
          r = assign remoteAddress remoteAddress_update nonnull that r;
          r = assign ipv6Address ipv6Address_update nonnull that r;
          r = assign manualAddress manualAddress_update nonnull that r;
          r = assign activeHttpsPort activeHttpsPort_update (\<lambda>_. True) that r;
          r = assign externalPort externalPort_update (\<lambda>_. True) that r;
          r = assign pair_status pair_status_update (\<lambda>_. True) that r;
          r = assign serverCodecModeSupport serverCodecModeSupport_update (\<lambda>_. True) that r;
          r = assign currentGameId currentGameId_update (\<lambda>_. True) that r;
          r = assign_active that r;
          r = assign comp_state comp_state_update (\<lambda>_. True) that r;
          r = assign gfeVersion gfeVersion_update (\<lambda>_. True) that r;
          r = assign appVersion appVersion_update (\<lambda>_. True) that r;
          r = assign isSupportedServerVersion isSupportedServerVersion_update (\<lambda>_. True) that r;
          r = assign isNvidiaServerSoftware isNvidiaServerSoftware_update (\<lambda>_. True) that r;
          r = assign maxLumaPixelsHEVC maxLumaPixelsHEVC_update (\<lambda>_. True) that r;
          r = assign gpuModel gpuModel_update (\<lambda>_. True) that r;
          r = assign serverCert serverCert_update (\<lambda>m. m \<noteq> []) that r
      in assign displayModes displayModes_update (\<lambda>m. m \<noteq> []) that r)"

definition update :: "nv_computer \<Rightarrow> nv_computer \<Rightarrow> nv_computer \<times> bool" where
  "update this that =
     (let (c, changed) = update_members this that;
          c = (if appList that \<noteq> [] then fst (updateAppList (appList that) c) else c);
          c = (if \<not> null_address (activeAddress c) \<and> activeAddress c \<notin> set (m_TestedAddresses c)
               then c\<lparr>m_TestedAddresses := m_TestedAddresses c @ [activeAddress c]\<rparr> else c)
      in (c, changed))"

section \<open>Unique addresses\<close>

lemma drop_later_eq:
  "i < j \<Longrightarrow> j \<le> length l \<Longrightarrow> drop_later l i j = take j l @ removeAll (l ! i) (drop j l)"
proof (induction l i j rule: drop_later.induct)
  case (1 l i j)
  show ?case
  proof (cases "j < length l")
    case True
    then have d: "drop j l = l ! j # drop (Suc j) l" by (simp add: Cons_nth_drop_Suc)
    show ?thesis
    proof (cases "l ! i = l ! j")
      case eq: True
      have n: "remove_at j l ! i = l ! i" using 1(3) True by (simp add: remove_at_def nth_append)
      have "drop_later l i j = drop_later (remove_at j l) i j"
        using True eq by (simp add: drop_later.simps [of l i j])
      also have "\<dots> = take j (remove_at j l) @ removeAll (remove_at j l ! i) (drop j (remove_at j l))"
        using 1(1) [OF True eq 1(3)] True by simp
      also have "\<dots> = take j l @ removeAll (l ! i) (drop j l)"
        using True eq unfolding n d by (simp add: remove_at_def)
      finally show ?thesis .
    next
      case False
      then have "drop_later l i j = drop_later l i (Suc j)"
        using True by (simp add: drop_later.simps [of l i j])
      also have "\<dots> = take (Suc j) l @ removeAll (l ! i) (drop (Suc j) l)"
        using 1(2) [OF True False] 1(3) True by simp
      finally show ?thesis using True False by (simp add: d take_Suc_conv_app_nth)
    qed
  next
    case False
    then show ?thesis using 1(4) by (subst drop_later.simps) simp
  qed
qed

text \<open>The reference: the first occurrence of every element, in order.\<close>

fun firsts :: "'a list \<Rightarrow> 'a list" where
  "firsts [] = []"
| "firsts (x # xs) = x # firsts (removeAll x xs)"

lemma set_firsts [simp]: "set (firsts xs) = set xs"
  by (induction xs rule: firsts.induct) auto

lemma distinct_firsts: "distinct (firsts xs)"
  by (induction xs rule: firsts.induct) auto

lemma removeAll_filter: "removeAll x (filter P xs) = filter P (removeAll x xs)"
  by (induction xs) auto

lemma prune_eq:
  "i \<le> length l \<Longrightarrow> prune l i = take i l @ firsts (filter (\<lambda>a. \<not> null_address a) (drop i l))"
proof (induction l i rule: prune.induct)
  case (1 l i)
  show ?case
  proof (cases "i < length l")
    case True
    then have d: "drop i l = l ! i # drop (Suc i) l" by (simp add: Cons_nth_drop_Suc)
    show ?thesis
    proof (cases "null_address (l ! i)")
      case null: True
      then have "prune l i = prune (remove_at i l) i" using True by (simp add: prune.simps [of l i])
      then show ?thesis using 1(1) [OF True null] True null by (simp add: d) (simp add: remove_at_def)
    next
      case False
      let ?l = "take (Suc i) l @ removeAll (l ! i) (drop (Suc i) l)"
      have dl: "drop_later l i (Suc i) = ?l" using drop_later_eq [of i "Suc i" l] True by simp
      have "prune l i = prune ?l (Suc i)" using True False by (simp add: prune.simps [of l i] dl)
      also have "\<dots> = take (Suc i) ?l @ firsts (filter (\<lambda>a. \<not> null_address a) (drop (Suc i) ?l))"
        using 1(2) [OF True False] True by (simp add: dl)
      finally show ?thesis using True False
        by (simp add: d take_Suc_conv_app_nth removeAll_filter)
    qed
  next
    case False
    then show ?thesis using 1(3) by (subst prune.simps) simp
  qed
qed

text \<open>
  The in-place pruning of the candidate addresses, for any contents, gives each usable address
  once, at the place of its first occurrence: the pinned one first, then the active one, then the
  known ones from local to manual.
\<close>
theorem unique_addresses:
  "uniqueAddresses c = firsts (filter (\<lambda>a. \<not> null_address a)
     [pinnedAddress c, activeAddress c, localAddress c, remoteAddress c, ipv6Address c, manualAddress c])
   \<and> distinct (uniqueAddresses c)
   \<and> (\<not> null_address (pinnedAddress c) \<longrightarrow> hd (uniqueAddresses c) = pinnedAddress c)"
  by (simp add: uniqueAddresses_def prune_eq distinct_firsts)

section \<open>Merging app lists\<close>

text \<open>The attributes an app gets from the last app of the old list with its identifier.\<close>

definition inherit :: "nv_app list \<Rightarrow> nv_app \<Rightarrow> nv_app" where
  "inherit olds a =
     (case find (\<lambda>b. app_id b = app_id a) (rev olds) of
        Some b \<Rightarrow> a\<lparr>hidden := hidden b, direct_launch := direct_launch b\<rparr>
      | None \<Rightarrow> a)"

lemma find_SomeD: "find P xs = Some x \<Longrightarrow> x \<in> set xs \<and> P x"
  by (auto simp: find_Some_iff)

lemma find_append: "find P (xs @ ys) = (case find P xs of Some x \<Rightarrow> Some x | None \<Rightarrow> find P ys)"
  by (induction xs) auto

lemma foldl_propagate: "foldl (\<lambda>l old. propagate old l) new olds = map (inherit olds) new"
proof (induction olds rule: rev_induct)
  case (snoc b olds)
  have "inherit (olds @ [b]) a =
      (if app_id b = app_id a then (inherit olds a)\<lparr>hidden := hidden b, direct_launch := direct_launch b\<rparr>
       else inherit olds a)" for a
    by (auto simp: inherit_def split: option.splits)
  moreover have "app_id (inherit olds a) = app_id a" for a
    by (simp add: inherit_def split: option.splits)
  ultimately show ?case using snoc by (simp add: propagate_def)
qed (simp add: inherit_def)

lemma updateAppList_list:
  "appList (fst (updateAppList new c)) = (if appList c = new then new else map (inherit (appList c)) new)"
  by (simp add: updateAppList_def foldl_propagate)

lemma inherit_own:
  assumes "distinct (map app_id l)" and "a \<in> set l"
  shows "inherit l a = a"
proof -
  have "find (\<lambda>b. app_id b = app_id a) (rev l) \<noteq> None"
    using assms(2) by (auto simp: find_None_iff)
  then obtain b where b: "find (\<lambda>b. app_id b = app_id a) (rev l) = Some b" by auto
  then have "b \<in> set l" "app_id b = app_id a" by (auto dest: find_SomeD)
  then have "b = a" using assms by (auto simp: distinct_map dest: inj_onD)
  then show ?thesis using b by (simp add: inherit_def)
qed

lemma inherit_facts:
  "app_name (inherit l a) = app_name a" "app_id (inherit l a) = app_id a"
  "hdr_supported (inherit l a) = hdr_supported a" "app_collector (inherit l a) = app_collector a"
  by (simp_all add: inherit_def split: option.splits)

lemma inherit_from:
  assumes "distinct (map app_id l)" and "b \<in> set l" and "app_id b = app_id a"
  shows "hidden (inherit l a) = hidden b \<and> direct_launch (inherit l a) = direct_launch b"
proof -
  have "find (\<lambda>b. app_id b = app_id a) (rev l) \<noteq> None"
    using assms(2, 3) by (auto simp: find_None_iff)
  then obtain d where d: "find (\<lambda>b. app_id b = app_id a) (rev l) = Some d" by auto
  then have "d \<in> set l" "app_id d = app_id a" by (auto dest: find_SomeD)
  then have "d = b" using assms by (metis distinct_map inj_onD)
  then show ?thesis using d by (simp add: inherit_def)
qed

text \<open>
  A new app list replaces the old one with what the server says, in the server's order, except
  that an app known before keeps the attributes only the client has: an app hidden or marked for
  direct launch stays so as long as the server lists it.
\<close>
theorem app_list_keeps_client_attributes:
  assumes "distinct (map app_id (appList c))" and "a \<in> set (appList (fst (updateAppList new c)))"
    and "b \<in> set (appList c)" and "app_id b = app_id a"
  shows "hidden a = hidden b \<and> direct_launch a = direct_launch b
    \<and> (\<exists>raw\<in>set new. app_id raw = app_id a \<and> app_name raw = app_name a
         \<and> hdr_supported raw = hdr_supported a \<and> app_collector raw = app_collector a)
    \<and> map app_id (appList (fst (updateAppList new c))) = map app_id new"
proof -
  have l: "appList (fst (updateAppList new c)) = map (inherit (appList c)) new"
    using assms(1) by (auto simp: updateAppList_list inherit_own intro!: map_idI [symmetric])
  then obtain raw where "raw \<in> set new" "a = inherit (appList c) raw" using assms(2) by auto
  then show ?thesis using inherit_from [OF assms(1, 3), of raw] assms(4) l
    by (auto simp: inherit_facts)
qed

definition from_server :: "nv_app \<Rightarrow> nv_app" where
  "from_server a = a\<lparr>hidden := False, direct_launch := False\<rparr>"

text \<open>
  Once an app is hidden or marked for direct launch, every fetch of an unchanged server list is
  reported as a change although the stored list stays as it is: the comparison is made before the
  client's attributes are carried over.
\<close>
theorem app_list_spurious_change:
  assumes "distinct (map app_id (appList c))" and "\<exists>a\<in>set (appList c). hidden a \<or> direct_launch a"
  shows "updateAppList (map from_server (appList c)) c = (c, True)"
proof -
  have "appList c \<noteq> map from_server (appList c)"
  proof
    assume eq: "appList c = map from_server (appList c)"
    obtain a where a: "a \<in> set (appList c)" "hidden a \<or> direct_launch a" using assms(2) by blast
    have "a \<in> set (map from_server (appList c))" using a(1) eq by simp
    then show False using a(2) by (auto simp: from_server_def)
  qed
  moreover have "inherit (appList c) (from_server a) = a" if "a \<in> set (appList c)" for a
    using inherit_from [OF assms(1) that, of "from_server a"] inherit_facts [of "appList c" "from_server a"]
    by (intro nv_app.equality) (simp_all add: from_server_def)
  ultimately show ?thesis
    by (simp add: updateAppList_def foldl_propagate map_idI)
qed

section \<open>Merging a report\<close>

lemma assign_eq:
  "put (\<lambda>_. get t) t = t \<Longrightarrow>
   assign get put ok that (t, changed) =
     (put (\<lambda>_. if ok (get that) then get that else get t) t,
      changed \<or> (ok (get that) \<and> get that \<noteq> get t))"
  by (auto simp: assign_def)

lemma put_get:
  "comp_name_update (\<lambda>_. comp_name t) t = t" "macAddress_update (\<lambda>_. macAddress t) t = t"
  "localAddress_update (\<lambda>_. localAddress t) t = t" "remoteAddress_update (\<lambda>_. remoteAddress t) t = t"
  "ipv6Address_update (\<lambda>_. ipv6Address t) t = t" "manualAddress_update (\<lambda>_. manualAddress t) t = t"
  "activeHttpsPort_update (\<lambda>_. activeHttpsPort t) t = t" "externalPort_update (\<lambda>_. externalPort t) t = t"
  "pair_status_update (\<lambda>_. pair_status t) t = t"
  "serverCodecModeSupport_update (\<lambda>_. serverCodecModeSupport t) t = t"
  "currentGameId_update (\<lambda>_. currentGameId t) t = t" "comp_state_update (\<lambda>_. comp_state t) t = t"
  "gfeVersion_update (\<lambda>_. gfeVersion t) t = t" "appVersion_update (\<lambda>_. appVersion t) t = t"
  "isSupportedServerVersion_update (\<lambda>_. isSupportedServerVersion t) t = t"
  "isNvidiaServerSoftware_update (\<lambda>_. isNvidiaServerSoftware t) t = t"
  "maxLumaPixelsHEVC_update (\<lambda>_. maxLumaPixelsHEVC t) t = t" "gpuModel_update (\<lambda>_. gpuModel t) t = t"
  "serverCert_update (\<lambda>_. serverCert t) t = t" "displayModes_update (\<lambda>_. displayModes t) t = t"
  for t :: nv_computer
  by (cases t, simp)+

text \<open>What \<open>update\<close> makes of the members, written as one record.\<close>

definition newer_address :: "nv_address \<Rightarrow> nv_address \<Rightarrow> nv_address" where
  "newer_address old new = (if null_address new then old else new)"

definition merged :: "nv_computer \<Rightarrow> nv_computer \<Rightarrow> nv_computer" where
  "merged this that =
     (let moved = (activeAddress this \<noteq> activeAddress that) in
      this\<lparr>comp_name := (if hasCustomName this then comp_name this else comp_name that),
        macAddress := (if macAddress that = [] then macAddress this else macAddress that),
        localAddress := newer_address (localAddress this) (localAddress that),
        remoteAddress := newer_address (remoteAddress this) (remoteAddress that),
        ipv6Address := newer_address (ipv6Address this) (ipv6Address that),
        manualAddress := newer_address (manualAddress this) (manualAddress that),
        activeHttpsPort := activeHttpsPort that,
        externalPort := externalPort that,
        pair_status := pair_status that,
        serverCodecModeSupport := serverCodecModeSupport that,
        currentGameId := currentGameId that,
        activeAddress := activeAddress that,
        m_HasReachability := (if moved then False else m_HasReachability this),
        m_ReachabilityAddress := (if moved then no_address else m_ReachabilityAddress this),
        m_Reachability := (if moved then RI_UNKNOWN else m_Reachability this),
        comp_state := comp_state that,
        gfeVersion := gfeVersion that,
        appVersion := appVersion that,
        isSupportedServerVersion := isSupportedServerVersion that,
        isNvidiaServerSoftware := isNvidiaServerSoftware that,
        maxLumaPixelsHEVC := maxLumaPixelsHEVC that,
        gpuModel := gpuModel that,
        serverCert := (if serverCert that = [] then serverCert this else serverCert that),
        displayModes := (if displayModes that = [] then displayModes this else displayModes that)\<rparr>)"

lemma assign_active_eq:
  "assign_active that (t, changed) =
     (let moved = (activeAddress t \<noteq> activeAddress that) in
      (t\<lparr>activeAddress := activeAddress that,
         m_HasReachability := (if moved then False else m_HasReachability t),
         m_ReachabilityAddress := (if moved then no_address else m_ReachabilityAddress t),
         m_Reachability := (if moved then RI_UNKNOWN else m_Reachability t)\<rparr>,
       changed \<or> activeAddress that \<noteq> activeAddress t))"
  by (cases t) (auto simp: assign_active_def)

lemma fst_update_members: "fst (update_members this that) = merged this that"
  unfolding update_members_def Let_def merged_def newer_address_def
  by (cases "hasCustomName this")
    (simp_all add: assign_eq assign_active_eq put_get if_distrib [of "\<lambda>x. \<not> x"] Let_def cong: if_cong)

lemma newer_address_id: "newer_address old new = old \<longleftrightarrow> null_address new \<or> new = old"
  by (auto simp: newer_address_def)

lemma if_same:
  "(if P then a else b) = a \<longleftrightarrow> P \<or> b = a"
  "(if P then b else a) = a \<longleftrightarrow> \<not> P \<or> b = a"
  by auto

lemma merged_id:
  "merged this that = this \<longleftrightarrow>
     (hasCustomName this \<or> comp_name that = comp_name this)
   \<and> (macAddress that = [] \<or> macAddress that = macAddress this)
   \<and> (null_address (localAddress that) \<or> localAddress that = localAddress this)
   \<and> (null_address (remoteAddress that) \<or> remoteAddress that = remoteAddress this)
   \<and> (null_address (ipv6Address that) \<or> ipv6Address that = ipv6Address this)
   \<and> (null_address (manualAddress that) \<or> manualAddress that = manualAddress this)
   \<and> activeHttpsPort that = activeHttpsPort this \<and> externalPort that = externalPort this
   \<and> pair_status that = pair_status this \<and> serverCodecModeSupport that = serverCodecModeSupport this
   \<and> currentGameId that = currentGameId this \<and> activeAddress that = activeAddress this
   \<and> comp_state that = comp_state this \<and> gfeVersion that = gfeVersion this
   \<and> appVersion that = appVersion this \<and> isSupportedServerVersion that = isSupportedServerVersion this
   \<and> isNvidiaServerSoftware that = isNvidiaServerSoftware this
   \<and> maxLumaPixelsHEVC that = maxLumaPixelsHEVC this \<and> gpuModel that = gpuModel this
   \<and> (serverCert that = [] \<or> serverCert that = serverCert this)
   \<and> (displayModes that = [] \<or> displayModes that = displayModes this)"
  unfolding merged_def Let_def
  by (cases this) (simp add: newer_address_id if_same split del: if_split cong: if_cong, blast)

lemma snd_update_members: "snd (update_members this that) \<longleftrightarrow> merged this that \<noteq> this"
proof -
  have "snd (update_members this that) \<longleftrightarrow> \<not> (merged this that = this)"
    unfolding merged_id
    by (cases "hasCustomName this")
      (simp_all add: update_members_def assign_eq assign_active_eq put_get Let_def, satx+)
  then show ?thesis .
qed

lemma merged_keeps:
  "appList (merged this that) = appList this"
  "m_TestedAddresses (merged this that) = m_TestedAddresses this"
  "activeAddress (merged this that) = activeAddress that"
  "hasCustomName (merged this that) = hasCustomName this"
  "comp_uuid (merged this that) = comp_uuid this"
  by (simp_all add: merged_def Let_def)

text \<open>The app list and the tested addresses after \<open>update\<close>.\<close>

definition merged_apps :: "nv_computer \<Rightarrow> nv_computer \<Rightarrow> nv_app list" where
  "merged_apps this that =
     (if appList that = [] then appList this else appList (fst (updateAppList (appList that) this)))"

definition merged_tested :: "nv_computer \<Rightarrow> nv_computer \<Rightarrow> nv_address list" where
  "merged_tested this that =
     (if null_address (activeAddress that) \<or> activeAddress that \<in> set (m_TestedAddresses this)
      then m_TestedAddresses this else m_TestedAddresses this @ [activeAddress that])"

lemma put_lists:
  "c\<lparr>appList := appList c\<rparr> = c" "c\<lparr>m_TestedAddresses := m_TestedAddresses c\<rparr> = c" for c :: nv_computer
  by (cases c, simp)+

lemma update_eq:
  "update this that =
     ((merged this that)\<lparr>appList := merged_apps this that, m_TestedAddresses := merged_tested this that\<rparr>,
      merged this that \<noteq> this)"
proof -
  obtain c ch where m: "update_members this that = (c, ch)" by force
  then have c: "c = merged this that" and ch: "ch = (merged this that \<noteq> this)"
    using fst_update_members [of this that] snd_update_members [of this that] by auto
  have keep: "c\<lparr>appList := appList this\<rparr> = c" "m_TestedAddresses c = m_TestedAddresses this"
    "activeAddress c = activeAddress that" "appList c = appList this"
    using put_lists(1) [of c] by (simp_all add: c merged_keeps)
  have "fst (updateAppList l c) = c\<lparr>appList := appList (fst (updateAppList l c))\<rparr>" for l
    by (simp add: updateAppList_def put_lists)
  moreover have "appList (fst (updateAppList l c)) = appList (fst (updateAppList l this))" for l
    by (simp add: updateAppList_def keep)
  ultimately have a: "(if appList that \<noteq> [] then fst (updateAppList (appList that) c) else c) =
      c\<lparr>appList := merged_apps this that\<rparr>"
    by (cases "appList that = []") (simp_all add: merged_apps_def keep)
  have t: "c\<lparr>appList := l, m_TestedAddresses := m_TestedAddresses this\<rparr> = c\<lparr>appList := l\<rparr>" for l
    using put_lists(2) [of "c\<lparr>appList := l\<rparr>"] by (simp add: keep)
  show ?thesis
    unfolding update_def m Let_def prod.case a
    by (simp add: merged_tested_def keep t ch c [symmetric])
qed

text \<open>
  Merging a report says that something changed exactly when a member other than the app list
  and the tested addresses did, so listeners are neither woken for nothing nor left unaware.
\<close>
theorem update_reports_changes:
  "snd (update this that) \<longleftrightarrow>
     (fst (update this that))\<lparr>appList := appList this, m_TestedAddresses := m_TestedAddresses this\<rparr> \<noteq> this"
proof -
  have "(merged this that)\<lparr>appList := appList this, m_TestedAddresses := m_TestedAddresses this\<rparr> =
      merged this that"
    using put_lists(1) [of "merged this that"] put_lists(2) [of "merged this that"] by (simp add: merged_keeps)
  then show ?thesis by (simp add: update_eq)
qed

lemma merged_idem: "merged (fst (update this that)) that = fst (update this that)"
  unfolding merged_id
  by (simp add: update_eq merged_def Let_def newer_address_def)

lemma update_again:
  assumes "distinct (map app_id (appList that))" and "c = fst (update this that)"
  shows "update c that = (c, False)"
proof -
  have lists: "appList c = merged_apps this that" "m_TestedAddresses c = merged_tested this that"
    using assms(2) by (simp_all add: update_eq)
  have "merged_apps c that = appList c"
  proof (cases "appList that = [] \<or> appList c = appList that")
    case False
    then have l: "appList c = map (inherit (appList this)) (appList that)"
      by (auto simp: lists(1) merged_apps_def updateAppList_list split: if_splits)
    have "distinct (map app_id (appList c))" using assms(1) by (simp add: l comp_def inherit_facts)
    then have "inherit (appList c) a = inherit (appList this) a" if "a \<in> set (appList that)" for a
      using inherit_from [of "appList c" "inherit (appList this) a" a] that
        inherit_facts [of "appList c" a] inherit_facts [of "appList this" a]
      by (intro nv_app.equality) (auto simp: l inherit_facts)
    then show ?thesis using False by (simp add: merged_apps_def updateAppList_list l)
  qed (auto simp: merged_apps_def updateAppList_list)
  moreover have "merged_tested c that = m_TestedAddresses c"
    by (auto simp: merged_tested_def lists(2))
  moreover have "merged c that = c" using merged_idem assms(2) by simp
  ultimately show ?thesis by (simp add: update_eq put_lists)
qed

text \<open>
  A report is absorbed at once: merging the same report again changes nothing and says so;
  and what the client must not lose is kept: a custom name, every address and certificate that the
  report does not replace, the host's identity and the addresses already tested.
\<close>
theorem update_settles:
  assumes "distinct (map app_id (appList that))" and "c = fst (update this that)"
  shows "update c that = (c, False)
    \<and> (hasCustomName this \<longrightarrow> comp_name c = comp_name this) \<and> comp_uuid c = comp_uuid this
    \<and> (\<not> null_address (localAddress this) \<longrightarrow> \<not> null_address (localAddress c))
    \<and> (\<not> null_address (remoteAddress this) \<longrightarrow> \<not> null_address (remoteAddress c))
    \<and> (\<not> null_address (ipv6Address this) \<longrightarrow> \<not> null_address (ipv6Address c))
    \<and> (\<not> null_address (manualAddress this) \<longrightarrow> \<not> null_address (manualAddress c))
    \<and> (serverCert this \<noteq> [] \<longrightarrow> serverCert c \<noteq> [])
    \<and> set (m_TestedAddresses this) \<subseteq> set (m_TestedAddresses c)"
proof -
  have "update c that = (c, False)" using update_again assms by simp
  moreover have "m_TestedAddresses c = merged_tested this that"
      "comp_name c = (if hasCustomName this then comp_name this else comp_name that)"
      "comp_uuid c = comp_uuid this"
      "localAddress c = newer_address (localAddress this) (localAddress that)"
      "remoteAddress c = newer_address (remoteAddress this) (remoteAddress that)"
      "ipv6Address c = newer_address (ipv6Address this) (ipv6Address that)"
      "manualAddress c = newer_address (manualAddress this) (manualAddress that)"
      "serverCert c = (if serverCert that = [] then serverCert this else serverCert that)"
    using assms(2) by (simp_all add: update_eq merged_def Let_def)
  ultimately show ?thesis
    by (simp add: newer_address_def) (auto simp: merged_tested_def)
qed

section \<open>A concrete host\<close>

definition unknown_host :: nv_computer where
  "unknown_host = \<lparr>comp_state = CS_UNKNOWN, pair_status = PS_UNKNOWN, activeAddress = no_address,
     pinnedAddress = no_address, activeHttpsPort = 0, currentGameId = 0, gfeVersion = [],
     appVersion = [], displayModes = [], maxLumaPixelsHEVC = 0, serverCodecModeSupport = 0,
     gpuModel = [], isSupportedServerVersion = True, localAddress = no_address,
     remoteAddress = no_address, ipv6Address = no_address, manualAddress = no_address,
     macAddress = [], comp_name = [], hasCustomName = False, comp_uuid = [], serverCert = [],
     appList = [], isNvidiaServerSoftware = False, pendingQuit = False, externalPort = 0,
     m_TestedAddresses = [], m_HasReachability = False, m_ReachabilityAddress = no_address,
     m_Reachability = RI_UNKNOWN\<rparr>"

definition game :: nv_app where
  "game = \<lparr>app_name = ''Game'', app_id = 7, hdr_supported = False, app_collector = False,
     hidden = False, direct_launch = False\<rparr>"

definition desk :: nv_computer where
  "desk = unknown_host\<lparr>comp_state := CS_ONLINE, pair_status := PS_PAIRED, comp_name := ''desk'',
     comp_uuid := ''u1'', localAddress := \<lparr>m_Address = ''10.0.0.2'', m_Port = 47989\<rparr>,
     activeAddress := \<lparr>m_Address = ''10.0.0.2'', m_Port = 47989\<rparr>, appList := [game]\<rparr>"

lemmas host_defs = desk_def unknown_host_def game_def no_address_def

lemma desk_members [simp]:
  "comp_name desk = ''desk''" "appList desk = [game]" "currentGameId desk = 0"
  by (simp_all add: desk_def unknown_host_def)

theorem app_list_keeps_client_attributes_witness:
  "hidden (hd (appList (fst (updateAppList [game, game\<lparr>app_id := 8\<rparr>] (desk\<lparr>appList := [game\<lparr>hidden := True\<rparr>]\<rparr>)))))"
  using app_list_keeps_client_attributes [of "desk\<lparr>appList := [game\<lparr>hidden := True\<rparr>]\<rparr>"
      "game\<lparr>hidden := True\<rparr>" "[game, game\<lparr>app_id := 8\<rparr>]" "game\<lparr>hidden := True\<rparr>"]
  by (simp add: host_defs updateAppList_def propagate_def)

theorem app_list_spurious_change_witness:
  "snd (updateAppList [game] (desk\<lparr>appList := [game\<lparr>hidden := True\<rparr>]\<rparr>))
   \<and> fst (updateAppList [game] (desk\<lparr>appList := [game\<lparr>hidden := True\<rparr>]\<rparr>)) = desk\<lparr>appList := [game\<lparr>hidden := True\<rparr>]\<rparr>"
  using app_list_spurious_change [of "desk\<lparr>appList := [game\<lparr>hidden := True\<rparr>]\<rparr>"]
  by (simp add: game_def from_server_def)

theorem update_settles_witness:
  "update (fst (update (desk\<lparr>hasCustomName := True\<rparr>) (desk\<lparr>comp_name := ''other'', currentGameId := 7\<rparr>)))
     (desk\<lparr>comp_name := ''other'', currentGameId := 7\<rparr>)
   = (fst (update (desk\<lparr>hasCustomName := True\<rparr>) (desk\<lparr>comp_name := ''other'', currentGameId := 7\<rparr>)), False)
   \<and> comp_name (fst (update (desk\<lparr>hasCustomName := True\<rparr>) (desk\<lparr>comp_name := ''other'', currentGameId := 7\<rparr>))) = ''desk''"
  using update_settles [of "desk\<lparr>comp_name := ''other'', currentGameId := 7\<rparr>"
      "fst (update (desk\<lparr>hasCustomName := True\<rparr>) (desk\<lparr>comp_name := ''other'', currentGameId := 7\<rparr>))"
      "desk\<lparr>hasCustomName := True\<rparr>"]
  by (simp add: host_defs)

theorem unique_addresses_witness:
  "hd (uniqueAddresses (pinAddress \<lparr>m_Address = ''h'', m_Port = 1\<rparr> desk)) = \<lparr>m_Address = ''h'', m_Port = 1\<rparr>"
  using unique_addresses [of "pinAddress \<lparr>m_Address = ''h'', m_Port = 1\<rparr> desk"]
  by (simp add: pinAddress_def null_address_def)

end
