(* ===== verification/HostStore.thy ===== *)
theory HostStore
  imports HostModel "HOL-Library.List_Lexorder" "HOL-Library.Char_ord"
begin

text \<open>
  How the known hosts are kept in the settings store (\<open>DelayedFlushThread::run\<close> and the constructor of
  \<open>ComputerManager\<close> in \<open>src/app/backend/computermanager.cpp\<close>, the \<open>QSettings\<close> constructors and
  \<open>serialize\<close> of \<open>NvComputer\<close> and \<open>NvApp\<close>). \<open>QSettings\<close> is a map from paths to values; a group in an
  array is a path element \<open>Index\<close>, numbered from 1. Saving is the list of its elementary writes, so
  that what a crash leaves behind is an initial segment of them.
\<close>

section \<open>The settings store\<close>

datatype part = Name string | Index nat

type_synonym path = "part list"
type_synonym 'v hosts_store = "path \<Rightarrow> 'v option"

text \<open>
  How a \<open>QVariant\<close> holds the types the code stores, and the PEM form of a certificate.
\<close>

record 'v host_codec =
  put_text :: "string \<Rightarrow> 'v"
  put_flag :: "bool \<Rightarrow> 'v"
  put_number :: "int \<Rightarrow> 'v"
  put_bytes :: "bytes \<Rightarrow> 'v"
  get_text :: "'v \<Rightarrow> string"
  get_flag :: "'v \<Rightarrow> bool"
  get_number :: "'v \<Rightarrow> int"
  get_bytes :: "'v \<Rightarrow> bytes"
  to_pem :: "bytes \<Rightarrow> bytes"
  from_pem :: "bytes \<Rightarrow> bytes"

datatype 'v store_write = Set path 'v | Remove path

fun perform :: "'v store_write \<Rightarrow> 'v hosts_store \<Rightarrow> 'v hosts_store" where
  "perform (Set k v) s = s(k \<mapsto> v)"
| "perform (Remove k) s = (\<lambda>k'. if take (length k) k' = k then None else s k')"

definition performs :: "'v store_write list \<Rightarrow> 'v hosts_store \<Rightarrow> 'v hosts_store" where
  "performs ws s = fold perform ws s"

text \<open>\<open>value(key, default)\<close> and the conversion; a missing value converts to the default of its type.\<close>

definition text_at :: "'v host_codec \<Rightarrow> 'v hosts_store \<Rightarrow> path \<Rightarrow> string" where
  "text_at q s k = (case s k of None \<Rightarrow> [] | Some v \<Rightarrow> get_text q v)"

definition flag_at :: "'v host_codec \<Rightarrow> 'v hosts_store \<Rightarrow> path \<Rightarrow> bool" where
  "flag_at q s k = (case s k of None \<Rightarrow> False | Some v \<Rightarrow> get_flag q v)"

definition number_at :: "'v host_codec \<Rightarrow> 'v hosts_store \<Rightarrow> path \<Rightarrow> int \<Rightarrow> int" where
  "number_at q s k d = (case s k of None \<Rightarrow> d | Some v \<Rightarrow> get_number q v)"

definition bytes_at :: "'v host_codec \<Rightarrow> 'v hosts_store \<Rightarrow> path \<Rightarrow> bytes" where
  "bytes_at q s k = (case s k of None \<Rightarrow> [] | Some v \<Rightarrow> get_bytes q v)"

lemmas at_defs = text_at_def flag_at_def number_at_def bytes_at_def

text \<open>
  Arrays: \<open>beginWriteArray\<close> removes the size, \<open>setArrayIndex(i)\<close> opens the group \<open>i + 1\<close>, \<open>endArray\<close>
  writes the largest index used as the size.
\<close>

fun elements :: "(path \<Rightarrow> 'x \<Rightarrow> 'v store_write list) \<Rightarrow> path \<Rightarrow> nat \<Rightarrow> 'x list \<Rightarrow> 'v store_write list" where
  "elements item p i [] = []"
| "elements item p i (x # xs) = item (p @ [Index (Suc i)]) x @ elements item p (Suc i) xs"

definition write_array ::
  "'v host_codec \<Rightarrow> (path \<Rightarrow> 'x \<Rightarrow> 'v store_write list) \<Rightarrow> path \<Rightarrow> 'x list \<Rightarrow> 'v store_write list" where
  "write_array q item p xs =
     Remove (p @ [Name ''size'']) # elements item p 0 xs
       @ [Set (p @ [Name ''size'']) (put_number q (int (length xs)))]"

definition array_size :: "'v host_codec \<Rightarrow> 'v hosts_store \<Rightarrow> path \<Rightarrow> int" where
  "array_size q s p = number_at q s (p @ [Name ''size'']) 0"

definition read_array ::
  "('v hosts_store \<Rightarrow> path \<Rightarrow> 'x) \<Rightarrow> 'v hosts_store \<Rightarrow> path \<Rightarrow> int \<Rightarrow> 'x list" where
  "read_array item s p n = map (\<lambda>i. item s (p @ [Index (Suc i)])) [0..<nat n]"

section \<open>Apps and hosts\<close>

text \<open>\<open>NvApp::serialize\<close> and the constructor.\<close>

definition app_writes :: "'v host_codec \<Rightarrow> path \<Rightarrow> nv_app \<Rightarrow> 'v store_write list" where
  "app_writes q p a =
    [Set (p @ [Name ''name'']) (put_text q (app_name a)),
     Set (p @ [Name ''id'']) (put_number q (app_id a)),
     Set (p @ [Name ''hdr'']) (put_flag q (hdr_supported a)),
     Set (p @ [Name ''appcollector'']) (put_flag q (app_collector a)),
     Set (p @ [Name ''hidden'']) (put_flag q (hidden a)),
     Set (p @ [Name ''directlaunch'']) (put_flag q (direct_launch a))]"

definition read_app :: "'v host_codec \<Rightarrow> 'v hosts_store \<Rightarrow> path \<Rightarrow> nv_app" where
  "read_app q s p =
    \<lparr>app_name = text_at q s (p @ [Name ''name'']),
     app_id = number_at q s (p @ [Name ''id'']) 0,
     hdr_supported = flag_at q s (p @ [Name ''hdr'']),
     app_collector = flag_at q s (p @ [Name ''appcollector'']),
     hidden = flag_at q s (p @ [Name ''hidden'']),
     direct_launch = flag_at q s (p @ [Name ''directlaunch''])\<rparr>"

text \<open>\<open>NvComputer::serialize\<close> and the constructor.\<close>

definition host_writes :: "'v host_codec \<Rightarrow> bool \<Rightarrow> path \<Rightarrow> nv_computer \<Rightarrow> 'v store_write list" where
  "host_writes q serializeApps p c =
    [Set (p @ [Name ''hostname'']) (put_text q (comp_name c)),
     Set (p @ [Name ''customname'']) (put_flag q (hasCustomName c)),
     Set (p @ [Name ''uuid'']) (put_text q (comp_uuid c)),
     Set (p @ [Name ''mac'']) (put_bytes q (macAddress c)),
     Set (p @ [Name ''localaddress'']) (put_text q (m_Address (localAddress c))),
     Set (p @ [Name ''localport'']) (put_number q (uint (m_Port (localAddress c)))),
     Set (p @ [Name ''remoteaddress'']) (put_text q (m_Address (remoteAddress c))),
     Set (p @ [Name ''remoteport'']) (put_number q (uint (m_Port (remoteAddress c)))),
     Set (p @ [Name ''ipv6address'']) (put_text q (m_Address (ipv6Address c))),
     Set (p @ [Name ''ipv6port'']) (put_number q (uint (m_Port (ipv6Address c)))),
     Set (p @ [Name ''manualaddress'']) (put_text q (m_Address (manualAddress c))),
     Set (p @ [Name ''manualport'']) (put_number q (uint (m_Port (manualAddress c)))),
     Set (p @ [Name ''srvcert'']) (put_bytes q (to_pem q (serverCert c))),
     Set (p @ [Name ''nvidiasw'']) (put_flag q (isNvidiaServerSoftware c))]
    @ (if appList c \<noteq> [] \<and> serializeApps
       then Remove (p @ [Name ''apps'']) # write_array q (app_writes q) (p @ [Name ''apps'']) (appList c)
       else [])"

definition DEFAULT_HTTP_PORT :: int where "DEFAULT_HTTP_PORT = 47989"

definition read_address :: "'v host_codec \<Rightarrow> 'v hosts_store \<Rightarrow> path \<Rightarrow> path \<Rightarrow> nv_address" where
  "read_address q s addr port =
    \<lparr>m_Address = text_at q s addr, m_Port = of_int (number_at q s port DEFAULT_HTTP_PORT)\<rparr>"

definition read_host :: "'v host_codec \<Rightarrow> 'v hosts_store \<Rightarrow> path \<Rightarrow> nv_computer" where
  "read_host q s p =
    (let remote = read_address q s (p @ [Name ''remoteaddress'']) (p @ [Name ''remoteport''])
     in unknown_host\<lparr>
       comp_name := text_at q s (p @ [Name ''hostname'']),
       comp_uuid := text_at q s (p @ [Name ''uuid'']),
       hasCustomName := flag_at q s (p @ [Name ''customname'']),
       macAddress := bytes_at q s (p @ [Name ''mac'']),
       localAddress := read_address q s (p @ [Name ''localaddress'']) (p @ [Name ''localport'']),
       remoteAddress := remote,
       ipv6Address := read_address q s (p @ [Name ''ipv6address'']) (p @ [Name ''ipv6port'']),
       manualAddress := read_address q s (p @ [Name ''manualaddress'']) (p @ [Name ''manualport'']),
       serverCert := from_pem q (bytes_at q s (p @ [Name ''srvcert''])),
       isNvidiaServerSoftware := flag_at q s (p @ [Name ''nvidiasw'']),
       appList := read_array (read_app q) s (p @ [Name ''apps'']) (array_size q s (p @ [Name ''apps''])),
       currentGameId := 0, pair_status := PS_UNKNOWN, comp_state := CS_UNKNOWN, gfeVersion := [],
       appVersion := [], maxLumaPixelsHEVC := 0, serverCodecModeSupport := 0, pendingQuit := False,
       gpuModel := [], isSupportedServerVersion := True, externalPort := m_Port remote,
       activeHttpsPort := 0\<rparr>)"

text \<open>\<open>isEqualSerialized\<close>.\<close>

definition isEqualSerialized :: "nv_computer \<Rightarrow> nv_computer \<Rightarrow> bool" where
  "isEqualSerialized this that \<longleftrightarrow>
     comp_name this = comp_name that \<and> hasCustomName this = hasCustomName that
   \<and> comp_uuid this = comp_uuid that \<and> macAddress this = macAddress that
   \<and> localAddress this = localAddress that \<and> remoteAddress this = remoteAddress that
   \<and> ipv6Address this = ipv6Address that \<and> manualAddress this = manualAddress that
   \<and> serverCert this = serverCert that
   \<and> isNvidiaServerSoftware this = isNvidiaServerSoftware that \<and> appList this = appList that"

section \<open>All hosts\<close>

text \<open>
  \<open>QMap\<close> keeps the hosts in the order of their identifiers; assigning to a key replaces its host.
\<close>

type_synonym host_map = "(string \<times> nv_computer) list"

fun insert_host :: "string \<Rightarrow> nv_computer \<Rightarrow> host_map \<Rightarrow> host_map" where
  "insert_host k c [] = [(k, c)]"
| "insert_host k c ((k', c') # m) =
     (if k < k' then (k, c) # (k', c') # m
      else if k = k' then (k, c) # m
      else (k', c') # insert_host k c m)"

definition SER_HOSTS :: path where "SER_HOSTS = [Name ''hosts'']"
definition SER_HOSTS_BACKUP :: path where "SER_HOSTS_BACKUP = [Name ''hostsbackup'']"

text \<open>The constructor of \<open>ComputerManager\<close>.\<close>

definition load_hosts :: "'v host_codec \<Rightarrow> 'v hosts_store \<Rightarrow> host_map" where
  "load_hosts q s =
     (let hosts = array_size q s SER_HOSTS_BACKUP;
          cs = (if hosts = 0 then read_array (read_host q) s SER_HOSTS (array_size q s SER_HOSTS)
                else read_array (read_host q) s SER_HOSTS_BACKUP hosts)
      in foldl (\<lambda>m c. insert_host (comp_uuid c) c m) [] cs)"

text \<open>
  A flush: the hosts are read again, under the lock, for the backup (\<open>h1\<close>) and for the primary
  location (\<open>h2\<close>).
\<close>

definition backup_writes :: "'v host_codec \<Rightarrow> nv_computer list \<Rightarrow> 'v store_write list" where
  "backup_writes q h1 = write_array q (host_writes q False) SER_HOSTS_BACKUP h1"

definition primary_writes :: "'v host_codec \<Rightarrow> nv_computer list \<Rightarrow> 'v store_write list" where
  "primary_writes q h2 =
     Remove SER_HOSTS # write_array q (host_writes q True) SER_HOSTS h2 @ [Remove SER_HOSTS_BACKUP]"

definition flush_writes :: "'v host_codec \<Rightarrow> nv_computer list \<Rightarrow> nv_computer list \<Rightarrow> 'v store_write list" where
  "flush_writes q h1 h2 = backup_writes q h1 @ primary_writes q h2"

section \<open>Parts of the store\<close>

definition sub :: "'v hosts_store \<Rightarrow> path \<Rightarrow> 'v hosts_store" where
  "sub s p = (\<lambda>k. s (p @ k))"

fun lift :: "path \<Rightarrow> 'v store_write \<Rightarrow> 'v store_write" where
  "lift p (Set k v) = Set (p @ k) v"
| "lift p (Remove k) = Remove (p @ k)"

fun target :: "'v store_write \<Rightarrow> path" where
  "target (Set k v) = k"
| "target (Remove k) = k"

definition below :: "path \<Rightarrow> path \<Rightarrow> bool" where
  "below p k \<longleftrightarrow> take (length p) k = p"

lemma below_iff: "below p k \<longleftrightarrow> (\<exists>r. k = p @ r)"
  unfolding below_def by (metis append_eq_conv_conj append_take_drop_id)

lemma below_append [simp]: "below p (p @ k)" "below p p"
  by (simp_all add: below_def)

lemma below_Cons [simp]: "below (a # p) (b # k) \<longleftrightarrow> a = b \<and> below p k"
  by (auto simp: below_def)

lemma below_Nil [simp]: "below [] k" "below (a # p) [] = False"
  by (simp_all add: below_def)

lemma below_same [simp]: "below (p @ r) (p @ k) \<longleftrightarrow> below r k"
  by (auto simp: below_iff)

lemma below_trans: "below p k \<Longrightarrow> below k l \<Longrightarrow> below p l"
  by (auto simp: below_iff)

lemma performs_simps [simp]:
  "performs [] s = s" "performs (w # ws) s = performs ws (perform w s)"
  "performs (ws @ ws') s = performs ws' (performs ws s)"
  by (simp_all add: performs_def)

lemma perform_other: "\<not> below p k \<Longrightarrow> below p (target w) \<Longrightarrow> perform w s k = s k"
  by (cases w) (auto simp: below_def [symmetric] dest: below_trans)

lemma performs_keep:
  "list_all (\<lambda>w. \<exists>p. below p (target w) \<and> \<not> below p k) ws \<Longrightarrow> performs ws s k = s k"
  by (induction ws arbitrary: s) (auto simp: perform_other)

lemma performs_other:
  "list_all (\<lambda>w. below p (target w)) ws \<Longrightarrow> \<not> below p k \<Longrightarrow> performs ws s k = s k"
  by (rule performs_keep) (auto simp: list_all_iff)

lemma target_lift [simp]: "target (lift p w) = p @ target w"
  by (cases w) simp_all

lemma lift_lift [simp]: "lift p (lift r w) = lift (p @ r) w"
  by (cases w) simp_all

lemma sub_other:
  "list_all (\<lambda>w. below p (target w)) ws \<Longrightarrow> (\<And>k. \<not> below p (p' @ k)) \<Longrightarrow>
   sub (performs ws s) p' = sub s p'"
  by (rule ext) (simp add: sub_def performs_other)

lemma sub_perform: "sub (perform (lift p w) s) p = perform w (sub s p)"
  by (cases w) (auto simp: sub_def fun_eq_iff below_def [symmetric])

lemma sub_performs: "sub (performs (map (lift p) ws) s) p = performs ws (sub s p)"
  by (induction ws arbitrary: s) (simp_all add: sub_perform)

lemma sub_sub: "sub (sub s p) r = sub s (p @ r)"
  by (simp add: sub_def)

text \<open>Two different elements of a path lead to different parts.\<close>

lemma below_branch: "a \<noteq> b \<Longrightarrow> \<not> below (p @ a # r) ((p @ [b]) @ k)"
  by simp

section \<open>Arrays\<close>

text \<open>
  What an array of the store needs from its elements: their writes and their reader work at any
  path alike, and what is written to a clean part is read back.
\<close>

definition faithful_hosts :: "'v host_codec \<Rightarrow> bool" where
  "faithful_hosts q \<longleftrightarrow> (\<forall>x. get_text q (put_text q x) = x) \<and> (\<forall>x. get_flag q (put_flag q x) = x)
     \<and> (\<forall>x. get_number q (put_number q x) = x) \<and> (\<forall>x. get_bytes q (put_bytes q x) = x)
     \<and> (\<forall>x. from_pem q (to_pem q x) = x)"

locale array_item =
  fixes item :: "path \<Rightarrow> 'x \<Rightarrow> 'v store_write list"
    and reader :: "'v hosts_store \<Rightarrow> path \<Rightarrow> 'x"
    and clean :: "'v hosts_store \<Rightarrow> bool"
    and kept :: "'x \<Rightarrow> 'x"
  assumes item_at: "item p x = map (lift p) (item [] x)"
    and reader_at: "reader s p = reader (sub s p) []"
    and reads_back: "clean s \<Longrightarrow> reader (performs (item [] x) s) [] = kept x"
begin

lemma item_targets: "list_all (\<lambda>w. below p (target w)) (item p x)"
  by (subst item_at) (simp add: list_all_iff)

lemma elements_targets: "list_all (\<lambda>w. \<exists>j>i. below (p @ [Index j]) (target w)) (elements item p i xs)"
proof (induction xs arbitrary: i)
  case (Cons x xs)
  have "list_all (\<lambda>w. \<exists>j>i. below (p @ [Index j]) (target w)) (item (p @ [Index (Suc i)]) x)"
    using item_targets [of "p @ [Index (Suc i)]" x] by (auto simp: list_all_iff)
  moreover have "list_all (\<lambda>w. \<exists>j>i. below (p @ [Index j]) (target w)) (elements item p (Suc i) xs)"
    using Cons.IH [of "Suc i"] unfolding list_all_iff by (meson Suc_lessD)
  ultimately show ?case by simp
qed simp

lemma elements_below: "list_all (\<lambda>w. below p (target w)) (elements item p i xs)"
  using elements_targets [of i p xs] by (auto simp: list_all_iff below_iff)

lemma elements_keep:
  "(\<And>j. j > i \<Longrightarrow> \<not> below (p @ [Index j]) k) \<Longrightarrow> performs (elements item p i xs) s k = s k"
proof (induction xs arbitrary: i s)
  case (Cons x xs)
  have "performs (item (p @ [Index (Suc i)]) x) s k = s k"
    using Cons.prems [of "Suc i"] by (intro performs_other [OF item_targets]) simp
  then show ?case using Cons by simp
qed simp

lemma elements_sub:
  "i \<le> j \<Longrightarrow> j < i + length xs \<Longrightarrow>
   sub (performs (elements item p i xs) s) (p @ [Index (Suc j)]) =
     performs (item [] (xs ! (j - i))) (sub s (p @ [Index (Suc j)]))"
proof (induction xs arbitrary: i s)
  case (Cons x xs)
  let ?s = "performs (item (p @ [Index (Suc i)]) x) s"
  show ?case
  proof (cases "j = i")
    case True
    have "sub (performs (elements item p (Suc i) xs) ?s) (p @ [Index (Suc j)]) = sub ?s (p @ [Index (Suc j)])"
      unfolding sub_def using True by (intro ext elements_keep) simp
    then show ?thesis using True sub_performs [of "p @ [Index (Suc j)]" "item [] x" s]
      by (simp add: item_at [of "p @ [Index (Suc i)]"])
  next
    case False
    have "sub ?s (p @ [Index (Suc j)]) = sub s (p @ [Index (Suc j)])"
      using False by (intro sub_other [OF item_targets]) simp
    then show ?thesis using Cons.IH [of "Suc i" ?s] Cons.prems False
      by (simp add: nth_Cons' Suc_diff_le)
  qed
qed simp

lemma array_targets: "list_all (\<lambda>w. below p (target w)) (write_array q item p xs)"
  using elements_below [of p 0 xs] by (simp add: write_array_def)

lemma array_unsized:
  "n < length (write_array q item p xs) \<Longrightarrow> s (p @ [Name ''size'']) = None \<or> 0 < n \<Longrightarrow>
   performs (take n (write_array q item p xs)) s (p @ [Name ''size'']) = None"
proof -
  assume n: "n < length (write_array q item p xs)" and s: "s (p @ [Name ''size'']) = None \<or> 0 < n"
  let ?es = "elements item p 0 xs"
  show ?thesis
  proof (cases n)
    case (Suc m)
    have "\<exists>r. below r (target w) \<and> \<not> below r (p @ [Name ''size''])" if "w \<in> set (take m ?es)" for w
    proof -
      from in_set_takeD [OF that] obtain j where "below (p @ [Index j]) (target w)"
        using elements_targets [of 0 p xs] by (auto simp: list_all_iff)
      then show ?thesis by (intro exI [of _ "p @ [Index j]"]) simp
    qed
    then have "performs (take m ?es) t (p @ [Name ''size'']) = t (p @ [Name ''size''])" for t
      by (intro performs_keep) (simp add: list_all_iff)
    then show ?thesis using n Suc by (simp add: write_array_def)
  qed (use s in simp)
qed

lemma array_roundtrip:
  assumes "faithful_hosts q" and "\<And>i. i < length xs \<Longrightarrow> clean (sub s (p @ [Index (Suc i)]))"
  shows "array_size q (performs (write_array q item p xs) s) p = int (length xs)"
    and "read_array reader (performs (write_array q item p xs) s) p (int (length xs)) = map kept xs"
proof -
  let ?s = "perform (Remove (p @ [Name ''size''])) s" and ?z = "p @ [Name ''size'']"
  let ?e = "performs (elements item p 0 xs) ?s"
  have w: "performs (write_array q item p xs) s = ?e(?z \<mapsto> put_number q (int (length xs)))"
    by (simp add: write_array_def)
  show "array_size q (performs (write_array q item p xs) s) p = int (length xs)"
    unfolding w using assms(1) by (simp add: array_size_def at_defs faithful_hosts_def)
  have "reader (performs (write_array q item p xs) s) (p @ [Index (Suc i)]) = kept (xs ! i)"
    if i: "i < length xs" for i
  proof -
    have "sub (performs (write_array q item p xs) s) (p @ [Index (Suc i)]) = sub ?e (p @ [Index (Suc i)])"
      unfolding w by (simp add: sub_def fun_eq_iff)
    also have "\<dots> = performs (item [] (xs ! i)) (sub ?s (p @ [Index (Suc i)]))"
      using elements_sub [of 0 i xs p ?s] i by simp
    also have "sub ?s (p @ [Index (Suc i)]) = sub s (p @ [Index (Suc i)])"
      by (simp add: sub_def fun_eq_iff)
    finally show ?thesis
      by (subst reader_at) (simp add: reads_back assms(2) i)
  qed
  then show "read_array reader (performs (write_array q item p xs) s) p (int (length xs)) = map kept xs"
    unfolding read_array_def by (intro nth_equalityI) simp_all
qed

lemma elements_at: "elements item (p @ r) i xs = map (lift p) (elements item r i xs)"
proof (induction xs arbitrary: i)
  case (Cons x xs)
  have "item (p @ r @ [Index (Suc i)]) x = map (lift p) (item (r @ [Index (Suc i)]) x)"
    by (subst (1 2) item_at) (simp add: lift_lift)
  then show ?case using Cons by simp
qed simp

lemma array_at: "write_array q item (p @ r) xs = map (lift p) (write_array q item r xs)"
  by (simp add: write_array_def elements_at)

lemma read_array_at: "read_array reader s (p @ r) n = read_array reader (sub s p) r n"
proof -
  have "reader s (p @ r @ [Index (Suc i)]) = reader (sub s p) (r @ [Index (Suc i)])" for i
    by (subst (1 2) reader_at) (simp add: sub_sub)
  then show ?thesis by (simp add: read_array_def)
qed

end

section \<open>Saving and loading one host\<close>

interpretation apps: array_item "app_writes q" "read_app q" "\<lambda>s. faithful_hosts q" "\<lambda>a. a"
  for q :: "'v host_codec"
proof
  show "app_writes q p a = map (lift p) (app_writes q [] a)" for p a
    by (simp add: app_writes_def)
  show "read_app q s p = read_app q (sub s p) []" for s p
    by (simp add: read_app_def at_defs sub_def)
  show "faithful_hosts q \<Longrightarrow> read_app q (performs (app_writes q [] a) s) [] = a" for s a
    by (simp add: faithful_hosts_def read_app_def app_writes_def at_defs)
qed

text \<open>What of a host survives: the saved members, and the app list if it is saved.\<close>

definition restored :: "bool \<Rightarrow> nv_computer \<Rightarrow> nv_computer" where
  "restored apps c = unknown_host\<lparr>comp_name := comp_name c, comp_uuid := comp_uuid c,
     hasCustomName := hasCustomName c, macAddress := macAddress c, localAddress := localAddress c,
     remoteAddress := remoteAddress c, ipv6Address := ipv6Address c, manualAddress := manualAddress c,
     serverCert := serverCert c, isNvidiaServerSoftware := isNvidiaServerSoftware c,
     appList := (if apps then appList c else []), externalPort := m_Port (remoteAddress c)\<rparr>"

lemma address_eta: "\<lparr>m_Address = m_Address a, m_Port = m_Port a\<rparr> = a"
  by (cases a) simp

definition no_apps_at :: "'v hosts_store \<Rightarrow> bool" where
  "no_apps_at s \<longleftrightarrow> (\<forall>k. s (Name ''apps'' # k) = None)"

definition host_apps :: "'v host_codec \<Rightarrow> bool \<Rightarrow> nv_computer \<Rightarrow> 'v store_write list" where
  "host_apps q b c =
     (if appList c \<noteq> [] \<and> b
      then Remove [Name ''apps''] # write_array q (app_writes q) [Name ''apps''] (appList c) else [])"

lemma host_apps_below: "list_all (\<lambda>w. below [Name ''apps''] (target w)) (host_apps q b c)"
  by (simp add: host_apps_def apps.array_targets)

lemma host_apps_read:
  assumes "faithful_hosts q" and "no_apps_at s"
  shows "read_array (read_app q) (performs (host_apps q b c) s) [Name ''apps'']
    (array_size q (performs (host_apps q b c) s) [Name ''apps'']) = (if b then appList c else [])"
proof (cases "appList c \<noteq> [] \<and> b")
  case True
  then show ?thesis using assms(1) by (simp add: host_apps_def apps.array_roundtrip)
next
  case False
  then have "host_apps q b c = []" by (simp add: host_apps_def)
  moreover have "array_size q s [Name ''apps''] = 0"
    using assms(2) by (simp add: array_size_def number_at_def no_apps_at_def)
  ultimately show ?thesis using False by (auto simp: read_array_def)
qed

interpretation hosts: array_item "host_writes q b" "read_host q" "\<lambda>s. faithful_hosts q \<and> no_apps_at s" "restored b"
  for q :: "'v host_codec" and b
proof
  show "host_writes q b p c = map (lift p) (host_writes q b [] c)" for p c
    by (simp add: host_writes_def apps.array_at)
  show "read_host q s p = read_host q (sub s p) []" for s p
    unfolding read_host_def apps.read_array_at [of _ s p "[Name ''apps'']"]
    by (simp add: read_address_def array_size_def at_defs sub_def Let_def)
  show "read_host q (performs (host_writes q b [] c) s) [] = restored b c"
    if "faithful_hosts q \<and> no_apps_at s" for s c
  proof -
    define t where "t = performs (take 14 (host_writes q b [] c)) s"
    have w: "performs (host_writes q b [] c) s = performs (host_apps q b c) t"
      by (simp add: host_writes_def host_apps_def t_def)
    have "no_apps_at t" using that by (simp add: no_apps_at_def t_def host_writes_def)
    then have apps: "read_array (read_app q) (performs (host_apps q b c) t) [Name ''apps'']
        (array_size q (performs (host_apps q b c) t) [Name ''apps'']) = (if b then appList c else [])"
      using that by (intro host_apps_read) simp_all
    have one: "performs (host_apps q b c) t [Name n] = t [Name n]" if "n \<noteq> ''apps''" for n
      using that by (intro performs_other [OF host_apps_below]) simp
    show ?thesis unfolding w read_host_def Let_def append_Nil apps read_address_def at_defs
      using that by (simp add: one) (simp add: t_def host_writes_def faithful_hosts_def restored_def address_eta unknown_host_def)
  qed
qed

section \<open>All hosts\<close>

definition known :: "nv_computer list \<Rightarrow> host_map" where
  "known cs = foldl (\<lambda>m c. insert_host (comp_uuid c) c m) [] cs"

lemma insert_host_last:
  "sorted_wrt (<) (map fst m @ [k]) \<Longrightarrow> insert_host k c m = m @ [(k, c)]"
  by (induction m) auto

lemma known_sorted:
  "sorted_wrt (<) (map comp_uuid cs) \<Longrightarrow> known cs = map (\<lambda>c. (comp_uuid c, c)) cs"
proof (induction cs rule: rev_induct)
  case (snoc c cs)
  then have "known cs = map (\<lambda>c. (comp_uuid c, c)) cs" by (simp add: sorted_wrt_append)
  then show ?case using snoc.prems insert_host_last [of "known cs" "comp_uuid c" c]
    by (simp add: known_def comp_def sorted_wrt_append)
qed (simp add: known_def)

lemma restored_uuid [simp]: "comp_uuid (restored b c) = comp_uuid c"
  by (simp add: restored_def)

text \<open>A map of hosts as \<open>ComputerManager\<close> keeps it: in order, each host under its identifier.\<close>

definition host_map :: "host_map \<Rightarrow> bool" where
  "host_map m \<longleftrightarrow> sorted_wrt (<) (map fst m) \<and> (\<forall>(k, c)\<in>set m. k = comp_uuid c)"

definition restored_map :: "bool \<Rightarrow> host_map \<Rightarrow> host_map" where
  "restored_map b m = map (\<lambda>(k, c). (k, restored b c)) m"

lemma known_restored:
  assumes "host_map m"
  shows "known (map (restored b) (map snd m)) = restored_map b m"
proof -
  have k: "map (comp_uuid \<circ> snd) m = map fst m" using assms by (auto simp: host_map_def)
  have "map comp_uuid (map (restored b) (map snd m)) = map fst m" using k by simp
  then have "sorted_wrt (<) (map comp_uuid (map (restored b) (map snd m)))"
    using assms unfolding host_map_def by presburger
  then have "known (map (restored b) (map snd m)) =
      map (\<lambda>c. (comp_uuid c, c)) (map (restored b) (map snd m))" by (rule known_sorted)
  also have "\<dots> = restored_map b m"
    using assms by (auto simp: restored_map_def host_map_def)
  finally show ?thesis .
qed

text \<open>No unfinished flush.\<close>

definition no_backup :: "'v hosts_store \<Rightarrow> bool" where
  "no_backup s \<longleftrightarrow> (\<forall>k. s (Name ''hostsbackup'' # k) = None)"

lemma location_paths [simp]:
  "\<not> below SER_HOSTS (SER_HOSTS_BACKUP @ k)" "\<not> below SER_HOSTS_BACKUP (SER_HOSTS @ k)"
  by (simp_all add: SER_HOSTS_def SER_HOSTS_BACKUP_def)

lemma load_of_parts:
  "load_hosts q s = (let b = sub s SER_HOSTS_BACKUP; p = sub s SER_HOSTS in
     if array_size q b [] = 0 then known (read_array (read_host q) p [] (array_size q p []))
     else known (read_array (read_host q) b [] (array_size q b [])))"
  using hosts.read_array_at [of q s SER_HOSTS "[]"] hosts.read_array_at [of q s SER_HOSTS_BACKUP "[]"]
  by (simp add: load_hosts_def known_def array_size_def number_at_def sub_def Let_def)

lemma backup_parts:
  assumes "faithful_hosts q" and "no_backup s"
  shows "sub (performs (take n (backup_writes q h)) s) SER_HOSTS = sub s SER_HOSTS"
    and "n < length (backup_writes q h) \<Longrightarrow>
      array_size q (sub (performs (take n (backup_writes q h)) s) SER_HOSTS_BACKUP) [] = 0"
    and "array_size q (sub (performs (backup_writes q h) s) SER_HOSTS_BACKUP) [] = int (length h)"
    and "read_array (read_host q) (sub (performs (backup_writes q h) s) SER_HOSTS_BACKUP) [] (int (length h)) =
      map (restored False) h"
proof -
  have t: "list_all (\<lambda>w. below SER_HOSTS_BACKUP (target w)) (take n (backup_writes q h))"
    using hosts.array_targets [of SER_HOSTS_BACKUP q q False h]
    by (auto simp: backup_writes_def list_all_iff dest: in_set_takeD)
  then show "sub (performs (take n (backup_writes q h)) s) SER_HOSTS = sub s SER_HOSTS"
    by (rule sub_other) simp
  show "array_size q (sub (performs (take n (backup_writes q h)) s) SER_HOSTS_BACKUP) [] = 0"
    if "n < length (backup_writes q h)"
    using hosts.array_unsized [of n q q False SER_HOSTS_BACKUP h s] that assms(2)
    by (simp add: backup_writes_def array_size_def number_at_def sub_def no_backup_def SER_HOSTS_BACKUP_def)
  have c: "faithful_hosts q \<and> no_apps_at (sub s (SER_HOSTS_BACKUP @ [Index i]))" for i
    using assms by (simp add: no_apps_at_def no_backup_def sub_def SER_HOSTS_BACKUP_def)
  show "array_size q (sub (performs (backup_writes q h) s) SER_HOSTS_BACKUP) [] = int (length h)"
    using hosts.array_roundtrip(1) [of q h q s SER_HOSTS_BACKUP False] assms(1) c
    by (simp add: backup_writes_def array_size_def number_at_def sub_def)
  show "read_array (read_host q) (sub (performs (backup_writes q h) s) SER_HOSTS_BACKUP) [] (int (length h)) =
      map (restored False) h"
    using hosts.array_roundtrip(2) [of q h q s SER_HOSTS_BACKUP False] assms(1) c
      hosts.read_array_at [of q _ SER_HOSTS_BACKUP "[]"]
    by (simp add: backup_writes_def)
qed

lemma primary_parts:
  fixes s :: "'v hosts_store" and h :: "nv_computer list"
  assumes "faithful_hosts q"
  defines "a \<equiv> Remove SER_HOSTS # write_array q (host_writes q True) SER_HOSTS h"
  shows "sub (performs (take n a) s) SER_HOSTS_BACKUP = sub s SER_HOSTS_BACKUP"
    and "0 < n \<Longrightarrow> n < length a \<Longrightarrow> array_size q (sub (performs (take n a) s) SER_HOSTS) [] = 0"
    and "array_size q (sub (performs a s) SER_HOSTS) [] = int (length h)"
    and "read_array (read_host q) (sub (performs a s) SER_HOSTS) [] (int (length h)) = map (restored True) h"
proof -
  let ?s = "perform (Remove SER_HOSTS) s"
  have t: "list_all (\<lambda>w. below SER_HOSTS (target w)) (take n a)"
    using hosts.array_targets [of SER_HOSTS q q True h]
    by (auto simp: a_def list_all_iff dest!: in_set_takeD)
  then show "sub (performs (take n a) s) SER_HOSTS_BACKUP = sub s SER_HOSTS_BACKUP"
    by (rule sub_other) simp
  have r: "?s (SER_HOSTS @ k) = None" for k by simp
  show "array_size q (sub (performs (take n a) s) SER_HOSTS) [] = 0" if "0 < n" "n < length a"
    using hosts.array_unsized [of "n - 1" q q True SER_HOSTS h ?s] that r
    by (cases n) (simp_all add: a_def array_size_def number_at_def sub_def)
  have c: "faithful_hosts q \<and> no_apps_at (sub ?s (SER_HOSTS @ [Index i]))" for i
    using assms(1) r by (simp add: no_apps_at_def sub_def)
  show "array_size q (sub (performs a s) SER_HOSTS) [] = int (length h)"
    using hosts.array_roundtrip(1) [of q h q ?s SER_HOSTS True] assms(1) c
    by (simp add: a_def array_size_def number_at_def sub_def)
  show "read_array (read_host q) (sub (performs a s) SER_HOSTS) [] (int (length h)) = map (restored True) h"
    using hosts.array_roundtrip(2) [of q h q ?s SER_HOSTS True] assms(1) c
      hosts.read_array_at [of q _ SER_HOSTS "[]"]
    by (simp add: a_def)
qed

lemma cut_cases:
  fixes n :: nat
  obtains "n < b" | i where "n = b + i" "i < a" | "n = b + a" | "b + a < n"
proof (cases "n < b")
  case False
  then have "n = b + (n - b)" by simp
  moreover have "n - b < a \<or> n = b + a \<or> b + a < n" using False by linarith
  ultimately show ?thesis using that by blast
qed (use that in blast)

lemma primary_done:
  assumes "faithful_hosts q"
  shows "load_hosts q (performs (primary_writes q h2) s) = known (map (restored True) h2)"
    and "no_backup (performs (primary_writes q h2) s)"
proof -
  let ?a = "Remove SER_HOSTS # write_array q (host_writes q True) SER_HOSTS h2"
  let ?s = "performs ?a s"
  have w: "performs (primary_writes q h2) s = perform (Remove SER_HOSTS_BACKUP) ?s"
    by (simp add: primary_writes_def)
  have b: "sub (perform (Remove SER_HOSTS_BACKUP) ?s) SER_HOSTS_BACKUP = (\<lambda>k. None)"
    by (simp add: sub_def fun_eq_iff)
  have p: "sub (perform (Remove SER_HOSTS_BACKUP) ?s) SER_HOSTS = sub ?s SER_HOSTS"
    by (simp add: sub_def fun_eq_iff SER_HOSTS_def SER_HOSTS_BACKUP_def)
  show "load_hosts q (performs (primary_writes q h2) s) = known (map (restored True) h2)"
    unfolding w load_of_parts b p Let_def primary_parts(3) [OF assms] primary_parts(4) [OF assms]
    by (simp add: array_size_def number_at_def)
  show "no_backup (performs (primary_writes q h2) s)"
    unfolding w by (simp add: no_backup_def SER_HOSTS_BACKUP_def)
qed

lemma flush_done:
  assumes "faithful_hosts q"
  shows "load_hosts q (performs (flush_writes q h1 h2) s) = known (map (restored True) h2)"
  by (simp add: flush_writes_def primary_done [OF assms])

text \<open>
  C6: Whatever the store held, after a flush a restarted client knows the same hosts: every saved
  member of every host, its apps with the attributes set on the client, in the same order.
\<close>
theorem hosts_roundtrip:
  assumes "faithful_hosts q" and "host_map m"
  shows "load_hosts q (performs (flush_writes q h1 (map snd m)) s) = restored_map True m
    \<and> list_all2 (\<lambda>(k, c) (k', c'). k' = k \<and> isEqualSerialized c' c) m
        (load_hosts q (performs (flush_writes q h1 (map snd m)) s))"
proof -
  have "load_hosts q (performs (flush_writes q h1 (map snd m)) s) = restored_map True m"
    using flush_done [OF assms(1)] known_restored [OF assms(2)] by metis
  moreover have "list_all2 (\<lambda>(k, c) (k', c'). k' = k \<and> isEqualSerialized c' c) m (restored_map True m)"
    by (auto simp: restored_map_def list_all2_conv_all_nth isEqualSerialized_def restored_def
        split: prod.splits)
  ultimately show ?thesis by simp
qed

text \<open>
  C7: A flush can be cut short after any of its writes. If no earlier flush was (there is no backup in the
  store), the restarted client has either the hosts of before, or the new ones, or the hosts the backup
  was made from without their app lists; never a part of them. After an earlier crash all can be lost:
  \<open>second_crash_loses_hosts\<close>.
\<close>
theorem crash_keeps_hosts:
  assumes "faithful_hosts q" and "no_backup s" and "host_map m1" and "host_map m2"
  shows "load_hosts q (performs (take n (flush_writes q (map snd m1) (map snd m2))) s)
    \<in> {load_hosts q s, restored_map False m1, restored_map True m2}"
proof -
  let ?h1 = "map snd m1" and ?h2 = "map snd m2"
  let ?b = "backup_writes q ?h1"
  let ?a = "Remove SER_HOSTS # write_array q (host_writes q True) SER_HOSTS ?h2"
  have fl: "flush_writes q ?h1 ?h2 = ?b @ ?a @ [Remove SER_HOSTS_BACKUP]"
    by (simp add: flush_writes_def primary_writes_def)
  have empty: "array_size q (sub s SER_HOSTS_BACKUP) [] = 0"
    using assms(2) by (simp add: array_size_def number_at_def sub_def no_backup_def SER_HOSTS_BACKUP_def)
  consider "n < length ?b" | i where "n = length ?b + i" "i < length ?a"
    | "n = length ?b + length ?a" | "length ?b + length ?a < n"
    by (rule cut_cases)
  then show ?thesis
  proof cases
    case 1
    then have "take n (flush_writes q ?h1 ?h2) = take n ?b" by (simp add: fl)
    then show ?thesis using backup_parts(1, 2) [OF assms(1, 2)] 1 empty by (simp add: load_of_parts)
  next
    case 2
    let ?s = "performs ?b s"
    have w: "performs (take n (flush_writes q ?h1 ?h2)) s = performs (take i ?a) ?s"
      using 2 by (cases i) (simp_all add: fl)
    show ?thesis
    proof (cases "m1 = []")
      case m1: True
      show ?thesis
      proof (cases "i = 0")
        case True
        then show ?thesis unfolding w load_of_parts
          using backup_parts(3) [OF assms(1, 2), of ?h1] m1 empty backup_parts(1) [OF assms(1, 2), of "length ?b" ?h1]
          by (simp add: Let_def)
      next
        case False
        then show ?thesis unfolding w load_of_parts
          using primary_parts(1, 2) [OF assms(1), of i ?h2 ?s] 2 m1 backup_parts(3) [OF assms(1, 2), of ?h1]
          by (simp add: Let_def read_array_def known_def restored_map_def)
      qed
    next
      case False
      then show ?thesis unfolding w load_of_parts primary_parts(1) [OF assms(1)]
        using backup_parts(3, 4) [OF assms(1, 2), of ?h1] known_restored [OF assms(3), of False]
        by (simp add: Let_def)
    qed
  next
    case 3
    let ?s = "performs ?b s"
    have w: "performs (take n (flush_writes q ?h1 ?h2)) s = performs ?a ?s"
      using 3 by (simp add: fl)
    have b: "sub (performs ?a ?s) SER_HOSTS_BACKUP = sub ?s SER_HOSTS_BACKUP"
      using primary_parts(1) [OF assms(1), of "length ?a" ?h2 ?s] by simp
    show ?thesis unfolding w load_of_parts b primary_parts(3, 4) [OF assms(1)] Let_def
      using backup_parts(3, 4) [OF assms(1, 2), of ?h1] known_restored [OF assms(3), of False]
        known_restored [OF assms(4), of True]
      by simp
  next
    case 4
    then have "take n (flush_writes q ?h1 ?h2) = flush_writes q ?h1 ?h2" by (simp add: fl)
    then show ?thesis using flush_done [OF assms(1), of ?h1 ?h2 s] known_restored [OF assms(4), of True]
      by simp
  qed
qed

text \<open>
  After a flush that was cut short once the primary copy was gone, the backup is the only copy,
  and the next flush starts by invalidating it: cut short after its first write, it leaves the
  client without any host.
\<close>
theorem second_crash_loses_hosts:
  assumes "faithful_hosts q" and "no_backup s" and "host_map m" and "m \<noteq> []"
    and "s1 = performs (take (length (backup_writes q (map snd m)) + 1) (flush_writes q (map snd m) h2)) s"
  shows "load_hosts q s1 = restored_map False m
    \<and> load_hosts q (performs (take 1 (flush_writes q h3 h4)) s1) = []"
proof -
  let ?h = "map snd m" and ?sb = "performs (backup_writes q (map snd m)) s"
  have s1: "s1 = perform (Remove SER_HOSTS) ?sb"
    using assms(5) by (simp add: flush_writes_def primary_writes_def)
  have b: "sub s1 SER_HOSTS_BACKUP = sub ?sb SER_HOSTS_BACKUP"
    using primary_parts(1) [OF assms(1), of 1 h2 ?sb] s1 by simp
  have p: "sub s1 SER_HOSTS = (\<lambda>k. None)"
    by (simp add: s1 sub_def fun_eq_iff)
  have "load_hosts q s1 = restored_map False m"
    unfolding load_of_parts b
    using backup_parts(3, 4) [OF assms(1, 2), of ?h] known_restored [OF assms(3), of False] assms(4)
    by (simp add: Let_def)
  moreover have "load_hosts q (performs (take 1 (flush_writes q h3 h4)) s1) = []"
  proof -
    let ?s2 = "perform (Remove (SER_HOSTS_BACKUP @ [Name ''size''])) s1"
    have w: "performs (take 1 (flush_writes q h3 h4)) s1 = ?s2"
      by (simp add: flush_writes_def backup_writes_def write_array_def)
    have "sub ?s2 SER_HOSTS = sub s1 SER_HOSTS" "sub ?s2 SER_HOSTS_BACKUP [Name ''size''] = None"
      by (simp_all add: sub_def fun_eq_iff SER_HOSTS_def SER_HOSTS_BACKUP_def)
    then show ?thesis unfolding w load_of_parts p
      by (simp add: array_size_def number_at_def p read_array_def known_def)
  qed
  ultimately show ?thesis by simp
qed

section \<open>A concrete store\<close>

datatype held = Text string | Flag bool | Number int | Octets bytes

definition plain_codec :: "held host_codec" where
  "plain_codec = \<lparr>put_text = Text, put_flag = Flag, put_number = Number, put_bytes = Octets,
     get_text = (\<lambda>v. case v of Text x \<Rightarrow> x | _ \<Rightarrow> []), get_flag = (\<lambda>v. v = Flag True),
     get_number = (\<lambda>v. case v of Number x \<Rightarrow> x | _ \<Rightarrow> 0), get_bytes = (\<lambda>v. case v of Octets x \<Rightarrow> x | _ \<Rightarrow> []),
     to_pem = (\<lambda>x. x), from_pem = (\<lambda>x. x)\<rparr>"

lemma plain_codec_faithful [simp]: "faithful_hosts plain_codec"
  by (simp add: faithful_hosts_def plain_codec_def)

definition desk_map :: host_map where
  "desk_map = [(''u0'', desk\<lparr>comp_uuid := ''u0'', comp_name := ''old''\<rparr>), (''u1'', desk)]"

lemma desk_map_facts [simp]: "host_map []" "host_map desk_map" "desk_map \<noteq> []" "no_backup (\<lambda>_. None)"
  by (simp_all add: host_map_def desk_map_def no_backup_def desk_def less_char_def)

theorem hosts_roundtrip_witness:
  "map (comp_name \<circ> snd) (load_hosts plain_codec (performs (flush_writes plain_codec [] (map snd desk_map)) (\<lambda>_. None)))
    = [''old'', ''desk'']"
proof -
  have "load_hosts plain_codec (performs (flush_writes plain_codec [] (map snd desk_map)) (\<lambda>_. None))
      = restored_map True desk_map"
    using hosts_roundtrip [of plain_codec desk_map "[]" "\<lambda>_. None"] by simp
  moreover have "map (comp_name \<circ> snd) (restored_map True desk_map) = [''old'', ''desk'']"
    by (simp add: restored_map_def restored_def desk_map_def)
  ultimately show ?thesis by simp
qed

theorem crash_keeps_hosts_witness:
  "load_hosts plain_codec (performs (take 40 (flush_writes plain_codec (map snd desk_map) [])) (\<lambda>_. None))
    \<in> {load_hosts plain_codec (\<lambda>_. None), restored_map False desk_map, []}"
  using crash_keeps_hosts [of plain_codec "\<lambda>_. None" desk_map "[]" 40]
  by (simp add: restored_map_def)

theorem second_crash_loses_hosts_witness:
  "load_hosts plain_codec (performs (take 1 (flush_writes plain_codec (map snd desk_map) (map snd desk_map)))
     (performs (take (length (backup_writes plain_codec (map snd desk_map)) + 1)
        (flush_writes plain_codec (map snd desk_map) (map snd desk_map))) (\<lambda>_. None))) = []"
  using second_crash_loses_hosts [OF plain_codec_faithful desk_map_facts(4) desk_map_facts(2) desk_map_facts(3) refl]
  by blast

end
