(* ===== verification/TextOps.thy ===== *)
theory TextOps
  imports Prelude
begin

text \<open>
  The \<open>QString\<close> operations several components use, on character lists: white space is the ASCII
  white space, \<open>trimmed\<close> removes it at both ends, \<open>words\<close> is \<open>simplified().split(' ')\<close> of a text that
  is not blank.
\<close>

definition is_space :: "char \<Rightarrow> bool" where
  "is_space c \<longleftrightarrow> c \<in> set [CHR '' '', CHR 0x09, CHR 0x0A, CHR 0x0B, CHR 0x0C, CHR 0x0D]"

definition trimmed :: "string \<Rightarrow> string" where
  "trimmed s = rev (dropWhile is_space (rev (dropWhile is_space s)))"

definition starts_with :: "string \<Rightarrow> string \<Rightarrow> bool" where
  "starts_with p s \<longleftrightarrow> take (length p) s = p"

text \<open>\<open>simplified().split(' ')\<close> of a line that is not blank: its words.\<close>

function words :: "string \<Rightarrow> string list" where
  "words s =
     (let t = dropWhile is_space s in
      if t = [] then []
      else takeWhile (\<lambda>c. \<not> is_space c) t # words (dropWhile (\<lambda>c. \<not> is_space c) t))"
  by auto
termination
proof (relation "measure length", simp)
  fix s t
  assume t: "t = dropWhile is_space s" "t \<noteq> []"
  have "length t \<le> length s" by (simp add: t(1) length_dropWhile_le)
  moreover have "\<not> is_space (hd t)" using t hd_dropWhile [of is_space s] by simp
  then have "length (dropWhile (\<lambda>c. \<not> is_space c) t) < length t"
    using t(2) by (cases t) (auto simp: length_dropWhile_le less_Suc_eq_le)
  ultimately show "(dropWhile (\<lambda>c. \<not> is_space c) t, s) \<in> measure length" by simp
qed

declare words.simps [simp del]

lemma dropWhile_idem [simp]: "dropWhile P (dropWhile P xs) = dropWhile P xs"
  by (induction xs) auto

lemma trimmed_idem [simp]: "trimmed (trimmed s) = trimmed s"
proof -
  let ?d = "dropWhile is_space s"
  let ?r = "rev (dropWhile is_space (rev ?d))"
  have "\<exists>t. ?d = ?r @ t"
    by (metis rev_append rev_rev_ident takeWhile_dropWhile_id)
  then obtain t where t: "?d = ?r @ t" by blast
  have "dropWhile is_space ?r = ?r"
  proof (cases ?r)
    case Nil
    show ?thesis unfolding Nil by simp
  next
    case (Cons c cs)
    then have "hd ?d = c" "?d \<noteq> []" using t by auto
    then have "\<not> is_space c" using hd_dropWhile [of is_space s] by auto
    then show ?thesis unfolding Cons by simp
  qed
  then show ?thesis by (simp add: trimmed_def)
qed

lemma trimmed_Nil [simp]: "trimmed [] = []"
  by (simp add: trimmed_def)

text \<open>\<open>split(sep)\<close> for a separator of one character: always at least one piece.\<close>

fun split_on :: "char \<Rightarrow> string \<Rightarrow> string list" where
  "split_on sep [] = [[]]"
| "split_on sep (c # s) =
     (if c = sep then [] # split_on sep s
      else case split_on sep s of [] \<Rightarrow> [[c]] | w # ws \<Rightarrow> (c # w) # ws)"

lemma split_on_nonempty [simp]: "split_on sep s \<noteq> []"
  by (induction s) (auto split: list.split)

definition ends_with :: "string \<Rightarrow> string \<Rightarrow> bool" where
  "ends_with p s \<longleftrightarrow> starts_with (rev p) (rev s)"

definition contains_text :: "string \<Rightarrow> string \<Rightarrow> bool" where
  "contains_text p s \<longleftrightarrow> list_ex (\<lambda>i. starts_with p (drop i s)) [0..<Suc (length s)]"

text \<open>Lower case of the ASCII letters.\<close>

definition to_lower :: "char \<Rightarrow> char" where
  "to_lower c = (if 65 \<le> (of_char c :: nat) \<and> (of_char c :: nat) \<le> 90 then char_of ((of_char c :: nat) + 32) else c)"

text \<open>\<open>contains(text, Qt::CaseInsensitive)\<close>\<close>

definition contains_ci :: "string \<Rightarrow> string \<Rightarrow> bool" where
  "contains_ci p s \<longleftrightarrow> contains_text (map to_lower p) (map to_lower s)"

text \<open>\<open>join(sep)\<close>, the inverse of \<open>split_on\<close>.\<close>

fun join_with :: "char \<Rightarrow> string list \<Rightarrow> string" where
  "join_with sep [] = []"
| "join_with sep [w] = w"
| "join_with sep (w # v # ws) = w @ sep # join_with sep (v # ws)"

lemma join_with_Cons: "ws \<noteq> [] \<Longrightarrow> join_with sep (w # ws) = w @ sep # join_with sep ws"
  by (cases ws) simp_all

lemma split_on_word: "sep \<notin> set w \<Longrightarrow> split_on sep w = [w]"
  by (induction w) auto

lemma split_on_append: "sep \<notin> set w \<Longrightarrow> split_on sep (w @ sep # s) = w # split_on sep s"
  by (induction w) auto

lemma split_on_snoc: "split_on sep (s @ [sep]) = split_on sep s @ [[]]"
  by (induction s) (auto split: list.split)

lemma split_join: "ws \<noteq> [] \<Longrightarrow> sep \<notin> \<Union> (set ` set ws) \<Longrightarrow> split_on sep (join_with sep ws) = ws"
  by (induction sep ws rule: join_with.induct) (simp_all add: split_on_word split_on_append)

lemma join_split [simp]: "join_with sep (split_on sep s) = s"
proof (induction s)
  case (Cons c s)
  obtain w ws where "split_on sep s = w # ws" by (cases "split_on sep s") auto
  with Cons show ?case by (cases ws) auto
qed simp

lemma split_on_sep: "w \<in> set (split_on sep s) \<Longrightarrow> sep \<notin> set w"
  by (induction s arbitrary: w) (auto split: list.splits if_splits)

lemma split_on_chars: "w \<in> set (split_on sep s) \<Longrightarrow> set w \<subseteq> set s"
proof (induction s arbitrary: w)
  case (Cons c s)
  then show ?case
    by (cases "split_on sep s") (fastforce split: if_splits)+
qed simp

lemma join_chars: "set (join_with sep ws) \<subseteq> insert sep (\<Union> (set ` set ws))"
  by (induction sep ws rule: join_with.induct) auto

end
