(* ===== verification/HostPolling.thy ===== *)
theory HostPolling
  imports HostModel TextOps
begin

text \<open>
  How hosts are polled (\<open>PcMonitorThread\<close> in \<open>src/app/backend/computermanager.cpp\<close>) and what a
  host's answer becomes (\<open>NvComputer::NvComputer(NvHTTP&, QString)\<close> in \<open>nvcomputer.cpp\<close>,
  \<open>NvHTTP::getCurrentGame\<close> in \<open>nvhttp.cpp\<close>). XML, number parsing and the network are parameters.
\<close>

section \<open>Reports\<close>

text \<open>
  \<open>xml tag\<close> is \<open>NvHTTP::getXmlString\<close> on the answer; \<open>supported\<close> is
  \<open>CompatFetcher::isGfeVersionSupported\<close>, \<open>h264_flag\<close> the constant \<open>SCM_H264\<close> of the streaming
  library.
\<close>

record answer_parser =
  parse_int :: "string \<Rightarrow> int"
  parse_u16 :: "string \<Rightarrow> u16"
  parse_hex :: "string \<Rightarrow> int"
  supported :: "string \<Rightarrow> bool"
  h264_flag :: int

definition DEFAULT_HTTPS_PORT :: u16 where "DEFAULT_HTTPS_PORT = 47984"

definition getCurrentGame :: "answer_parser \<Rightarrow> (string \<Rightarrow> string) \<Rightarrow> int" where
  "getCurrentGame q xml =
     (if ends_with ''_SERVER_BUSY'' (xml ''state'') then parse_int q (xml ''currentgame'') else 0)"

definition mode_weight :: "int \<times> int \<times> int \<Rightarrow> u64" where
  "mode_weight m = (case m of (w, h, r) \<Rightarrow> of_int w * of_int h * of_int r)"

definition report ::
  "answer_parser \<Rightarrow> nv_address \<Rightarrow> bytes \<Rightarrow> (string \<Rightarrow> string) \<Rightarrow> (int \<times> int \<times> int) list \<Rightarrow> nv_computer" where
  "report q http cert xml modes =
     (let local = \<lparr>m_Address = xml ''LocalIP'', m_Port = m_Port http\<rparr>;
          https = (if xml ''HttpsPort'' = [] then 0 else parse_u16 q (xml ''HttpsPort''));
          ext = (if xml ''ExternalPort'' = [] then 0 else parse_u16 q (xml ''ExternalPort''));
          ext = (if ext = 0 then m_Port http else ext)
      in unknown_host\<lparr>
        serverCert := cert,
        hasCustomName := False,
        comp_name := (if xml ''hostname'' = [] then ''UNKNOWN'' else xml ''hostname''),
        comp_uuid := xml ''uniqueid'',
        macAddress := (if xml ''mac'' = ''00:00:00:00:00:00'' then []
                       else map (\<lambda>t. of_int (parse_hex q t)) (split_on (CHR '':'') (xml ''mac''))),
        serverCodecModeSupport :=
          (if xml ''ServerCodecModeSupport'' = [] then h264_flag q
           else parse_int q (xml ''ServerCodecModeSupport'')),
        maxLumaPixelsHEVC :=
          (if xml ''MaxLumaPixelsHEVC'' = [] then 0 else parse_int q (xml ''MaxLumaPixelsHEVC'')),
        displayModes := sort_key mode_weight modes,
        localAddress := (if starts_with ''127.'' (m_Address local) then no_address else local),
        activeHttpsPort := (if https = 0 then DEFAULT_HTTPS_PORT else https),
        externalPort := ext,
        remoteAddress := (if xml ''ExternalIP'' = [] then no_address
                          else \<lparr>m_Address = xml ''ExternalIP'', m_Port = ext\<rparr>),
        isNvidiaServerSoftware := contains_text ''MJOLNIR'' (xml ''state''),
        pair_status := (if xml ''PairStatus'' = ''1'' then PS_PAIRED else PS_NOT_PAIRED),
        currentGameId := getCurrentGame q xml,
        appVersion := xml ''appversion'',
        gfeVersion := xml ''GfeVersion'',
        gpuModel := xml ''gputype'',
        activeAddress := http,
        m_TestedAddresses := (if null_address http then [] else [http]),
        comp_state := CS_ONLINE,
        pendingQuit := False,
        isSupportedServerVersion := supported q (xml ''GfeVersion'')\<rparr>)"

section \<open>One poll\<close>

definition TRIES_BEFORE_OFFLINING :: nat where "TRIES_BEFORE_OFFLINING = 2"
definition POLLS_PER_APPLIST_FETCH :: nat where "POLLS_PER_APPLIST_FETCH = 10"

text \<open>
  What a request to an address gives: no server information, the information of a host, or a
  request not made because the thread was told to stop.
\<close>

datatype answer =
    Stop_requested
  | No_answer
  | Answer "string \<Rightarrow> string" "(int \<times> int \<times> int) list"

datatype outcome = Interrupted | Unreachable | Reached bool

text \<open>\<open>tryPollComputer\<close> and the loop over the addresses around it.\<close>

definition tryPollComputer ::
  "answer_parser \<Rightarrow> nv_address \<Rightarrow> (string \<Rightarrow> string) \<Rightarrow> (int \<times> int \<times> int) list \<Rightarrow> nv_computer
     \<Rightarrow> (nv_computer \<times> bool) option" where
  "tryPollComputer q a xml modes c =
     (let new = report q a (serverCert c) xml modes in
      if comp_uuid c \<noteq> comp_uuid new then None
      else Some (update (markAddressTestSucceeded a c) new))"

fun poll_addresses ::
  "answer_parser \<Rightarrow> (nv_address \<Rightarrow> answer) \<Rightarrow> nv_address list \<Rightarrow> nv_computer \<Rightarrow> nv_computer \<times> outcome" where
  "poll_addresses q ans [] c = (c, Unreachable)"
| "poll_addresses q ans (a # as) c =
     (case ans a of
        Stop_requested \<Rightarrow> (c, Interrupted)
      | No_answer \<Rightarrow> poll_addresses q ans as c
      | Answer xml modes \<Rightarrow>
          (case tryPollComputer q a xml modes c of
             None \<Rightarrow> poll_addresses q ans as c
           | Some (c', changed) \<Rightarrow> (c', Reached changed)))"

fun poll_tries ::
  "answer_parser \<Rightarrow> (nv_address \<Rightarrow> answer) list \<Rightarrow> nv_computer \<Rightarrow> nv_computer \<times> outcome" where
  "poll_tries q [] c = (c, Unreachable)"
| "poll_tries q (ans # rest) c =
     (case poll_addresses q ans (uniqueAddresses c) c of
        (c', Unreachable) \<Rightarrow> poll_tries q rest c'
      | r \<Rightarrow> r)"

record poller =
  polled :: nv_computer
  pollsSinceLastAppListFetch :: nat

definition new_poller :: "nv_computer \<Rightarrow> poller" where
  "new_poller c = \<lparr>polled = c, pollsSinceLastAppListFetch = POLLS_PER_APPLIST_FETCH\<rparr>"

text \<open>The check after the tries.\<close>

definition mark_offline :: "nv_computer \<Rightarrow> outcome \<Rightarrow> nv_computer \<times> bool" where
  "mark_offline c r =
     (if r = Unreachable \<and> comp_state c \<noteq> CS_OFFLINE then (c\<lparr>comp_state := CS_OFFLINE\<rparr>, True)
      else (c, r = Reached True))"

text \<open>
  The end of a turn: \<open>apps\<close> is the app list if it is fetched (an empty one counts as a failure). The
  second component has the host at each \<open>computerStateChanged\<close> signal.
\<close>

definition finish_turn ::
  "nv_app list option \<Rightarrow> nat \<Rightarrow> nv_computer \<Rightarrow> bool \<Rightarrow> poller \<times> nv_computer list" where
  "finish_turn apps polls c changed =
     (let signal = (\<lambda>b c. if b then [c] else []) in
      if comp_state c = CS_ONLINE \<and> pair_status c = PS_PAIRED
         \<and> (appList c = [] \<or> polls \<ge> POLLS_PER_APPLIST_FETCH)
      then (case apps of
              None \<Rightarrow> (\<lparr>polled = c, pollsSinceLastAppListFetch = polls\<rparr>, signal changed c)
            | Some l \<Rightarrow>
                if l = [] then (\<lparr>polled = c, pollsSinceLastAppListFetch = polls\<rparr>, signal changed c)
                else let (c', changed') = updateAppList l c
                     in (\<lparr>polled = c', pollsSinceLastAppListFetch = 0\<rparr>,
                         signal changed c @ signal changed' c'))
      else (\<lparr>polled = c, pollsSinceLastAppListFetch = polls\<rparr>, signal changed c))"

text \<open>
  One turn of the loop in \<open>run\<close>: \<open>rounds i\<close> are the answers in the try number \<open>i\<close>. \<open>None\<close> means that
  the thread ended.
\<close>

definition poll_once ::
  "answer_parser \<Rightarrow> (nat \<Rightarrow> nv_address \<Rightarrow> answer) \<Rightarrow> nv_app list option \<Rightarrow> poller
     \<Rightarrow> (poller \<times> nv_computer list) option" where
  "poll_once q rounds apps p =
     (let tries = (if comp_state (polled p) = CS_ONLINE then TRIES_BEFORE_OFFLINING else 1);
          (c, r) = poll_tries q (map rounds [0..<tries]) (polled p)
      in if r = Interrupted then None
         else let (c, changed) = mark_offline c r
              in Some (finish_turn apps (pollsSinceLastAppListFetch p + 1) c changed))"

section \<open>What a report is\<close>

lemma report_facts [simp]:
  "comp_state (report q a cert xml modes) = CS_ONLINE"
  "activeAddress (report q a cert xml modes) = a"
  "appList (report q a cert xml modes) = []"
  "comp_uuid (report q a cert xml modes) = xml ''uniqueid''"
  "serverCert (report q a cert xml modes) = cert"
  "pair_status (report q a cert xml modes) \<noteq> PS_UNKNOWN"
  "comp_name (report q a cert xml modes) \<noteq> []"
  "activeHttpsPort (report q a cert xml modes) \<noteq> 0"
  by (simp_all add: report_def Let_def DEFAULT_HTTPS_PORT_def unknown_host_def)

lemma update_facts:
  "comp_state (fst (update c d)) = comp_state d"
  "activeAddress (fst (update c d)) = activeAddress d"
  "pinnedAddress (fst (update c d)) = pinnedAddress c"
  "comp_uuid (fst (update c d)) = comp_uuid c"
  "hasCustomName (fst (update c d)) = hasCustomName c"
  "serverCert (fst (update c d)) = (if serverCert d = [] then serverCert c else serverCert d)"
  by (simp_all add: update_eq merged_def Let_def)

lemma mark_facts [simp]:
  "comp_state (markAddressTestSucceeded a c) = comp_state c"
  "pinnedAddress (markAddressTestSucceeded a c) = pinnedAddress c"
  "comp_uuid (markAddressTestSucceeded a c) = comp_uuid c"
  "hasCustomName (markAddressTestSucceeded a c) = hasCustomName c"
  "serverCert (markAddressTestSucceeded a c) = serverCert c"
  "appList (markAddressTestSucceeded a c) = appList c"
  by (simp_all add: markAddressTestSucceeded_def)

text \<open>Two states of a host that differ at most in the addresses tested.\<close>

definition same_but_tested :: "nv_computer \<Rightarrow> nv_computer \<Rightarrow> bool" where
  "same_but_tested c d \<longleftrightarrow> c\<lparr>m_TestedAddresses := m_TestedAddresses d\<rparr> = d"

lemma same_but_tested_refl [simp]: "same_but_tested c c"
  by (simp add: same_but_tested_def put_lists)

lemma update_unchanged:
  assumes "update (markAddressTestSucceeded a c) d = (c', False)" and "appList d = []"
  shows "same_but_tested c' c"
proof -
  let ?m = "markAddressTestSucceeded a c"
  have "merged ?m d = ?m" and c': "c' = (merged ?m d)\<lparr>appList := merged_apps ?m d,
      m_TestedAddresses := merged_tested ?m d\<rparr>"
    using assms(1) unfolding update_eq by auto
  then have "c' = ?m\<lparr>appList := appList ?m, m_TestedAddresses := merged_tested ?m d\<rparr>"
    using assms(2) by (simp add: merged_apps_def)
  then have "c' = ?m\<lparr>m_TestedAddresses := merged_tested ?m d\<rparr>"
    by (simp only: put_lists(1))
  moreover obtain t where "?m = c\<lparr>m_TestedAddresses := t\<rparr>"
    by (cases "null_address a \<or> a \<in> set (m_TestedAddresses c)")
      (auto simp: markAddressTestSucceeded_def intro: that put_lists(2) [symmetric])
  ultimately show ?thesis by (simp add: same_but_tested_def put_lists)
qed

section \<open>Which address is used\<close>

text \<open>An address gives the host looked for.\<close>

definition right_answer :: "nv_computer \<Rightarrow> answer \<Rightarrow> bool" where
  "right_answer c r \<longleftrightarrow> (case r of Answer xml modes \<Rightarrow> xml ''uniqueid'' = comp_uuid c | _ \<Rightarrow> False)"

lemma tryPollComputer_cases:
  assumes "tryPollComputer q a xml modes c = Some (c', changed)"
  shows "right_answer c (Answer xml modes) \<and> comp_state c' = CS_ONLINE \<and> activeAddress c' = a
    \<and> pinnedAddress c' = pinnedAddress c \<and> comp_uuid c' = comp_uuid c \<and> serverCert c' = serverCert c
    \<and> hasCustomName c' = hasCustomName c \<and> (\<not> changed \<longrightarrow> same_but_tested c' c)"
proof -
  let ?d = "report q a (serverCert c) xml modes" and ?m = "markAddressTestSucceeded a c"
  from assms have id: "comp_uuid c = xml ''uniqueid''" and u: "update ?m ?d = (c', changed)"
    by (auto simp: tryPollComputer_def Let_def split: if_splits)
  have "same_but_tested c' c" if "\<not> changed"
    using update_unchanged [of a c ?d c'] u that by simp
  moreover have "c' = fst (update ?m ?d)" using u by simp
  ultimately show ?thesis using id by (simp add: update_facts right_answer_def)
qed

lemma poll_addresses_cases:
  "poll_addresses q ans as c = (c', r) \<Longrightarrow>
     (r = Interrupted \<and> c' = c)
   \<or> (r = Unreachable \<and> c' = c \<and> find (\<lambda>a. right_answer c (ans a)) as = None)
   \<or> (\<exists>changed. r = Reached changed \<and> comp_state c' = CS_ONLINE
        \<and> find (\<lambda>a. right_answer c (ans a)) as = Some (activeAddress c')
        \<and> pinnedAddress c' = pinnedAddress c \<and> comp_uuid c' = comp_uuid c \<and> serverCert c' = serverCert c
        \<and> hasCustomName c' = hasCustomName c \<and> (\<not> changed \<longrightarrow> same_but_tested c' c))"
proof (induction q ans as c rule: poll_addresses.induct)
  case (2 q ans a as c)
  show ?case
  proof (cases "ans a")
    case No_answer
    then show ?thesis using 2 by (simp add: right_answer_def)
  next
    case (Answer xml modes)
    show ?thesis
    proof (cases "tryPollComputer q a xml modes c")
      case None
      then have "\<not> right_answer c (ans a)"
        by (auto simp: tryPollComputer_def Let_def right_answer_def Answer split: if_splits)
      then show ?thesis using 2 Answer None by simp
    next
      case (Some p)
      obtain c1 ch where p: "p = (c1, ch)" by (cases p)
      then show ?thesis
        using tryPollComputer_cases [of q a xml modes c c1 ch] Some 2(3) Answer by auto
    qed
  qed (use 2 in auto)
qed simp

lemma poll_tries_cases:
  "poll_tries q rs c = (c', r) \<Longrightarrow>
     (r = Interrupted \<and> c' = c)
   \<or> (r = Unreachable \<and> c' = c \<and> (\<forall>ans\<in>set rs. find (\<lambda>a. right_answer c (ans a)) (uniqueAddresses c) = None))
   \<or> (\<exists>changed i. r = Reached changed \<and> comp_state c' = CS_ONLINE \<and> i < length rs
        \<and> (\<forall>j<i. find (\<lambda>a. right_answer c ((rs ! j) a)) (uniqueAddresses c) = None)
        \<and> find (\<lambda>a. right_answer c ((rs ! i) a)) (uniqueAddresses c) = Some (activeAddress c')
        \<and> pinnedAddress c' = pinnedAddress c \<and> comp_uuid c' = comp_uuid c \<and> serverCert c' = serverCert c
        \<and> hasCustomName c' = hasCustomName c \<and> (\<not> changed \<longrightarrow> same_but_tested c' c))"
proof (induction rs arbitrary: c)
  case (Cons ans rs)
  obtain c1 r1 where p: "poll_addresses q ans (uniqueAddresses c) c = (c1, r1)" by force
  from poll_addresses_cases [OF p] show ?case
  proof (elim disjE conjE exE)
    assume "r1 = Interrupted" "c1 = c"
    then show ?thesis using Cons.prems p by simp
  next
    assume u: "r1 = Unreachable" "c1 = c" "find (\<lambda>a. right_answer c (ans a)) (uniqueAddresses c) = None"
    then have rest: "poll_tries q rs c = (c', r)" using Cons.prems p by simp
    from Cons.IH [OF rest] show ?thesis
    proof (elim disjE)
      assume "\<exists>changed i. r = Reached changed \<and> comp_state c' = CS_ONLINE \<and> i < length rs
        \<and> (\<forall>j<i. find (\<lambda>a. right_answer c ((rs ! j) a)) (uniqueAddresses c) = None)
        \<and> find (\<lambda>a. right_answer c ((rs ! i) a)) (uniqueAddresses c) = Some (activeAddress c')
        \<and> pinnedAddress c' = pinnedAddress c \<and> comp_uuid c' = comp_uuid c \<and> serverCert c' = serverCert c
        \<and> hasCustomName c' = hasCustomName c \<and> (\<not> changed \<longrightarrow> same_but_tested c' c)"
      then obtain changed i where i: "r = Reached changed \<and> comp_state c' = CS_ONLINE \<and> i < length rs
        \<and> (\<forall>j<i. find (\<lambda>a. right_answer c ((rs ! j) a)) (uniqueAddresses c) = None)
        \<and> find (\<lambda>a. right_answer c ((rs ! i) a)) (uniqueAddresses c) = Some (activeAddress c')
        \<and> pinnedAddress c' = pinnedAddress c \<and> comp_uuid c' = comp_uuid c \<and> serverCert c' = serverCert c
        \<and> hasCustomName c' = hasCustomName c \<and> (\<not> changed \<longrightarrow> same_but_tested c' c)" by blast
      then have "\<forall>j<Suc i. find (\<lambda>a. right_answer c (((ans # rs) ! j) a)) (uniqueAddresses c) = None"
        using u(3) by (auto simp: less_Suc_eq_0_disj)
      then show ?thesis using i by (intro disjI2 exI [of _ changed] exI [of _ "Suc i"]) simp
    qed (use u in simp_all)
  next
    fix changed
    assume "r1 = Reached changed" "comp_state c1 = CS_ONLINE"
      "find (\<lambda>a. right_answer c (ans a)) (uniqueAddresses c) = Some (activeAddress c1)"
      "pinnedAddress c1 = pinnedAddress c" "comp_uuid c1 = comp_uuid c" "serverCert c1 = serverCert c"
      "hasCustomName c1 = hasCustomName c" "\<not> changed \<longrightarrow> same_but_tested c1 c"
    then show ?thesis using Cons.prems p by (intro disjI2 exI [of _ changed] exI [of _ 0]) simp
  qed
qed simp

text \<open>The tries of a turn, and the first address that gives the host in a try.\<close>

definition tries_of :: "nv_computer \<Rightarrow> nat" where
  "tries_of c = (if comp_state c = CS_ONLINE then TRIES_BEFORE_OFFLINING else 1)"

definition found_address :: "(nat \<Rightarrow> nv_address \<Rightarrow> answer) \<Rightarrow> nat \<Rightarrow> nv_computer \<Rightarrow> nv_address option" where
  "found_address rounds i c = find (\<lambda>a. right_answer c (rounds i a)) (uniqueAddresses c)"

lemma updateAppList_unchanged: "snd (updateAppList l c) = False \<Longrightarrow> fst (updateAppList l c) = c"
  by (cases "appList c = l") (simp_all add: updateAppList_def)

lemma finish_turn_cases:
  assumes "finish_turn apps polls c changed = (p', sigs)"
  shows "(polled p' = c \<and> sigs = (if changed then [c] else []))
      \<or> (comp_state c = CS_ONLINE \<and> (\<exists>l. polled p' = fst (updateAppList l c)
          \<and> sigs = (if changed then [c] else []) @ (if snd (updateAppList l c) then [polled p'] else [])))"
proof (cases "\<exists>l. apps = Some l \<and> l \<noteq> [] \<and> comp_state c = CS_ONLINE \<and> pair_status c = PS_PAIRED
         \<and> (appList c = [] \<or> polls \<ge> POLLS_PER_APPLIST_FETCH)")
  case True
  then obtain l where l: "apps = Some l" "l \<noteq> []" "comp_state c = CS_ONLINE" "pair_status c = PS_PAIRED"
    "appList c = [] \<or> polls \<ge> POLLS_PER_APPLIST_FETCH" by blast
  obtain c2 ch2 where u: "updateAppList l c = (c2, ch2)" by force
  have "finish_turn apps polls c changed = (\<lparr>polled = c2, pollsSinceLastAppListFetch = 0\<rparr>,
      (if changed then [c] else []) @ (if ch2 then [c2] else []))"
    using l u by (simp add: finish_turn_def)
  then have "polled p' = c2" "sigs = (if changed then [c] else []) @ (if ch2 then [c2] else [])"
    using assms by auto
  then show ?thesis using l(3) u by (intro disjI2 conjI exI [of _ l]) simp_all
next
  case False
  let ?fetch = "comp_state c = CS_ONLINE \<and> pair_status c = PS_PAIRED
    \<and> (appList c = [] \<or> polls \<ge> POLLS_PER_APPLIST_FETCH)"
  have "finish_turn apps polls c changed =
      (\<lparr>polled = c, pollsSinceLastAppListFetch = polls\<rparr>, if changed then [c] else [])"
  proof (cases ?fetch)
    case True
    then have "apps = None \<or> apps = Some []" using False by (cases apps) auto
    then show ?thesis using True by (auto simp: finish_turn_def)
  next
    case False
    then show ?thesis unfolding finish_turn_def Let_def by (simp only: if_False)
  qed
  then show ?thesis using assms by auto
qed

text \<open>The state of the host after the tries of a turn.\<close>

definition after_tries :: "(nat \<Rightarrow> nv_address \<Rightarrow> answer) \<Rightarrow> nv_computer \<Rightarrow> nv_computer \<Rightarrow> bool \<Rightarrow> bool" where
  "after_tries rounds c c1 changed \<longleftrightarrow>
     (c1 = c\<lparr>comp_state := CS_OFFLINE\<rparr> \<and> changed = (comp_state c \<noteq> CS_OFFLINE)
        \<and> (\<forall>i<tries_of c. found_address rounds i c = None))
   \<or> (comp_state c1 = CS_ONLINE
        \<and> (\<exists>i<tries_of c. (\<forall>j<i. found_address rounds j c = None)
             \<and> found_address rounds i c = Some (activeAddress c1))
        \<and> pinnedAddress c1 = pinnedAddress c \<and> comp_uuid c1 = comp_uuid c
        \<and> serverCert c1 = serverCert c \<and> hasCustomName c1 = hasCustomName c
        \<and> (\<not> changed \<longrightarrow> same_but_tested c1 c))"

lemma poll_once_cases:
  assumes "poll_once q rounds apps p = Some (p', sigs)"
  obtains c1 changed where "after_tries rounds (polled p) c1 changed"
    and "(polled p' = c1 \<and> sigs = (if changed then [c1] else []))
      \<or> (comp_state c1 = CS_ONLINE \<and> (\<exists>l. polled p' = fst (updateAppList l c1)
          \<and> sigs = (if changed then [c1] else []) @ (if snd (updateAppList l c1) then [polled p'] else [])))"
proof -
  let ?c = "polled p"
  obtain c0 r where t: "poll_tries q (map rounds [0..<tries_of ?c]) ?c = (c0, r)" by force
  obtain c1 ch where m: "mark_offline c0 r = (c1, ch)" by force
  have r: "r \<noteq> Interrupted" and f: "finish_turn apps (pollsSinceLastAppListFetch p + 1) c1 ch = (p', sigs)"
    using assms t m by (simp_all add: poll_once_def tries_of_def split: if_splits)
  have off: "c\<lparr>comp_state := comp_state c\<rparr> = c" for c :: nv_computer by (cases c) simp
  have "after_tries rounds ?c c1 ch"
  proof (cases "r = Unreachable")
    case True
    then have "c0 = ?c" "\<forall>i<tries_of ?c. found_address rounds i ?c = None"
      using poll_tries_cases [OF t] by (auto simp: found_address_def)
    then show ?thesis using m True off [of ?c]
      by (auto simp: after_tries_def mark_offline_def split: if_splits)
  next
    case False
    then have "c1 = c0" "ch = (r = Reached True)" using m by (auto simp: mark_offline_def)
    then show ?thesis using poll_tries_cases [OF t] r False
      by (auto simp: after_tries_def found_address_def)
  qed
  then show thesis using finish_turn_cases [OF f] by (rule that)
qed

text \<open>
  A turn that is not interrupted leaves the host online exactly when, in one of the tries, an
  address of it answers with its identity; a host that was online gets a second try before it goes
  offline. Its active address is then the first such address in order of preference in the first
  such try: the pinned address comes back into use as soon as it answers.
\<close>
theorem poll_reachability:
  assumes "poll_once q rounds apps p = Some (p', sigs)"
  shows "(comp_state (polled p') = CS_ONLINE \<longleftrightarrow>
            (\<exists>i<tries_of (polled p). found_address rounds i (polled p) \<noteq> None))
    \<and> comp_state (polled p') \<noteq> CS_UNKNOWN
    \<and> (comp_state (polled p') = CS_ONLINE \<longrightarrow>
         (\<exists>i<tries_of (polled p). (\<forall>j<i. found_address rounds j (polled p) = None)
            \<and> found_address rounds i (polled p) = Some (activeAddress (polled p'))))
    \<and> (\<not> null_address (pinnedAddress (polled p))
         \<and> right_answer (polled p) (rounds 0 (pinnedAddress (polled p)))
         \<longrightarrow> activeAddress (polled p') = pinnedAddress (polled p))"
proof -
  obtain c1 ch where one: "after_tries rounds (polled p) c1 ch"
    and two: "(polled p' = c1 \<and> sigs = (if ch then [c1] else []))
      \<or> (comp_state c1 = CS_ONLINE \<and> (\<exists>l. polled p' = fst (updateAppList l c1)
          \<and> sigs = (if ch then [c1] else []) @ (if snd (updateAppList l c1) then [polled p'] else [])))"
    using assms by (rule poll_once_cases)
  have same: "comp_state (polled p') = comp_state c1" "activeAddress (polled p') = activeAddress c1"
    using two by (auto simp: updateAppList_def)
  have pin: "found_address rounds 0 (polled p) = Some (pinnedAddress (polled p))"
    if "\<not> null_address (pinnedAddress (polled p))" "right_answer (polled p) (rounds 0 (pinnedAddress (polled p)))"
  proof -
    have "uniqueAddresses (polled p) \<noteq> []" "hd (uniqueAddresses (polled p)) = pinnedAddress (polled p)"
      using that(1) by (simp_all add: uniqueAddresses_def prune_eq)
    then show ?thesis using that(2) unfolding found_address_def
      by (cases "uniqueAddresses (polled p)") auto
  qed
  have pos: "0 < tries_of (polled p)" by (simp add: tries_of_def TRIES_BEFORE_OFFLINING_def)
  from one show ?thesis unfolding after_tries_def
  proof (elim disjE conjE exE)
    assume "c1 = (polled p)\<lparr>comp_state := CS_OFFLINE\<rparr>"
      "\<forall>i<tries_of (polled p). found_address rounds i (polled p) = None"
    then show ?thesis using same pin pos by auto
  next
    fix i
    assume i: "comp_state c1 = CS_ONLINE" "i < tries_of (polled p)"
      "\<forall>j<i. found_address rounds j (polled p) = None"
      "found_address rounds i (polled p) = Some (activeAddress c1)"
    have "activeAddress c1 = pinnedAddress (polled p)"
      if "\<not> null_address (pinnedAddress (polled p))" "right_answer (polled p) (rounds 0 (pinnedAddress (polled p)))"
      using pin [OF that] i(3, 4) by (cases "i = 0") auto
    then show ?thesis using i same by auto
  qed
qed

text \<open>
  Listeners always know the host: a turn without a signal leaves it as it was, but for the
  addresses tested; a turn with signals sends the last of them after the last change. No turn
  changes the host's identity, its pinned certificate or the address pinned by the user.
\<close>
theorem poll_signals:
  assumes "poll_once q rounds apps p = Some (p', sigs)"
  shows "(sigs = [] \<longrightarrow> same_but_tested (polled p') (polled p))
    \<and> (sigs \<noteq> [] \<longrightarrow> last sigs = polled p')
    \<and> comp_uuid (polled p') = comp_uuid (polled p) \<and> serverCert (polled p') = serverCert (polled p)
    \<and> pinnedAddress (polled p') = pinnedAddress (polled p)"
proof -
  obtain c1 ch where one: "after_tries rounds (polled p) c1 ch"
    and two: "(polled p' = c1 \<and> sigs = (if ch then [c1] else []))
      \<or> (comp_state c1 = CS_ONLINE \<and> (\<exists>l. polled p' = fst (updateAppList l c1)
          \<and> sigs = (if ch then [c1] else []) @ (if snd (updateAppList l c1) then [polled p'] else [])))"
    using assms by (rule poll_once_cases)
  have unch: "same_but_tested c1 (polled p)" if "\<not> ch"
  proof -
    have off: "c\<lparr>comp_state := CS_OFFLINE\<rparr> = c" if "comp_state c = CS_OFFLINE" for c :: nv_computer
      using that by (cases c) simp
    show ?thesis using one that off [of "polled p"] unfolding after_tries_def by fastforce
  qed
  have keep: "comp_uuid c1 = comp_uuid (polled p)" "serverCert c1 = serverCert (polled p)"
    "pinnedAddress c1 = pinnedAddress (polled p)"
    using one by (auto simp: after_tries_def)
  have apps: "comp_uuid (fst (updateAppList l c1)) = comp_uuid c1"
    "serverCert (fst (updateAppList l c1)) = serverCert c1"
    "pinnedAddress (fst (updateAppList l c1)) = pinnedAddress c1" for l
    by (simp_all add: updateAppList_def)
  from two show ?thesis
  proof (elim disjE conjE exE)
    assume "polled p' = c1" "sigs = (if ch then [c1] else [])"
    then show ?thesis using unch keep by (cases ch) auto
  next
    fix l
    assume l: "polled p' = fst (updateAppList l c1)"
      "sigs = (if ch then [c1] else []) @ (if snd (updateAppList l c1) then [polled p'] else [])"
    then show ?thesis using unch keep apps [of l] updateAppList_unchanged [of l c1]
      by (cases ch; cases "snd (updateAppList l c1)") auto
  qed
qed

text \<open>Concrete turns: a host with a pinned address that answers, and one that never does.\<close>

definition plain_parser :: answer_parser where
  "plain_parser = \<lparr>parse_int = (\<lambda>_. 7), parse_u16 = (\<lambda>_. 47984), parse_hex = (\<lambda>_. 1),
     supported = (\<lambda>_. True), h264_flag = 1\<rparr>"

definition desk_answer :: answer where
  "desk_answer = Answer (\<lambda>tag. if tag = ''uniqueid'' then ''u1'' else if tag = ''hostname'' then ''desk'' else []) []"

definition lan :: nv_address where
  "lan = \<lparr>m_Address = ''10.0.0.9'', m_Port = 47989\<rparr>"

lemma desk_addresses:
  "activeAddress desk = \<lparr>m_Address = ''10.0.0.2'', m_Port = 47989\<rparr>" "comp_state desk = CS_ONLINE"
  "localAddress desk = \<lparr>m_Address = ''10.0.0.2'', m_Port = 47989\<rparr>" "pinnedAddress desk = no_address"
  "remoteAddress desk = no_address" "ipv6Address desk = no_address" "manualAddress desk = no_address"
  "comp_uuid desk = ''u1''"
  by (simp_all add: desk_def unknown_host_def)

lemma two_tries: "map f [0..<2] = [f 0, f 1]"
  by (simp add: numeral_2_eq_2)

theorem poll_reachability_witness:
  "case poll_once plain_parser (\<lambda>_ a. if a = lan then desk_answer else No_answer) None
          (new_poller (desk\<lparr>pinnedAddress := lan\<rparr>)) of
     Some (p', sigs) \<Rightarrow> activeAddress (polled p') = lan
   | None \<Rightarrow> False"
proof -
  let ?p = "new_poller (desk\<lparr>pinnedAddress := lan\<rparr>)"
  let ?r = "\<lambda>(_::nat) a. if a = lan then desk_answer else No_answer"
  have u: "uniqueAddresses (desk\<lparr>pinnedAddress := lan\<rparr>) = [lan, activeAddress desk]"
    by (simp add: uniqueAddresses_def prune_eq desk_addresses lan_def null_address_def no_address_def)
  have t: "tryPollComputer plain_parser lan xml modes (desk\<lparr>pinnedAddress := lan\<rparr>) \<noteq> None"
    if "desk_answer = Answer xml modes" for xml modes
    using that by (auto simp: desk_answer_def tryPollComputer_def Let_def desk_addresses)
  have "snd (poll_tries plain_parser (map ?r [0..<2]) (desk\<lparr>pinnedAddress := lan\<rparr>)) \<noteq> Interrupted"
    using t by (auto simp: two_tries u desk_answer_def split: option.splits prod.splits)
  then have "poll_once plain_parser ?r None ?p \<noteq> None"
    by (auto simp: poll_once_def new_poller_def TRIES_BEFORE_OFFLINING_def desk_addresses split: prod.splits)
  then obtain p' sigs where r: "poll_once plain_parser ?r None ?p = Some (p', sigs)" by auto
  have "right_answer (polled ?p) (?r 0 (pinnedAddress (polled ?p)))"
    by (simp add: right_answer_def desk_answer_def new_poller_def desk_addresses)
  then have "activeAddress (polled p') = lan"
    using poll_reachability [OF r] by (simp add: new_poller_def null_address_def lan_def)
  then show ?thesis using r by simp
qed

theorem poll_signals_witness:
  "case poll_once plain_parser (\<lambda>_ _. No_answer) None (new_poller desk) of
     Some (p', sigs) \<Rightarrow> sigs \<noteq> [] \<and> last sigs = polled p' \<and> comp_state (polled p') = CS_OFFLINE
   | None \<Rightarrow> False"
proof -
  have u: "uniqueAddresses desk = [activeAddress desk]"
    by (simp add: uniqueAddresses_def prune_eq desk_addresses null_address_def no_address_def)
  have r: "poll_once plain_parser (\<lambda>_ _. No_answer) None (new_poller desk)
      = Some (\<lparr>polled = desk\<lparr>comp_state := CS_OFFLINE\<rparr>, pollsSinceLastAppListFetch = 11\<rparr>,
              [desk\<lparr>comp_state := CS_OFFLINE\<rparr>])"
    by (simp add: poll_once_def new_poller_def TRIES_BEFORE_OFFLINING_def two_tries mark_offline_def
        finish_turn_def POLLS_PER_APPLIST_FETCH_def u desk_addresses)
  show ?thesis using poll_signals [OF r] by (simp add: r)
qed

end
