(* ===== verification/HostManager.thy ===== *)
theory HostManager
  imports HostStore HostPolling
begin

text \<open>
  The operations of \<open>ComputerManager\<close> (\<open>src/app/backend/computermanager.cpp\<close>) on the hosts it knows, as
  steps of one state: renaming, adding and deleting hosts, polling, the client-side attributes of
  apps (\<open>src/app/gui/appmodel.cpp\<close>), pairing, quitting and the thread that saves the hosts. Worker
  threads change a host and signal it; the signal waits in a queue until the main thread handles it.
\<close>

section \<open>State\<close>

datatype flush_stage = Flush_waiting | Snapshot_taken | Backup_written

text \<open>\<open>quitAppCompleted\<close> carries an error or nothing.\<close>

datatype manager_signal =
    State_changed string
  | Quit_app_completed "string option"
  | Add_completed bool

text \<open>
  \<open>signal_queue\<close> holds the hosts whose change has been signalled but not handled, \<open>None\<close> for one that
  was destroyed since; \<open>dangling\<close> records that such a signal was handled.
\<close>

record 'v host_manager =
  m_KnownHosts :: host_map
  m_LastSerializedHosts :: host_map
  m_NeedsDelayedFlush :: bool
  stage :: flush_stage
  settings :: "'v hosts_store"
  signal_queue :: "string option list"
  quits_in_flight :: "string list"
  emitted :: "manager_signal list"
  dangling :: bool

text \<open>The constructor.\<close>

definition new_manager :: "'v host_codec \<Rightarrow> 'v hosts_store \<Rightarrow> 'v host_manager" where
  "new_manager q s =
     \<lparr>m_KnownHosts = load_hosts q s, m_LastSerializedHosts = load_hosts q s,
      m_NeedsDelayedFlush = False, stage = Flush_waiting, settings = s, signal_queue = [],
      quits_in_flight = [], emitted = [], dangling = False\<rparr>"

definition set_host :: "string \<Rightarrow> nv_computer \<Rightarrow> 'v host_manager \<Rightarrow> 'v host_manager" where
  "set_host u c m = m\<lparr>m_KnownHosts := map (\<lambda>(k, d). (k, if k = u then c else d)) (m_KnownHosts m)\<rparr>"

definition emit :: "manager_signal list \<Rightarrow> 'v host_manager \<Rightarrow> 'v host_manager" where
  "emit l m = m\<lparr>emitted := emitted m @ l\<rparr>"

definition signal_change :: "bool \<Rightarrow> string \<Rightarrow> 'v host_manager \<Rightarrow> 'v host_manager" where
  "signal_change changed u m = (if changed then m\<lparr>signal_queue := signal_queue m @ [Some u]\<rparr> else m)"

section \<open>Saving\<close>

definition saveHosts :: "'v host_manager \<Rightarrow> 'v host_manager" where
  "saveHosts m = m\<lparr>m_NeedsDelayedFlush := True\<rparr>"

definition last_serialized :: "string \<Rightarrow> 'v host_manager \<Rightarrow> nv_computer" where
  "last_serialized u m =
     (case map_of (m_LastSerializedHosts m) u of Some c \<Rightarrow> c | None \<Rightarrow> unknown_host)"

definition saveHost :: "string \<Rightarrow> nv_computer \<Rightarrow> 'v host_manager \<Rightarrow> 'v host_manager" where
  "saveHost u c m = (if isEqualSerialized (last_serialized u m) c then m else saveHosts m)"

text \<open>The thread: it takes the request and a snapshot, writes the backup, then the rest.\<close>

definition flush_started :: "'v host_manager \<Rightarrow> 'v host_manager" where
  "flush_started m =
     (if stage m = Flush_waiting \<and> m_NeedsDelayedFlush m
      then m\<lparr>m_NeedsDelayedFlush := False, m_LastSerializedHosts := m_KnownHosts m, stage := Snapshot_taken\<rparr>
      else m)"

definition flush_backup :: "'v host_codec \<Rightarrow> 'v host_manager \<Rightarrow> 'v host_manager" where
  "flush_backup q m =
     (if stage m = Snapshot_taken
      then m\<lparr>settings := performs (backup_writes q (map snd (m_KnownHosts m))) (settings m), stage := Backup_written\<rparr>
      else m)"

definition flush_primary :: "'v host_codec \<Rightarrow> 'v host_manager \<Rightarrow> 'v host_manager" where
  "flush_primary q m =
     (if stage m = Backup_written
      then m\<lparr>settings := performs (primary_writes q (map snd (m_KnownHosts m))) (settings m), stage := Flush_waiting\<rparr>
      else m)"

section \<open>Changes of a host\<close>

definition handleComputerStateChanged :: "string \<Rightarrow> nv_computer \<Rightarrow> 'v host_manager \<Rightarrow> 'v host_manager" where
  "handleComputerStateChanged u c m =
     (let m = emit [State_changed u] m in
      if pendingQuit c \<and> currentGameId c = 0
      then let c = c\<lparr>pendingQuit := False\<rparr>
           in saveHost u c (emit [Quit_app_completed None] (set_host u c m))
      else saveHost u c m)"

definition deliver :: "'v host_manager \<Rightarrow> 'v host_manager" where
  "deliver m =
     (case signal_queue m of
        [] \<Rightarrow> m
      | None # l \<Rightarrow> m\<lparr>signal_queue := l, dangling := True\<rparr>
      | Some u # l \<Rightarrow>
          (case map_of (m_KnownHosts m) u of
             None \<Rightarrow> m\<lparr>signal_queue := l, dangling := True\<rparr>
           | Some c \<Rightarrow> handleComputerStateChanged u c (m\<lparr>signal_queue := l\<rparr>)))"

definition renameHost :: "string \<Rightarrow> nv_computer \<Rightarrow> nv_computer" where
  "renameHost name c = c\<lparr>comp_name := name, hasCustomName := True\<rparr>"

text \<open>\<open>AppModel::setAppHidden\<close> and \<open>setAppDirectLaunch\<close>, for the app of the row.\<close>

fun hide_first :: "int \<Rightarrow> bool \<Rightarrow> nv_app list \<Rightarrow> nv_app list" where
  "hide_first appId h [] = []"
| "hide_first appId h (a # l) =
     (if app_id a = appId then a\<lparr>hidden := h\<rparr> # l else a # hide_first appId h l)"

fun undirect_first :: "int \<Rightarrow> nv_app list \<Rightarrow> nv_app list" where
  "undirect_first appId [] = []"
| "undirect_first appId (a # l) =
     (if app_id a = appId then a\<lparr>direct_launch := False\<rparr> # l else a # undirect_first appId l)"

definition setAppHidden :: "int \<Rightarrow> bool \<Rightarrow> nv_computer \<Rightarrow> nv_computer" where
  "setAppHidden appId h c = c\<lparr>appList := hide_first appId h (appList c)\<rparr>"

definition setAppDirectLaunch :: "int \<Rightarrow> bool \<Rightarrow> nv_computer \<Rightarrow> nv_computer" where
  "setAppDirectLaunch appId d c =
     c\<lparr>appList := (if d then map (\<lambda>a. a\<lparr>direct_launch := (app_id a = appId)\<rparr>) (appList c)
                   else undirect_first appId (appList c))\<rparr>"

text \<open>
  The end of \<open>PendingAddTask::run\<close>: \<open>new\<close> is what the host answered, \<open>stun\<close> the external address found
  for a new host.
\<close>

definition add_host :: "bool \<Rightarrow> nv_computer \<Rightarrow> string option \<Rightarrow> 'v host_manager \<Rightarrow> 'v host_manager" where
  "add_host mdns new stun m =
     (let u = comp_uuid new in
      case map_of (m_KnownHosts m) u of
        Some c \<Rightarrow>
          (let (c', changed) = update c new;
               m = set_host u c' m;
               m = (if mdns then m else emit [Add_completed True] m)
           in signal_change changed u m)
      | None \<Rightarrow>
          (let new = (case stun of
                        None \<Rightarrow> new
                      | Some a \<Rightarrow> new\<lparr>remoteAddress := \<lparr>m_Address = a, m_Port = externalPort new\<rparr>\<rparr>);
               m = m\<lparr>m_KnownHosts := insert_host u new (m_KnownHosts m)\<rparr>;
               m = (if mdns then m else emit [Add_completed True] m)
           in signal_change True u m))"

definition deleteHost :: "string \<Rightarrow> 'v host_manager \<Rightarrow> 'v host_manager" where
  "deleteHost u m =
     saveHosts (m\<lparr>m_KnownHosts := filter (\<lambda>(k, c). k \<noteq> u) (m_KnownHosts m),
                  signal_queue := map (\<lambda>x. if x = Some u then None else x) (signal_queue m)\<rparr>)"

text \<open>
  \<open>quitRunningApp\<close> and the task it starts: the request to the host, if a game runs, and later its
  result, where \<open>failure\<close> is the error it ends in.
\<close>

definition quit_requested :: "nv_computer \<Rightarrow> nv_computer" where
  "quit_requested c = c\<lparr>pendingQuit := True\<rparr>"

definition quit_started :: "string \<Rightarrow> nv_computer \<Rightarrow> 'v host_manager \<Rightarrow> 'v host_manager" where
  "quit_started u c m =
     (if currentGameId c \<noteq> 0 then m\<lparr>quits_in_flight := quits_in_flight m @ [u]\<rparr> else m)"

definition quit_finished :: "string \<Rightarrow> string option \<Rightarrow> nv_computer \<Rightarrow> 'v host_manager \<Rightarrow> 'v host_manager" where
  "quit_finished u failure c m =
     (if u \<in> set (quits_in_flight m)
      then let m = m\<lparr>quits_in_flight := remove1 u (quits_in_flight m)\<rparr>
           in case failure of
                None \<Rightarrow> m
              | Some e \<Rightarrow> emit [Quit_app_completed (Some e)] (set_host u (c\<lparr>pendingQuit := False\<rparr>) m)
      else m)"

section \<open>Steps\<close>

datatype manager_event =
    Renamed string string
  | App_hidden string int bool
  | App_direct string int bool
  | Polled string nv_address "string \<Rightarrow> string" "(int \<times> int \<times> int) list"
  | Poll_failed string
  | Apps_fetched string "nv_app list"
  | Paired string bytes
  | Added bool nv_computer "string option"
  | Deleted string
  | Quit_requested string
  | Quit_started string
  | Quit_finished string "string option"
  | Delivered
  | Flush_started
  | Flush_backup
  | Flush_primary

definition with_host :: "string \<Rightarrow> (nv_computer \<Rightarrow> 'v host_manager \<Rightarrow> 'v host_manager) \<Rightarrow> 'v host_manager \<Rightarrow> 'v host_manager" where
  "with_host u f m = (case map_of (m_KnownHosts m) u of None \<Rightarrow> m | Some c \<Rightarrow> f c m)"

text \<open>A change made by the main thread, which handles it at once.\<close>

definition change_now :: "string \<Rightarrow> nv_computer \<Rightarrow> 'v host_manager \<Rightarrow> 'v host_manager" where
  "change_now u c m = handleComputerStateChanged u c (set_host u c m)"

fun manager_step :: "answer_parser \<Rightarrow> 'v host_codec \<Rightarrow> 'v host_manager \<Rightarrow> manager_event \<Rightarrow> 'v host_manager" where
  "manager_step p q m (Renamed u name) = with_host u (\<lambda>c. change_now u (renameHost name c)) m"
| "manager_step p q m (App_hidden u i h) = with_host u (\<lambda>c. change_now u (setAppHidden i h c)) m"
| "manager_step p q m (App_direct u i d) = with_host u (\<lambda>c. change_now u (setAppDirectLaunch i d c)) m"
| "manager_step p q m (Polled u a xml modes) =
     with_host u (\<lambda>c m. case tryPollComputer p a xml modes c of
                          None \<Rightarrow> m
                        | Some (c', changed) \<Rightarrow> signal_change changed u (set_host u c' m)) m"
| "manager_step p q m (Poll_failed u) =
     with_host u (\<lambda>c m. case mark_offline c Unreachable of
                          (c', changed) \<Rightarrow> signal_change changed u (set_host u c' m)) m"
| "manager_step p q m (Apps_fetched u l) =
     with_host u (\<lambda>c m. case updateAppList l c of
                          (c', changed) \<Rightarrow> signal_change changed u (set_host u c' m)) m"
| "manager_step p q m (Paired u cert) =
     with_host u (\<lambda>c m. let c = c\<lparr>serverCert := cert\<rparr> in saveHost u c (set_host u c m)) m"
| "manager_step p q m (Added mdns new stun) = add_host mdns new stun m"
| "manager_step p q m (Deleted u) = deleteHost u m"
| "manager_step p q m (Quit_requested u) = with_host u (\<lambda>c. set_host u (quit_requested c)) m"
| "manager_step p q m (Quit_started u) = with_host u (quit_started u) m"
| "manager_step p q m (Quit_finished u failure) = with_host u (quit_finished u failure) m"
| "manager_step p q m Delivered = deliver m"
| "manager_step p q m Flush_started = flush_started m"
| "manager_step p q m Flush_backup = flush_backup q m"
| "manager_step p q m Flush_primary = flush_primary q m"

section \<open>Two maps with the same saved hosts\<close>

definition same_hosts :: "host_map \<Rightarrow> host_map \<Rightarrow> bool" where
  "same_hosts a b \<longleftrightarrow> list_all2 (\<lambda>(k, c) (k', c'). k' = k \<and> isEqualSerialized c' c) a b"

definition put :: "string \<Rightarrow> nv_computer \<Rightarrow> host_map \<Rightarrow> host_map" where
  "put u c a = map (\<lambda>(k, d). (k, if k = u then c else d)) a"

lemma equal_serialized [simp]: "isEqualSerialized c c"
  by (simp add: isEqualSerialized_def)

lemma equal_serialized_sym: "isEqualSerialized c d \<Longrightarrow> isEqualSerialized d c"
  by (simp add: isEqualSerialized_def)

lemma equal_serialized_trans: "isEqualSerialized c d \<Longrightarrow> isEqualSerialized d e \<Longrightarrow> isEqualSerialized c e"
  by (simp add: isEqualSerialized_def)

lemma same_hosts_refl [simp]: "same_hosts a a"
  by (simp add: same_hosts_def list_all2_same split: prod.splits)

lemma same_hosts_lookup:
  "same_hosts a b \<Longrightarrow> map_of a u = Some c \<Longrightarrow> \<exists>d. map_of b u = Some d \<and> isEqualSerialized d c"
  unfolding same_hosts_def
proof (induction a arbitrary: b)
  case (Cons x a)
  then show ?case by (cases b) (auto split: prod.splits if_splits)
qed simp

lemma same_hosts_missing: "same_hosts a b \<Longrightarrow> map_of a u = None \<Longrightarrow> map_of b u = None"
  unfolding same_hosts_def
proof (induction a arbitrary: b)
  case (Cons x a)
  then show ?case by (cases b) (auto split: prod.splits if_splits)
qed simp

lemma same_hosts_put:
  assumes "same_hosts a b" and "\<And>d. (u, d) \<in> set a \<Longrightarrow> isEqualSerialized d c"
  shows "same_hosts (put u c a) b"
  using assms unfolding same_hosts_def put_def
proof (induction a arbitrary: b)
  case (Cons x a)
  then obtain y b' where "b = y # b'" by (cases b) auto
  then show ?case using Cons
    by (cases x; cases y) (auto intro: equal_serialized_trans)
qed simp

lemma host_map_distinct: "host_map m \<Longrightarrow> distinct (map fst m)"
  by (simp add: host_map_def strict_sorted_iff)

lemma host_map_unique: "host_map m \<Longrightarrow> map_of m u = Some c \<Longrightarrow> (u, d) \<in> set m \<Longrightarrow> d = c"
  using host_map_distinct by fastforce

lemma host_map_key: "host_map m \<Longrightarrow> map_of m u = Some c \<Longrightarrow> comp_uuid c = u"
  by (auto simp: host_map_def dest!: map_of_SomeD)

lemma put_keys [simp]: "map fst (put u c m) = map fst m"
  by (auto simp: put_def)

lemma host_map_put: "host_map m \<Longrightarrow> comp_uuid c = u \<Longrightarrow> host_map (put u c m)"
  unfolding host_map_def by (simp del: put_keys add: put_keys) (auto simp: put_def)

lemma map_of_put: "map_of (put u c m) k = (if k = u then map_option (\<lambda>_. c) (map_of m u) else map_of m k)"
  by (induction m) (auto simp: put_def)

lemma put_put [simp]: "put u c (put u d m) = put u c m"
  by (auto simp: put_def)

lemma host_map_insert:
  assumes "host_map m" and "u = comp_uuid c"
  shows "host_map (insert_host u c m)"
proof -
  have "sorted_wrt (<) (map fst m) \<Longrightarrow> sorted_wrt (<) (map fst (insert_host u c m))"
  proof (induction u c m rule: insert_host.induct)
    case (2 k c k' c' m)
    have "fst ` set (insert_host k c m) = insert k (fst ` set m)"
      by (induction k c m rule: insert_host.induct) auto
    then show ?case using 2 by auto
  qed simp
  moreover have "set (insert_host u c m) \<subseteq> insert (u, c) (set m)"
    by (induction u c m rule: insert_host.induct) auto
  ultimately show ?thesis using assms by (auto simp: host_map_def)
qed

lemma map_of_insert [simp]: "map_of (insert_host u c m) u = Some c"
  by (induction u c m rule: insert_host.induct) auto

lemma host_map_load: "host_map (load_hosts q s)"
proof -
  have "host_map (foldl (\<lambda>m c. insert_host (comp_uuid c) c m) m cs)" if "host_map m" for m cs
    using that by (induction cs arbitrary: m) (simp_all add: host_map_insert)
  from this [of "[]"] show ?thesis by (simp add: load_hosts_def Let_def)
qed

lemma host_map_filter: "host_map m \<Longrightarrow> host_map (filter P m)"
  by (auto simp: host_map_def sorted_wrt_map intro: sorted_wrt_filter)

section \<open>The store follows the hosts\<close>

text \<open>
  Unless a flush is asked for, the hosts are as in the snapshot of the last flush, and, when no flush
  is under way, as the store has them.
\<close>

definition saved_inv :: "'v host_codec \<Rightarrow> 'v host_manager \<Rightarrow> bool" where
  "saved_inv q m \<longleftrightarrow> host_map (m_KnownHosts m)
     \<and> (m_NeedsDelayedFlush m \<or> same_hosts (m_KnownHosts m) (m_LastSerializedHosts m))
     \<and> (stage m = Flush_waiting \<longrightarrow> m_NeedsDelayedFlush m \<or> same_hosts (m_KnownHosts m) (load_hosts q (settings m)))"

lemma set_host_eq: "set_host u c m = m\<lparr>m_KnownHosts := put u c (m_KnownHosts m)\<rparr>"
  by (simp add: set_host_def put_def)

lemma manager_members [simp]:
  "m_KnownHosts (set_host u c m) = put u c (m_KnownHosts m)"
  "m_KnownHosts (emit l m) = m_KnownHosts m"
  "signal_queue (emit l m) = signal_queue m"
  "stage (emit l m) = stage m" "settings (emit l m) = settings m"
  "m_NeedsDelayedFlush (emit l m) = m_NeedsDelayedFlush m"
  "m_LastSerializedHosts (emit l m) = m_LastSerializedHosts m"
  "m_KnownHosts (saveHosts m) = m_KnownHosts m" "m_NeedsDelayedFlush (saveHosts m)"
  "signal_queue (saveHosts m) = signal_queue m"
  "emitted (emit l m) = emitted m @ l" "emitted (saveHosts m) = emitted m"
  "quits_in_flight (emit l m) = quits_in_flight m" "dangling (emit l m) = dangling m"
  "dangling (saveHosts m) = dangling m"
  by (simp_all add: set_host_eq emit_def saveHosts_def)

lemma set_host_emit: "set_host u c (emit l m) = emit l (set_host u c m)"
  by (simp add: set_host_eq emit_def)

lemma emit_known: "emit l (m\<lparr>m_KnownHosts := h\<rparr>) = (emit l m)\<lparr>m_KnownHosts := h\<rparr>"
  by (simp add: emit_def)

lemma saved_inv_put:
  assumes "saved_inv q m" and "map_of (m_KnownHosts m) u = Some c" and "isEqualSerialized c c'"
  shows "saved_inv q (set_host u c' m)"
proof -
  have u: "comp_uuid c' = u" using assms host_map_key [of "m_KnownHosts m" u c]
    by (simp add: saved_inv_def isEqualSerialized_def)
  have e: "isEqualSerialized d c'" if "(u, d) \<in> set (m_KnownHosts m)" for d
    using host_map_unique [of "m_KnownHosts m" u c d] assms that by (simp add: saved_inv_def)
  show ?thesis using assms(1) host_map_put [OF _ u] same_hosts_put [OF _ e]
    unfolding saved_inv_def set_host_eq by auto
qed

lemma saved_inv_saveHost:
  assumes "saved_inv q m" and "map_of (m_KnownHosts m) u = Some c" and "comp_uuid c' = u"
  shows "saved_inv q (saveHost u c' (set_host u c' m))"
proof (cases "m_NeedsDelayedFlush m \<or> \<not> isEqualSerialized (last_serialized u m) c'")
  case True
  moreover have "host_map (put u c' (m_KnownHosts m))"
    using assms host_map_put by (simp add: saved_inv_def)
  ultimately show ?thesis
    by (auto simp: saveHost_def saved_inv_def set_host_eq last_serialized_def saveHosts_def)
next
  case False
  then have "same_hosts (m_KnownHosts m) (m_LastSerializedHosts m)" using assms(1) by (simp add: saved_inv_def)
  then obtain d where d: "map_of (m_LastSerializedHosts m) u = Some d" "isEqualSerialized d c"
    using same_hosts_lookup assms(2) by blast
  then have "isEqualSerialized c c'" using False
    by (auto simp: last_serialized_def intro: equal_serialized_trans equal_serialized_sym)
  then have "saved_inv q (set_host u c' m)" using saved_inv_put assms(1, 2) by blast
  moreover have "saveHost u c' (set_host u c' m) = set_host u c' m"
    using False by (simp add: saveHost_def last_serialized_def set_host_eq)
  ultimately show ?thesis by simp
qed

lemma saved_inv_emit [simp]: "saved_inv q (emit l m) = saved_inv q m"
  by (simp add: saved_inv_def)

lemma saved_inv_queue [simp]: "saved_inv q (m\<lparr>signal_queue := l\<rparr>) = saved_inv q m"
  by (simp add: saved_inv_def)

lemma set_host_twice [simp]: "set_host u c (emit l (set_host u d m)) = emit l (set_host u c m)"
  by (simp add: set_host_eq emit_def)

lemma saved_inv_changed:
  assumes "saved_inv q m" and "map_of (m_KnownHosts m) u = Some c" and "comp_uuid c' = u"
  shows "saved_inv q (handleComputerStateChanged u c' (set_host u c' m))"
proof -
  have e: "saveHost u d (emit l n) = emit l (saveHost u d n)" for d l and n :: "'a host_manager"
    by (simp add: saveHost_def last_serialized_def emit_def saveHosts_def)
  have "comp_uuid (c'\<lparr>pendingQuit := False\<rparr>) = u" using assms(3) by simp
  from saved_inv_saveHost [OF assms(1, 2) this] saved_inv_saveHost [OF assms(1, 2, 3)]
  show ?thesis by (simp add: handleComputerStateChanged_def Let_def e)
qed

text \<open>The next step finds no signal waiting, or is the handling of the one that waits.\<close>

definition saved_or_signalled :: "'v host_codec \<Rightarrow> 'v host_manager \<Rightarrow> bool" where
  "saved_or_signalled q m \<longleftrightarrow>
     (if signal_queue m = [] then saved_inv q m
      else (\<exists>u. signal_queue m = [u]) \<and> saved_inv q (deliver m))"

lemma handle_queue [simp]: "signal_queue (handleComputerStateChanged u c m) = signal_queue m"
  by (simp add: handleComputerStateChanged_def saveHost_def Let_def set_host_eq)

lemma no_queue: "signal_queue m = [] \<Longrightarrow> m\<lparr>m_KnownHosts := l, signal_queue := []\<rparr> = m\<lparr>m_KnownHosts := l\<rparr>"
  by (cases m) simp

lemma signalled:
  assumes "saved_inv q m" and "signal_queue m = []" and "map_of (m_KnownHosts m) u = Some c"
    and "comp_uuid c' = u" and "\<not> changed \<Longrightarrow> isEqualSerialized c c'"
  shows "saved_or_signalled q (signal_change changed u (set_host u c' m))"
proof (cases changed)
  case True
  have "deliver (signal_change changed u (set_host u c' m)) = handleComputerStateChanged u c' (set_host u c' m)"
    using True assms(2, 3)
    by (simp add: deliver_def signal_change_def set_host_eq map_of_put no_queue)
  then show ?thesis using True assms(2) saved_inv_changed [OF assms(1, 3, 4)]
    by (simp add: saved_or_signalled_def signal_change_def set_host_eq)
next
  case False
  then show ?thesis using assms saved_inv_put [OF assms(1, 3)]
    by (simp add: saved_or_signalled_def signal_change_def set_host_eq)
qed

lemma saved_now: "saved_inv q m \<Longrightarrow> signal_queue m = [] \<Longrightarrow> saved_or_signalled q m"
  by (simp add: saved_or_signalled_def)

text \<open>What the operations keep of a host.\<close>

lemma uuid_kept [simp]:
  "comp_uuid (renameHost name c) = comp_uuid c" "comp_uuid (setAppHidden i h c) = comp_uuid c"
  "comp_uuid (setAppDirectLaunch i d c) = comp_uuid c" "comp_uuid (quit_requested c) = comp_uuid c"
  "comp_uuid (fst (updateAppList l c)) = comp_uuid c"
  by (simp_all add: renameHost_def setAppHidden_def setAppDirectLaunch_def quit_requested_def updateAppList_def)

lemma equal_tested: "same_but_tested c' c \<Longrightarrow> isEqualSerialized c c'"
  unfolding same_but_tested_def isEqualSerialized_def by (cases c; cases c') simp

lemma equal_pending [simp]:
  "isEqualSerialized c (c\<lparr>pendingQuit := b\<rparr>)" "isEqualSerialized c (quit_requested c)"
  by (simp_all add: isEqualSerialized_def quit_requested_def)

text \<open>What \<open>PendingAddTask\<close> adds: a report has a name and no apps.\<close>

fun fresh_event :: "manager_event \<Rightarrow> bool" where
  "fresh_event (Added mdns new stun) \<longleftrightarrow> comp_name new \<noteq> [] \<and> appList new = [] \<and> \<not> pendingQuit new"
| "fresh_event _ \<longleftrightarrow> True"

lemma update_same:
  "\<not> snd (update c d) \<Longrightarrow> appList d = [] \<Longrightarrow> isEqualSerialized c (fst (update c d))"
  by (simp add: update_eq isEqualSerialized_def merged_apps_def)

lemma add_saved:
  assumes "saved_inv q m" and "signal_queue m = []" and "fresh_event (Added mdns new stun)"
  shows "saved_or_signalled q (add_host mdns new stun m)"
proof (cases "map_of (m_KnownHosts m) (comp_uuid new)")
  case (Some c)
  obtain c' ch where u: "update c new = (c', ch)" by force
  let ?m = "if mdns then m else emit [Add_completed True] m"
  have m: "saved_inv q ?m" "signal_queue ?m = []" "map_of (m_KnownHosts ?m) (comp_uuid new) = Some c"
    using assms(1, 2) Some by simp_all
  have "comp_uuid c' = comp_uuid new"
    using update_facts(4) [of c new] u host_map_key [of "m_KnownHosts m" "comp_uuid new" c] assms(1) Some
    by (simp add: saved_inv_def)
  from signalled [OF m this] have "saved_or_signalled q (signal_change ch (comp_uuid new) (set_host (comp_uuid new) c' ?m))"
    using update_same [of c new] u assms(3) by auto
  moreover have "add_host mdns new stun m = signal_change ch (comp_uuid new) (set_host (comp_uuid new) c' ?m)"
    using Some u by (cases mdns) (simp_all add: add_host_def Let_def set_host_emit)
  ultimately show ?thesis by simp
next
  case None
  define c where "c = (case stun of None \<Rightarrow> new
    | Some a \<Rightarrow> new\<lparr>remoteAddress := \<lparr>m_Address = a, m_Port = externalPort new\<rparr>\<rparr>)"
  define u where "u = comp_uuid new"
  let ?m = "(if mdns then m else emit [Add_completed True] m)\<lparr>m_KnownHosts := insert_host u c (m_KnownHosts m)\<rparr>"
  have c: "comp_uuid c = u" "comp_name c \<noteq> []" "\<not> pendingQuit c"
    using assms(3) by (simp_all add: c_def u_def split: option.split)
  have a: "add_host mdns new stun m = signal_change True u ?m"
    using None by (cases mdns) (simp_all add: add_host_def Let_def u_def [symmetric] c_def [symmetric] emit_known)
  have "deliver (signal_change True u ?m) = handleComputerStateChanged u c ?m"
    using assms(2) by (cases mdns) (simp_all add: deliver_def signal_change_def no_queue)
  also have "\<dots> = saveHost u c (emit [State_changed u] ?m)"
    using c(3) by (simp add: handleComputerStateChanged_def)
  also have "saved_inv q \<dots>"
  proof -
    have h: "host_map (insert_host u c (m_KnownHosts m))"
      using assms(1) host_map_insert [OF _ c(1) [symmetric]] by (simp add: saved_inv_def)
    have "\<not> isEqualSerialized (last_serialized u m) c" if "\<not> m_NeedsDelayedFlush m"
    proof -
      have "same_hosts (m_KnownHosts m) (m_LastSerializedHosts m)" using that assms(1) by (simp add: saved_inv_def)
      then have "last_serialized u m = unknown_host"
        using same_hosts_missing [of "m_KnownHosts m" _ u] None by (simp add: last_serialized_def u_def)
      then show ?thesis using c(2) by (simp add: isEqualSerialized_def unknown_host_def)
    qed
    then show ?thesis using h
      by (auto simp: saved_inv_def saveHost_def last_serialized_def saveHosts_def emit_def)
  qed
  finally show ?thesis unfolding a
    using assms(2) by (simp add: saved_or_signalled_def signal_change_def)
qed

lemma flush_saved:
  assumes "faithful_hosts q" and "saved_inv q m"
  shows "saved_inv q (flush_started m)" "saved_inv q (flush_backup q m)" "saved_inv q (flush_primary q m)"
proof -
  show "saved_inv q (flush_started m)" "saved_inv q (flush_backup q m)"
    using assms(2) by (auto simp: saved_inv_def flush_started_def flush_backup_def)
  have "load_hosts q (performs (primary_writes q (map snd (m_KnownHosts m))) (settings m))
      = restored_map True (m_KnownHosts m)"
    using primary_done [OF assms(1)] known_restored assms(2) by (metis saved_inv_def)
  moreover have "same_hosts (m_KnownHosts m) (restored_map True (m_KnownHosts m))"
    by (auto simp: same_hosts_def restored_map_def list_all2_conv_all_nth isEqualSerialized_def restored_def
        split: prod.splits)
  ultimately show "saved_inv q (flush_primary q m)"
    using assms(2) by (simp add: saved_inv_def flush_primary_def)
qed

lemma with_saved:
  assumes "saved_inv q m" and "signal_queue m = []"
    and "\<And>c. map_of (m_KnownHosts m) u = Some c \<Longrightarrow> comp_uuid c = u \<Longrightarrow> saved_or_signalled q (f c m)"
  shows "saved_or_signalled q (with_host u f m)"
  using assms host_map_key [of "m_KnownHosts m" u]
  by (auto simp: with_host_def saved_now saved_inv_def split: option.split)

lemma set_host_members [simp]:
  "signal_queue (set_host u c m) = signal_queue m" "emitted (set_host u c m) = emitted m"
  "quits_in_flight (set_host u c m) = quits_in_flight m" "dangling (set_host u c m) = dangling m"
  by (simp_all add: set_host_eq)

lemma now_saved:
  assumes "saved_inv q m" and "signal_queue m = []" and "map_of (m_KnownHosts m) u = Some c"
    and "comp_uuid c' = u"
  shows "saved_or_signalled q (change_now u c' m)"
  using saved_inv_changed [OF assms(1, 3, 4)] assms(2) by (simp add: change_now_def saved_now)

lemma step_saved:
  assumes "faithful_hosts q" and "fresh_event e" and "saved_inv q m" and "signal_queue m = []"
  shows "saved_or_signalled q (manager_step p q m e)"
proof (cases e)
  case (Polled u a xml modes)
  show ?thesis unfolding Polled manager_step.simps
  proof (rule with_saved [OF assms(3, 4)])
    fix c
    assume c: "map_of (m_KnownHosts m) u = Some c" "comp_uuid c = u"
    show "saved_or_signalled q (case tryPollComputer p a xml modes c of None \<Rightarrow> m
        | Some (c', changed) \<Rightarrow> signal_change changed u (set_host u c' m))"
    proof (cases "tryPollComputer p a xml modes c")
      case (Some r)
      obtain c' ch where r: "r = (c', ch)" by force
      have "comp_uuid c' = u \<and> (\<not> ch \<longrightarrow> isEqualSerialized c c')"
        using tryPollComputer_cases [of p a xml modes c c' ch] Some r c(2) equal_tested by auto
      then show ?thesis using Some r signalled [OF assms(3, 4) c(1)] by simp
    qed (use assms saved_now in simp)
  qed
next
  case (Poll_failed u)
  show ?thesis unfolding Poll_failed manager_step.simps
    by (rule with_saved [OF assms(3, 4)]) (auto simp: mark_offline_def intro: signalled [OF assms(3, 4)])
next
  case (Apps_fetched u l)
  show ?thesis unfolding Apps_fetched manager_step.simps
  proof (rule with_saved [OF assms(3, 4)])
    fix c
    assume c: "map_of (m_KnownHosts m) u = Some c" "comp_uuid c = u"
    obtain c' ch where r: "updateAppList l c = (c', ch)" by force
    then have "comp_uuid c' = u" using c(2) uuid_kept(5) [of l c] by simp
    then show "saved_or_signalled q (case updateAppList l c of
        (c', changed) \<Rightarrow> signal_change changed u (set_host u c' m))"
      using signalled [OF assms(3, 4) c(1)] r updateAppList_unchanged [of l c] by auto
  qed
next
  case (Paired u cert)
  show ?thesis unfolding Paired manager_step.simps
  proof (rule with_saved [OF assms(3, 4)])
    fix c
    assume c: "map_of (m_KnownHosts m) u = Some c" "comp_uuid c = u"
    then have "saved_inv q (saveHost u (c\<lparr>serverCert := cert\<rparr>) (set_host u (c\<lparr>serverCert := cert\<rparr>) m))"
      by (intro saved_inv_saveHost [OF assms(3)]) simp_all
    then show "saved_or_signalled q (let c = c\<lparr>serverCert := cert\<rparr> in saveHost u c (set_host u c m))"
      by (simp add: Let_def) (simp add: saved_now saveHost_def assms(4))
  qed
next
  case (Added mdns new stun)
  then show ?thesis using add_saved assms by simp
next
  case (Deleted u)
  then show ?thesis using assms(3, 4) host_map_filter
    by (auto simp: saved_or_signalled_def deleteHost_def saved_inv_def saveHosts_def)
next
  case (Quit_requested u)
  show ?thesis unfolding Quit_requested manager_step.simps
    by (rule with_saved [OF assms(3, 4)]) (auto intro!: saved_now saved_inv_put [OF assms(3)] simp: assms(4))
next
  case (Quit_started u)
  show ?thesis unfolding Quit_started manager_step.simps
    by (rule with_saved [OF assms(3, 4)])
      (use assms(3, 4) in \<open>simp add: quit_started_def saved_or_signalled_def saved_inv_def\<close>)
next
  case (Quit_finished u failure)
  let ?m = "m\<lparr>quits_in_flight := remove1 u (quits_in_flight m)\<rparr>"
  have m: "saved_inv q ?m" "signal_queue ?m = []" using assms(3, 4) by (simp_all add: saved_inv_def)
  show ?thesis unfolding Quit_finished manager_step.simps
  proof (rule with_saved [OF assms(3, 4)])
    fix c
    assume c: "map_of (m_KnownHosts m) u = Some c" "comp_uuid c = u"
    then have "saved_inv q (set_host u (c\<lparr>pendingQuit := False\<rparr>) ?m)"
      using saved_inv_put [OF m(1), of u c "c\<lparr>pendingQuit := False\<rparr>"] by simp
    then show "saved_or_signalled q (quit_finished u failure c m)"
      using assms(3, 4) m by (auto simp: quit_finished_def Let_def intro!: saved_now split: option.split)
  qed
next
  case Delivered
  then show ?thesis using assms by (simp add: deliver_def saved_now)
next
  case Flush_started
  then show ?thesis using flush_saved [OF assms(1, 3)] assms(4) by (simp add: saved_now flush_started_def)
next
  case Flush_backup
  then show ?thesis using flush_saved [OF assms(1, 3)] assms(4) by (simp add: saved_now flush_backup_def)
next
  case Flush_primary
  then show ?thesis using flush_saved [OF assms(1, 3)] assms(4) by (simp add: saved_now flush_primary_def)
qed (simp_all, (rule with_saved [OF assms(3, 4)], simp add: now_saved [OF assms(3, 4)])+)

text \<open>A run in which a waiting signal is handled before anything else happens.\<close>

fun prompt_run :: "answer_parser \<Rightarrow> 'v host_codec \<Rightarrow> 'v host_manager \<Rightarrow> manager_event list \<Rightarrow> bool" where
  "prompt_run p q m [] \<longleftrightarrow> True"
| "prompt_run p q m (e # es) \<longleftrightarrow>
     (signal_queue m = [] \<or> e = Delivered) \<and> prompt_run p q (manager_step p q m e) es"

lemma deliver_queue: "signal_queue m = [u] \<Longrightarrow> signal_queue (deliver m) = []"
  by (simp add: deliver_def split: option.split)

lemma run_saved:
  assumes "faithful_hosts q" and "list_all fresh_event es" and "prompt_run p q m es" and "saved_or_signalled q m"
  shows "saved_or_signalled q (run_events (manager_step p q) m es)"
  using assms(2-4)
proof (induction es arbitrary: m)
  case (Cons e es)
  have "saved_or_signalled q (manager_step p q m e)"
  proof (cases "signal_queue m = []")
    case True
    then show ?thesis using Cons.prems step_saved [OF assms(1)] by (simp add: saved_or_signalled_def)
  next
    case False
    then show ?thesis using Cons.prems deliver_queue
      by (auto simp: saved_or_signalled_def intro: saved_now)
  qed
  then show ?case using Cons by simp
qed simp

text \<open>
  If every signalled change is handled before anything else happens, no change of a host is
  lost: whenever no signal waits and no flush is under way, one more flush leaves in the store
  every host as it is known, and without a flush being asked for the store has them already.
\<close>
theorem saved_when_quiet:
  assumes "faithful_hosts q" and "list_all fresh_event es" and "prompt_run p q (new_manager q s) es"
    and "m = run_events (manager_step p q) (new_manager q s) es"
    and "signal_queue m = []" and "stage m = Flush_waiting"
  shows "same_hosts (m_KnownHosts m)
      (load_hosts q (settings (run_events (manager_step p q) m [Flush_started, Flush_backup, Flush_primary])))
    \<and> (\<not> m_NeedsDelayedFlush m \<longrightarrow> same_hosts (m_KnownHosts m) (load_hosts q (settings m)))"
proof -
  have "saved_inv q (new_manager q s)"
    by (simp add: saved_inv_def new_manager_def host_map_load)
  then have "saved_or_signalled q (new_manager q s)"
    by (rule saved_now) (simp add: new_manager_def)
  from run_saved [OF assms(1-3) this] have inv: "saved_inv q m"
    using assms(4, 5) by (simp add: saved_or_signalled_def)
  let ?r = "run_events (manager_step p q) m [Flush_started, Flush_backup, Flush_primary]"
  have "saved_inv q ?r" using flush_saved [OF assms(1)] inv by simp
  moreover have "m_KnownHosts ?r = m_KnownHosts m" "stage ?r = Flush_waiting" "\<not> m_NeedsDelayedFlush ?r"
    using assms(6) by (auto simp: flush_started_def flush_backup_def flush_primary_def)
  ultimately show ?thesis using inv assms(6) by (auto simp: saved_inv_def)
qed

section \<open>Quitting\<close>



definition quits_done :: "'v host_manager \<Rightarrow> nat" where
  "quits_done m = count_list (emitted m) (Quit_app_completed None)"

definition is_quit_request :: "manager_event \<Rightarrow> bool" where
  "is_quit_request e \<longleftrightarrow> (case e of Quit_requested u \<Rightarrow> True | _ \<Rightarrow> False)"

definition pending :: "host_map \<Rightarrow> nat" where
  "pending a = length (filter (\<lambda>(k, c). pendingQuit c) a)"

lemma pending_put:
  assumes "distinct (map fst a)" and "map_of a u = Some c"
  shows "pending (put u c' a) + of_bool (pendingQuit c) = pending a + of_bool (pendingQuit c')"
  using assms
proof (induction a)
  case (Cons x a)
  show ?case
  proof (cases "fst x = u")
    case True
    then have "(u, d) \<notin> set a" for d using Cons.prems(1) by (force simp: image_iff)
    then have "put u c' a = a" by (auto simp: put_def intro!: map_idI)
    then show ?thesis using True Cons.prems by (cases x) (simp add: pending_def put_def)
  next
    case False
    then show ?thesis using Cons by (cases x) (simp add: pending_def put_def)
  qed
qed simp

lemma pending_insert:
  "map_of a u = None \<Longrightarrow> \<not> pendingQuit c \<Longrightarrow> pending (insert_host u c a) = pending a"
  by (induction u c a rule: insert_host.induct) (auto simp: pending_def split: if_splits)

lemma pending_filter: "pending (filter P a) \<le> pending a"
  by (induction a) (auto simp: pending_def)

lemma count_append: "count_list (a @ b) x = count_list a x + count_list b x"
  by (induction a) auto

text \<open>Completions and requests still open: what a step may add to them.\<close>

definition quit_total :: "'v host_manager \<Rightarrow> nat" where
  "quit_total m = count_list (emitted m) (Quit_app_completed None) + pending (m_KnownHosts m)"

lemma total_put:
  assumes "host_map (m_KnownHosts m)" and "map_of (m_KnownHosts m) u = Some c"
  shows "quit_total (set_host u c' m) + of_bool (pendingQuit c) = quit_total m + of_bool (pendingQuit c')"
  using pending_put [OF host_map_distinct [OF assms(1)] assms(2), of c'] by (simp add: quit_total_def)

lemma total_signal [simp]: "quit_total (signal_change b u m) = quit_total m"
  by (simp add: quit_total_def signal_change_def)

lemma total_saveHost [simp]: "quit_total (saveHost u c m) = quit_total m"
  by (simp add: quit_total_def saveHost_def)

lemma total_handle:
  assumes "host_map (m_KnownHosts m)" and "map_of (m_KnownHosts m) u = Some c"
  shows "quit_total (handleComputerStateChanged u c' (set_host u c' m)) + of_bool (pendingQuit c)
    = quit_total m + of_bool (pendingQuit c')"
proof -
  have e: "quit_total (emit [State_changed u] n) = quit_total n" for n :: "'a host_manager"
    by (simp add: quit_total_def count_append)
  have f: "quit_total (emit [Quit_app_completed None] n) = quit_total n + 1" for n :: "'a host_manager"
    by (simp add: quit_total_def count_append)
  show ?thesis using total_put [OF assms, of c'] total_put [OF assms, of "c'\<lparr>pendingQuit := False\<rparr>"]
    by (simp add: handleComputerStateChanged_def Let_def e f)
qed

lemma put_same: "host_map m \<Longrightarrow> map_of m u = Some c \<Longrightarrow> put u c m = m"
  using host_map_unique by (fastforce simp: put_def intro: map_idI)

lemma set_host_same: "host_map (m_KnownHosts m) \<Longrightarrow> map_of (m_KnownHosts m) u = Some c \<Longrightarrow> set_host u c m = m"
  by (cases m) (simp add: set_host_eq put_same)

lemma known_signal [simp]: "m_KnownHosts (signal_change b u m) = m_KnownHosts m"
  by (simp add: signal_change_def)

lemma known_saveHost [simp]: "m_KnownHosts (saveHost u c m) = m_KnownHosts m"
  by (simp add: saveHost_def)

lemma known_handle:
  "m_KnownHosts (handleComputerStateChanged u c m) = m_KnownHosts m
   \<or> m_KnownHosts (handleComputerStateChanged u c m) = put u (c\<lparr>pendingQuit := False\<rparr>) (m_KnownHosts m)"
  by (simp add: handleComputerStateChanged_def Let_def)

lemma handle_host_map:
  "host_map (m_KnownHosts m) \<Longrightarrow> comp_uuid c = u \<Longrightarrow> host_map (m_KnownHosts (handleComputerStateChanged u c m))"
  using known_handle [of u c m] host_map_put [of "m_KnownHosts m" "c\<lparr>pendingQuit := False\<rparr>" u] by auto

lemma update_pending [simp]: "pendingQuit (fst (update c d)) = pendingQuit c"
  by (simp add: update_eq merged_def Let_def)

lemma try_kept:
  "tryPollComputer p a xml modes c = Some (c', ch) \<Longrightarrow>
     comp_uuid c' = comp_uuid c \<and> pendingQuit c' = pendingQuit c"
proof -
  assume t: "tryPollComputer p a xml modes c = Some (c', ch)"
  then have "c' = fst (update (markAddressTestSucceeded a c) (report p a (serverCert c) xml modes))"
    by (auto simp: tryPollComputer_def Let_def split: if_splits)
  then show ?thesis by (simp add: update_facts markAddressTestSucceeded_def)
qed

lemma mark_kept:
  "mark_offline c r = (c', ch) \<Longrightarrow> comp_uuid c' = comp_uuid c \<and> pendingQuit c' = pendingQuit c"
  by (auto simp: mark_offline_def split: if_splits)

lemma apps_kept:
  "updateAppList l c = (c', ch) \<Longrightarrow> comp_uuid c' = comp_uuid c \<and> pendingQuit c' = pendingQuit c"
  by (auto simp: updateAppList_def split: if_splits)

lemma pending_kept [simp]:
  "pendingQuit (renameHost name c) = pendingQuit c" "pendingQuit (setAppHidden i h c) = pendingQuit c"
  "pendingQuit (setAppDirectLaunch i d c) = pendingQuit c" "pendingQuit (quit_requested c)"
  by (simp_all add: renameHost_def setAppHidden_def setAppDirectLaunch_def quit_requested_def)

lemma total_added:
  assumes h: "host_map (m_KnownHosts m)" and e: "fresh_event (Added mdns new stun)"
  shows "host_map (m_KnownHosts (add_host mdns new stun m)) \<and> quit_total (add_host mdns new stun m) = quit_total m"
proof -
  have em: "quit_total (emit [Add_completed True] n) = quit_total n" for n :: "'a host_manager"
    by (simp add: quit_total_def count_append)
  show ?thesis
  proof (cases "map_of (m_KnownHosts m) (comp_uuid new)")
    case (Some c)
    obtain c' ch where u: "update c new = (c', ch)" by force
    then have "comp_uuid c' = comp_uuid new" "pendingQuit c' = pendingQuit c"
      using update_facts(4) [of c new] update_pending [of c new] host_map_key [OF h Some] by simp_all
    then show ?thesis using Some u h total_put [OF h Some, of c']
      by (simp add: add_host_def Let_def em host_map_put)
  next
    case None
    define c where "c = (case stun of None \<Rightarrow> new
      | Some a \<Rightarrow> new\<lparr>remoteAddress := \<lparr>m_Address = a, m_Port = externalPort new\<rparr>\<rparr>)"
    have c: "comp_uuid new = comp_uuid c" "\<not> pendingQuit c"
      using e by (simp_all add: c_def split: option.split)
    have "host_map (insert_host (comp_uuid new) c (m_KnownHosts m))" by (rule host_map_insert [OF h c(1)])
    then show ?thesis using None c pending_insert [OF None, of c]
      by (simp add: add_host_def Let_def c_def [symmetric]) (simp add: quit_total_def count_append)
  qed
qed

lemma now_total:
  assumes "host_map (m_KnownHosts m)" and "map_of (m_KnownHosts m) u = Some c"
    and "comp_uuid c' = comp_uuid c" and "pendingQuit c' = pendingQuit c"
  shows "host_map (m_KnownHosts (change_now u c' m)) \<and> quit_total (change_now u c' m) = quit_total m"
  using total_handle [OF assms(1, 2), of c'] host_map_key [OF assms(1, 2)] assms
    handle_host_map [of "set_host u c' m" c' u] host_map_put [OF assms(1), of c' u]
  by (simp add: change_now_def)

lemma later_total:
  assumes "host_map (m_KnownHosts m)" and "map_of (m_KnownHosts m) u = Some c"
    and "comp_uuid c' = comp_uuid c \<and> pendingQuit c' = pendingQuit c"
  shows "host_map (m_KnownHosts (signal_change b u (set_host u c' m)))
    \<and> quit_total (signal_change b u (set_host u c' m)) = quit_total m"
  using total_put [OF assms(1, 2), of c'] host_map_key [OF assms(1, 2)] assms host_map_put [OF assms(1), of c' u]
  by simp

lemma step_total:
  assumes h: "host_map (m_KnownHosts m)" and f: "fresh_event e"
  shows "host_map (m_KnownHosts (manager_step p q m e))
    \<and> quit_total (manager_step p q m e) \<le> quit_total m + of_bool (is_quit_request e)"
proof -
  have w: "host_map (m_KnownHosts (with_host u g m)) \<and> quit_total (with_host u g m) \<le> quit_total m + n"
    if "\<And>c. map_of (m_KnownHosts m) u = Some c \<Longrightarrow>
      host_map (m_KnownHosts (g c m)) \<and> quit_total (g c m) \<le> quit_total m + n" for u g n
    using that h by (simp add: with_host_def split: option.split)
  show ?thesis
  proof (cases e)
    case (Polled u a xml modes)
    show ?thesis unfolding Polled manager_step.simps
      using later_total [OF h] try_kept by (intro w) (fastforce split: option.split simp: h)
  next
    case (Poll_failed u)
    show ?thesis unfolding Poll_failed manager_step.simps
      using later_total [OF h] mark_kept by (intro w) (fastforce split: prod.split)
  next
    case (Apps_fetched u l)
    show ?thesis unfolding Apps_fetched manager_step.simps
      using later_total [OF h] apps_kept by (intro w) (fastforce split: prod.split)
  next
    case (Paired u cert)
    show ?thesis unfolding Paired manager_step.simps
    proof (rule w)
      fix c
      assume c: "map_of (m_KnownHosts m) u = Some c"
      show "host_map (m_KnownHosts (let c = c\<lparr>serverCert := cert\<rparr> in saveHost u c (set_host u c m)))
        \<and> quit_total (let c = c\<lparr>serverCert := cert\<rparr> in saveHost u c (set_host u c m)) \<le> quit_total m + of_bool (is_quit_request (Paired u cert))"
        using total_put [OF h c, of "c\<lparr>serverCert := cert\<rparr>"] host_map_key [OF h c]
          host_map_put [OF h, of "c\<lparr>serverCert := cert\<rparr>" u] by (simp add: Let_def)
    qed
  next
    case (Added mdns new stun)
    then show ?thesis using total_added [OF h] f by (simp add: is_quit_request_def)
  next
    case (Deleted u)
    then show ?thesis using host_map_filter [OF h] pending_filter
      by (simp add: deleteHost_def quit_total_def is_quit_request_def)
  next
    case (Quit_requested u)
    show ?thesis unfolding Quit_requested manager_step.simps
    proof (rule w)
      fix c
      assume c: "map_of (m_KnownHosts m) u = Some c"
      show "host_map (m_KnownHosts (set_host u (quit_requested c) m))
        \<and> quit_total (set_host u (quit_requested c) m) \<le> quit_total m + of_bool (is_quit_request (Quit_requested u))"
        using total_put [OF h c, of "quit_requested c"] host_map_key [OF h c]
          host_map_put [OF h, of "quit_requested c" u] by (simp add: is_quit_request_def)
    qed
  next
    case (Quit_started u)
    show ?thesis unfolding Quit_started manager_step.simps
      by (rule w) (simp add: quit_started_def quit_total_def h)
  next
    case (Quit_finished u failure)
    let ?m = "m\<lparr>quits_in_flight := remove1 u (quits_in_flight m)\<rparr>"
    show ?thesis unfolding Quit_finished manager_step.simps
    proof (rule w)
      fix c
      assume c: "map_of (m_KnownHosts m) u = Some c"
      have t: "quit_total ?m = quit_total m" by (simp add: quit_total_def)
      have "quit_total (emit [Quit_app_completed (Some x)] n) = quit_total n" for x and n :: "'a host_manager"
        by (simp add: quit_total_def count_append)
      then show "host_map (m_KnownHosts (quit_finished u failure c m))
        \<and> quit_total (quit_finished u failure c m) \<le> quit_total m + of_bool (is_quit_request (Quit_finished u failure))"
        using total_put [of ?m u c "c\<lparr>pendingQuit := False\<rparr>"] c h host_map_key [OF h c]
          host_map_put [OF h, of "c\<lparr>pendingQuit := False\<rparr>" u] t
        by (simp add: quit_finished_def Let_def split: option.split)
    qed
  next
    case Delivered
    show ?thesis
    proof (cases "signal_queue m")
      case (Cons x l)
      let ?m = "m\<lparr>signal_queue := l\<rparr>"
      have t: "quit_total ?m = quit_total m" "quit_total (?m\<lparr>dangling := True\<rparr>) = quit_total m"
        by (simp_all add: quit_total_def)
      show ?thesis
      proof (cases x)
        case (Some u)
        show ?thesis
        proof (cases "map_of (m_KnownHosts m) u")
          case c: (Some c)
          then have "change_now u c ?m = handleComputerStateChanged u c ?m"
            using h set_host_same [of ?m u c] by (simp add: change_now_def)
          then show ?thesis using now_total [of ?m u c c] Delivered Cons Some c h t by (simp add: deliver_def)
        qed (use Delivered Cons Some h t in \<open>simp add: deliver_def quit_total_def\<close>)
      qed (use Delivered Cons h t in \<open>simp add: deliver_def quit_total_def\<close>)
    qed (use Delivered h in \<open>simp add: deliver_def\<close>)
  next
    case (Renamed u name)
    show ?thesis unfolding Renamed manager_step.simps using now_total [OF h] by (intro w) simp
  next
    case (App_hidden u i b)
    show ?thesis unfolding App_hidden manager_step.simps using now_total [OF h] by (intro w) simp
  next
    case (App_direct u i b)
    show ?thesis unfolding App_direct manager_step.simps using now_total [OF h] by (intro w) simp
  qed (simp_all add: flush_started_def flush_backup_def flush_primary_def quit_total_def h)
qed

lemma run_total:
  assumes "host_map (m_KnownHosts m)" and "list_all fresh_event es"
  shows "quit_total (run_events (manager_step p q) m es) \<le> quit_total m + length (filter is_quit_request es)"
  using assms
proof (induction es arbitrary: m)
  case (Cons e es)
  have s: "host_map (m_KnownHosts (manager_step p q m e))"
    "quit_total (manager_step p q m e) \<le> quit_total m + of_bool (is_quit_request e)"
    using step_total [of m e p q] Cons.prems by simp_all
  have "quit_total (run_events (manager_step p q) (manager_step p q m e) es)
      \<le> quit_total (manager_step p q m e) + length (filter is_quit_request es)"
    using Cons.IH [OF s(1)] Cons.prems by simp
  then show ?case using s(2) by (cases "is_quit_request e") simp_all
qed simp

lemma loaded_not_pending: "(k, c) \<in> set (load_hosts q s) \<Longrightarrow> \<not> pendingQuit c"
proof -
  have i: "set (insert_host u c m) \<subseteq> insert (u, c) (set m)" for u c m
    by (induction u c m rule: insert_host.induct) auto
  have "set (foldl (\<lambda>m c. insert_host (comp_uuid c) c m) m cs) \<subseteq> set m \<union> (\<lambda>c. (comp_uuid c, c)) ` set cs" for m cs
  proof (induction cs arbitrary: m)
    case (Cons c cs)
    then show ?case using i [of "comp_uuid c" c m] by fastforce
  qed simp
  from this [of "[]"] have "c \<in> range (read_host q s)" if "(k, c) \<in> set (load_hosts q s)"
    using that by (fastforce simp: load_hosts_def Let_def read_array_def split: if_splits)
  then show "(k, c) \<in> set (load_hosts q s) \<Longrightarrow> \<not> pendingQuit c"
    by (auto simp: read_host_def Let_def)
qed

text \<open>
  However requests to quit, polls, failures and their signals interleave, a completed quit is
  reported at most once per request, and only while no request is forgotten: completions and hosts
  still waiting together never exceed the requests.
\<close>
theorem quits_reported_once:
  assumes "list_all fresh_event es" and "m = run_events (manager_step p q) (new_manager q s) es"
  shows "count_list (emitted m) (Quit_app_completed None)
    + length (filter (\<lambda>(k, c). pendingQuit c) (m_KnownHosts m)) \<le> length (filter is_quit_request es)"
proof -
  have "filter (\<lambda>(k, c). pendingQuit c) (load_hosts q s) = []"
    using loaded_not_pending by (auto simp: filter_empty_conv)
  then have "quit_total (new_manager q s) = 0"
    by (simp add: quit_total_def new_manager_def pending_def)
  then show ?thesis using run_total [of "new_manager q s" es p q] assms host_map_load [of q s]
    by (simp add: quit_total_def pending_def new_manager_def)
qed

text \<open>
  A quit asked for when no game runs any more is never answered while the host stays as it is:
  the task sends no request and emits nothing, and polls that find nothing new emit nothing.
\<close>
theorem quit_of_idle_host_hangs:
  assumes "host_map (m_KnownHosts m)" and "map_of (m_KnownHosts m) u = Some c"
    and "currentGameId c = 0" and "signal_queue m = []"
    and "tryPollComputer p a xml modes (quit_requested c) = Some (quit_requested c, False)"
    and "m' = run_events (manager_step p q) m ([Quit_requested u, Quit_started u]
      @ concat (replicate n [Polled u a xml modes, Delivered]))"
  shows "emitted m' = emitted m \<and> quits_in_flight m' = quits_in_flight m \<and> signal_queue m' = []
    \<and> map_of (m_KnownHosts m') u = Some (c\<lparr>pendingQuit := True\<rparr>)"
proof -
  let ?m = "set_host u (quit_requested c) m"
  have lookup: "map_of (m_KnownHosts ?m) u = Some (quit_requested c)" by (simp add: map_of_put assms(2))
  have two: "run_events (manager_step p q) m [Quit_requested u, Quit_started u] = ?m"
    using assms(2, 3) lookup by (simp add: with_host_def quit_started_def) (simp add: quit_requested_def)
  have "host_map (m_KnownHosts ?m)"
    using host_map_put [OF assms(1), of "quit_requested c" u] host_map_key [OF assms(1, 2)] by simp
  then have poll: "run_events (manager_step p q) ?m [Polled u a xml modes, Delivered] = ?m"
    using lookup set_host_same [OF _ lookup] assms(4, 5)
    by (simp add: with_host_def signal_change_def deliver_def)
  have "run_events (manager_step p q) ?m (concat (replicate n [Polled u a xml modes, Delivered])) = ?m"
    using poll by (induction n) simp_all
  then have "m' = ?m" using assms(6) two unfolding run_events_append by simp
  then show ?thesis using lookup assms(4) by (simp add: quit_requested_def)
qed

section \<open>Deleted hosts\<close>

definition is_deletion :: "manager_event \<Rightarrow> bool" where
  "is_deletion e \<longleftrightarrow> (case e of Deleted u \<Rightarrow> True | _ \<Rightarrow> False)"

text \<open>Every signal that waits is of a known host.\<close>

definition queue_known :: "'v host_manager \<Rightarrow> bool" where
  "queue_known m \<longleftrightarrow> \<not> dangling m \<and> set (signal_queue m) \<subseteq> Some ` fst ` set (m_KnownHosts m)"

lemma queue_known_set [simp]: "queue_known (set_host u c m) = queue_known m"
  by (simp add: queue_known_def put_def image_image case_prod_beta)

lemma queue_known_emit [simp]: "queue_known (emit l m) = queue_known m"
  by (simp add: queue_known_def)

lemma queue_known_save [simp]: "queue_known (saveHost u c m) = queue_known m"
  by (simp add: queue_known_def saveHost_def)

lemma queue_known_handle [simp]: "queue_known (handleComputerStateChanged u c m) = queue_known m"
  by (simp add: handleComputerStateChanged_def Let_def)

lemma queue_known_signal:
  "queue_known m \<Longrightarrow> u \<in> fst ` set (m_KnownHosts m) \<Longrightarrow> queue_known (signal_change b u m)"
  by (auto simp: queue_known_def signal_change_def)

lemma queue_known_add: "queue_known m \<Longrightarrow> queue_known (add_host mdns new stun m)"
proof -
  assume m: "queue_known m"
  have keys: "fst ` set (insert_host u c a) = insert u (fst ` set a)" for u c a
    by (induction u c a rule: insert_host.induct) auto
  show ?thesis
  proof (cases "map_of (m_KnownHosts m) (comp_uuid new)")
    case None
    then show ?thesis using m
      by (auto simp: add_host_def Let_def queue_known_def signal_change_def keys)
  next
    case (Some c)
    then have "comp_uuid new \<in> fst ` set (put (comp_uuid new) d (m_KnownHosts m))" for d
      by (metis map_of_SomeD image_eqI fst_conv list.set_map put_keys)
    then show ?thesis using m Some
      by (simp add: add_host_def Let_def queue_known_signal split: prod.split)
  qed
qed

lemma queue_known_deliver: "queue_known m \<Longrightarrow> queue_known (deliver m)"
proof (cases "signal_queue m")
  case (Cons x l)
  assume m: "queue_known m"
  then obtain u where u: "x = Some u" "u \<in> fst ` set (m_KnownHosts m)"
    using Cons by (auto simp: queue_known_def)
  then obtain c where "map_of (m_KnownHosts m) u = Some c" by (metis map_of_eq_None_iff not_None_eq)
  then show ?thesis using m Cons u by (simp add: deliver_def) (auto simp: queue_known_def)
qed (simp add: deliver_def)

lemma step_queue_known:
  assumes "queue_known m" and "\<not> is_deletion e"
  shows "queue_known (manager_step p q m e)"
proof -
  have w: "queue_known (with_host u g m)"
    if "\<And>c. u \<in> fst ` set (m_KnownHosts m) \<Longrightarrow> queue_known (g c m)" for u g
  proof (cases "map_of (m_KnownHosts m) u")
    case (Some c)
    then have "u \<in> fst ` set (m_KnownHosts m)" by (force dest: map_of_SomeD)
    then show ?thesis using that Some by (simp add: with_host_def)
  qed (use assms(1) in \<open>simp add: with_host_def\<close>)
  have k: "u \<in> fst ` set (put u c (m_KnownHosts m)) \<longleftrightarrow> u \<in> fst ` set (m_KnownHosts m)" for u c
    by (metis list.set_map put_keys)
  have later: "queue_known (signal_change b u (set_host u c m))"
    if "u \<in> fst ` set (m_KnownHosts m)" for b u c
    using that assms(1) by (intro queue_known_signal) (simp_all add: k)
  show ?thesis
  proof (cases e)
    case (Polled u a xml modes)
    show ?thesis unfolding Polled manager_step.simps
      by (rule w) (auto simp: assms(1) intro: later split: option.split)
  next
    case (Poll_failed u)
    show ?thesis unfolding Poll_failed manager_step.simps
      by (rule w) (auto intro: later split: prod.split)
  next
    case (Apps_fetched u l)
    show ?thesis unfolding Apps_fetched manager_step.simps
      by (rule w) (auto intro: later split: prod.split)
  next
    case (Quit_started u)
    show ?thesis unfolding Quit_started manager_step.simps
      by (rule w) (use assms(1) in \<open>simp add: quit_started_def queue_known_def\<close>)
  next
    case (Quit_finished u failure)
    have "queue_known (m\<lparr>quits_in_flight := l\<rparr>)" for l using assms(1) by (simp add: queue_known_def)
    then show ?thesis unfolding Quit_finished manager_step.simps
      by (intro w) (use assms(1) in \<open>simp add: quit_finished_def Let_def split: option.split\<close>)
  next
    case (Deleted u)
    then show ?thesis using assms(2) by (simp add: is_deletion_def)
  next
    case (Added mdns new stun)
    then show ?thesis using assms(1) queue_known_add by simp
  next
    case Delivered
    then show ?thesis using assms(1) queue_known_deliver by simp
  next
    case (Paired u cert)
    show ?thesis unfolding Paired manager_step.simps by (rule w) (simp add: Let_def assms(1))
  next
    case (Quit_requested u)
    show ?thesis unfolding Quit_requested manager_step.simps by (rule w) (simp add: assms(1))
  next
    case Flush_started
    then show ?thesis using assms(1) by (simp add: flush_started_def queue_known_def)
  next
    case Flush_backup
    then show ?thesis using assms(1) by (simp add: flush_backup_def queue_known_def)
  next
    case Flush_primary
    then show ?thesis using assms(1) by (simp add: flush_primary_def queue_known_def)
  qed (simp_all, (rule w, simp add: change_now_def assms(1))+)
qed

text \<open>
  As long as no host is deleted, every handled signal is of a host that still exists.
\<close>
theorem no_dangling_without_deletion:
  assumes "\<not> list_ex is_deletion es"
  shows "\<not> dangling (run_events (manager_step p q) (new_manager q s) es)"
proof -
  have "queue_known (run_events (manager_step p q) m es)" if "queue_known m" for m
    using that assms by (induction es arbitrary: m) (simp_all add: step_queue_known)
  moreover have "queue_known (new_manager q s)" by (simp add: queue_known_def new_manager_def)
  ultimately show ?thesis by (simp add: queue_known_def)
qed

section \<open>Concrete runs\<close>

definition stored :: "held hosts_store" where
  "stored = performs (flush_writes plain_codec [] (map snd desk_map)) (\<lambda>_. None)"

lemma load_stored: "load_hosts plain_codec stored = restored_map True desk_map"
  unfolding stored_def flush_done [OF plain_codec_faithful] by (rule known_restored) simp

definition game2 :: nv_app where "game2 = game\<lparr>app_id := 8\<rparr>"

definition stored_desk :: "nv_app list \<Rightarrow> nv_computer" where
  "stored_desk l = (restored True desk)\<lparr>appList := l\<rparr>"

lemma stored_desk_facts [simp]:
  "comp_uuid (stored_desk l) = ''u1''" "pendingQuit (stored_desk l) = False" "appList (stored_desk l) = l"
  "currentGameId (stored_desk l) = 0" "serverCert (stored_desk l) = []"
  by (simp_all add: stored_desk_def restored_def desk_def unknown_host_def)

lemma loaded_desk: "restored_map True desk_map =
    [(''u0'', restored True (desk\<lparr>comp_uuid := ''u0'', comp_name := ''old''\<rparr>)), (''u1'', stored_desk [game])]"
proof -
  have "restored True desk = stored_desk [game]" unfolding stored_desk_def by (simp add: restored_def)
  then show ?thesis by (simp add: restored_map_def desk_map_def)
qed

lemma fetched_apps:
  "updateAppList [game, game2] (stored_desk [game]) = (stored_desk [game, game2], True)"
  "updateAppList [game] (stored_desk [game, game2]) = (stored_desk [game], True)"
  by (simp_all add: updateAppList_def propagate_def stored_desk_def game_def game2_def)

lemma put_desk [simp]: "put ''u1'' c [(''u1'', d)] = [(''u1'', c)]"
  by (simp add: put_def)

lemma desk_unequal:
  "isEqualSerialized (stored_desk l) (stored_desk l') \<longleftrightarrow> l = l'"
  by (auto simp: isEqualSerialized_def stored_desk_def)

text \<open>
  Handling signals late loses a change: an app list that comes and goes while a flush is under
  way is the one in the store, and nothing asks for another flush.
\<close>
theorem late_signal_loses_change:
  "let m = run_events (manager_step p plain_codec) (new_manager plain_codec stored)
     [Deleted ''u0'', Flush_started, Apps_fetched ''u1'' [game, game2], Flush_backup,
      Flush_primary, Apps_fetched ''u1'' [game], Delivered, Delivered]
   in signal_queue m = [] \<and> stage m = Flush_waiting \<and> \<not> m_NeedsDelayedFlush m
    \<and> \<not> same_hosts (m_KnownHosts m) (load_hosts plain_codec (settings m))"
proof -
  define m where "m = run_events (manager_step p plain_codec) (new_manager plain_codec stored)
    [Deleted ''u0'', Flush_started, Apps_fetched ''u1'' [game, game2], Flush_backup,
     Flush_primary, Apps_fetched ''u1'' [game], Delivered, Delivered]"
  let ?h = "[stored_desk [game, game2]]"
  let ?s = "performs (primary_writes plain_codec ?h) (performs (backup_writes plain_codec ?h) stored)"
  define m1 where "m1 = run_events (manager_step p plain_codec) (new_manager plain_codec stored)
    [Deleted ''u0'', Flush_started, Apps_fetched ''u1'' [game, game2], Flush_backup, Flush_primary]"
  have m1: "m1 = \<lparr>m_KnownHosts = [(''u1'', stored_desk [game, game2])],
      m_LastSerializedHosts = [(''u1'', stored_desk [game])], m_NeedsDelayedFlush = False,
      stage = Flush_waiting, settings = ?s, signal_queue = [Some ''u1''], quits_in_flight = [],
      emitted = [], dangling = False\<rparr>"
    unfolding m1_def
    by (simp add: new_manager_def load_stored loaded_desk deleteHost_def saveHosts_def flush_started_def
        with_host_def fetched_apps set_host_eq signal_change_def flush_backup_def flush_primary_def)
  have m: "m = run_events (manager_step p plain_codec) m1 [Apps_fetched ''u1'' [game], Delivered, Delivered]"
    by (simp add: m_def m1_def)
  have e: "m_KnownHosts m = [(''u1'', stored_desk [game])]" "settings m = ?s" "signal_queue m = []"
    "stage m = Flush_waiting" "\<not> m_NeedsDelayedFlush m"
    unfolding m m1
    by (simp_all add: with_host_def fetched_apps set_host_eq signal_change_def deliver_def
        handleComputerStateChanged_def emit_def saveHost_def last_serialized_def)
  have "load_hosts plain_codec ?s = restored_map True [(''u1'', stored_desk [game, game2])]"
    using primary_done(1) [OF plain_codec_faithful] known_restored [of "[(''u1'', stored_desk [game, game2])]" True]
    by (simp add: host_map_def)
  then have ns: "\<not> same_hosts (m_KnownHosts m) (load_hosts plain_codec (settings m))"
    using e by (simp add: same_hosts_def restored_map_def isEqualSerialized_def) (simp add: restored_def game2_def)
  show ?thesis unfolding m_def [symmetric] Let_def using e ns by blast
qed

text \<open>
  A host can be deleted while a signal of a change of it waits; the main thread then handles
  the signal with the pointer to the destroyed host.
\<close>
theorem deleted_host_signalled:
  "dangling (run_events (manager_step p plain_codec) (new_manager plain_codec stored)
     [Apps_fetched ''u1'' [game, game2], Deleted ''u1'', Delivered])"
  by (simp add: new_manager_def load_stored loaded_desk with_host_def fetched_apps signal_change_def
      set_host_eq deleteHost_def deliver_def saveHosts_def)

lemma flush_queue [simp]:
  "signal_queue (flush_started m) = signal_queue m" "signal_queue (flush_backup q m) = signal_queue m"
  "signal_queue (flush_primary q m) = signal_queue m" "signal_queue (change_now u c m) = signal_queue m"
  by (simp_all add: flush_started_def flush_backup_def flush_primary_def change_now_def)

theorem saved_when_quiet_witness:
  "let m = run_events (manager_step plain_parser plain_codec) (new_manager plain_codec stored)
         [Renamed ''u1'' ''new''] in
   same_hosts (m_KnownHosts m)
     (load_hosts plain_codec (settings (run_events (manager_step plain_parser plain_codec) m
        [Flush_started, Flush_backup, Flush_primary])))
   \<and> map_option comp_name (map_of (m_KnownHosts m) ''u1'') = Some ''new''"
proof -
  let ?n = "new_manager plain_codec stored"
  let ?m = "run_events (manager_step plain_parser plain_codec) ?n [Renamed ''u1'' ''new'']"
  have m: "?m = change_now ''u1'' (renameHost ''new'' (stored_desk [game])) ?n"
    by (simp add: new_manager_def load_stored loaded_desk with_host_def)
  have "stage ?m = Flush_waiting" "signal_queue ?m = []"
      "map_option comp_name (map_of (m_KnownHosts ?m) ''u1'') = Some ''new''"
    unfolding m change_now_def handleComputerStateChanged_def
    by (simp_all add: saveHost_def saveHosts_def set_host_eq emit_def new_manager_def load_stored loaded_desk
        renameHost_def put_def Let_def)
  then show ?thesis
    using saved_when_quiet [of plain_codec "[Renamed ''u1'' ''new'']" plain_parser stored ?m]
    by (simp add: new_manager_def Let_def)
qed

theorem quits_reported_once_witness:
  "count_list (emitted (run_events (manager_step plain_parser plain_codec) (new_manager plain_codec stored)
     [Quit_requested ''u1'', Quit_started ''u1''])) (Quit_app_completed None) \<le> 1"
  using quits_reported_once [of "[Quit_requested ''u1'', Quit_started ''u1'']" _ plain_parser plain_codec stored, OF _ refl]
  by (simp add: is_quit_request_def)

theorem no_dangling_without_deletion_witness:
  "\<not> dangling (run_events (manager_step plain_parser plain_codec) (new_manager plain_codec stored)
     [Apps_fetched ''u1'' [game, game2], Delivered])"
  by (rule no_dangling_without_deletion) (simp add: is_deletion_def)

definition desk_xml :: "string \<Rightarrow> string" where
  "desk_xml tag = (if tag = ''uniqueid'' then ''u1'' else [])"

definition idle_desk :: nv_computer where
  "idle_desk = (fst (update (markAddressTestSucceeded lan (quit_requested desk))
     (report plain_parser lan [] desk_xml [])))\<lparr>pendingQuit := False\<rparr>"

lemma idle_desk_poll:
  "tryPollComputer plain_parser lan desk_xml [] (quit_requested idle_desk) = Some (quit_requested idle_desk, False)"
  "currentGameId idle_desk = 0" "comp_uuid idle_desk = ''u1''"
proof -
  let ?d = "report plain_parser lan [] desk_xml []"
  let ?x = "fst (update (markAddressTestSucceeded lan (quit_requested desk)) ?d)"
  have "pendingQuit ?x" by (simp add: markAddressTestSucceeded_def)
  then have x: "quit_requested idle_desk = ?x" unfolding idle_desk_def quit_requested_def by (cases ?x) simp
  have cert: "serverCert ?x = []" and u: "comp_uuid ?x = ''u1''"
    by (simp_all add: update_facts quit_requested_def desk_def unknown_host_def)
  have "lan \<in> set (m_TestedAddresses ?x)"
    by (simp add: update_eq merged_tested_def lan_def null_address_def)
  then have "markAddressTestSucceeded lan ?x = ?x" by (simp add: markAddressTestSucceeded_def)
  moreover have "update ?x ?d = (?x, False)" using update_again [of ?d ?x "markAddressTestSucceeded lan (quit_requested desk)"] by simp
  ultimately show "tryPollComputer plain_parser lan desk_xml [] (quit_requested idle_desk)
      = Some (quit_requested idle_desk, False)"
    using cert u by (simp add: tryPollComputer_def x desk_xml_def)
  have "currentGameId ?x = 0"
    by (simp add: update_eq merged_def Let_def report_def getCurrentGame_def desk_xml_def ends_with_def starts_with_def)
  then show "currentGameId idle_desk = 0" "comp_uuid idle_desk = ''u1''"
    using u by (simp_all add: idle_desk_def)
qed

theorem quit_of_idle_host_hangs_witness:
  "emitted (run_events (manager_step plain_parser plain_codec)
      \<lparr>m_KnownHosts = [(''u1'', idle_desk)], m_LastSerializedHosts = [], m_NeedsDelayedFlush = False,
       stage = Flush_waiting, settings = stored, signal_queue = [], quits_in_flight = [], emitted = [],
       dangling = False\<rparr>
      ([Quit_requested ''u1'', Quit_started ''u1'']
       @ concat (replicate 1000 [Polled ''u1'' lan desk_xml [], Delivered]))) = []"
proof -
  let ?m = "\<lparr>m_KnownHosts = [(''u1'', idle_desk)], m_LastSerializedHosts = [], m_NeedsDelayedFlush = False,
    stage = Flush_waiting, settings = stored, signal_queue = [], quits_in_flight = [], emitted = [],
    dangling = False\<rparr>"
  have m: "host_map (m_KnownHosts ?m)" "map_of (m_KnownHosts ?m) ''u1'' = Some idle_desk" "signal_queue ?m = []"
    using idle_desk_poll(3) by (simp_all add: host_map_def)
  from quit_of_idle_host_hangs [OF m(1, 2) idle_desk_poll(2) m(3) idle_desk_poll(1) refl,
      of plain_codec 1000, THEN conjunct1]
  show ?thesis by (simp only: host_manager.select_convs)
qed

end
