(* ===== verification/AppListModel.thy ===== *)
theory AppListModel
  imports HostManager
begin

text \<open>
  The list of apps of one host as the view shows it (\<open>AppModel\<close> in \<open>src/app/gui/appmodel.cpp\<close>): which
  apps are visible, which row runs, which app is launched directly and which address is pinned.
\<close>

section \<open>State and operations\<close>

record app_model =
  m_AllApps :: "nv_app list"
  m_VisibleApps :: "nv_app list"
  m_CurrentGameId :: int
  m_ShowHiddenGames :: bool

datatype model_signal = Computer_lost | Model_reset | Running_changed nat

definition isAppCurrentlyVisible :: "app_model \<Rightarrow> nv_app \<Rightarrow> bool" where
  "isAppCurrentlyVisible m app \<longleftrightarrow> list_ex (\<lambda>v. app_id app = app_id v) (m_VisibleApps m)"

definition getVisibleApps :: "app_model \<Rightarrow> nv_app list \<Rightarrow> nv_app list" where
  "getVisibleApps m l =
     filter (\<lambda>a. m_ShowHiddenGames m \<or> \<not> hidden a \<or> isAppCurrentlyVisible m a) l"

definition model_updateAppList :: "nv_app list \<Rightarrow> app_model \<Rightarrow> app_model \<times> model_signal list" where
  "model_updateAppList newList m =
     (let m = m\<lparr>m_AllApps := newList\<rparr>; newVisibleList = getVisibleApps m newList
      in if m_VisibleApps m \<noteq> newVisibleList
         then (m\<lparr>m_VisibleApps := newVisibleList\<rparr>, [Model_reset]) else (m, []))"

definition new_app_model :: "nv_computer \<Rightarrow> bool \<Rightarrow> app_model" where
  "new_app_model c showHidden =
     fst (model_updateAppList (appList c)
       \<lparr>m_AllApps = [], m_VisibleApps = [], m_CurrentGameId = currentGameId c, m_ShowHiddenGames = showHidden\<rparr>)"

fun first_row :: "int \<Rightarrow> nat \<Rightarrow> nv_app list \<Rightarrow> model_signal list" where
  "first_row appId i [] = []"
| "first_row appId i (a # l) = (if app_id a = appId then [Running_changed i] else first_row appId (Suc i) l)"

text \<open>The part \<open>handleComputerStateChanged\<close> and \<open>forceSyncCurrentGame\<close> share.\<close>

definition sync_game :: "int \<Rightarrow> app_model \<Rightarrow> app_model \<times> model_signal list" where
  "sync_game running m =
     (if running \<noteq> m_CurrentGameId m
      then (m\<lparr>m_CurrentGameId := running\<rparr>,
            first_row running 0 (m_VisibleApps m)
            @ (if m_CurrentGameId m \<noteq> 0 then first_row (m_CurrentGameId m) 0 (m_VisibleApps m) else []))
      else (m, []))"

definition model_host_changed :: "nv_computer \<Rightarrow> app_model \<Rightarrow> app_model \<times> model_signal list" where
  "model_host_changed c m =
     (if comp_state c = CS_OFFLINE \<or> pair_status c = PS_NOT_PAIRED then (m, [Computer_lost])
      else
        let (m, resets) = (if appList c \<noteq> m_AllApps m then model_updateAppList (appList c) m else (m, []));
            (m, rows) = sync_game (currentGameId c) m
        in (m, resets @ rows))"

definition forceSyncCurrentGame :: "nv_computer option \<Rightarrow> app_model \<Rightarrow> app_model \<times> model_signal list" where
  "forceSyncCurrentGame c m = (case c of None \<Rightarrow> (m, []) | Some c \<Rightarrow> sync_game (currentGameId c) m)"

fun direct_index :: "nat \<Rightarrow> nv_app list \<Rightarrow> int" where
  "direct_index i [] = -1"
| "direct_index i (a # l) = (if direct_launch a then int i else direct_index (Suc i) l)"

definition getDirectLaunchAppIndex :: "app_model \<Rightarrow> int" where
  "getDirectLaunchAppIndex m = direct_index 0 (m_VisibleApps m)"

definition getRunningAppName :: "app_model \<Rightarrow> string option" where
  "getRunningAppName m =
     (if m_CurrentGameId m \<noteq> 0
      then map_option app_name (find (\<lambda>a. app_id a = m_CurrentGameId m) (m_AllApps m)) else None)"

text \<open>\<open>RunningRole\<close> of a row, read from the host itself.\<close>

definition running_row :: "nv_computer \<Rightarrow> app_model \<Rightarrow> nat \<Rightarrow> bool" where
  "running_row c m i \<longleftrightarrow> currentGameId c = app_id (m_VisibleApps m ! i)"

text \<open>\<open>setActiveAddress\<close>, of this model and of the list of hosts alike.\<close>

definition setActiveAddress :: "string \<Rightarrow> int \<Rightarrow> nv_computer \<Rightarrow> nv_computer \<times> bool" where
  "setActiveAddress address port c =
     (if address = [] \<or> port \<le> 0 then (c, False)
      else
        let selectedAddress = \<lparr>m_Address = address, m_Port = of_int port\<rparr> in
        if list_ex (\<lambda>a. a = selectedAddress) (uniqueAddresses c) then (pinAddress selectedAddress c, True)
        else (c, False))"

section \<open>Visible apps\<close>

lemma first_row_hit:
  assumes "distinct (map app_id l)" and "j < length l" and "app_id (l ! j) = k"
  shows "first_row k i l = [Running_changed (i + j)]"
  using assms
proof (induction l arbitrary: i j)
  case (Cons a l)
  show ?case
  proof (cases j)
    case (Suc n)
    then have "app_id a \<noteq> k" using Cons.prems by auto
    then show ?thesis using Cons.IH [of n "Suc i"] Cons.prems Suc by simp
  qed (use Cons.prems in simp)
qed simp

lemma visible_fixed:
  assumes "distinct (map app_id l)" and "m_VisibleApps m = getVisibleApps n l"
    and "m_ShowHiddenGames m = m_ShowHiddenGames n"
  shows "getVisibleApps m l = m_VisibleApps m"
proof -
  have same: "a = b" if "a \<in> set l" "b \<in> set l" "app_id a = app_id b" for a b
    using assms(1) that by (auto simp: distinct_map dest: inj_onD)
  show ?thesis
    unfolding assms(2) unfolding getVisibleApps_def
    using assms(3) by (intro filter_cong refl)
      (auto simp: isAppCurrentlyVisible_def assms(2) getVisibleApps_def list_ex_iff dest: same)
qed

lemma update_list_members:
  assumes "model_updateAppList l m = (m', sigs)"
  shows "m_AllApps m' = l" "m_VisibleApps m' = getVisibleApps m l" "m_ShowHiddenGames m' = m_ShowHiddenGames m"
    "m_CurrentGameId m' = m_CurrentGameId m" "Model_reset \<notin> set sigs \<longleftrightarrow> m_VisibleApps m' = m_VisibleApps m"
proof -
  have g: "getVisibleApps (m\<lparr>m_AllApps := l\<rparr>) l = getVisibleApps m l"
    by (simp add: getVisibleApps_def isAppCurrentlyVisible_def)
  show "m_AllApps m' = l" "m_VisibleApps m' = getVisibleApps m l" "m_ShowHiddenGames m' = m_ShowHiddenGames m"
    "m_CurrentGameId m' = m_CurrentGameId m" "Model_reset \<notin> set sigs \<longleftrightarrow> m_VisibleApps m' = m_VisibleApps m"
    using assms by (auto simp: model_updateAppList_def Let_def g split: if_splits)
qed

lemma distinct_visible: "distinct (map app_id l) \<Longrightarrow> distinct (map app_id (getVisibleApps m l))"
  by (simp add: getVisibleApps_def distinct_map_filter)

lemma no_reset_rows: "Model_reset \<notin> set (first_row k i l)"
  by (induction k i l rule: first_row.induct) auto

lemma sync_game_members:
  assumes "sync_game k m = (m', sigs)"
  shows "m' = m\<lparr>m_CurrentGameId := k\<rparr>" and "Model_reset \<notin> set sigs"
proof -
  have "m\<lparr>m_CurrentGameId := m_CurrentGameId m\<rparr> = m" by (cases m) simp
  then show "m' = m\<lparr>m_CurrentGameId := k\<rparr>" using assms by (auto simp: sync_game_def split: if_splits)
  show "Model_reset \<notin> set sigs" using assms no_reset_rows by (auto simp: sync_game_def split: if_splits)
qed

lemma sync_game_rows:
  assumes "sync_game k m = (m', sigs)" and "distinct (map app_id (m_VisibleApps m))"
    and "0 \<notin> set (map app_id (m_VisibleApps m))" and "i < length (m_VisibleApps m)"
    and "(app_id (m_VisibleApps m ! i) = k) \<noteq> (app_id (m_VisibleApps m ! i) = m_CurrentGameId m)"
  shows "Running_changed i \<in> set sigs"
proof -
  have ne: "k \<noteq> m_CurrentGameId m" using assms(5) by auto
  have nz: "app_id (m_VisibleApps m ! i) \<noteq> 0" using assms(3, 4) by (metis length_map nth_map nth_mem)
  from assms(5) consider "app_id (m_VisibleApps m ! i) = k" | "app_id (m_VisibleApps m ! i) = m_CurrentGameId m" by blast
  then show ?thesis
  proof cases
    case 1
    then show ?thesis using assms(1) ne first_row_hit [OF assms(2, 4) 1, of 0] by (auto simp: sync_game_def)
  next
    case 2
    then show ?thesis using assms(1) ne nz first_row_hit [OF assms(2, 4) 2, of 0] by (auto simp: sync_game_def)
  qed
qed

text \<open>
  After the host changed, the model shows its apps and running game, and the view has been told
  of everything that looks different: unless the whole list was reset, each row whose running mark
  changed has been signalled.
\<close>
theorem running_rows_signalled:
  assumes "model_host_changed c m = (m', sigs)" and "comp_state c \<noteq> CS_OFFLINE" and "pair_status c \<noteq> PS_NOT_PAIRED"
    and "distinct (map app_id (appList c))" and "m_VisibleApps m = getVisibleApps m (m_AllApps m)"
    and "0 \<notin> set (map app_id (appList c))"
  shows "m_AllApps m' = appList c \<and> m_CurrentGameId m' = currentGameId c
    \<and> m_VisibleApps m' = getVisibleApps m' (m_AllApps m')
    \<and> (Model_reset \<notin> set sigs \<longrightarrow> m_VisibleApps m' = m_VisibleApps m
        \<and> (\<forall>i<length (m_VisibleApps m').
             (app_id (m_VisibleApps m' ! i) = currentGameId c) \<noteq> (app_id (m_VisibleApps m' ! i) = m_CurrentGameId m)
             \<longrightarrow> Running_changed i \<in> set sigs))"
proof -
  obtain m1 resets where one: "(if appList c \<noteq> m_AllApps m then model_updateAppList (appList c) m else (m, [])) = (m1, resets)"
    by force
  obtain m2 rows where two: "sync_game (currentGameId c) m1 = (m2, rows)" by force
  have r: "m' = m2" "sigs = resets @ rows"
    using assms(1-3) one two by (simp_all add: model_host_changed_def)
  have m2: "m2 = m1\<lparr>m_CurrentGameId := currentGameId c\<rparr>" using sync_game_members(1) [OF two] .
  have m1: "m_AllApps m1 = appList c" "m_VisibleApps m1 = getVisibleApps m (appList c)"
    "m_ShowHiddenGames m1 = m_ShowHiddenGames m" "m_CurrentGameId m1 = m_CurrentGameId m"
    "Model_reset \<notin> set resets \<longleftrightarrow> m_VisibleApps m1 = m_VisibleApps m"
    using one update_list_members [of "appList c" m m1 resets] assms(5) by (auto split: if_splits)
  have "getVisibleApps m1 (appList c) = m_VisibleApps m1" using visible_fixed [OF assms(4) m1(2, 3)] .
  then have v: "getVisibleApps m2 (appList c) = m_VisibleApps m2"
    by (simp add: m2 getVisibleApps_def isAppCurrentlyVisible_def)
  have "distinct (map app_id (m_VisibleApps m1))" "0 \<notin> set (map app_id (m_VisibleApps m1))"
    using distinct_visible [OF assms(4)] assms(6) by (auto simp: m1(2) getVisibleApps_def)
  from sync_game_rows [OF two this] have rows: "Running_changed i \<in> set rows"
    if "i < length (m_VisibleApps m1)" "(app_id (m_VisibleApps m1 ! i) = currentGameId c)
      \<noteq> (app_id (m_VisibleApps m1 ! i) = m_CurrentGameId m)" for i
    using that m1(4) by simp
  have "Model_reset \<notin> set sigs \<longleftrightarrow> m_VisibleApps m1 = m_VisibleApps m"
    using r(2) m1(5) sync_game_members(2) [OF two] by simp
  then show ?thesis using r m1 m2 v rows by auto
qed

section \<open>Invariants of every host\<close>

text \<open>
  The contract of a property of single hosts: every operation on a host keeps it. Then every run of
  the manager keeps it for all hosts.
\<close>

definition all_hosts :: "(nv_computer \<Rightarrow> bool) \<Rightarrow> 'v host_manager \<Rightarrow> bool" where
  "all_hosts P m \<longleftrightarrow> (\<forall>(k, c)\<in>set (m_KnownHosts m). P c)"

definition brings ::
  "(nv_app list \<Rightarrow> bool) \<Rightarrow> (nv_computer \<Rightarrow> bool) \<Rightarrow> manager_event \<Rightarrow> bool" where
  "brings fetched added e \<longleftrightarrow>
     (case e of Apps_fetched u l \<Rightarrow> fetched l | Added mdns new stun \<Rightarrow> added new | _ \<Rightarrow> True)"

locale host_contract =
  fixes P :: "nv_computer \<Rightarrow> bool" and fetched :: "nv_app list \<Rightarrow> bool" and added :: "nv_computer \<Rightarrow> bool"
  assumes renamed: "P c \<Longrightarrow> P (renameHost name c)"
    and app_hidden: "P c \<Longrightarrow> P (setAppHidden i h c)"
    and app_direct: "P c \<Longrightarrow> P (setAppDirectLaunch i d c)"
    and polled: "P c \<Longrightarrow> tryPollComputer p a xml modes c = Some (c', ch) \<Longrightarrow> P c'"
    and offline: "P c \<Longrightarrow> P (c\<lparr>comp_state := CS_OFFLINE\<rparr>)"
    and apps: "P c \<Longrightarrow> fetched l \<Longrightarrow> P (fst (updateAppList l c))"
    and certified: "P c \<Longrightarrow> P (c\<lparr>serverCert := x\<rparr>)"
    and pending_quit: "P c \<Longrightarrow> P (c\<lparr>pendingQuit := b\<rparr>)"
    and new_host: "added c \<Longrightarrow> P c"
    and new_remote: "added c \<Longrightarrow> added (c\<lparr>remoteAddress := r\<rparr>)"
    and merged: "P c \<Longrightarrow> added new \<Longrightarrow> P (fst (update c new))"
begin

lemma all_set: "all_hosts P m \<Longrightarrow> P c \<Longrightarrow> all_hosts P (set_host u c m)"
  by (auto simp: all_hosts_def put_def)

lemma all_same: "m_KnownHosts m' = m_KnownHosts m \<Longrightarrow> all_hosts P m' = all_hosts P m"
  by (simp add: all_hosts_def)

lemma all_simps [simp]:
  "all_hosts P (signal_change b u m) = all_hosts P m" "all_hosts P (saveHost u c m) = all_hosts P m"
  "all_hosts P (emit l m) = all_hosts P m" "all_hosts P (m\<lparr>signal_queue := sq\<rparr>) = all_hosts P m"
  "all_hosts P (m\<lparr>dangling := b\<rparr>) = all_hosts P m" "all_hosts P (m\<lparr>quits_in_flight := qs\<rparr>) = all_hosts P m"
  "all_hosts P (flush_started m) = all_hosts P m" "all_hosts P (flush_backup q m) = all_hosts P m"
  "all_hosts P (flush_primary q m) = all_hosts P m" "all_hosts P (quit_started u c m) = all_hosts P m"
  by (simp_all add: all_hosts_def flush_started_def flush_backup_def flush_primary_def quit_started_def)

lemma all_handle: "all_hosts P m \<Longrightarrow> P c \<Longrightarrow> all_hosts P (handleComputerStateChanged u c m)"
  by (simp add: handleComputerStateChanged_def Let_def all_set pending_quit)

lemma all_now: "all_hosts P m \<Longrightarrow> P c \<Longrightarrow> all_hosts P (change_now u c m)"
  by (simp add: change_now_def all_handle all_set)

lemma all_lookup: "all_hosts P m \<Longrightarrow> map_of (m_KnownHosts m) u = Some c \<Longrightarrow> P c"
  by (auto simp: all_hosts_def dest!: map_of_SomeD)

lemma all_with:
  "all_hosts P m \<Longrightarrow> (\<And>c. P c \<Longrightarrow> all_hosts P (g c m)) \<Longrightarrow> all_hosts P (with_host u g m)"
  by (auto simp: with_host_def dest: all_lookup split: option.split)

lemma all_add: "all_hosts P m \<Longrightarrow> added new \<Longrightarrow> all_hosts P (add_host mdns new stun m)"
proof (cases "map_of (m_KnownHosts m) (comp_uuid new)")
  case (Some c)
  assume "all_hosts P m" "added new"
  then have "P (fst (update c new))" "all_hosts P m" using merged all_lookup [OF _ Some] by auto
  then show ?thesis using Some
    by (auto simp: add_host_def Let_def all_set split: prod.split)
next
  case None
  assume m: "all_hosts P m" and n: "added new"
  define c where "c = (case stun of None \<Rightarrow> new
    | Some a \<Rightarrow> new\<lparr>remoteAddress := \<lparr>m_Address = a, m_Port = externalPort new\<rparr>\<rparr>)"
  have "P c" using n new_host new_remote by (simp add: c_def split: option.split)
  moreover have "set (insert_host u c l) \<subseteq> insert (u, c) (set l)" for u l
    by (induction u c l rule: insert_host.induct) auto
  ultimately have "all_hosts P (m\<lparr>m_KnownHosts := insert_host (comp_uuid new) c (m_KnownHosts m)\<rparr>)"
    using m by (fastforce simp: all_hosts_def)
  then show ?thesis using None by (simp add: add_host_def Let_def c_def [symmetric])
qed

lemma all_deliver: "all_hosts P m \<Longrightarrow> all_hosts P (deliver m)"
  by (auto simp: deliver_def dest: all_lookup intro!: all_handle split: list.split option.split)

lemma step_keeps:
  assumes "all_hosts P m" and "brings fetched added e"
  shows "all_hosts P (manager_step p q m e)"
proof (cases e)
  case (Polled u a xml modes)
  then show ?thesis using assms
    by (auto intro!: all_with all_set intro: polled split: option.split)
next
  case (Poll_failed u)
  then show ?thesis using assms by (auto intro!: all_with all_set intro: offline simp: mark_offline_def)
next
  case (Apps_fetched u l)
  then show ?thesis using assms apps
    by (auto intro!: all_with all_set simp: brings_def dest: apps split: prod.split) (metis apps fst_conv)
next
  case (Added mdns new stun)
  then show ?thesis using assms by (simp add: all_add brings_def)
next
  case (Deleted u)
  then show ?thesis using assms by (auto simp: deleteHost_def saveHosts_def all_hosts_def)
next
  case (Quit_finished u f)
  then show ?thesis using assms
    by (auto intro!: all_with all_set simp: quit_finished_def Let_def pending_quit split: option.split)
qed (use assms in \<open>auto intro!: all_with all_now all_set all_deliver
      simp: renamed app_hidden app_direct certified pending_quit quit_requested_def Let_def\<close>)

lemma run_keeps:
  "all_hosts P m \<Longrightarrow> list_all (brings fetched added) es \<Longrightarrow> all_hosts P (run_events (manager_step p q) m es)"
  by (induction es arbitrary: m) (simp_all add: step_keeps)

end

section \<open>Direct launch\<close>

text \<open>The identifiers and direct launch marks decide; at most one app has the mark.\<close>

definition launch_marks :: "nv_app list \<Rightarrow> (int \<times> bool) list" where
  "launch_marks l = map (\<lambda>a. (app_id a, direct_launch a)) l"

definition one_direct :: "(int \<times> bool) list \<Rightarrow> bool" where
  "one_direct l \<longleftrightarrow> distinct (map fst l) \<and> (\<forall>i j. (i, True) \<in> set l \<and> (j, True) \<in> set l \<longrightarrow> i = j)"

definition launch_ok :: "nv_computer \<Rightarrow> bool" where
  "launch_ok c \<longleftrightarrow> one_direct (launch_marks (appList c))"

definition server_list :: "nv_app list \<Rightarrow> bool" where
  "server_list l \<longleftrightarrow> distinct (map app_id l) \<and> list_all (\<lambda>a. \<not> direct_launch a) l"

lemma hide_first_marks [simp]: "launch_marks (hide_first i h l) = launch_marks l"
  by (induction i h l rule: hide_first.induct) (auto simp: launch_marks_def)

lemma undirect_first_marks:
  "map fst (launch_marks (undirect_first i l)) = map fst (launch_marks l)"
  "(j, True) \<in> set (launch_marks (undirect_first i l)) \<Longrightarrow> (j, True) \<in> set (launch_marks l)"
  by (induction i l rule: undirect_first.induct) (auto simp: launch_marks_def split: if_splits)

lemma set_direct_marks: "launch_marks (map (\<lambda>a. a\<lparr>direct_launch := (app_id a = i)\<rparr>) l) = map (\<lambda>(j, b). (j, j = i)) (launch_marks l)"
  by (simp add: launch_marks_def)

lemma inherit_direct: "direct_launch (inherit olds a) \<Longrightarrow> \<not> direct_launch a \<Longrightarrow> (app_id a, True) \<in> set (launch_marks olds)"
proof -
  assume "direct_launch (inherit olds a)" "\<not> direct_launch a"
  then obtain b where "find (\<lambda>b. app_id b = app_id a) (rev olds) = Some b" "direct_launch b"
    by (auto simp: inherit_def split: option.splits)
  then have "b \<in> set olds" "app_id b = app_id a" "direct_launch b" by (auto dest: find_SomeD)
  then show ?thesis by (auto simp: launch_marks_def image_iff intro!: bexI [of _ b])
qed

lemma fetched_one_direct:
  assumes "one_direct (launch_marks olds)" and "server_list new"
  shows "one_direct (launch_marks (map (inherit olds) new))"
proof -
  have "map fst (launch_marks (map (inherit olds) new)) = map app_id new"
    by (simp add: launch_marks_def inherit_facts)
  moreover have "(i, True) \<in> set (launch_marks olds)" if "(i, True) \<in> set (launch_marks (map (inherit olds) new))" for i
    using that assms(2) inherit_direct [of olds] by (auto simp: launch_marks_def inherit_facts server_list_def list_all_iff)
  ultimately show ?thesis using assms unfolding one_direct_def server_list_def by metis
qed

interpretation launch: host_contract launch_ok server_list "\<lambda>c. appList c = []"
proof
  show "launch_ok (fst (updateAppList l c))" if "launch_ok c" "server_list l" for c l
    using that fetched_one_direct [of "appList c" l] by (auto simp: launch_ok_def updateAppList_list)
  show "launch_ok (fst (update c d))" if "launch_ok c" "appList d = []" for c d
    using that by (simp add: launch_ok_def update_eq merged_apps_def)
  show "launch_ok c'" if "launch_ok c" "tryPollComputer p a xml modes c = Some (c', ch)" for p a xml modes c c' ch
  proof -
    have "c' = fst (update (markAddressTestSucceeded a c) (report p a (serverCert c) xml modes))"
      using that(2) by (auto simp: tryPollComputer_def Let_def split: if_splits)
    then show ?thesis using that(1) by (simp add: launch_ok_def update_eq merged_apps_def)
  qed
  show "launch_ok (setAppDirectLaunch i d c)" if "launch_ok c" for i d c
    using that undirect_first_marks(1) [of i "appList c"] undirect_first_marks(2) [of _ i "appList c"]
    by (cases d) (auto simp: launch_ok_def setAppDirectLaunch_def set_direct_marks one_direct_def comp_def case_prod_beta)
  show "launch_ok c" if "appList c = []" for c
    using that by (simp add: launch_ok_def one_direct_def launch_marks_def)
qed (simp_all add: launch_ok_def renameHost_def setAppHidden_def)

text \<open>
  However apps are marked, hidden, fetched again and merged, at most one app of a host is
  launched directly, provided the host lists each identifier once.
\<close>
theorem one_direct_launch:
  assumes "all_hosts launch_ok (new_manager q s)" and "list_all (brings server_list (\<lambda>c. appList c = [])) es"
    and "(u, c) \<in> set (m_KnownHosts (run_events (manager_step p q) (new_manager q s) es))"
    and "a \<in> set (appList c)" and "b \<in> set (appList c)" and "direct_launch a" and "direct_launch b"
  shows "a = b"
proof -
  have "all_hosts launch_ok (run_events (manager_step p q) (new_manager q s) es)"
    by (rule launch.run_keeps [OF assms(1, 2)])
  then have ok: "launch_ok c" using assms(3) unfolding all_hosts_def by blast
  then have d: "distinct (map app_id (appList c))" by (simp add: launch_ok_def one_direct_def launch_marks_def comp_def)
  have "(app_id x, True) \<in> set (launch_marks (appList c))" if "x \<in> set (appList c)" "direct_launch x" for x
    using that by (force simp: launch_marks_def)
  then have "app_id a = app_id b" using ok assms(4-7) unfolding launch_ok_def one_direct_def by blast
  then show ?thesis using d assms(4, 5) by (auto simp: distinct_map dest: inj_onD)
qed

section \<open>Pinned addresses\<close>

text \<open>
  Only an address the host is known by can be pinned; pinning makes it the first address to be
  polled, and nothing else of the host changes. An address is not lost by pinning another.
\<close>
theorem pinning_known_addresses:
  assumes "setActiveAddress address port c = (c', ok)"
  shows "(ok \<longrightarrow> pinnedAddress c' \<in> set (uniqueAddresses c) \<and> activeAddress c' = pinnedAddress c'
            \<and> hd (uniqueAddresses c') = pinnedAddress c'
            \<and> c'\<lparr>pinnedAddress := pinnedAddress c, activeAddress := activeAddress c\<rparr> = c)
    \<and> (\<not> ok \<longrightarrow> c' = c)
    \<and> (ok \<longleftrightarrow> address \<noteq> [] \<and> 0 < port \<and> \<lparr>m_Address = address, m_Port = of_int port\<rparr> \<in> set (uniqueAddresses c))"
proof -
  let ?a = "\<lparr>m_Address = address, m_Port = of_int port\<rparr> :: nv_address"
  have "(list_ex (\<lambda>a. a = ?a) (uniqueAddresses c)) \<longleftrightarrow> ?a \<in> set (uniqueAddresses c)" by (auto simp: list_ex_iff)
  moreover have "hd (uniqueAddresses (pinAddress ?a c)) = ?a" if "address \<noteq> []"
    using that by (simp add: uniqueAddresses_def prune_eq pinAddress_def null_address_def)
  moreover have "(pinAddress ?a c)\<lparr>pinnedAddress := pinnedAddress c, activeAddress := activeAddress c\<rparr> = c"
    by (cases c) (simp add: pinAddress_def)
  ultimately show ?thesis using assms
    by (auto simp: setActiveAddress_def Let_def pinAddress_def split: if_splits)
qed

section \<open>Concrete cases\<close>

lemma known_now: "\<not> pendingQuit c \<Longrightarrow> m_KnownHosts (change_now u c m) = put u c (m_KnownHosts m)"
  by (simp add: change_now_def handleComputerStateChanged_def Let_def)

lemma game_members [simp]: "app_id game = 7" "hidden game = False" "direct_launch game = False"
  by (simp_all add: game_def)

lemma paired_desk: "pair_status desk = PS_PAIRED"
  by (simp add: desk_def)

lemma stored_launch_ok: "all_hosts launch_ok (new_manager plain_codec stored)"
  by (simp add: all_hosts_def new_manager_def load_stored loaded_desk launch_ok_def one_direct_def launch_marks_def
      restored_def)

theorem one_direct_launch_witness:
  "filter direct_launch (appList (setAppDirectLaunch 8 True (stored_desk [game, game2]))) \<noteq> []
   \<and> hd (filter direct_launch (appList (setAppDirectLaunch 8 True (stored_desk [game, game2]))))
     = last (filter direct_launch (appList (setAppDirectLaunch 8 True (stored_desk [game, game2]))))"
proof -
  let ?es = "[Apps_fetched ''u1'' [game, game2], App_direct ''u1'' 8 True]"
  let ?c = "setAppDirectLaunch 8 True (stored_desk [game, game2])"
  have ok: "list_all (brings server_list (\<lambda>c. appList c = [])) ?es"
    by (simp add: brings_def server_list_def game2_def game_def)
  have "(''u1'', ?c) \<in> set (m_KnownHosts (run_events (manager_step plain_parser plain_codec) (new_manager plain_codec stored) ?es))"
    by (simp add: new_manager_def load_stored loaded_desk with_host_def fetched_apps known_now put_def)
  note one = one_direct_launch [OF stored_launch_ok ok this]
  let ?l = "filter direct_launch (appList ?c)"
  have "?l \<noteq> []"
    by (simp add: setAppDirectLaunch_def stored_desk_def game2_def game_def)
  then have h: "hd ?l \<in> set ?l" "last ?l \<in> set ?l" by (rule hd_in_set, rule last_in_set)
  have mem: "x \<in> set (appList ?c) \<and> direct_launch x" if "x \<in> set ?l" for x
    using that unfolding set_filter by blast
  have "hd ?l = last ?l" using mem [OF h(1)] mem [OF h(2)] one by blast
  with \<open>?l \<noteq> []\<close> show ?thesis by blast
qed

theorem running_rows_signalled_witness:
  "Running_changed 0 \<in> set (snd (model_host_changed (desk\<lparr>currentGameId := 7\<rparr>) (new_app_model desk False)))"
proof -
  let ?c = "desk\<lparr>currentGameId := 7\<rparr>" and ?m = "new_app_model desk False"
  have m: "m_VisibleApps ?m = [game]" "m_AllApps ?m = [game]" "m_CurrentGameId ?m = 0" "m_ShowHiddenGames ?m = False"
    by (simp_all add: new_app_model_def model_updateAppList_def getVisibleApps_def Let_def)
  obtain m' sigs where r: "model_host_changed ?c ?m = (m', sigs)" by force
  have s: "Model_reset \<notin> set sigs"
    using r m by (auto simp: model_host_changed_def sync_game_def desk_addresses paired_desk split: if_splits)
  have v: "m_VisibleApps ?m = getVisibleApps ?m (m_AllApps ?m)"
    by (simp add: m getVisibleApps_def)
  have "m_VisibleApps m' = [game] \<and> (\<forall>i<length (m_VisibleApps m').
      (app_id (m_VisibleApps m' ! i) = 7) \<noteq> (app_id (m_VisibleApps m' ! i) = 0) \<longrightarrow> Running_changed i \<in> set sigs)"
    using running_rows_signalled [OF r _ _ _ v] s m by (auto simp: desk_addresses paired_desk)
  then show ?thesis using r by simp
qed

theorem pinning_known_addresses_witness:
  "snd (setActiveAddress ''10.0.0.2'' 47989 desk) \<and> activeAddress (fst (setActiveAddress ''10.0.0.2'' 47989 desk)) = activeAddress desk"
proof -
  obtain c' ok where r: "setActiveAddress ''10.0.0.2'' 47989 desk = (c', ok)" by force
  have u: "uniqueAddresses desk = [activeAddress desk]"
    by (simp add: uniqueAddresses_def prune_eq desk_addresses null_address_def no_address_def)
  show ?thesis using pinning_known_addresses [OF r] r by (auto simp: u desk_addresses)
qed

end
