(* ===== verification/Av1Repack.thy ===== *)
theory Av1Repack
  imports Prelude
begin

text \<open>
  The AV1 temporal-unit rewriter (app/streaming/video/av1obu.cpp): \<open>parseObus\<close> cuts a
  temporal unit into OBUs, \<open>repackAv1TemporalUnit\<close> merges a frame header OBU and its tile
  group OBU in place. The buffer is a byte list of the unit's length. Every read and write goes
  through \<open>rd\<close>, \<open>wr\<close> and \<open>mem_move\<close>, which give \<open>None\<close> when an index is outside
  the buffer, so that memory safety is a theorem and not an assumption.
\<close>

unbundle bit_operations_syntax

section \<open>Buffer access\<close>

definition rd :: "bytes \<Rightarrow> nat \<Rightarrow> byte option" where
  "rd buf i = (if i < length buf then Some (buf ! i) else None)"

definition wr :: "bytes \<Rightarrow> nat \<Rightarrow> byte \<Rightarrow> bytes option" where
  "wr buf i b = (if i < length buf then Some (buf[i := b]) else None)"

text \<open>\<open>memmove(buf + dst, src_bytes, n)\<close>, the source read before anything is written.\<close>

definition mem_write :: "bytes \<Rightarrow> nat \<Rightarrow> bytes \<Rightarrow> bytes option" where
  "mem_write buf dst xs =
     (if dst + length xs \<le> length buf
      then Some (take dst buf @ xs @ drop (dst + length xs) buf) else None)"

definition mem_read :: "bytes \<Rightarrow> nat \<Rightarrow> nat \<Rightarrow> bytes option" where
  "mem_read buf src n = (if src + n \<le> length buf then Some (take n (drop src buf)) else None)"

definition mem_move :: "bytes \<Rightarrow> nat \<Rightarrow> nat \<Rightarrow> nat \<Rightarrow> bytes option" where
  "mem_move buf dst src n = Option.bind (mem_read buf src n) (mem_write buf dst)"

section \<open>Parsing\<close>

definition OBU_FRAME_HEADER :: byte where "OBU_FRAME_HEADER = 3"
definition OBU_TILE_GROUP :: byte where "OBU_TILE_GROUP = 4"
definition OBU_METADATA :: byte where "OBU_METADATA = 5"
definition OBU_FRAME :: byte where "OBU_FRAME = 6"
definition MAX_OBUS :: nat where "MAX_OBUS = 16"
definition MAX_HOISTED_METADATA :: nat where "MAX_HOISTED_METADATA = 512"

record obu =
  obu_type :: byte
  headerOffset :: nat
  headerLength :: nat
  sizeBytes :: nat
  payloadOffset :: nat
  payloadLength :: nat

function leb128Size :: "nat \<Rightarrow> nat" where
  "leb128Size v = (if drop_bit 7 v = 0 then 1 else Suc (leb128Size (drop_bit 7 v)))"
  by pat_completeness auto
termination
  by (relation "measure id") (auto simp: drop_bit_eq_div)

declare leb128Size.simps [simp del]

text \<open>
  The leb128 loop of \<open>parseObus\<close>: outer \<open>None\<close> is a read outside the buffer, inner
  \<open>None\<close> the code's \<open>return -1\<close>.
\<close>

function read_leb128 :: "bytes \<Rightarrow> nat \<Rightarrow> nat \<Rightarrow> nat \<Rightarrow> (nat \<times> nat) option option" where
  "read_leb128 data base sz k =
     (if k = 8 \<or> length data \<le> base + k then Some None
      else case rd data (base + k) of
        None \<Rightarrow> None
      | Some b \<Rightarrow>
          (let sz' = sz OR push_bit (7 * k) (unat (b AND 0x7F)) in
           if b AND 0x80 = 0 then Some (Some (sz', Suc k))
           else read_leb128 data base sz' (Suc k)))"
  by pat_completeness auto
termination
  by (relation "measure (\<lambda>(data, base, sz, k). length data - (base + k))") auto

declare read_leb128.simps [simp del]

lemma read_leb128_grows:
  "read_leb128 data base sz k = Some (Some (v, m)) \<Longrightarrow> k < m \<and> base + m \<le> length data"
proof (induction data base sz k rule: read_leb128.induct)
  case (1 data base sz k)
  then show ?case
    by (fastforce simp: read_leb128.simps [of data base sz k] Let_def
        split: if_splits option.splits)
qed

function parse_from :: "bytes \<Rightarrow> nat \<Rightarrow> nat \<Rightarrow> obu list option option" where
  "parse_from data count pos =
     (if length data \<le> pos then Some (Some [])
      else if count = MAX_OBUS then Some None
      else case rd data pos of
        None \<Rightarrow> None
      | Some header \<Rightarrow>
          if header AND 0x80 \<noteq> 0 then Some None
          else
            let hl = (if header AND 0x04 \<noteq> 0 then 2 else 1) in
            if header AND 0x02 = 0 then Some None
            else if length data \<le> pos + hl then Some None
            else case read_leb128 data (pos + hl) 0 0 of
              None \<Rightarrow> None
            | Some None \<Rightarrow> Some None
            | Some (Some (sz, k)) \<Rightarrow>
                if length data - (pos + (hl + k)) < sz then Some None
                else
                  (case parse_from data (Suc count) (pos + (hl + k) + sz) of
                     None \<Rightarrow> None
                   | Some None \<Rightarrow> Some None
                   | Some (Some obus) \<Rightarrow>
                       Some (Some (\<lparr>obu_type = drop_bit 3 header AND 0x0F, headerOffset = pos,
                          headerLength = hl + k, sizeBytes = k, payloadOffset = pos + (hl + k),
                          payloadLength = sz\<rparr> # obus))))"
  by pat_completeness auto
termination
  by (relation "measure (\<lambda>(data, count, pos). length data - pos)") (auto split: if_splits)

declare parse_from.simps [simp del]

definition parseObus :: "bytes \<Rightarrow> obu list option option" where
  "parseObus data = parse_from data 0 0"


section \<open>Deciding whether to rewrite\<close>

text \<open>
  The scan for the split frame: \<open>None\<close> is the early \<open>return length\<close>, otherwise the
  indices found (the code's -1 is \<open>None\<close>).
\<close>

fun scan_split :: "nat \<Rightarrow> obu list \<Rightarrow> nat option \<Rightarrow> nat option \<Rightarrow> (nat option \<times> nat option) option" where
  "scan_split i [] fh tg = Some (fh, tg)"
| "scan_split i (ob # obus) fh tg =
     (if obu_type ob = OBU_FRAME then None
      else if obu_type ob = OBU_FRAME_HEADER then
        (if fh \<noteq> None then None else scan_split (Suc i) obus (Some i) tg)
      else if obu_type ob = OBU_TILE_GROUP then
        (if tg \<noteq> None then None else scan_split (Suc i) obus fh (Some i))
      else scan_split (Suc i) obus fh tg)"

fun metadata_length :: "obu list \<Rightarrow> nat option" where
  "metadata_length [] = Some 0"
| "metadata_length (ob # obus) =
     (if obu_type ob \<noteq> OBU_METADATA then None
      else map_option (\<lambda>n. headerLength ob + payloadLength ob + n) (metadata_length obus))"

text \<open>The loop that drops zero bytes at the end of the frame header payload.\<close>

fun trim_zeros :: "bytes \<Rightarrow> nat \<Rightarrow> nat \<Rightarrow> nat option" where
  "trim_zeros data off 0 = Some 0"
| "trim_zeros data off (Suc n) =
     (case rd data (off + n) of
        None \<Rightarrow> None
      | Some b \<Rightarrow> if b = 0 then trim_zeros data off n else Some (Suc n))"

record plan =
  pl_fh :: obu
  pl_tg :: obu
  pl_metaOffset :: nat
  pl_metaLength :: nat
  pl_fhLength :: nat
  pl_lastByte :: byte
  pl_dropLast :: bool

text \<open>The headers of the two OBUs must carry the same extension.\<close>

definition headers_agree :: "bytes \<Rightarrow> obu \<Rightarrow> obu \<Rightarrow> bool option" where
  "headers_agree data fh tg =
     (case (rd data (headerOffset fh), rd data (headerOffset tg)) of
        (Some f, Some t) \<Rightarrow>
          if f AND 0x04 \<noteq> t AND 0x04 then Some False
          else if f AND 0x04 \<noteq> 0 then
            (case (rd data (headerOffset fh + 1), rd data (headerOffset tg + 1)) of
               (Some x, Some y) \<Rightarrow> Some (x = y)
             | _ \<Rightarrow> None)
          else Some True
      | _ \<Rightarrow> None)"

definition finish_plan :: "bytes \<Rightarrow> obu \<Rightarrow> obu \<Rightarrow> nat \<Rightarrow> nat \<Rightarrow> plan option option" where
  "finish_plan data fh tg metaOff metaLen =
     (case trim_zeros data (payloadOffset fh) (payloadLength fh) of
        None \<Rightarrow> None
      | Some n \<Rightarrow>
          if n = 0 then Some None
          else case rd data (payloadOffset fh + n - 1) of
            None \<Rightarrow> None
          | Some orig \<Rightarrow>
              let dropLast = (orig = 0x80);
                  n' = (if dropLast then n - 1 else n)
              in if n' = 0 then Some None
              else Some (Some \<lparr>pl_fh = fh, pl_tg = tg, pl_metaOffset = metaOff,
                 pl_metaLength = metaLen, pl_fhLength = n', pl_lastByte = orig AND (orig - 1),
                 pl_dropLast = dropLast\<rparr>))"

definition make_plan :: "bytes \<Rightarrow> obu list \<Rightarrow> plan option option" where
  "make_plan data obus =
     (case scan_split 0 obus None None of
        Some (Some fi, Some ti) \<Rightarrow>
          if ti \<noteq> length obus - 1 \<or> ti < fi then Some None
          else case metadata_length (take (ti - Suc fi) (drop (Suc fi) obus)) of
            None \<Rightarrow> Some None
          | Some metaLen \<Rightarrow>
              if metaLen > MAX_HOISTED_METADATA then Some None
              else case headers_agree data (obus ! fi) (obus ! ti) of
                None \<Rightarrow> None
              | Some False \<Rightarrow> Some None
              | Some True \<Rightarrow>
                  finish_plan data (obus ! fi) (obus ! ti) (headerOffset (obus ! Suc fi)) metaLen
      | _ \<Rightarrow> Some None)"

section \<open>Rewriting\<close>

function write_leb128 :: "bytes \<Rightarrow> nat \<Rightarrow> nat \<Rightarrow> (bytes \<times> nat) option" where
  "write_leb128 buf off v =
     (let b = of_nat (v AND 0x7F); v' = drop_bit 7 v in
      if v' = 0 then map_option (\<lambda>buf'. (buf', 1)) (wr buf off b)
      else case wr buf off (b OR 0x80) of
        None \<Rightarrow> None
      | Some buf' \<Rightarrow> map_option (\<lambda>(buf'', n). (buf'', Suc n)) (write_leb128 buf' (Suc off) v'))"
  by pat_completeness auto
termination
  by (relation "measure (\<lambda>(buf, off, v). v)") (auto simp: drop_bit_eq_div)

declare write_leb128.simps [simp del]

text \<open>The moves and writes, in the code's order.\<close>

definition retype_frame :: "byte \<Rightarrow> byte" where
  "retype_frame h = (h AND NOT 0x78) OR push_bit 3 OBU_FRAME"

definition write_header :: "bytes \<Rightarrow> nat \<Rightarrow> nat \<Rightarrow> nat \<Rightarrow> bytes option" where
  "write_header buf fhOffset mergedOffset mergedLen =
     Option.bind (rd buf fhOffset) (\<lambda>h.
     let h' = retype_frame h in
     Option.bind (wr buf mergedOffset h') (\<lambda>buf.
     Option.bind
       (if h' AND 0x04 \<noteq> 0
        then Option.bind (rd buf (fhOffset + 1)) (\<lambda>x.
             map_option (\<lambda>buf. (buf, 2)) (wr buf (mergedOffset + 1) x))
        else Some (buf, 1)) (\<lambda>(buf, written).
     map_option fst (write_leb128 buf (mergedOffset + written) mergedLen))))"

definition apply_plan :: "bytes \<Rightarrow> plan \<Rightarrow> (bytes \<times> nat) option" where
  "apply_plan data p =
     (let fh = pl_fh p; tg = pl_tg p;
          mergedLen = pl_fhLength p + payloadLength tg;
          mergedHeaderLength = (headerLength fh - sizeBytes fh) + leb128Size mergedLen;
          preamble = headerOffset fh;
          mergedHeaderOffset = preamble + pl_metaLength p;
          frameHeaderDest = mergedHeaderOffset + mergedHeaderLength;
          tileGroupDest = frameHeaderDest + pl_fhLength p
      in Option.bind (if pl_metaLength p > 0
                      then mem_read data (pl_metaOffset p) (pl_metaLength p) else Some []) (\<lambda>metadata.
         Option.bind (mem_move data tileGroupDest (payloadOffset tg) (payloadLength tg)) (\<lambda>buf.
         Option.bind (mem_move buf frameHeaderDest (payloadOffset fh) (pl_fhLength p)) (\<lambda>buf.
         Option.bind (if \<not> pl_dropLast p
                      then wr buf (frameHeaderDest + pl_fhLength p - 1) (pl_lastByte p)
                      else Some buf) (\<lambda>buf.
         Option.bind (write_header buf preamble mergedHeaderOffset mergedLen) (\<lambda>buf.
         Option.bind (if pl_metaLength p > 0 then mem_write buf preamble metadata
                      else Some buf) (\<lambda>buf.
         Some (buf, tileGroupDest + payloadLength tg))))))))"

text \<open>
  \<open>repackAv1TemporalUnit\<close>: \<open>None\<close> is an access outside the buffer; otherwise the buffer
  after the call and the returned length.
\<close>

definition repackAv1TemporalUnit :: "bytes \<Rightarrow> (bytes \<times> nat) option" where
  "repackAv1TemporalUnit data =
     (case parseObus data of
        None \<Rightarrow> None
      | Some None \<Rightarrow> Some (data, length data)
      | Some (Some []) \<Rightarrow> Some (data, length data)
      | Some (Some obus) \<Rightarrow>
          (case make_plan data obus of
             None \<Rightarrow> None
           | Some None \<Rightarrow> Some (data, length data)
           | Some (Some p) \<Rightarrow> apply_plan data p))"

section \<open>leb128\<close>

lemma leb128Size_pos: "0 < leb128Size v"
  by (simp add: leb128Size.simps [of v])

lemma leb128Size_le: "v < 2 ^ (7 * k) \<Longrightarrow> 0 < k \<Longrightarrow> leb128Size v \<le> k"
proof (induction v arbitrary: k rule: leb128Size.induct)
  case (1 v)
  show ?case
  proof (cases "drop_bit 7 v = 0")
    case True
    with "1.prems" show ?thesis by (simp add: leb128Size.simps [of v])
  next
    case False
    then have "128 \<le> v" by (simp add: drop_bit_eq_div div_eq_0_iff)
    with "1.prems" have "1 < k" by (cases "k = 1") auto
    then obtain j where k: "k = Suc j" "0 < j" by (cases k) auto
    have "drop_bit 7 v < 2 ^ (7 * j)"
      using "1.prems" k by (simp add: drop_bit_eq_div less_mult_imp_div_less power_add mult.commute)
    with "1.IH" [OF False] k show ?thesis
      by (simp add: leb128Size.simps [of v] False)
  qed
qed

lemma leb128Size_bound: "v < 2 ^ (7 * leb128Size v)"
proof (induction v rule: leb128Size.induct)
  case (1 v)
  show ?case
  proof (cases "drop_bit 7 v = 0")
    case True
    then show ?thesis by (simp add: leb128Size.simps [of v] drop_bit_eq_div div_eq_0_iff)
  next
    case False
    with 1 have "v div 2 ^ 7 < 2 ^ (7 * leb128Size (drop_bit 7 v))"
      by (simp add: drop_bit_eq_div)
    then have "v < 2 ^ (7 * leb128Size (drop_bit 7 v)) * 2 ^ 7"
      by (simp add: div_less_iff_less_mult)
    with False show ?thesis
      by (simp add: leb128Size.simps [of v] power_add mult.commute)
  qed
qed

lemma add_le_mult_ge2:
  fixes a b :: nat
  assumes "2 \<le> a" and "2 \<le> b"
  shows "a + b \<le> a * b"
proof (cases "a \<le> b")
  case True
  then have "a + b \<le> 2 * b" by simp
  also have "\<dots> \<le> a * b" using assms(1) by (rule mult_right_mono) simp
  finally show ?thesis .
next
  case False
  then have "a + b \<le> a * 2" by simp
  also have "\<dots> \<le> a * b" using assms(2) by (rule mult_left_mono) simp
  finally show ?thesis .
qed

lemma two_le_exp: "0 < k \<Longrightarrow> (2::nat) \<le> 2 ^ (7 * k)"
  using power_increasing [of 1 "7 * k" "2::nat"] by simp

lemma leb128Size_add:
  assumes "a < 2 ^ (7 * m)" and "b < 2 ^ (7 * n)" and "0 < m" and "0 < n"
  shows "leb128Size (a + b) \<le> m + n"
proof (rule leb128Size_le)
  have "a + b < 2 ^ (7 * m) + 2 ^ (7 * n)" using assms by simp
  also have "\<dots> \<le> 2 ^ (7 * m) * 2 ^ (7 * n)"
    using assms by (intro add_le_mult_ge2 two_le_exp)
  finally show "a + b < 2 ^ (7 * (m + n))" by (simp add: power_add algebra_simps)
qed (use assms in simp)

lemma or_less_exp:
  fixes x y :: nat
  assumes "x < 2 ^ n" and "y < 2 ^ n"
  shows "x OR y < 2 ^ n"
proof -
  have "take_bit n (x OR y) = x OR y"
    using assms by (simp add: take_bit_or take_bit_nat_eq_self)
  then show ?thesis by (metis take_bit_nat_less_exp)
qed

lemma read_leb128_value:
  "read_leb128 data base sz k = Some (Some (v, m)) \<Longrightarrow> sz < 2 ^ (7 * k) \<Longrightarrow> v < 2 ^ (7 * m)"
proof (induction data base sz k rule: read_leb128.induct)
  case (1 data base sz k)
  show ?case
  proof (cases "rd data (base + k)")
    case None
    with "1.prems" show ?thesis
      by (auto simp: read_leb128.simps [of data base sz k] split: if_splits)
  next
    case (Some b)
    let ?sz = "sz OR push_bit (7 * k) (unat (b AND 0x7F))"
    have "unat (b AND 0x7F) \<le> unat (0x7F :: byte)"
      using word_and_le1 [of b "0x7F"] by (simp only: word_le_nat_alt)
    then have "unat (b AND 0x7F) < 2 ^ 7" by simp
    then have "push_bit (7 * k) (unat (b AND 0x7F)) < 2 ^ (7 * k) * 2 ^ 7"
      by (simp add: push_bit_eq_mult)
    moreover have "sz < 2 ^ (7 * k) * 2 ^ 7" using "1.prems"(2) by simp
    ultimately have "?sz < 2 ^ (7 * Suc k)"
      using or_less_exp [of sz "7 * k + 7"] by (simp add: power_add add.commute mult.commute)
    with "1.prems" "1.IH" [OF _ Some refl] Some show ?thesis
      by (auto simp: read_leb128.simps [of data base sz k] Let_def split: if_splits)
  qed
qed

lemma read_leb128_safe: "read_leb128 data base sz k \<noteq> None"
proof (induction data base sz k rule: read_leb128.induct)
  case (1 data base sz k)
  then show ?case
    by (auto simp: read_leb128.simps [of data base sz k] rd_def Let_def)
qed

section \<open>What a parse guarantees\<close>

text \<open>The OBUs tile the buffer from \<open>pos\<close> to its end.\<close>

fun tiles :: "bytes \<Rightarrow> nat \<Rightarrow> obu list \<Rightarrow> bool" where
  "tiles data pos [] \<longleftrightarrow> pos = length data"
| "tiles data pos (ob # obus) \<longleftrightarrow>
     pos < length data \<and> headerOffset ob = pos \<and> payloadOffset ob = pos + headerLength ob \<and>
     headerLength ob = (if data ! pos AND 0x04 \<noteq> 0 then 2 else 1) + sizeBytes ob \<and>
     0 < sizeBytes ob \<and> payloadLength ob < 2 ^ (7 * sizeBytes ob) \<and>
     obu_type ob = drop_bit 3 (data ! pos) AND 0x0F \<and>
     tiles data (payloadOffset ob + payloadLength ob) obus"

lemma parse_from_tiles:
  "parse_from data n pos = Some (Some obus) \<Longrightarrow> pos \<le> length data \<Longrightarrow> tiles data pos obus"
proof (induction data n pos arbitrary: obus rule: parse_from.induct)
  case (1 data n pos)
  show ?case
  proof (cases "length data \<le> pos")
    case True
    with "1.prems" show ?thesis by (simp add: parse_from.simps [of data n pos])
  next
    case False
    then have rd: "rd data pos = Some (data ! pos)" by (simp add: rd_def)
    define hl :: nat where "hl = (if data ! pos AND 0x04 \<noteq> 0 then 2 else 1)"
    from "1.prems" False rd obtain sz k os where
      c: "n \<noteq> MAX_OBUS" "data ! pos AND 0x80 = 0" "data ! pos AND 0x02 \<noteq> 0" "pos + hl < length data"
      and leb: "read_leb128 data (pos + hl) 0 0 = Some (Some (sz, k))"
      and fits: "\<not> length data - (pos + (hl + k)) < sz"
      and rec: "parse_from data (Suc n) (pos + (hl + k) + sz) = Some (Some os)"
      and obus: "obus = \<lparr>obu_type = drop_bit 3 (data ! pos) AND 0x0F, headerOffset = pos,
          headerLength = hl + k, sizeBytes = k, payloadOffset = pos + (hl + k),
          payloadLength = sz\<rparr> # os"
      by (auto simp: parse_from.simps [of data n pos] Let_def hl_def
          split: if_splits option.splits prod.splits)
    have k: "0 < k" "pos + hl + k \<le> length data" using read_leb128_grows [OF leb] by auto
    have "tiles data (pos + (hl + k) + sz) os"
      using "1.IH" [OF False c(1) rd, of hl "Some (sz, k)" "(sz, k)" sz k] c leb fits rec k
      by (auto simp: hl_def)
    with obus k read_leb128_value [OF leb] False show ?thesis
      by (auto simp: hl_def)
  qed
qed

lemma parse_from_safe: "parse_from data n pos \<noteq> None"
proof (induction data n pos rule: parse_from.induct)
  case (1 data n pos)
  show ?case
  proof (cases "length data \<le> pos")
    case True
    then show ?thesis by (simp add: parse_from.simps [of data n pos])
  next
    case False
    then have rd: "rd data pos = Some (data ! pos)" by (simp add: rd_def)
    define hl :: nat where "hl = (if data ! pos AND 0x04 \<noteq> 0 then 2 else 1)"
    obtain r where leb: "read_leb128 data (pos + hl) 0 0 = Some r"
      using read_leb128_safe by fastforce
    show ?thesis
    proof (cases r)
      case None
      with leb rd False show ?thesis
        by (auto simp: parse_from.simps [of data n pos] Let_def hl_def)
    next
      case (Some x)
      obtain sz k where x: "x = (sz, k)" by (cases x)
      show ?thesis
      proof (cases "n = MAX_OBUS")
        case True
        with False show ?thesis by (subst parse_from.simps) simp
      next
        case nm: False
        with "1.IH" [OF False nm rd, of hl "Some (sz, k)" "(sz, k)" sz k] leb rd False Some x
        show ?thesis
          by (auto simp: parse_from.simps [of data n pos] Let_def hl_def split: option.splits)
      qed
    qed
  qed
qed

section \<open>What a plan guarantees\<close>

text \<open>
  The geometry of the unit a plan was made for: the frame header, the metadata behind it and
  the tile group behind that, up to the end of the buffer.
\<close>

definition geometry :: "bytes \<Rightarrow> obu \<Rightarrow> obu \<Rightarrow> nat \<Rightarrow> nat \<Rightarrow> bool" where
  "geometry data fh tg metaOff metaLen \<longleftrightarrow>
     payloadOffset fh = headerOffset fh + headerLength fh \<and>
     headerLength fh = (if data ! headerOffset fh AND 0x04 \<noteq> 0 then 2 else 1) + sizeBytes fh \<and>
     0 < sizeBytes fh \<and> payloadLength fh < 2 ^ (7 * sizeBytes fh) \<and>
     metaOff = payloadOffset fh + payloadLength fh \<and>
     (metaLen = 0 \<or> 2 \<le> metaLen) \<and>
     headerOffset tg = metaOff + metaLen \<and>
     payloadOffset tg = headerOffset tg + headerLength tg \<and>
     headerLength tg = (if data ! headerOffset tg AND 0x04 \<noteq> 0 then 2 else 1) + sizeBytes tg \<and>
     0 < sizeBytes tg \<and> payloadLength tg < 2 ^ (7 * sizeBytes tg) \<and>
     payloadOffset tg + payloadLength tg = length data"

definition valid_plan :: "bytes \<Rightarrow> plan \<Rightarrow> bool" where
  "valid_plan data p \<longleftrightarrow>
     geometry data (pl_fh p) (pl_tg p) (pl_metaOffset p) (pl_metaLength p) \<and>
     0 < pl_fhLength p \<and> pl_fhLength p \<le> payloadLength (pl_fh p)"

definition found :: "obu list \<Rightarrow> nat \<Rightarrow> byte \<Rightarrow> nat option \<Rightarrow> nat option \<Rightarrow> bool" where
  "found obus i ty old new \<longleftrightarrow>
     (\<forall>x. new = Some x \<longrightarrow> old = Some x \<or> (i \<le> x \<and> x - i < length obus \<and> obu_type (obus ! (x - i)) = ty))"

lemma found_Cons:
  "found obus (Suc i) ty old new \<Longrightarrow> found (ob # obus) i ty old new"
  by (force simp: found_def nth_Cons')

lemma found_here:
  "found obus (Suc i) ty (Some i) new \<Longrightarrow> obu_type ob = ty \<Longrightarrow> found (ob # obus) i ty old new"
  by (force simp: found_def nth_Cons')

lemma scan_split_spec:
  "scan_split i obus fh tg = Some (a, b) \<Longrightarrow>
   found obus i OBU_FRAME_HEADER fh a \<and> found obus i OBU_TILE_GROUP tg b"
proof (induction i obus fh tg rule: scan_split.induct)
  case (2 i ob obus fh tg)
  then show ?case
    by (auto split: if_splits intro: found_Cons found_here)
qed (simp add: found_def)

lemma tiles_nth:
  assumes "tiles data pos obus" and "i < length obus"
  shows "tiles data (headerOffset (obus ! i)) (drop i obus)"
  using assms
proof (induction obus arbitrary: pos i)
  case (Cons ob obus)
  then show ?case by (cases i) auto
qed simp

lemma tiles_le: "tiles data pos obus \<Longrightarrow> pos \<le> length data"
  by (cases obus) auto

lemma tiles_skip:
  assumes "tiles data pos obus" and "metadata_length (take n obus) = Some m" and "n < length obus"
  shows "headerOffset (obus ! n) = pos + m \<and> (m = 0 \<or> 2 \<le> m)"
  using assms
proof (induction n arbitrary: pos obus m)
  case 0
  then show ?case by (cases obus) auto
next
  case (Suc n)
  then obtain ob os where o: "obus = ob # os" by (cases obus) auto
  with Suc.prems obtain m' where m': "metadata_length (take n os) = Some m'"
    "m = headerLength ob + payloadLength ob + m'" by (auto split: if_splits)
  with Suc.IH [of "payloadOffset ob + payloadLength ob" os m'] Suc.prems o show ?case
    by auto
qed

lemma trim_zeros_spec:
  "off + n \<le> length data \<Longrightarrow> \<exists>k. trim_zeros data off n = Some k \<and> k \<le> n"
  by (induction n) (auto simp: rd_def)

lemma tiles_geometry:
  assumes t: "tiles data 0 obus" and fi: "fi < ti" and ti: "ti = length obus - 1"
    and m: "metadata_length (take (ti - Suc fi) (drop (Suc fi) obus)) = Some m"
  shows "geometry data (obus ! fi) (obus ! ti) (headerOffset (obus ! Suc fi)) m"
proof -
  let ?fh = "obus ! fi" and ?tg = "obus ! ti"
  have len: "fi < length obus" "ti < length obus" "Suc fi < length obus" using fi ti by auto
  have d1: "drop fi obus = ?fh # drop (Suc fi) obus" using len by (simp add: Cons_nth_drop_Suc)
  have d2: "drop ti obus = [?tg]"
    using len ti by (simp add: Cons_nth_drop_Suc [symmetric])
  note t1 = tiles_nth [OF t len(1), unfolded d1]
  note t2 = tiles_nth [OF t len(2), unfolded d2]
  from t1 have t3: "tiles data (payloadOffset ?fh + payloadLength ?fh) (drop (Suc fi) obus)"
    unfolding tiles.simps by blast
  have "headerOffset (obus ! Suc fi) = payloadOffset ?fh + payloadLength ?fh"
    using t3 len(3) by (simp add: Cons_nth_drop_Suc [symmetric])
  moreover have "headerOffset ?tg = payloadOffset ?fh + payloadLength ?fh + m \<and> (m = 0 \<or> 2 \<le> m)"
    using tiles_skip [OF t3 m] len fi by simp
  ultimately show ?thesis using t1 t2 by (simp add: geometry_def)
qed

lemma headers_agree_safe:
  assumes "geometry data fh tg mo ml"
  shows "headers_agree data fh tg \<noteq> None"
  using assms by (auto simp: headers_agree_def geometry_def rd_def)

lemma finish_plan_cases:
  assumes "geometry data fh tg mo ml"
  obtains (leave) "finish_plan data fh tg mo ml = Some None"
  | (rewrite) p where "finish_plan data fh tg mo ml = Some (Some p)" "valid_plan data p"
proof -
  have le: "payloadOffset fh + payloadLength fh \<le> length data"
    using assms unfolding geometry_def by linarith
  from trim_zeros_spec [OF le] obtain n
    where n: "trim_zeros data (payloadOffset fh) (payloadLength fh) = Some n" "n \<le> payloadLength fh"
    by blast
  show ?thesis
  proof (cases "n = 0")
    case True
    with n leave show ?thesis by (simp add: finish_plan_def)
  next
    case False
    with le n have "payloadOffset fh + n - 1 < length data" by linarith
    then obtain b where b: "rd data (payloadOffset fh + n - 1) = Some b" by (simp add: rd_def)
    define n' where "n' = (if b = 0x80 then n - 1 else n)"
    define q where "q = \<lparr>pl_fh = fh, pl_tg = tg, pl_metaOffset = mo, pl_metaLength = ml,
      pl_fhLength = n', pl_lastByte = b AND (b - 1), pl_dropLast = (b = 0x80)\<rparr>"
    have eq: "finish_plan data fh tg mo ml = (if n' = 0 then Some None else Some (Some q))"
      using n b False by (simp only: finish_plan_def Let_def n'_def q_def option.case if_False)
    show ?thesis
    proof (cases "n' = 0")
      case True
      with eq leave show ?thesis by simp
    next
      case False
      then have "valid_plan data q"
        using assms n by (auto simp: valid_plan_def q_def n'_def)
      with False eq rewrite show ?thesis by simp
    qed
  qed
qed

lemma make_plan_cases:
  assumes "tiles data 0 obus" and "obus \<noteq> []"
  obtains (leave) "make_plan data obus = Some None"
  | (finish) fh tg mo ml where "geometry data fh tg mo ml"
      "make_plan data obus = finish_plan data fh tg mo ml"
proof (cases "make_plan data obus = Some None")
  case True
  then show ?thesis by (rule leave)
next
  case False
  then obtain fi ti where scan: "scan_split 0 obus None None = Some (Some fi, Some ti)"
    by (auto simp: make_plan_def split: option.splits prod.splits)
  from scan_split_spec [OF scan] have ty: "fi < length obus" "obu_type (obus ! fi) = OBU_FRAME_HEADER"
    "obu_type (obus ! ti) = OBU_TILE_GROUP" by (auto simp: found_def)
  have mp: "make_plan data obus =
      (if ti \<noteq> length obus - 1 \<or> ti < fi then Some None
       else case metadata_length (take (ti - Suc fi) (drop (Suc fi) obus)) of
            None \<Rightarrow> Some None
          | Some metaLen \<Rightarrow>
              if metaLen > MAX_HOISTED_METADATA then Some None
              else case headers_agree data (obus ! fi) (obus ! ti) of
                None \<Rightarrow> None
              | Some False \<Rightarrow> Some None
              | Some True \<Rightarrow>
                  finish_plan data (obus ! fi) (obus ! ti) (headerOffset (obus ! Suc fi)) metaLen)"
    by (simp add: make_plan_def scan)
  have ti: "ti = length obus - 1" "\<not> ti < fi"
    using False unfolding mp by meson+
  with ty have "fi < ti"
    by (cases "fi = ti") (auto simp: OBU_FRAME_HEADER_def OBU_TILE_GROUP_def)
  obtain m where m: "metadata_length (take (ti - Suc fi) (drop (Suc fi) obus)) = Some m"
    using False ti unfolding mp by (cases "metadata_length (take (ti - Suc fi) (drop (Suc fi) obus))") auto
  note g = tiles_geometry [OF assms(1) \<open>fi < ti\<close> ti(1) m]
  obtain b where b: "headers_agree data (obus ! fi) (obus ! ti) = Some b"
    using headers_agree_safe [OF g] by blast
  have "make_plan data obus = finish_plan data (obus ! fi) (obus ! ti) (headerOffset (obus ! Suc fi)) m"
    using False ti m b unfolding mp by (cases b) (simp_all split: if_splits)
  with g finish show ?thesis by blast
qed

section \<open>Memory operations on split buffers\<close>

lemma mem_write_split:
  "length a = dst \<Longrightarrow> length b = length xs \<Longrightarrow> mem_write (a @ b @ c) dst xs = Some (a @ xs @ c)"
  by (simp add: mem_write_def)

lemma wr_split: "length a = i \<Longrightarrow> wr (a @ x # c) i y = Some (a @ y # c)"
  by (auto simp: wr_def list_update_append)

function leb128 :: "nat \<Rightarrow> bytes" where
  "leb128 v = (if drop_bit 7 v = 0 then [of_nat (v AND 0x7F)]
               else (of_nat (v AND 0x7F) OR 0x80) # leb128 (drop_bit 7 v))"
  by pat_completeness auto
termination
  by (relation "measure id") (auto simp: drop_bit_eq_div)

declare leb128.simps [simp del]

lemma length_leb128 [length_facts]: "length (leb128 v) = leb128Size v"
  by (induction v rule: leb128.induct) (simp add: leb128.simps leb128Size.simps)

lemma write_leb128_split:
  "length a = off \<Longrightarrow> length b = leb128Size v \<Longrightarrow>
   write_leb128 (a @ b @ c) off v = Some (a @ leb128 v @ c, leb128Size v)"
proof (induction v arbitrary: a off b rule: leb128.induct)
  case (1 v)
  then obtain x b' where b: "b = x # b'" using leb128Size_pos [of v] by (cases b) auto
  show ?case
  proof (cases "drop_bit 7 v = 0")
    case True
    with 1 b show ?thesis
      by (simp add: write_leb128.simps [of _ off] leb128.simps [of v] leb128Size.simps [of v] wr_split)
  next
    case False
    let ?y = "of_nat (v AND 0x7F) OR 0x80 :: byte"
    have "length b' = leb128Size (drop_bit 7 v)"
      using "1.prems" b False by (simp add: leb128Size.simps [of v])
    with "1.IH" [OF False, of "a @ [?y]" "Suc off" b'] "1.prems" False b show ?thesis
      by (simp add: write_leb128.simps [of _ off] leb128.simps [of v] leb128Size.simps [of v] wr_split)
  qed
qed

section \<open>What the rewrite produces\<close>

definition merged_length :: "plan \<Rightarrow> nat" where
  "merged_length p = pl_fhLength p + payloadLength (pl_tg p)"

definition merged_header_length :: "plan \<Rightarrow> nat" where
  "merged_header_length p =
     (headerLength (pl_fh p) - sizeBytes (pl_fh p)) + leb128Size (merged_length p)"

definition header_dest :: "plan \<Rightarrow> nat" where
  "header_dest p = headerOffset (pl_fh p) + pl_metaLength p"

definition fh_dest :: "plan \<Rightarrow> nat" where
  "fh_dest p = header_dest p + merged_header_length p"

definition tg_dest :: "plan \<Rightarrow> nat" where
  "tg_dest p = fh_dest p + pl_fhLength p"

definition merged_obu_header :: "bytes \<Rightarrow> plan \<Rightarrow> bytes" where
  "merged_obu_header data p =
     (let h = data ! headerOffset (pl_fh p); h' = retype_frame h in
      if h AND 0x04 \<noteq> 0 then [h', data ! Suc (headerOffset (pl_fh p))] else [h'])"

text \<open>The frame header bytes with the stop bit cleared.\<close>

definition close_header :: "plan \<Rightarrow> bytes \<Rightarrow> bytes" where
  "close_header p s = (if pl_dropLast p then s else butlast s @ [pl_lastByte p])"

definition metadata_bytes :: "bytes \<Rightarrow> plan \<Rightarrow> bytes" where
  "metadata_bytes data p = take (pl_metaLength p) (drop (pl_metaOffset p) data)"

definition merged_unit :: "bytes \<Rightarrow> plan \<Rightarrow> bytes \<Rightarrow> bytes" where
  "merged_unit data p fhBytes =
     take (headerOffset (pl_fh p)) data @ metadata_bytes data p @ merged_obu_header data p @
     leb128 (merged_length p) @ close_header p fhBytes @ drop (payloadOffset (pl_tg p)) data"

text \<open>The buffer after the tile group has been moved.\<close>

definition after_tg :: "bytes \<Rightarrow> plan \<Rightarrow> bytes" where
  "after_tg data p =
     take (tg_dest p) data @ drop (payloadOffset (pl_tg p)) data @
     drop (tg_dest p + payloadLength (pl_tg p)) data"

text \<open>The frame header bytes as the second move reads them, after the first one.\<close>

definition moved_fh :: "bytes \<Rightarrow> plan \<Rightarrow> bytes" where
  "moved_fh data p = take (pl_fhLength p) (drop (payloadOffset (pl_fh p)) (after_tg data p))"

lemma retyped_extension [simp]: "retype_frame h AND 0x04 = h AND 0x04"
proof -
  have "(h AND NOT 0x78) AND 0x04 = h AND (NOT 0x78 AND 0x04)" by (simp only: and.assoc)
  then show ?thesis by (simp add: bit.conj_disj_distrib2 retype_frame_def OBU_FRAME_def)
qed

lemma plan_bounds:
  assumes "valid_plan data p"
  shows "tg_dest p \<le> payloadOffset (pl_tg p)"
    and "payloadOffset (pl_fh p) + pl_fhLength p \<le> length data"
    and "headerOffset (pl_fh p) < fh_dest p"
    and "pl_metaLength p = 0 \<or> 2 \<le> pl_metaLength p"
    and "headerOffset (pl_fh p) + pl_metaLength p \<le> tg_dest p"
    and "payloadOffset (pl_tg p) + payloadLength (pl_tg p) = length data"
    and "length (merged_obu_header data p) = headerLength (pl_fh p) - sizeBytes (pl_fh p)"
    and "pl_metaOffset p + pl_metaLength p \<le> length data"
    and "0 < pl_fhLength p"
proof -
  let ?fh = "pl_fh p" and ?tg = "pl_tg p"
  from assms have g: "geometry data ?fh ?tg (pl_metaOffset p) (pl_metaLength p)"
    and n: "0 < pl_fhLength p" "pl_fhLength p \<le> payloadLength ?fh"
    by (auto simp: valid_plan_def)
  note g' = g [unfolded geometry_def]
  have "pl_fhLength p < 2 ^ (7 * sizeBytes ?fh)" using g' n by linarith
  with g' have leb: "leb128Size (merged_length p) \<le> sizeBytes ?fh + sizeBytes ?tg"
    unfolding merged_length_def by (intro leb128Size_add) simp_all
  have hl: "headerLength ?fh - sizeBytes ?fh + sizeBytes ?fh = headerLength ?fh"
    "sizeBytes ?tg < headerLength ?tg" using g' by auto
  show "tg_dest p \<le> payloadOffset ?tg"
    using g' n leb hl
    unfolding tg_dest_def fh_dest_def header_dest_def merged_header_length_def by linarith
  show "payloadOffset ?fh + pl_fhLength p \<le> length data" using g' n by linarith
  show "headerOffset ?fh < fh_dest p"
    using leb128Size_pos [of "merged_length p"]
    unfolding fh_dest_def header_dest_def merged_header_length_def by linarith
  show "pl_metaLength p = 0 \<or> 2 \<le> pl_metaLength p"
    and "payloadOffset ?tg + payloadLength ?tg = length data" using g' by auto
  show "headerOffset ?fh + pl_metaLength p \<le> tg_dest p"
    unfolding tg_dest_def fh_dest_def header_dest_def by linarith
  show "length (merged_obu_header data p) = headerLength ?fh - sizeBytes ?fh"
    using g' by (simp add: merged_obu_header_def Let_def)
  show "pl_metaOffset p + pl_metaLength p \<le> length data" using g' by linarith
  show "0 < pl_fhLength p" by (rule n)
qed

lemma write_header_split:
  assumes h: "rd (a @ g # b @ c @ d) o1 = Some h"
    and ext: "h AND 0x04 \<noteq> 0 \<Longrightarrow> rd (a @ retype_frame h # b @ c @ d) (o1 + 1) = Some x"
    and b: "length b = (if h AND 0x04 \<noteq> 0 then 1 else 0)"
    and c: "length c = leb128Size v"
    and m: "length a = m"
  shows "write_header (a @ g # b @ c @ d) o1 m v =
    Some (a @ retype_frame h # (if h AND 0x04 \<noteq> 0 then [x] else []) @ leb128 v @ d)"
proof -
  let ?h = "retype_frame h"
  have w: "wr (a @ g # b @ c @ d) m ?h = Some (a @ ?h # b @ c @ d)" by (rule wr_split [OF m])
  show ?thesis
  proof (cases "h AND 0x04 = 0")
    case True
    with b have "b = []" by simp
    with True h w write_leb128_split [of "a @ [?h]" "m + 1" c v d] c m show ?thesis
      by (simp add: write_header_def Let_def)
  next
    case False
    with b obtain y where y: "b = [y]" by (cases b) auto
    have w2: "wr (a @ ?h # b @ c @ d) (m + 1) x = Some (a @ ?h # [x] @ c @ d)"
      using wr_split [of "a @ [?h]" "m + 1" y "c @ d" x] m y by simp
    from False h w ext w2 write_leb128_split [of "a @ [?h, x]" "m + 2" c v d] c m show ?thesis
      by (simp add: write_header_def Let_def)
  qed
qed

lemma tile_group_bytes:
  "valid_plan data p \<Longrightarrow> length (drop (payloadOffset (pl_tg p)) data) = payloadLength (pl_tg p)"
  using plan_bounds(6) [of data p] by simp

lemma length_after_tg [length_facts]:
  assumes "valid_plan data p"
  shows "length (after_tg data p) = length data"
  using plan_bounds(1,6) [OF assms] by (simp add: after_tg_def)

lemma move_tile_group:
  assumes "valid_plan data p"
  shows "mem_move data (tg_dest p) (payloadOffset (pl_tg p)) (payloadLength (pl_tg p)) =
    Some (after_tg data p)"
  using plan_bounds(1,6) [OF assms] tile_group_bytes [OF assms]
  by (simp add: mem_move_def mem_read_def mem_write_def after_tg_def del: length_drop)

lemma length_moved_fh [length_facts]:
  "valid_plan data p \<Longrightarrow> length (moved_fh data p) = pl_fhLength p"
  using plan_bounds(2) [of data p] by (simp add: moved_fh_def length_after_tg)

lemma move_frame_header:
  assumes "valid_plan data p"
  shows "mem_move (after_tg data p) (fh_dest p) (payloadOffset (pl_fh p)) (pl_fhLength p) =
    Some (take (fh_dest p) data @ moved_fh data p @ drop (payloadOffset (pl_tg p)) data @
          drop (tg_dest p + payloadLength (pl_tg p)) data)"
proof -
  note b = plan_bounds [OF assms]
  have len: "length (moved_fh data p) = pl_fhLength p" by (rule length_moved_fh [OF assms])
  have t: "take (tg_dest p) data = take (fh_dest p) data @ take (pl_fhLength p) (drop (fh_dest p) data)"
    by (simp add: tg_dest_def take_add)
  have "tg_dest p \<le> length data" using b by linarith
  then have w: "mem_write (take (tg_dest p) data @ y) (fh_dest p) (moved_fh data p) =
      Some (take (fh_dest p) data @ moved_fh data p @ y)" for y
    unfolding t append.assoc by (intro mem_write_split) (auto simp: len tg_dest_def)
  have "mem_read (after_tg data p) (payloadOffset (pl_fh p)) (pl_fhLength p) = Some (moved_fh data p)"
    using b by (simp add: mem_read_def moved_fh_def length_after_tg [OF assms])
  then show ?thesis unfolding mem_move_def by (simp add: after_tg_def w)
qed

lemma length_close_header [length_facts]:
  "s \<noteq> [] \<Longrightarrow> length (close_header p s) = length s"
  by (simp add: close_header_def)

lemma clear_stop_bit:
  assumes "length s = pl_fhLength p" and "s \<noteq> []" and "length a = fh_dest p"
  shows "(if \<not> pl_dropLast p then wr (a @ s @ y) (tg_dest p - 1) (pl_lastByte p)
          else Some (a @ s @ y)) = Some (a @ close_header p s @ y)"
proof -
  have "wr ((a @ butlast s) @ last s # y) (tg_dest p - 1) (pl_lastByte p) =
      Some ((a @ butlast s) @ pl_lastByte p # y)"
    using assms by (intro wr_split) (cases s rule: rev_cases; simp add: tg_dest_def)
  moreover have "(a @ butlast s) @ last s # y = a @ s @ y" using assms(2) by simp
  ultimately show ?thesis
    by (cases "pl_dropLast p")
      (simp_all only: close_header_def append.assoc append.simps simp_thms if_True if_False)
qed

lemma write_merged_header:
  assumes "valid_plan data p"
  shows "write_header (take (fh_dest p) data @ y) (headerOffset (pl_fh p)) (header_dest p) (merged_length p) =
    Some (take (header_dest p) data @ merged_obu_header data p @ leb128 (merged_length p) @ y)"
proof -
  note b = plan_bounds [OF assms]
  let ?o = "headerOffset (pl_fh p)" and ?h = "data ! headerOffset (pl_fh p)"
  let ?x = "data ! Suc (headerOffset (pl_fh p))"
  have fl: "fh_dest p \<le> length data" using b by (simp add: tg_dest_def)
  define n where "n = (if ?h AND 0x04 \<noteq> 0 then 1 else 0 :: nat)"
  have fd: "fh_dest p = header_dest p + (Suc n + leb128Size (merged_length p))"
    using b(7) by (simp add: fh_dest_def merged_header_length_def merged_obu_header_def Let_def n_def
        split: if_splits)
  define g where "g = data ! header_dest p"
  define bs where "bs = take n (drop (Suc (header_dest p)) data)"
  define c where "c = take (leb128Size (merged_length p)) (drop (Suc n + header_dest p) data)"
  have split: "take (fh_dest p) data = take (header_dest p) data @ g # bs @ c"
  proof -
    have "take (Suc n) (drop (header_dest p) data) = g # bs"
      using fl fd by (simp add: g_def bs_def take_Suc hd_drop_conv_nth drop_Suc tl_drop)
    then show ?thesis unfolding fd take_add c_def by (simp add: add.commute)
  qed
  have lens: "length bs = n" "length c = leb128Size (merged_length p)"
    "length (take (header_dest p) data) = header_dest p"
    using fl fd by (auto simp: bs_def c_def)
  have rd1: "rd (take (fh_dest p) data @ y) ?o = Some ?h"
    using b(3) fl by (simp add: rd_def nth_append)
  have rd2: "rd (take (header_dest p) data @ retype_frame ?h # bs @ c @ y) (?o + 1) = Some ?x"
    if "?h AND 0x04 \<noteq> 0"
  proof (cases "pl_metaLength p = 0")
    case True
    with that fd fl lens show ?thesis
      by (auto simp: rd_def nth_append header_dest_def n_def bs_def)
  next
    case False
    with b(4) have "?o + 1 < header_dest p" by (simp add: header_dest_def)
    with lens fd fl show ?thesis by (auto simp: rd_def nth_append)
  qed
  have "write_header (take (header_dest p) data @ g # bs @ c @ y) ?o (header_dest p) (merged_length p) =
    Some (take (header_dest p) data @ retype_frame ?h #
      (if ?h AND 0x04 \<noteq> 0 then [?x] else []) @ leb128 (merged_length p) @ y)"
    by (rule write_header_split)
      (use rd1 rd2 lens split in \<open>simp_all add: n_def\<close>)
  then show ?thesis by (simp add: split merged_obu_header_def Let_def split: if_splits)
qed

lemma length_merged_unit:
  assumes "valid_plan data p" and "length s = pl_fhLength p"
  shows "length (merged_unit data p s) = tg_dest p + payloadLength (pl_tg p)"
proof -
  note b = plan_bounds [OF assms(1)]
  have "s \<noteq> []" using assms(2) b(9) by auto
  then have "length (close_header p s) = pl_fhLength p"
    by (simp add: length_close_header assms(2))
  then show ?thesis
    using b tile_group_bytes [OF assms(1)]
    by (simp add: merged_unit_def metadata_bytes_def length_leb128 tg_dest_def fh_dest_def
        header_dest_def merged_header_length_def del: length_drop)
      (simp add: le_diff_conv2)
qed

text \<open>
  Every access of the rewrite is inside the buffer, and what it leaves there is the merged unit
  built from the frame header bytes the second move found, followed by the old bytes.
\<close>

lemma apply_plan_result:
  assumes v: "valid_plan data p"
  shows "apply_plan data p =
    Some (merged_unit data p (moved_fh data p) @ drop (tg_dest p + payloadLength (pl_tg p)) data,
          tg_dest p + payloadLength (pl_tg p))"
proof -
  note b = plan_bounds [OF v]
  let ?R = "drop (tg_dest p + payloadLength (pl_tg p)) data"
  let ?tgp = "drop (payloadOffset (pl_tg p)) data"
  define s where "s = moved_fh data p"
  have ls: "length s = pl_fhLength p" unfolding s_def by (rule length_moved_fh [OF v])
  then have sn: "s \<noteq> []" using b(9) by auto
  have fl: "length (take (fh_dest p) data) = fh_dest p" using b(1,6) by (simp add: tg_dest_def)
  have meta: "(if pl_metaLength p > 0 then mem_read data (pl_metaOffset p) (pl_metaLength p) else Some [])
      = Some (metadata_bytes data p)"
    using b(8) by (simp add: mem_read_def metadata_bytes_def)
  have lm: "length (metadata_bytes data p) = pl_metaLength p"
    using b(8) by (simp add: metadata_bytes_def)
  have hd: "take (header_dest p) data =
      take (headerOffset (pl_fh p)) data @ take (pl_metaLength p) (drop (headerOffset (pl_fh p)) data)"
    by (simp add: header_dest_def take_add)
  have hl: "header_dest p \<le> length data" "headerOffset (pl_fh p) \<le> length data"
    using b(1,5,6) by (auto simp: header_dest_def)
  have hoist: "(if pl_metaLength p > 0
      then mem_write (take (header_dest p) data @ y) (headerOffset (pl_fh p)) (metadata_bytes data p)
      else Some (take (header_dest p) data @ y)) =
      Some (take (headerOffset (pl_fh p)) data @ metadata_bytes data p @ y)" for y
  proof (cases "pl_metaLength p > 0")
    case True
    then show ?thesis
      unfolding hd append.assoc using hl lm
      by (simp, intro mem_write_split) (auto simp: header_dest_def)
  next
    case False
    then show ?thesis using lm by (simp add: header_dest_def)
  qed
  show ?thesis
    unfolding apply_plan_def Let_def
    unfolding merged_length_def [symmetric] merged_header_length_def [symmetric]
      header_dest_def [symmetric] fh_dest_def [symmetric] tg_dest_def [symmetric]
    by (simp add: meta move_tile_group [OF v] move_frame_header [OF v] clear_stop_bit [OF ls sn fl]
        write_merged_header [OF v] hoist merged_unit_def split del: if_split flip: s_def)
qed

text \<open>
  The first move leaves the frame header bytes alone when it starts behind them: then the merged
  unit is built from the bytes of the input. The last byte may be lost where it is rewritten
  anyway.
\<close>

definition fh_bytes :: "bytes \<Rightarrow> plan \<Rightarrow> bytes" where
  "fh_bytes data p = take (pl_fhLength p) (drop (payloadOffset (pl_fh p)) data)"

definition no_overlap :: "plan \<Rightarrow> bool" where
  "no_overlap p \<longleftrightarrow>
     headerLength (pl_fh p) \<le> pl_metaLength p + merged_header_length p + (if pl_dropLast p then 0 else 1)"

lemma moved_fh_take:
  assumes "valid_plan data p" and "k \<le> pl_fhLength p" and "payloadOffset (pl_fh p) + k \<le> tg_dest p"
  shows "take k (moved_fh data p) = take k (fh_bytes data p)"
proof -
  note b = plan_bounds [OF assms(1)]
  have "take k (drop (payloadOffset (pl_fh p)) (after_tg data p)) =
      take k (drop (payloadOffset (pl_fh p)) (take (tg_dest p) data))"
    using assms(3) b(1,6) by (simp add: after_tg_def)
  also have "\<dots> = take k (drop (payloadOffset (pl_fh p)) data)"
    using assms(3) by (simp add: drop_take min_def)
  finally show ?thesis
    using assms(2) by (simp add: moved_fh_def fh_bytes_def min_def)
qed

lemma close_header_moved:
  assumes v: "valid_plan data p" and "no_overlap p"
  shows "close_header p (moved_fh data p) = close_header p (fh_bytes data p)"
proof -
  let ?n = "pl_fhLength p"
  note b = plan_bounds [OF v]
  have po: "payloadOffset (pl_fh p) = headerOffset (pl_fh p) + headerLength (pl_fh p)"
    using v by (simp add: valid_plan_def geometry_def)
  have lens: "length (moved_fh data p) = ?n" "length (fh_bytes data p) = ?n"
    using b(2) by (simp_all add: length_moved_fh [OF v] fh_bytes_def)
  show ?thesis
  proof (cases "pl_dropLast p")
    case True
    with assms(2) po have "payloadOffset (pl_fh p) + ?n \<le> tg_dest p"
      by (simp add: no_overlap_def tg_dest_def fh_dest_def header_dest_def)
    with moved_fh_take [OF v, of ?n] lens True show ?thesis by (simp add: close_header_def)
  next
    case False
    with assms(2) po b(9) have "payloadOffset (pl_fh p) + (?n - 1) \<le> tg_dest p"
      by (simp add: no_overlap_def tg_dest_def fh_dest_def header_dest_def)
    with moved_fh_take [OF v, of "?n - 1"] lens False show ?thesis
      by (simp add: close_header_def butlast_conv_take)
  qed
qed

section \<open>The bit string of the frame header\<close>

text \<open>
  A frame header payload is its header bits, a one bit and zero bits (AV1 trailing bits). In
  the merged unit the header bits must be followed by zero bits up to the next byte boundary
  only (byte alignment).
\<close>

definition byte_bits :: "byte \<Rightarrow> bool list" where
  "byte_bits b = map (bit b) (rev [0..<8])"

definition bits_of :: "bytes \<Rightarrow> bool list" where
  "bits_of bs = concat (map byte_bits bs)"

text \<open>\<open>b AND (b - 1)\<close> clears the lowest set bit and nothing else.\<close>

lemma clear_lowest_bit:
  fixes b :: byte
  assumes k: "bit b k" and low: "\<And>i. i < k \<Longrightarrow> \<not> bit b i"
  shows "bit (b AND (b - 1)) i \<longleftrightarrow> bit b i \<and> i \<noteq> k"
proof -
  define r where "r = b AND NOT (mask (Suc k))"
  have k8: "k < 8" using k bit_imp_le_length [of b k] by simp
  have rb: "bit r j \<longleftrightarrow> bit b j \<and> k < j" for j
    using bit_imp_le_length [of b j] by (auto simp: r_def bit_simps)
  have e: "bit (2 ^ k :: byte) j \<longleftrightarrow> j = k" for j
    using k8 by (auto simp: bit_exp_iff)
  have m: "bit (mask k :: byte) j \<longleftrightarrow> j < k" for j
    using k8 by (auto simp: bit_mask_iff)
  have "b = r OR 2 ^ k"
    by (rule bit_word_eqI) (use k low in \<open>auto simp: bit_or_iff rb e dest: nat_neq_iff [THEN iffD1]\<close>)
  moreover have "r AND 2 ^ k = 0" "r AND mask k = 0"
    by (rule bit_word_eqI, simp add: bit_and_iff rb e m)+
  ultimately have "b - 1 = r OR mask k"
    by (metis add_diff_eq disjunctive_add_eq_or mask_eq_exp_minus_1)
  then show ?thesis
    using low k by (auto simp: bit_and_iff bit_or_iff rb m dest: nat_neq_iff [THEN iffD1])
qed

lemma bits_of_simps [simp]:
  "bits_of [] = []" "bits_of (b # bs) = byte_bits b @ bits_of bs"
  "bits_of (xs @ ys) = bits_of xs @ bits_of ys"
  by (simp_all add: bits_of_def)

lemma length_byte_bits [simp, length_facts]: "length (byte_bits b) = 8"
  by (simp add: byte_bits_def)

lemma length_bits_of [length_facts]: "length (bits_of bs) = 8 * length bs"
  by (induction bs) auto

lemma bits_of_zeros [simp]: "bits_of (replicate z 0) = replicate (8 * z) False"
proof -
  have "byte_bits 0 = replicate 8 False"
    by (simp add: byte_bits_def upt_rec numeral_eq_Suc flip: rev_map)
  then show ?thesis by (induction z) (simp_all add: replicate_add)
qed

lemma byte_bits_split:
  assumes "k < 8"
  shows "byte_bits b = map (bit b) (rev [Suc k..<8]) @ bit b k # map (bit b) (rev [0..<k])"
proof -
  have "[0..<8] = [0..<k] @ k # [Suc k..<8]"
    using assms upt_add_eq_append [of 0 k "8 - k"] by (simp add: upt_conv_Cons)
  then show ?thesis by (simp add: byte_bits_def)
qed

lemma stop_byte:
  assumes "b \<noteq> 0"
  obtains c k where "byte_bits b = c @ True # replicate k False"
    and "byte_bits (b AND (b - 1)) = c @ False # replicate k False"
    and "Suc (length c + k) = 8" and "b = 0x80 \<longleftrightarrow> c = []"
proof -
  define k where "k = (LEAST i. bit b i)"
  have ex: "\<exists>i. bit b i" using assms by (metis bit_word_eqI bit_0_eq bot_apply bot_bool_def)
  then have bk: "bit b k" unfolding k_def by (rule LeastI_ex)
  have low: "\<not> bit b i" if "i < k" for i using that not_less_Least unfolding k_def by blast
  have k8: "k < 8" using bk bit_imp_le_length [of b k] by simp
  define c where "c = map (bit b) (rev [Suc k..<8])"
  have zeros: "map (bit x) (rev [0..<k]) = replicate k False"
    if "\<And>i. i < k \<Longrightarrow> \<not> bit x i" for x :: byte
    using that by (intro replicate_eqI) auto
  have b80: "bit (0x80 :: byte) i \<longleftrightarrow> i = 7" for i
    using bit_exp_iff [of 7 i, where ?'a = byte] by auto
  show thesis
  proof
    show "byte_bits b = c @ True # replicate k False"
      using byte_bits_split [OF k8, of b] bk zeros [of b] low by (simp add: c_def)
    have "map (bit (b AND (b - 1))) (rev [Suc k..<8]) = c"
      unfolding c_def using clear_lowest_bit [OF bk low] by (auto intro!: map_cong)
    then show "byte_bits (b AND (b - 1)) = c @ False # replicate k False"
      using byte_bits_split [OF k8, of "b AND (b - 1)"] clear_lowest_bit [OF bk low]
        zeros [of "b AND (b - 1)"] low by simp
    show "Suc (length c + k) = 8" using k8 by (simp add: c_def)
    have "b = 0x80 \<longleftrightarrow> k = 7"
    proof
      assume "b = 0x80"
      with bk b80 show "k = 7" by simp
    next
      assume "k = 7"
      show "b = 0x80"
      proof (rule bit_word_eqI)
        fix n assume "n < LENGTH(8)"
        then show "bit b n = bit (0x80 :: byte) n"
          using bk low [of n] b80 [of n] \<open>k = 7\<close> by (cases "n = 7") auto
      qed
    qed
    then show "b = 0x80 \<longleftrightarrow> c = []" using k8 by (auto simp: c_def)
  qed
qed

lemma last_one_unique:
  assumes "xs @ True # replicate k False = ys @ True # replicate j False"
  shows "xs = ys \<and> k = j"
proof -
  have "rev (xs @ True # replicate k False) = rev (ys @ True # replicate j False)"
    using assms by simp
  then have e: "replicate k False @ True # rev xs = replicate j False @ True # rev ys" by simp
  have "takeWhile Not (replicate n False @ True # zs) = replicate n False" for n zs
    by (induction n) auto
  with e have "replicate k False = replicate j False" by metis
  then have "k = j" by (metis length_replicate)
  with e show ?thesis by simp
qed

lemma trim_zeros_split:
  "trim_zeros data off n = Some m \<Longrightarrow> off + n \<le> length data \<Longrightarrow>
   m \<le> n \<and> take n (drop off data) = take m (drop off data) @ replicate (n - m) 0 \<and>
   (0 < m \<longrightarrow> data ! (off + m - 1) \<noteq> 0)"
proof (induction n)
  case (Suc n)
  have b: "rd data (off + n) = Some (data ! (off + n))" using Suc.prems by (simp add: rd_def)
  show ?case
  proof (cases "data ! (off + n) = 0")
    case True
    with Suc b have "m \<le> n" "take n (drop off data) = take m (drop off data) @ replicate (n - m) 0"
      "0 < m \<longrightarrow> data ! (off + m - 1) \<noteq> 0" by auto
    moreover have "take (Suc n) (drop off data) = take n (drop off data) @ [0]"
      using Suc.prems True by (simp add: take_Suc_conv_app_nth)
    moreover have "replicate (Suc n - m) (0 :: byte) = replicate (n - m) 0 @ [0]"
      using \<open>m \<le> n\<close> by (simp add: Suc_diff_le replicate_append_same)
    ultimately show ?thesis by simp
  next
    case False
    with Suc b show ?thesis by auto
  qed
qed simp

lemma byte_aligned:
  assumes "bits_of (q @ [b]) @ replicate z False = B @ True # replicate k False" and "b \<noteq> 0"
  shows "bits_of (if b = 0x80 then q else q @ [b AND (b - 1)]) =
    B @ replicate (nat (- int (length B) mod 8)) False"
proof -
  obtain c j where b: "byte_bits b = c @ True # replicate j False"
    and b': "byte_bits (b AND (b - 1)) = c @ False # replicate j False"
    and len: "Suc (length c + j) = 8" and c: "b = 0x80 \<longleftrightarrow> c = []"
    using stop_byte [OF assms(2)] by blast
  have "(bits_of q @ c) @ True # replicate (j + z) False = B @ True # replicate k False"
    using assms(1) by (simp add: b replicate_add)
  then have B: "B = bits_of q @ c" using last_one_unique by blast
  show ?thesis
  proof (cases "b = 0x80")
    case True
    with B c show ?thesis by (simp add: length_bits_of zmod_zminus1_eq_if)
  next
    case False
    with c have lc: "0 < length c" by simp
    have "- int (length B) mod 8 = 8 - int (length c)"
    proof -
      have "- int (length B) = (8 - int (length c)) + 8 * (- int (length q) - 1)"
        by (simp add: B length_bits_of)
      also have "\<dots> mod 8 = (8 - int (length c)) mod 8" by (rule mod_mult_self2)
      also have "\<dots> = 8 - int (length c)"
        by (rule mod_pos_pos_trivial) (use lc len in auto)
      finally show ?thesis .
    qed
    moreover have "nat (8 - int (length c)) = Suc j" using len by simp
    ultimately show ?thesis using False by (simp add: B b')
  qed
qed

lemma finish_plan_close:
  assumes g: "geometry data fh tg mo ml" and p: "finish_plan data fh tg mo ml = Some (Some p)"
    and bits: "bits_of (take (payloadLength fh) (drop (payloadOffset fh) data)) = B @ True # replicate k False"
  shows "bits_of (close_header p (fh_bytes data p)) = B @ replicate (nat (- int (length B) mod 8)) False"
proof -
  let ?off = "payloadOffset fh" and ?len = "payloadLength fh"
  have le: "?off + ?len \<le> length data" using g unfolding geometry_def by linarith
  obtain m where m: "trim_zeros data ?off ?len = Some m" using trim_zeros_spec [OF le] by blast
  note t = trim_zeros_split [OF m le]
  from p m have "m \<noteq> 0" by (auto simp: finish_plan_def split: if_splits)
  then obtain i where i: "m = Suc i" by (cases m) auto
  define b where "b = data ! (?off + i)"
  have rb: "rd data (?off + m - 1) = Some b" using t le i by (simp add: rd_def b_def)
  have b0: "b \<noteq> 0" using t i by (simp add: b_def)
  define q where "q = take i (drop ?off data)"
  have tm: "take m (drop ?off data) = q @ [b]"
  proof -
    have "?off + i < length data" using t le i by linarith
    then show ?thesis using take_Suc_conv_app_nth [of i "drop ?off data"]
      by (simp add: q_def b_def i add.commute)
  qed
  define n where "n = (if b = 0x80 then m - 1 else m)"
  have "finish_plan data fh tg mo ml = (if n = 0 then Some None else
      Some (Some \<lparr>pl_fh = fh, pl_tg = tg, pl_metaOffset = mo, pl_metaLength = ml,
      pl_fhLength = n, pl_lastByte = b AND (b - 1), pl_dropLast = (b = 0x80)\<rparr>))"
    using \<open>m \<noteq> 0\<close> by (simp only: finish_plan_def Let_def n_def m rb option.case if_False)
  with p have pe: "p = \<lparr>pl_fh = fh, pl_tg = tg, pl_metaOffset = mo, pl_metaLength = ml,
      pl_fhLength = n, pl_lastByte = b AND (b - 1), pl_dropLast = (b = 0x80)\<rparr>"
    by (simp split: if_splits)
  have "close_header p (fh_bytes data p) = (if b = 0x80 then q else q @ [b AND (b - 1)])"
  proof (cases "b = 0x80")
    case True
    then have "fh_bytes data p = q" by (simp add: fh_bytes_def pe n_def i q_def)
    with True show ?thesis by (simp add: close_header_def pe)
  next
    case False
    then have "fh_bytes data p = q @ [b]" using tm by (simp add: fh_bytes_def pe n_def)
    with False show ?thesis by (simp add: close_header_def pe)
  qed
  moreover have "bits_of (q @ [b]) @ replicate (8 * (?len - m)) False = B @ True # replicate k False"
  proof -
    have "take ?len (drop ?off data) = (q @ [b]) @ replicate (?len - m) 0"
      using t unfolding tm by blast
    from bits [unfolded this bits_of_simps(3) [of "q @ [b]"] bits_of_zeros] show ?thesis .
  qed
  ultimately show ?thesis by (simp only: byte_aligned [OF _ b0])
qed

section \<open>Properties\<close>

lemma parse_tiles: "parseObus data = Some (Some obus) \<Longrightarrow> tiles data 0 obus"
  using parse_from_tiles [of data 0 0 obus] by (simp add: parseObus_def)

lemma repack_cases:
  obtains (leave) "repackAv1TemporalUnit data = Some (data, length data)"
  | (rewrite) obus p where "parseObus data = Some (Some obus)" "make_plan data obus = Some (Some p)"
      "valid_plan data p" "repackAv1TemporalUnit data = apply_plan data p"
proof -
  obtain r where r: "parseObus data = Some r" using parse_from_safe [of data 0 0] by (auto simp: parseObus_def)
  show ?thesis
  proof (cases "r = None \<or> r = Some []")
    case True
    with r leave show ?thesis by (auto simp: repackAv1TemporalUnit_def)
  next
    case False
    then obtain ob os where o: "r = Some (ob # os)" by (metis list.exhaust option.exhaust)
    then have pr: "parseObus data = Some (Some (ob # os))" using r by simp
    note t = parse_tiles [OF pr]
    show ?thesis
    proof (cases rule: make_plan_cases [OF t])
      case 1
      then show ?case by simp
    next
      case 2
      with r o leave show ?thesis by (simp add: repackAv1TemporalUnit_def)
    next
      case (3 fh tg mo ml)
      show ?thesis
        using finish_plan_cases [OF 3(1)]
        by cases (use r o leave rewrite 3(2) in \<open>auto simp: repackAv1TemporalUnit_def\<close>)
    qed
  qed
qed

text \<open>
  C27: on every buffer the rewriter returns without reading or writing outside it, keeps the
  buffer's size, and never reports a length larger than the original.
\<close>

theorem repack_memory_safe:
  "\<exists>buf n. repackAv1TemporalUnit data = Some (buf, n) \<and> length buf = length data \<and> n \<le> length data"
proof (cases data rule: repack_cases)
  case leave
  then show ?thesis by simp
next
  case (rewrite obus p)
  note b = plan_bounds [OF rewrite(3)]
  have "tg_dest p + payloadLength (pl_tg p) \<le> length data" using b by linarith
  with rewrite length_merged_unit [OF rewrite(3) length_moved_fh [OF rewrite(3)]]
  show ?thesis by (simp add: apply_plan_result)
qed

text \<open>
  C8: when a unit is rewritten and the moves do not overlap harmfully, the result is the
  preamble, the hoisted metadata, the retyped header with the new leb128 size, the frame header
  bits with their stop bit replaced by byte alignment, and the tile group.
\<close>

theorem repack_merges:
  assumes "parseObus data = Some (Some obus)" and "make_plan data obus = Some (Some p)"
    and "no_overlap p"
    and "bits_of (take (payloadLength (pl_fh p)) (drop (payloadOffset (pl_fh p)) data))
         = B @ True # replicate k False"
  shows "\<exists>H rest n. repackAv1TemporalUnit data =
      Some (take (headerOffset (pl_fh p)) data @ metadata_bytes data p @ merged_obu_header data p @
            leb128 (merged_length p) @ H @ drop (payloadOffset (pl_tg p)) data @ rest, n)
    \<and> bits_of H = B @ replicate (nat (- int (length B) mod 8)) False
    \<and> n + length rest = length data"
proof -
  have ne: "obus \<noteq> []" using assms(2) by (auto simp: make_plan_def)
  note t = parse_tiles [OF assms(1)]
  obtain fh tg mo ml where g: "geometry data fh tg mo ml"
    and f: "finish_plan data fh tg mo ml = Some (Some p)"
    by (cases rule: make_plan_cases [OF t ne]) (use assms(2) in auto)
  have v: "valid_plan data p" using finish_plan_cases [OF g] f by auto
  have fh: "pl_fh p = fh" using f by (auto simp: finish_plan_def Let_def split: if_splits option.splits)
  have run: "repackAv1TemporalUnit data = apply_plan data p"
    using assms(1,2) ne by (cases obus) (simp_all add: repackAv1TemporalUnit_def)
  have len: "length (merged_unit data p (moved_fh data p)) = tg_dest p + payloadLength (pl_tg p)"
    by (rule length_merged_unit [OF v length_moved_fh [OF v]])
  have "tg_dest p + payloadLength (pl_tg p) \<le> length data" using plan_bounds(1,6) [OF v] by linarith
  with finish_plan_close [OF g f] assms(4) fh show ?thesis
    unfolding run apply_plan_result [OF v] merged_unit_def close_header_moved [OF v assms(3)]
    by (intro exI [of _ "close_header p (fh_bytes data p)"]
        exI [of _ "drop (tg_dest p + payloadLength (pl_tg p)) data"]
        exI [of _ "tg_dest p + payloadLength (pl_tg p)"]) simp
qed

text \<open>
  with a size field longer than necessary the first move can run over frame header bytes
  that the second one still has to read: the payload \<open>AA BB C0\<close> of this unit, whose size
  is written in three bytes, comes out as \<open>AA 11 80\<close> with a byte of the tile group.
\<close>

theorem repack_overlap_corrupts:
  "repackAv1TemporalUnit [0x1A, 0x83, 0x80, 0x00, 0xAA, 0xBB, 0xC0, 0x22, 0x02, 0x11, 0x22]
   = Some ([0x32, 0x05, 0xAA, 0x11, 0x80, 0x11, 0x22, 0x22, 0x02, 0x11, 0x22], 7)"
  by code_simp

theorem repack_merges_witness:
  "\<exists>H rest n. repackAv1TemporalUnit [0x1A, 2, 0xAA, 0xC0, 0x22, 2, 0x11, 0x22] =
      Some ([] @ [] @ [0x32] @ [4] @ H @ [0x11, 0x22] @ rest, n)
    \<and> bits_of H = (byte_bits 0xAA @ [True]) @ replicate 7 False
    \<and> n + length rest = 8"
proof -
  define fh where "fh = \<lparr>obu_type = 3, headerOffset = 0, headerLength = 2, sizeBytes = 1,
      payloadOffset = 2, payloadLength = 2\<rparr>"
  define tg where "tg = \<lparr>obu_type = 4, headerOffset = 4, headerLength = 2, sizeBytes = 1,
      payloadOffset = 6, payloadLength = 2\<rparr>"
  define p where "p = \<lparr>pl_fh = fh, pl_tg = tg, pl_metaOffset = 4, pl_metaLength = 0,
      pl_fhLength = 2, pl_lastByte = 0x80, pl_dropLast = False\<rparr>"
  let ?d = "[0x1A, 2, 0xAA, 0xC0, 0x22, 2, 0x11, 0x22] :: bytes"
  have a: "parseObus ?d = Some (Some [fh, tg])" unfolding fh_def tg_def by code_simp
  have b: "make_plan ?d [fh, tg] = Some (Some p)" unfolding p_def fh_def tg_def by code_simp
  have c: "no_overlap p" unfolding p_def fh_def tg_def by code_simp
  have d: "bits_of (take (payloadLength (pl_fh p)) (drop (payloadOffset (pl_fh p)) ?d))
      = (byte_bits 0xAA @ [True]) @ True # replicate 6 False"
    unfolding p_def fh_def tg_def by code_simp
  have e: "take (headerOffset (pl_fh p)) ?d = []" "metadata_bytes ?d p = []"
    "merged_obu_header ?d p = [0x32]" "leb128 (merged_length p) = [4]"
    "drop (payloadOffset (pl_tg p)) ?d = [0x11, 0x22]" "length ?d = 8"
    "nat (- int (length (byte_bits 0xAA @ [True])) mod 8) = 7"
    unfolding p_def fh_def tg_def by code_simp+
  show ?thesis using repack_merges [OF a b c d] unfolding e .
qed

end
