(* ===== verification/BandwidthTracking.thy ===== *)
theory BandwidthTracking
  imports Complex_Main Prelude
begin

text \<open>
  The sliding-window bandwidth statistics (\<open>src/app/streaming/bwtracker.cpp\<close>): a ring of byte counts
  per time interval. Times are nanoseconds of the steady clock, counted from its epoch; byte counts are
  words of 64 bits, \<open>size_t\<close> on the platforms of the client; the rates, doubles in the code, are real
  numbers. A division by zero and an index that is negative as an \<open>int\<close> are \<open>None\<close>.
\<close>

section \<open>State\<close>

record bucket =
  start :: nat
  nbytes :: u64

record tracker =
  window_s :: nat
  interval_ms :: nat
  bucket_count :: nat
  buckets :: "bucket list"

definition empty_bucket :: bucket where
  "empty_bucket = \<lparr>start = 0, nbytes = 0\<rparr>"

text \<open>
  The constructor. The test for a missing interval assigns to the parameter, which shadows the
  member of the same name: the member keeps the value it was initialised with.
\<close>

definition new_tracker :: "u32 \<Rightarrow> u32 \<Rightarrow> tracker" where
  "new_tracker windowSeconds bucketIntervalMs =
     (let member = unat bucketIntervalMs;
          parameter = (if bucketIntervalMs = 0 then 250 else bucketIntervalMs);
          n = unat ((windowSeconds * 1000) div parameter)
      in \<lparr>window_s = unat windowSeconds, interval_ms = member, bucket_count = n,
          buckets = replicate n empty_bucket\<rparr>)"

section \<open>Operations\<close>

definition ms_of :: "nat \<Rightarrow> nat" where
  "ms_of now = now div 1000000"

definition ns_of_ms :: "nat \<Rightarrow> nat" where
  "ns_of_ms ms = ms * 1000000"

definition isValid :: "tracker \<Rightarrow> bucket \<Rightarrow> nat \<Rightarrow> bool" where
  "isValid t b now \<longleftrightarrow> int now - int (start b) \<le> int (window_s t * 1000000000)"

text \<open>\<open>updateBucket\<close>, called by \<open>AddBytes\<close> with the current time.\<close>

definition AddBytes :: "u64 \<Rightarrow> nat \<Rightarrow> tracker \<Rightarrow> tracker option" where
  "AddBytes bytes now t =
     (if interval_ms t = 0 \<or> bucket_count t = 0 then None
      else
        let ms = ms_of now;
            idx = (ms div interval_ms t) mod bucket_count t;
            aligned = ms - ms mod interval_ms t;
            bstart = ns_of_ms aligned;
            b = buckets t ! idx;
            b1 = (if \<not> isValid t b now then b\<lparr>nbytes := 0, start := bstart\<rparr> else b);
            b2 = (if start b1 \<noteq> bstart then b1\<lparr>nbytes := bytes, start := bstart\<rparr>
                  else b1\<lparr>nbytes := nbytes b1 + bytes\<rparr>)
        in if 2 ^ 31 \<le> idx then None else Some (t\<lparr>buckets := (buckets t)[idx := b2]\<rparr>))"

text \<open>The buckets the average loop sums, newest slot first, and the loop's two results.\<close>

definition average_buckets :: "tracker \<Rightarrow> nat \<Rightarrow> bucket list" where
  "average_buckets t now =
     (let cur = (ms_of now div interval_ms t) mod bucket_count t;
          slots = map (\<lambda>i. (cur + bucket_count t - i) mod bucket_count t) [0..<bucket_count t div 4]
      in filter (\<lambda>b. isValid t b now \<and> int now - int (start b) \<ge> int (ns_of_ms (interval_ms t)))
           (map ((!) (buckets t)) slots))"

definition GetAverageMbps :: "nat \<Rightarrow> tracker \<Rightarrow> real option" where
  "GetAverageMbps now t =
     (if interval_ms t = 0 \<or> bucket_count t = 0 then None
      else
        let bs = average_buckets t now;
            total = sum_list (map nbytes bs);
            oldest = foldl (\<lambda>m b. if start b < m then start b else m) now bs;
            elapsed = (real now - real oldest) / 10 ^ 9
        in Some (if elapsed \<le> 0 then 0 else real (unat total) * 8 / 10 ^ 6 / elapsed))"

definition getBucketMbps :: "tracker \<Rightarrow> bucket \<Rightarrow> real" where
  "getBucketMbps t b = real (unat (nbytes b)) * 8 / 10 ^ 6 / (real (interval_ms t) / 1000)"

definition GetPeakMbps :: "nat \<Rightarrow> tracker \<Rightarrow> real" where
  "GetPeakMbps now t =
     foldl (\<lambda>peak b. if isValid t b now
                      then (if getBucketMbps t b > peak then getBucketMbps t b else peak) else peak)
       0 (buckets t)"

definition GetWindowSeconds :: "tracker \<Rightarrow> nat" where
  "GetWindowSeconds t = window_s t"

section \<open>Against the history of what was added\<close>

text \<open>
  The reference: the whole history of additions, each with its time. An interval's total is the
  sum of what was added during it, a number without bound; a slot keeps it modulo two to the power of 64.
\<close>

type_synonym history = "(nat \<times> u64) list"

definition interval_of :: "tracker \<Rightarrow> nat \<Rightarrow> nat" where
  "interval_of t now = ms_of now div interval_ms t"

definition interval_start :: "tracker \<Rightarrow> nat \<Rightarrow> nat" where
  "interval_start t j = ns_of_ms (j * interval_ms t)"

definition interval_total :: "tracker \<Rightarrow> history \<Rightarrow> nat \<Rightarrow> nat" where
  "interval_total t h j = sum_list (map (\<lambda>e. unat (snd e)) (filter (\<lambda>e. interval_of t (fst e) = j) h))"

definition interval_bytes :: "tracker \<Rightarrow> history \<Rightarrow> nat \<Rightarrow> u64" where
  "interval_bytes t h j = of_nat (interval_total t h j)"

fun add_all :: "history \<Rightarrow> tracker \<Rightarrow> tracker option" where
  "add_all [] t = Some t"
| "add_all ((now, b) # h) t = (case AddBytes b now t of None \<Rightarrow> None | Some t' \<Rightarrow> add_all h t')"

definition in_slot :: "tracker \<Rightarrow> history \<Rightarrow> nat \<Rightarrow> nat list" where
  "in_slot t h k = filter (\<lambda>j. j mod bucket_count t = k) (map (\<lambda>e. interval_of t (fst e)) h)"

text \<open>What slot \<open>k\<close> should hold: the last interval of the history that falls into it.\<close>

definition slot_spec :: "tracker \<Rightarrow> history \<Rightarrow> nat \<Rightarrow> bucket" where
  "slot_spec t h k =
     (if in_slot t h k = [] then empty_bucket
      else let j = last (in_slot t h k)
           in \<lparr>start = interval_start t j, nbytes = interval_bytes t h j\<rparr>)"

definition well_sized :: "tracker \<Rightarrow> bool" where
  "well_sized t \<longleftrightarrow> 0 < interval_ms t \<and> 0 < bucket_count t \<and> bucket_count t \<le> 2 ^ 31 \<and> interval_ms t \<le> window_s t * 1000
     \<and> length (buckets t) = bucket_count t"

definition same_shape :: "tracker \<Rightarrow> tracker \<Rightarrow> bool" where
  "same_shape t t' \<longleftrightarrow> interval_ms t' = interval_ms t \<and> bucket_count t' = bucket_count t
     \<and> window_s t' = window_s t"

lemma same_shape_cong:
  assumes "same_shape t t'"
  shows "interval_of t' = interval_of t" "interval_start t' = interval_start t"
    "interval_total t' = interval_total t" "interval_bytes t' = interval_bytes t" "slot_spec t' = slot_spec t" "in_slot t' = in_slot t"
proof -
  show i: "interval_of t' = interval_of t" "interval_start t' = interval_start t"
    using assms by (auto simp: fun_eq_iff interval_of_def interval_start_def same_shape_def)
  then show tot: "interval_total t' = interval_total t"
    by (auto simp: fun_eq_iff interval_total_def)
  then show bytes: "interval_bytes t' = interval_bytes t" by (auto simp: fun_eq_iff interval_bytes_def)
  show sl: "in_slot t' = in_slot t"
    using assms i by (auto simp: fun_eq_iff in_slot_def same_shape_def)
  show "slot_spec t' = slot_spec t"
    by (auto simp: fun_eq_iff slot_spec_def bytes sl i)
qed

lemma interval_bounds:
  assumes "0 < interval_ms t"
  shows "interval_start t (interval_of t now) \<le> now
       \<and> now < interval_start t (interval_of t now) + ns_of_ms (interval_ms t)"
proof -
  define ms where "ms = now div 1000000"
  define a where "a = (ms div interval_ms t) * interval_ms t"
  have "ms = a + ms mod interval_ms t" by (simp add: a_def)
  moreover have "ms mod interval_ms t < interval_ms t" using assms by simp
  ultimately have "a \<le> ms" "ms + 1 \<le> a + interval_ms t" by linarith+
  moreover have "ms * 1000000 \<le> now" "now < (ms + 1) * 1000000"
    using div_mult_mod_eq [of now 1000000] mod_less_divisor [of 1000000 now]
    unfolding ms_def by (linarith, simp add: distrib_right)
  moreover have "(ms + 1) * 1000000 \<le> (a + interval_ms t) * 1000000"
    using \<open>ms + 1 \<le> a + interval_ms t\<close> by (rule mult_le_mono1)
  ultimately have "a * 1000000 \<le> now" "now < a * 1000000 + interval_ms t * 1000000"
    by (linarith, simp add: distrib_right)
  then show ?thesis
    by (simp add: interval_start_def interval_of_def ns_of_ms_def ms_of_def a_def ms_def)
qed

lemma interval_mono: "s \<le> now \<Longrightarrow> interval_of t s \<le> interval_of t now"
  by (simp add: interval_of_def ms_of_def div_le_mono)

lemma aligned_start:
  "0 < interval_ms t \<Longrightarrow>
     ns_of_ms (ms_of now - ms_of now mod interval_ms t) = interval_start t (interval_of t now)"
  by (simp add: interval_start_def interval_of_def minus_mod_eq_div_mult)

lemma interval_start_inj:
  "0 < interval_ms t \<Longrightarrow> interval_start t i = interval_start t j \<longleftrightarrow> i = j"
  by (simp add: interval_start_def ns_of_ms_def)

lemma interval_start_mono:
  "i \<le> j \<Longrightarrow> interval_start t i \<le> interval_start t j"
  by (simp add: interval_start_def ns_of_ms_def)

lemma sorted_le_last: "sorted xs \<Longrightarrow> x \<in> set xs \<Longrightarrow> x \<le> last xs"
  by (induction xs) auto

text \<open>The state after a history: each slot holds its interval.\<close>

definition tracks :: "tracker \<Rightarrow> history \<Rightarrow> bool" where
  "tracks t h \<longleftrightarrow> well_sized t \<and> (\<forall>k<bucket_count t. buckets t ! k = slot_spec t h k)"

lemma interval_total_snoc:
  "interval_total t (h @ [(now, b)]) j =
     interval_total t h j + (if interval_of t now = j then unat b else 0)"
  by (simp add: interval_total_def)

lemma interval_bytes_snoc:
  "interval_bytes t (h @ [(now, b)]) j = interval_bytes t h j + (if interval_of t now = j then b else 0)"
  by (simp add: interval_bytes_def interval_total_snoc)

lemma in_slot_snoc:
  "in_slot t (h @ [(now, b)]) k =
     in_slot t h k @ (if interval_of t now mod bucket_count t = k then [interval_of t now] else [])"
  by (simp add: in_slot_def)

lemma interval_total_fresh:
  assumes "j \<notin> set (map (\<lambda>e. interval_of t (fst e)) h)"
  shows "interval_total t h j = 0" and "interval_bytes t h j = 0"
proof -
  have "filter (\<lambda>e. interval_of t (fst e) = j) h = []"
    using assms by (auto simp: filter_empty_conv)
  then show "interval_total t h j = 0" "interval_bytes t h j = 0" by (simp_all add: interval_bytes_def interval_total_def)
qed

lemma AddBytes_tracks:
  assumes tr: "tracks t h" and sorted: "sorted (map fst (h @ [(now, b)]))"
  obtains t' where "AddBytes b now t = Some t'" "same_shape t t'" "tracks t' (h @ [(now, b)])"
proof -
  let ?I = "interval_ms t" and ?n = "bucket_count t"
  let ?j = "interval_of t now"
  let ?k = "?j mod ?n"
  let ?s = "interval_start t ?j"
  have sz: "0 < ?I" "0 < ?n" "?n \<le> 2 ^ 31" "?I \<le> window_s t * 1000" "length (buckets t) = ?n"
    using tr by (auto simp: tracks_def well_sized_def)
  have k: "?k < ?n" "\<not> 2 ^ 31 \<le> ?k" using sz mod_less_divisor [of ?n ?j] by (simp, linarith)
  let ?b = "slot_spec t h ?k"
  have bk: "buckets t ! ?k = ?b" using tr k(1) by (simp add: tracks_def)
  have age: "?s \<le> now \<and> now < ?s + ns_of_ms ?I" by (rule interval_bounds [OF sz(1)])
  have window: "ns_of_ms ?I \<le> window_s t * 1000000000" using sz(4) by (simp add: ns_of_ms_def)
  define b2 where "b2 = (let b1 = (if \<not> isValid t ?b now then ?b\<lparr>nbytes := 0, start := ?s\<rparr> else ?b)
      in if start b1 \<noteq> ?s then b1\<lparr>nbytes := b, start := ?s\<rparr> else b1\<lparr>nbytes := nbytes b1 + b\<rparr>)"
  have add: "AddBytes b now t = Some (t\<lparr>buckets := (buckets t)[?k := b2]\<rparr>)"
    using sz bk k by (simp add: AddBytes_def Let_def aligned_start b2_def flip: interval_of_def)
  have b2: "b2 = slot_spec t (h @ [(now, b)]) ?k"
  proof (cases "in_slot t h ?k = []")
    case True
    have "?j \<notin> set (map (\<lambda>e. interval_of t (fst e)) h)"
      using True by (auto simp: in_slot_def filter_empty_conv)
    then have "interval_bytes t h ?j = 0" by (rule interval_total_fresh(2))
    then show ?thesis
      using True by (simp add: b2_def slot_spec_def in_slot_snoc interval_bytes_snoc empty_bucket_def Let_def)
  next
    case False
    let ?i = "last (in_slot t h ?k)"
    have "?i \<in> set (in_slot t h ?k)" using False by simp
    then have "?i \<in> set (map (\<lambda>e. interval_of t (fst e)) h)" unfolding in_slot_def by auto
    then have "?i \<le> ?j" using sorted by (fastforce simp: sorted_append intro: interval_mono)
    have ib: "?b = \<lparr>start = interval_start t ?i, nbytes = interval_bytes t h ?i\<rparr>"
      using False by (simp add: slot_spec_def Let_def)
    show ?thesis
    proof (cases "?i = ?j")
      case True
      then have "isValid t ?b now" using age window ib by (simp add: isValid_def)
      then show ?thesis using ib True False
        by (simp add: b2_def slot_spec_def in_slot_snoc interval_bytes_snoc Let_def)
    next
      case ne: False
      have "?j \<notin> set (map (\<lambda>e. interval_of t (fst e)) h)"
      proof
        assume "?j \<in> set (map (\<lambda>e. interval_of t (fst e)) h)"
        have srt: "sorted (map (\<lambda>e. interval_of t (fst e)) h)"
          using sorted by (auto simp: sorted_append sorted_map intro: sorted_wrt_mono_rel [rotated] interval_mono)
        then have "sorted (in_slot t h ?k)" by (simp add: in_slot_def sorted_wrt_filter)
        moreover have "?j \<in> set (in_slot t h ?k)"
          using \<open>?j \<in> _\<close> by (auto simp: in_slot_def)
        ultimately have "?j \<le> ?i" by (rule sorted_le_last)
        then show False using \<open>?i \<le> ?j\<close> ne by simp
      qed
      then have tot: "interval_bytes t h ?j = 0" by (rule interval_total_fresh(2))
      have "interval_start t ?i \<noteq> ?s" using ne sz(1) by (simp add: interval_start_inj)
      then show ?thesis using ib tot
        by (simp add: b2_def slot_spec_def in_slot_snoc interval_bytes_snoc Let_def)
    qed
  qed
  let ?t = "t\<lparr>buckets := (buckets t)[?k := b2]\<rparr>"
  have sh: "same_shape t ?t" by (simp add: same_shape_def)
  have other: "slot_spec t (h @ [(now, b)]) m = slot_spec t h m" if "m \<noteq> ?k" for m
  proof -
    have "?j \<noteq> last (in_slot t h m)" if "in_slot t h m \<noteq> []"
    proof -
      have "last (in_slot t h m) \<in> set (in_slot t h m)" using that by simp
      then have "last (in_slot t h m) mod ?n = m" by (auto simp: in_slot_def)
      then show ?thesis using \<open>m \<noteq> ?k\<close> by auto
    qed
    then show ?thesis using that
      by (auto simp: slot_spec_def in_slot_snoc interval_bytes_snoc Let_def)
  qed
  have "tracks ?t (h @ [(now, b)])"
    unfolding tracks_def same_shape_cong(5) [OF sh]
    using tr b2 other k sz by (auto simp: tracks_def well_sized_def nth_list_update)
  then show ?thesis using that [OF add sh] by simp
qed

lemma add_all_tracks:
  assumes "tracks t h" and "sorted (map fst (h @ h'))"
  shows "\<exists>t'. add_all h' t = Some t' \<and> same_shape t t' \<and> tracks t' (h @ h')"
  using assms
proof (induction h' arbitrary: t h)
  case Nil
  then show ?case by (simp add: same_shape_def)
next
  case (Cons e h')
  obtain now b where e: "e = (now, b)" by (cases e)
  have "sorted (map fst (h @ [(now, b)]))" using Cons.prems(2) e by (auto simp: sorted_append)
  from AddBytes_tracks [OF Cons.prems(1) this] obtain t1 where
    t1: "AddBytes b now t = Some t1" "same_shape t t1" "tracks t1 (h @ [(now, b)])" .
  have "sorted (map fst ((h @ [(now, b)]) @ h'))" using Cons.prems(2) e by simp
  from Cons.IH [OF t1(3) this] obtain t2 where
    "add_all h' t1 = Some t2" "same_shape t1 t2" "tracks t2 (h @ e # h')" using e by auto
  then show ?case using t1 e by (auto simp: same_shape_def)
qed

text \<open>A window that can be built: a non-zero interval, no longer than the window, no wrap-around of an \<open>int\<close>.\<close>

definition sane :: "u32 \<Rightarrow> u32 \<Rightarrow> bool" where
  "sane w i \<longleftrightarrow> 0 < unat i \<and> unat i \<le> unat w * 1000 \<and> unat w * 1000 < 2 ^ 31"

lemma new_tracker_shape:
  assumes "sane w i"
  shows "interval_ms (new_tracker w i) = unat i" "window_s (new_tracker w i) = unat w"
    "bucket_count (new_tracker w i) = unat w * 1000 div unat i"
    "buckets (new_tracker w i) = replicate (unat w * 1000 div unat i) empty_bucket"
proof -
  have "unat (w * 1000) = unat w * 1000" using assms by (simp add: sane_def unat_word_ariths)
  moreover have "i \<noteq> 0" using assms by (auto simp: sane_def)
  ultimately show "interval_ms (new_tracker w i) = unat i" "window_s (new_tracker w i) = unat w"
    "bucket_count (new_tracker w i) = unat w * 1000 div unat i"
    "buckets (new_tracker w i) = replicate (unat w * 1000 div unat i) empty_bucket"
    by (simp_all add: new_tracker_def Let_def unat_div_distrib)
qed

lemma new_tracks: "sane w i \<Longrightarrow> tracks (new_tracker w i) []"
  using div_le_dividend [of "unat w * 1000" "unat i"]
  by (auto simp: tracks_def well_sized_def new_tracker_shape slot_spec_def in_slot_def sane_def
      div_greater_zero_iff simp del: div_le_dividend)

text \<open>
  C35: the ring forgets nothing it should know. After any additions in order of time, the slot of
  an interval holds that interval's start and its total as a word of 64 bits, which is the exact total
  whenever that is below two to the power of 64, unless a later interval fell into the same slot; and no
  addition divides by zero, in every tracker whose interval is positive and no longer than its window.
\<close>

theorem ring_holds_totals:
  assumes "sane w i" and "sorted (map fst h)"
  shows "\<exists>t. add_all h (new_tracker w i) = Some t \<and> same_shape (new_tracker w i) t
       \<and> (\<forall>k<bucket_count t. buckets t ! k = slot_spec t h k)
       \<and> (\<forall>j. interval_total t h j < 2 ^ 64 \<longrightarrow> unat (interval_bytes t h j) = interval_total t h j)"
  using add_all_tracks [OF new_tracks [OF assms(1)], of h] assms(2)
  by (auto simp: tracks_def interval_bytes_def unat_of_nat take_bit_nat_eq_self)

section \<open>The peak\<close>

lemma isValid_nat: "isValid t b now \<longleftrightarrow> now \<le> start b + window_s t * 1000000000"
  unfolding isValid_def by linarith

lemma peak_fold:
  fixes r :: "bucket \<Rightarrow> real" and V :: "bucket \<Rightarrow> bool"
  defines "f \<equiv> \<lambda>peak b. if V b then (if r b > peak then r b else peak) else peak"
  shows "p \<le> foldl f p bs \<and> (\<forall>b\<in>set bs. V b \<longrightarrow> r b \<le> foldl f p bs)
       \<and> (foldl f p bs = p \<or> (\<exists>b\<in>set bs. V b \<and> foldl f p bs = r b))"
proof (induction bs arbitrary: p)
  case (Cons b bs)
  show ?case using Cons.IH [of "f p b"] by (auto simp: f_def)
qed simp

definition interval_rate :: "tracker \<Rightarrow> history \<Rightarrow> nat \<Rightarrow> real" where
  "interval_rate t h j = real (unat (interval_bytes t h j)) * 8 / 10 ^ 6 / (real (interval_ms t) / 1000)"

lemma last_interval_of_slot:
  assumes srt: "sorted (map fst (h @ [(now, b)]))" and "0 < interval_ms t" "0 < bucket_count t"
    and j: "j \<in> set (map (\<lambda>e. interval_of t (fst e)) h)"
    and young: "now < interval_start t (j + bucket_count t)"
  shows "in_slot t h (j mod bucket_count t) \<noteq> [] \<and> last (in_slot t h (j mod bucket_count t)) = j"
proof -
  let ?l = "in_slot t h (j mod bucket_count t)"
  have mem: "j \<in> set ?l" using j by (auto simp: in_slot_def)
  then have ne: "?l \<noteq> []" by auto
  have "sorted (map (\<lambda>e. interval_of t (fst e)) h)"
    using srt by (auto simp: sorted_append sorted_map intro: sorted_wrt_mono_rel [rotated] interval_mono)
  then have "sorted ?l" by (simp add: in_slot_def sorted_wrt_filter)
  then have ge: "j \<le> last ?l" using mem by (rule sorted_le_last)
  have l: "last ?l \<in> set ?l" using ne by simp
  then have cong: "last ?l mod bucket_count t = j mod bucket_count t" by (auto simp: in_slot_def)
  obtain e where e: "e \<in> set h" "last ?l = interval_of t (fst e)" using l by (auto simp: in_slot_def)
  have "interval_start t (last ?l) \<le> fst e" using interval_bounds [of t "fst e"] assms(2) e by simp
  also have "fst e \<le> now" using srt e by (auto simp: sorted_append)
  finally have "last ?l < j + bucket_count t"
    using young interval_start_mono [of "j + bucket_count t" "last ?l" t] by (meson leD le_less_trans not_le)
  moreover obtain d where "last ?l = j + d" using ge le_Suc_ex by blast
  ultimately have d: "d < bucket_count t" "(j + d) mod bucket_count t = j mod bucket_count t"
    using cong by auto
  then have "bucket_count t dvd d" by (simp add: mod_eq_dvd_iff_nat)
  then have "d = 0" using d(1) by (auto dest: dvd_imp_le)
  then show ?thesis using ne \<open>last ?l = j + d\<close> by simp
qed

lemma exact_window:
  assumes "window_s t * 1000 = bucket_count t * interval_ms t"
  shows "interval_start t (j + bucket_count t) = interval_start t j + window_s t * 1000000000"
proof -
  have "(j + bucket_count t) * interval_ms t = j * interval_ms t + window_s t * 1000"
    using assms by (simp add: distrib_right)
  then show ?thesis by (simp add: interval_start_def ns_of_ms_def)
qed

text \<open>A tracker after the history \<open>h\<close>, read at the time \<open>now\<close>; its intervals fill the window.\<close>

lemma built_tracker:
  assumes "sane w i" and "unat w * 1000 mod unat i = 0" and "sorted (map fst (h @ [(now, 0)]))"
    and "add_all h (new_tracker w i) = Some t"
  shows "tracks t h" "interval_ms t = unat i" "window_s t = unat w"
    "window_s t * 1000 = bucket_count t * interval_ms t"
proof -
  have "sorted (map fst h)" using assms(3) by (simp add: sorted_append)
  then have tr: "tracks t h \<and> same_shape (new_tracker w i) t"
    using add_all_tracks [OF new_tracks [OF assms(1)], of h] assms(4) by auto
  then show "tracks t h" "interval_ms t = unat i" "window_s t = unat w"
    "window_s t * 1000 = bucket_count t * interval_ms t"
    using new_tracker_shape [OF assms(1)] assms(2)
    by (auto simp: same_shape_def)
qed

text \<open>
  the peak is the greatest rate of an interval in the window: no interval that started within
  the window has a higher one, and the peak is the rate of such an interval, or zero.
\<close>

theorem peak_of_window:
  assumes "sane w i" and "unat w * 1000 mod unat i = 0" and "sorted (map fst (h @ [(now, 0)]))"
    and "add_all h (new_tracker w i) = Some t"
  shows "(\<forall>j. now < interval_start t j + unat w * 1000000000 \<longrightarrow> interval_rate t h j \<le> GetPeakMbps now t)
       \<and> (GetPeakMbps now t = 0 \<or> (\<exists>j. now \<le> interval_start t j + unat w * 1000000000
            \<and> GetPeakMbps now t = interval_rate t h j))"
proof -
  note built = built_tracker [OF assms]
  have sz: "0 < interval_ms t" "0 < bucket_count t" "length (buckets t) = bucket_count t"
    using built(1) by (auto simp: tracks_def well_sized_def)
  have slot: "buckets t ! k = slot_spec t h k" if "k < bucket_count t" for k
    using built(1) that by (simp add: tracks_def)
  note fold = peak_fold [where V = "\<lambda>b. isValid t b now" and r = "getBucketMbps t" and p = 0
      and bs = "buckets t", folded GetPeakMbps_def]
  have up: "interval_rate t h j \<le> GetPeakMbps now t"
    if young: "now < interval_start t j + unat w * 1000000000" for j
  proof (cases "j \<in> set (map (\<lambda>e. interval_of t (fst e)) h)")
    case False
    then have "interval_rate t h j = 0" by (simp add: interval_rate_def interval_total_fresh(2))
    then show ?thesis using fold by simp
  next
    case True
    have "now < interval_start t (j + bucket_count t)"
      using young built(3) exact_window [OF built(4)] by simp
    from last_interval_of_slot [OF assms(3) sz(1, 2) True this]
    have b: "slot_spec t h (j mod bucket_count t) =
        \<lparr>start = interval_start t j, nbytes = interval_bytes t h j\<rparr>"
      by (simp add: slot_spec_def)
    then have "\<lparr>start = interval_start t j, nbytes = interval_bytes t h j\<rparr> \<in> set (buckets t)"
      using slot [of "j mod bucket_count t"] sz by (metis mod_less_divisor nth_mem)
    moreover have "isValid t \<lparr>start = interval_start t j, nbytes = interval_bytes t h j\<rparr> now"
      using young built(3) by (simp add: isValid_nat)
    ultimately show ?thesis using fold by (fastforce simp: getBucketMbps_def interval_rate_def)
  qed
  have "GetPeakMbps now t = 0 \<or> (\<exists>j. now \<le> interval_start t j + unat w * 1000000000
            \<and> GetPeakMbps now t = interval_rate t h j)"
  proof (cases "GetPeakMbps now t = 0")
    case False
    then obtain b where b: "b \<in> set (buckets t)" "isValid t b now" "GetPeakMbps now t = getBucketMbps t b"
      using fold by blast
    then obtain k where k: "k < bucket_count t" "b = slot_spec t h k"
      using slot sz by (metis in_set_conv_nth)
    have "in_slot t h k \<noteq> []"
      using False b(3) k(2) by (auto simp: slot_spec_def empty_bucket_def getBucketMbps_def)
    then obtain j where "b = \<lparr>start = interval_start t j, nbytes = interval_bytes t h j\<rparr>"
      using k(2) by (auto simp: slot_spec_def Let_def)
    then show ?thesis using b built(3)
      by (intro disjI2 exI [of _ j]) (auto simp: isValid_nat getBucketMbps_def interval_rate_def)
  qed simp
  then show ?thesis using up by blast
qed

section \<open>The average\<close>

lemma sum_list_filter: "sum_list (map f (filter P xs)) = sum_list (map (\<lambda>x. if P x then f x else (0 :: u64)) xs)"
  by (induction xs) auto

lemma slot_back:
  assumes "i \<le> c" and "i \<le> n" and "0 < n"
  shows "(c mod n + n - i) mod n = (c - i) mod (n :: nat)"
proof -
  have "(c mod n + n - i) mod n = (c mod n + (n - i)) mod n" using assms by simp
  also have "\<dots> = (c + (n - i)) mod n" by (simp add: mod_add_left_eq)
  also have "c + (n - i) = (c - i) + n" using assms by simp
  finally show ?thesis by simp
qed

text \<open>
  the bytes the average counts are exactly those of the complete intervals among the newest
  quarter of the window: never the interval in progress, and never one that has left the window
  (away from the very nanosecond at which an interval starts).
\<close>

theorem average_counts_complete_intervals:
  assumes "sane w i" and "unat w * 1000 mod unat i = 0" and "sorted (map fst (h @ [(now, 0)]))"
    and "add_all h (new_tracker w i) = Some t"
    and "bucket_count t div 4 \<le> interval_of t now"
    and "interval_start t (interval_of t now) < now"
  shows "sum_list (map nbytes (average_buckets t now)) =
         sum_list (map (\<lambda>k. interval_bytes t h (interval_of t now - k)) [1..<bucket_count t div 4])"
proof -
  note built = built_tracker [OF assms(1-4)]
  let ?n = "bucket_count t" and ?c = "interval_of t now" and ?I = "interval_ms t"
  have sz: "0 < ?I" "0 < ?n" using built(1) by (auto simp: tracks_def well_sized_def)
  have slot: "buckets t ! k = slot_spec t h k" if "k < ?n" for k
    using built(1) that by (simp add: tracks_def)
  have now: "now < interval_start t ?c + ns_of_ms ?I" using interval_bounds [OF sz(1)] by simp
  let ?Q = "\<lambda>b. isValid t b now \<and> int now - int (start b) \<ge> int (ns_of_ms ?I)"
  have summand: "(if ?Q (slot_spec t h ((?c - k) mod ?n)) then nbytes (slot_spec t h ((?c - k) mod ?n)) else 0)
      = (if k = 0 then 0 else interval_bytes t h (?c - k))" if k: "k < ?n div 4" for k
  proof -
    let ?j = "?c - k"
    let ?l = "in_slot t h (?j mod ?n)"
    have kc: "k \<le> ?c" "k + 1 \<le> ?n" using k assms(5) by auto
    show ?thesis
    proof (cases "?j \<in> set (map (\<lambda>e. interval_of t (fst e)) h)")
      case True
      have "?c < ?j + ?n" using kc by simp
      then have "interval_start t ?c + ns_of_ms ?I \<le> interval_start t (?j + ?n)"
        using sz by (simp add: interval_start_def ns_of_ms_def)
          (metis add_mult_distrib mult_1 mult_le_mono1 Suc_leI Suc_eq_plus1)
      then have "now < interval_start t (?j + ?n)" using now by simp
      from last_interval_of_slot [OF assms(3) sz True this]
      have b: "slot_spec t h (?j mod ?n) = \<lparr>start = interval_start t ?j, nbytes = interval_bytes t h ?j\<rparr>"
        by (simp add: slot_spec_def Let_def)
      have "isValid t \<lparr>start = interval_start t ?j, nbytes = interval_bytes t h ?j\<rparr> now"
        using \<open>now < interval_start t (?j + ?n)\<close> exact_window [OF built(4)] by (simp add: isValid_nat)
      moreover have "interval_start t ?j + ns_of_ms ?I \<le> interval_start t ?c" if "k \<noteq> 0"
      proof -
        have "(?j + 1) * ?I \<le> ?c * ?I" using that kc by (intro mult_le_mono1) auto
        then show ?thesis by (simp add: interval_start_def ns_of_ms_def)
      qed
      moreover have "k = 0 \<Longrightarrow> ?j = ?c" by simp
      ultimately show ?thesis using b now assms(6) by (cases "k = 0") auto
    next
      case False
      then have tot: "interval_bytes t h ?j = 0" by (rule interval_total_fresh(2))
      show ?thesis
      proof (cases "?l = []")
        case True
        then have "slot_spec t h (?j mod ?n) = empty_bucket" by (simp add: slot_spec_def)
        then show ?thesis unfolding \<open>slot_spec t h (?j mod ?n) = empty_bucket\<close>
          using tot by (simp add: empty_bucket_def)
      next
        case ne: False
        let ?i = "last ?l"
        have "?i \<in> set ?l" using ne by simp
        then obtain e where e: "e \<in> set h" "?i = interval_of t (fst e)" and cong: "?i mod ?n = ?j mod ?n"
          by (auto simp: in_slot_def)
        have "fst e \<le> now" using assms(3) e by (auto simp: sorted_append)
        then have "?i \<le> ?c" using e(2) by (simp add: interval_mono)
        have "?i \<noteq> ?j" using False e by force
        have "\<not> ?j < ?i"
        proof
          assume "?j < ?i"
          then have "?n dvd ?i - ?j" using cong by (simp add: mod_eq_dvd_iff_nat)
          then have "?n \<le> ?i - ?j" using \<open>?j < ?i\<close> by (auto dest: dvd_imp_le)
          then show False using \<open>?i \<le> ?c\<close> kc by simp
        qed
        then have "?i < ?j" using \<open>?i \<noteq> ?j\<close> by simp
        then have "?n dvd ?j - ?i" using cong by (metis less_imp_le mod_eq_dvd_iff_nat)
        then have "?i + ?n \<le> ?c" using \<open>?i < ?j\<close> by (auto dest: dvd_imp_le)
        then have "interval_start t ?i + window_s t * 1000000000 \<le> interval_start t ?c"
          using interval_start_mono [of "?i + ?n" ?c t] exact_window [OF built(4)] by simp
        then have "\<not> isValid t \<lparr>start = interval_start t ?i, nbytes = interval_bytes t h ?i\<rparr> now"
          using assms(6) by (simp add: isValid_nat)
        then show ?thesis using ne tot by (simp add: slot_spec_def Let_def)
      qed
    qed
  qed
  have behind: "buckets t ! ((?c mod ?n + ?n - k) mod ?n) = slot_spec t h ((?c - k) mod ?n)"
    if "k < ?n div 4" for k
    using that assms(5) sz by (simp add: slot_back slot)
  have "sum_list (map nbytes (average_buckets t now)) =
      sum_list (map (\<lambda>k. if ?Q (slot_spec t h ((?c - k) mod ?n)) then nbytes (slot_spec t h ((?c - k) mod ?n)) else 0)
        [0..<?n div 4])"
    unfolding average_buckets_def Let_def sum_list_filter interval_of_def [symmetric]
    by (simp only: map_map comp_def) (intro arg_cong [where f = sum_list] map_cong refl, simp add: behind)
  also have "\<dots> = sum_list (map (\<lambda>k. if k = 0 then 0 else interval_bytes t h (?c - k)) [0..<?n div 4])"
    by (intro arg_cong [where f = sum_list] map_cong refl summand) auto
  also have "\<dots> = sum_list (map (\<lambda>k. interval_bytes t h (?c - k)) [1..<?n div 4])"
  proof (cases "?n div 4 = 0")
    case False
    then have e1: "[0..<?n div 4] = 0 # [1..<?n div 4]" by (simp add: upt_conv_Cons)
    have e2: "map (\<lambda>k. if k = 0 then 0 else interval_bytes t h (?c - k)) [1..<?n div 4] =
        map (\<lambda>k. interval_bytes t h (?c - k)) [1..<?n div 4]"
      by (intro map_cong refl) auto
    show ?thesis by (simp only: e1 list.map sum_list.Cons e2 simp_thms if_True add_0)
  qed simp
  finally show ?thesis .
qed

section \<open>Concrete trackers\<close>

lemma default_sane: "sane 10 250" "unat (10 :: u32) * 1000 mod unat (250 :: u32) = 0"
  by (simp_all add: sane_def)

theorem ring_holds_totals_witness:
  "\<exists>t. add_all [(0, 5), (300000000, 7)] (new_tracker 10 250) = Some t"
  using ring_holds_totals [OF default_sane(1), of "[(0, 5), (300000000, 7)]"] by auto

lemma default_added:
  assumes "sorted (map fst h)"
  obtains t where "add_all h (new_tracker 10 250) = Some t" "interval_ms t = 250" "bucket_count t = 40"
  using add_all_tracks [OF new_tracks [OF default_sane(1)], of h] assms
    new_tracker_shape [OF default_sane(1)]
  by (auto simp: same_shape_def)

theorem peak_of_window_witness:
  "\<exists>t. add_all [(0, 5)] (new_tracker 10 250) = Some t \<and> 0 < GetPeakMbps 1000 t"
proof -
  obtain t where t: "add_all [(0, 5)] (new_tracker 10 250) = Some t" "interval_ms t = 250"
    by (rule default_added [of "[(0, 5)]"]) auto
  have "interval_rate t [(0, 5)] 0 \<le> GetPeakMbps 1000 t"
    using peak_of_window [OF default_sane _ t(1), of 1000] by (simp add: interval_start_def ns_of_ms_def)
  moreover have "0 < interval_rate t [(0, 5)] 0"
    using t(2) by (simp add: interval_rate_def interval_bytes_def interval_total_def interval_of_def ms_of_def)
  ultimately show ?thesis using t(1) by auto
qed

theorem average_counts_complete_intervals_witness:
  "\<exists>t. add_all [(2500000000, 5), (2750000000, 9)] (new_tracker 10 250) = Some t
     \<and> sum_list (map nbytes (average_buckets t 2750000001)) = 5"
proof -
  obtain t where t: "add_all [(2500000000, 5), (2750000000, 9)] (new_tracker 10 250) = Some t"
      "interval_ms t = 250" "bucket_count t = 40"
    by (rule default_added [of "[(2500000000, 5), (2750000000, 9)]"]) auto
  have c: "interval_of t 2750000001 = 11" by (simp add: interval_of_def ms_of_def t)
  have "sum_list (map nbytes (average_buckets t 2750000001)) =
      sum_list (map (\<lambda>k. interval_bytes t [(2500000000, 5), (2750000000, 9)] (11 - k)) [1..<10])"
    using average_counts_complete_intervals [OF default_sane _ t(1), of 2750000001] t
    by (simp add: c interval_start_def ns_of_ms_def)
  also have "\<dots> = 5"
    by (simp add: upt_conv_Cons interval_bytes_def interval_total_def interval_of_def ms_of_def t)
  finally show ?thesis using t(1) by auto
qed

text \<open>
  the constructor's default for a zero bucket interval never reaches the member: whatever the
  window, a tracker built with it divides by zero at its first addition.
\<close>

theorem zero_interval_traps: "AddBytes bytes now (new_tracker w 0) = None"
  by (simp add: AddBytes_def new_tracker_def Let_def)

definition steady :: history where
  "steady = map (\<lambda>k. (k * 250000000, 1000000)) [0..<12]"

text \<open>
  the average divides the bytes of the complete intervals by a time that includes the interval
  in progress. At a steady 1,000,000 bytes every 250 ms (32 Mbps) the tracker reports under 29
  Mbps just before the end of an interval.
\<close>

theorem average_reads_low:
  "\<exists>t r. add_all steady (new_tracker 10 250) = Some t \<and> GetAverageMbps 2999000000 t = Some r
     \<and> 28 < r \<and> r < 29"
proof -
  have "sorted (map fst steady)" by (simp add: steady_def upt_conv_Cons)
  then obtain t where t: "add_all steady (new_tracker 10 250) = Some t" "same_shape (new_tracker 10 250) t"
      "tracks t steady"
    using add_all_tracks [OF new_tracks [OF default_sane(1)], of steady] by auto
  have shape: "interval_ms t = 250" "bucket_count t = 40" "window_s t = 10"
    using t(2) new_tracker_shape [OF default_sane(1)] by (simp_all add: same_shape_def)
  have iv: "interval_of t s = s div 250000000" for s
    by (simp add: interval_of_def ms_of_def shape flip: div_mult2_eq)
  have "buckets t ! k = \<lparr>start = k * 250000000, nbytes = 1000000\<rparr>" if "k \<in> set [0..<12]" for k
  proof -
    have "buckets t ! k = slot_spec t steady k"
      using t(3) that shape by (simp add: tracks_def)
    also have "\<dots> = \<lparr>start = k * 250000000, nbytes = 1000000\<rparr>"
      using that
      by (auto simp: upt_conv_Cons slot_spec_def in_slot_def steady_def iv shape interval_bytes_def interval_total_def
          interval_start_def ns_of_ms_def)
    finally show ?thesis .
  qed
  then have "average_buckets t 2999000000 =
      map (\<lambda>k. \<lparr>start = k * 250000000, nbytes = 1000000\<rparr>) [10, 9, 8, 7, 6, 5, 4, 3, 2]"
    by (simp add: average_buckets_def Let_def ms_of_def ns_of_ms_def isValid_def shape
        upt_conv_Cons)
  then have "GetAverageMbps 2999000000 t = Some (9000000 * 8 / 10 ^ 6 / 2.499)"
    by (simp add: GetAverageMbps_def shape)
  then show ?thesis using t(1) by (intro exI conjI) auto
qed

end
