(* ===== verification/Branding.thy ===== *)
theory Branding
  imports Prelude
begin

text \<open>
  The product name in translated texts (\<open>src/app/gui/Brand.js\<close>). The function \<open>text\<close> is called
  \<open>brand_text\<close> here; it is one global replacement by a regular expression with a negative
  lookahead, written out as ECMAScript defines it: matches are sought from the left, each search
  starts where the previous match ended, and the result is put together from the pieces between
  the matches. Texts are lists of UTF-16 code units, as in JavaScript.
\<close>

section \<open>The replacement\<close>

type_synonym js_string = "u16 list"

definition js :: "string \<Rightarrow> js_string" where
  "js s = map of_char s"

definition product :: js_string where
  "product = js ''Moonlight''"

definition proper_noun_rest :: js_string where
  "proper_noun_rest = js '' Internet Hosting Tool''"

definition replacement :: js_string where
  "replacement = js ''Moonlight V+''"

fun is_prefix :: "js_string \<Rightarrow> js_string \<Rightarrow> bool" where
  "is_prefix [] s \<longleftrightarrow> True"
| "is_prefix (c # p) [] \<longleftrightarrow> False"
| "is_prefix (c # p) (d # s) \<longleftrightarrow> c = d \<and> is_prefix p s"

text \<open>The pattern \<open>/Moonlight(?! Internet Hosting Tool)/\<close> at a position.\<close>

definition matches_at :: "js_string \<Rightarrow> nat \<Rightarrow> bool" where
  "matches_at s i \<longleftrightarrow> is_prefix product (drop i s)
     \<and> \<not> is_prefix proper_noun_rest (drop (i + length product) s)"

text \<open>One search: the first match at or after \<open>lastIndex\<close>.\<close>

function exec :: "js_string \<Rightarrow> nat \<Rightarrow> nat option" where
  "exec s lastIndex =
     (if length s < lastIndex then None
      else if matches_at s lastIndex then Some lastIndex
      else exec s (Suc lastIndex))"
  by auto
termination by (relation "measure (\<lambda>(s, i). Suc (length s) - i)") auto

declare exec.simps [simp del]

lemma exec_range: "exec s i = Some j \<Longrightarrow> i \<le> j \<and> j \<le> length s \<and> matches_at s j"
  by (induction s i rule: exec.induct) (subst (asm) (2) exec.simps, auto split: if_splits)

lemma length_names:
  "length product = 9" "length proper_noun_rest = 22" "length replacement = 12"
  by (simp_all add: product_def proper_noun_rest_def replacement_def js_def)

text \<open>All matches of the flag \<open>g\<close>: each search starts at the end of the match before it.\<close>

function all_matches :: "js_string \<Rightarrow> nat \<Rightarrow> nat list" where
  "all_matches s lastIndex =
     (case exec s lastIndex of
        None \<Rightarrow> []
      | Some j \<Rightarrow> j # all_matches s (j + length product))"
  by auto
termination
  by (relation "measure (\<lambda>(s, i). Suc (length s) - i)") (auto simp: length_names dest!: exec_range)

declare all_matches.simps [simp del]

fun assemble :: "js_string \<Rightarrow> nat \<Rightarrow> nat list \<Rightarrow> js_string" where
  "assemble s nextPosition [] = drop nextPosition s"
| "assemble s nextPosition (j # ms) =
     take (j - nextPosition) (drop nextPosition s) @ replacement
     @ assemble s (j + length product) ms"

definition brand_text :: "js_string \<Rightarrow> js_string" where
  "brand_text translatedText = assemble translatedText 0 (all_matches translatedText 0)"

section \<open>A single pass\<close>

text \<open>The reference: one pass over the text.\<close>

function rename :: "js_string \<Rightarrow> js_string" where
  "rename [] = []"
| "rename (c # s) =
     (if matches_at (c # s) 0 then replacement @ rename (drop 8 s) else c # rename s)"
  by pat_completeness auto
termination by (relation "measure length") auto

lemma is_prefix_iff: "is_prefix p s \<longleftrightarrow> take (length p) s = p"
  by (induction p s rule: is_prefix.induct) auto

lemma is_prefix_append [simp]: "is_prefix p (p @ s)"
  by (simp add: is_prefix_iff)

lemma matches_at_drop: "matches_at (drop k s) i \<longleftrightarrow> matches_at s (k + i)"
  by (simp add: matches_at_def ac_simps)

lemma matches_at_bound: "matches_at s i \<Longrightarrow> i + 9 \<le> length s"
  by (auto simp: matches_at_def is_prefix_iff length_names dest: arg_cong [where f = length])

lemma rename_none: "(\<And>i. \<not> matches_at s i) \<Longrightarrow> rename s = s"
proof (induction s)
  case (Cons c s)
  have "\<not> matches_at s i" for i using Cons.prems [of "Suc i"] by (simp add: matches_at_def)
  then show ?case using Cons.IH Cons.prems [of 0] by simp
qed simp

lemma rename_skip:
  "\<lbrakk>\<And>i. i < k \<Longrightarrow> \<not> matches_at s i; k \<le> length s\<rbrakk> \<Longrightarrow> rename s = take k s @ rename (drop k s)"
proof (induction k arbitrary: s)
  case (Suc k)
  from Suc.prems obtain c t where s: "s = c # t" by (cases s) auto
  have "\<not> matches_at t i" if "i < k" for i
    using Suc.prems(1) [of "Suc i"] that by (simp add: s matches_at_def)
  from Suc.IH [OF this] Suc.prems(1) [of 0] Suc.prems(2) show ?case by (simp add: s)
qed simp

lemma rename_match:
  assumes "matches_at s 0"
  shows "rename s = replacement @ rename (drop 9 s)"
proof -
  obtain c t where "s = c # t" using matches_at_bound [OF assms] by (cases s) auto
  then show ?thesis using assms by simp
qed

lemma rename_copy: "\<not> matches_at (c # s) 0 \<Longrightarrow> rename (c # s) = c # rename s"
  by simp

declare rename.simps(2) [simp del]

lemma exec_None: "exec s i = None \<Longrightarrow> i \<le> k \<Longrightarrow> \<not> matches_at s k"
proof (induction s i rule: exec.induct)
  case (1 s i)
  show ?case
  proof (cases "length s < i \<or> k = i")
    case True
    then show ?thesis using 1 matches_at_bound [of s k] by (auto simp: exec.simps [of s i] split: if_splits)
  next
    case False
    then show ?thesis using 1 by (auto simp: exec.simps [of s i] split: if_splits)
  qed
qed

lemma exec_first: "exec s i = Some j \<Longrightarrow> i \<le> k \<Longrightarrow> k < j \<Longrightarrow> \<not> matches_at s k"
proof (induction s i rule: exec.induct)
  case (1 s i)
  then show ?case
    by (cases "k = i") (auto simp: exec.simps [of s i] split: if_splits)
qed

lemma assemble_rename: "i \<le> length s \<Longrightarrow> assemble s i (all_matches s i) = rename (drop i s)"
proof (induction s i rule: all_matches.induct)
  case (1 s i)
  show ?case
  proof (cases "exec s i")
    case None
    then have "\<not> matches_at (drop i s) k" for k
      using exec_None [OF None, of "i + k"] by (simp add: matches_at_drop)
    then show ?thesis using None by (simp add: all_matches.simps [of s i] rename_none)
  next
    case (Some j)
    note j = exec_range [OF Some]
    have "\<not> matches_at (drop i s) k" if "k < j - i" for k
      using exec_first [OF Some, of "i + k"] that by (simp add: matches_at_drop)
    from rename_skip [OF this] have "rename (drop i s) = take (j - i) (drop i s) @ rename (drop j s)"
      using j diff_le_mono [of j "length s" i] by simp
    moreover have "rename (drop j s) = replacement @ rename (drop (j + 9) s)"
      using rename_match [of "drop j s"] j matches_at_drop [of j s 0] by (simp add: add.commute)
    moreover have "j + 9 \<le> length s" using j matches_at_bound by blast
    ultimately show ?thesis
      using 1(1) [OF Some] Some by (simp add: all_matches.simps [of s i] length_names)
  qed
qed


lemma brand_text_rename: "brand_text s = rename s"
  by (simp add: brand_text_def assemble_rename)

section \<open>No match is missed\<close>

lemma names:
  "product = [77, 111, 111, 110, 108, 105, 103, 104, 116]"
  "proper_noun_rest = [32, 73, 110, 116, 101, 114, 110, 101, 116, 32, 72, 111, 115, 116, 105, 110,
     103, 32, 84, 111, 111, 108]"
  "replacement = [77, 111, 111, 110, 108, 105, 103, 104, 116, 32, 86, 43]"
  by (simp_all add: product_def proper_noun_rest_def replacement_def js_def)


lemma matches_at_nth:
  assumes "matches_at s i" and "j < 9"
  shows "s ! (i + j) = product ! j"
proof -
  have "take 9 (drop i s) = product"
    using assms(1) by (simp add: matches_at_def is_prefix_iff length_names)
  then have "product ! j = take 9 (drop i s) ! j" by simp
  then show ?thesis using assms(2) matches_at_bound [OF assms(1)] by simp
qed

text \<open>The name starts with its only capital: two matches never overlap.\<close>

lemma no_overlap:
  assumes "matches_at s i" and "i < k" and "k < i + 9"
  shows "\<not> matches_at s k"
proof
  assume "matches_at s k"
  then have "s ! k = product ! 0" using matches_at_nth [of s k 0] by simp
  moreover have "s ! k = product ! (k - i)" using matches_at_nth [OF assms(1), of "k - i"] assms by simp
  moreover have "k - i \<in> {1, 2, 3, 4, 5, 6, 7, 8}" using assms by auto
  ultimately show False by (auto simp: names)
qed

lemma all_matches_filter:
  "i \<le> length s \<Longrightarrow> all_matches s i = filter (matches_at s) [i..<length s]"
proof (induction s i rule: all_matches.induct)
  case (1 s i)
  show ?case
  proof (cases "exec s i")
    case None
    then show ?thesis
      using exec_None [OF None] by (auto simp: all_matches.simps [of s i] filter_empty_conv)
  next
    case (Some j)
    note j = exec_range [OF Some]
    then have end_: "j + 9 \<le> length s" using matches_at_bound by blast
    have split: "[i..<length s] = [i..<j] @ j # [Suc j..<j + 9] @ [j + 9..<length s]"
      using j end_ upt_add_eq_append [of i j "length s - j"] upt_conv_Cons [of j "length s"]
        upt_add_eq_append [of "Suc j" "j + 9" "length s - (j + 9)"] by simp
    have "filter (matches_at s) [i..<j] = []"
      using exec_first [OF Some] by (auto simp: filter_empty_conv)
    moreover have "filter (matches_at s) [Suc j..<j + 9] = []"
      using no_overlap [of s j] j by (auto simp: filter_empty_conv)
    ultimately show ?thesis
      using 1(1) [OF Some] Some end_ j
      by (simp add: all_matches.simps [of s i] length_names split)
  qed
qed

definition occurrences :: "js_string \<Rightarrow> nat" where
  "occurrences s = length (filter (matches_at s) [0..<length s])"

lemma match_Cons:
  "matches_at (c # s) 0 \<longleftrightarrow> c = 77 \<and> is_prefix (tl product) s \<and> \<not> is_prefix proper_noun_rest (drop 8 s)"
  by (auto simp: matches_at_def names numeral_eq_Suc)

lemma is_prefix_split: "is_prefix p s \<longleftrightarrow> (\<exists>t. s = p @ t)"
  by (induction p s rule: is_prefix.induct) auto

lemma match_product [simp]: "matches_at (product @ t) 0 \<longleftrightarrow> \<not> is_prefix proper_noun_rest t"
  by (simp add: matches_at_def)

lemma match_split:
  assumes "matches_at s 0"
  obtains t where "s = product @ t" and "\<not> is_prefix proper_noun_rest t"
  using assms by (auto simp: matches_at_def is_prefix_split)

text \<open>How a pass over a text proceeds, as an induction rule and as equations.\<close>

lemma pass_induct [case_names Nil Match Copy]:
  assumes "P []"
    and "\<And>t. \<not> is_prefix proper_noun_rest t \<Longrightarrow> P t \<Longrightarrow> P (product @ t)"
    and "\<And>c s. \<not> matches_at (c # s) 0 \<Longrightarrow> P s \<Longrightarrow> P (c # s)"
  shows "P s"
proof (induction s rule: length_induct)
  case (1 s)
  show ?case
  proof (cases "matches_at s 0")
    case True
    then obtain t where t: "s = product @ t" "\<not> is_prefix proper_noun_rest t" by (rule match_split)
    then have "P t" using 1 by (simp add: length_names)
    with t show ?thesis using assms(2) by blast
  next
    case False
    then show ?thesis using 1 assms(1, 3) by (cases s) auto
  qed
qed

lemma rename_product: "\<not> is_prefix proper_noun_rest t \<Longrightarrow> rename (product @ t) = replacement @ rename t"
  using rename_match [of "product @ t"] by (simp add: length_names)

lemma rename_copies: "77 \<notin> set p \<Longrightarrow> rename (p @ s) = p @ rename s"
  by (induction p) (auto simp: match_Cons rename_copy)

lemma occurrences_Nil [simp]: "occurrences [] = 0"
  by (simp add: occurrences_def)

lemma occurrences_Cons:
  "occurrences (c # s) = (if matches_at (c # s) 0 then 1 else 0) + occurrences s"
proof -
  have "[0..<length (c # s)] = 0 # map Suc [0..<length s]"
    by (simp add: map_Suc_upt upt_conv_Cons del: upt_Suc)
  moreover have "matches_at (c # s) \<circ> Suc = matches_at s"
    by (simp add: fun_eq_iff matches_at_def)
  ultimately show ?thesis by (simp add: occurrences_def filter_map del: upt_Suc)
qed

lemma occurrences_copies: "77 \<notin> set p \<Longrightarrow> occurrences (p @ s) = occurrences s"
  by (induction p) (auto simp: occurrences_Cons match_Cons)

lemma occurrences_capital:
  "77 \<notin> set p \<Longrightarrow> occurrences (77 # p @ s) = (if matches_at (77 # p @ s) 0 then 1 else 0) + occurrences s"
  by (simp add: occurrences_Cons occurrences_copies)

lemma occurrences_product:
  "occurrences (product @ t) = (if is_prefix proper_noun_rest t then 0 else 1) + occurrences t"
proof -
  obtain q where q: "product = 77 # q" "77 \<notin> set q" by (simp add: names)
  show ?thesis using occurrences_capital [OF q(2), of t] match_product [of t] by (simp add: q(1))
qed

lemma length_rename: "length (rename s) = length s + 3 * occurrences s"
  by (induction s rule: pass_induct)
    (simp_all add: rename_product occurrences_product length_names occurrences_Cons rename_copy)

text \<open>
  What the file is to do, without patterns and positions: read from the left; the tool's name is kept, the
  client's name is extended, anything else is copied.
\<close>

function branded :: "js_string \<Rightarrow> js_string" where
  "branded s =
     (if s = [] then []
      else if take 31 s = js ''Moonlight Internet Hosting Tool''
      then js ''Moonlight Internet Hosting Tool'' @ branded (drop 31 s)
      else if take 9 s = js ''Moonlight'' then js ''Moonlight V+'' @ branded (drop 9 s)
      else hd s # branded (tl s))"
  by pat_completeness auto
termination by (relation "measure length") auto

declare branded.simps [simp del]

lemma literal_names:
  "js ''Moonlight Internet Hosting Tool'' = product @ proper_noun_rest" "js ''Moonlight'' = product"
  "js '' Internet Hosting Tool'' = proper_noun_rest" "js ''Moonlight V+'' = replacement"
  by (simp_all add: product_def proper_noun_rest_def replacement_def js_def)

lemma matches_at_literal:
  "matches_at s i \<longleftrightarrow> take 9 (drop i s) = js ''Moonlight'' \<and> take 22 (drop (i + 9) s) \<noteq> js '' Internet Hosting Tool''"
  by (simp add: matches_at_def is_prefix_iff length_names literal_names)

lemma rename_proper_noun:
  "rename (product @ proper_noun_rest @ s) = product @ proper_noun_rest @ rename s"
proof -
  have p: "product @ proper_noun_rest @ s = 77 # (tl product @ proper_noun_rest) @ s" for s
    by (simp add: names)
  have "\<not> matches_at (77 # (tl product @ proper_noun_rest) @ s) 0"
    using match_product [of "proper_noun_rest @ s"] by (simp add: p)
  moreover have "77 \<notin> set (tl product @ proper_noun_rest)" by (simp add: names)
  ultimately show ?thesis
    unfolding p by (simp add: rename_copy rename_copies del: append_assoc)
qed

lemma rename_branded: "rename s = branded s"
proof (induction s rule: branded.induct)
  case (1 s)
  let ?t = "js ''Moonlight Internet Hosting Tool''" and ?m = "js ''Moonlight''"
  consider (Nil) "s = []" | (Tool) "s \<noteq> []" "take 31 s = ?t" | (Name) "s \<noteq> []" "take 31 s \<noteq> ?t" "take 9 s = ?m"
    | (Copy) "s \<noteq> []" "take 31 s \<noteq> ?t" "take 9 s \<noteq> ?m" by blast
  then show ?case
  proof cases
    case Nil
    then show ?thesis by (simp add: branded.simps [of "[]"])
  next
    case Tool
    have "s = product @ proper_noun_rest @ drop 31 s"
      using append_take_drop_id [of 31 s] Tool(2) by (simp add: literal_names)
    then show ?thesis
      using rename_proper_noun [of "drop 31 s"] 1(1) [OF Tool] Tool branded.simps [of s] by (simp add: literal_names)
  next
    case Name
    have s: "s = product @ drop 9 s" using append_take_drop_id [of 9 s] Name(3) by (simp add: literal_names)
    have "take 31 s = take 9 s @ take 22 (drop 9 s)" using take_add [of 9 22 s] by simp
    then have "take 22 (drop 9 s) \<noteq> proper_noun_rest" using Name(2, 3) by (simp add: literal_names)
    then have "\<not> is_prefix proper_noun_rest (drop 9 s)" by (simp add: is_prefix_iff length_names)
    then have "rename s = replacement @ rename (drop 9 s)" using rename_product s by metis
    then show ?thesis using 1(2) [OF Name] Name branded.simps [of s] by (simp add: literal_names)
  next
    case Copy
    obtain c u where s: "s = c # u" using Copy(1) by (cases s) auto
    have "\<not> matches_at s 0" using Copy(3) by (simp add: matches_at_literal)
    then have "rename s = c # rename u" using rename_copy [of c u] by (simp add: s)
    then show ?thesis using 1(3) [OF Copy] Copy branded.simps [of s] by (simp add: s)
  qed
qed

text \<open>
  C29: \<open>Brand.text\<close> reads the text once from the left: it keeps ''Moonlight Internet Hosting Tool'', writes
  ''Moonlight V+'' for every other ''Moonlight'', and copies everything else.
\<close>
theorem brand_text_single_pass: "brand_text s = branded s"
  by (simp add: brand_text_rename rename_branded)

text \<open>
  C30: The positions at which the replacement is made are exactly those where the text has ''Moonlight'' not
  followed by '' Internet Hosting Tool'', every one of them, and each makes the text longer by the three
  characters of the suffix.
\<close>
theorem brand_text_every_occurrence:
  "all_matches s 0 = filter (\<lambda>i. take 9 (drop i s) = js ''Moonlight''
       \<and> take 22 (drop (i + 9) s) \<noteq> js '' Internet Hosting Tool'') [0..<length s]
   \<and> length (brand_text s) = length s + 3 * length (all_matches s 0)"
  by (simp add: all_matches_filter brand_text_rename length_rename occurrences_def matches_at_literal [symmetric])

section \<open>Nothing is lost\<close>

text \<open>The replacement starts with the name's capital, which the rest of the name does not have.\<close>

lemma prefix_of_rename: "\<lbrakk>is_prefix p (rename s); 77 \<notin> set p\<rbrakk> \<Longrightarrow> is_prefix p s"
proof (induction s arbitrary: p rule: pass_induct)
  case (Match t)
  then show ?case by (cases p) (auto simp: rename_product names(3))
next
  case (Copy c s)
  then show ?case by (cases p) (auto simp: rename_copy)
qed simp

text \<open>Taking the suffix away again.\<close>

function unbrand :: "js_string \<Rightarrow> js_string" where
  "unbrand [] = []"
| "unbrand (c # s) =
     (if is_prefix replacement (c # s) then product @ unbrand (drop 11 s) else c # unbrand s)"
  by pat_completeness auto
termination by (relation "measure length") auto

lemma unbrand_replacement: "unbrand (replacement @ t) = product @ unbrand t"
proof -
  obtain q where q: "replacement = 77 # q" "length q = 11" by (simp add: names)
  show ?thesis using is_prefix_append [of replacement t] by (simp add: q)
qed

lemma not_branded:
  assumes "\<not> matches_at (c # s) 0"
  shows "\<not> is_prefix replacement (c # rename s)"
proof
  assume "is_prefix replacement (c # rename s)"
  then have c: "c = 77" and "is_prefix (tl replacement) (rename s)" by (simp_all add: names)
  from this(2) have "is_prefix (tl replacement) s" by (rule prefix_of_rename) (simp add: names(3))
  then show False using assms c by (auto simp: match_Cons names is_prefix_split)
qed

lemma unbrand_rename: "unbrand (rename s) = s"
  by (induction s rule: pass_induct) (simp_all add: rename_product rename_copy unbrand_replacement not_branded)

text \<open>
  The renaming loses nothing: the translated text can be read back from the shown one by taking
  the suffix away again, so two different texts are never shown alike.
\<close>
theorem brand_text_invertible: "unbrand (brand_text s) = s"
  by (simp add: brand_text_rename unbrand_rename)

section \<open>Branding twice\<close>

lemma occurrences_replacement: "occurrences (replacement @ t) = 1 + occurrences t"
proof -
  obtain q where q: "replacement = 77 # q" "77 \<notin> set q" by (simp add: names)
  have "matches_at (replacement @ t) 0" by (simp add: names match_Cons)
  then show ?thesis using occurrences_capital [OF q(2), of t] by (simp add: q(1))
qed

lemma still_no_match:
  assumes "\<not> matches_at (c # s) 0"
  shows "\<not> matches_at (c # rename s) 0"
proof
  assume "matches_at (c # rename s) 0"
  then have c: "c = 77" and pre: "is_prefix (tl product) (rename s)"
    and no: "\<not> is_prefix proper_noun_rest (drop 8 (rename s))" by (simp_all add: match_Cons)
  have "is_prefix (tl product) s" using pre by (rule prefix_of_rename) (simp add: names)
  then obtain u where u: "s = tl product @ proper_noun_rest @ u"
    using assms c by (auto simp: match_Cons is_prefix_split names)
  have "77 \<notin> set (tl product @ proper_noun_rest)" by (simp add: names)
  from rename_copies [OF this, of u] have "rename s = tl product @ proper_noun_rest @ rename u"
    by (simp add: u)
  then show False using no by (simp add: names)
qed

lemma occurrences_rename: "occurrences (rename s) = occurrences s"
  by (induction s rule: pass_induct)
    (simp_all add: rename_product rename_copy occurrences_replacement occurrences_product
      occurrences_Cons still_no_match)

text \<open>
  Branding is not idempotent, it is to be applied exactly once: each further application finds
  every branded name again and appends the suffix once more.
\<close>
theorem brand_text_again:
  "length ((brand_text ^^ n) s) = length s + 3 * n * length (filter (matches_at s) [0..<length s])"
proof -
  have "length ((brand_text ^^ n) s) = length s + 3 * n * occurrences s
      \<and> occurrences ((brand_text ^^ n) s) = occurrences s"
    by (induction n) (simp_all add: brand_text_rename length_rename occurrences_rename algebra_simps)
  then show ?thesis by (simp add: occurrences_def)
qed

section \<open>Placeholders and the proper noun\<close>

text \<open>
  The place markers of \<open>QString::arg\<close> in a text: what follows each percent sign, at most two digits.
\<close>

definition is_digit16 :: "u16 \<Rightarrow> bool" where
  "is_digit16 c \<longleftrightarrow> 48 \<le> c \<and> c \<le> 57"

fun place_markers :: "js_string \<Rightarrow> js_string list" where
  "place_markers [] = []"
| "place_markers (c # s) =
     (if c = 37 then take 2 (takeWhile is_digit16 s) # place_markers s else place_markers s)"

lemma takeWhile_rename: "\<not> P 77 \<Longrightarrow> takeWhile P (rename s) = takeWhile P s"
proof (induction s rule: pass_induct)
  case (Match t)
  then show ?case by (simp add: rename_product) (simp add: names)
qed (simp_all add: rename_copy)

lemma place_markers_rename: "place_markers (rename s) = place_markers s"
proof (induction s rule: pass_induct)
  case (Match t)
  then show ?case by (simp add: rename_product) (simp add: names)
qed (simp_all add: rename_copy takeWhile_rename is_digit16_def)

text \<open>
  The place markers of a translated text are those of the shown text, in the same order, so the
  arguments filled in after branding land where the translator put them.
\<close>
theorem brand_text_place_markers: "place_markers (brand_text s) = place_markers s"
  by (simp add: brand_text_rename place_markers_rename)

text \<open>
  The proper noun is kept, and the text after it branded as usual; but only in its English
  wording: the Simplified Chinese catalogue renders its last word by the two characters 5DE5 5177,
  and there the client's name is put into the tool's name.
\<close>
theorem brand_text_proper_noun:
  "brand_text (product @ proper_noun_rest @ s) = product @ proper_noun_rest @ brand_text s
   \<and> brand_text (js ''Moonlight Internet Hosting '' @ [0x5DE5, 0x5177])
       = js ''Moonlight V+ Internet Hosting '' @ [0x5DE5, 0x5177]"
proof
  show "brand_text (product @ proper_noun_rest @ s) = product @ proper_noun_rest @ brand_text s"
    by (simp add: brand_text_rename rename_proper_noun)
  have "js ''Moonlight Internet Hosting '' = product @ js '' Internet Hosting ''"
    by (simp add: product_def js_def)
  moreover have "\<not> is_prefix proper_noun_rest (js '' Internet Hosting '' @ [0x5DE5, 0x5177])"
    by (simp add: js_def names)
  moreover have "rename (js '' Internet Hosting '' @ [0x5DE5, 0x5177]) = js '' Internet Hosting '' @ [0x5DE5, 0x5177]"
    using rename_copies [of "js '' Internet Hosting '' @ [0x5DE5, 0x5177]" "[]"] by (simp add: js_def)
  ultimately show "brand_text (js ''Moonlight Internet Hosting '' @ [0x5DE5, 0x5177])
       = js ''Moonlight V+ Internet Hosting '' @ [0x5DE5, 0x5177]"
    by (simp add: brand_text_rename rename_product) (simp add: js_def names)
qed

end
