(* ===== verification/CliLaunchers.thy ===== *)
theory CliLaunchers
  imports HostModel
begin

text \<open>
  The contract of the command line's launchers, the seeker they share
  (\<open>src/app/backend/computerseeker.cpp\<close>) and the launcher that starts a stream
  (\<open>src/app/cli/startstream.cpp\<close>); the others are in \<open>CliCommands\<close>. A launcher is the function
  \<open>handleEvent\<close> of the source, one case per event type; what it asks of the rest of the program and
  what it emits are outputs. Computers are shared objects that change between events, so every event
  comes with a heap that gives their current contents. What Qt does to
  names is the parameter \<open>q\<close>.
\<close>

section \<open>Computers and apps\<close>

definition paired :: "nv_computer \<Rightarrow> bool" where
  "paired c \<longleftrightarrow> pair_status c = PS_PAIRED"

definition online :: "nv_computer \<Rightarrow> bool" where
  "online c \<longleftrightarrow> comp_state c = CS_ONLINE"

lemma paired_online [simp]:
  "paired (desk\<lparr>pair_status := PS_NOT_PAIRED\<rparr>) = False" "paired desk" "online desk"
  "online (desk\<lparr>pair_status := PS_NOT_PAIRED\<rparr>)"
  by (simp_all add: paired_def online_def host_defs)

text \<open>What Qt provides to compare and print names.\<close>

record name_ops = address_printer +
  to_lower :: "string \<Rightarrow> string"

definition plain_names :: name_ops where
  "plain_names = \<lparr>is_ipv6 = (\<lambda>_. False), show_port = (\<lambda>_. ''47989''), to_lower = (\<lambda>t. t)\<rparr>"

type_synonym heap = "nat \<Rightarrow> nv_computer"

section \<open>The contract of a launcher\<close>

text \<open>
  A launcher reacts to events with outputs. Some outputs are final; the step that gives one ends
  with it and leaves the launcher in a terminal state, in which it no longer reacts.
\<close>

fun react :: "('s \<Rightarrow> 'e \<Rightarrow> 's \<times> 'o list) \<Rightarrow> 's \<Rightarrow> 'e list \<Rightarrow> 's \<times> 'o list" where
  "react step s [] = (s, [])"
| "react step s (e # es) =
     (let (s1, o1) = step s e; (s2, o2) = react step s1 es in (s2, o1 @ o2))"

locale launcher =
  fixes step :: "'s \<Rightarrow> 'e \<Rightarrow> 's \<times> 'o list"
    and inv terminal :: "'s \<Rightarrow> bool"
    and final :: "'o \<Rightarrow> bool"
  assumes inv_step: "inv s \<Longrightarrow> step s e = (s', os) \<Longrightarrow> inv s'"
    and terminal_silent: "inv s \<Longrightarrow> terminal s \<Longrightarrow> step s e = (s', os) \<Longrightarrow> terminal s' \<and> os = []"
    and final_ends: "inv s \<Longrightarrow> step s e = (s', os) \<Longrightarrow> i < length os \<Longrightarrow> final (os ! i) \<Longrightarrow>
          terminal s' \<and> Suc i = length os"
begin

lemma inv_run: "inv s \<Longrightarrow> react step s es = (s', os) \<Longrightarrow> inv s'"
  by (induction es arbitrary: s os) (auto split: prod.splits dest: inv_step)

lemma terminal_run: "inv s \<Longrightarrow> terminal s \<Longrightarrow> react step s es = (s', os) \<Longrightarrow> terminal s' \<and> os = []"
proof (induction es arbitrary: s os)
  case (Cons e es)
  obtain s1 o1 where st: "step s e = (s1, o1)" by force
  obtain o2 where run: "react step s1 es = (s', o2)" "os = o1 @ o2"
    using Cons.prems(3) st by (auto split: prod.splits)
  show ?case
    using Cons.IH [OF inv_step [OF Cons.prems(1) st] _ run(1)]
      terminal_silent [OF Cons.prems(1, 2) st] run(2) by simp
qed simp

text \<open>A run gives at most one final output, and nothing after it.\<close>

lemma final_is_last:
  assumes "inv s" and "react step s es = (s', os)" and "i < length os" and "final (os ! i)"
  shows "terminal s' \<and> Suc i = length os"
  using assms
proof (induction es arbitrary: s os i)
  case (Cons e es)
  obtain s1 o1 where st: "step s e = (s1, o1)" by force
  obtain o2 where run: "react step s1 es = (s', o2)" and os: "os = o1 @ o2"
    using Cons.prems(2) st by (auto split: prod.splits)
  note inv1 = inv_step [OF Cons.prems(1) st]
  show ?case
  proof (cases "i < length o1")
    case True
    then have "terminal s1" "Suc i = length o1"
      using final_ends [OF Cons.prems(1) st True] Cons.prems(4) os by (auto simp: nth_append)
    then show ?thesis using terminal_run [OF inv1 _ run] os by simp
  next
    case False
    then have "i - length o1 < length o2" "final (o2 ! (i - length o1))"
      using Cons.prems(3, 4) os by (auto simp: nth_append)
    from Cons.IH [OF inv1 run this] show ?thesis using False os by auto
  qed
qed simp

end

text \<open>
  What a run may be held to: \<open>sees\<close> relates the state to the events and the outputs so far,
  \<open>just\<close> says of an output that the events and the outputs before it justify it.
\<close>

locale audited_launcher = launcher step inv terminal final
  for step :: "'s \<Rightarrow> 'e \<Rightarrow> 's \<times> 'o list" and inv terminal :: "'s \<Rightarrow> bool" and final :: "'o \<Rightarrow> bool" +
  fixes sees :: "'e list \<Rightarrow> 'o list \<Rightarrow> 's \<Rightarrow> bool"
    and just :: "'e list \<Rightarrow> 'o list \<Rightarrow> 'o \<Rightarrow> bool"
  assumes sees_step: "inv s \<Longrightarrow> sees xs outs s \<Longrightarrow> step s x = (s', os) \<Longrightarrow>
          sees (xs @ [x]) (outs @ os) s' \<and> (\<forall>i<length os. just (xs @ [x]) (outs @ take i os) (os ! i))"
    and just_mono: "just xs outs z \<Longrightarrow> just (xs @ ys) outs z"
begin

lemma run_justified:
  "\<lbrakk>inv s; sees xs outs s; react step s es = (s', os); i < length os\<rbrakk>
     \<Longrightarrow> just (xs @ es) (outs @ take i os) (os ! i)"
proof (induction es arbitrary: s xs outs os i)
  case (Cons e es)
  obtain s1 o1 where st: "step s e = (s1, o1)" by force
  obtain o2 where run: "react step s1 es = (s', o2)" and os: "os = o1 @ o2"
    using Cons.prems(3) st by (auto split: prod.splits)
  note now = sees_step [OF Cons.prems(1, 2) st]
  show ?case
  proof (cases "i < length o1")
    case True
    then have "just (xs @ [e]) (outs @ take i o1) (o1 ! i)" using now by blast
    then have "just ((xs @ [e]) @ es) (outs @ take i o1) (o1 ! i)" by (rule just_mono)
    then show ?thesis using True os by (simp add: nth_append)
  next
    case False
    then have "i - length o1 < length o2" using Cons.prems(4) os by simp
    from Cons.IH [OF inv_step [OF Cons.prems(1) st] conjunct1 [OF now] run this]
    show ?thesis using False os by (simp add: nth_append)
  qed
qed simp

end

section \<open>The computer seeker\<close>

datatype seek_output =
    Wake nat
  | Add_host string
  | Start_polling
  | Stop_polling

record seeker =
  sought :: string
  seeking :: bool

definition matchComputer :: "name_ops \<Rightarrow> string \<Rightarrow> nv_computer \<Rightarrow> bool" where
  "matchComputer q name c =
     (let v = to_lower q name in
      if to_lower q (comp_name c) = v \<or> to_lower q (comp_uuid c) = v then True
      else list_ex (\<lambda>a. to_lower q (m_Address a) = v \<or> to_lower q (address_text q a) = v)
             (uniqueAddresses c))"

lemma plain_to_lower [simp]: "to_lower plain_names t = t"
  by (simp add: plain_names_def)

lemma desk_matches [simp]:
  "matchComputer plain_names ''desk'' (desk\<lparr>pair_status := PS_NOT_PAIRED\<rparr>)"
  "matchComputer plain_names ''desk'' desk" "matchComputer plain_names ''10.0.0.2'' desk"
  by (simp_all add: matchComputer_def plain_names_def)
    (simp_all add: host_defs uniqueAddresses_def prune_eq null_address_def)

definition findMatchingComputer :: "name_ops \<Rightarrow> heap \<Rightarrow> nat list \<Rightarrow> string \<Rightarrow> nat option" where
  "findMatchingComputer q h known name = find (\<lambda>c. matchComputer q name (h c)) known"

text \<open>The constructor and \<open>start\<close>, one after the other as every launcher calls them.\<close>

definition seeker_start ::
  "name_ops \<Rightarrow> heap \<Rightarrow> nat list \<Rightarrow> string \<Rightarrow> seeker \<times> seek_output list" where
  "seeker_start q h known name =
     (let m = findMatchingComputer q h known name
      in (\<lparr>sought = name, seeking = True\<rparr>,
          (case m of Some c \<Rightarrow> [Wake c] | None \<Rightarrow> [Add_host name]) @ [Start_polling]))"

text \<open>The last component says that \<open>computerFound\<close> is emitted.\<close>

definition seeker_updated ::
  "name_ops \<Rightarrow> heap \<Rightarrow> nat \<Rightarrow> seeker \<Rightarrow> seeker \<times> seek_output list \<times> bool" where
  "seeker_updated q h c k =
     (if \<not> seeking k then (k, [], False)
      else if matchComputer q (sought k) (h c) \<and> online (h c)
      then (k\<lparr>seeking := False\<rparr>, [Stop_polling], True)
      else (k, [], False))"

definition seeker_timeout :: "seeker \<Rightarrow> seeker \<times> seek_output list" where
  "seeker_timeout k = (k\<lparr>seeking := False\<rparr>, [Stop_polling])"

section \<open>Starting a stream\<close>

datatype start_state = Start_init | Start_seek_computer | Start_seek_app | Start_session | Start_failure

datatype start_failure =
    Not_paired string
  | Quit_failed string
  | No_computer string
  | No_app string

datatype start_output =
    Start_seek seek_output
  | Searching_computer
  | Searching_app
  | Session_created nat nv_app
  | App_quit_required string
  | Quit_running_app nat
  | Start_failed start_failure

record start_launcher =
  want_computer :: string
  want_app :: string
  phase :: start_state
  its_seeker :: "seeker option"
  computer :: nat
  app_timer :: bool

definition new_start :: "string \<Rightarrow> string \<Rightarrow> start_launcher" where
  "new_start c a = \<lparr>want_computer = c, want_app = a, phase = Start_init, its_seeker = None,
     computer = 0, app_timer = False\<rparr>"

text \<open>\<open>getAppIndex\<close>, as the app it finds.\<close>

definition wanted_app :: "name_ops \<Rightarrow> string \<Rightarrow> nv_computer \<Rightarrow> nv_app option" where
  "wanted_app q name c = find (\<lambda>a. to_lower q (app_name a) = to_lower q name) (appList c)"

definition getCurrentAppName :: "nv_computer \<Rightarrow> string" where
  "getCurrentAppName c =
     (case find (\<lambda>a. currentGameId c = app_id a) (appList c) of
        Some a \<Rightarrow> app_name a | None \<Rightarrow> ''<UNKNOWN>'')"

definition start_computer_found :: "heap \<Rightarrow> nat \<Rightarrow> start_launcher \<Rightarrow> start_launcher \<times> start_output list" where
  "start_computer_found h c s =
     (if phase s = Start_seek_computer
      then if paired (h c)
           then (s\<lparr>phase := Start_seek_app, computer := c, app_timer := True\<rparr>, [Searching_app])
           else (s\<lparr>phase := Start_failure\<rparr>, [Start_failed (Not_paired (comp_name (h c)))])
      else (s, []))"

definition start_computer_updated ::
  "name_ops \<Rightarrow> heap \<Rightarrow> start_launcher \<Rightarrow> start_launcher \<times> start_output list" where
  "start_computer_updated q h s =
     (if phase s = Start_seek_app
      then let c = h (computer s) in
        case wanted_app q (want_app s) c of
          None \<Rightarrow> (s, [])
        | Some a \<Rightarrow>
            if currentGameId c = 0 \<or> currentGameId c = app_id a
            then (s\<lparr>app_timer := False, phase := Start_session\<rparr>, [Session_created (computer s) a])
            else (s\<lparr>app_timer := False\<rparr>, [App_quit_required (getCurrentAppName c)])
      else (s, []))"

definition start_timed_out :: "start_launcher \<Rightarrow> start_launcher \<times> start_output list" where
  "start_timed_out s =
     (if phase s = Start_seek_computer
      then (s\<lparr>phase := Start_failure\<rparr>, [Start_failed (No_computer (want_computer s))])
      else if phase s = Start_seek_app
      then (s\<lparr>phase := Start_failure\<rparr>, [Start_failed (No_app (want_app s))])
      else (s, []))"

text \<open>
  The events from outside, each with the heap and the known computers at that moment. A
  \<open>computerStateChanged\<close> signal reaches the seeker's slot, which may emit \<open>computerFound\<close>, and the
  launcher's own slot: two events here, in any order and with any others between them, which covers
  the order in which one signal reaches both.
\<close>

datatype start_event =
    Start_execute
  | Start_seeker_updated nat
  | Start_computer_updated
  | Start_seek_timer
  | Start_app_timer
  | Start_quit_requested
  | Start_quit_completed string

definition start_step ::
  "name_ops \<Rightarrow> start_launcher \<Rightarrow> heap \<times> nat list \<times> start_event
     \<Rightarrow> start_launcher \<times> start_output list" where
  "start_step q s x =
     (case x of (h, known, e) \<Rightarrow>
       (case e of
          Start_execute \<Rightarrow>
            if phase s = Start_init
            then let (k, os) = seeker_start q h known (want_computer s)
                 in (s\<lparr>phase := Start_seek_computer, its_seeker := Some k\<rparr>,
                     map Start_seek os @ [Searching_computer])
            else (s, [])
        | Start_seeker_updated c \<Rightarrow>
            (case its_seeker s of
               None \<Rightarrow> (s, [])
             | Some k \<Rightarrow>
                 let (k', os, found) = seeker_updated q h c k;
                     (s1, o1) = (if found then start_computer_found h c (s\<lparr>its_seeker := Some k'\<rparr>)
                                 else (s\<lparr>its_seeker := Some k'\<rparr>, []))
                 in (s1, map Start_seek os @ o1))
        | Start_computer_updated \<Rightarrow> start_computer_updated q h s
        | Start_seek_timer \<Rightarrow>
            (case its_seeker s of
               None \<Rightarrow> (s, [])
             | Some k \<Rightarrow>
                 if \<not> seeking k then (s, [])
                 else let (k', os) = seeker_timeout k;
                          (s1, o1) = start_timed_out (s\<lparr>its_seeker := Some k'\<rparr>)
                      in (s1, map Start_seek os @ o1))
        | Start_app_timer \<Rightarrow>
            if app_timer s then start_timed_out (s\<lparr>app_timer := False\<rparr>) else (s, [])
        | Start_quit_requested \<Rightarrow>
            if phase s = Start_seek_app then (s, [Quit_running_app (computer s)]) else (s, [])
        | Start_quit_completed err \<Rightarrow>
            if phase s = Start_seek_app \<and> err \<noteq> []
            then (s\<lparr>phase := Start_failure\<rparr>, [Start_failed (Quit_failed err)]) else (s, [])))"

section \<open>Starting keeps the contract\<close>

lemma seeker_updated_cases:
  assumes "seeker_updated q h c k = (k', os, found)"
  shows "(found \<and> seeking k \<and> k' = k\<lparr>seeking := False\<rparr> \<and> os = [Stop_polling]
           \<and> matchComputer q (sought k) (h c) \<and> online (h c))
       \<or> (\<not> found \<and> k' = k \<and> os = [])"
  using assms by (auto simp: seeker_updated_def split: if_splits)

definition start_inv_ok :: "start_launcher \<Rightarrow> bool" where
  "start_inv_ok s \<longleftrightarrow> ((case its_seeker s of
     None \<Rightarrow> phase s = Start_init
   | Some k \<Rightarrow> phase s \<noteq> Start_init \<and> sought k = want_computer s
       \<and> (seeking k \<longrightarrow> phase s = Start_seek_computer)))
     \<and> (app_timer s \<longrightarrow> phase s \<noteq> Start_init \<and> phase s \<noteq> Start_seek_computer)"

definition start_over :: "start_launcher \<Rightarrow> bool" where
  "start_over s \<longleftrightarrow> phase s = Start_session \<or> phase s = Start_failure"

fun start_final :: "start_output \<Rightarrow> bool" where
  "start_final (Session_created _ _) = True"
| "start_final (Start_failed _) = True"
| "start_final _ = False"

lemma final_at_end:
  "\<lbrakk>\<And>x. x \<in> set os \<Longrightarrow> \<not> P x; i < length (os @ [z]); P ((os @ [z]) ! i)\<rbrakk> \<Longrightarrow> Suc i = length (os @ [z])"
  by (cases "i < length os") (auto simp: nth_append dest: nth_mem)

lemma no_final:
  "\<lbrakk>\<And>x. x \<in> set os \<Longrightarrow> \<not> P x; i < length os; P (os ! i)\<rbrakk> \<Longrightarrow> False"
  using nth_mem by blast

text \<open>
  The shape of a step: an event changes the state by one of the handlers' branches. Outputs before
  the last are never final.
\<close>

lemma start_step_ok:
  assumes inv: "start_inv_ok s" and step: "start_step q s x = (s', os)"
  shows "start_inv_ok s'
    \<and> (start_over s \<longrightarrow> start_over s' \<and> os = [])
    \<and> ((\<forall>z\<in>set os. \<not> start_final z)
       \<or> (start_over s' \<and> (\<exists>front z. os = front @ [z] \<and> (\<forall>y\<in>set front. \<not> start_final y))))"
proof -
  obtain h known e where x: "x = (h, known, e)" by (cases x)
  show ?thesis
  proof (cases e)
    case Start_execute
    then show ?thesis using inv step
      by (auto simp: x start_step_def seeker_start_def start_inv_ok_def start_over_def
          split: if_splits option.splits prod.splits)
  next
    case (Start_seeker_updated c)
    show ?thesis
    proof (cases "its_seeker s")
      case None
      then show ?thesis using Start_seeker_updated inv step by (auto simp: x start_step_def)
    next
      case (Some k)
      obtain k' o0 found where u: "seeker_updated q h c k = (k', o0, found)" by (metis prod_cases3)
      have s_eq: "s\<lparr>its_seeker := Some k\<rparr> = s" using Some by simp
      show ?thesis
        using seeker_updated_cases [OF u] inv step Some u s_eq
        by (auto simp: x Start_seeker_updated start_step_def start_inv_ok_def start_over_def Let_def
            start_computer_found_def split: if_splits option.splits)
    qed
  qed (use inv step in \<open>auto simp: x start_step_def start_inv_ok_def start_over_def seeker_timeout_def
      start_timed_out_def start_computer_updated_def Let_def split: if_splits option.splits\<close>)
qed

lemma one_final:
  assumes "(\<forall>z\<in>set os. \<not> P z) \<or> (T \<and> (\<exists>front z. os = front @ [z] \<and> (\<forall>y\<in>set front. \<not> P y)))"
    and "i < length os" and "P (os ! i)"
  shows "T \<and> Suc i = length os"
  using assms
proof (elim disjE conjE exE)
  fix front z
  assume os: "os = front @ [z]" and "\<forall>y\<in>set front. \<not> P y" and T
  then have "\<not> i < length front" using assms(3) by (auto simp: nth_append dest: nth_mem)
  then show ?thesis using assms(2) os \<open>T\<close> by simp
qed (auto dest: nth_mem)

text \<open>An event at which the seeker finds a computer in a given pairing state.\<close>

definition found_at ::
  "('e \<Rightarrow> nat option) \<Rightarrow> name_ops \<Rightarrow> string \<Rightarrow> bool \<Rightarrow> nat \<Rightarrow> (heap \<times> nat list \<times> 'e) list \<Rightarrow> bool" where
  "found_at updates q name is_paired c xs \<longleftrightarrow>
     (\<exists>(h, known, e)\<in>set xs. updates e = Some c \<and> matchComputer q name (h c)
        \<and> online (h c) \<and> paired (h c) = is_paired)"

definition ready_app ::
  "name_ops \<Rightarrow> string \<Rightarrow> nat \<Rightarrow> nv_app \<Rightarrow> (heap \<times> nat list \<times> 'e) list \<Rightarrow> bool" where
  "ready_app q name c a xs \<longleftrightarrow>
     (\<exists>(h, known, e)\<in>set xs. a \<in> set (appList (h c)) \<and> to_lower q (app_name a) = to_lower q name
        \<and> (currentGameId (h c) = 0 \<or> currentGameId (h c) = app_id a))"

lemma found_at_mono [simp]: "found_at u q name b c xs \<Longrightarrow> found_at u q name b c (xs @ ys)"
  by (auto simp: found_at_def)

lemma found_at_now:
  "\<lbrakk>updates e = Some c; matchComputer q name (h c); online (h c); paired (h c) = b\<rbrakk>
     \<Longrightarrow> found_at updates q name b c (xs @ [(h, known, e)])"
  by (auto simp: found_at_def)

lemma ready_app_mono [simp]: "ready_app q name c a xs \<Longrightarrow> ready_app q name c a (xs @ ys)"
  by (auto simp: ready_app_def)

lemma ready_app_now:
  "\<lbrakk>wanted_app q name (h c) = Some a; currentGameId (h c) = 0 \<or> currentGameId (h c) = app_id a\<rbrakk>
     \<Longrightarrow> ready_app q name c a (xs @ [(h, known, e)])"
  by (auto simp: ready_app_def wanted_app_def find_Some_iff)

fun start_updates :: "start_event \<Rightarrow> nat option" where
  "start_updates (Start_seeker_updated c) = Some c"
| "start_updates _ = None"

definition start_sees ::
  "name_ops \<Rightarrow> string \<Rightarrow> string \<Rightarrow> (heap \<times> nat list \<times> start_event) list
     \<Rightarrow> start_output list \<Rightarrow> start_launcher \<Rightarrow> bool" where
  "start_sees q pc app xs outs s \<longleftrightarrow> want_computer s = pc \<and> want_app s = app
     \<and> (phase s = Start_seek_app \<longrightarrow> found_at start_updates q pc True (computer s) xs)"

fun start_just ::
  "name_ops \<Rightarrow> string \<Rightarrow> string \<Rightarrow> (heap \<times> nat list \<times> start_event) list
     \<Rightarrow> start_output list \<Rightarrow> start_output \<Rightarrow> bool" where
  "start_just q pc app xs outs (Session_created c a) \<longleftrightarrow>
     found_at start_updates q pc True c xs \<and> ready_app q app c a xs"
| "start_just q pc app xs outs (Quit_running_app c) \<longleftrightarrow> found_at start_updates q pc True c xs"
| "start_just q pc app xs outs z \<longleftrightarrow> True"

lemma start_audit:
  assumes inv: "start_inv_ok s" and sees: "start_sees q pc app xs outs s"
    and step: "start_step q s x = (s', os)"
  shows "start_sees q pc app (xs @ [x]) (outs @ os) s'
       \<and> (\<forall>z\<in>set os. start_just q pc app (xs @ [x]) outs' z)"
proof -
  obtain h known e where x: "x = (h, known, e)" by (cases x)
  show ?thesis
  proof (cases e)
    case Start_execute
    then show ?thesis using sees step
      by (auto simp: x start_step_def seeker_start_def start_sees_def
          split: if_splits option.splits prod.splits)
  next
    case (Start_seeker_updated c)
    show ?thesis
    proof (cases "its_seeker s")
      case None
      then show ?thesis using Start_seeker_updated sees step by (auto simp: x start_step_def start_sees_def)
    next
      case (Some k)
      obtain k' o0 found where u: "seeker_updated q h c k = (k', o0, found)" by (metis prod_cases3)
      have s_eq: "s\<lparr>its_seeker := Some k\<rparr> = s" using Some by simp
      have k: "sought k = pc" using inv sees Some by (simp add: start_inv_ok_def start_sees_def)
      show ?thesis
        using seeker_updated_cases [OF u] sees step Some u s_eq k
        by (auto simp: x Start_seeker_updated start_step_def start_sees_def Let_def
            start_computer_found_def intro: found_at_now split: if_splits option.splits)
    qed
  next
    case Start_computer_updated
    then show ?thesis using sees step
      by (auto simp: x start_step_def start_sees_def start_computer_updated_def Let_def
          intro: ready_app_now split: if_splits option.splits)
  qed (use sees step in \<open>auto simp: x start_step_def start_sees_def seeker_timeout_def
      start_timed_out_def Let_def split: if_splits option.splits\<close>)
qed

interpretation starting: audited_launcher "start_step q" start_inv_ok start_over start_final
  "start_sees q pc app" "start_just q pc app"
proof (unfold_locales, goal_cases)
  case (1 s e s' os)
  then show ?case using start_step_ok by blast
next
  case (2 s e s' os)
  then show ?case using start_step_ok by blast
next
  case (3 s e s' os i)
  from start_step_ok [OF 3(1, 2)] show ?case
    using one_final [where P = start_final, OF _ 3(3, 4), of "start_over s'"] by blast
next
  case (4 s xs outs x s' os)
  from start_audit [OF 4] show ?case using nth_mem by blast
next
  case (5 xs outs z ys)
  then show ?case by (cases z) auto
qed

lemma new_start_ok: "start_inv_ok (new_start c a)" "start_sees q c a [] [] (new_start c a)"
  by (simp_all add: start_inv_ok_def new_start_def start_sees_def)

text \<open>
  a stream is started only for a computer that matched the name given, was online and paired
  when it was found, and only for an app that computer lists under the name wanted while no other
  app runs on it; whatever the order of events. A run reports one outcome at most, as the
  last thing it does.
\<close>
theorem start_session_justified:
  assumes "react (start_step q) (new_start pc app) es = (s', os)"
  shows "\<forall>i<length os.
      (\<forall>c a. os ! i = Session_created c a \<longrightarrow>
         found_at start_updates q pc True c es \<and> ready_app q app c a es)
    \<and> (\<forall>c. os ! i = Quit_running_app c \<longrightarrow> found_at start_updates q pc True c es)
    \<and> (start_final (os ! i) \<longrightarrow> Suc i = length os)"
proof (intro allI impI)
  fix i assume i: "i < length os"
  have "start_just q pc app es (take i os) (os ! i)"
    using starting.run_justified [OF new_start_ok(1) new_start_ok(2) assms i] by simp
  then show "(\<forall>c a. os ! i = Session_created c a \<longrightarrow>
         found_at start_updates q pc True c es \<and> ready_app q app c a es)
    \<and> (\<forall>c. os ! i = Quit_running_app c \<longrightarrow> found_at start_updates q pc True c es)
    \<and> (start_final (os ! i) \<longrightarrow> Suc i = length os)"
    using starting.final_is_last [OF new_start_ok(1) assms i] by auto
qed


theorem start_session_justified_witness:
  "start_final (snd (react (start_step plain_names) (new_start ''10.0.0.2'' ''Game'')
     [(\<lambda>_. desk, [], Start_execute), (\<lambda>_. desk, [3], Start_seeker_updated 3),
      (\<lambda>_. desk, [3], Start_computer_updated)]) ! 5)
   \<and> found_at start_updates plain_names ''10.0.0.2'' True 3 [(\<lambda>_. desk, [], Start_execute),
      (\<lambda>_. desk, [3], Start_seeker_updated 3), (\<lambda>_. desk, [3], Start_computer_updated)]"
proof -
  define es where "es = [(\<lambda>_ :: nat. desk, [] :: nat list, Start_execute),
    (\<lambda>_. desk, [3], Start_seeker_updated 3), (\<lambda>_. desk, [3], Start_computer_updated)]"
  obtain s' os where run: "react (start_step plain_names) (new_start ''10.0.0.2'' ''Game'') es = (s', os)" by force
  have os: "os = [Start_seek (Add_host ''10.0.0.2''), Start_seek Start_polling, Searching_computer,
      Start_seek Stop_polling, Searching_app, Session_created 3 (hd (appList desk))]"
    using run by (auto simp: es_def new_start_def start_step_def seeker_start_def seeker_updated_def
        findMatchingComputer_def start_computer_found_def
        start_computer_updated_def wanted_app_def game_def)
  from start_session_justified [OF run, rule_format, of 5]
  have "found_at start_updates plain_names ''10.0.0.2'' True 3 es" by (simp add: os)
  then show ?thesis using run os by (simp add: es_def)
qed

end
