(* ===== verification/CliCommands.thy ===== *)
theory CliCommands
  imports CliLaunchers
begin

text \<open>
  The launchers of the commands \<open>pair\<close>, \<open>quit\<close> and \<open>list\<close> (\<open>src/app/cli/pair.cpp\<close>,
  \<open>quitstream.cpp\<close>, \<open>listapps.cpp\<close>), each as the step function of its \<open>handleEvent\<close> and the slots
  that call it, and what their runs may be held to.
\<close>

section \<open>Pairing\<close>

datatype pair_state = Pair_init | Pair_seek_computer | Pair_pairing | Pair_failure | Pair_complete

datatype pair_output =
    Pair_seek seek_output
  | Pair_searching
  | Pair_host nat string
  | Pairing string string
  | Pair_success
  | Already_paired string
  | Pairing_failed string
  | Pair_no_computer string

record pair_launcher =
  pair_computer :: string
  pin_string :: string
  pair_phase :: pair_state
  pair_seeker :: "seeker option"

definition new_pair :: "string \<Rightarrow> string \<Rightarrow> pair_launcher" where
  "new_pair c pin = \<lparr>pair_computer = c, pin_string = pin, pair_phase = Pair_init, pair_seeker = None\<rparr>"

text \<open>\<open>fresh\<close> is the PIN \<open>generatePinString\<close> would return at that moment.\<close>

datatype pair_event =
    Pair_execute string
  | Pair_updated nat
  | Pair_seek_timer
  | Pairing_completed string

definition pair_found :: "heap \<Rightarrow> nat \<Rightarrow> pair_launcher \<Rightarrow> pair_launcher \<times> pair_output list" where
  "pair_found h c s =
     (if pair_phase s = Pair_seek_computer
      then if paired (h c) then (s\<lparr>pair_phase := Pair_failure\<rparr>, [Already_paired (comp_name (h c))])
           else (s\<lparr>pair_phase := Pair_pairing\<rparr>,
                 [Pair_host c (pin_string s), Pairing (comp_name (h c)) (pin_string s)])
      else (s, []))"

definition pair_step ::
  "name_ops \<Rightarrow> pair_launcher \<Rightarrow> heap \<times> nat list \<times> pair_event
     \<Rightarrow> pair_launcher \<times> pair_output list" where
  "pair_step q s x =
     (case x of (h, known, e) \<Rightarrow>
       (case e of
          Pair_execute fresh \<Rightarrow>
            if pair_phase s = Pair_init
            then let s1 = (if pin_string s = [] then s\<lparr>pin_string := fresh\<rparr> else s);
                     (k, os) = seeker_start q h known (pair_computer s)
                 in (s1\<lparr>pair_phase := Pair_seek_computer, pair_seeker := Some k\<rparr>,
                     map Pair_seek os @ [Pair_searching])
            else (s, [])
        | Pair_updated c \<Rightarrow>
            (case pair_seeker s of
               None \<Rightarrow> (s, [])
             | Some k \<Rightarrow>
                 let (k', os, found) = seeker_updated q h c k;
                     s1 = s\<lparr>pair_seeker := Some k'\<rparr>;
                     (s2, o2) = (if found then pair_found h c s1 else (s1, []))
                 in (s2, map Pair_seek os @ o2))
        | Pair_seek_timer \<Rightarrow>
            (case pair_seeker s of
               None \<Rightarrow> (s, [])
             | Some k \<Rightarrow>
                 if \<not> seeking k then (s, [])
                 else let (k', os) = seeker_timeout k; s1 = s\<lparr>pair_seeker := Some k'\<rparr>
                      in if pair_phase s = Pair_seek_computer
                         then (s1\<lparr>pair_phase := Pair_failure\<rparr>,
                               map Pair_seek os @ [Pair_no_computer (pair_computer s)])
                         else (s1, map Pair_seek os))
        | Pairing_completed err \<Rightarrow>
            if pair_phase s = Pair_pairing
            then if err = [] then (s\<lparr>pair_phase := Pair_complete\<rparr>, [Pair_success])
                 else (s\<lparr>pair_phase := Pair_failure\<rparr>, [Pairing_failed err])
            else (s, [])))"

section \<open>Quitting the running app\<close>

datatype quit_state = Quit_init | Quit_seek_computer | Quit_app | Quit_failure

datatype quit_output =
    Quit_seek seek_output
  | Quit_searching
  | Quitting_app
  | Quit_app_of nat
  | Quit_exit int
  | Quit_not_paired string
  | Quit_error string
  | Quit_no_computer string

text \<open>
  \<open>QCoreApplication::exit\<close> ends the event loop: \<open>quit_exited\<close> records it, and no event is delivered
  afterwards.
\<close>

record quit_launcher =
  quit_computer :: string
  quit_phase :: quit_state
  quit_seeker :: "seeker option"
  quit_exited :: bool

definition new_quit :: "string \<Rightarrow> quit_launcher" where
  "new_quit c = \<lparr>quit_computer = c, quit_phase = Quit_init, quit_seeker = None, quit_exited = False\<rparr>"

datatype quit_event =
    Quit_execute
  | Quit_updated nat
  | Quit_seek_timer
  | Quit_completed string

definition quit_found :: "heap \<Rightarrow> nat \<Rightarrow> quit_launcher \<Rightarrow> quit_launcher \<times> quit_output list" where
  "quit_found h c s =
     (if quit_phase s = Quit_seek_computer
      then if paired (h c) then (s\<lparr>quit_phase := Quit_app\<rparr>, [Quitting_app, Quit_app_of c])
           else (s\<lparr>quit_phase := Quit_failure\<rparr>, [Quit_not_paired (comp_name (h c))])
      else (s, []))"

definition quit_handle ::
  "name_ops \<Rightarrow> quit_launcher \<Rightarrow> heap \<times> nat list \<times> quit_event
     \<Rightarrow> quit_launcher \<times> quit_output list" where
  "quit_handle q s x =
     (case x of (h, known, e) \<Rightarrow>
       (case e of
          Quit_execute \<Rightarrow>
            if quit_phase s = Quit_init
            then let (k, os) = seeker_start q h known (quit_computer s)
                 in (s\<lparr>quit_phase := Quit_seek_computer, quit_seeker := Some k\<rparr>,
                     map Quit_seek os @ [Quit_searching])
            else (s, [])
        | Quit_updated c \<Rightarrow>
            (case quit_seeker s of
               None \<Rightarrow> (s, [])
             | Some k \<Rightarrow>
                 let (k', os, found) = seeker_updated q h c k;
                     s1 = s\<lparr>quit_seeker := Some k'\<rparr>;
                     (s2, o2) = (if found then quit_found h c s1 else (s1, []))
                 in (s2, map Quit_seek os @ o2))
        | Quit_seek_timer \<Rightarrow>
            (case quit_seeker s of
               None \<Rightarrow> (s, [])
             | Some k \<Rightarrow>
                 if \<not> seeking k then (s, [])
                 else let (k', os) = seeker_timeout k; s1 = s\<lparr>quit_seeker := Some k'\<rparr>
                      in if quit_phase s = Quit_seek_computer
                         then (s1\<lparr>quit_phase := Quit_failure\<rparr>,
                               map Quit_seek os @ [Quit_no_computer (quit_computer s)])
                         else (s1, map Quit_seek os))
        | Quit_completed err \<Rightarrow>
            if quit_phase s = Quit_app
            then if err = [] then (s\<lparr>quit_exited := True\<rparr>, [Quit_exit 0])
                 else (s\<lparr>quit_phase := Quit_failure\<rparr>, [Quit_error err])
            else (s, [])))"

definition quit_step ::
  "name_ops \<Rightarrow> quit_launcher \<Rightarrow> heap \<times> nat list \<times> quit_event
     \<Rightarrow> quit_launcher \<times> quit_output list" where
  "quit_step q s x = (if quit_exited s then (s, []) else quit_handle q s x)"

section \<open>Listing apps\<close>

datatype list_state = List_init | List_seek_computer | List_apps | List_failure

datatype list_output =
    List_seek seek_output
  | Print string
  | Print_error string
  | List_exit int

record list_launcher =
  list_computer :: string
  verbose :: bool
  print_csv :: bool
  list_phase :: list_state
  list_seeker :: "seeker option"
  list_exited :: bool

definition new_list :: "string \<Rightarrow> bool \<Rightarrow> bool \<Rightarrow> list_launcher" where
  "new_list c v csv = \<lparr>list_computer = c, verbose = v, print_csv = csv, list_phase = List_init,
     list_seeker = None, list_exited = False\<rparr>"

definition newline :: string where "newline = [CHR 0x0A]"
definition quote :: string where "quote = [CHR 0x22]"

definition print_bool :: "bool \<Rightarrow> string" where
  "print_bool b = (if b then ''true'' else ''false'')"

text \<open>\<open>printAppCSV\<close>; \<open>show\<close> prints an integer, \<open>art\<close> is the box art URL of the app.\<close>

definition printAppCSV :: "(int \<Rightarrow> string) \<Rightarrow> (nv_app \<Rightarrow> string) \<Rightarrow> nv_app \<Rightarrow> string" where
  "printAppCSV shows art a =
     quote @ app_name a @ quote @ '','' @ shows (app_id a) @ '','' @ print_bool (hdr_supported a) @ '',''
     @ print_bool (app_collector a) @ '','' @ print_bool (hidden a) @ '',''
     @ print_bool (direct_launch a) @ '','' @ quote @ art a @ quote @ newline"

definition printAppsCSV :: "(int \<Rightarrow> string) \<Rightarrow> (nv_app \<Rightarrow> string) \<Rightarrow> nv_app list \<Rightarrow> string list" where
  "printAppsCSV shows art apps =
     (''Name, ID, HDR Support, App Collection Game, Hidden, Direct Launch, Boxart URL'' @ newline)
       # map (printAppCSV shows art) apps"

definition printApps :: "nv_app list \<Rightarrow> string list" where
  "printApps apps = map (\<lambda>a. app_name a @ newline) apps"

text \<open>\<open>fetch\<close> is \<open>NvHTTP::getAppList\<close>: the list, or the exception's text.\<close>

definition list_found ::
  "(int \<Rightarrow> string) \<Rightarrow> (nv_app \<Rightarrow> string) \<Rightarrow> (nat \<Rightarrow> string + nv_app list) \<Rightarrow> heap \<Rightarrow> nat
     \<Rightarrow> list_launcher \<Rightarrow> list_launcher \<times> list_output list" where
  "list_found shows art fetch h c s =
     (if list_phase s = List_seek_computer
      then if paired (h c)
           then (s\<lparr>list_phase := List_apps, list_exited := True\<rparr>,
                 (if verbose s then [Print (''Loading app list...'' @ newline)] else [])
                 @ (case fetch c of
                      Inl err \<Rightarrow> [Print_error err, List_exit 1]
                    | Inr apps \<Rightarrow> map Print (if print_csv s then printAppsCSV shows art apps
                                          else printApps apps) @ [List_exit 0]))
           else (s\<lparr>list_phase := List_failure, list_exited := True\<rparr>,
                 [Print_error (''Computer '' @ comp_name (h c) @ '' has not been paired. Please open Moonlight to pair before retrieving games list.''),
                  List_exit (-1)])
      else (s, []))"

datatype list_event =
    List_execute
  | List_updated nat
  | List_seek_timer

definition list_handle ::
  "name_ops \<Rightarrow> (int \<Rightarrow> string) \<Rightarrow> (nv_app \<Rightarrow> string) \<Rightarrow> (nat \<Rightarrow> string + nv_app list)
     \<Rightarrow> list_launcher \<Rightarrow> heap \<times> nat list \<times> list_event \<Rightarrow> list_launcher \<times> list_output list" where
  "list_handle q shows art fetch s x =
     (case x of (h, known, e) \<Rightarrow>
       (case e of
          List_execute \<Rightarrow>
            if list_phase s = List_init
            then let (k, os) = seeker_start q h known (list_computer s)
                 in (s\<lparr>list_phase := List_seek_computer, list_seeker := Some k\<rparr>,
                     map List_seek os
                     @ (if verbose s then [Print (''Establishing connection to PC...'' @ newline)] else []))
            else (s, [])
        | List_updated c \<Rightarrow>
            (case list_seeker s of
               None \<Rightarrow> (s, [])
             | Some k \<Rightarrow>
                 let (k', os, found) = seeker_updated q h c k;
                     s1 = s\<lparr>list_seeker := Some k'\<rparr>;
                     (s2, o2) = (if found then list_found shows art fetch h c s1 else (s1, []))
                 in (s2, map List_seek os @ o2))
        | List_seek_timer \<Rightarrow>
            (case list_seeker s of
               None \<Rightarrow> (s, [])
             | Some k \<Rightarrow>
                 if \<not> seeking k then (s, [])
                 else let (k', os) = seeker_timeout k; s1 = s\<lparr>list_seeker := Some k'\<rparr>
                      in if list_phase s = List_seek_computer
                         then (s1\<lparr>list_exited := True\<rparr>,
                               map List_seek os
                               @ [Print_error (''Failed to connect to '' @ list_computer s), List_exit (-1)])
                         else (s1, map List_seek os))))"

definition list_step ::
  "name_ops \<Rightarrow> (int \<Rightarrow> string) \<Rightarrow> (nv_app \<Rightarrow> string) \<Rightarrow> (nat \<Rightarrow> string + nv_app list)
     \<Rightarrow> list_launcher \<Rightarrow> heap \<times> nat list \<times> list_event \<Rightarrow> list_launcher \<times> list_output list" where
  "list_step q shows art fetch s x =
     (if list_exited s then (s, []) else list_handle q shows art fetch s x)"

section \<open>Pairing keeps the contract\<close>

definition pair_inv_ok :: "pair_launcher \<Rightarrow> bool" where
  "pair_inv_ok s \<longleftrightarrow> (case pair_seeker s of
     None \<Rightarrow> pair_phase s = Pair_init
   | Some k \<Rightarrow> pair_phase s \<noteq> Pair_init \<and> sought k = pair_computer s
       \<and> (seeking k \<longrightarrow> pair_phase s = Pair_seek_computer))"

definition pair_over :: "pair_launcher \<Rightarrow> bool" where
  "pair_over s \<longleftrightarrow> pair_phase s = Pair_failure \<or> pair_phase s = Pair_complete"

fun pair_final :: "pair_output \<Rightarrow> bool" where
  "pair_final Pair_success = True"
| "pair_final (Already_paired _) = True"
| "pair_final (Pairing_failed _) = True"
| "pair_final (Pair_no_computer _) = True"
| "pair_final _ = False"

lemma pair_step_ok:
  assumes inv: "pair_inv_ok s" and step: "pair_step q s x = (s', os)"
  shows "pair_inv_ok s'
    \<and> (pair_over s \<longrightarrow> pair_over s' \<and> os = [])
    \<and> ((\<forall>z\<in>set os. \<not> pair_final z)
       \<or> (pair_over s' \<and> (\<exists>front z. os = front @ [z] \<and> (\<forall>y\<in>set front. \<not> pair_final y))))"
proof -
  obtain h known e where x: "x = (h, known, e)" by (cases x)
  show ?thesis
  proof (cases e)
    case (Pair_updated c)
    show ?thesis
    proof (cases "pair_seeker s")
      case None
      then show ?thesis using Pair_updated inv step by (auto simp: x pair_step_def)
    next
      case (Some k)
      obtain k' o0 found where u: "seeker_updated q h c k = (k', o0, found)" by (metis prod_cases3)
      have s_eq: "s\<lparr>pair_seeker := Some k\<rparr> = s" using Some by simp
      show ?thesis
        using seeker_updated_cases [OF u] inv step Some u s_eq
        by (auto simp: x Pair_updated pair_step_def pair_inv_ok_def pair_over_def Let_def
            pair_found_def split: if_splits option.splits)
    qed
  qed (use inv step in \<open>auto simp: x pair_step_def pair_inv_ok_def pair_over_def seeker_timeout_def
      seeker_start_def Let_def split: if_splits option.splits prod.splits\<close>)
qed

text \<open>
  The PIN of a run: the one given, or the one generated when the launcher was executed.
\<close>

definition pin_of_run :: "string \<Rightarrow> (heap \<times> nat list \<times> pair_event) list \<Rightarrow> string \<Rightarrow> bool" where
  "pin_of_run pin xs p \<longleftrightarrow>
     (if pin \<noteq> [] then p = pin else \<exists>(h, known, e)\<in>set xs. e = Pair_execute p)"

fun pair_updates :: "pair_event \<Rightarrow> nat option" where
  "pair_updates (Pair_updated c) = Some c"
| "pair_updates _ = None"

fun is_pair_host :: "pair_output \<Rightarrow> bool" where
  "is_pair_host (Pair_host _ _) = True"
| "is_pair_host _ = False"

definition pair_sees ::
  "name_ops \<Rightarrow> string \<Rightarrow> string \<Rightarrow> (heap \<times> nat list \<times> pair_event) list
     \<Rightarrow> pair_output list \<Rightarrow> pair_launcher \<Rightarrow> bool" where
  "pair_sees q pc pin xs outs s \<longleftrightarrow> pair_computer s = pc
     \<and> (pair_phase s = Pair_init \<longrightarrow> pin_string s = pin)
     \<and> (pair_phase s \<noteq> Pair_init \<longrightarrow> pin_of_run pin xs (pin_string s))
     \<and> (pair_phase s \<in> {Pair_init, Pair_seek_computer} \<longrightarrow> (\<forall>z\<in>set outs. \<not> is_pair_host z))
     \<and> (pair_phase s = Pair_pairing \<longrightarrow> (\<exists>c. Pair_host c (pin_string s) \<in> set outs))"

fun pair_just ::
  "name_ops \<Rightarrow> string \<Rightarrow> string \<Rightarrow> (heap \<times> nat list \<times> pair_event) list
     \<Rightarrow> pair_output list \<Rightarrow> pair_output \<Rightarrow> bool" where
  "pair_just q pc pin xs outs (Pair_host c p) \<longleftrightarrow>
     found_at pair_updates q pc False c xs \<and> pin_of_run pin xs p \<and> (\<forall>z\<in>set outs. \<not> is_pair_host z)"
| "pair_just q pc pin xs outs Pair_success \<longleftrightarrow>
     (\<exists>c p. Pair_host c p \<in> set outs) \<and> (\<exists>(h, known, e)\<in>set xs. e = Pairing_completed [])"
| "pair_just q pc pin xs outs z \<longleftrightarrow> True"

lemma pin_of_run_mono [simp]: "pin_of_run pin xs p \<Longrightarrow> pin_of_run pin (xs @ ys) p"
  by (auto simp: pin_of_run_def split: if_splits)

lemma pair_audit:
  assumes inv: "pair_inv_ok s" and sees: "pair_sees q pc pin xs outs s"
    and step: "pair_step q s x = (s', os)"
  shows "pair_sees q pc pin (xs @ [x]) (outs @ os) s'
       \<and> (\<forall>i<length os. pair_just q pc pin (xs @ [x]) (outs @ take i os) (os ! i))"
proof -
  obtain h known e where x: "x = (h, known, e)" by (cases x)
  show ?thesis
  proof (cases e)
    case (Pair_execute fresh)
    show ?thesis
    proof (cases "pair_phase s = Pair_init")
      case True
      obtain k o0 where k: "seeker_start q h known (pair_computer s) = (k, o0)" by force
      have "pin_of_run pin (xs @ [x]) (if pin_string s = [] then fresh else pin_string s)"
        using sees True by (auto simp: pair_sees_def pin_of_run_def x Pair_execute)
      then show ?thesis using sees step True k
        by (auto simp: x Pair_execute pair_step_def pair_sees_def Let_def nth_append less_Suc_eq
            split: if_splits)
    next
      case False
      then show ?thesis using sees step by (auto simp: x Pair_execute pair_step_def pair_sees_def)
    qed
  next
    case (Pair_updated c)
    show ?thesis
    proof (cases "pair_seeker s")
      case None
      then show ?thesis using Pair_updated sees step by (auto simp: x pair_step_def pair_sees_def)
    next
      case (Some k)
      obtain k' o0 found where u: "seeker_updated q h c k = (k', o0, found)" by (metis prod_cases3)
      have s_eq: "s\<lparr>pair_seeker := Some k\<rparr> = s" using Some by simp
      have k: "sought k = pc" using inv sees Some by (simp add: pair_inv_ok_def pair_sees_def)
      show ?thesis
        using seeker_updated_cases [OF u] sees step Some u s_eq k
        by (auto simp: x Pair_updated pair_step_def pair_sees_def Let_def pair_found_def less_Suc_eq
            found_at_def split: if_splits option.splits)
    qed
  next
    case Pair_seek_timer
    then show ?thesis using sees step
      by (auto simp: x pair_step_def pair_sees_def seeker_timeout_def Let_def less_Suc_eq
          split: if_splits option.splits)
  next
    case (Pairing_completed err)
    then show ?thesis using sees step
      by (auto simp: x pair_step_def pair_sees_def split: if_splits) blast
  qed
qed

interpretation pairing: audited_launcher "pair_step q" pair_inv_ok pair_over pair_final
  "pair_sees q pc pin" "pair_just q pc pin"
proof (unfold_locales, goal_cases)
  case (1 s e s' os)
  then show ?case using pair_step_ok by blast
next
  case (2 s e s' os)
  then show ?case using pair_step_ok by blast
next
  case (3 s e s' os i)
  from pair_step_ok [OF 3(1, 2)] show ?case
    using one_final [where P = pair_final, OF _ 3(3, 4), of "pair_over s'"] by blast
next
  case (4 s xs outs x s' os)
  then show ?case by (rule pair_audit)
next
  case (5 xs outs z ys)
  then show ?case by (cases z) auto
qed

lemma new_pair_ok: "pair_inv_ok (new_pair pc pin)" "pair_sees q pc pin [] [] (new_pair pc pin)"
  by (simp_all add: pair_inv_ok_def new_pair_def pair_sees_def)

text \<open>
  pairing is requested once at most in a run, only of a computer that matched the name,
  was online and not paired when it was found, with the PIN given or the one generated at the
  start; success is reported only after that request and its completion without an error; the
  outcome is the last thing a run reports.
\<close>
theorem pairing_justified:
  assumes "react (pair_step q) (new_pair pc pin) es = (s', os)" and "i < length os"
  shows "(\<forall>c p. os ! i = Pair_host c p \<longrightarrow>
        found_at pair_updates q pc False c es \<and> pin_of_run pin es p
        \<and> (\<forall>z\<in>set (take i os). \<not> is_pair_host z))
    \<and> (os ! i = Pair_success \<longrightarrow> (\<exists>c p. Pair_host c p \<in> set (take i os)))
    \<and> (pair_final (os ! i) \<longrightarrow> Suc i = length os)"
proof -
  have "pair_just q pc pin es (take i os) (os ! i)"
    using pairing.run_justified [OF new_pair_ok(1) new_pair_ok(2) assms] by simp
  then show ?thesis
    using pairing.final_is_last [OF new_pair_ok(1) assms] by auto
qed

theorem pairing_justified_witness:
  "snd (react (pair_step plain_names) (new_pair ''desk'' [])
     [(\<lambda>_. desk\<lparr>pair_status := PS_NOT_PAIRED\<rparr>, [3], Pair_execute ''1234''), (\<lambda>_. desk\<lparr>pair_status := PS_NOT_PAIRED\<rparr>, [3], Pair_updated 3),
      (\<lambda>_. desk, [3], Pairing_completed [])]) ! 4 = Pair_host 3 ''1234''
   \<and> pin_of_run [] [(\<lambda>_. desk\<lparr>pair_status := PS_NOT_PAIRED\<rparr>, [3], Pair_execute ''1234''), (\<lambda>_. desk\<lparr>pair_status := PS_NOT_PAIRED\<rparr>, [3], Pair_updated 3),
      (\<lambda>_. desk, [3], Pairing_completed [])] ''1234''"
proof -
  define es where "es = [(\<lambda>_ :: nat. desk\<lparr>pair_status := PS_NOT_PAIRED\<rparr>, [3 :: nat], Pair_execute ''1234''),
    (\<lambda>_. desk\<lparr>pair_status := PS_NOT_PAIRED\<rparr>, [3], Pair_updated 3), (\<lambda>_. desk, [3], Pairing_completed [])]"
  obtain s' os where run: "react (pair_step plain_names) (new_pair ''desk'' []) es = (s', os)" by force
  have os: "os = [Pair_seek (Wake 3), Pair_seek Start_polling, Pair_searching, Pair_seek Stop_polling,
      Pair_host 3 ''1234'', Pairing ''desk'' ''1234'', Pair_success]"
    using run by (auto simp: es_def new_pair_def pair_step_def seeker_start_def seeker_updated_def
        findMatchingComputer_def pair_found_def game_def)
  from pairing_justified [OF run, of 4] have "pin_of_run [] es ''1234''" by (simp add: os)
  then show ?thesis using run os by (simp add: es_def)
qed

section \<open>Quitting keeps the contract\<close>

definition quit_inv_ok :: "quit_launcher \<Rightarrow> bool" where
  "quit_inv_ok s \<longleftrightarrow> (case quit_seeker s of
     None \<Rightarrow> quit_phase s = Quit_init
   | Some k \<Rightarrow> quit_phase s \<noteq> Quit_init \<and> sought k = quit_computer s
       \<and> (seeking k \<longrightarrow> quit_phase s = Quit_seek_computer))"

definition quit_over :: "quit_launcher \<Rightarrow> bool" where
  "quit_over s \<longleftrightarrow> quit_exited s \<or> quit_phase s = Quit_failure"

fun quit_final :: "quit_output \<Rightarrow> bool" where
  "quit_final (Quit_exit _) = True"
| "quit_final (Quit_not_paired _) = True"
| "quit_final (Quit_error _) = True"
| "quit_final (Quit_no_computer _) = True"
| "quit_final _ = False"

lemma quit_step_ok:
  assumes inv: "quit_inv_ok s" and step: "quit_step q s x = (s', os)"
  shows "quit_inv_ok s'
    \<and> (quit_over s \<longrightarrow> quit_over s' \<and> os = [])
    \<and> ((\<forall>z\<in>set os. \<not> quit_final z)
       \<or> (quit_over s' \<and> (\<exists>front z. os = front @ [z] \<and> (\<forall>y\<in>set front. \<not> quit_final y))))"
proof -
  obtain h known e where x: "x = (h, known, e)" by (cases x)
  show ?thesis
  proof (cases e)
    case (Quit_updated c)
    show ?thesis
    proof (cases "quit_seeker s")
      case None
      then show ?thesis using Quit_updated inv step
        by (auto simp: x quit_step_def quit_handle_def split: if_splits)
    next
      case (Some k)
      obtain k' o0 found where u: "seeker_updated q h c k = (k', o0, found)" by (metis prod_cases3)
      have s_eq: "s\<lparr>quit_seeker := Some k\<rparr> = s" using Some by simp
      show ?thesis
        using seeker_updated_cases [OF u] inv step Some u s_eq
        by (auto simp: x Quit_updated quit_step_def quit_handle_def quit_inv_ok_def quit_over_def Let_def
            quit_found_def split: if_splits option.splits)
    qed
  qed (use inv step in \<open>auto simp: x quit_step_def quit_handle_def quit_inv_ok_def quit_over_def
      seeker_timeout_def seeker_start_def Let_def split: if_splits option.splits prod.splits\<close>)
qed

fun quit_updates :: "quit_event \<Rightarrow> nat option" where
  "quit_updates (Quit_updated c) = Some c"
| "quit_updates _ = None"

fun is_quit_app :: "quit_output \<Rightarrow> bool" where
  "is_quit_app (Quit_app_of _) = True"
| "is_quit_app _ = False"

definition quit_sees ::
  "name_ops \<Rightarrow> string \<Rightarrow> (heap \<times> nat list \<times> quit_event) list
     \<Rightarrow> quit_output list \<Rightarrow> quit_launcher \<Rightarrow> bool" where
  "quit_sees q pc xs outs s \<longleftrightarrow> quit_computer s = pc
     \<and> (quit_phase s \<in> {Quit_init, Quit_seek_computer} \<longrightarrow> (\<forall>z\<in>set outs. \<not> is_quit_app z))
     \<and> (quit_phase s = Quit_app \<longrightarrow> (\<exists>c. Quit_app_of c \<in> set outs))"

fun quit_just ::
  "name_ops \<Rightarrow> string \<Rightarrow> (heap \<times> nat list \<times> quit_event) list
     \<Rightarrow> quit_output list \<Rightarrow> quit_output \<Rightarrow> bool" where
  "quit_just q pc xs outs (Quit_app_of c) \<longleftrightarrow>
     found_at quit_updates q pc True c xs \<and> (\<forall>z\<in>set outs. \<not> is_quit_app z)"
| "quit_just q pc xs outs (Quit_exit n) \<longleftrightarrow>
     n = 0 \<and> (\<exists>c. Quit_app_of c \<in> set outs) \<and> (\<exists>(h, known, e)\<in>set xs. e = Quit_completed [])"
| "quit_just q pc xs outs z \<longleftrightarrow> True"

lemma quit_audit:
  assumes inv: "quit_inv_ok s" and sees: "quit_sees q pc xs outs s"
    and step: "quit_step q s x = (s', os)"
  shows "quit_sees q pc (xs @ [x]) (outs @ os) s'
       \<and> (\<forall>i<length os. quit_just q pc (xs @ [x]) (outs @ take i os) (os ! i))"
proof -
  obtain h known e where x: "x = (h, known, e)" by (cases x)
  show ?thesis
  proof (cases e)
    case Quit_execute
    then show ?thesis using sees step
      by (auto simp: x quit_step_def quit_handle_def quit_sees_def seeker_start_def Let_def nth_append
          less_Suc_eq split: if_splits option.splits prod.splits)
  next
    case (Quit_updated c)
    show ?thesis
    proof (cases "quit_seeker s")
      case None
      then show ?thesis using Quit_updated sees step
        by (auto simp: x quit_step_def quit_handle_def quit_sees_def split: if_splits)
    next
      case (Some k)
      obtain k' o0 found where u: "seeker_updated q h c k = (k', o0, found)" by (metis prod_cases3)
      have s_eq: "s\<lparr>quit_seeker := Some k\<rparr> = s" using Some by simp
      have k: "sought k = pc" using inv sees Some by (simp add: quit_inv_ok_def quit_sees_def)
      show ?thesis
        using seeker_updated_cases [OF u] sees step Some u s_eq k
        by (auto simp: x Quit_updated quit_step_def quit_handle_def quit_sees_def Let_def quit_found_def
            less_Suc_eq found_at_def split: if_splits option.splits)
    qed
  next
    case Quit_seek_timer
    then show ?thesis using sees step
      by (auto simp: x quit_step_def quit_handle_def quit_sees_def seeker_timeout_def Let_def less_Suc_eq
          split: if_splits option.splits)
  next
    case (Quit_completed err)
    then show ?thesis using sees step
      by (auto simp: x quit_step_def quit_handle_def quit_sees_def split: if_splits)
  qed
qed

interpretation quitting: audited_launcher "quit_step q" quit_inv_ok quit_over quit_final
  "quit_sees q pc" "quit_just q pc"
proof (unfold_locales, goal_cases)
  case (1 s e s' os)
  then show ?case using quit_step_ok by blast
next
  case (2 s e s' os)
  then show ?case using quit_step_ok by blast
next
  case (3 s e s' os i)
  from quit_step_ok [OF 3(1, 2)] show ?case
    using one_final [where P = quit_final, OF _ 3(3, 4), of "quit_over s'"] by blast
next
  case (4 s xs outs x s' os)
  then show ?case by (rule quit_audit)
next
  case (5 xs outs z ys)
  then show ?case by (cases z) auto
qed

lemma new_quit_ok: "quit_inv_ok (new_quit pc)" "quit_sees q pc [] [] (new_quit pc)"
  by (simp_all add: quit_inv_ok_def new_quit_def quit_sees_def)

text \<open>
  the running app is told to quit once at most, only on a computer that matched the name,
  was online and paired when it was found; the process exits with 0, its only exit code, after
  that request and its completion without an error; the outcome is the last thing a run reports.
\<close>
theorem quit_justified:
  assumes "react (quit_step q) (new_quit pc) es = (s', os)" and "i < length os"
  shows "(\<forall>c. os ! i = Quit_app_of c \<longrightarrow>
        found_at quit_updates q pc True c es \<and> (\<forall>z\<in>set (take i os). \<not> is_quit_app z))
    \<and> (\<forall>n. os ! i = Quit_exit n \<longrightarrow> n = 0 \<and> (\<exists>c. Quit_app_of c \<in> set (take i os))
           \<and> (\<exists>(h, known, e)\<in>set es. e = Quit_completed []))
    \<and> (quit_final (os ! i) \<longrightarrow> Suc i = length os)"
proof -
  have "quit_just q pc es (take i os) (os ! i)"
    using quitting.run_justified [OF new_quit_ok(1) new_quit_ok(2) assms] by simp
  then show ?thesis
    using quitting.final_is_last [OF new_quit_ok(1) assms] by auto
qed

theorem quit_justified_witness:
  "snd (react (quit_step plain_names) (new_quit ''desk'')
     [(\<lambda>_. desk, [3], Quit_execute), (\<lambda>_. desk, [3], Quit_updated 3),
      (\<lambda>_. desk, [3], Quit_completed [])]) ! 6 = Quit_exit 0
   \<and> Quit_app_of 3 \<in> set (snd (react (quit_step plain_names) (new_quit ''desk'')
     [(\<lambda>_. desk, [3], Quit_execute), (\<lambda>_. desk, [3], Quit_updated 3),
      (\<lambda>_. desk, [3], Quit_completed [])]))"
proof -
  define es where "es = [(\<lambda>_ :: nat. desk, [3 :: nat], Quit_execute),
    (\<lambda>_. desk, [3], Quit_updated 3), (\<lambda>_. desk, [3], Quit_completed [])]"
  obtain s' os where run: "react (quit_step plain_names) (new_quit ''desk'') es = (s', os)" by force
  have os: "os = [Quit_seek (Wake 3), Quit_seek Start_polling, Quit_searching, Quit_seek Stop_polling,
      Quitting_app, Quit_app_of 3, Quit_exit 0]"
    using run by (auto simp: es_def new_quit_def quit_step_def quit_handle_def seeker_start_def
        seeker_updated_def findMatchingComputer_def quit_found_def game_def)
  from quit_justified [OF run, of 6] have "\<exists>c. Quit_app_of c \<in> set (take 6 os)" by (simp add: os)
  then show ?thesis using run os by (simp add: es_def)
qed

section \<open>Listing keeps the contract\<close>

definition list_inv_ok :: "list_launcher \<Rightarrow> bool" where
  "list_inv_ok s \<longleftrightarrow> (case list_seeker s of
     None \<Rightarrow> list_phase s = List_init
   | Some k \<Rightarrow> list_phase s \<noteq> List_init \<and> sought k = list_computer s)"

definition list_over :: "list_launcher \<Rightarrow> bool" where
  "list_over s \<longleftrightarrow> list_exited s"

fun list_final :: "list_output \<Rightarrow> bool" where
  "list_final (List_exit _) = True"
| "list_final _ = False"

lemma list_step_ok:
  assumes inv: "list_inv_ok s" and step: "list_step q shows art fetch s x = (s', os)"
  shows "list_inv_ok s'
    \<and> (list_over s \<longrightarrow> list_over s' \<and> os = [])
    \<and> ((\<forall>z\<in>set os. \<not> list_final z)
       \<or> (list_over s' \<and> (\<exists>front z. os = front @ [z] \<and> (\<forall>y\<in>set front. \<not> list_final y))))"
proof -
  obtain h known e where x: "x = (h, known, e)" by (cases x)
  show ?thesis
  proof (cases e)
    case (List_updated c)
    show ?thesis
    proof (cases "list_seeker s")
      case None
      then show ?thesis using List_updated inv step
        by (auto simp: x list_step_def list_handle_def split: if_splits)
    next
      case (Some k)
      obtain k' o0 found where u: "seeker_updated q h c k = (k', o0, found)" by (metis prod_cases3)
      have s_eq: "s\<lparr>list_seeker := Some k\<rparr> = s" using Some by simp
      show ?thesis
        using seeker_updated_cases [OF u] inv step Some u s_eq
        by (auto simp: x List_updated list_step_def list_handle_def list_inv_ok_def list_over_def Let_def
            list_found_def split: if_splits option.splits sum.splits)
    qed
  qed (use inv step in \<open>auto simp: x list_step_def list_handle_def list_inv_ok_def list_over_def
      seeker_timeout_def seeker_start_def Let_def split: if_splits option.splits prod.splits\<close>)
qed


fun list_updates :: "list_event \<Rightarrow> nat option" where
  "list_updates (List_updated c) = Some c"
| "list_updates _ = None"

text \<open>What a run wrote to the standard output.\<close>

fun printed :: "list_output list \<Rightarrow> string list" where
  "printed [] = []"
| "printed (Print t # os) = t # printed os"
| "printed (_ # os) = printed os"

lemma printed_append [simp]: "printed (xs @ ys) = printed xs @ printed ys"
  by (induction xs rule: printed.induct) auto

lemma printed_seek [simp]: "printed (map List_seek os) = []"
  by (induction os) auto

lemma printed_map [simp]: "printed (map Print ts) = ts"
  by (induction ts) auto

definition greeting :: "bool \<Rightarrow> string list" where
  "greeting v = (if v then [''Establishing connection to PC...'' @ newline] else [])"

definition list_sees ::
  "string \<Rightarrow> bool \<Rightarrow> bool \<Rightarrow> (heap \<times> nat list \<times> list_event) list
     \<Rightarrow> list_output list \<Rightarrow> list_launcher \<Rightarrow> bool" where
  "list_sees pc v csv xs outs s \<longleftrightarrow> list_computer s = pc \<and> verbose s = v \<and> print_csv s = csv
     \<and> (list_phase s = List_init \<longrightarrow> printed outs = [])
     \<and> (list_phase s = List_seek_computer \<longrightarrow> printed outs = greeting v)"

fun is_print_error :: "list_output \<Rightarrow> bool" where
  "is_print_error (Print_error _) = True"
| "is_print_error _ = False"

fun list_just ::
  "name_ops \<Rightarrow> (int \<Rightarrow> string) \<Rightarrow> (nv_app \<Rightarrow> string) \<Rightarrow> (nat \<Rightarrow> string + nv_app list)
     \<Rightarrow> string \<Rightarrow> bool \<Rightarrow> bool \<Rightarrow> (heap \<times> nat list \<times> list_event) list
     \<Rightarrow> list_output list \<Rightarrow> list_output \<Rightarrow> bool" where
  "list_just q shows art fetch pc v csv xs outs (List_exit n) \<longleftrightarrow>
     (if n = 0
      then \<exists>c apps. found_at list_updates q pc True c xs \<and> fetch c = Inr apps
        \<and> printed outs = greeting v @ (if v then [''Loading app list...'' @ newline] else [])
             @ (if csv then printAppsCSV shows art apps else printApps apps)
      else (\<exists>z\<in>set outs. is_print_error z) \<and> (n = 1 \<or> n = -1)
        \<and> (n = 1 \<longrightarrow> (\<exists>c err. found_at list_updates q pc True c xs \<and> fetch c = Inl err)))"
| "list_just q shows art fetch pc v csv xs outs z \<longleftrightarrow> True"

lemma list_just_trivial: "\<not> list_final z \<Longrightarrow> list_just q shows art fetch pc v csv xs outs z"
  by (cases z) simp_all

lemma just_at_end:
  assumes "\<forall>z\<in>set front. \<not> list_final z"
    and "list_just q shows art fetch pc v csv xs (outs @ front) z"
  shows "\<forall>i<length (front @ [z]). list_just q shows art fetch pc v csv xs
           (outs @ take i (front @ [z])) ((front @ [z]) ! i)"
  using assms by (auto simp: nth_append less_Suc_eq intro: list_just_trivial dest: nth_mem)

lemma list_found_audit:
  assumes f: "list_found shows art fetch h c s = (s', os)"
    and m: "matchComputer q pc (h c)" "online (h c)" "updates = List_updated c"
    and sees: "list_sees pc v csv xs outs s"
  shows "list_sees pc v csv (xs @ [(h, known, updates)]) (outs @ os) s'
       \<and> (\<forall>i<length os. list_just q shows art fetch pc v csv (xs @ [(h, known, updates)])
            (outs @ take i os) (os ! i))"
proof (cases "list_phase s = List_seek_computer \<and> paired (h c)")
  case True
  then have found: "found_at list_updates q pc True c (xs @ [(h, known, updates)])"
    using m by (simp add: found_at_def)
  let ?load = "if v then [Print (''Loading app list...'' @ newline)] else []"
  have seen: "verbose s = v" "print_csv s = csv" "list_computer s = pc" "printed outs = greeting v"
    using sees True by (auto simp: list_sees_def)
  have s': "s' = s\<lparr>list_phase := List_apps, list_exited := True\<rparr>"
    using f True by (simp add: list_found_def)
  show ?thesis
  proof (cases "fetch c")
    case (Inl err)
    then have os: "os = (?load @ [Print_error err]) @ [List_exit 1]"
      using f True seen by (simp add: list_found_def)
    show ?thesis unfolding os using found Inl
      by (intro conjI just_at_end) (auto simp: list_sees_def s' seen)
  next
    case (Inr apps)
    then have os: "os = (?load @ map Print (if csv then printAppsCSV shows art apps else printApps apps))
        @ [List_exit 0]"
      using f True seen by (simp add: list_found_def)
    have "list_just q shows art fetch pc v csv (xs @ [(h, known, updates)])
       (outs @ ?load @ map Print (if csv then printAppsCSV shows art apps else printApps apps))
       (List_exit 0)"
      using found Inr seen by auto
    then show ?thesis unfolding os
      by (intro conjI just_at_end) (auto simp: list_sees_def s' seen)
  qed
next
  case False
  show ?thesis
  proof (cases "list_phase s = List_seek_computer")
    case True
    with False f obtain t where os: "os = [Print_error t] @ [List_exit (-1)]"
      and s': "s' = s\<lparr>list_phase := List_failure, list_exited := True\<rparr>"
      by (auto simp: list_found_def)
    show ?thesis unfolding os using sees
      by (intro conjI just_at_end) (auto simp: list_sees_def s')
  next
    case False
    then show ?thesis using f sees by (auto simp: list_found_def list_sees_def)
  qed
qed

lemma list_audit:
  assumes inv: "list_inv_ok s" and sees: "list_sees pc v csv xs outs s"
    and step: "list_step q shows art fetch s x = (s', os)"
  shows "list_sees pc v csv (xs @ [x]) (outs @ os) s'
       \<and> (\<forall>i<length os. list_just q shows art fetch pc v csv (xs @ [x]) (outs @ take i os) (os ! i))"
proof (cases "list_exited s")
  case True
  then show ?thesis using step sees by (auto simp: list_step_def list_sees_def)
next
  case False
  obtain h known e where x: "x = (h, known, e)" by (cases x)
  have step': "list_handle q shows art fetch s (h, known, e) = (s', os)"
    using step False by (simp add: list_step_def x)
  show ?thesis
  proof (cases e)
    case List_execute
    then show ?thesis using sees step'
      by (auto simp: x list_handle_def list_sees_def seeker_start_def Let_def greeting_def nth_append
          less_Suc_eq split: if_splits option.splits prod.splits)
  next
    case (List_updated c)
    show ?thesis
    proof (cases "list_seeker s")
      case None
      then show ?thesis using List_updated sees step' by (auto simp: x list_handle_def list_sees_def)
    next
      case (Some k)
      obtain k' o0 found where u: "seeker_updated q h c k = (k', o0, found)" by (metis prod_cases3)
      have k: "sought k = pc" using inv sees Some by (simp add: list_inv_ok_def list_sees_def)
      have sees': "list_sees pc v csv xs (outs @ map List_seek o0) (s\<lparr>list_seeker := Some k'\<rparr>)"
        using sees by (simp add: list_sees_def)
      show ?thesis
      proof (cases found)
        case True
        obtain s2 o2 where f: "list_found shows art fetch h c (s\<lparr>list_seeker := Some k'\<rparr>) = (s2, o2)" by force
        have r: "s' = s2" "os = [List_seek Stop_polling] @ o2" "o0 = [Stop_polling]"
          using step' List_updated Some u True f seeker_updated_cases [OF u] by (auto simp: list_handle_def)
        have "matchComputer q pc (h c)" "online (h c)"
          using seeker_updated_cases [OF u] True k by auto
        from list_found_audit [OF f this refl sees', of known] show ?thesis
          unfolding r x List_updated by (auto simp: nth_Cons' take_Cons' r(3))
      next
        case False
        then show ?thesis using step' List_updated Some u seeker_updated_cases [OF u] sees
          by (auto simp: list_handle_def list_sees_def)
      qed
    qed
  next
    case List_seek_timer
    then show ?thesis using sees step'
      by (auto simp: x list_handle_def list_sees_def seeker_timeout_def Let_def less_Suc_eq
          split: if_splits option.splits)
  qed
qed

interpretation listing: audited_launcher "list_step q shows art fetch" list_inv_ok list_over list_final
  "list_sees pc v csv" "list_just q shows art fetch pc v csv"
proof (unfold_locales, goal_cases)
  case (1 s e s' os)
  then show ?case using list_step_ok by blast
next
  case (2 s e s' os)
  then show ?case using list_step_ok by blast
next
  case (3 s e s' os i)
  from list_step_ok [OF 3(1, 2)] show ?case
    using one_final [where P = list_final, OF _ 3(3, 4), of "list_over s'"] by blast
next
  case (4 s xs outs x s' os)
  then show ?case by (rule list_audit)
next
  case (5 xs outs z ys)
  then show ?case by (cases z) (auto split: if_splits, (metis found_at_mono)+)
qed

lemma new_list_ok: "list_inv_ok (new_list pc v csv)" "list_sees pc v csv [] [] (new_list pc v csv)"
  by (simp_all add: list_inv_ok_def new_list_def list_sees_def)

text \<open>
  the process exits once, as the last thing it does. It exits with 0 exactly when the apps of
  a computer were fetched that matched the name, was online and paired when it was found, and then
  the standard output holds the greeting lines asked for and the whole list in the format asked for;
  it exits with 1 for a failed fetch and with -1 otherwise, with a message on the error output.
\<close>
theorem list_justified:
  assumes "react (list_step q shows art fetch) (new_list pc v csv) es = (s', os)"
    and "i < length os" and "os ! i = List_exit n"
  shows "Suc i = length os \<and>
     (if n = 0
      then \<exists>c apps. found_at list_updates q pc True c es \<and> fetch c = Inr apps
        \<and> printed os = greeting v @ (if v then [''Loading app list...'' @ newline] else [])
             @ (if csv then printAppsCSV shows art apps else printApps apps)
      else (\<exists>z\<in>set os. is_print_error z) \<and> (n = 1 \<or> n = -1)
        \<and> (n = 1 \<longrightarrow> (\<exists>c err. found_at list_updates q pc True c es \<and> fetch c = Inl err)))"
proof -
  have last: "Suc i = length os"
    using listing.final_is_last [OF new_list_ok(1) assms(1, 2)] assms(3) by simp
  then have os: "os = take i os @ [List_exit n]"
    using assms(2, 3) by (metis take_Suc_conv_app_nth take_all order_refl)
  then have pr: "printed os = printed (take i os)" by (metis append_Nil2 printed.simps(1, 5) printed_append)
  have "list_just q shows art fetch pc v csv es (take i os) (List_exit n)"
    using listing.run_justified [OF new_list_ok(1) new_list_ok(2) assms(1, 2)] assms(3) by simp
  moreover have "\<exists>z\<in>set os. is_print_error z" if "\<exists>z\<in>set (take i os). is_print_error z"
    using that in_set_takeD by fast
  ultimately show ?thesis unfolding list_just.simps pr [symmetric] using last
    by (cases "n = 0") (simp_all only: if_True if_False simp_thms refl, blast)
qed

theorem list_justified_witness:
  "snd (react (list_step plain_names (\<lambda>_. ''7'') (\<lambda>_. ''u'') (\<lambda>_. Inr (appList desk))) (new_list ''desk'' False False)
     [(\<lambda>_. desk, [3], List_execute), (\<lambda>_. desk, [3], List_updated 3)]) ! 4 = List_exit 0
   \<and> printed (snd (react (list_step plain_names (\<lambda>_. ''7'') (\<lambda>_. ''u'') (\<lambda>_. Inr (appList desk)))
     (new_list ''desk'' False False) [(\<lambda>_. desk, [3], List_execute), (\<lambda>_. desk, [3], List_updated 3)]))
     = [''Game'' @ newline]"
proof -
  define es where "es = [(\<lambda>_ :: nat. desk, [3 :: nat], List_execute), (\<lambda>_. desk, [3], List_updated 3)]"
  obtain s' os where run: "react (list_step plain_names (\<lambda>_. ''7'') (\<lambda>_. ''u'') (\<lambda>_. Inr (appList desk)))
      (new_list ''desk'' False False) es = (s', os)" by force
  have os: "os = [List_seek (Wake 3), List_seek Start_polling, List_seek Stop_polling,
      Print (''Game'' @ newline), List_exit 0]"
    using run by (auto simp: es_def new_list_def list_step_def list_handle_def seeker_start_def
        seeker_updated_def findMatchingComputer_def list_found_def printApps_def game_def)
  from list_justified [OF run, of 4 0] have "printed os = [''Game'' @ newline]"
    by (simp add: os printApps_def)
  then show ?thesis using run os by (simp add: es_def)
qed

text \<open>
  the CSV output does not tell its records apart: quotes and line breaks in an app's name are
  printed as they are, so one app with a crafted name prints byte for byte what two apps print, as
  long as their box art URL is the same, which it is while the placeholder is shown.
\<close>
theorem csv_not_escaped:
  "concat (printAppsCSV shows (\<lambda>_. u)
      [\<lparr>app_name = ''a'' @ quote @ '','' @ shows n @ '',false,false,false,false,'' @ quote @ u @ quote
          @ newline @ quote @ ''b'',
        app_id = n, hdr_supported = False, app_collector = False, hidden = False, direct_launch = False\<rparr>])
   = concat (printAppsCSV shows (\<lambda>_. u)
      [\<lparr>app_name = ''a'', app_id = n, hdr_supported = False, app_collector = False, hidden = False,
        direct_launch = False\<rparr>,
       \<lparr>app_name = ''b'', app_id = n, hdr_supported = False, app_collector = False, hidden = False,
        direct_launch = False\<rparr>])"
  by (simp add: printAppsCSV_def printAppCSV_def print_bool_def)

end
