(* ===== verification/ClipboardWire.thy ===== *)
theory ClipboardWire
  imports TextOps
begin

unbundle bit_operations_syntax

text \<open>
  Clipboard frames and the memory of what was exchanged (\<open>src/app/streaming/clipboardsync.cpp\<close>): the wire
  format, the hashes of texts and pictures, and the caches that recognise an echo. Times are
  milliseconds since the epoch.
\<close>

section \<open>Frames\<close>

definition WIRE_VERSION :: byte where "WIRE_VERSION = 1"
definition KIND_TEXT :: byte where "KIND_TEXT = 1"
definition KIND_PNG :: byte where "KIND_PNG = 2"
definition KIND_REF :: byte where "KIND_REF = 3"
definition MAX_PAYLOAD :: nat where "MAX_PAYLOAD = 65535 - 10"

definition le_bytes :: "u32 \<Rightarrow> bytes" where
  "le_bytes n = [ucast n, ucast (drop_bit 8 n), ucast (drop_bit 16 n), ucast (drop_bit 24 n)]"

definition le_word :: "bytes \<Rightarrow> u32" where
  "le_word b = ucast (b ! 0) OR push_bit 8 (ucast (b ! 1)) OR push_bit 16 (ucast (b ! 2)) OR push_bit 24 (ucast (b ! 3))"

definition encodeFrame :: "byte \<Rightarrow> u32 \<Rightarrow> bytes \<Rightarrow> bytes option" where
  "encodeFrame kind token payload =
     (if MAX_PAYLOAD < length payload then None
      else Some ([WIRE_VERSION, kind] @ le_bytes token @ le_bytes (of_nat (length payload)) @ payload))"

definition decodeFrame :: "bytes \<Rightarrow> (byte \<times> u32 \<times> bytes) option" where
  "decodeFrame frame =
     (if length frame < 10 then None
      else if frame ! 0 \<noteq> WIRE_VERSION then None
      else let n = le_word (take 4 (drop 6 frame)) in
        if of_nat (length frame - 10) < n then None
        else Some (frame ! 1, le_word (take 4 (drop 2 frame)), take (unat n) (drop 10 frame)))"

section \<open>Hashes\<close>

definition fnv_offset :: u64 where "fnv_offset = 0xcbf29ce484222325"
definition fnv_prime :: u64 where "fnv_prime = 0x100000001b3"

definition mix_bytes :: "u64 \<Rightarrow> bytes \<Rightarrow> u64" where
  "mix_bytes = foldl (\<lambda>h b. (h XOR ucast b) * fnv_prime)"

definition hashBytes :: "bytes \<Rightarrow> u64" where
  "hashBytes b = mix_bytes fnv_offset b"

text \<open>
  A decoded picture, after \<open>convertToFormat(Format_RGBA8888)\<close>, with its rows one after the other. The two
  dimensions are hashed as they lie in memory, on a little-endian machine.
\<close>

record image =
  px_width :: nat
  px_height :: nat
  px_rows :: bytes

definition hashImagePixels :: "image \<Rightarrow> u64" where
  "hashImagePixels i =
     (if px_width i = 0 \<or> px_height i = 0 then 0
      else mix_bytes (mix_bytes fnv_offset (le_bytes (of_nat (px_width i)) @ le_bytes (of_nat (px_height i)))) (px_rows i))"

section \<open>The caches of echoes\<close>

definition ECHO_TTL_MS :: int where "ECHO_TTL_MS = 5000"
definition ECHO_MAX :: nat where "ECHO_MAX = 16"

type_synonym echo_cache = "(u64 \<times> int) list"

definition drop_stale :: "int \<Rightarrow> echo_cache \<Rightarrow> echo_cache" where
  "drop_stale now c = dropWhile (\<lambda>(h, t). ECHO_TTL_MS < now - t) c"

definition seenRecently :: "u64 \<Rightarrow> int \<Rightarrow> echo_cache \<Rightarrow> bool \<times> echo_cache" where
  "seenRecently h now c = (let c = drop_stale now c in (h \<in> fst ` set c, c))"

definition recordHash :: "u64 \<Rightarrow> int \<Rightarrow> echo_cache \<Rightarrow> echo_cache" where
  "recordHash h now c = (let c = c @ [(h, now)] in drop (length c - ECHO_MAX) c)"

text \<open>The same for pictures, where no pixels have the hash 0.\<close>

definition seenImageRecently :: "u64 \<Rightarrow> int \<Rightarrow> echo_cache \<Rightarrow> bool \<times> echo_cache" where
  "seenImageRecently h now c = (if h = 0 then (False, c) else seenRecently h now c)"

definition recordImageHash :: "u64 \<Rightarrow> int \<Rightarrow> echo_cache \<Rightarrow> echo_cache" where
  "recordImageHash h now c = (if h = 0 then c else recordHash h now c)"

section \<open>Frames are read back\<close>

lemma le_read [simp]: "le_word (le_bytes n) = n"
proof (rule bit_word_eqI)
  fix i
  assume "i < LENGTH(32)"
  then consider "i < 8" | "8 \<le> i" "i < 16" | "16 \<le> i" "i < 24" | "24 \<le> i" "i < 32" by fastforce
  then show "bit (le_word (le_bytes n)) i = bit n i"
    by cases (auto simp: le_word_def le_bytes_def bit_or_iff bit_push_bit_iff bit_ucast_iff bit_drop_bit_eq)
qed

lemma length_le [simp]: "length (le_bytes n) = 4"
  by (simp add: le_bytes_def)

lemma decode_parts:
  "length a = 4 \<Longrightarrow> length b = 4 \<Longrightarrow> decodeFrame ([WIRE_VERSION, k] @ a @ b @ x) =
     (if of_nat (length x) < le_word b then None else Some (k, le_word a, take (unat (le_word b)) x))"
  by (simp add: decodeFrame_def Let_def)

lemma payload_length: "length p \<le> MAX_PAYLOAD \<Longrightarrow> unat (of_nat (length p) :: u32) = length p"
  by (simp add: MAX_PAYLOAD_def unat_of_nat)

lemma decode_encoded_frame:
  assumes "encodeFrame k token p = Some f"
  shows "decodeFrame f = Some (k, token, p)"
proof -
  have p: "length p \<le> MAX_PAYLOAD" and f: "f = [WIRE_VERSION, k] @ le_bytes token @ le_bytes (of_nat (length p)) @ p"
    using assms by (auto simp: encodeFrame_def split: if_splits)
  show ?thesis by (simp add: f decode_parts payload_length [OF p] del: append.simps)
qed

lemma encoded_frame_length: "encodeFrame k token p = Some f \<Longrightarrow> length f = 10 + length p \<and> length f \<le> 65535"
  by (auto simp: encodeFrame_def MAX_PAYLOAD_def split: if_splits)

section \<open>The caches as windows on a log\<close>

text \<open>
  What was ever noted, in order, and what a cache stands for: the last entries of the log, without those
  too old to count.
\<close>

definition recent :: "echo_cache \<Rightarrow> int \<Rightarrow> u64 \<Rightarrow> bool" where
  "recent log now h \<longleftrightarrow> (\<exists>t. (h, t) \<in> set (drop (length log - ECHO_MAX) log) \<and> now - t \<le> ECHO_TTL_MS)"

definition window_of :: "int \<Rightarrow> echo_cache \<Rightarrow> echo_cache \<Rightarrow> bool" where
  "window_of now log c \<longleftrightarrow> sorted (map snd log) \<and> (\<forall>(h, t) \<in> set log. t \<le> now)
     \<and> (\<exists>old. drop (length log - ECHO_MAX) log = old @ c \<and> (\<forall>(h, t) \<in> set old. ECHO_TTL_MS < now - t))"

lemma stale_after_sorted:
  assumes "sorted (map snd c)"
  shows "\<exists>old. c = old @ drop_stale now c \<and> (\<forall>(h, t) \<in> set old. ECHO_TTL_MS < now - t)
    \<and> (\<forall>(h, t) \<in> set (drop_stale now c). now - t \<le> ECHO_TTL_MS)"
proof -
  let ?P = "\<lambda>(h :: u64, t). ECHO_TTL_MS < now - t"
  have "\<forall>x \<in> set (dropWhile ?P c). \<not> ?P x"
    using assms
  proof (induction c)
    case (Cons a c)
    then show ?case by (cases "?P a") force+
  qed simp
  moreover have "\<forall>x \<in> set (takeWhile ?P c). ?P x" by (blast dest: set_takeWhileD)
  ultimately show ?thesis
    unfolding drop_stale_def by (intro exI [of _ "takeWhile ?P c"]) (auto simp: not_less)
qed

lemma window_later: "window_of now log c \<Longrightarrow> now \<le> now' \<Longrightarrow> window_of now' log c"
  unfolding window_of_def by fastforce

lemma window_drop:
  assumes "window_of now log c"
  shows "window_of now log (drop_stale now c)"
    and "h \<in> fst ` set (drop_stale now c) \<longleftrightarrow> recent log now h"
proof -
  obtain old where sorted: "sorted (map snd log)" and le: "\<forall>(h, t) \<in> set log. t \<le> now"
    and c: "drop (length log - ECHO_MAX) log = old @ c" and old: "\<forall>(h, t) \<in> set old. ECHO_TTL_MS < now - t"
    using assms by (auto simp: window_of_def)
  have "sorted (map snd (old @ c))" using sorted by (simp only: c [symmetric] drop_map [symmetric] sorted_wrt_drop)
  then have "sorted (map snd c)" by (simp add: sorted_append)
  then obtain old' where c': "c = old' @ drop_stale now c" and old': "\<forall>(h, t) \<in> set old'. ECHO_TTL_MS < now - t"
    and fresh: "\<forall>(h, t) \<in> set (drop_stale now c). now - t \<le> ECHO_TTL_MS"
    using stale_after_sorted by blast
  have all: "drop (length log - ECHO_MAX) log = (old @ old') @ drop_stale now c" using c c' by simp
  then show "window_of now log (drop_stale now c)" using sorted le old old' by (auto simp: window_of_def)
  show "h \<in> fst ` set (drop_stale now c) \<longleftrightarrow> recent log now h"
    unfolding recent_def all using old old' fresh by force
qed

lemma window_seen:
  assumes "window_of now log c"
  shows "fst (seenRecently h now c) = recent log now h" and "window_of now log (snd (seenRecently h now c))"
  using window_drop [OF assms] by (simp_all add: seenRecently_def Let_def)

lemma window_record:
  assumes "window_of now log c"
  shows "window_of now (log @ [(h, now)]) (recordHash h now c)"
proof -
  obtain old where sorted: "sorted (map snd log)" and le: "\<forall>(h, t) \<in> set log. t \<le> now"
    and c: "drop (length log - ECHO_MAX) log = old @ c" and old: "\<forall>(h, t) \<in> set old. ECHO_TTL_MS < now - t"
    using assms by (auto simp: window_of_def)
  have len: "min (length log) ECHO_MAX = length old + length c"
    using arg_cong [OF c, of length] by simp
  have "\<exists>old'. drop (length (log @ [(h, now)]) - ECHO_MAX) (log @ [(h, now)]) = old' @ recordHash h now c
      \<and> set old' \<subseteq> set old"
  proof (cases "length log < ECHO_MAX")
    case True
    then have "recordHash h now c = c @ [(h, now)]" using len by (simp add: recordHash_def Let_def)
    moreover have "log = old @ c" using c True by simp
    ultimately show ?thesis using True by auto
  next
    case False
    then have n: "length (log @ [(h, now)]) - ECHO_MAX = Suc (length log - ECHO_MAX)" by (simp add: Suc_diff_le)
    have "old @ c \<noteq> []" using False len by (auto simp: ECHO_MAX_def)
    then have cut: "drop (length (log @ [(h, now)]) - ECHO_MAX) (log @ [(h, now)]) = tl (old @ c) @ [(h, now)]"
      unfolding n drop_Suc tl_drop [symmetric] using c by (cases old; cases c) (simp_all add: ECHO_MAX_def)
    show ?thesis
    proof (cases old)
      case Nil
      then have "recordHash h now c = tl c @ [(h, now)]"
        using False len by (cases c) (simp_all add: recordHash_def Let_def ECHO_MAX_def)
      then show ?thesis using Nil cut by simp
    next
      case (Cons a as)
      then have "recordHash h now c = c @ [(h, now)]" using False len by (simp add: recordHash_def Let_def)
      then show ?thesis using Cons cut by auto
    qed
  qed
  then obtain old' where "drop (length (log @ [(h, now)]) - ECHO_MAX) (log @ [(h, now)]) = old' @ recordHash h now c"
    and "\<forall>(h, t) \<in> set old'. ECHO_TTL_MS < now - t"
    using old by blast
  moreover have "sorted (map snd (log @ [(h, now)]))" using sorted le by (auto simp: sorted_append)
  ultimately show ?thesis using le unfolding window_of_def by auto
qed

lemma record_bound [length_facts]: "length (recordHash h now c) \<le> ECHO_MAX"
  by (simp add: recordHash_def Let_def)

lemma drop_stale_bound [length_facts]: "length c \<le> ECHO_MAX \<Longrightarrow> length (drop_stale now c) \<le> ECHO_MAX"
  unfolding drop_stale_def using length_dropWhile_le [of _ c] order_trans by blast

text \<open>What is done to a cache over time: looking a hash up, and noting one.\<close>

datatype echo_op = Look u64 int | Note u64 int

fun op_time :: "echo_op \<Rightarrow> int" where
  "op_time (Look h t) = t"
| "op_time (Note h t) = t"

fun cache_step :: "echo_cache \<Rightarrow> echo_op \<Rightarrow> echo_cache" where
  "cache_step c (Look h t) = snd (seenRecently h t c)"
| "cache_step c (Note h t) = recordHash h t c"

fun noted :: "echo_op list \<Rightarrow> echo_cache" where
  "noted [] = []"
| "noted (Look h t # ops) = noted ops"
| "noted (Note h t # ops) = (h, t) # noted ops"

lemma window_run:
  assumes "window_of now log c" and "sorted (map op_time ops)" and "\<forall>e \<in> set ops. now \<le> op_time e \<and> op_time e \<le> later"
    and "now \<le> later"
  shows "window_of later (log @ noted ops) (run_events cache_step c ops)"
  using assms
proof (induction ops arbitrary: now log c)
  case Nil
  then show ?case by (simp add: window_later)
next
  case (Cons e ops)
  have now: "window_of (op_time e) log c" using Cons.prems(1,3) by (simp add: window_later)
  have rest: "sorted (map op_time ops)" "\<forall>x \<in> set ops. op_time e \<le> op_time x \<and> op_time x \<le> later" "op_time e \<le> later"
    using Cons.prems(2,3) by auto
  show ?case
  proof (cases e)
    case (Look h t)
    then show ?thesis using Cons.IH [OF window_seen(2) [OF now] rest] by simp
  next
    case (Note h t)
    then show ?thesis using Cons.IH [OF window_record [OF now] rest] by simp
  qed
qed

lemma window_empty: "window_of now [] []"
  by (simp add: window_of_def)

lemma window_bound: "window_of now log c \<Longrightarrow> length c \<le> ECHO_MAX"
proof -
  assume "window_of now log c"
  then obtain old where "drop (length log - ECHO_MAX) log = old @ c" by (auto simp: window_of_def)
  from arg_cong [OF this, of length] show ?thesis by (simp split: if_splits)
qed

section \<open>Properties\<close>

text \<open>
  C37: Looked up at any time in any history of uses, the cache answers exactly whether the hash is among the
  last 16 that were noted, not more than five seconds ago; it never holds more than 16.
\<close>
theorem echo_cache_is_window:
  assumes "sorted (map op_time ops)" and "\<forall>e \<in> set ops. op_time e \<le> now"
  shows "fst (seenRecently h now (run_events cache_step [] ops)) = recent (noted ops) now h
    \<and> length (run_events cache_step [] ops) \<le> 16"
proof -
  define t where "t = (if ops = [] then now else op_time (hd ops))"
  have "\<forall>e \<in> set ops. t \<le> op_time e \<and> op_time e \<le> now" "t \<le> now"
    using assms by (cases ops; auto simp: t_def)+
  then have "window_of now ([] @ noted ops) (run_events cache_step [] ops)"
    using window_run [OF window_empty assms(1)] by blast
  then show ?thesis using window_seen(1) window_bound by (fastforce simp: ECHO_MAX_def)
qed

lemma echo_cache_is_window_witness:
  "fst (seenRecently 7 6000 (run_events cache_step [] [Note 7 0, Look 7 10, Note 8 1000])) = False
   \<and> fst (seenRecently 8 6000 (run_events cache_step [] [Note 7 0, Look 7 10, Note 8 1000])) = True"
  using echo_cache_is_window [of "[Note 7 0, Look 7 10, Note 8 1000]" 6000 7]
    echo_cache_is_window [of "[Note 7 0, Look 7 10, Note 8 1000]" 6000 8]
  by (simp add: recent_def ECHO_MAX_def ECHO_TTL_MS_def)

text \<open>A frame is read back as what it was made of, whatever its kind, token and payload.\<close>
theorem clipboard_frame_roundtrip:
  "map_option decodeFrame (encodeFrame k token p) = (if length p \<le> 65525 then Some (Some (k, token, p)) else None)"
proof (cases "encodeFrame k token p")
  case (Some f)
  then show ?thesis using decode_encoded_frame [OF Some] encoded_frame_length [OF Some] by simp
qed (auto simp: encodeFrame_def MAX_PAYLOAD_def split: if_splits)

end
