(* ===== verification/Json.thy ===== *)
theory Json
  imports Complex_Main Prelude
begin

text \<open>
  JSON documents as the data the client reads and writes, with the lookups and conversions of
  \<open>QJsonObject\<close> and \<open>QJsonValue\<close> its code calls: a missing key is \<open>Undefined\<close>, and a conversion of a
  value of another type gives the default. The text format itself is a parameter of the
  components.
\<close>

datatype json =
    Undefined
  | Null
  | Bool bool
  | Num real
  | Str string
  | Arr "json list"
  | Obj "(string \<times> json) list"

fun is_object :: "json \<Rightarrow> bool" where
  "is_object (Obj _) = True"
| "is_object _ = False"

fun is_bool :: "json \<Rightarrow> bool" where
  "is_bool (Bool _) = True"
| "is_bool _ = False"

fun is_string :: "json \<Rightarrow> bool" where
  "is_string (Str _) = True"
| "is_string _ = False"

fun is_array :: "json \<Rightarrow> bool" where
  "is_array (Arr _) = True"
| "is_array _ = False"

text \<open>\<open>value(key)\<close> of a document taken as an object; anything else acts as the empty object.\<close>

fun json_value :: "json \<Rightarrow> string \<Rightarrow> json" where
  "json_value (Obj fields) key = (case map_of fields key of Some v \<Rightarrow> v | None \<Rightarrow> Undefined)"
| "json_value _ key = Undefined"

fun to_bool :: "json \<Rightarrow> bool" where
  "to_bool (Bool b) = b"
| "to_bool _ = False"

fun to_str :: "json \<Rightarrow> string" where
  "to_str (Str s) = s"
| "to_str _ = []"

fun to_real :: "real \<Rightarrow> json \<Rightarrow> real" where
  "to_real d (Num x) = x"
| "to_real d _ = d"

fun to_array :: "json \<Rightarrow> json list" where
  "to_array (Arr vs) = vs"
| "to_array _ = []"

text \<open>The same with the default given by the caller.\<close>

fun bool_or :: "bool \<Rightarrow> json \<Rightarrow> bool" where
  "bool_or d (Bool b) = b"
| "bool_or d _ = d"

fun str_or :: "string \<Rightarrow> json \<Rightarrow> string" where
  "str_or d (Str s) = s"
| "str_or d _ = d"

text \<open>\<open>toInt\<close>: a number that is an \<open>int\<close>, or the default.\<close>

fun int_or :: "int \<Rightarrow> json \<Rightarrow> int" where
  "int_or d (Num x) = (if x = of_int \<lfloor>x\<rfloor> \<and> - (2 ^ 31) \<le> \<lfloor>x\<rfloor> \<and> \<lfloor>x\<rfloor> < 2 ^ 31 then \<lfloor>x\<rfloor> else d)"
| "int_or d _ = d"

lemma json_value_hit: "map_of fields key = Some v \<Longrightarrow> json_value (Obj fields) key = v"
  by simp

lemma json_value_miss: "map_of fields key = None \<Longrightarrow> json_value (Obj fields) key = Undefined"
  by simp

end
