(* ===== verification/ClipboardSync.thy ===== *)
theory ClipboardSync
  imports ClipboardWire Json
begin

text \<open>
  Clipboard synchronisation with the host (\<open>src/app/streaming/clipboardsync.cpp\<close>, \<open>clipboardsync.h\<close>), as it
  runs in the clipboard helper: what a change of the local clipboard sends, what a frame from the host
  does to the clipboard, and how the one is kept from becoming the other again. Pictures, UTF-8, JSON
  text and what the platform's clipboard holds after a write are parameters; \<open>extractClipboardPng\<close>, which
  searches the clipboard for a picture, is the member \<open>mime_image\<close> of what it holds.
\<close>

section \<open>The clipboard\<close>

record mime =
  mime_text :: string
  mime_image :: "bytes option"
  mime_urls :: "bool list"
  mime_formats :: "string list"
  mime_finder :: bool

text \<open>For each URL, whether it is that of a local file.\<close>

definition file_markers :: "string list" where
  "file_markers = [''public.file-url'', ''NSFilenamesPboardType'', ''promised-file'', ''FileNameW'',
     ''FileGroupDescriptor'', ''FileContents'', ''Shell IDList Array'']"

definition hasFileReferences :: "mime \<Rightarrow> bool" where
  "hasFileReferences m \<longleftrightarrow>
     True \<in> set (mime_urls m) \<or> list_ex (\<lambda>f. list_ex (\<lambda>k. contains_ci k f) file_markers) (mime_formats m)"

record clip_env =
  from_utf8 :: "bytes \<Rightarrow> string"
  to_utf8 :: "string \<Rightarrow> bytes"
  load_png :: "bytes \<Rightarrow> image option"
  text_mime :: "string \<Rightarrow> mime"
  png_mime :: "bytes \<Rightarrow> mime"
  compound_mime :: "string \<Rightarrow> bytes \<Rightarrow> mime"
  parse_ref :: "bytes \<Rightarrow> json option"
  print_ref :: "json \<Rightarrow> bytes"
  cast_s64 :: "real \<Rightarrow> int"
  first_key :: "u32 list \<Rightarrow> u32"

section \<open>State\<close>

definition INLINE_THRESHOLD :: nat where "INLINE_THRESHOLD = 60000"
definition MAX_BLOB_BYTES :: nat where "MAX_BLOB_BYTES = 64 * 1024 * 1024"
definition MAX_PENDING_BURSTS :: nat where "MAX_PENDING_BURSTS = 32"

record burst =
  textPayload :: bytes
  pngPayload :: bytes
  haveText :: bool
  havePng :: bool

text \<open>What a fetched blob is for, and the transfers under way.\<close>

datatype fetch_use = Apply_alone string | Into_burst u32 byte

record fetch =
  fetch_id :: string
  advertisedSize :: int
  fetch_use :: fetch_use

record upload =
  payloadSize :: nat
  upload_mime :: string
  upload_token :: u32

record clipboard_sync =
  m_Active :: bool
  m_EchoCache :: echo_cache
  m_ImageEchoCache :: echo_cache
  m_PendingBursts :: "(u32 \<times> burst) list"
  m_NextToken :: u32
  m_PendingSelfWrites :: nat
  host_known :: bool
  local_clip :: mime
  outbound :: "bytes list"
  uploads :: "upload list"
  fetches :: "fetch list"

definition new_sync :: "bool \<Rightarrow> mime \<Rightarrow> clipboard_sync" where
  "new_sync known m = \<lparr>m_Active = False, m_EchoCache = [], m_ImageEchoCache = [], m_PendingBursts = [],
     m_NextToken = 1, m_PendingSelfWrites = 0, host_known = known, local_clip = m, outbound = [],
     uploads = [], fetches = []\<rparr>"

definition sync_start :: "clipboard_sync \<Rightarrow> clipboard_sync" where
  "sync_start s = (if m_Active s then s else s\<lparr>m_Active := True\<rparr>)"

definition sync_stop :: "clipboard_sync \<Rightarrow> clipboard_sync" where
  "sync_stop s =
     (if \<not> m_Active s then s
      else s\<lparr>m_EchoCache := [], m_ImageEchoCache := [], m_PendingSelfWrites := 0, m_PendingBursts := [],
             m_Active := False\<rparr>)"

section \<open>From the host\<close>

definition note_bytes :: "bytes \<Rightarrow> int \<Rightarrow> clipboard_sync \<Rightarrow> clipboard_sync" where
  "note_bytes b now s = s\<lparr>m_EchoCache := recordHash (hashBytes b) now (m_EchoCache s)\<rparr>"

definition note_image :: "image \<Rightarrow> int \<Rightarrow> clipboard_sync \<Rightarrow> clipboard_sync" where
  "note_image i now s = s\<lparr>m_ImageEchoCache := recordImageHash (hashImagePixels i) now (m_ImageEchoCache s)\<rparr>"

definition write_clip :: "mime \<Rightarrow> clipboard_sync \<Rightarrow> clipboard_sync" where
  "write_clip m s = s\<lparr>m_PendingSelfWrites := m_PendingSelfWrites s + 1, local_clip := m\<rparr>"

definition applyInboundText :: "clip_env \<Rightarrow> bytes \<Rightarrow> int \<Rightarrow> clipboard_sync \<Rightarrow> clipboard_sync" where
  "applyInboundText q payload now s =
     (if 0 \<in> set payload then s
      else if hasFileReferences (local_clip s) then s
      else write_clip (text_mime q (from_utf8 q payload)) (note_bytes payload now s))"

definition applyInboundPng :: "clip_env \<Rightarrow> bytes \<Rightarrow> int \<Rightarrow> clipboard_sync \<Rightarrow> clipboard_sync" where
  "applyInboundPng q payload now s =
     (case load_png q payload of
        None \<Rightarrow> s
      | Some i \<Rightarrow>
          if hasFileReferences (local_clip s) then s
          else write_clip (png_mime q payload) (note_image i now (note_bytes payload now s)))"

definition applyCompound :: "clip_env \<Rightarrow> bytes \<Rightarrow> bytes \<Rightarrow> int \<Rightarrow> clipboard_sync \<Rightarrow> clipboard_sync" where
  "applyCompound q text png now s =
     (if hasFileReferences (local_clip s) then s
      else let textOk = (text \<noteq> [] \<and> 0 \<notin> set text) in
        case load_png q png of
          Some i \<Rightarrow>
            if textOk
            then write_clip (compound_mime q (from_utf8 q text) png)
                   (note_image i now (note_bytes png now (note_bytes text now s)))
            else applyInboundPng q png now s
        | None \<Rightarrow> if textOk then applyInboundText q text now s else s)"

definition removeBurst :: "u32 \<Rightarrow> clipboard_sync \<Rightarrow> clipboard_sync" where
  "removeBurst token s = s\<lparr>m_PendingBursts := filter (\<lambda>(k, b). k \<noteq> token) (m_PendingBursts s)\<rparr>"

text \<open>A full table loses the entry \<open>QHash\<close> lists first.\<close>

definition open_burst :: "clip_env \<Rightarrow> u32 \<Rightarrow> clipboard_sync \<Rightarrow> clipboard_sync" where
  "open_burst q token s =
     (if token \<in> fst ` set (m_PendingBursts s) then s
      else let s = (if MAX_PENDING_BURSTS \<le> length (m_PendingBursts s)
                    then removeBurst (first_key q (map fst (m_PendingBursts s))) s else s)
        in s\<lparr>m_PendingBursts := m_PendingBursts s
                @ [(token, \<lparr>textPayload = [], pngPayload = [], haveText = False, havePng = False\<rparr>)]\<rparr>)"

definition set_burst :: "u32 \<Rightarrow> burst \<Rightarrow> clipboard_sync \<Rightarrow> clipboard_sync" where
  "set_burst token b s =
     s\<lparr>m_PendingBursts := map (\<lambda>(k, c). if k = token then (k, b) else (k, c)) (m_PendingBursts s)\<rparr>"

definition handleBurstFrame :: "clip_env \<Rightarrow> byte \<Rightarrow> u32 \<Rightarrow> bytes \<Rightarrow> int \<Rightarrow> clipboard_sync \<Rightarrow> clipboard_sync" where
  "handleBurstFrame q kind token payload now s =
     (let s = open_burst q token s in
      case map_of (m_PendingBursts s) token of
        None \<Rightarrow> s
      | Some b \<Rightarrow>
          if kind = KIND_TEXT \<and> \<not> haveText b
          then set_burst token (b\<lparr>haveText := True, textPayload := payload\<rparr>) s
          else if kind = KIND_PNG \<and> \<not> havePng b
          then let s = set_burst token (b\<lparr>havePng := True, pngPayload := payload\<rparr>) s in
            if haveText b then applyCompound q (textPayload b) payload now s
            else applyInboundPng q payload now s
          else s)"

definition apply_kind :: "clip_env \<Rightarrow> byte \<Rightarrow> bytes \<Rightarrow> int \<Rightarrow> clipboard_sync \<Rightarrow> clipboard_sync" where
  "apply_kind q kind payload now s =
     (if kind = KIND_TEXT then applyInboundText q payload now s else applyInboundPng q payload now s)"

definition burstFlavorResolved :: "clip_env \<Rightarrow> u32 \<Rightarrow> byte \<Rightarrow> bytes \<Rightarrow> int \<Rightarrow> clipboard_sync \<Rightarrow> clipboard_sync" where
  "burstFlavorResolved q token kind payload now s =
     (if kind = 0 then s
      else if token \<notin> fst ` set (m_PendingBursts s) then apply_kind q kind payload now s
      else handleBurstFrame q kind token payload now s)"

text \<open>A cast of a \<open>double\<close> to \<open>qint64\<close>; out of range it is undefined.\<close>

definition to_s64 :: "clip_env \<Rightarrow> real \<Rightarrow> int" where
  "to_s64 q x =
     (if - (2 ^ 63) \<le> x \<and> x < 2 ^ 63 then (if 0 \<le> x then \<lfloor>x\<rfloor> else \<lceil>x\<rceil>) else cast_s64 q x)"

definition flavor_kind :: "string \<Rightarrow> byte" where
  "flavor_kind m = (if m = ''image/png'' then KIND_PNG else if starts_with ''text/'' m then KIND_TEXT else 0)"

definition fetchBlob :: "string \<Rightarrow> int \<Rightarrow> fetch_use \<Rightarrow> clipboard_sync \<Rightarrow> clipboard_sync" where
  "fetchBlob i n u s =
     (if \<not> host_known s then s
      else s\<lparr>fetches := fetches s @ [\<lparr>fetch_id = i, advertisedSize = n, fetch_use = u\<rparr>]\<rparr>)"

definition incoming_ref :: "clip_env \<Rightarrow> u32 \<Rightarrow> bytes \<Rightarrow> clipboard_sync \<Rightarrow> clipboard_sync" where
  "incoming_ref q token payload s =
     (case parse_ref q payload of
        None \<Rightarrow> s
      | Some obj \<Rightarrow>
          let i = to_str (json_value obj ''id''); m = to_str (json_value obj ''mime'');
              n = to_s64 q (to_real 0 (json_value obj ''size''))
          in if i = [] \<or> 128 < length i then s
             else if int MAX_BLOB_BYTES < n then s
             else fetchBlob i n (if token = 0 then Apply_alone m else Into_burst token (flavor_kind m)) s)"

definition onIncomingFrame :: "clip_env \<Rightarrow> bytes \<Rightarrow> int \<Rightarrow> clipboard_sync \<Rightarrow> clipboard_sync" where
  "onIncomingFrame q frame now s =
     (if \<not> m_Active s then s
      else case decodeFrame frame of
        None \<Rightarrow> s
      | Some (kind, token, payload) \<Rightarrow>
          if kind = KIND_TEXT \<or> kind = KIND_PNG
          then if token = 0 then apply_kind q kind payload now s else handleBurstFrame q kind token payload now s
          else if kind = KIND_REF then incoming_ref q token payload s
          else s)"

text \<open>The end of a download: the bytes, unless it failed.\<close>

definition fetch_finished :: "clip_env \<Rightarrow> fetch \<Rightarrow> bytes option \<Rightarrow> int \<Rightarrow> clipboard_sync \<Rightarrow> clipboard_sync" where
  "fetch_finished q f reply now s =
     (case reply of
        None \<Rightarrow> s
      | Some b \<Rightarrow>
          if b = [] \<or> MAX_BLOB_BYTES < length b
             \<or> 0 < advertisedSize f \<and> int (length b) \<noteq> advertisedSize f then s
          else (case fetch_use f of
                  Apply_alone m \<Rightarrow>
                    if m = ''image/png'' then applyInboundPng q b now s
                    else if starts_with ''text/'' m then applyInboundText q b now s
                    else s
                | Into_burst token kind \<Rightarrow> burstFlavorResolved q token kind b now s))"

section \<open>To the host\<close>

definition shouldTransferOutOfBand :: "nat \<Rightarrow> bool" where
  "shouldTransferOutOfBand n \<longleftrightarrow> INLINE_THRESHOLD \<le> n"

definition send_frame :: "byte \<Rightarrow> u32 \<Rightarrow> bytes \<Rightarrow> clipboard_sync \<Rightarrow> clipboard_sync" where
  "send_frame kind token payload s =
     (case encodeFrame kind token payload of None \<Rightarrow> s | Some f \<Rightarrow> s\<lparr>outbound := outbound s @ [f]\<rparr>)"

definition uploadAndSendRef :: "bytes \<Rightarrow> string \<Rightarrow> u32 \<Rightarrow> clipboard_sync \<Rightarrow> clipboard_sync" where
  "uploadAndSendRef payload m token s =
     (if \<not> host_known s then s
      else s\<lparr>uploads := uploads s @ [\<lparr>payloadSize = length payload, upload_mime = m, upload_token = token\<rparr>]\<rparr>)"

definition upload_finished :: "clip_env \<Rightarrow> upload \<Rightarrow> string option \<Rightarrow> clipboard_sync \<Rightarrow> clipboard_sync" where
  "upload_finished q u reply s =
     (case reply of
        None \<Rightarrow> s
      | Some i \<Rightarrow>
          if i = [] then s
          else send_frame KIND_REF (upload_token u)
            (print_ref q (Obj [(''id'', Str i), (''mime'', Str (upload_mime u)),
                               (''size'', Num (of_nat (payloadSize u)))])) s)"

text \<open>A payload goes inline or by reference.\<close>

definition transfer :: "byte \<Rightarrow> string \<Rightarrow> bytes \<Rightarrow> u32 \<Rightarrow> clipboard_sync \<Rightarrow> clipboard_sync" where
  "transfer kind m payload token s =
     (if shouldTransferOutOfBand (length payload) then uploadAndSendRef payload m token s
      else send_frame kind token payload s)"

definition sendTextOutbound :: "bytes \<Rightarrow> u32 \<Rightarrow> int \<Rightarrow> clipboard_sync \<Rightarrow> clipboard_sync" where
  "sendTextOutbound utf8 token now s =
     (if utf8 = [] then s
      else if MAX_BLOB_BYTES < length utf8 then s
      else case seenRecently (hashBytes utf8) now (m_EchoCache s) of (seen, c) \<Rightarrow>
        let s = s\<lparr>m_EchoCache := c\<rparr> in
        if seen then s
        else transfer KIND_TEXT ''text/plain'' utf8 token (note_bytes utf8 now s))"

definition sendClipboardPng :: "clip_env \<Rightarrow> bytes \<Rightarrow> u32 \<Rightarrow> int \<Rightarrow> clipboard_sync \<Rightarrow> clipboard_sync" where
  "sendClipboardPng q png token now s =
     (if MAX_BLOB_BYTES < length png then s
      else case seenRecently (hashBytes png) now (m_EchoCache s) of (seen, c) \<Rightarrow>
        let s = s\<lparr>m_EchoCache := c\<rparr> in
        if seen then s
        else case load_png q png of
          None \<Rightarrow> transfer KIND_PNG ''image/png'' png token (note_bytes png now s)
        | Some i \<Rightarrow>
            (case seenImageRecently (hashImagePixels i) now (m_ImageEchoCache s) of (seen, c) \<Rightarrow>
               let s = s\<lparr>m_ImageEchoCache := c\<rparr> in
               if seen then s
               else transfer KIND_PNG ''image/png'' png token (note_bytes png now (note_image i now s))))"

definition nextToken :: "clipboard_sync \<Rightarrow> u32 \<times> clipboard_sync" where
  "nextToken s =
     (m_NextToken s, s\<lparr>m_NextToken := (if m_NextToken s + 1 = 0 then 1 else m_NextToken s + 1)\<rparr>)"

definition clip_utf8 :: "clip_env \<Rightarrow> mime \<Rightarrow> bytes" where
  "clip_utf8 q m = (if mime_text m = [] then [] else to_utf8 q (mime_text m))"

definition onLocalClipboardChanged :: "clip_env \<Rightarrow> int \<Rightarrow> clipboard_sync \<Rightarrow> clipboard_sync" where
  "onLocalClipboardChanged q now s =
     (if \<not> m_Active s then s
      else if 0 < m_PendingSelfWrites s then s\<lparr>m_PendingSelfWrites := m_PendingSelfWrites s - 1\<rparr>
      else let m = local_clip s; utf8 = clip_utf8 q m in
        if mime_finder m then s
        else if hasFileReferences m \<and> mime_image m = None then s
        else case mime_image m of
          None \<Rightarrow> sendTextOutbound utf8 0 now s
        | Some png \<Rightarrow>
            if utf8 \<noteq> [] \<and> length utf8 \<le> MAX_PAYLOAD
            then (case nextToken s of (token, s) \<Rightarrow>
                    sendClipboardPng q png token now (sendTextOutbound utf8 token now s))
            else sendClipboardPng q png 0 now s)"

section \<open>Steps\<close>

text \<open>
  \<open>Copied\<close>: something else has written to the clipboard. \<open>Changed\<close>: the platform says that the clipboard has
  changed; it may do so late, more than once, or not at all.
\<close>

datatype clip_event =
    Start | Stop
  | Copied mime
  | Changed int
  | Frame_arrives bytes int
  | Fetch_done nat "bytes option" int
  | Upload_done nat "string option"
  | Retention_over u32

definition clip_step :: "clip_env \<Rightarrow> clipboard_sync \<Rightarrow> clip_event \<Rightarrow> clipboard_sync" where
  "clip_step q s e =
     (case e of
        Start \<Rightarrow> sync_start s
      | Stop \<Rightarrow> sync_stop s
      | Copied m \<Rightarrow> s\<lparr>local_clip := m\<rparr>
      | Changed now \<Rightarrow> onLocalClipboardChanged q now s
      | Frame_arrives f now \<Rightarrow> onIncomingFrame q f now s
      | Fetch_done i reply now \<Rightarrow>
          if i < length (fetches s)
          then fetch_finished q (fetches s ! i) reply now (s\<lparr>fetches := take i (fetches s) @ drop (Suc i) (fetches s)\<rparr>)
          else s
      | Upload_done i reply \<Rightarrow>
          if i < length (uploads s)
          then upload_finished q (uploads s ! i) reply (s\<lparr>uploads := take i (uploads s) @ drop (Suc i) (uploads s)\<rparr>)
          else s
      | Retention_over token \<Rightarrow> removeBurst token s)"

section \<open>An echo goes nowhere\<close>

text \<open>A hash noted at a time counts until its five seconds are over.\<close>

definition fresh_until :: "int \<Rightarrow> u64 \<Rightarrow> echo_cache \<Rightarrow> bool" where
  "fresh_until later h c \<longleftrightarrow> (\<exists>t. (h, t) \<in> set c \<and> later - t \<le> ECHO_TTL_MS)"

lemma fresh_seen:
  assumes "fresh_until later h c" and "now \<le> later"
  shows "fst (seenRecently h now c)" and "fresh_until later h (snd (seenRecently h now c))"
proof -
  obtain t where t: "(h, t) \<in> set c" "later - t \<le> ECHO_TTL_MS" using assms(1) by (auto simp: fresh_until_def)
  then have "\<not> ECHO_TTL_MS < now - t" using assms(2) by simp
  then have "(h, t) \<in> set (drop_stale now c)"
    using t(1) unfolding drop_stale_def by (induction c) auto
  then show "fst (seenRecently h now c)" "fresh_until later h (snd (seenRecently h now c))"
    using t(2) by (force simp: seenRecently_def Let_def fresh_until_def)+
qed

lemma record_last: "\<exists>c'. recordHash h t c = c' @ [(h, t)]"
  by (simp add: recordHash_def Let_def ECHO_MAX_def)

lemma fresh_noted [simp]: "fresh_until (t + ECHO_TTL_MS) h (recordHash h t c)"
  using record_last [of h t c] by (auto simp: fresh_until_def)

lemma fresh_noted_before [simp]: "fresh_until (t + ECHO_TTL_MS) h (recordHash g t' (recordHash h t c))"
  using record_last [of h t c] by (auto simp: fresh_until_def recordHash_def [of g] ECHO_MAX_def)

text \<open>What the clipboard holds is known to have been exchanged.\<close>

definition known_bytes :: "int \<Rightarrow> bytes \<Rightarrow> clipboard_sync \<Rightarrow> bool" where
  "known_bytes later b s \<longleftrightarrow> b = [] \<or> fresh_until later (hashBytes b) (m_EchoCache s)"

definition known_image :: "clip_env \<Rightarrow> int \<Rightarrow> bytes \<Rightarrow> clipboard_sync \<Rightarrow> bool" where
  "known_image q later b s \<longleftrightarrow> fresh_until later (hashBytes b) (m_EchoCache s)
     \<or> (\<exists>i. load_png q b = Some i \<and> hashImagePixels i \<noteq> 0 \<and> fresh_until later (hashImagePixels i) (m_ImageEchoCache s))"

definition clip_known :: "clip_env \<Rightarrow> int \<Rightarrow> clipboard_sync \<Rightarrow> bool" where
  "clip_known q later s \<longleftrightarrow> known_bytes later (clip_utf8 q (local_clip s)) s
     \<and> (\<forall>p. mime_image (local_clip s) = Some p \<longrightarrow> known_image q later p s)"

text \<open>Nothing is sent, and everything known stays known.\<close>

definition clip_quiet :: "clip_env \<Rightarrow> int \<Rightarrow> clipboard_sync \<Rightarrow> clipboard_sync \<Rightarrow> bool" where
  "clip_quiet q later s s' \<longleftrightarrow> outbound s' = outbound s \<and> uploads s' = uploads s \<and> local_clip s' = local_clip s
     \<and> (\<forall>h. fresh_until later h (m_EchoCache s) \<longrightarrow> fresh_until later h (m_EchoCache s'))
     \<and> (\<forall>h. fresh_until later h (m_ImageEchoCache s) \<longrightarrow> fresh_until later h (m_ImageEchoCache s'))"

lemma quiet_refl [simp]: "clip_quiet q later s s"
  by (simp add: clip_quiet_def)

lemma quiet_trans: "clip_quiet q later s t \<Longrightarrow> clip_quiet q later t u \<Longrightarrow> clip_quiet q later s u"
  by (simp add: clip_quiet_def)

lemma quiet_known: "clip_quiet q later s s' \<Longrightarrow> clip_known q later s \<Longrightarrow> clip_known q later s'"
  unfolding clip_quiet_def clip_known_def known_bytes_def known_image_def by metis

lemma look_keeps: "now \<le> later \<Longrightarrow> fresh_until later g c \<Longrightarrow> fresh_until later g (snd (seenRecently h now c))"
  using fresh_seen(2) [of later g c now] by (simp add: seenRecently_def Let_def)

lemma text_quiet:
  assumes "known_bytes later b s" and "now \<le> later"
  shows "clip_quiet q later s (sendTextOutbound b token now s)"
  using assms fresh_seen(1) [of later "hashBytes b" "m_EchoCache s" now] look_keeps [OF assms(2)]
  by (auto simp: sendTextOutbound_def Let_def known_bytes_def clip_quiet_def case_prod_beta)

lemma png_quiet:
  assumes "known_image q later b s" and "now \<le> later"
  shows "clip_quiet q later s (sendClipboardPng q b token now s)"
proof (cases "fst (seenRecently (hashBytes b) now (m_EchoCache s))")
  case True
  then show ?thesis using look_keeps [OF assms(2)]
    by (auto simp: sendClipboardPng_def Let_def clip_quiet_def case_prod_beta)
next
  case False
  then obtain i where "load_png q b = Some i" "hashImagePixels i \<noteq> 0"
    "fresh_until later (hashImagePixels i) (m_ImageEchoCache s)"
    using assms fresh_seen(1) by (auto simp: known_image_def)
  then show ?thesis
    using False fresh_seen(1) [of later "hashImagePixels i" "m_ImageEchoCache s" now] assms(2) look_keeps [OF assms(2)]
    by (auto simp: sendClipboardPng_def seenImageRecently_def Let_def clip_quiet_def case_prod_beta)
qed

lemma change_quiet:
  assumes "clip_known q later s" and "now \<le> later"
  shows "clip_quiet q later s (onLocalClipboardChanged q now s)"
proof -
  let ?m = "local_clip s"
  let ?u = "clip_utf8 q ?m"
  have u: "known_bytes later ?u s" using assms(1) by (simp add: clip_known_def)
  have plain: "clip_quiet q later s (sendTextOutbound ?u 0 now s)" by (rule text_quiet [OF u assms(2)])
  have sends: "clip_quiet q later s (sendClipboardPng q p token now (sendTextOutbound ?u token now s'))"
      "clip_quiet q later s (sendClipboardPng q p 0 now s)"
    if p: "mime_image ?m = Some p" and s': "s' = snd (nextToken s)" for p token s'
  proof -
    have q: "clip_quiet q later s s'" by (simp add: s' nextToken_def clip_quiet_def)
    have k: "clip_known q later s'" by (rule quiet_known [OF q assms(1)])
    have lc: "local_clip s' = local_clip s" using q by (simp add: clip_quiet_def)
    have u': "known_bytes later ?u s'" using k by (simp add: clip_known_def lc)
    have q2: "clip_quiet q later s (sendTextOutbound ?u token now s')"
      using quiet_trans [OF q text_quiet [OF u' assms(2)]] .
    have "known_image q later p (sendTextOutbound ?u token now s')"
      using quiet_known [OF q2 assms(1)] q2 p by (simp add: clip_known_def clip_quiet_def)
    then show "clip_quiet q later s (sendClipboardPng q p token now (sendTextOutbound ?u token now s'))"
      by (rule quiet_trans [OF q2 png_quiet [OF _ assms(2)]])
    have "known_image q later p s" using assms(1) p by (simp add: clip_known_def)
    then show "clip_quiet q later s (sendClipboardPng q p 0 now s)" by (rule png_quiet [OF _ assms(2)])
  qed
  have pending: "clip_quiet q later s (s\<lparr>m_PendingSelfWrites := n\<rparr>)" for n by (simp add: clip_quiet_def)
  show ?thesis
    using plain sends pending
    by (simp add: onLocalClipboardChanged_def Let_def case_prod_beta split: option.split)
qed

text \<open>
  What a platform may do to what was written: text is kept or dropped for a picture, a picture may be
  encoded anew, with the same pixels, or be too large to be taken from the clipboard again.
\<close>

definition same_picture :: "clip_env \<Rightarrow> bytes \<Rightarrow> bytes option \<Rightarrow> bool" where
  "same_picture q b r \<longleftrightarrow> (\<forall>b' i. r = Some b' \<longrightarrow> load_png q b = Some i \<longrightarrow>
     (\<exists>i'. load_png q b' = Some i' \<and> hashImagePixels i' = hashImagePixels i))"

definition lossless_clipboard :: "clip_env \<Rightarrow> bool" where
  "lossless_clipboard q \<longleftrightarrow>
     (\<forall>t. mime_text (text_mime q t) = t \<and> mime_image (text_mime q t) = None)
     \<and> (\<forall>b. mime_text (png_mime q b) = [] \<and> same_picture q b (mime_image (png_mime q b)))
     \<and> (\<forall>t b. mime_text (compound_mime q t b) \<in> {t, []} \<and> same_picture q b (mime_image (compound_mime q t b)))"

definition valid_text :: "clip_env \<Rightarrow> bytes \<Rightarrow> bool" where
  "valid_text q b \<longleftrightarrow> to_utf8 q (from_utf8 q b) = b"

definition has_pixels :: "clip_env \<Rightarrow> bytes \<Rightarrow> bool" where
  "has_pixels q b \<longleftrightarrow> (\<forall>i. load_png q b = Some i \<longrightarrow> hashImagePixels i \<noteq> 0)"

text \<open>Either nothing was written, or what was is known for five seconds.\<close>

definition written_known :: "clip_env \<Rightarrow> int \<Rightarrow> clipboard_sync \<Rightarrow> clipboard_sync \<Rightarrow> bool" where
  "written_known q t s s' \<longleftrightarrow>
     outbound s' = outbound s \<and> uploads s' = uploads s
     \<and> (m_PendingSelfWrites s' = m_PendingSelfWrites s \<and> local_clip s' = local_clip s
        \<or> clip_known q (t + ECHO_TTL_MS) s')"

lemma written_refl [simp]: "written_known q t s s"
  by (simp add: written_known_def)

lemma written_before:
  assumes "written_known q t s s'" and "outbound s = outbound r" and "uploads s = uploads r"
    and "m_PendingSelfWrites s = m_PendingSelfWrites r" and "local_clip s = local_clip r"
  shows "written_known q t r s'"
  using assms by (simp add: written_known_def)

lemmas write_defs = write_clip_def note_bytes_def note_image_def recordImageHash_def

lemma text_written:
  assumes "lossless_clipboard q" and "valid_text q b"
  shows "written_known q t s (applyInboundText q b t s)"
  using assms
  by (auto simp: applyInboundText_def write_defs written_known_def clip_known_def known_bytes_def clip_utf8_def
      lossless_clipboard_def valid_text_def)

lemma png_written:
  assumes "lossless_clipboard q" and "has_pixels q b"
  shows "written_known q t s (applyInboundPng q b t s)"
proof (cases "load_png q b")
  case (Some i)
  have pic: "same_picture q b (mime_image (png_mime q b))" "mime_text (png_mime q b) = []"
    using assms(1) by (auto simp: lossless_clipboard_def)
  have "hashImagePixels i \<noteq> 0" using assms(2) Some by (simp add: has_pixels_def)
  then show ?thesis
    using pic Some
    by (fastforce simp: applyInboundPng_def write_defs written_known_def clip_known_def known_bytes_def clip_utf8_def
        known_image_def same_picture_def)
qed (simp add: applyInboundPng_def)

lemma compound_written:
  assumes "lossless_clipboard q" and "has_pixels q b" and "valid_text q x"
  shows "written_known q t s (applyCompound q x b t s)"
proof (cases "load_png q b")
  case (Some i)
  have pic: "same_picture q b (mime_image (compound_mime q y b))" "mime_text (compound_mime q y b) \<in> {y, []}" for y
    using assms(1) by (auto simp: lossless_clipboard_def)
  have "hashImagePixels i \<noteq> 0" using assms(2) Some by (simp add: has_pixels_def)
  then have "written_known q t s (write_clip (compound_mime q (from_utf8 q x) b)
      (note_image i t (note_bytes b t (note_bytes x t s))))"
    using pic [of "from_utf8 q x"] Some assms(3)
    by (fastforce simp: write_defs written_known_def clip_known_def known_bytes_def clip_utf8_def
        known_image_def same_picture_def valid_text_def)
  then show ?thesis using Some png_written [OF assms(1,2)] by (simp add: applyCompound_def Let_def)
qed (simp add: applyCompound_def text_written [OF assms(1,3)])

definition valid_bursts :: "clip_env \<Rightarrow> clipboard_sync \<Rightarrow> bool" where
  "valid_bursts q s \<longleftrightarrow> (\<forall>(k, b) \<in> set (m_PendingBursts s). haveText b \<longrightarrow> valid_text q (textPayload b))"

lemma open_burst_same [simp]:
  "outbound (open_burst q k s) = outbound s" "uploads (open_burst q k s) = uploads s"
  "m_PendingSelfWrites (open_burst q k s) = m_PendingSelfWrites s" "local_clip (open_burst q k s) = local_clip s"
  "m_EchoCache (open_burst q k s) = m_EchoCache s" "m_ImageEchoCache (open_burst q k s) = m_ImageEchoCache s"
  "m_Active (open_burst q k s) = m_Active s" "fetches (open_burst q k s) = fetches s"
  "m_NextToken (open_burst q k s) = m_NextToken s"
  by (simp_all add: open_burst_def removeBurst_def Let_def)

lemma set_burst_same [simp]:
  "outbound (set_burst k b s) = outbound s" "uploads (set_burst k b s) = uploads s"
  "m_PendingSelfWrites (set_burst k b s) = m_PendingSelfWrites s" "local_clip (set_burst k b s) = local_clip s"
  "m_EchoCache (set_burst k b s) = m_EchoCache s" "m_ImageEchoCache (set_burst k b s) = m_ImageEchoCache s"
  "m_Active (set_burst k b s) = m_Active s" "fetches (set_burst k b s) = fetches s"
  "m_NextToken (set_burst k b s) = m_NextToken s"
  by (simp_all add: set_burst_def)

lemma open_burst_valid: "valid_bursts q s \<Longrightarrow> valid_bursts q (open_burst q k s)"
  by (auto simp: valid_bursts_def open_burst_def removeBurst_def Let_def)

lemma burst_written:
  assumes "lossless_clipboard q" and "has_pixels q b" and "valid_text q b" and "valid_bursts q s"
  shows "written_known q t s (handleBurstFrame q kind token b t s)"
proof -
  let ?s = "open_burst q token s"
  have v: "valid_text q (textPayload c)" if "map_of (m_PendingBursts ?s) token = Some c" "haveText c" for c
    using open_burst_valid [OF assms(4), of token] map_of_SomeD [OF that(1)] that(2) by (auto simp: valid_bursts_def)
  have png: "written_known q t s (applyInboundPng q b t (set_burst token c ?s))" for c
    by (rule written_before [OF png_written [OF assms(1,2)]]) simp_all
  have compound: "written_known q t s (applyCompound q x b t (set_burst token c ?s))" if "valid_text q x" for c x
    by (rule written_before [OF compound_written [OF assms(1,2) that]]) simp_all
  have none: "written_known q t s ?s" "written_known q t s (set_burst token c ?s)" for c
    by (rule written_before [OF written_refl]; simp)+
  show ?thesis
    using v png compound none
    by (simp add: handleBurstFrame_def Let_def split: option.split)
qed

text \<open>What an event brings from the host, and when.\<close>

fun payload_of :: "clip_event \<Rightarrow> (bytes \<times> int) option" where
  "payload_of (Frame_arrives f t) = map_option (\<lambda>(k, token, p). (p, t)) (decodeFrame f)"
| "payload_of (Fetch_done i (Some b) t) = Some (b, t)"
| "payload_of _ = None"

lemma arrival_written:
  assumes "lossless_clipboard q" and "payload_of e = Some (p, t)" and "has_pixels q p" and "valid_text q p"
    and "valid_bursts q s"
  shows "written_known q t s (clip_step q s e)"
proof -
  have alone: "written_known q t s' (apply_kind q k p t s')" for k s'
    using text_written [OF assms(1,4)] png_written [OF assms(1,3)] by (simp add: apply_kind_def)
  have burst: "written_known q t s' (handleBurstFrame q k tok p t s')" if "valid_bursts q s'" for k tok s'
    by (rule burst_written [OF assms(1,3,4) that])
  show ?thesis
  proof (cases e)
    case (Frame_arrives f t')
    then obtain k tok where d: "decodeFrame f = Some (k, tok, p)" and t: "t' = t" using assms(2) by auto
    have "written_known q t s (incoming_ref q tok p s)"
      by (rule written_before [OF written_refl])
        (auto simp: incoming_ref_def fetchBlob_def Let_def split: option.split)
    then show ?thesis
      using Frame_arrives d t alone burst assms(5)
      by (simp add: clip_step_def onIncomingFrame_def)
  next
    case (Fetch_done i r t')
    then have r: "r = Some p" "t' = t" using assms(2) by (cases r; simp)+
    let ?s = "s\<lparr>fetches := take i (fetches s) @ drop (Suc i) (fetches s)\<rparr>"
    have "valid_bursts q ?s" using assms(5) by (simp add: valid_bursts_def)
    then have "written_known q t ?s (fetch_finished q f (Some p) t ?s)" for f
      using alone [of ?s] burst [of ?s] text_written [OF assms(1,4)] png_written [OF assms(1,3)]
      by (simp add: fetch_finished_def burstFlavorResolved_def split: fetch_use.split)
    then have "written_known q t s (fetch_finished q f (Some p) t ?s)" for f
      by (rule written_before) simp_all
    then show ?thesis using Fetch_done r by (simp add: clip_step_def)
  qed (use assms(2) in auto)
qed

lemma changes_quiet:
  assumes "clip_known q later s" and "\<forall>t \<in> set ts. t \<le> later"
  shows "clip_quiet q later s (run_events (clip_step q) s (map Changed ts))"
  using assms
proof (induction ts arbitrary: s)
  case (Cons t ts)
  have c: "clip_quiet q later s (clip_step q s (Changed t))"
    using change_quiet [OF Cons.prems(1)] Cons.prems(2) by (simp add: clip_step_def)
  show ?case using quiet_trans [OF c Cons.IH [OF quiet_known [OF c Cons.prems(1)]]] Cons.prems(2) by simp
qed simp

section \<open>A copy arrives\<close>

text \<open>What one end must hold for a copy to be sent inline, and the other for it to be written.\<close>

definition is_new :: "bytes \<Rightarrow> int \<Rightarrow> echo_cache \<Rightarrow> bool" where
  "is_new b now c \<longleftrightarrow> \<not> fst (seenRecently (hashBytes b) now c)"

definition inline_size :: "bytes \<Rightarrow> bool" where
  "inline_size b \<longleftrightarrow> b \<noteq> [] \<and> length b < INLINE_THRESHOLD"

definition sends_now :: "clip_env \<Rightarrow> int \<Rightarrow> clipboard_sync \<Rightarrow> bool" where
  "sends_now q now s \<longleftrightarrow> m_Active s \<and> m_PendingSelfWrites s = 0 \<and> \<not> mime_finder (local_clip s)
     \<and> \<not> hasFileReferences (local_clip s) \<and> m_NextToken s \<noteq> 0"

definition new_text :: "clip_env \<Rightarrow> bytes \<Rightarrow> int \<Rightarrow> clipboard_sync \<Rightarrow> bool" where
  "new_text q u now s \<longleftrightarrow> clip_utf8 q (local_clip s) = u \<and> inline_size u \<and> 0 \<notin> set u \<and> is_new u now (m_EchoCache s)"

definition new_image :: "clip_env \<Rightarrow> bytes \<Rightarrow> int \<Rightarrow> clipboard_sync \<Rightarrow> bool" where
  "new_image q p now s \<longleftrightarrow> mime_image (local_clip s) = Some p \<and> inline_size p \<and> is_new p now (m_EchoCache s)
     \<and> (\<exists>i. load_png q p = Some i \<and> \<not> fst (seenImageRecently (hashImagePixels i) now (m_ImageEchoCache s)))"

definition receives :: "u32 \<Rightarrow> clipboard_sync \<Rightarrow> bool" where
  "receives token s \<longleftrightarrow> m_Active s \<and> \<not> hasFileReferences (local_clip s) \<and> token \<notin> fst ` set (m_PendingBursts s)"

lemma inline_frame:
  assumes "inline_size b"
  obtains f where "encodeFrame k token b = Some f" "decodeFrame f = Some (k, token, b)"
    "transfer k m b token s = s\<lparr>outbound := outbound s @ [f]\<rparr>" "\<not> MAX_BLOB_BYTES < length b"
proof -
  have n: "length b < 60000" using assms by (simp add: inline_size_def INLINE_THRESHOLD_def)
  then obtain f where f: "encodeFrame k token b = Some f" by (simp add: encodeFrame_def MAX_PAYLOAD_def)
  show thesis
    by (rule that [OF f decode_encoded_frame [OF f]])
      (use n f in \<open>simp_all add: transfer_def shouldTransferOutOfBand_def INLINE_THRESHOLD_def send_frame_def
        MAX_BLOB_BYTES_def\<close>)
qed

lemma sends_text:
  assumes "inline_size u" and "is_new u now (m_EchoCache s)"
  obtains f s' where "decodeFrame f = Some (KIND_TEXT, token, u)" "sendTextOutbound u token now s = s'"
    "outbound s' = outbound s @ [f]" "m_ImageEchoCache s' = m_ImageEchoCache s"
    "\<And>b. hashBytes b \<noteq> hashBytes u \<Longrightarrow> is_new b now (m_EchoCache s) \<Longrightarrow> is_new b now (m_EchoCache s')"
proof -
  let ?c = "snd (seenRecently (hashBytes u) now (m_EchoCache s))"
  let ?s = "note_bytes u now (s\<lparr>m_EchoCache := ?c\<rparr>)"
  obtain f where f: "decodeFrame f = Some (KIND_TEXT, token, u)"
    "transfer KIND_TEXT ''text/plain'' u token ?s = ?s\<lparr>outbound := outbound ?s @ [f]\<rparr>" "\<not> MAX_BLOB_BYTES < length u"
    by (rule inline_frame [OF assms(1), of KIND_TEXT token "''text/plain''" ?s]) blast
  have set: "set (drop_stale now (recordHash g now (drop_stale now c))) \<subseteq> set (drop_stale now c) \<union> {(g, now)}" for g c
    unfolding drop_stale_def recordHash_def Let_def by (auto dest!: set_dropWhileD in_set_dropD)
  have keeps: "is_new b now (m_EchoCache ?s)" if "hashBytes b \<noteq> hashBytes u" "is_new b now (m_EchoCache s)" for b
    using that set [of "hashBytes u" "m_EchoCache s"]
    by (force simp: is_new_def seenRecently_def Let_def note_bytes_def)
  show thesis
    by (rule that [OF f(1), of "?s\<lparr>outbound := outbound ?s @ [f]\<rparr>"])
      (use assms f(2,3) keeps in \<open>simp_all add: sendTextOutbound_def is_new_def inline_size_def Let_def case_prod_beta
        note_bytes_def\<close>)
qed

lemma sends_image:
  assumes "inline_size p" and "is_new p now (m_EchoCache s)"
    and "load_png q p = Some i" and "\<not> fst (seenImageRecently (hashImagePixels i) now (m_ImageEchoCache s))"
  obtains f where "decodeFrame f = Some (KIND_PNG, token, p)"
    "outbound (sendClipboardPng q p token now s) = outbound s @ [f]"
proof -
  let ?s = "note_bytes p now (note_image i now (s\<lparr>m_EchoCache := snd (seenRecently (hashBytes p) now (m_EchoCache s)),
     m_ImageEchoCache := snd (seenImageRecently (hashImagePixels i) now (m_ImageEchoCache s))\<rparr>))"
  obtain f where f: "decodeFrame f = Some (KIND_PNG, token, p)"
    "transfer KIND_PNG ''image/png'' p token ?s = ?s\<lparr>outbound := outbound ?s @ [f]\<rparr>" "\<not> MAX_BLOB_BYTES < length p"
    by (rule inline_frame [OF assms(1), of KIND_PNG token "''image/png''" ?s]) blast
  have "sendClipboardPng q p token now s = ?s\<lparr>outbound := outbound ?s @ [f]\<rparr>"
    using assms(2-4) f(2,3) by (simp add: sendClipboardPng_def is_new_def Let_def case_prod_beta)
  then show thesis by (intro that [OF f(1)]) (simp add: note_bytes_def note_image_def)
qed

lemma change_sends:
  assumes "sends_now q now s"
  shows "mime_image (local_clip s) = None \<Longrightarrow>
      onLocalClipboardChanged q now s = sendTextOutbound (clip_utf8 q (local_clip s)) 0 now s"
    and "mime_image (local_clip s) = Some p \<Longrightarrow> clip_utf8 q (local_clip s) = [] \<Longrightarrow>
      onLocalClipboardChanged q now s = sendClipboardPng q p 0 now s"
    and "mime_image (local_clip s) = Some p \<Longrightarrow> inline_size (clip_utf8 q (local_clip s)) \<Longrightarrow>
      onLocalClipboardChanged q now s = sendClipboardPng q p (m_NextToken s) now
        (sendTextOutbound (clip_utf8 q (local_clip s)) (m_NextToken s) now (snd (nextToken s)))"
  using assms
  by (auto simp: onLocalClipboardChanged_def sends_now_def Let_def nextToken_def inline_size_def INLINE_THRESHOLD_def
      MAX_PAYLOAD_def)

lemma map_of_absent: "k \<notin> fst ` set xs \<Longrightarrow> map_of xs k = None"
  by (simp add: map_of_eq_None_iff)

lemma set_burst_last:
  assumes "m_PendingBursts s = xs @ [(k, c)]" and "k \<notin> fst ` set xs"
  shows "m_PendingBursts (set_burst k b s) = xs @ [(k, b)]"
proof -
  have "map (\<lambda>(j, c). if j = k then (j, b) else (j, c)) xs = xs"
    using assms(2) by (intro map_idI) (auto simp: image_iff)
  then show ?thesis using assms(1) by (simp add: set_burst_def)
qed

text \<open>The first frame of a burst, if it is the text, is only kept.\<close>

lemma burst_text_kept:
  assumes "token \<notin> fst ` set (m_PendingBursts s)"
  obtains xs where "token \<notin> fst ` set xs"
    "m_PendingBursts (handleBurstFrame q KIND_TEXT token u t s)
      = xs @ [(token, \<lparr>textPayload = u, pngPayload = [], haveText = True, havePng = False\<rparr>)]"
    "local_clip (handleBurstFrame q KIND_TEXT token u t s) = local_clip s"
    "m_Active (handleBurstFrame q KIND_TEXT token u t s) = m_Active s"
proof -
  let ?s = "open_burst q token s"
  obtain xs where xs: "m_PendingBursts ?s = xs @ [(token, \<lparr>textPayload = [], pngPayload = [], haveText = False, havePng = False\<rparr>)]"
    "token \<notin> fst ` set xs"
    using assms by (cases "MAX_PENDING_BURSTS \<le> length (m_PendingBursts s)")
      (auto simp: open_burst_def removeBurst_def Let_def image_iff)
  then have "map_of (m_PendingBursts ?s) token = Some \<lparr>textPayload = [], pngPayload = [], haveText = False, havePng = False\<rparr>"
    by (simp add: map_of_absent map_add_def)
  then show thesis
    by (intro that [OF xs(2)]) (simp_all add: handleBurstFrame_def Let_def set_burst_last [OF xs])
qed

lemma receives_pair:
  assumes "receives token s" and "token \<noteq> 0" and "0 \<notin> set u" and "u \<noteq> []" and "load_png q p = Some i"
    and "decodeFrame f = Some (KIND_TEXT, token, u)" and "decodeFrame g = Some (KIND_PNG, token, p)"
  shows "local_clip (run_events (clip_step q) s [Frame_arrives f t, Frame_arrives g t']) = compound_mime q (from_utf8 q u) p"
proof -
  define r where "r = handleBurstFrame q KIND_TEXT token u t s"
  have "token \<notin> fst ` set (m_PendingBursts s)" using assms(1) by (simp add: receives_def)
  then obtain xs where xs: "token \<notin> fst ` set xs"
    "m_PendingBursts r = xs @ [(token, \<lparr>textPayload = u, pngPayload = [], haveText = True, havePng = False\<rparr>)]"
    "local_clip r = local_clip s" "m_Active r = m_Active s"
    using burst_text_kept unfolding r_def by metis
  then have "open_burst q token r = r"
    "map_of (m_PendingBursts r) token = Some \<lparr>textPayload = u, pngPayload = [], haveText = True, havePng = False\<rparr>"
    by (simp_all add: open_burst_def map_of_absent map_add_def)
  then have "local_clip (handleBurstFrame q KIND_PNG token p t' r) = compound_mime q (from_utf8 q u) p"
    using assms(1,3-5) xs(3)
    by (simp add: handleBurstFrame_def KIND_TEXT_def KIND_PNG_def applyCompound_def receives_def write_clip_def Let_def)
  moreover have "clip_step q s (Frame_arrives f t) = r" "clip_step q r (Frame_arrives g t') = handleBurstFrame q KIND_PNG token p t' r"
    using assms(1,2,6,7) xs(4) by (simp_all add: clip_step_def onIncomingFrame_def receives_def r_def)
  ultimately show ?thesis by simp
qed

lemma receives_one:
  assumes "receives 0 s"
  shows "decodeFrame f = Some (KIND_TEXT, 0, u) \<Longrightarrow> 0 \<notin> set u \<Longrightarrow>
      local_clip (clip_step q s (Frame_arrives f t)) = text_mime q (from_utf8 q u)"
    and "decodeFrame f = Some (KIND_PNG, 0, p) \<Longrightarrow> load_png q p = Some i \<Longrightarrow>
      local_clip (clip_step q s (Frame_arrives f t)) = png_mime q p"
  using assms
  by (simp_all add: clip_step_def onIncomingFrame_def receives_def apply_kind_def applyInboundText_def
      applyInboundPng_def write_clip_def KIND_TEXT_def KIND_PNG_def)

section \<open>Files, bounds\<close>

fun is_copied :: "clip_event \<Rightarrow> bool" where
  "is_copied (Copied m) = True"
| "is_copied _ = False"

text \<open>A clipboard with files is not written to.\<close>

lemma files_stay_apply:
  assumes "hasFileReferences (local_clip s)"
  shows "local_clip (applyInboundText q b t s) = local_clip s" "local_clip (applyInboundPng q b t s) = local_clip s"
    "local_clip (applyCompound q u b t s) = local_clip s"
  using assms by (auto simp: applyInboundText_def applyInboundPng_def applyCompound_def split: option.split)

lemma files_stay_burst:
  assumes "hasFileReferences (local_clip s)"
  shows "local_clip (handleBurstFrame q k tok b t s) = local_clip s"
  using assms files_stay_apply by (simp add: handleBurstFrame_def Let_def split: option.split)

lemma sends_keep_clip [simp]:
  "local_clip (transfer k m b tok s) = local_clip s"
  "local_clip (sendTextOutbound u tok now s) = local_clip s"
  "local_clip (sendClipboardPng q b tok now s) = local_clip s"
  by (simp_all add: transfer_def uploadAndSendRef_def send_frame_def sendTextOutbound_def sendClipboardPng_def Let_def
      case_prod_beta note_bytes_def note_image_def split: option.split)

lemma change_keeps_clip [simp]: "local_clip (onLocalClipboardChanged q now s) = local_clip s"
  by (simp add: onLocalClipboardChanged_def Let_def nextToken_def split: option.split)

lemma files_stay_step:
  assumes "hasFileReferences (local_clip s)" and "\<not> is_copied e"
  shows "local_clip (clip_step q s e) = local_clip s"
proof (cases e)
  case (Frame_arrives f t)
  then show ?thesis
    using files_stay_apply [OF assms(1)] files_stay_burst [OF assms(1)]
    by (simp add: clip_step_def onIncomingFrame_def apply_kind_def incoming_ref_def fetchBlob_def Let_def split: option.split)
next
  case (Fetch_done i r t)
  let ?s = "s\<lparr>fetches := take i (fetches s) @ drop (Suc i) (fetches s)\<rparr>"
  have "hasFileReferences (local_clip ?s)" using assms(1) by simp
  from files_stay_apply [OF this] files_stay_burst [OF this] show ?thesis
    by (simp add: Fetch_done clip_step_def fetch_finished_def burstFlavorResolved_def apply_kind_def
        split: option.split fetch_use.split)
next
  case (Upload_done i r)
  then show ?thesis by (simp add: clip_step_def upload_finished_def send_frame_def split: option.split)
qed (use assms(2) in \<open>simp_all add: clip_step_def sync_start_def sync_stop_def removeBurst_def\<close>)

text \<open>What holds throughout: bounded memory, and frames the host can read.\<close>

definition wire_ok :: "bytes \<Rightarrow> bool" where
  "wire_ok f \<longleftrightarrow> length f \<le> 65535 \<and> (\<exists>k token p. decodeFrame f = Some (k, token, p)
     \<and> (k = KIND_REF \<or> (k = KIND_TEXT \<or> k = KIND_PNG) \<and> length p < INLINE_THRESHOLD))"

definition sync_ok :: "clipboard_sync \<Rightarrow> bool" where
  "sync_ok s \<longleftrightarrow> length (m_EchoCache s) \<le> ECHO_MAX \<and> length (m_ImageEchoCache s) \<le> ECHO_MAX
     \<and> length (m_PendingBursts s) \<le> MAX_PENDING_BURSTS \<and> distinct (map fst (m_PendingBursts s))
     \<and> m_NextToken s \<noteq> 0 \<and> list_all wire_ok (outbound s)"

definition picks_a_key :: "clip_env \<Rightarrow> bool" where
  "picks_a_key q \<longleftrightarrow> (\<forall>ks. ks \<noteq> [] \<longrightarrow> first_key q ks \<in> set ks)"

lemma sync_ok_cong:
  assumes "sync_ok s" and "m_EchoCache t = m_EchoCache s" and "m_ImageEchoCache t = m_ImageEchoCache s"
    and "m_PendingBursts t = m_PendingBursts s" and "m_NextToken t = m_NextToken s" and "outbound t = outbound s"
  shows "sync_ok t"
  using assms by (simp add: sync_ok_def)

lemma ok_write [inv_intros]: "sync_ok s \<Longrightarrow> sync_ok (write_clip m s)" by (simp add: sync_ok_def write_clip_def)
lemma ok_note [inv_intros]: "sync_ok s \<Longrightarrow> sync_ok (note_bytes b t s)"
  by (simp add: sync_ok_def note_bytes_def length_facts)
lemma ok_note_image [inv_intros]: "sync_ok s \<Longrightarrow> sync_ok (note_image i t s)"
  by (simp add: sync_ok_def note_image_def recordImageHash_def length_facts)

lemma ok_apply [inv_intros]:
  assumes "sync_ok s"
  shows "sync_ok (applyInboundText q b t s)" "sync_ok (applyInboundPng q b t s)"
    "sync_ok (applyCompound q u b t s)" "sync_ok (apply_kind q k b t s)"
  using assms
  by (auto simp: applyInboundText_def applyInboundPng_def applyCompound_def apply_kind_def Let_def
      intro!: inv_intros split: option.split)

lemma ok_remove [inv_intros]: "sync_ok s \<Longrightarrow> sync_ok (removeBurst k s)"
proof -
  assume s: "sync_ok s"
  have "distinct (map fst (filter P xs))" if "distinct (map fst xs)" for P and xs :: "(u32 \<times> burst) list"
    using that by (induction xs) auto
  moreover have "length (filter P xs) \<le> n" if "length xs \<le> n" for P n and xs :: "(u32 \<times> burst) list"
    using that order_trans length_filter_le by blast
  ultimately show ?thesis using s by (simp add: sync_ok_def removeBurst_def)
qed

lemma drop_first_shorter:
  assumes "picks_a_key q" and "ys \<noteq> []"
  shows "length (filter (\<lambda>(k, b). k \<noteq> first_key q (map fst ys)) ys) < length ys"
proof -
  have "first_key q (map fst ys) \<in> set (map fst ys)" using assms by (auto simp: picks_a_key_def simp del: set_map)
  then obtain y where "y \<in> set ys" "fst y = first_key q (map fst ys)" by auto
  then show ?thesis by (intro length_filter_less [of y]) (auto simp: case_prod_beta)
qed

lemma ok_add:
  assumes "sync_ok s" and "length (m_PendingBursts s) < MAX_PENDING_BURSTS" and "k \<notin> fst ` set (m_PendingBursts s)"
  shows "sync_ok (s\<lparr>m_PendingBursts := m_PendingBursts s @ [(k, b)]\<rparr>)"
  using assms by (simp add: sync_ok_def)

lemma ok_open [inv_intros]:
  assumes "picks_a_key q" and "sync_ok s"
  shows "sync_ok (open_burst q k s)"
proof (cases "k \<in> fst ` set (m_PendingBursts s)")
  case True
  then show ?thesis using assms by (simp add: open_burst_def)
next
  case new: False
  show ?thesis
  proof (cases "MAX_PENDING_BURSTS \<le> length (m_PendingBursts s)")
    case True
    let ?s = "removeBurst (first_key q (map fst (m_PendingBursts s))) s"
    have "m_PendingBursts s \<noteq> []" using True by (auto simp: MAX_PENDING_BURSTS_def)
    from drop_first_shorter [OF assms(1) this]
    have "length (m_PendingBursts ?s) < MAX_PENDING_BURSTS" using assms(2) by (simp add: removeBurst_def sync_ok_def)
    moreover have "k \<notin> fst ` set (m_PendingBursts ?s)" using new by (auto simp: removeBurst_def)
    ultimately show ?thesis
      using ok_add [OF ok_remove [OF assms(2)]] new True by (simp add: open_burst_def Let_def del: fst_conv)
  next
    case False
    then show ?thesis using ok_add [OF assms(2) _ new] new by (simp add: open_burst_def Let_def)
  qed
qed

lemma set_burst_keys: "map fst (m_PendingBursts (set_burst k b s)) = map fst (m_PendingBursts s)"
  unfolding set_burst_def by (simp add: case_prod_beta cong: if_cong)

lemma set_burst_length: "length (m_PendingBursts (set_burst k b s)) = length (m_PendingBursts s)"
  by (simp add: set_burst_def)

lemma ok_set [inv_intros]: "sync_ok s \<Longrightarrow> sync_ok (set_burst k b s)"
  unfolding sync_ok_def set_burst_keys set_burst_length by (simp add: set_burst_def)

lemma ok_burst [inv_intros]:
  assumes "picks_a_key q" and "sync_ok s"
  shows "sync_ok (handleBurstFrame q k tok b t s)"
  using ok_open [OF assms, of tok] by (auto simp: handleBurstFrame_def Let_def intro!: inv_intros split: option.split)

lemma wire_sent:
  assumes "sync_ok s" and "k = KIND_REF \<or> (k = KIND_TEXT \<or> k = KIND_PNG) \<and> length b < INLINE_THRESHOLD"
  shows "sync_ok (send_frame k tok b s)"
proof (cases "encodeFrame k tok b")
  case (Some f)
  then have "wire_ok f" using assms(2) decode_encoded_frame [OF Some] encoded_frame_length [OF Some]
    by (auto simp: wire_ok_def)
  then show ?thesis using assms(1) Some by (simp add: send_frame_def sync_ok_def)
qed (use assms(1) in \<open>simp add: send_frame_def\<close>)

lemma ok_transfer [inv_intros]:
  assumes "sync_ok s" and "k = KIND_TEXT \<or> k = KIND_PNG"
  shows "sync_ok (transfer k m b tok s)"
proof -
  have "sync_ok (uploadAndSendRef b m tok s)" using assms(1) by (auto simp: uploadAndSendRef_def intro: sync_ok_cong)
  then show ?thesis using wire_sent [OF assms(1)] assms(2) by (simp add: transfer_def shouldTransferOutOfBand_def)
qed

lemma ok_look:
  assumes "sync_ok s"
  shows "sync_ok (s\<lparr>m_EchoCache := snd (seenRecently h now (m_EchoCache s))\<rparr>)"
    and "sync_ok (s\<lparr>m_ImageEchoCache := snd (seenImageRecently h now (m_ImageEchoCache s))\<rparr>)"
  using assms by (simp_all add: sync_ok_def seenImageRecently_def seenRecently_def Let_def drop_stale_bound)

lemma ok_send_text [inv_intros]: "sync_ok s \<Longrightarrow> sync_ok (sendTextOutbound u tok now s)"
  by (auto simp: sendTextOutbound_def Let_def case_prod_beta intro!: inv_intros ok_look)

lemma ok_send_png [inv_intros]:
  assumes "sync_ok s"
  shows "sync_ok (sendClipboardPng q b tok now s)"
proof -
  let ?s = "s\<lparr>m_EchoCache := snd (seenRecently (hashBytes b) now (m_EchoCache s))\<rparr>"
  have s: "sync_ok ?s" by (rule ok_look [OF assms])
  show ?thesis
    using s ok_look(2) [OF s] assms
    by (auto simp: sendClipboardPng_def Let_def case_prod_beta intro!: inv_intros split: option.split)
qed

lemma ok_token: "sync_ok s \<Longrightarrow> sync_ok (snd (nextToken s))"
  by (simp add: nextToken_def sync_ok_def)

lemma ok_change [inv_intros]: "sync_ok s \<Longrightarrow> sync_ok (onLocalClipboardChanged q now s)"
  by (auto simp: onLocalClipboardChanged_def Let_def case_prod_beta intro!: inv_intros ok_token split: option.split
      intro: sync_ok_cong)

lemma ok_fetch: "sync_ok s \<Longrightarrow> sync_ok (s\<lparr>fetches := fs\<rparr>)"
  by (simp add: sync_ok_def)

lemma ok_step:
  assumes "picks_a_key q" and "sync_ok s"
  shows "sync_ok (clip_step q s e)"
proof (cases e)
  case (Frame_arrives f t)
  have "sync_ok (incoming_ref q tok p s)" for tok p
    using assms(2) ok_fetch by (auto simp: incoming_ref_def fetchBlob_def Let_def split: option.split)
  then show ?thesis
    using assms by (auto simp: Frame_arrives clip_step_def onIncomingFrame_def intro!: inv_intros split: option.split)
next
  case (Fetch_done i r t)
  then show ?thesis
    using assms by (auto simp: clip_step_def fetch_finished_def burstFlavorResolved_def intro!: inv_intros ok_fetch
        split: option.split fetch_use.split)
next
  case (Upload_done i r)
  have "sync_ok (s\<lparr>uploads := us\<rparr>)" for us using assms(2) by (simp add: sync_ok_def)
  then show ?thesis
    using assms(2) by (auto simp: Upload_done clip_step_def upload_finished_def intro!: wire_sent split: option.split)
qed (use assms ok_change ok_remove in \<open>auto simp: clip_step_def sync_start_def sync_stop_def sync_ok_def\<close>)

end
