(* ===== verification/ClipboardExchange.thy ===== *)
theory ClipboardExchange
  imports ClipboardSync
begin

text \<open>
  What the two ends of a synchronised clipboard (\<open>ClipboardSync\<close>) can rely on: what is copied arrives, what
  arrives is not sent back, files are left alone, memory and frames are bounded; and the copies that do
  not arrive.
\<close>

section \<open>Copies that do not arrive\<close>

definition plain_copy :: "clip_env \<Rightarrow> mime \<Rightarrow> bytes \<Rightarrow> bool" where
  "plain_copy q m u \<longleftrightarrow> mime_image m = None \<and> \<not> mime_finder m \<and> \<not> hasFileReferences m \<and> clip_utf8 q m = u \<and> inline_size u"

definition idle :: "clipboard_sync \<Rightarrow> bool" where
  "idle s \<longleftrightarrow> m_Active s \<and> m_PendingSelfWrites s = 0"

lemma copied_change:
  assumes "plain_copy q m u" and "idle s"
  shows "run_events (clip_step q) s [Copied m, Changed t] = sendTextOutbound u 0 t (s\<lparr>local_clip := m\<rparr>)"
  using assms by (simp add: plain_copy_def idle_def clip_step_def onLocalClipboardChanged_def Let_def)

lemma drop_stale_subset: "set (drop_stale t c) \<subseteq> set c"
  by (auto simp: drop_stale_def dest: set_dropWhileD)

lemma copied_sent:
  assumes "plain_copy q m u" and "idle s" and "hashBytes u \<notin> fst ` set (m_EchoCache s)"
  obtains f s' where "run_events (clip_step q) s [Copied m, Changed t] = s'" "decodeFrame f = Some (KIND_TEXT, 0, u)"
    "outbound s' = outbound s @ [f]" "uploads s' = uploads s" "idle s'" "local_clip s' = m"
    "m_EchoCache s' = recordHash (hashBytes u) t (drop_stale t (m_EchoCache s))"
proof -
  have u: "inline_size u" using assms(1) by (simp add: plain_copy_def)
  have new: "fst (seenRecently (hashBytes u) t (m_EchoCache s)) = False"
    using assms(3) drop_stale_subset [of t "m_EchoCache s"] by (auto simp: seenRecently_def Let_def)
  let ?s = "note_bytes u t (s\<lparr>local_clip := m, m_EchoCache := drop_stale t (m_EchoCache s)\<rparr>)"
  obtain f where f: "decodeFrame f = Some (KIND_TEXT, 0, u)"
    "transfer KIND_TEXT ''text/plain'' u 0 ?s = ?s\<lparr>outbound := outbound ?s @ [f]\<rparr>" "\<not> MAX_BLOB_BYTES < length u"
    by (rule inline_frame [OF u, of KIND_TEXT 0 "''text/plain''" ?s]) blast
  have "snd (seenRecently h t c) = drop_stale t c" for h c by (simp add: seenRecently_def Let_def)
  then have "sendTextOutbound u 0 t (s\<lparr>local_clip := m\<rparr>) = ?s\<lparr>outbound := outbound ?s @ [f]\<rparr>"
    using u new f(2,3) by (simp add: sendTextOutbound_def inline_size_def case_prod_beta Let_def)
  then show thesis
    using assms(2) by (intro that [OF copied_change [OF assms(1,2)] f(1)]) (simp_all add: note_bytes_def idle_def)
qed

lemma seen_not_sent:
  assumes "plain_copy q m u" and "idle s" and "fresh_until t (hashBytes u) (m_EchoCache s)"
  shows "outbound (run_events (clip_step q) s [Copied m, Changed t]) = outbound s"
    and "uploads (run_events (clip_step q) s [Copied m, Changed t]) = uploads s"
    and "local_clip (run_events (clip_step q) s [Copied m, Changed t]) = m"
  using text_quiet [of t u "s\<lparr>local_clip := m\<rparr>" t q 0] assms(3)
  by (simp_all only: copied_change [OF assms(1,2)]) (simp_all add: known_bytes_def clip_quiet_def)

lemma fresh_second:
  assumes "t1 \<le> t3" and "t2 \<le> t3" and "t3 - t1 \<le> ECHO_TTL_MS"
  shows "fresh_until t3 h (recordHash g t2 (drop_stale t2 (recordHash h t1 c)))"
proof -
  obtain c' where c': "recordHash h t1 c = c' @ [(h, t1)]" using record_last by blast
  have "\<not> ECHO_TTL_MS < t2 - t1" using assms by simp
  then have "drop_stale t2 (recordHash h t1 c) = drop_stale t2 c' @ [(h, t1)]"
    unfolding c' drop_stale_def by (subst dropWhile_append3) simp_all
  then have "(h, t1) \<in> set (recordHash g t2 (drop_stale t2 (recordHash h t1 c)))"
    by (simp add: recordHash_def [of g] Let_def ECHO_MAX_def)
  then show ?thesis using assms(3) by (auto simp: fresh_until_def)
qed

text \<open>Events that bring no picture and no text of its own.\<close>

fun burst_texts_only :: "clip_event \<Rightarrow> bool" where
  "burst_texts_only (Frame_arrives f t) = (case decodeFrame f of Some (k, token, p) \<Rightarrow> k = KIND_TEXT \<and> token \<noteq> 0 | None \<Rightarrow> True)"
| "burst_texts_only (Fetch_done i r t) = (r = None)"
| "burst_texts_only (Copied m) = False"
| "burst_texts_only _ = True"

lemma burst_text_keeps: "local_clip (handleBurstFrame q KIND_TEXT token p t s) = local_clip s"
  by (simp add: handleBurstFrame_def Let_def KIND_TEXT_def KIND_PNG_def split: option.split)

lemma burst_texts_step: "burst_texts_only e \<Longrightarrow> local_clip (clip_step q s e) = local_clip s"
proof (cases e)
  case (Frame_arrives f t)
  moreover assume "burst_texts_only e"
  ultimately show ?thesis using burst_text_keeps
    by (auto simp: clip_step_def onIncomingFrame_def split: option.splits)
next
  case (Upload_done i r)
  then show ?thesis by (simp add: clip_step_def upload_finished_def send_frame_def split: option.split)
qed (simp_all add: clip_step_def sync_start_def sync_stop_def removeBurst_def fetch_finished_def)

section \<open>Properties\<close>


text \<open>
  C11: What is copied at one end is what the other end's clipboard holds once the frames have arrived: the
  text, the picture, or both together, if they are new, small enough to be sent inline, and neither end's
  clipboard holds files.
\<close>
theorem copy_arrives:
  assumes "sends_now q now s" and "receives 0 r" and "receives (m_NextToken s) r"
    and "clip_utf8 q (local_clip s) = u"
    and "u = [] \<or> new_text q u now s"
    and "mime_image (local_clip s) = pic \<and> (pic = None \<or> new_image q (the pic) now s \<and> hashBytes (the pic) \<noteq> hashBytes u)"
    and "\<not> (u = [] \<and> pic = None)"
    and "outbound (clip_step q s (Changed now)) = outbound s @ fs"
  shows "local_clip (run_events (clip_step q) r (map (\<lambda>f. Frame_arrives f t) fs)) =
    (case pic of None \<Rightarrow> text_mime q (from_utf8 q u)
     | Some p \<Rightarrow> if u = [] then png_mime q p else compound_mime q (from_utf8 q u) p)"
proof (cases pic)
  case None
  then have u: "inline_size u" "is_new u now (m_EchoCache s)" "0 \<notin> set u" using assms(5,7) by (simp_all add: new_text_def)
  obtain f s' where f: "decodeFrame f = Some (KIND_TEXT, 0, u)" "sendTextOutbound u 0 now s = s'" "outbound s' = outbound s @ [f]"
    by (rule sends_text [OF u(1,2), of 0]) blast
  have "fs = [f]" using change_sends(1) [OF assms(1)] assms(4,6,8) None f(2,3) by (simp add: clip_step_def)
  then show ?thesis using receives_one(1) [OF assms(2) f(1) u(3)] None by simp
next
  case (Some p)
  then have img: "mime_image (local_clip s) = Some p" "inline_size p" "is_new p now (m_EchoCache s)" "hashBytes p \<noteq> hashBytes u"
    using assms(6) by (auto simp: new_image_def)
  obtain i where i: "load_png q p = Some i" "\<not> fst (seenImageRecently (hashImagePixels i) now (m_ImageEchoCache s))"
    using assms(6) Some by (auto simp: new_image_def)
  show ?thesis
  proof (cases "u = []")
    case True
    obtain g where g: "decodeFrame g = Some (KIND_PNG, 0, p)" "outbound (sendClipboardPng q p 0 now s) = outbound s @ [g]"
      by (rule sends_image [where token = 0, OF img(2,3) i])
    have "fs = [g]" using change_sends(2) [OF assms(1) img(1)] assms(4,8) True g(2) by (simp add: clip_step_def)
    then show ?thesis using receives_one(2) [OF assms(2) g(1) i(1)] Some True by simp
  next
    case False
    then have u: "inline_size u" "is_new u now (m_EchoCache s)" "0 \<notin> set u" using assms(5) by (simp_all add: new_text_def)
    let ?k = "m_NextToken s" and ?s = "snd (nextToken s)"
    have same: "m_EchoCache ?s = m_EchoCache s" "m_ImageEchoCache ?s = m_ImageEchoCache s" "outbound ?s = outbound s"
      by (simp_all add: nextToken_def)
    obtain f s' where f: "decodeFrame f = Some (KIND_TEXT, ?k, u)" "sendTextOutbound u ?k now ?s = s'"
      "outbound s' = outbound s @ [f]" "m_ImageEchoCache s' = m_ImageEchoCache s" "is_new p now (m_EchoCache s')"
      using sends_text [of u now ?s ?k] u(1,2) img(3,4) same by metis
    obtain g where g: "decodeFrame g = Some (KIND_PNG, ?k, p)" "outbound (sendClipboardPng q p ?k now s') = outbound s' @ [g]"
      by (rule sends_image [where token = ?k and s = s', OF img(2) f(5) i(1)]) (use i(2) f(4) in auto)
    have "fs = [f, g]" using change_sends(3) [OF assms(1) img(1)] u(1) assms(4,8) f(2,3) g(2) by (simp add: clip_step_def)
    moreover have "?k \<noteq> 0" using assms(1) by (simp add: sends_now_def)
    ultimately show ?thesis using receives_pair [OF assms(3) _ u(3) False i(1) f(1) g(1)] Some False by simp
  qed
qed

text \<open>
  C12: Files on the local clipboard are left alone: whatever the host sends, whatever downloads end and
  whatever else happens, until something local is copied. And unless there is a picture that does not come
  from the Finder, nothing of them is sent.
\<close>
theorem files_protected:
  assumes "hasFileReferences (local_clip s)" and "\<not> list_ex is_copied es"
  shows "local_clip (run_events (clip_step q) s es) = local_clip s
    \<and> (mime_image (local_clip s) = None \<or> mime_finder (local_clip s) \<longrightarrow>
         outbound (clip_step q (run_events (clip_step q) s es) (Changed t)) = outbound (run_events (clip_step q) s es)
         \<and> uploads (clip_step q (run_events (clip_step q) s es) (Changed t)) = uploads (run_events (clip_step q) s es))"
proof -
  have clip: "local_clip (run_events (clip_step q) s es) = local_clip s"
    using assms
  proof (induction es arbitrary: s)
    case (Cons e es)
    then show ?case using files_stay_step [of s e q] by simp
  qed simp
  then show ?thesis using assms(1) by (auto simp: clip_step_def onLocalClipboardChanged_def Let_def)
qed

text \<open>
  C14: However long it runs, and whatever comes: each cache of echoes holds at most 16 entries, at most 32
  bursts are open, no two of them with the same token, the next token is never 0, and every frame handed
  out fits into 65535 bytes and is read back by the other end as a reference, or as a text or picture of
  less than 60000 bytes.
\<close>
theorem clipboard_bounds:
  assumes "picks_a_key q" and "s = run_events (clip_step q) (new_sync known m) es"
  shows "length (m_EchoCache s) \<le> 16 \<and> length (m_ImageEchoCache s) \<le> 16
    \<and> length (m_PendingBursts s) \<le> 32 \<and> distinct (map fst (m_PendingBursts s)) \<and> m_NextToken s \<noteq> 0
    \<and> (\<forall>f \<in> set (outbound s). length f \<le> 65535
         \<and> (\<exists>k token p. decodeFrame f = Some (k, token, p)
            \<and> (k = KIND_REF \<or> (k = KIND_TEXT \<or> k = KIND_PNG) \<and> length p < 60000)))"
proof -
  have "sync_ok (run_events (clip_step q) r es)" if "sync_ok r" for r
    using that by (induction es arbitrary: r) (simp_all add: ok_step [OF assms(1)])
  moreover have "sync_ok (new_sync known m)" by (simp add: sync_ok_def new_sync_def)
  ultimately have "sync_ok s" using assms(2) by simp
  then show ?thesis
    by (simp add: sync_ok_def ECHO_MAX_def MAX_PENDING_BURSTS_def INLINE_THRESHOLD_def wire_ok_def list_all_iff)
qed

text \<open>
  A text that belongs to a burst is not written when it arrives, only together with its picture: as long
  as there come only such texts, and downloads fail, the clipboard stays as it is.
\<close>
theorem burst_text_waits:
  assumes "list_all burst_texts_only es"
  shows "local_clip (run_events (clip_step q) s es) = local_clip s"
  using assms by (induction es arbitrary: s) (simp_all add: burst_texts_step)

text \<open>
  C39: A text copied again within five seconds, after another one, is taken for an echo: the host has been sent
  the first and then the second, and keeps the second, while the local clipboard holds the first.
\<close>
theorem recopied_text_not_sent:
  assumes "plain_copy q m u" and "plain_copy q n v" and "idle s" and "hashBytes u \<noteq> hashBytes v"
    and "{hashBytes u, hashBytes v} \<inter> fst ` set (m_EchoCache s) = {}"
    and "t1 \<le> t2" and "t2 \<le> t3" and "t3 \<le> t1 + 5000"
    and "r = run_events (clip_step q) s [Copied m, Changed t1, Copied n, Changed t2, Copied m, Changed t3]"
  shows "local_clip r = m \<and> uploads r = uploads s \<and> (\<exists>f g. outbound r = outbound s @ [f, g]
    \<and> decodeFrame f = Some (KIND_TEXT, 0, u) \<and> decodeFrame g = Some (KIND_TEXT, 0, v))"
proof -
  obtain f a where a: "run_events (clip_step q) s [Copied m, Changed t1] = a" "decodeFrame f = Some (KIND_TEXT, 0, u)"
    "outbound a = outbound s @ [f]" "uploads a = uploads s" "idle a"
    "m_EchoCache a = recordHash (hashBytes u) t1 (drop_stale t1 (m_EchoCache s))"
    by (rule copied_sent [OF assms(1,3), of t1]) (use assms(5) in auto)
  have "set (m_EchoCache a) \<subseteq> insert (hashBytes u, t1) (set (m_EchoCache s))"
    using drop_stale_subset [of t1 "m_EchoCache s"] unfolding a(6) recordHash_def Let_def by (auto dest!: in_set_dropD)
  then have "hashBytes v \<notin> fst ` set (m_EchoCache a)" using assms(4,5) by auto
  then obtain g b where b: "run_events (clip_step q) a [Copied n, Changed t2] = b" "decodeFrame g = Some (KIND_TEXT, 0, v)"
    "outbound b = outbound a @ [g]" "uploads b = uploads a" "idle b"
    "m_EchoCache b = recordHash (hashBytes v) t2 (drop_stale t2 (m_EchoCache a))"
    by (rule copied_sent [OF assms(2) a(5), of t2])
  have "fresh_until t3 (hashBytes u) (m_EchoCache b)"
    unfolding b(6) a(6) by (rule fresh_second) (use assms(6-8) in \<open>simp_all add: ECHO_TTL_MS_def\<close>)
  note c = seen_not_sent [OF assms(1) b(5) this]
  have "r = run_events (clip_step q) b [Copied m, Changed t3]" using a(1) b(1) assms(9) by simp
  then show ?thesis using c a(2-4) b(2-4) by simp
qed

text \<open>
  A text of 60000 to 65525 bytes that is copied together with a picture does not go into a frame of the
  burst: it is uploaded, under the token of the burst, and no frame is sent for it yet.
\<close>
theorem burst_text_by_reference:
  assumes "sends_now q now s" and "host_known s" and "mime_image (local_clip s) = Some p"
    and "clip_utf8 q (local_clip s) = u" and "60000 \<le> length u" and "length u \<le> MAX_PAYLOAD"
    and "is_new u now (m_EchoCache s)"
  shows "\<exists>s'. clip_step q s (Changed now) = sendClipboardPng q p (m_NextToken s) now s' \<and> outbound s' = outbound s
    \<and> uploads s' = uploads s
        @ [\<lparr>payloadSize = length u, upload_mime = ''text/plain'', upload_token = m_NextToken s\<rparr>]"
proof -
  let ?s' = "sendTextOutbound u (m_NextToken s) now (snd (nextToken s))"
  have "u \<noteq> []" using assms(5) by auto
  then have "clip_step q s (Changed now) = sendClipboardPng q p (m_NextToken s) now ?s'"
    using assms by (simp add: clip_step_def onLocalClipboardChanged_def sends_now_def Let_def nextToken_def)
  moreover have "outbound ?s' = outbound s \<and> uploads ?s' = uploads s
      @ [\<lparr>payloadSize = length u, upload_mime = ''text/plain'', upload_token = m_NextToken s\<rparr>]"
    using assms \<open>u \<noteq> []\<close>
    by (simp add: sendTextOutbound_def is_new_def case_prod_beta Let_def nextToken_def transfer_def
        shouldTransferOutOfBand_def INLINE_THRESHOLD_def uploadAndSendRef_def note_bytes_def MAX_BLOB_BYTES_def MAX_PAYLOAD_def)
  ultimately show ?thesis by (intro exI [of _ ?s']) simp
qed

section \<open>Concrete runs\<close>

text \<open>A plain environment: one byte per character, and a picture of one row for any bytes.\<close>

definition plain_clip_env :: clip_env where
  "plain_clip_env = \<lparr>from_utf8 = map (\<lambda>b. char_of (unat b)), to_utf8 = map (\<lambda>c. of_nat (of_char c)),
     load_png = (\<lambda>b. if b = [] then None else Some \<lparr>px_width = 1, px_height = 1, px_rows = b\<rparr>),
     text_mime = (\<lambda>t. \<lparr>mime_text = t, mime_image = None, mime_urls = [], mime_formats = [''text/plain''], mime_finder = False\<rparr>),
     png_mime = (\<lambda>b. \<lparr>mime_text = [], mime_image = Some b, mime_urls = [], mime_formats = [''image/png''], mime_finder = False\<rparr>),
     compound_mime = (\<lambda>t b. \<lparr>mime_text = t, mime_image = Some b, mime_urls = [], mime_formats = [''image/png''], mime_finder = False\<rparr>),
     parse_ref = (\<lambda>b. None), print_ref = (\<lambda>j. []), cast_s64 = (\<lambda>x. 0), first_key = hd\<rparr>"

definition plain_mime :: "string \<Rightarrow> mime" where
  "plain_mime t = \<lparr>mime_text = t, mime_image = None, mime_urls = [], mime_formats = [''text/plain''], mime_finder = False\<rparr>"

definition running :: clipboard_sync where
  "running = sync_start (new_sync True (plain_mime ''''))"

definition file_mime :: mime where
  "file_mime = \<lparr>mime_text = ''a.txt'', mime_image = None, mime_urls = [True], mime_formats = [''text/uri-list''], mime_finder = False\<rparr>"

lemma plain_files [simp]: "\<not> hasFileReferences (plain_mime t)" "hasFileReferences file_mime"
  by (simp add: hasFileReferences_def plain_mime_def file_markers_def) (code_simp | simp add: hasFileReferences_def file_mime_def)+

lemma picks_plain: "picks_a_key plain_clip_env"
  by (simp add: picks_a_key_def plain_clip_env_def)


lemma plain_files_compound [simp]: "\<not> hasFileReferences (compound_mime plain_clip_env t b)"
  by (simp add: hasFileReferences_def plain_clip_env_def file_markers_def) code_simp

lemma copy_arrives_witness:
  "local_clip (run_events (clip_step plain_clip_env) running
     (map (\<lambda>f. Frame_arrives f 20) [[1, 1, 1, 0, 0, 0, 2, 0, 0, 0, 104, 105], [1, 2, 1, 0, 0, 0, 3, 0, 0, 0, 1, 2, 3]]))
   = compound_mime plain_clip_env ''hi'' [1, 2, 3]"
proof -
  let ?s = "running\<lparr>local_clip := compound_mime plain_clip_env ''hi'' [1, 2, 3]\<rparr>"
  let ?fs = "[[1, 1, 1, 0, 0, 0, 2, 0, 0, 0, 104, 105], [1, 2, 1, 0, 0, 0, 3, 0, 0, 0, 1, 2, 3]] :: bytes list"
  have sends: "sends_now plain_clip_env 10 ?s"
    by (simp add: sends_now_def running_def sync_start_def new_sync_def) (simp add: plain_clip_env_def)
  have none: "m_PendingBursts running = []" "m_EchoCache running = []" "m_ImageEchoCache running = []" "m_Active running"
      "local_clip running = plain_mime ''''" "m_NextToken ?s = 1"
    by (simp_all add: running_def sync_start_def new_sync_def)
  then have rec: "receives 0 running" "receives (m_NextToken ?s) running" by (simp_all add: receives_def)
  have u: "clip_utf8 plain_clip_env (local_clip ?s) = [104, 105]" by code_simp
  have newt: "[104, 105] = [] \<or> new_text plain_clip_env [104, 105] 10 ?s"
    using u none(2) by (simp add: new_text_def inline_size_def is_new_def INLINE_THRESHOLD_def seenRecently_def drop_stale_def)
  have "new_image plain_clip_env [1, 2, 3] 10 ?s"
    using none(2,3) by (simp add: new_image_def inline_size_def is_new_def INLINE_THRESHOLD_def seenRecently_def
        seenImageRecently_def drop_stale_def) (simp add: plain_clip_env_def)
  moreover have "hashBytes [1, 2, 3] \<noteq> hashBytes [104, 105]" by code_simp
  ultimately have pic: "mime_image (local_clip ?s) = Some [1, 2, 3] \<and> (Some [1, 2, 3] = None \<or>
      new_image plain_clip_env (the (Some [1, 2, 3])) 10 ?s \<and> hashBytes (the (Some [1, 2, 3])) \<noteq> hashBytes [104, 105])"
    by (simp add: plain_clip_env_def)
  have load: "load_png plain_clip_env [1, 2, 3] = Some \<lparr>px_width = 1, px_height = 1, px_rows = [1, 2, 3]\<rparr>"
    by (simp add: plain_clip_env_def)
  have enc: "encodeFrame KIND_TEXT 1 [104, 105] = Some (?fs ! 0)" "encodeFrame KIND_PNG 1 [1, 2, 3] = Some (?fs ! 1)"
    by (simp_all add: encodeFrame_def MAX_PAYLOAD_def le_bytes_def WIRE_VERSION_def KIND_TEXT_def KIND_PNG_def)
  have seen: "seenRecently h t [] = (False, [])" "seenImageRecently h t [] = (False, [])" for h t
    by (simp_all add: seenRecently_def seenImageRecently_def drop_stale_def)
  have other: "seenRecently (hashBytes [1, 2, 3]) 10 (recordHash (hashBytes [104, 105]) 10 [])
      = (False, recordHash (hashBytes [104, 105]) 10 [])"
    using pic by (simp add: seenRecently_def recordHash_def drop_stale_def ECHO_MAX_def ECHO_TTL_MS_def)
  have fs: "outbound (clip_step plain_clip_env ?s (Changed 10)) = outbound ?s @ ?fs"
    using change_sends(3) [OF sends, of "[1, 2, 3]"] none u pic load enc seen other
    by (simp add: clip_step_def inline_size_def INLINE_THRESHOLD_def sendTextOutbound_def sendClipboardPng_def nextToken_def
        MAX_BLOB_BYTES_def transfer_def shouldTransferOutOfBand_def send_frame_def note_bytes_def note_image_def)
  have "from_utf8 plain_clip_env [104, 105] = ''hi''" by code_simp
  then show ?thesis using copy_arrives [OF sends rec u newt pic _ fs, of 20] by simp
qed

lemma files_protected_witness:
  "local_clip (run_events (clip_step plain_clip_env) (running\<lparr>local_clip := file_mime\<rparr>)
     [Frame_arrives [1, 1, 0, 0, 0, 0, 2, 0, 0, 0, 104, 105] 100, Changed 101]) = file_mime"
  using files_protected [of "running\<lparr>local_clip := file_mime\<rparr>"
    "[Frame_arrives [1, 1, 0, 0, 0, 0, 2, 0, 0, 0, 104, 105] 100, Changed 101]" plain_clip_env 0] by simp

lemma clipboard_bounds_witness:
  "length (m_PendingBursts (run_events (clip_step plain_clip_env) (new_sync True (plain_mime ''a''))
     (Start # map (\<lambda>k. Frame_arrives [1, 1, k, 0, 0, 0, 1, 0, 0, 0, 65] 1) [1, 2, 3]))) \<le> 32"
  using clipboard_bounds [OF picks_plain refl, of True "plain_mime ''a''"
    "Start # map (\<lambda>k. Frame_arrives [1, 1, k, 0, 0, 0, 1, 0, 0, 0, 65] 1) [1, 2, 3]"] by blast

lemma burst_text_waits_witness:
  "local_clip (run_events (clip_step plain_clip_env) running
     [Frame_arrives [1, 1, 7, 0, 0, 0, 2, 0, 0, 0, 104, 105] 100, Retention_over 7]) = plain_mime ''''"
proof -
  have "decodeFrame [1, 1, 7, 0, 0, 0, 2, 0, 0, 0, 104, 105] = Some (1, 7, [104, 105])" by code_simp
  then have "list_all burst_texts_only [Frame_arrives [1, 1, 7, 0, 0, 0, 2, 0, 0, 0, 104, 105] 100, Retention_over 7]"
    by (simp add: KIND_TEXT_def)
  from burst_text_waits [OF this, of plain_clip_env running] show ?thesis
    by (simp add: running_def sync_start_def new_sync_def)
qed

lemma recopied_text_not_sent_witness:
  "local_clip (run_events (clip_step plain_clip_env) running
     [Copied (plain_mime ''a''), Changed 10, Copied (plain_mime ''b''), Changed 20, Copied (plain_mime ''a''), Changed 4000])
   = plain_mime ''a''"
proof -
  have u: "clip_utf8 plain_clip_env (plain_mime ''a'') = [97]" "clip_utf8 plain_clip_env (plain_mime ''b'') = [98]" by code_simp+
  have p: "plain_copy plain_clip_env (plain_mime ''a'') [97]" "plain_copy plain_clip_env (plain_mime ''b'') [98]"
    using u by (simp_all add: plain_copy_def inline_size_def INLINE_THRESHOLD_def) (simp_all add: plain_mime_def)
  have s: "idle running" "{hashBytes [97], hashBytes [98]} \<inter> fst ` set (m_EchoCache running) = {}"
    by (simp_all add: idle_def running_def sync_start_def new_sync_def)
  have h: "hashBytes [97] \<noteq> hashBytes [98]" by code_simp
  show ?thesis using recopied_text_not_sent [OF p s(1) h s(2) _ _ _ refl, of 10 20 4000] by simp
qed

lemma burst_text_by_reference_witness:
  "\<exists>s'. clip_step plain_clip_env (running\<lparr>local_clip := compound_mime plain_clip_env (replicate 60000 CHR ''a'') [1]\<rparr>) (Changed 5)
     = sendClipboardPng plain_clip_env [1] 1 5 s' \<and> outbound s' = []
     \<and> uploads s' = [\<lparr>payloadSize = 60000, upload_mime = ''text/plain'', upload_token = 1\<rparr>]"
proof -
  let ?s = "running\<lparr>local_clip := compound_mime plain_clip_env (replicate 60000 CHR ''a'') [1]\<rparr>"
  let ?u = "clip_utf8 plain_clip_env (local_clip ?s)"
  have s: "m_NextToken ?s = 1" "outbound ?s = []" "uploads ?s = []" "m_EchoCache ?s = []" "host_known ?s"
      "m_Active ?s" "m_PendingSelfWrites ?s = 0"
    by (simp_all add: running_def sync_start_def new_sync_def)
  have "sends_now plain_clip_env 5 ?s" using s by (simp add: sends_now_def) (simp add: plain_clip_env_def)
  moreover have "mime_image (local_clip ?s) = Some [1]" "length ?u = 60000"
    by (simp_all add: clip_utf8_def plain_clip_env_def)
  moreover have "is_new ?u 5 (m_EchoCache ?s)" unfolding s(4) by (simp add: is_new_def seenRecently_def drop_stale_def)
  ultimately show ?thesis
    using burst_text_by_reference [of plain_clip_env 5 ?s "[1]" ?u] s by (simp add: MAX_PAYLOAD_def)
qed

end
