(* ===== verification/ClipboardIpc.thy ===== *)
theory ClipboardIpc
  imports Json TextOps
begin

text \<open>
  The messages between the client and its clipboard helper, one JSON object per line
  (\<open>src/app/streaming/clipboardipc.cpp\<close>, \<open>clipboardipc.h\<close>). JSON text and base64 are parameters. Members
  are listed in the order in which \<open>QJsonObject\<close> keeps them, sorted by name.
\<close>

section \<open>Messages\<close>

definition PROTOCOL_VERSION :: int where "PROTOCOL_VERSION = 1"
definition MAX_LINE_BYTES :: nat where "MAX_LINE_BYTES = 1024 * 1024"

datatype message_type =
    MT_Unknown | MT_Configure | MT_HostFrame | MT_LocalFrame | MT_Ready | MT_Error | MT_Stop

record host_config =
  cfg_address :: string
  cfg_httpsPort :: u16
  serverCertPem :: bytes
  clientCertPem :: bytes
  clientKeyPem :: bytes

record ipc_message =
  msg_type :: message_type
  msg_sequence :: u32
  msg_config :: host_config
  msg_frame :: bytes
  msg_code :: string
  msg_text :: string

definition no_config :: host_config where
  "no_config = \<lparr>cfg_address = [], cfg_httpsPort = 0, serverCertPem = [], clientCertPem = [], clientKeyPem = []\<rparr>"

definition no_message :: ipc_message where
  "no_message = \<lparr>msg_type = MT_Unknown, msg_sequence = 0, msg_config = no_config, msg_frame = [],
     msg_code = [], msg_text = []\<rparr>"

text \<open>\<open>read_json\<close> answers with the parser's error, or with a document, which need not be an object.\<close>

record ipc_codec =
  write_json :: "json \<Rightarrow> bytes"
  read_json :: "bytes \<Rightarrow> string + json"
  to_base64 :: "bytes \<Rightarrow> string"
  of_base64 :: "string \<Rightarrow> bytes"

section \<open>Writing\<close>

fun typeToString :: "message_type \<Rightarrow> string" where
  "typeToString MT_Configure = ''configure''"
| "typeToString MT_HostFrame = ''hostFrame''"
| "typeToString MT_LocalFrame = ''localFrame''"
| "typeToString MT_Ready = ''ready''"
| "typeToString MT_Error = ''error''"
| "typeToString MT_Stop = ''stop''"
| "typeToString MT_Unknown = ''unknown''"

definition stringToType :: "string \<Rightarrow> message_type" where
  "stringToType t =
     (if t = ''configure'' then MT_Configure
      else if t = ''hostFrame'' then MT_HostFrame
      else if t = ''localFrame'' then MT_LocalFrame
      else if t = ''ready'' then MT_Ready
      else if t = ''error'' then MT_Error
      else if t = ''stop'' then MT_Stop
      else MT_Unknown)"

definition encodeObject :: "ipc_codec \<Rightarrow> (string \<times> json) list \<Rightarrow> bytes" where
  "encodeObject q members = write_json q (Obj (members @ [(''version'', Num (of_int PROTOCOL_VERSION))]))"

definition baseMessage :: "message_type \<Rightarrow> u32 \<Rightarrow> (string \<times> json) list" where
  "baseMessage t n = [(''sequence'', Num (of_nat (unat n))), (''type'', Str (typeToString t))]"

definition encodeConfigure :: "ipc_codec \<Rightarrow> u32 \<Rightarrow> host_config \<Rightarrow> bytes" where
  "encodeConfigure q n c =
     (let host = Obj [(''address'', Str (cfg_address c)),
                      (''clientCertPem'', Str (to_base64 q (clientCertPem c))),
                      (''clientKeyPem'', Str (to_base64 q (clientKeyPem c))),
                      (''httpsPort'', Num (of_nat (unat (cfg_httpsPort c)))),
                      (''serverCertPem'', Str (to_base64 q (serverCertPem c)))]
      in encodeObject q ((''host'', host) # baseMessage MT_Configure n))"

definition encodeHostFrame :: "ipc_codec \<Rightarrow> u32 \<Rightarrow> bytes \<Rightarrow> bytes" where
  "encodeHostFrame q n frame =
     encodeObject q ((''payload'', Str (to_base64 q frame)) # baseMessage MT_HostFrame n)"

definition encodeLocalFrame :: "ipc_codec \<Rightarrow> u32 \<Rightarrow> bytes \<Rightarrow> bytes" where
  "encodeLocalFrame q n frame =
     encodeObject q ((''payload'', Str (to_base64 q frame)) # baseMessage MT_LocalFrame n)"

definition encodeReady :: "ipc_codec \<Rightarrow> u32 \<Rightarrow> bytes" where
  "encodeReady q n = encodeObject q (baseMessage MT_Ready n)"

definition encodeError :: "ipc_codec \<Rightarrow> u32 \<Rightarrow> string \<Rightarrow> string \<Rightarrow> bytes" where
  "encodeError q n code text =
     (case baseMessage MT_Error n of
        [s, t] \<Rightarrow> encodeObject q [(''code'', Str code), s, (''text'', Str text), t])"

definition encodeStop :: "ipc_codec \<Rightarrow> u32 \<Rightarrow> bytes" where
  "encodeStop q n = encodeObject q (baseMessage MT_Stop n)"

section \<open>Reading\<close>

text \<open>\<open>readBase64Payload\<close>: what is stored, and whether it counts as present.\<close>

definition readBase64Payload :: "ipc_codec \<Rightarrow> json \<Rightarrow> string \<Rightarrow> bytes \<times> bool" where
  "readBase64Payload q obj key =
     (let encoded = to_str (json_value obj key) in
      if encoded = [] then ([], False)
      else let out = of_base64 q encoded in (out, out \<noteq> []))"

definition read_sequence :: "json \<Rightarrow> u32 option" where
  "read_sequence v =
     (case v of
        Num x \<Rightarrow> if x < 0 \<or> 4294967295 < x \<or> of_int \<lfloor>x\<rfloor> \<noteq> x then None else Some (of_int \<lfloor>x\<rfloor>)
      | _ \<Rightarrow> None)"

definition read_config :: "ipc_codec \<Rightarrow> json \<Rightarrow> host_config" where
  "read_config q host =
     \<lparr>cfg_address = to_str (json_value host ''address''),
      cfg_httpsPort = of_int (int_or 0 (json_value host ''httpsPort'')),
      serverCertPem = fst (readBase64Payload q host ''serverCertPem''),
      clientCertPem = fst (readBase64Payload q host ''clientCertPem''),
      clientKeyPem = fst (readBase64Payload q host ''clientKeyPem'')\<rparr>"

definition decode_body :: "ipc_codec \<Rightarrow> json \<Rightarrow> ipc_message \<Rightarrow> string + ipc_message" where
  "decode_body q obj m =
     (case msg_type m of
        MT_Configure \<Rightarrow> Inr (m\<lparr>msg_config := read_config q (json_value obj ''host'')\<rparr>)
      | MT_Error \<Rightarrow>
          Inr (m\<lparr>msg_code := to_str (json_value obj ''code''), msg_text := to_str (json_value obj ''text'')\<rparr>)
      | MT_Ready \<Rightarrow> Inr m
      | MT_Stop \<Rightarrow> Inr m
      | MT_Unknown \<Rightarrow> Inl ''unhandled message type''
      | _ \<Rightarrow>
          (case readBase64Payload q obj ''payload'' of (frame, present) \<Rightarrow>
             if \<not> present then Inl ''missing or invalid frame payload'' else Inr (m\<lparr>msg_frame := frame\<rparr>)))"

definition decodeLine :: "ipc_codec \<Rightarrow> bytes \<Rightarrow> string + ipc_message" where
  "decodeLine q line =
     (if MAX_LINE_BYTES < length line then Inl ''message line too large''
      else case read_json q line of
        Inl e \<Rightarrow> Inl (''invalid JSON message: '' @ e)
      | Inr obj \<Rightarrow>
          if \<not> is_object obj then Inl ''invalid JSON message: no error occurred''
          else if int_or 0 (json_value obj ''version'') \<noteq> PROTOCOL_VERSION then Inl ''unsupported protocol version''
          else let t = stringToType (to_str (json_value obj ''type'')) in
            (case read_sequence (json_value obj ''sequence'') of
               None \<Rightarrow> Inl ''invalid sequence number''
             | Some n \<Rightarrow>
                 if t = MT_Unknown then Inl ''unknown message type''
                 else decode_body q obj (no_message\<lparr>msg_type := t, msg_sequence := n\<rparr>)))"

section \<open>Round trips\<close>

text \<open>
  What \<open>QJsonDocument\<close> and \<open>QByteArray\<close> document: reading gives back what was written, here for values whose
  numbers are integers that a \<open>double\<close> represents.
\<close>

fun wire_json :: "json \<Rightarrow> bool" where
  "wire_json Undefined = False"
| "wire_json (Num x) = (of_int \<lfloor>x\<rfloor> = x \<and> \<bar>x\<bar> \<le> 2 ^ 53)"
| "wire_json (Arr xs) = list_all wire_json xs"
| "wire_json (Obj fs) = list_all (\<lambda>(k, v). wire_json v) fs"
| "wire_json _ = True"

definition faithful_codec :: "ipc_codec \<Rightarrow> bool" where
  "faithful_codec q \<longleftrightarrow>
     (\<forall>j. is_object j \<and> wire_json j \<longrightarrow> read_json q (write_json q j) = Inr j)
     \<and> (\<forall>b. of_base64 q (to_base64 q b) = b \<and> (to_base64 q b = [] \<longleftrightarrow> b = []))"

lemma type_string [simp]: "stringToType (typeToString t) = t"
  by (cases t) (simp_all add: stringToType_def)

text \<open>Words as members of an object: \<open>unsigned\<close> is the form to which \<open>of_nat (unat w)\<close> simplifies.\<close>

lemma floor_word: "\<lfloor>unsigned (w :: 'a :: len word) :: real\<rfloor> = uint w"
proof -
  have "(unsigned w :: real) = of_int (uint w)" by simp
  then show ?thesis by (simp only: floor_of_int)
qed

lemma sequence_read [simp]: "read_sequence (Num (unsigned n)) = Some n"
proof -
  have "uint n < 4294967296" using uint_bounded [of n] by simp
  then have "(of_int (uint n) :: real) \<le> of_int 4294967295" by (simp only: of_int_le_iff)
  then have "\<not> (4294967295 :: real) < unsigned n" by simp
  moreover have "(of_int 0 :: real) \<le> of_int (uint n)" by (simp only: of_int_le_iff uint_nonnegative)
  then have "\<not> (unsigned n :: real) < 0" by simp
  ultimately show ?thesis by (simp add: read_sequence_def floor_word)
qed

lemma port_read [simp]: "of_int (int_or 0 (Num (unsigned (p :: u16)))) = p"
proof -
  have "uint p < 65536" using uint_bounded [of p] by simp
  moreover have "- 2147483648 \<le> uint p" using uint_nonnegative [of p] by linarith
  ultimately show ?thesis by (simp add: floor_word)
qed

lemma wire_int: "\<bar>i\<bar> \<le> 2 ^ 53 \<Longrightarrow> wire_json (Num (of_int i))"
proof -
  assume "\<bar>i\<bar> \<le> 2 ^ 53"
  then have "(of_int \<bar>i\<bar> :: real) \<le> of_int (2 ^ 53)" by (simp only: of_int_le_iff)
  then show ?thesis by simp
qed

lemma word_wire: "wire_json (Num (unsigned (w :: u32)))" "wire_json (Num (unsigned (p :: u16)))"
  using wire_int [of "uint w"] wire_int [of "uint p"] uint_bounded [of w] uint_bounded [of p] by simp_all

declare wire_json.simps(2) [simp del] word_wire [simp]

lemma version_wire [simp]: "wire_json (Num (of_int PROTOCOL_VERSION))"
  using wire_int [of PROTOCOL_VERSION] by (simp add: PROTOCOL_VERSION_def)

lemma payload_read:
  assumes "faithful_codec q" and "json_value obj key = Str (to_base64 q b)"
  shows "readBase64Payload q obj key = (b, b \<noteq> [])"
  using assms by (simp add: faithful_codec_def readBase64Payload_def Let_def)

lemma version_read [simp]: "int_or 0 (Num (of_int PROTOCOL_VERSION)) = PROTOCOL_VERSION"
  by (simp add: PROTOCOL_VERSION_def)

text \<open>How every message that fits a line is read back, up to its body.\<close>

lemma decode_encoded:
  assumes "faithful_codec q" and "length (encodeObject q members) \<le> MAX_LINE_BYTES"
    and "map_of members ''version'' = None" and "map_of members ''type'' = Some (Str (typeToString t))"
    and "map_of members ''sequence'' = Some (Num (of_nat (unat n)))" and "t \<noteq> MT_Unknown"
    and "list_all (\<lambda>(k, v). wire_json v) members"
  shows "decodeLine q (encodeObject q members) =
    decode_body q (Obj (members @ [(''version'', Num (of_int PROTOCOL_VERSION))]))
      (no_message\<lparr>msg_type := t, msg_sequence := n\<rparr>)"
proof -
  let ?j = "Obj (members @ [(''version'', Num (of_int PROTOCOL_VERSION))])"
  have "read_json q (encodeObject q members) = Inr ?j"
    using assms(1,7) by (simp add: faithful_codec_def encodeObject_def)
  moreover have "json_value ?j ''version'' = Num (of_int PROTOCOL_VERSION)"
      "json_value ?j ''type'' = Str (typeToString t)" "json_value ?j ''sequence'' = Num (unsigned n)"
    using assms(3-5) by (simp_all add: map_add_def)
  ultimately show ?thesis
    using assms(2,6) by (simp add: decodeLine_def Let_def del: json_value.simps int_or.simps)
qed

lemmas decode_facts = baseMessage_def decode_body_def

lemma decode_configure:
  assumes "faithful_codec q" and "length (encodeConfigure q n c) \<le> MAX_LINE_BYTES"
  shows "decodeLine q (encodeConfigure q n c) =
    Inr (no_message\<lparr>msg_type := MT_Configure, msg_sequence := n, msg_config := c\<rparr>)"
  using assms by (simp add: encodeConfigure_def Let_def decode_encoded [where t = MT_Configure and n = n] decode_facts read_config_def
      payload_read del: int_or.simps)

lemma decode_frame:
  assumes "faithful_codec q"
  shows "length (encodeHostFrame q n b) \<le> MAX_LINE_BYTES \<Longrightarrow> decodeLine q (encodeHostFrame q n b) =
      (if b = [] then Inl ''missing or invalid frame payload''
       else Inr (no_message\<lparr>msg_type := MT_HostFrame, msg_sequence := n, msg_frame := b\<rparr>))"
    and "length (encodeLocalFrame q n b) \<le> MAX_LINE_BYTES \<Longrightarrow> decodeLine q (encodeLocalFrame q n b) =
      (if b = [] then Inl ''missing or invalid frame payload''
       else Inr (no_message\<lparr>msg_type := MT_LocalFrame, msg_sequence := n, msg_frame := b\<rparr>))"
  using assms by (simp_all add: encodeHostFrame_def encodeLocalFrame_def decode_encoded [where t = MT_HostFrame and n = n]
      decode_encoded [where t = MT_LocalFrame and n = n] decode_facts payload_read [where b = b])

lemma decode_plain:
  assumes "faithful_codec q"
  shows "length (encodeReady q n) \<le> MAX_LINE_BYTES \<Longrightarrow>
      decodeLine q (encodeReady q n) = Inr (no_message\<lparr>msg_type := MT_Ready, msg_sequence := n\<rparr>)"
    and "length (encodeStop q n) \<le> MAX_LINE_BYTES \<Longrightarrow>
      decodeLine q (encodeStop q n) = Inr (no_message\<lparr>msg_type := MT_Stop, msg_sequence := n\<rparr>)"
    and "length (encodeError q n code t) \<le> MAX_LINE_BYTES \<Longrightarrow> decodeLine q (encodeError q n code t) =
      Inr (no_message\<lparr>msg_type := MT_Error, msg_sequence := n, msg_code := code, msg_text := t\<rparr>)"
  using assms by (simp_all add: encodeReady_def encodeStop_def encodeError_def decode_encoded [where t = MT_Ready and n = n]
      decode_encoded [where t = MT_Stop and n = n] decode_encoded [where t = MT_Error and n = n] decode_facts)

section \<open>A plain codec\<close>

text \<open>
  Values in prefix form, numbers and lengths in unary, bytes as characters; and every byte as two letters,
  so that a value has no end of line.
\<close>

definition to_letters :: "bytes \<Rightarrow> bytes" where
  "to_letters b = concat (map (\<lambda>x. [64 + x div 16, 64 + x mod 16]) b)"

fun of_letters :: "bytes \<Rightarrow> bytes" where
  "of_letters (x # y # b) = ((x - 64) * 16 + (y - 64)) # of_letters b"
| "of_letters _ = []"

definition one_line :: "ipc_codec \<Rightarrow> bool" where
  "one_line q \<longleftrightarrow> (\<forall>j. 10 \<notin> set (write_json q j) \<and> 13 \<notin> set (write_json q j))"

definition put_nat :: "nat \<Rightarrow> bytes" where "put_nat n = replicate n 1 @ [0]"
definition put_str :: "string \<Rightarrow> bytes" where "put_str s = put_nat (length s) @ map (\<lambda>c. of_nat (of_char c)) s"

fun put_json :: "json \<Rightarrow> bytes" where
  "put_json Undefined = [6]"
| "put_json Null = [0]"
| "put_json (Bool b) = [1, if b then 1 else 0]"
| "put_json (Num x) = 2 # (if x < 0 then 1 else 0) # put_nat (nat \<bar>\<lfloor>x\<rfloor>\<bar>)"
| "put_json (Str s) = 3 # put_str s"
| "put_json (Arr xs) = 4 # put_nat (length xs) @ concat (map put_json xs)"
| "put_json (Obj fs) = 5 # put_nat (length fs) @ concat (map (\<lambda>(k, v). put_str k @ put_json v) fs)"

fun get_nat :: "bytes \<Rightarrow> (nat \<times> bytes) option" where
  "get_nat (b # bs) = (if b = 0 then Some (0, bs) else map_option (\<lambda>(n, r). (Suc n, r)) (get_nat bs))"
| "get_nat [] = None"

definition get_str :: "bytes \<Rightarrow> (string \<times> bytes) option" where
  "get_str bs = (case get_nat bs of None \<Rightarrow> None
     | Some (n, r) \<Rightarrow> Some (map (\<lambda>b. char_of (unat b)) (take n r), drop n r))"

text \<open>The first argument bounds the depth.\<close>

fun get_many :: "(bytes \<Rightarrow> ('a \<times> bytes) option) \<Rightarrow> nat \<Rightarrow> bytes \<Rightarrow> ('a list \<times> bytes) option" where
  "get_many g 0 bs = Some ([], bs)"
| "get_many g (Suc n) bs = (case g bs of None \<Rightarrow> None
     | Some (x, r) \<Rightarrow> map_option (\<lambda>(xs, r). (x # xs, r)) (get_many g n r))"

definition get_member :: "(bytes \<Rightarrow> (json \<times> bytes) option) \<Rightarrow> bytes \<Rightarrow> ((string \<times> json) \<times> bytes) option" where
  "get_member g bs = (case get_str bs of None \<Rightarrow> None | Some (k, r) \<Rightarrow> map_option (\<lambda>(v, r). ((k, v), r)) (g r))"

fun get_json :: "nat \<Rightarrow> bytes \<Rightarrow> (json \<times> bytes) option" where
  "get_json (Suc n) (b # bs) =
     (if b = 0 then Some (Null, bs)
      else if b = 1 then Some (Bool (hd bs = 1), tl bs)
      else if b = 2 then
        map_option (\<lambda>(i, r). (Num (if hd bs = 1 then - of_nat i else of_nat i), r)) (get_nat (tl bs))
      else if b = 3 then map_option (\<lambda>(s, r). (Str s, r)) (get_str bs)
      else if b = 4 then (case get_nat bs of None \<Rightarrow> None
        | Some (k, r) \<Rightarrow> map_option (\<lambda>(xs, r). (Arr xs, r)) (get_many (get_json n) k r))
      else if b = 5 then (case get_nat bs of None \<Rightarrow> None
        | Some (k, r) \<Rightarrow> map_option (\<lambda>(fs, r). (Obj fs, r)) (get_many (get_member (get_json n)) k r))
      else None)"
| "get_json _ _ = None"

definition prefix_codec :: ipc_codec where
  "prefix_codec = \<lparr>write_json = (\<lambda>j. to_letters (put_json j)),
     read_json = (\<lambda>b. case get_json (length b) (of_letters b) of Some (j, []) \<Rightarrow> Inr j | _ \<Rightarrow> Inl ''illegal value''),
     to_base64 = map (\<lambda>b. char_of (unat b)), of_base64 = map (\<lambda>c. of_nat (of_char c))\<rparr>"

lemma get_put_nat [simp]: "get_nat (put_nat n @ r) = Some (n, r)"
  by (induction n) (simp_all add: put_nat_def)

lemma char_byte [simp]: "char_of (unat (of_nat (of_char c) :: byte)) = (c :: char)"
  by (simp add: unat_of_nat)

lemma byte_char [simp]: "of_nat (unat (b :: byte) mod 256) = b"
  using unsigned_less [of b, where ?'a = nat] by simp

lemma get_put_str [simp]: "get_str (put_str s @ r) = Some (s, r)"
  by (simp add: get_str_def put_str_def comp_def)

lemma get_put_many:
  assumes "\<And>x r. x \<in> set xs \<Longrightarrow> g (p x @ r) = Some (x, r)"
  shows "get_many g (length xs) (concat (map p xs) @ r) = Some (xs, r)"
  using assms by (induction xs) simp_all

lemma long_concat: "x \<in> set xs \<Longrightarrow> length (p x) \<le> length (concat (map p xs))"
  by (induction xs) auto

lemma get_put_json: "wire_json j \<Longrightarrow> length (put_json j) \<le> n \<Longrightarrow> get_json n (put_json j @ r) = Some (j, r)"
proof (induction j arbitrary: n r)
  case (Num x)
  obtain m where n: "n = Suc m" using Num.prems(2) by (cases n) simp_all
  obtain i :: int where x: "x = of_int i" using Num.prems(1) by (metis wire_json.simps(2))
  show ?case by (cases "i < 0") (simp_all add: x n)
next
  case (Arr xs)
  then obtain m where n: "n = Suc m" by (cases n) simp_all
  have "get_json m (put_json x @ r) = Some (x, r)" if "x \<in> set xs" for x r
    by (rule Arr.IH [OF that]) (use Arr.prems that long_concat [OF that, of put_json] n in \<open>simp_all add: list_all_iff\<close>)
  then show ?case by (simp add: n get_put_many)
next
  case (Obj fs)
  then obtain m where n: "n = Suc m" by (cases n) simp_all
  let ?p = "\<lambda>(k, v). put_str k @ put_json v"
  have "get_member (get_json m) (?p f @ r) = Some (f, r)" if f: "f \<in> set fs" for f r
  proof -
    obtain k v where kv: "f = (k, v)" by (cases f)
    have "get_json m (put_json v @ r) = Some (v, r)"
      by (rule Obj.IH [OF f]) (use Obj.prems f long_concat [OF f, of ?p] n kv in \<open>auto simp: list_all_iff\<close>)
    then show ?thesis by (simp add: kv get_member_def)
  qed
  then show ?case using get_put_many [of fs "get_member (get_json m)" ?p r] by (simp add: n)
next
  case (Str s)
  then show ?case by (cases n) simp_all
next
  case (Bool b)
  then show ?case by (cases n) simp_all
next
  case Null
  then show ?case by (cases n) simp_all
qed simp

lemma letters_read [simp]: "of_letters (to_letters b) = b"
  using div_mult_mod_eq [of _ "16 :: byte"] by (induction b) (simp_all add: to_letters_def mult.commute)

lemma letters_length: "length (to_letters b) = 2 * length b"
  by (induction b) (simp_all add: to_letters_def)

lemma prefix_faithful: "faithful_codec prefix_codec"
  using get_put_json [of _ _ "[]"] by (auto simp: faithful_codec_def prefix_codec_def comp_def letters_length)

lemma letter_not_end:
  assumes "unat (y :: byte) < 16"
  shows "64 + y \<noteq> 10" and "64 + y \<noteq> 13"
proof -
  have y: "y = k - 64" if "64 + y = k" for k using that by (metis add_diff_cancel_left')
  have "unat y = 202" if "64 + y = 10" using y [OF that] by simp
  moreover have "unat y = 205" if "64 + y = 13" using y [OF that] by simp
  ultimately show "64 + y \<noteq> 10" "64 + y \<noteq> 13" using assms by auto
qed

lemma letters_no_end: "10 \<notin> set (to_letters b)" "13 \<notin> set (to_letters b)"
proof -
  have "unat (x div 16) < 16" "unat (x mod 16) < 16" for x :: byte
    using unsigned_less [of x, where ?'a = nat] by (simp_all add: unat_div unat_mod)
  then show "10 \<notin> set (to_letters b)" "13 \<notin> set (to_letters b)"
    using letter_not_end by (auto simp: to_letters_def eq_commute [of 10] eq_commute [of 13])
qed

lemma prefix_one_line: "one_line prefix_codec"
  using letters_no_end by (simp add: one_line_def prefix_codec_def)

section \<open>Property\<close>

text \<open>How a line must be read: as the message it was made of, unless it is too long.\<close>

definition reads_as :: "ipc_codec \<Rightarrow> bytes \<Rightarrow> ipc_message \<Rightarrow> bool" where
  "reads_as q line m \<longleftrightarrow> decodeLine q line =
     (if MAX_LINE_BYTES < length line then Inl ''message line too large'' else Inr m)"

text \<open>
  C38: Every message of the helper protocol is read back as it was written, with its sequence number, or
  rejected as too long; a frame without bytes is written, but rejected when it is read.
\<close>
theorem ipc_roundtrip:
  assumes "faithful_codec q"
  shows "reads_as q (encodeConfigure q n c) (no_message\<lparr>msg_type := MT_Configure, msg_sequence := n, msg_config := c\<rparr>)
    \<and> reads_as q (encodeReady q n) (no_message\<lparr>msg_type := MT_Ready, msg_sequence := n\<rparr>)
    \<and> reads_as q (encodeStop q n) (no_message\<lparr>msg_type := MT_Stop, msg_sequence := n\<rparr>)
    \<and> reads_as q (encodeError q n code t)
        (no_message\<lparr>msg_type := MT_Error, msg_sequence := n, msg_code := code, msg_text := t\<rparr>)
    \<and> reads_as q (encodeHostFrame q n (b # bs)) (no_message\<lparr>msg_type := MT_HostFrame, msg_sequence := n, msg_frame := b # bs\<rparr>)
    \<and> reads_as q (encodeLocalFrame q n (b # bs)) (no_message\<lparr>msg_type := MT_LocalFrame, msg_sequence := n, msg_frame := b # bs\<rparr>)
    \<and> isl (decodeLine q (encodeHostFrame q n [])) \<and> isl (decodeLine q (encodeLocalFrame q n []))"
proof -
  have long: "decodeLine q l = Inl ''message line too large''" if "\<not> length l \<le> MAX_LINE_BYTES" for l
    using that by (simp add: decodeLine_def)
  have "reads_as q l m" if "length l \<le> MAX_LINE_BYTES \<Longrightarrow> decodeLine q l = Inr m" for l m
    using that long by (cases "length l \<le> MAX_LINE_BYTES") (simp_all add: reads_as_def)
  moreover have "isl (decodeLine q l)" if "length l \<le> MAX_LINE_BYTES \<Longrightarrow> decodeLine q l = Inl e" for l e
    using that long by (cases "length l \<le> MAX_LINE_BYTES") simp_all
  ultimately show ?thesis
    using decode_configure [OF assms] decode_plain [OF assms] decode_frame [OF assms] by (metis list.distinct(1))
qed

lemma ipc_roundtrip_witness:
  "decodeLine prefix_codec (encodeHostFrame prefix_codec 3 [7, 8])
   = Inr (no_message\<lparr>msg_type := MT_HostFrame, msg_sequence := 3, msg_frame := [7, 8]\<rparr>)"
proof -
  have "length (encodeHostFrame prefix_codec 3 [7, 8]) \<le> 1000"
    by (simp add: encodeHostFrame_def encodeObject_def baseMessage_def prefix_codec_def put_str_def put_nat_def
        PROTOCOL_VERSION_def letters_length)
  then show ?thesis
    using ipc_roundtrip [OF prefix_faithful, of 3 _ _ _ 7 "[8]"] by (simp add: reads_as_def MAX_LINE_BYTES_def)
qed

end
