(* ===== verification/ClipboardHelper.thy ===== *)
theory ClipboardHelper
  imports ClipboardIpc "HOL-Library.Sublist"
begin

text \<open>
  The client's side of the clipboard helper (\<open>src/app/streaming/clipboardhelperclient.cpp\<close>,
  \<open>clipboardhelperclient.h\<close>): starting and restarting the helper process, configuring it, handing it the
  frames from the host and its frames to the host. Its standard error, which is only logged, is left out.
\<close>

section \<open>State\<close>

definition MAX_QUEUED_HOST_FRAMES :: nat where "MAX_QUEUED_HOST_FRAMES = 32"
definition MAX_PENDING_STDIN_BYTES :: nat where "MAX_PENDING_STDIN_BYTES = 4 * 1024 * 1024"
definition MAX_RESTART_ATTEMPTS :: nat where "MAX_RESTART_ATTEMPTS = 3"
definition RESTART_DELAY_MS :: u32 where "RESTART_DELAY_MS = 1000"

text \<open>
  A process: whether it runs, what its standard input has taken, and what it has written that has not been
  read; and, for what is proved, the lines exchanged with it, in order.
\<close>

datatype exchange = Wrote bytes | Heard bytes

record helper_process =
  proc_running :: bool
  proc_taken :: bytes
  proc_output :: bytes
  proc_talk :: "exchange list"

text \<open>
  The surroundings: the codec, how many bytes a pipe that has taken some accepts of what is offered (negative
  for an error), whether the process is found dead after that, and whether an attempt to start one succeeds.
\<close>

record helper_env =
  ipc :: ipc_codec
  pipe_write :: "bytes \<Rightarrow> bytes \<Rightarrow> int"
  dies_after :: "bytes \<Rightarrow> bool"
  launches :: "nat \<Rightarrow> bool"
  helper_path :: string

text \<open>
  The client; also what it has been given by the host and has given to it, and how many processes it has
  tried to start.
\<close>

record helper_client =
  m_Process :: "helper_process option"
  m_HelperPath :: string
  m_InboundFrames :: "bytes list"
  m_StdoutBuffer :: bytes
  m_StdinBuffer :: bytes
  m_Enabled :: bool
  m_Disabled :: bool
  m_StopRequested :: bool
  m_HelperReady :: bool
  m_ConfigSequence :: u32
  m_NextSequence :: u32
  m_NextRestartTicks :: u32
  m_RestartAttempts :: nat
  m_DroppedInboundFrames :: nat
  host_context :: host_config
  from_host :: "bytes list"
  to_host :: "bytes list"
  launched :: nat

definition new_helper_client :: "host_config \<Rightarrow> helper_client" where
  "new_helper_client c = \<lparr>m_Process = None, m_HelperPath = [], m_InboundFrames = [], m_StdoutBuffer = [], m_StdinBuffer = [],
     m_Enabled = False, m_Disabled = False, m_StopRequested = False, m_HelperReady = False,
     m_ConfigSequence = 0, m_NextSequence = 1, m_NextRestartTicks = 0, m_RestartAttempts = 0,
     m_DroppedInboundFrames = 0, host_context = c, from_host = [], to_host = [], launched = 0\<rparr>"

definition isRunning :: "helper_client \<Rightarrow> bool" where
  "isRunning s \<longleftrightarrow> (case m_Process s of None \<Rightarrow> False | Some p \<Rightarrow> proc_running p)"

section \<open>Restarting\<close>

definition scheduleRestart :: "u32 \<Rightarrow> helper_client \<Rightarrow> helper_client" where
  "scheduleRestart now s =
     (let s = s\<lparr>m_HelperReady := False\<rparr> in
      if \<not> m_Enabled s \<or> m_Disabled s \<or> m_StopRequested s then s
      else if MAX_RESTART_ATTEMPTS \<le> m_RestartAttempts s then s\<lparr>m_Disabled := True\<rparr>
      else s\<lparr>m_RestartAttempts := m_RestartAttempts s + 1, m_NextRestartTicks := now + RESTART_DELAY_MS\<rparr>)"

definition restartHelper :: "u32 \<Rightarrow> helper_client \<Rightarrow> helper_client" where
  "restartHelper now s =
     scheduleRestart now (s\<lparr>m_HelperReady := False, m_StdoutBuffer := [], m_StdinBuffer := [], m_Process := None\<rparr>)"

section \<open>Writing\<close>

function push_input :: "(bytes \<Rightarrow> bytes \<Rightarrow> int) \<Rightarrow> bytes \<Rightarrow> bytes \<Rightarrow> (bytes \<times> bytes) option" where
  "push_input w taken buf =
     (if buf = [] then Some (taken, buf)
      else let n = w taken buf in
        if n < 0 then None
        else if n = 0 then Some (taken, buf)
        else push_input w (taken @ take (nat n) buf) (drop (nat n) buf))"
  by pat_completeness auto

termination
  by (relation "measure (\<lambda>(w, taken, buf). length buf)") auto

declare push_input.simps [simp del]

definition flushProcessInput :: "helper_env \<Rightarrow> u32 \<Rightarrow> helper_client \<Rightarrow> bool \<times> helper_client" where
  "flushProcessInput q now s =
     (case m_Process s of
        None \<Rightarrow> (False, s)
      | Some p \<Rightarrow>
          if \<not> proc_running p then (False, s)
          else (case push_input (pipe_write q) (proc_taken p) (m_StdinBuffer s) of
                  None \<Rightarrow> (False, restartHelper now s)
                | Some (taken, buf) \<Rightarrow>
                    (True, s\<lparr>m_StdinBuffer := buf,
                             m_Process := Some (p\<lparr>proc_taken := taken, proc_running := \<not> dies_after q taken\<rparr>)\<rparr>)))"

definition append_line :: "bytes \<Rightarrow> helper_client \<Rightarrow> helper_client" where
  "append_line line s = s\<lparr>m_StdinBuffer := m_StdinBuffer s @ line @ [10],
     m_Process := map_option (\<lambda>p. p\<lparr>proc_talk := proc_talk p @ [Wrote line]\<rparr>) (m_Process s)\<rparr>"

definition writeLine :: "helper_env \<Rightarrow> u32 \<Rightarrow> bytes \<Rightarrow> helper_client \<Rightarrow> bool \<times> helper_client" where
  "writeLine q now line s =
     (if \<not> isRunning s then (False, s)
      else if MAX_PENDING_STDIN_BYTES < length (m_StdinBuffer s) + (length line + 1) then (False, restartHelper now s)
      else flushProcessInput q now (append_line line s))"

definition nextSequence :: "helper_client \<Rightarrow> u32 \<times> helper_client" where
  "nextSequence s =
     (let n = (if m_NextSequence s = 0 then 1 else m_NextSequence s) in (n, s\<lparr>m_NextSequence := n + 1\<rparr>))"

definition complete_config :: "host_config \<Rightarrow> bool" where
  "complete_config c \<longleftrightarrow> cfg_address c \<noteq> [] \<and> cfg_httpsPort c \<noteq> 0 \<and> serverCertPem c \<noteq> []
     \<and> clientCertPem c \<noteq> [] \<and> clientKeyPem c \<noteq> []"

definition sendCurrentConfig :: "helper_env \<Rightarrow> u32 \<Rightarrow> helper_client \<Rightarrow> helper_client" where
  "sendCurrentConfig q now s =
     (if \<not> complete_config (host_context s) then s
      else case nextSequence (s\<lparr>m_HelperReady := False\<rparr>) of (n, s) \<Rightarrow>
        snd (writeLine q now (encodeConfigure (ipc q) n (host_context s)) (s\<lparr>m_ConfigSequence := n\<rparr>)))"

fun send_frames :: "helper_env \<Rightarrow> u32 \<Rightarrow> bytes list \<Rightarrow> helper_client \<Rightarrow> helper_client" where
  "send_frames q now [] s = s"
| "send_frames q now (f # fs) s =
     (case nextSequence s of (n, s) \<Rightarrow>
        case writeLine q now (encodeHostFrame (ipc q) n f) s of (ok, s) \<Rightarrow>
          if ok then send_frames q now fs s else s)"

definition flushQueuedHostFrames :: "helper_env \<Rightarrow> u32 \<Rightarrow> helper_client \<Rightarrow> helper_client" where
  "flushQueuedHostFrames q now s =
     send_frames q now (m_InboundFrames s) (s\<lparr>m_InboundFrames := [], m_DroppedInboundFrames := 0\<rparr>)"

section \<open>Starting and stopping\<close>

definition fresh_process :: helper_process where
  "fresh_process = \<lparr>proc_running = True, proc_taken = [], proc_output = [], proc_talk = []\<rparr>"

definition startProcess :: "helper_env \<Rightarrow> u32 \<Rightarrow> helper_client \<Rightarrow> helper_client" where
  "startProcess q now s =
     (if \<not> m_Enabled s \<or> m_Disabled s \<or> m_Process s \<noteq> None then s
      else let s = s\<lparr>launched := launched s + 1\<rparr> in
        if \<not> launches q (launched s) then scheduleRestart now s
        else sendCurrentConfig q now
          (s\<lparr>m_HelperReady := False, m_StdoutBuffer := [], m_StdinBuffer := [], m_Process := Some fresh_process\<rparr>))"

definition helper_start :: "helper_env \<Rightarrow> u32 \<Rightarrow> helper_client \<Rightarrow> helper_client" where
  "helper_start q now s =
     (if m_Enabled s then s
      else let s = s\<lparr>m_Enabled := True, m_Disabled := False, m_StopRequested := False, m_RestartAttempts := 0,
                     m_NextRestartTicks := 0, m_HelperPath := helper_path q\<rparr> in
        if m_HelperPath s = [] then s\<lparr>m_Disabled := True\<rparr> else startProcess q now s)"

definition helper_stop :: "helper_env \<Rightarrow> u32 \<Rightarrow> helper_client \<Rightarrow> helper_client" where
  "helper_stop q now s =
     (let s = s\<lparr>m_Enabled := False, m_StopRequested := True, m_HelperReady := False, m_NextRestartTicks := 0\<rparr> in
      if \<not> isRunning s then s\<lparr>m_Process := None\<rparr>
      else case nextSequence s of (n, s) \<Rightarrow>
        (snd (flushProcessInput q now (snd (writeLine q now (encodeStop (ipc q) n) s))))\<lparr>m_Process := None\<rparr>)"

definition updateHostContext :: "helper_env \<Rightarrow> u32 \<Rightarrow> helper_client \<Rightarrow> helper_client" where
  "updateHostContext q now s =
     (if \<not> m_Enabled s \<or> m_Disabled s \<or> \<not> isRunning s then s else sendCurrentConfig q now s)"

text \<open>\<open>SDL_TICKS_PASSED\<close>, and \<open>maybeRestart\<close>.\<close>

definition ticks_passed :: "u32 \<Rightarrow> u32 \<Rightarrow> bool" where
  "ticks_passed a b \<longleftrightarrow> sint (b - a) \<le> 0"

definition maybeRestart :: "helper_env \<Rightarrow> u32 \<Rightarrow> helper_client \<Rightarrow> helper_client" where
  "maybeRestart q now s =
     (if \<not> m_Enabled s \<or> m_Disabled s \<or> m_StopRequested s \<or> m_HelperPath s = [] then s
      else if m_NextRestartTicks s = 0 \<or> ticks_passed now (m_NextRestartTicks s)
      then startProcess q now (s\<lparr>m_NextRestartTicks := 0\<rparr>)
      else s)"

section \<open>Reading\<close>

definition handleIncomingFrame :: "bytes \<Rightarrow> helper_client \<Rightarrow> helper_client" where
  "handleIncomingFrame data s =
     (if data = [] then s
      else let s = s\<lparr>from_host := from_host s @ [data]\<rparr>;
               s = (if MAX_QUEUED_HOST_FRAMES \<le> length (m_InboundFrames s)
                    then s\<lparr>m_InboundFrames := tl (m_InboundFrames s), m_DroppedInboundFrames := m_DroppedInboundFrames s + 1\<rparr>
                    else s)
        in s\<lparr>m_InboundFrames := m_InboundFrames s @ [data]\<rparr>)"

definition hear :: "bytes \<Rightarrow> helper_client \<Rightarrow> helper_client" where
  "hear line s = s\<lparr>m_Process := map_option (\<lambda>p. p\<lparr>proc_talk := proc_talk p @ [Heard line]\<rparr>) (m_Process s)\<rparr>"

definition processProtocolLine :: "helper_env \<Rightarrow> u32 \<Rightarrow> bytes \<Rightarrow> helper_client \<Rightarrow> helper_client" where
  "processProtocolLine q now line s =
     (let s = hear line s in
      case decodeLine (ipc q) line of
        Inl e \<Rightarrow> restartHelper now s
      | Inr m \<Rightarrow>
          (case msg_type m of
             MT_Ready \<Rightarrow> if msg_sequence m \<noteq> m_ConfigSequence s then s else s\<lparr>m_HelperReady := True\<rparr>
           | MT_LocalFrame \<Rightarrow> s\<lparr>to_host := to_host s @ [msg_frame m]\<rparr>
           | _ \<Rightarrow> s))"

definition chop_cr :: "bytes \<Rightarrow> bytes" where
  "chop_cr line = rev (dropWhile (\<lambda>b. b = 13) (rev line))"

lemma protocol_line_buffer: "length (m_StdoutBuffer (processProtocolLine q now line s)) \<le> length (m_StdoutBuffer s)"
  by (simp add: processProtocolLine_def Let_def hear_def restartHelper_def scheduleRestart_def
      split: sum.split message_type.split)

function read_lines :: "helper_env \<Rightarrow> u32 \<Rightarrow> helper_client \<Rightarrow> helper_client" where
  "read_lines q now s =
     (if 10 \<notin> set (m_StdoutBuffer s) then s
      else let line = takeWhile (\<lambda>b. b \<noteq> 10) (m_StdoutBuffer s);
               s = s\<lparr>m_StdoutBuffer := drop (length line + 1) (m_StdoutBuffer s)\<rparr>
        in read_lines q now (processProtocolLine q now (chop_cr line) s))"
  by pat_completeness auto

termination
proof (relation "measure (\<lambda>(q, now, s). length (m_StdoutBuffer s))", goal_cases)
  case (2 q now s line s')
  then have "length (m_StdoutBuffer s') < length (m_StdoutBuffer s)" by (cases "m_StdoutBuffer s") auto
  with protocol_line_buffer show ?case by (simp only: in_measure case_prod_conv) (rule order_le_less_trans)
qed simp

declare read_lines.simps [simp del]

definition readHelperOutput :: "helper_env \<Rightarrow> u32 \<Rightarrow> helper_client \<Rightarrow> helper_client" where
  "readHelperOutput q now s =
     (case m_Process s of
        None \<Rightarrow> s
      | Some p \<Rightarrow>
          let s = s\<lparr>m_StdoutBuffer := m_StdoutBuffer s @ proc_output p, m_Process := Some (p\<lparr>proc_output := []\<rparr>)\<rparr> in
          if MAX_LINE_BYTES < length (m_StdoutBuffer s) then (restartHelper now s)\<lparr>m_StdoutBuffer := []\<rparr>
          else read_lines q now s)"

text \<open>
  \<open>None\<close> is the use of a null pointer: once the helper has exited, \<open>exitCode\<close> is asked for after its last
  output has been handled.
\<close>

definition processPendingMessages :: "helper_env \<Rightarrow> u32 \<Rightarrow> helper_client \<Rightarrow> helper_client option" where
  "processPendingMessages q now s =
     (case m_Process s of
        None \<Rightarrow> Some (maybeRestart q now s)
      | Some p \<Rightarrow>
          if \<not> proc_running p
          then let s = readHelperOutput q now s in
            if m_Process s = None then None
            else let s = s\<lparr>m_Process := None, m_HelperReady := False, m_StdinBuffer := []\<rparr> in
              Some (if m_StopRequested s then s else scheduleRestart now s)
          else case flushProcessInput q now s of (ok, s) \<Rightarrow>
            if \<not> ok then Some s
            else let s = readHelperOutput q now s in
              Some (if m_HelperReady s then flushQueuedHostFrames q now s else s))"

section \<open>Steps\<close>

datatype helper_event =
    Helper_start u32 | Helper_stop u32
  | New_context host_config | Update_context u32
  | Host_says bytes
  | Poll u32
  | Helper_says bytes
  | Helper_exits

definition on_process :: "(helper_process \<Rightarrow> helper_process) \<Rightarrow> helper_client \<Rightarrow> helper_client" where
  "on_process f s = s\<lparr>m_Process := map_option f (m_Process s)\<rparr>"

definition helper_step :: "helper_env \<Rightarrow> helper_client \<Rightarrow> helper_event \<Rightarrow> helper_client option" where
  "helper_step q s e =
     (case e of
        Helper_start now \<Rightarrow> Some (helper_start q now s)
      | Helper_stop now \<Rightarrow> Some (helper_stop q now s)
      | New_context c \<Rightarrow> Some (s\<lparr>host_context := c\<rparr>)
      | Update_context now \<Rightarrow> Some (updateHostContext q now s)
      | Host_says f \<Rightarrow> Some (handleIncomingFrame f s)
      | Poll now \<Rightarrow> processPendingMessages q now s
      | Helper_says b \<Rightarrow> Some (on_process (\<lambda>p. if proc_running p then p\<lparr>proc_output := proc_output p @ b\<rparr> else p) s)
      | Helper_exits \<Rightarrow> Some (on_process (\<lambda>p. p\<lparr>proc_running := False\<rparr>) s))"

fun helper_run :: "helper_env \<Rightarrow> helper_client \<Rightarrow> helper_event list \<Rightarrow> helper_client option" where
  "helper_run q s [] = Some s"
| "helper_run q s (e # es) = (case helper_step q s e of None \<Rightarrow> None | Some s \<Rightarrow> helper_run q s es)"

lemma on_no_process: "m_Process s = None \<Longrightarrow> on_process f s = s"
  by (cases s) (simp add: on_process_def)

section \<open>Invariants\<close>

text \<open>
  What must be kept by the single changes of the state for it to be kept by every operation. A frame that
  is written is still in the queue of the state before.
\<close>

definition may_start :: "helper_client \<Rightarrow> bool" where
  "may_start s \<longleftrightarrow> m_Enabled s \<and> \<not> m_Disabled s \<and> m_Process s = None"

definition fits :: "bytes \<Rightarrow> helper_client \<Rightarrow> bool" where
  "fits line s \<longleftrightarrow> isRunning s \<and> length (m_StdinBuffer s) + (length line + 1) \<le> MAX_PENDING_STDIN_BYTES"

definition reconfigured :: "u32 \<Rightarrow> u32 \<Rightarrow> helper_client \<Rightarrow> helper_client" where
  "reconfigured n k s = s\<lparr>m_HelperReady := False, m_NextSequence := k, m_ConfigSequence := n\<rparr>"

definition exited :: "u32 \<Rightarrow> helper_client \<Rightarrow> helper_client" where
  "exited now s = (let s = s\<lparr>m_Process := None, m_HelperReady := False, m_StdinBuffer := []\<rparr> in
     if m_StopRequested s then s else scheduleRestart now s)"

definition stopping :: "helper_client \<Rightarrow> helper_client" where
  "stopping s = s\<lparr>m_Enabled := False, m_StopRequested := True, m_HelperReady := False, m_NextRestartTicks := 0\<rparr>"

definition with_process :: "helper_process \<Rightarrow> helper_client \<Rightarrow> helper_client" where
  "with_process p s = s\<lparr>m_Process := Some p\<rparr>"

locale helper_invariant =
  fixes q :: helper_env and I :: "helper_client \<Rightarrow> bool"
  assumes restart: "I s \<Longrightarrow> m_Process s \<noteq> None \<Longrightarrow> I (restartHelper now s)"
    and gone: "I s \<Longrightarrow> m_Process s \<noteq> None \<Longrightarrow> I (exited now s)"
    and fail: "I s \<Longrightarrow> may_start s \<Longrightarrow> I (scheduleRestart now (s\<lparr>launched := launched s + 1\<rparr>))"
    and launch: "I s \<Longrightarrow> may_start s \<Longrightarrow>
      I (with_process fresh_process (s\<lparr>launched := launched s + 1, m_HelperReady := False, m_StdoutBuffer := [],
           m_StdinBuffer := []\<rparr>))"
    and pushed: "I s \<Longrightarrow> m_Process s = Some p \<Longrightarrow> push_input w (proc_taken p) (m_StdinBuffer s) = Some (taken, buf) \<Longrightarrow>
      I (with_process (p\<lparr>proc_taken := taken, proc_running := b\<rparr>) (s\<lparr>m_StdinBuffer := buf\<rparr>))"
    and stdout: "I s \<Longrightarrow> I (s\<lparr>m_StdoutBuffer := out\<rparr>)"
    and changed: "I s \<Longrightarrow> m_Process s = Some p \<Longrightarrow> I (with_process (p\<lparr>proc_output := out, proc_running := b\<rparr>) s)"
    and config: "I s \<Longrightarrow> fits (encodeConfigure (ipc q) n c) s \<Longrightarrow>
      I (append_line (encodeConfigure (ipc q) n c) (reconfigured n k s))"
    and config_lost: "I s \<Longrightarrow> isRunning s \<Longrightarrow> I (restartHelper now (reconfigured n k s))"
    and frame: "I (s\<lparr>m_InboundFrames := f # fs\<rparr>) \<Longrightarrow> m_HelperReady s \<Longrightarrow> fits (encodeHostFrame (ipc q) n f) s \<Longrightarrow>
      I (append_line (encodeHostFrame (ipc q) n f) (s\<lparr>m_InboundFrames := fs\<rparr>))"
    and lose: "I s \<Longrightarrow> I (s\<lparr>m_InboundFrames := []\<rparr>)"
    and dropped: "I s \<Longrightarrow> I (s\<lparr>m_DroppedInboundFrames := 0\<rparr>)"
    and number: "I s \<Longrightarrow> I (s\<lparr>m_NextSequence := k\<rparr>)"
    and heard: "I s \<Longrightarrow> m_Process s \<noteq> None \<Longrightarrow>
      (\<And>m. decodeLine (ipc q) line = Inr m \<Longrightarrow> msg_type m \<noteq> MT_LocalFrame) \<Longrightarrow> I (hear line s)"
    and ready: "I s \<Longrightarrow> m_Process s \<noteq> None \<Longrightarrow> decodeLine (ipc q) line = Inr m \<Longrightarrow> msg_type m = MT_Ready \<Longrightarrow>
      msg_sequence m = m_ConfigSequence s \<Longrightarrow> I (hear line s\<lparr>m_HelperReady := True\<rparr>)"
    and local_frame: "I s \<Longrightarrow> m_Process s \<noteq> None \<Longrightarrow> decodeLine (ipc q) line = Inr m \<Longrightarrow> msg_type m = MT_LocalFrame \<Longrightarrow>
      I (hear line s\<lparr>to_host := to_host s @ [msg_frame m]\<rparr>)"
    and queue: "I s \<Longrightarrow> I (handleIncomingFrame f s)"
    and ticks: "I s \<Longrightarrow> I (s\<lparr>m_NextRestartTicks := t\<rparr>)"
    and context_moved: "I s \<Longrightarrow> I (s\<lparr>host_context := c\<rparr>)"
    and stop: "I s \<Longrightarrow> I (stopping s)"
    and bye: "I s \<Longrightarrow> \<not> m_Enabled s \<Longrightarrow> fits (encodeStop (ipc q) n) s \<Longrightarrow> I (append_line (encodeStop (ipc q) n) s)"
    and leave: "I s \<Longrightarrow> \<not> m_Enabled s \<Longrightarrow> I (s\<lparr>m_Process := None\<rparr>)"
begin

lemma flush:
  assumes "I s"
  shows "I (snd (flushProcessInput q now s))"
proof (cases "m_Process s")
  case (Some p)
  then have "I (restartHelper now s)" using restart [OF assms] by simp
  then show ?thesis
    using pushed [OF assms Some, of "pipe_write q"] Some assms
    by (auto simp: flushProcessInput_def with_process_def split: option.split)
qed (use assms in \<open>simp add: flushProcessInput_def\<close>)

lemma writes:
  assumes "I s" and "fits line s \<Longrightarrow> I (append_line line s)"
  shows "I (snd (writeLine q now line s))"
proof -
  have "m_Process s \<noteq> None" if "isRunning s" using that by (cases "m_Process s") (simp_all add: isRunning_def)
  then show ?thesis
    using restart [OF assms(1), of now] flush [OF assms(2), of now] assms(1) by (auto simp: writeLine_def fits_def)
qed

lemma configure:
  assumes "I s" and "isRunning s"
  shows "I (sendCurrentConfig q now s)"
proof -
  let ?n = "fst (nextSequence s)" and ?k = "m_NextSequence (snd (nextSequence s))"
  let ?line = "encodeConfigure (ipc q) ?n (host_context s)"
  have same: "m_Process (reconfigured n k s) = m_Process s" "m_StdinBuffer (reconfigured n k s) = m_StdinBuffer s" for n k
    by (simp_all add: reconfigured_def)
  have go: "sendCurrentConfig q now s =
      (if complete_config (host_context s) then snd (writeLine q now ?line (reconfigured ?n ?k s)) else s)"
    by (simp add: sendCurrentConfig_def nextSequence_def Let_def reconfigured_def)
  have "I (snd (writeLine q now ?line (reconfigured ?n ?k s)))"
    using config [OF assms(1), of ?n "host_context s" ?k] config_lost [OF assms, of now ?n ?k] flush [of _ now] assms(2)
    by (auto simp: writeLine_def fits_def isRunning_def same)
  then show ?thesis using assms(1) by (simp add: go)
qed

lemma frames:
  assumes "I (s\<lparr>m_InboundFrames := fs\<rparr>)" and "m_HelperReady s" and "m_InboundFrames s = []"
  shows "I (send_frames q now fs s)"
  using assms
proof (induction fs arbitrary: s)
  case Nil
  then have "s\<lparr>m_InboundFrames := []\<rparr> = s" by (cases s) simp
  then show ?case using Nil.prems(1) by simp
next
  case (Cons f fs)
  let ?n = "fst (nextSequence s)" and ?s = "snd (nextSequence s)"
  let ?line = "encodeHostFrame (ipc q) ?n f"
  have s: "?s = s\<lparr>m_NextSequence := ?n + 1\<rparr>" by (simp add: nextSequence_def Let_def)
  have unqueue: "append_line l (x\<lparr>m_InboundFrames := fs\<rparr>)\<lparr>m_InboundFrames := []\<rparr> = append_line l x"
    if "m_InboundFrames x = []" for l x
    using that by (cases x) (simp add: append_line_def)
  have gone: "I ?s" using lose [OF number [OF Cons.prems(1), of "?n + 1"]] Cons.prems(3) unfolding s by (cases s) simp
  have queued: "I (?s\<lparr>m_InboundFrames := f # fs\<rparr>)"
    using number [OF Cons.prems(1), of "?n + 1"] unfolding s by (cases s) simp
  show ?case
  proof (cases "fits ?line ?s")
    case False
    then have "\<not> fst (writeLine q now ?line ?s)" by (auto simp: writeLine_def fits_def not_le)
    moreover have "I (snd (writeLine q now ?line ?s))" by (rule writes [OF gone]) (use False in simp)
    ultimately show ?thesis by (simp add: case_prod_beta)
  next
    case True
    have "I (append_line ?line (?s\<lparr>m_InboundFrames := fs\<rparr>))"
      using frame [OF queued _ True] Cons.prems(2) by (simp add: s)
    then have I: "I (snd (flushProcessInput q now (append_line ?line (?s\<lparr>m_InboundFrames := fs\<rparr>))))" by (rule flush)
    obtain p where p: "m_Process ?s = Some p" "proc_running p"
      using True by (auto simp: fits_def isRunning_def split: option.splits)
    have w: "writeLine q now ?line ?s = flushProcessInput q now (append_line ?line ?s)"
      using True by (simp add: writeLine_def fits_def)
    show ?thesis
    proof (cases "push_input (pipe_write q) (proc_taken p) (m_StdinBuffer (append_line ?line ?s))")
      case None
      then have "flushProcessInput q now (append_line ?line ?s) = (False, restartHelper now (append_line ?line ?s))"
        using p by (simp add: flushProcessInput_def append_line_def)
      moreover have "I (append_line ?line ?s)"
        using lose [OF \<open>I (append_line ?line (?s\<lparr>m_InboundFrames := fs\<rparr>))\<close>] unqueue [of ?s ?line] Cons.prems(3)
        by (simp add: s)
      ultimately show ?thesis using restart [of "append_line ?line ?s" now] w p by (simp add: append_line_def case_prod_beta)
    next
      case (Some r)
      let ?t = "snd (flushProcessInput q now (append_line ?line ?s))"
      have t: "fst (flushProcessInput q now (append_line ?line ?s))" "m_HelperReady ?t" "m_InboundFrames ?t = []"
        "snd (flushProcessInput q now (append_line ?line (?s\<lparr>m_InboundFrames := fs\<rparr>))) = ?t\<lparr>m_InboundFrames := fs\<rparr>"
        using Some p Cons.prems(2,3) by (cases r; simp add: flushProcessInput_def append_line_def s)+
      then have "I (send_frames q now fs ?t)" using Cons.IH [of ?t] I by simp
      then show ?thesis using t(1) w by (simp add: case_prod_beta)
    qed
  qed
qed

lemma send_queue:
  assumes "I s" and "m_HelperReady s"
  shows "I (flushQueuedHostFrames q now s)"
proof -
  have "s\<lparr>m_InboundFrames := [], m_DroppedInboundFrames := 0\<rparr>\<lparr>m_InboundFrames := m_InboundFrames s\<rparr>
      = s\<lparr>m_DroppedInboundFrames := 0\<rparr>" by (cases s) simp
  then show ?thesis
    using frames [of "m_InboundFrames s" "s\<lparr>m_InboundFrames := [], m_DroppedInboundFrames := 0\<rparr>" now] dropped [OF assms(1)] assms(2)
    by (simp add: flushQueuedHostFrames_def)
qed

lemma start_process:
  assumes "I s"
  shows "I (startProcess q now s)"
  using assms fail [OF assms, of now] configure [OF launch [OF assms], of now]
  by (simp add: startProcess_def may_start_def Let_def with_process_def isRunning_def fresh_process_def)

lemma protocol_line:
  assumes "I s" and "m_Process s \<noteq> None"
  shows "I (processProtocolLine q now line s)"
proof (cases "decodeLine (ipc q) line")
  case (Inl e)
  have "I (hear line s)" by (rule heard [OF assms]) (use Inl in simp)
  moreover have "m_Process (hear line s) \<noteq> None" using assms(2) by (simp add: hear_def)
  ultimately show ?thesis using restart Inl by (simp add: processProtocolLine_def Let_def)
next
  case (Inr m)
  have "I (hear line s)" if "msg_type m \<noteq> MT_LocalFrame" by (rule heard [OF assms]) (use Inr that in simp)
  moreover have "m_ConfigSequence (hear line s) = m_ConfigSequence s" "to_host (hear line s) = to_host s"
    by (simp_all add: hear_def)
  ultimately show ?thesis using ready [OF assms Inr] local_frame [OF assms Inr] Inr
    by (auto simp: processProtocolLine_def Let_def split: message_type.split)
qed

lemma gone_buffer: "m_Process s \<noteq> None \<Longrightarrow>
    m_Process (processProtocolLine q now line s) \<noteq> None \<or> m_StdoutBuffer (processProtocolLine q now line s) = []"
  by (auto simp: processProtocolLine_def Let_def hear_def restartHelper_def scheduleRestart_def
      split: sum.split message_type.split)

lemma lines:
  assumes "I s" and "m_Process s \<noteq> None \<or> m_StdoutBuffer s = []"
  shows "I (read_lines q now s)"
  using assms
proof (induction "length (m_StdoutBuffer s)" arbitrary: s rule: less_induct)
  case less
  show ?case
  proof (cases "10 \<in> set (m_StdoutBuffer s)")
    case False
    then show ?thesis using less.prems(1) by (subst read_lines.simps) simp
  next
    case True
    let ?line = "takeWhile (\<lambda>b. b \<noteq> 10) (m_StdoutBuffer s)"
    let ?s = "s\<lparr>m_StdoutBuffer := drop (length ?line + 1) (m_StdoutBuffer s)\<rparr>"
    let ?t = "processProtocolLine q now (chop_cr ?line) ?s"
    have p: "m_Process ?s \<noteq> None" using less.prems(2) True by auto
    have "length (m_StdoutBuffer ?s) < length (m_StdoutBuffer s)" using True by (cases "m_StdoutBuffer s") auto
    then have "length (m_StdoutBuffer ?t) < length (m_StdoutBuffer s)"
      using protocol_line_buffer order_le_less_trans by blast
    moreover have "I ?t" by (rule protocol_line [OF stdout [OF less.prems(1)] p])
    ultimately have "I (read_lines q now ?t)" using less.hyps gone_buffer [OF p] by blast
    then show ?thesis using True by (subst read_lines.simps) (simp add: Let_def)
  qed
qed

lemma output_read:
  assumes "I s"
  shows "I (readHelperOutput q now s)"
proof (cases "m_Process s")
  case (Some p)
  let ?s = "s\<lparr>m_StdoutBuffer := m_StdoutBuffer s @ proc_output p, m_Process := Some (p\<lparr>proc_output := []\<rparr>)\<rparr>"
  have "I (with_process (p\<lparr>proc_output := [], proc_running := proc_running p\<rparr>) (s\<lparr>m_StdoutBuffer := m_StdoutBuffer s @ proc_output p\<rparr>))"
    by (rule changed [OF stdout [OF assms]]) (simp add: Some)
  then have s: "I ?s" by (simp add: with_process_def)
  show ?thesis
    using lines [OF s, of now] stdout [OF restart [OF s, of now], of "[]"] by (simp add: readHelperOutput_def Some Let_def)
qed (use assms in \<open>simp add: readHelperOutput_def\<close>)

lemma poll:
  assumes "I s" and "processPendingMessages q now s = Some s'"
  shows "I s'"
proof (cases "m_Process s")
  case None
  then show ?thesis
    using assms start_process [OF ticks [OF assms(1), of 0], of now]
    by (auto simp: processPendingMessages_def maybeRestart_def split: if_splits)
next
  case (Some p)
  show ?thesis
  proof (cases "proc_running p")
    case False
    then have "m_Process (readHelperOutput q now s) \<noteq> None" "s' = exited now (readHelperOutput q now s)"
      using assms(2) Some by (auto simp: processPendingMessages_def exited_def Let_def split: if_splits)
    then show ?thesis using gone [OF output_read [OF assms(1)]] by simp
  next
    case True
    let ?r = "flushProcessInput q now s"
    have "I (snd ?r)" by (rule flush [OF assms(1)])
    then show ?thesis
      using assms(2) Some True output_read [of "snd ?r" now] send_queue [of "readHelperOutput q now (snd ?r)" now]
      by (auto simp: processPendingMessages_def case_prod_beta Let_def split: if_splits)
  qed
qed

lemma stops:
  assumes "I s"
  shows "I (helper_stop q now s)"
proof -
  have kept: "\<not> m_Enabled (restartHelper now s)" "\<not> m_Enabled (snd (flushProcessInput q now s))"
    "\<not> m_Enabled (snd (writeLine q now line s))" if "\<not> m_Enabled s" for s line
    using that by (auto simp: writeLine_def flushProcessInput_def restartHelper_def scheduleRestart_def append_line_def
        Let_def split: option.split)
  let ?s = "stopping s"
  have s: "I ?s" "\<not> m_Enabled ?s" using stop [OF assms] by (simp_all add: stopping_def)
  let ?n = "fst (nextSequence ?s)" and ?t = "snd (nextSequence ?s)"
  have t: "I ?t" "\<not> m_Enabled ?t" using number [OF s(1)] s(2) by (simp_all add: nextSequence_def Let_def)
  let ?u = "snd (writeLine q now (encodeStop (ipc q) ?n) ?t)"
  have "I ?u" by (rule writes [OF t(1)]) (rule bye [OF t])
  then have "I (snd (flushProcessInput q now ?u)\<lparr>m_Process := None\<rparr>)"
    using leave [OF flush] kept t(2) by blast
  then show ?thesis using leave [OF s] by (simp add: helper_stop_def stopping_def [symmetric] Let_def case_prod_beta)
qed

lemma steps:
  assumes "I s" and "helper_step q s e = Some s'" and "\<And>now. e \<noteq> Helper_start now"
  shows "I s'"
proof (cases e)
  case (Update_context now)
  then show ?thesis using assms(1,2) configure [OF assms(1), of now] by (auto simp: helper_step_def updateHostContext_def split: if_splits)
next
  case (Helper_says b)
  have "I (on_process (\<lambda>p. if proc_running p then p\<lparr>proc_output := proc_output p @ b\<rparr> else p) s)"
  proof (cases "m_Process s")
    case (Some p)
    have "p\<lparr>proc_output := x, proc_running := proc_running p\<rparr> = p\<lparr>proc_output := x\<rparr>" for x by (cases p) simp
    then have "I (with_process (p\<lparr>proc_output := proc_output p @ b\<rparr>) s)"
      using changed [OF assms(1) Some, where out = "proc_output p @ b" and b = "proc_running p"] by simp
    moreover have same: "s\<lparr>m_Process := Some p\<rparr> = s" using Some by (cases s) simp
    ultimately show ?thesis using Some assms(1)
      by (cases "proc_running p") (simp_all only: on_process_def with_process_def option.map if_True if_False same)
  qed (use assms(1) in \<open>simp add: on_no_process\<close>)
  then show ?thesis using assms(2) Helper_says by (simp add: helper_step_def)
next
  case Helper_exits
  have "I (on_process (\<lambda>p. p\<lparr>proc_running := False\<rparr>) s)"
  proof (cases "m_Process s")
    case (Some p)
    then have "I (with_process (p\<lparr>proc_output := proc_output p, proc_running := False\<rparr>) s)"
      by (rule changed [OF assms(1)])
    moreover have "p\<lparr>proc_output := proc_output p, proc_running := False\<rparr> = p\<lparr>proc_running := False\<rparr>" by (cases p) simp
    ultimately show ?thesis using Some by (simp add: on_process_def with_process_def)
  qed (use assms(1) in \<open>simp add: on_no_process\<close>)
  then show ?thesis using assms(2) Helper_exits by (simp add: helper_step_def)
qed (use assms stops poll queue context_moved in \<open>auto simp: helper_step_def\<close>)

lemma runs:
  assumes "I s" and "helper_run q s es = Some s'" and "\<forall>now. Helper_start now \<notin> set es"
  shows "I s'"
  using assms by (induction es arbitrary: s) (auto split: option.splits dest: steps)

end

text \<open>What is kept by being started as well is kept by every run.\<close>

locale helper_always = helper_invariant +
  assumes arm: "I s \<Longrightarrow> \<not> m_Enabled s \<Longrightarrow> I (s\<lparr>m_Enabled := True, m_Disabled := False, m_StopRequested := False,
    m_RestartAttempts := 0, m_NextRestartTicks := 0, m_HelperPath := path\<rparr>)"
    and disable: "I s \<Longrightarrow> I (s\<lparr>m_Disabled := True\<rparr>)"
begin

lemma every_step:
  assumes "I s" and "helper_step q s e = Some s'"
  shows "I s'"
proof (cases "\<exists>now. e = Helper_start now")
  case False
  then show ?thesis using steps [OF assms] by blast
next
  case True
  then show ?thesis
    using assms arm [OF assms(1), of "helper_path q"]
      disable [OF arm [OF assms(1), of "helper_path q"]] start_process
    by (auto simp: helper_step_def helper_start_def Let_def split: if_splits)
qed

lemma every_run:
  assumes "I s" and "helper_run q s es = Some s'"
  shows "I s'"
  using assms by (induction es arbitrary: s) (auto split: option.splits dest: every_step)

end

end
