(* ===== verification/ClipboardHelperRun.thy ===== *)
theory ClipboardHelperRun
  imports ClipboardHelper
begin

text \<open>
  What every run of the client of the clipboard helper (\<open>ClipboardHelper\<close>) keeps: its limits, what its pipe
  carries, that frames follow a READY, their order, and how often a helper is started.
\<close>

section \<open>What was said\<close>

text \<open>Lines written, the kind, number and frame of a line, and what the helper has told.\<close>

fun wrote :: "exchange list \<Rightarrow> bytes list" where
  "wrote [] = []"
| "wrote (Wrote l # xs) = l # wrote xs"
| "wrote (Heard l # xs) = wrote xs"

definition line_object :: "helper_env \<Rightarrow> bytes \<Rightarrow> json" where
  "line_object q l = (case read_json (ipc q) l of Inl e \<Rightarrow> Undefined | Inr j \<Rightarrow> j)"

definition line_type :: "helper_env \<Rightarrow> bytes \<Rightarrow> message_type" where
  "line_type q l = stringToType (to_str (json_value (line_object q l) ''type''))"

definition line_number :: "helper_env \<Rightarrow> bytes \<Rightarrow> u32 option" where
  "line_number q l = read_sequence (json_value (line_object q l) ''sequence'')"

definition line_frame :: "helper_env \<Rightarrow> bytes \<Rightarrow> bytes" where
  "line_frame q l = fst (readBase64Payload (ipc q) (line_object q l) ''payload'')"

definition host_frames :: "helper_env \<Rightarrow> bytes list \<Rightarrow> bytes list" where
  "host_frames q ls = map (line_frame q) (filter (\<lambda>l. line_type q l = MT_HostFrame) ls)"

fun local_frames :: "helper_env \<Rightarrow> exchange list \<Rightarrow> bytes list" where
  "local_frames q [] = []"
| "local_frames q (Wrote l # xs) = local_frames q xs"
| "local_frames q (Heard l # xs) =
     (case decodeLine (ipc q) l of
        Inl e \<Rightarrow> local_frames q xs
      | Inr m \<Rightarrow> if msg_type m = MT_LocalFrame then msg_frame m # local_frames q xs else local_frames q xs)"

text \<open>
  On a conversation with the newest line first: the number of the last configuration, the numbers of the
  READY messages since, and whether every host frame came after a READY for the last configuration.
\<close>

fun last_config :: "helper_env \<Rightarrow> exchange list \<Rightarrow> u32 option" where
  "last_config q [] = None"
| "last_config q (Wrote l # xs) = (if line_type q l = MT_Configure then line_number q l else last_config q xs)"
| "last_config q (Heard l # xs) = last_config q xs"

fun readies :: "helper_env \<Rightarrow> exchange list \<Rightarrow> u32 list" where
  "readies q [] = []"
| "readies q (Wrote l # xs) = (if line_type q l = MT_Configure then [] else readies q xs)"
| "readies q (Heard l # xs) =
     (case decodeLine (ipc q) l of
        Inl e \<Rightarrow> readies q xs
      | Inr m \<Rightarrow> if msg_type m = MT_Ready then msg_sequence m # readies q xs else readies q xs)"

definition told_ready :: "helper_env \<Rightarrow> exchange list \<Rightarrow> bool" where
  "told_ready q xs \<longleftrightarrow> (case last_config q xs of None \<Rightarrow> readies q xs \<noteq> [] | Some n \<Rightarrow> n \<in> set (readies q xs))"

fun frames_answered :: "helper_env \<Rightarrow> exchange list \<Rightarrow> bool" where
  "frames_answered q [] = True"
| "frames_answered q (Wrote l # xs) = (frames_answered q xs \<and> (line_type q l = MT_HostFrame \<longrightarrow> told_ready q xs))"
| "frames_answered q (Heard l # xs) = frames_answered q xs"

lemma wrote_append [simp]: "wrote (xs @ ys) = wrote xs @ wrote ys"
  by (induction xs rule: wrote.induct) simp_all

lemma local_append [simp]: "local_frames q (xs @ ys) = local_frames q xs @ local_frames q ys"
  by (induction q xs rule: local_frames.induct) (simp_all split: sum.split)

lemma host_append [simp]: "host_frames q (xs @ ys) = host_frames q xs @ host_frames q ys"
  by (simp add: host_frames_def)

lemma line_written:
  assumes "faithful_codec (ipc q)"
  shows "line_type q (encodeConfigure (ipc q) n c) = MT_Configure" "line_number q (encodeConfigure (ipc q) n c) = Some n"
    "line_type q (encodeHostFrame (ipc q) n f) = MT_HostFrame" "line_frame q (encodeHostFrame (ipc q) n f) = f"
    "line_type q (encodeStop (ipc q) n) = MT_Stop"
proof -
  have read: "line_object q (encodeObject (ipc q) ms) = Obj (ms @ [(''version'', Num (of_int PROTOCOL_VERSION))])"
    if "list_all (\<lambda>(k, v). wire_json v) ms" for ms
    using assms that by (simp add: line_object_def faithful_codec_def encodeObject_def)
  show "line_type q (encodeConfigure (ipc q) n c) = MT_Configure" "line_number q (encodeConfigure (ipc q) n c) = Some n"
    "line_type q (encodeHostFrame (ipc q) n f) = MT_HostFrame" "line_type q (encodeStop (ipc q) n) = MT_Stop"
    using type_string [of MT_Configure] type_string [of MT_HostFrame] type_string [of MT_Stop]
    by (simp_all add: line_type_def line_number_def encodeConfigure_def encodeHostFrame_def encodeStop_def Let_def
        read baseMessage_def)
  show "line_frame q (encodeHostFrame (ipc q) n f) = f"
    using payload_read [OF assms, of "Obj ((''payload'', Str (to_base64 (ipc q) f)) # baseMessage MT_HostFrame n
      @ [(''version'', Num (of_int PROTOCOL_VERSION))])" "''payload''" f]
    by (simp add: line_frame_def encodeHostFrame_def read baseMessage_def)
qed

section \<open>Limits\<close>

definition within_limits :: "helper_client \<Rightarrow> bool" where
  "within_limits s \<longleftrightarrow> length (m_InboundFrames s) \<le> MAX_QUEUED_HOST_FRAMES
     \<and> length (m_StdinBuffer s) \<le> MAX_PENDING_STDIN_BYTES \<and> m_RestartAttempts s \<le> MAX_RESTART_ATTEMPTS"

lemma push_split: "push_input w taken buf = Some (taken', buf') \<Longrightarrow> taken' @ buf' = taken @ buf"
proof (induction w taken buf rule: push_input.induct)
  case (1 w taken buf)
  then show ?case
    by (subst (asm) (2) push_input.simps) (auto simp: Let_def split: if_splits)
qed

lemma push_shorter: "push_input w taken buf = Some (taken', buf') \<Longrightarrow> length buf' \<le> length buf"
proof (induction w taken buf rule: push_input.induct)
  case (1 w taken buf)
  then show ?case
    by (subst (asm) (2) push_input.simps) (fastforce simp: Let_def split: if_splits)
qed

lemmas helper_atoms = restartHelper_def scheduleRestart_def exited_def with_process_def append_line_def reconfigured_def
  hear_def stopping_def may_start_def fits_def Let_def

interpretation limits: helper_always q within_limits for q
  by unfold_locales
    (auto simp: within_limits_def helper_atoms handleIncomingFrame_def MAX_RESTART_ATTEMPTS_def MAX_QUEUED_HOST_FRAMES_def
      dest: push_shorter)

section \<open>What the pipe carries\<close>

definition as_text :: "bytes list \<Rightarrow> bytes" where
  "as_text ls = concat (map (\<lambda>l. l @ [10]) ls)"

definition on_current :: "(helper_process \<Rightarrow> bool) \<Rightarrow> helper_client \<Rightarrow> bool" where
  "on_current P s \<longleftrightarrow> (case m_Process s of None \<Rightarrow> True | Some p \<Rightarrow> P p)"

definition piped :: "helper_client \<Rightarrow> bool" where
  "piped s \<longleftrightarrow> on_current (\<lambda>p. proc_taken p @ m_StdinBuffer s = as_text (wrote (proc_talk p))) s"

lemma as_text_snoc [simp]: "as_text (ls @ [l]) = as_text ls @ l @ [10]" "as_text [] = []"
  by (simp_all add: as_text_def)

lemmas piped_defs = piped_def on_current_def

interpretation pipe: helper_always q piped for q
proof (unfold_locales, goal_cases)
  case (5 s p w taken buf b)
  then show ?case using push_split [of w "proc_taken p" "m_StdinBuffer s" taken buf] by (simp add: piped_defs with_process_def)
qed (auto simp: piped_defs helper_atoms fresh_process_def handleIncomingFrame_def split: option.splits)

section \<open>Ready first\<close>

definition ready_first :: "helper_env \<Rightarrow> helper_client \<Rightarrow> bool" where
  "ready_first q s \<longleftrightarrow> on_current (\<lambda>p. frames_answered q (rev (proc_talk p))
     \<and> (\<forall>n. last_config q (rev (proc_talk p)) = Some n \<longrightarrow> n = m_ConfigSequence s)
     \<and> (m_HelperReady s \<longrightarrow> m_ConfigSequence s \<in> set (readies q (rev (proc_talk p))))) s"

lemmas ready_defs = ready_first_def on_current_def

lemma dialogue_always: "faithful_codec (ipc q) \<Longrightarrow> helper_always q (ready_first q)"
proof (unfold_locales, goal_cases)
  case (10 f fs s n)
  then show ?case using line_written [OF 10(1)]
    by (auto simp: ready_defs helper_atoms told_ready_def isRunning_def split: option.splits)
qed (auto simp: ready_defs helper_atoms fresh_process_def handleIncomingFrame_def line_written isRunning_def split: option.splits sum.splits)

section \<open>Order\<close>

definition in_order :: "helper_env \<Rightarrow> helper_client \<Rightarrow> bool" where
  "in_order q s \<longleftrightarrow>
     (case m_Process s of
        None \<Rightarrow> subseq (m_InboundFrames s) (from_host s)
      | Some p \<Rightarrow> subseq (host_frames q (wrote (proc_talk p)) @ m_InboundFrames s) (from_host s)
          \<and> (\<exists>before. to_host s = before @ local_frames q (proc_talk p)))"

lemma subseq_tail: "subseq (xs @ ys) zs \<Longrightarrow> subseq ys zs"
  using subseq_order.trans by blast

lemma subseq_head: "subseq (xs @ ys) zs \<Longrightarrow> subseq xs zs"
  using subseq_order.trans subseq_rev_drop_many [of xs xs ys] by blast

lemma subseq_drop_one: "subseq (xs @ ys) zs \<Longrightarrow> subseq (xs @ tl ys) zs"
proof -
  assume "subseq (xs @ ys) zs"
  moreover have "subseq (xs @ tl ys) (xs @ ys)" by (cases ys) (auto simp: subseq_append' intro: list_emb_Cons)
  ultimately show ?thesis using subseq_order.trans by blast
qed

lemma order_queue: "in_order q s \<Longrightarrow> in_order q (handleIncomingFrame f s)"
  using subseq_drop_one [of "[]" "m_InboundFrames s" "from_host s"]
  by (auto simp: in_order_def handleIncomingFrame_def Let_def intro!: list_emb_append_mono subseq_drop_one
      simp flip: append_assoc split: option.splits)

lemma order_always: "faithful_codec (ipc q) \<Longrightarrow> helper_always q (in_order q)"
proof (unfold_locales, goal_cases)
  case (17 s f)
  show ?case by (rule order_queue [OF 17(2)])
qed (auto simp: in_order_def helper_atoms fresh_process_def line_written host_frames_def isRunning_def
    dest: subseq_tail subseq_head split: option.splits sum.splits)

section \<open>Restarts\<close>

definition started_at_most :: "nat \<Rightarrow> helper_client \<Rightarrow> bool" where
  "started_at_most n s \<longleftrightarrow> launched s \<le> 4 * n \<and> m_RestartAttempts s \<le> MAX_RESTART_ATTEMPTS
     \<and> (m_Enabled s \<longrightarrow> \<not> m_StopRequested s \<and> launched s + 3 \<le> 4 * n + m_RestartAttempts s
         \<and> (may_start s \<longrightarrow> launched s + 4 \<le> 4 * n + m_RestartAttempts s))"

interpretation starts: helper_invariant q "started_at_most n" for q n
  by unfold_locales
    (auto simp: started_at_most_def helper_atoms handleIncomingFrame_def MAX_RESTART_ATTEMPTS_def isRunning_def)

fun is_start :: "helper_event \<Rightarrow> bool" where
  "is_start (Helper_start now) = True"
| "is_start _ = False"

lemma start_counted:
  assumes "started_at_most n s" and "helper_step q s (Helper_start now) = Some s'"
  shows "started_at_most (n + 1) s'"
proof (cases "m_Enabled s")
  case True
  then show ?thesis using assms by (auto simp: helper_step_def helper_start_def started_at_most_def)
next
  case False
  let ?s = "s\<lparr>m_Enabled := True, m_Disabled := False, m_StopRequested := False, m_RestartAttempts := 0,
    m_NextRestartTicks := 0, m_HelperPath := helper_path q\<rparr>"
  have "started_at_most (n + 1) ?s" using assms(1) by (simp add: started_at_most_def)
  moreover from this have "started_at_most (n + 1) (?s\<lparr>m_Disabled := True\<rparr>)"
    by (simp add: started_at_most_def may_start_def)
  ultimately show ?thesis
    using assms(2) False starts.start_process [of "n + 1" ?s]
    by (auto simp: helper_step_def helper_start_def Let_def split: if_splits)
qed

lemma starts_counted:
  "started_at_most n s \<Longrightarrow> helper_run q s es = Some s' \<Longrightarrow> started_at_most (n + length (filter is_start es)) s'"
proof (induction es arbitrary: n s)
  case (Cons e es)
  then obtain t where t: "helper_step q s e = Some t" "helper_run q t es = Some s'" by (auto split: option.splits)
  show ?case
  proof (cases "is_start e")
    case True
    then obtain now where "e = Helper_start now" by (cases e) simp_all
    then show ?thesis using Cons.IH [OF start_counted [OF Cons.prems(1)] t(2)] t(1) True by simp
  next
    case False
    then have "started_at_most n t" by (intro starts.steps [OF Cons.prems(1) t(1)]) auto
    then show ?thesis using Cons.IH [OF _ t(2)] False by simp
  qed
qed simp

section \<open>The last words of a helper\<close>

fun complete_lines :: "bytes \<Rightarrow> bytes list" where
  "complete_lines [] = []"
| "complete_lines (b # bs) =
     (if b = 10 then [] # complete_lines bs
      else case complete_lines bs of [] \<Rightarrow> [] | l # ls \<Rightarrow> (b # l) # ls)"

lemma no_line: "10 \<notin> set buf \<Longrightarrow> complete_lines buf = []"
  by (induction buf) auto

lemma first_line: "10 \<in> set buf \<Longrightarrow>
    complete_lines buf = takeWhile (\<lambda>b. b \<noteq> 10) buf # complete_lines (drop (length (takeWhile (\<lambda>b. b \<noteq> 10) buf) + 1) buf)"
  by (induction buf) auto

definition readable :: "helper_env \<Rightarrow> bytes \<Rightarrow> bool" where
  "readable q buf \<longleftrightarrow> (\<forall>l \<in> set (complete_lines buf). \<not> isl (decodeLine (ipc q) (chop_cr l)))"

lemma line_ends: "m_Process (processProtocolLine q now line s) = None \<longleftrightarrow>
    m_Process s = None \<or> isl (decodeLine (ipc q) line)"
  by (auto simp: processProtocolLine_def Let_def hear_def restartHelper_def scheduleRestart_def
      split: sum.split message_type.split)

lemma line_keeps_buffer: "\<not> isl (decodeLine (ipc q) line) \<Longrightarrow>
    m_StdoutBuffer (processProtocolLine q now line s) = m_StdoutBuffer s"
  by (auto simp: processProtocolLine_def Let_def hear_def split: sum.split message_type.split)

lemma lines_end:
  assumes "m_Process s \<noteq> None"
  shows "m_Process (read_lines q now s) = None \<longleftrightarrow> \<not> readable q (m_StdoutBuffer s)"
  using assms
proof (induction "length (m_StdoutBuffer s)" arbitrary: s rule: less_induct)
  case less
  show ?case
  proof (cases "10 \<in> set (m_StdoutBuffer s)")
    case False
    then show ?thesis
      using less.prems by (subst read_lines.simps) (simp add: readable_def no_line)
  next
    case True
    let ?line = "takeWhile (\<lambda>b. b \<noteq> 10) (m_StdoutBuffer s)"
    let ?rest = "drop (length ?line + 1) (m_StdoutBuffer s)"
    let ?s = "s\<lparr>m_StdoutBuffer := ?rest\<rparr>"
    let ?t = "processProtocolLine q now (chop_cr ?line) ?s"
    have go: "read_lines q now s = read_lines q now ?t" using True by (subst read_lines.simps) (simp add: Let_def)
    have r: "readable q (m_StdoutBuffer s) \<longleftrightarrow> \<not> isl (decodeLine (ipc q) (chop_cr ?line)) \<and> readable q ?rest"
      unfolding readable_def first_line [OF True] by auto
    show ?thesis
    proof (cases "isl (decodeLine (ipc q) (chop_cr ?line))")
      case True
      then have "m_Process ?t = None" "m_StdoutBuffer ?t = []"
        using line_ends limits.gone_buffer [of ?s q now "chop_cr ?line"] less.prems by auto
      then have "m_Process (read_lines q now ?t) = None" by (subst read_lines.simps) simp
      then show ?thesis using go r True by simp
    next
      case False
      have "length ?rest < length (m_StdoutBuffer s)" using True by (cases "m_StdoutBuffer s") auto
      then show ?thesis
        using less.hyps [of ?t] line_ends [of q now "chop_cr ?line" ?s] line_keeps_buffer [OF False, of now ?s] less.prems go r False
        by simp
    qed
  qed
qed

section \<open>Properties\<close>

lemma new_invariants:
  "within_limits (new_helper_client c)" "piped (new_helper_client c)" "ready_first q (new_helper_client c)" "in_order q (new_helper_client c)"
  "started_at_most 0 (new_helper_client c)"
  by (simp_all add: new_helper_client_def within_limits_def piped_defs ready_defs in_order_def started_at_most_def)

text \<open>
  However the helper, its pipe and the host behave, at most 32 frames wait for the helper, at most 4 MiB
  wait to be written to it, and what its standard input has taken followed by what waits are the lines
  written to it, each with its end of line.
\<close>
theorem helper_limits:
  assumes "helper_run q (new_helper_client c) es = Some s"
  shows "length (m_InboundFrames s) \<le> 32 \<and> length (m_StdinBuffer s) \<le> 4194304
    \<and> (\<forall>p. m_Process s = Some p \<longrightarrow> proc_taken p @ m_StdinBuffer s = as_text (wrote (proc_talk p)))"
proof -
  have "within_limits s" by (rule limits.every_run [OF new_invariants(1) assms])
  moreover have "piped s" by (rule pipe.every_run [OF new_invariants(2) assms])
  ultimately show ?thesis
    by (auto simp: within_limits_def piped_defs MAX_QUEUED_HOST_FRAMES_def MAX_PENDING_STDIN_BYTES_def split: option.splits)
qed

text \<open>
  C15: A frame from the host is written to the helper only after the helper has said READY since the last
  configuration written to it, and for that configuration; the frames written to a helper and those that
  wait are frames the host has sent, in the order in which they came, none of them twice; and the frames
  of the running helper are the last ones given to the host, in their order.
\<close>
theorem frames_after_ready:
  assumes "faithful_codec (ipc q)" and "helper_run q (new_helper_client c) es = Some s" and "m_Process s = Some p"
  shows "frames_answered q (rev (proc_talk p)) \<and> subseq (host_frames q (wrote (proc_talk p)) @ m_InboundFrames s) (from_host s)
    \<and> (\<exists>before. to_host s = before @ local_frames q (proc_talk p))"
proof -
  have "ready_first q s" by (rule helper_always.every_run [OF dialogue_always [OF assms(1)] new_invariants(3) assms(2)])
  moreover have "in_order q s" by (rule helper_always.every_run [OF order_always [OF assms(1)] new_invariants(4) assms(2)])
  ultimately show ?thesis using assms(3) by (simp add: ready_defs in_order_def)
qed

text \<open>
  A helper that keeps failing does not keep being started: each call of \<open>start\<close> leads to four attempts to
  start a process at most, the first one and three restarts.
\<close>
theorem restarts_bounded:
  assumes "helper_run q (new_helper_client c) es = Some s"
  shows "launched s \<le> 4 * length (filter is_start es)"
  using starts_counted [OF new_invariants(5) assms] by (simp add: started_at_most_def)

text \<open>
  Once stopped, and until it is started again, the client has no helper process, starts none, and gives
  nothing to the host, whatever happens; nor does it crash.
\<close>
theorem nothing_after_stop:
  assumes "\<not> list_ex is_start es"
  shows "\<exists>s'. helper_run q (helper_stop q now s) es = Some s' \<and> m_Process s' = None
    \<and> launched s' = launched s \<and> to_host s' = to_host s"
proof -
  let ?off = "\<lambda>t. m_Process t = None \<and> \<not> m_Enabled t \<and> launched t = launched s \<and> to_host t = to_host s"
  have step: "\<exists>t'. helper_step q t e = Some t' \<and> ?off t'" if "?off t" "\<not> is_start e" for t e
    using that
    by (cases e) (simp_all add: helper_step_def helper_stop_def isRunning_def updateHostContext_def on_process_def
        handleIncomingFrame_def processPendingMessages_def maybeRestart_def Let_def)
  have off: "\<exists>s'. helper_run q t es = Some s' \<and> ?off s'" if "?off t" for t
    using that assms
  proof (induction es arbitrary: t)
    case (Cons e es)
    then obtain t' where "helper_step q t e = Some t'" "?off t'" using step by force
    then show ?case using Cons.IH [of t'] Cons.prems(2) by simp
  qed simp
  have kept: "launched (restartHelper now t) = launched t" "to_host (restartHelper now t) = to_host t"
    "launched (snd (flushProcessInput q now t)) = launched t" "to_host (snd (flushProcessInput q now t)) = to_host t"
    "m_Enabled (snd (flushProcessInput q now t)) = m_Enabled t" for t
    by (auto simp: flushProcessInput_def restartHelper_def scheduleRestart_def Let_def split: option.split)
  have "?off (helper_stop q now s)"
    by (auto simp: helper_stop_def Let_def nextSequence_def writeLine_def append_line_def kept isRunning_def split: option.split)
      (simp_all add: restartHelper_def scheduleRestart_def)
  from off [OF this] show ?thesis by blast
qed

text \<open>
  C40: When the helper has exited and its last output contains a line that is not a message, or is too long,
  the next poll uses a null pointer; otherwise it does not.
\<close>
theorem exit_after_bad_line:
  assumes "m_Process s = Some p" and "\<not> proc_running p" and "buf = m_StdoutBuffer s @ proc_output p"
  shows "processPendingMessages q now s = None \<longleftrightarrow>
    MAX_LINE_BYTES < length buf \<or> (\<exists>l \<in> set (complete_lines buf). isl (decodeLine (ipc q) (chop_cr l)))"
proof -
  let ?s = "s\<lparr>m_StdoutBuffer := buf, m_Process := Some (p\<lparr>proc_output := []\<rparr>)\<rparr>"
  have "m_Process (read_lines q now ?s) = None \<longleftrightarrow> \<not> readable q buf" using lines_end [of ?s q now] by simp
  then have "m_Process (readHelperOutput q now s) = None \<longleftrightarrow> MAX_LINE_BYTES < length buf \<or> \<not> readable q buf"
    using assms by (simp add: readHelperOutput_def Let_def restartHelper_def scheduleRestart_def)
  then show ?thesis using assms(1,2) by (simp add: processPendingMessages_def Let_def readable_def)
qed

section \<open>A concrete run\<close>

text \<open>A pipe that takes everything, and a helper that is started, says READY, and is sent a frame.\<close>

definition plain_helper :: helper_env where
  "plain_helper = \<lparr>ipc = prefix_codec, pipe_write = (\<lambda>taken buf. int (length buf)), dies_after = (\<lambda>taken. False),
     launches = (\<lambda>n. True), helper_path = ''helper''\<rparr>"

definition sample_config :: host_config where
  "sample_config = \<lparr>cfg_address = ''h'', cfg_httpsPort = 1, serverCertPem = [1], clientCertPem = [2], clientKeyPem = [3]\<rparr>"

abbreviation sample_talk :: "exchange list" where
  "sample_talk \<equiv> [Wrote (encodeConfigure prefix_codec 1 sample_config), Heard (encodeReady prefix_codec 1),
     Wrote (encodeHostFrame prefix_codec 2 [7])]"

abbreviation sample_events :: "helper_event list" where
  "sample_events \<equiv> [Helper_start 0, Helper_says (encodeReady prefix_codec 1 @ [10]), Host_says [7], Poll 1]"

lemma all_taken: "push_input (\<lambda>taken buf. int (length buf)) taken buf = Some (taken @ buf, [])"
  by (subst push_input.simps) (simp add: push_input.simps)

lemma chop_same: "13 \<notin> set l \<Longrightarrow> chop_cr l = l"
proof -
  assume "13 \<notin> set l"
  moreover have "dropWhile (\<lambda>b. b = 13) xs = xs" if "13 \<notin> set xs" for xs :: bytes using that by (cases xs) auto
  ultimately show ?thesis by (simp add: chop_cr_def)
qed

lemma sample_lengths:
  "length (encodeConfigure prefix_codec 1 sample_config) \<le> 1000" "length (encodeReady prefix_codec 1) \<le> 1000"
  "length (encodeHostFrame prefix_codec 2 [7]) \<le> 1000"
  by (simp_all add: encodeConfigure_def encodeReady_def encodeHostFrame_def encodeObject_def baseMessage_def prefix_codec_def
      put_str_def put_nat_def PROTOCOL_VERSION_def letters_length sample_config_def)

lemma sample_start:
  "\<exists>p. helper_step plain_helper (new_helper_client sample_config) (Helper_start 0) =
     Some ((new_helper_client sample_config)\<lparr>m_Enabled := True, m_HelperPath := ''helper'', launched := 1, m_ConfigSequence := 1,
       m_NextSequence := 2, m_Process := Some p\<rparr>)
   \<and> proc_running p \<and> proc_talk p = [Wrote (encodeConfigure prefix_codec 1 sample_config)] \<and> proc_output p = []"
  using sample_lengths(1)
  by (simp add: helper_step_def helper_start_def startProcess_def sendCurrentConfig_def complete_config_def nextSequence_def
      writeLine_def isRunning_def flushProcessInput_def append_line_def all_taken fresh_process_def new_helper_client_def
      MAX_PENDING_STDIN_BYTES_def plain_helper_def Let_def) (simp add: sample_config_def)

lemma sample_run:
  "\<exists>s p. helper_run plain_helper (new_helper_client sample_config) sample_events = Some s \<and> m_Process s = Some p
     \<and> proc_talk p = sample_talk \<and> m_StdinBuffer s = [] \<and> m_InboundFrames s = []"
proof -
  let ?c = "\<lambda>p. (new_helper_client sample_config)\<lparr>m_Enabled := True, m_HelperPath := ''helper'', launched := 1,
    m_ConfigSequence := 1, m_NextSequence := 2, m_Process := Some p\<rparr>"
  let ?r = "encodeReady prefix_codec 1"
  obtain p where p: "helper_step plain_helper (new_helper_client sample_config) (Helper_start 0) = Some (?c p)"
    "proc_running p" "proc_talk p = [Wrote (encodeConfigure prefix_codec 1 sample_config)]" "proc_output p = []"
    using sample_start by blast
  have r: "decodeLine prefix_codec ?r = Inr (no_message\<lparr>msg_type := MT_Ready, msg_sequence := 1\<rparr>)"
    using decode_plain(1) [OF prefix_faithful, of 1] sample_lengths(2) by (simp add: MAX_LINE_BYTES_def)
  have ends: "10 \<notin> set ?r" "13 \<notin> set ?r" using prefix_one_line by (simp_all add: one_line_def encodeReady_def encodeObject_def)
  then have line: "takeWhile (\<lambda>b. b \<noteq> 10) (?r @ [10]) = ?r" "chop_cr ?r = ?r"
    by (auto simp: takeWhile_append chop_same)
  have flush: "flushProcessInput plain_helper now s = (True, s)" if "m_Process s = Some p'" "proc_running p'" "m_StdinBuffer s = []"
    for now s p'
    using that by (cases s; cases p') (simp add: flushProcessInput_def plain_helper_def all_taken)
  let ?s = "(?c p)\<lparr>from_host := [[7]], m_InboundFrames := [[7]], m_Process := Some (p\<lparr>proc_output := ?r @ [10]\<rparr>)\<rparr>"
  let ?t = "(?c p)\<lparr>from_host := [[7]], m_InboundFrames := [[7]],
    m_Process := Some (p\<lparr>proc_output := [], proc_talk := proc_talk p @ [Heard ?r]\<rparr>), m_HelperReady := True\<rparr>"
  have "helper_run plain_helper (new_helper_client sample_config) sample_events = processPendingMessages plain_helper 1 ?s"
    using p by (simp add: helper_step_def on_process_def handleIncomingFrame_def new_helper_client_def MAX_QUEUED_HOST_FRAMES_def
        split: option.split)
  also have "processPendingMessages plain_helper 1 ?s = Some (flushQueuedHostFrames plain_helper 1 ?t)"
  proof -
    let ?u = "(?c p)\<lparr>from_host := [[7]], m_InboundFrames := [[7]], m_StdoutBuffer := ?r @ [10],
      m_Process := Some (p\<lparr>proc_output := []\<rparr>)\<rparr>"
    have "read_lines plain_helper 1 ?t = ?t" by (subst read_lines.simps) (simp add: new_helper_client_def)
    moreover have "read_lines plain_helper 1 ?u = read_lines plain_helper 1 ?t"
      using r line ends by (subst read_lines.simps) (simp add: Let_def processProtocolLine_def hear_def new_helper_client_def plain_helper_def)
    moreover have "readHelperOutput plain_helper 1 ?s = read_lines plain_helper 1 ?u"
      using sample_lengths(2) by (simp add: readHelperOutput_def new_helper_client_def MAX_LINE_BYTES_def)
    ultimately show ?thesis
      using flush [of ?s "p\<lparr>proc_output := ?r @ [10]\<rparr>" 1] p(2) by (simp add: processPendingMessages_def new_helper_client_def)
  qed
  finally show ?thesis
    using p(2,3) sample_lengths(3)
    by (simp add: flushQueuedHostFrames_def nextSequence_def writeLine_def isRunning_def append_line_def flushProcessInput_def
        all_taken MAX_PENDING_STDIN_BYTES_def Let_def plain_helper_def new_helper_client_def)
qed

lemma helper_limits_witness:
  "\<exists>s. helper_run plain_helper (new_helper_client sample_config) sample_events = Some s
     \<and> length (m_InboundFrames s) \<le> 32 \<and> length (m_StdinBuffer s) \<le> 4194304"
proof -
  obtain s where s: "helper_run plain_helper (new_helper_client sample_config) sample_events = Some s" using sample_run by blast
  from helper_limits [OF s] s show ?thesis by blast
qed

lemma frames_after_ready_witness:
  "\<exists>s p. helper_run plain_helper (new_helper_client sample_config) sample_events = Some s \<and> m_Process s = Some p
     \<and> proc_talk p = sample_talk \<and> frames_answered plain_helper (rev (proc_talk p))"
proof -
  obtain s p where s: "helper_run plain_helper (new_helper_client sample_config) sample_events = Some s" "m_Process s = Some p"
    "proc_talk p = sample_talk" using sample_run by blast
  have "faithful_codec (ipc plain_helper)" using prefix_faithful by (simp add: plain_helper_def)
  from frames_after_ready [OF this s(1,2)] s show ?thesis by blast
qed

lemma restarts_bounded_witness:
  "\<exists>s. helper_run plain_helper (new_helper_client sample_config) sample_events = Some s \<and> launched s \<le> 4"
proof -
  obtain s where s: "helper_run plain_helper (new_helper_client sample_config) sample_events = Some s" using sample_run by blast
  from restarts_bounded [OF s] s show ?thesis by simp
qed

lemma nothing_after_stop_witness:
  "\<exists>s'. helper_run plain_helper (helper_stop plain_helper 5 (new_helper_client sample_config)) [Poll 6, Host_says [1], Helper_says [10]] = Some s'
     \<and> m_Process s' = None \<and> launched s' = 0"
proof -
  have "launched (new_helper_client sample_config) = 0" by (simp add: new_helper_client_def)
  then show ?thesis
    using nothing_after_stop [of "[Poll 6, Host_says [1], Helper_says [10]]" plain_helper 5 "new_helper_client sample_config"]
    by (fastforce simp del: helper_run.simps)
qed

lemma exit_after_bad_line_witness:
  "processPendingMessages plain_helper 9 ((new_helper_client sample_config)\<lparr>m_Process := Some (fresh_process\<lparr>proc_running := False,
     proc_output := [65, 10]\<rparr>)\<rparr>) = None"
proof -
  have "isl (decodeLine prefix_codec [65])" by (simp add: decodeLine_def prefix_codec_def MAX_LINE_BYTES_def)
  then show ?thesis
    by (subst exit_after_bad_line [where p = "fresh_process\<lparr>proc_running := False, proc_output := [65, 10]\<rparr>" and buf = "[65, 10]"])
      (simp_all add: new_helper_client_def fresh_process_def plain_helper_def chop_cr_def)
qed

end
