(* ===== verification/ClipboardHelperMain.thy ===== *)
theory ClipboardHelperMain
  imports ClipboardHelperRun ClipboardSync
begin

text \<open>
  The helper process (\<open>clipboard-helper/main.cpp\<close>): the lines it reads, the clipboard engine it runs
  (\<open>ClipboardSync\<close>) and the lines it writes; and the two ends together, with the client of
  \<open>ClipboardHelper\<close>.
\<close>

section \<open>The helper process\<close>

text \<open>
  Whether the certificates and the key of a configuration can be read, whether the URL of the blobs is valid,
  and whether a line that is written is taken whole.
\<close>

record main_env =
  main_ipc :: ipc_codec
  keys_readable :: "host_config \<Rightarrow> bool"
  url_valid :: "host_config \<Rightarrow> bool"
  stdout_takes :: "bytes \<Rightarrow> bool"

text \<open>
  \<open>queued_frames\<close> are the calls of \<open>onIncomingFrame\<close> that wait in the queue of events, \<open>given\<close> the frames
  the engine was called with.
\<close>

record helper_main =
  m_ClipboardEngine :: "clipboard_sync option"
  queued_frames :: "bytes list"
  given :: "bytes list"
  local_sequence :: u32
  said :: "bytes list"
  quitting :: bool
  desk_clipboard :: mime

definition new_main :: "mime \<Rightarrow> helper_main" where
  "new_main m = \<lparr>m_ClipboardEngine = None, queued_frames = [], given = [], local_sequence = 1, said = [], quitting = False,
     desk_clipboard = m\<rparr>"

text \<open>The lines the reading thread hands over: one carriage return at the end is dropped; then a stop.\<close>

definition pop_cr :: "bytes \<Rightarrow> bytes" where
  "pop_cr l = (if l \<noteq> [] \<and> last l = 13 then butlast l else l)"

definition reader_lines :: "ipc_codec \<Rightarrow> bytes \<Rightarrow> bytes list" where
  "reader_lines q input =
     (let ls = complete_lines input; rest = drop (length (as_text ls)) input
      in map pop_cr (ls @ (if rest = [] then [] else [rest])) @ [encodeStop q 0])"

definition writeProtocolLine :: "main_env \<Rightarrow> bytes \<Rightarrow> helper_main \<Rightarrow> helper_main" where
  "writeProtocolLine q line h =
     (if stdout_takes q (line @ [10]) then h\<lparr>said := said h @ [line]\<rparr> else h\<lparr>quitting := True\<rparr>)"

definition handleConfig :: "main_env \<Rightarrow> u32 \<Rightarrow> host_config \<Rightarrow> helper_main \<Rightarrow> helper_main" where
  "handleConfig q n c h =
     (if \<not> complete_config c then
        writeProtocolLine q (encodeError (main_ipc q) n ''bad-config'' ''missing host address, port, or certificate data'') h
      else if \<not> keys_readable q c then
        writeProtocolLine q (encodeError (main_ipc q) n ''bad-config'' ''certificate or private key data is unreadable'') h
      else writeProtocolLine q (encodeReady (main_ipc q) n)
        (case m_ClipboardEngine h of
           None \<Rightarrow> h\<lparr>m_ClipboardEngine := Some (sync_start (new_sync (url_valid q c) (desk_clipboard h)))\<rparr>
         | Some e \<Rightarrow> h\<lparr>m_ClipboardEngine := Some (e\<lparr>host_known := url_valid q c\<rparr>)\<rparr>))"

definition handleLine :: "main_env \<Rightarrow> bytes \<Rightarrow> helper_main \<Rightarrow> helper_main" where
  "handleLine q line h =
     (case decodeLine (main_ipc q) line of
        Inl e \<Rightarrow> writeProtocolLine q (encodeError (main_ipc q) 0 ''bad-message'' e) h
      | Inr m \<Rightarrow>
          if msg_type m = MT_Stop then h\<lparr>quitting := True\<rparr>
          else if msg_type m = MT_Configure then handleConfig q (msg_sequence m) (msg_config m) h
          else if msg_type m = MT_HostFrame then
            (if m_ClipboardEngine h = None then
               writeProtocolLine q (encodeError (main_ipc q) (msg_sequence m) ''not-ready'' ''clipboard sync is not configured'') h
             else if msg_frame m = [] then h
             else h\<lparr>queued_frames := queued_frames h @ [msg_frame m]\<rparr>)
          else writeProtocolLine q
            (encodeError (main_ipc q) (msg_sequence m) ''unexpected-message'' ''message type is not valid for helper input'') h)"

definition sendLocalFrame :: "main_env \<Rightarrow> bytes \<Rightarrow> helper_main \<Rightarrow> helper_main" where
  "sendLocalFrame q f h =
     writeProtocolLine q (encodeLocalFrame (main_ipc q) (local_sequence h) f) (h\<lparr>local_sequence := local_sequence h + 1\<rparr>)"

text \<open>A step of the engine, whose outbound frames are sent on as they come; and the next queued frame.\<close>

definition engine_step :: "main_env \<Rightarrow> clip_env \<Rightarrow> clip_event \<Rightarrow> helper_main \<Rightarrow> helper_main" where
  "engine_step q c e h =
     (case m_ClipboardEngine h of
        None \<Rightarrow> h
      | Some s \<Rightarrow>
          let s' = clip_step c s e in
          fold (sendLocalFrame q) (drop (length (outbound s)) (outbound s')) (h\<lparr>m_ClipboardEngine := Some s'\<rparr>))"

definition deliver_frame :: "main_env \<Rightarrow> clip_env \<Rightarrow> int \<Rightarrow> helper_main \<Rightarrow> helper_main" where
  "deliver_frame q c now h =
     (case queued_frames h of
        [] \<Rightarrow> h
      | f # fs \<Rightarrow> engine_step q c (Frame_arrives f now) (h\<lparr>queued_frames := fs, given := given h @ [f]\<rparr>))"

text \<open>
  The event loop: a line that was read, something the engine is told by the desktop, the network or a timer,
  and the next queued frame, in any order. After \<open>quit\<close> nothing more is handled.
\<close>

datatype main_event =
    Line_read bytes
  | Engine_event clip_env clip_event
  | Frame_delivered clip_env int

definition main_step :: "main_env \<Rightarrow> helper_main \<Rightarrow> main_event \<Rightarrow> helper_main" where
  "main_step q h e =
     (if quitting h then h
      else case e of
        Line_read l \<Rightarrow> handleLine q l h
      | Engine_event c ev \<Rightarrow> (case ev of Frame_arrives _ _ \<Rightarrow> h | _ \<Rightarrow> engine_step q c ev h)
      | Frame_delivered c now \<Rightarrow> deliver_frame q c now h)"

definition main_run :: "main_env \<Rightarrow> main_event list \<Rightarrow> helper_main \<Rightarrow> helper_main" where
  "main_run q es h = foldl (main_step q) h es"

section \<open>Both ends\<close>

fun lines_read :: "main_event list \<Rightarrow> bytes list" where
  "lines_read [] = []"
| "lines_read (e # es) = (case e of Line_read l \<Rightarrow> l # lines_read es | _ \<Rightarrow> lines_read es)"

text \<open>
  Every READY that the client hears, the helper has said at a moment of its run when it had read no more
  than the client had written by then. Nothing is asked of other lines.
\<close>

definition honest_helper :: "main_env \<Rightarrow> mime \<Rightarrow> main_event list \<Rightarrow> exchange list \<Rightarrow> bool" where
  "honest_helper q m es talk \<longleftrightarrow> (\<forall>i < length talk. \<forall>l k. talk ! i = Heard l \<longrightarrow> decodeLine (main_ipc q) l = Inr k
     \<longrightarrow> msg_type k = MT_Ready \<longrightarrow> (\<exists>n \<le> length es. prefix (lines_read (take n es)) (wrote (take i talk))
        \<and> l \<in> set (said (main_run q (take n es) (new_main m)))))"

text \<open>The lines a client writes, and that its frames are not empty.\<close>

definition client_line :: "ipc_codec \<Rightarrow> bytes \<Rightarrow> bool" where
  "client_line q l \<longleftrightarrow> (\<exists>n c. l = encodeConfigure q n c) \<or> (\<exists>n f. f \<noteq> [] \<and> l = encodeHostFrame q n f)
     \<or> (\<exists>n. l = encodeStop q n)"

definition client_lines :: "helper_env \<Rightarrow> helper_client \<Rightarrow> bool" where
  "client_lines q s \<longleftrightarrow> list_all (\<lambda>f. f \<noteq> []) (m_InboundFrames s)
     \<and> on_current (\<lambda>p. list_all (client_line (ipc q)) (wrote (proc_talk p))) s"

lemmas lines_defs = client_lines_def on_current_def

lemma tail_all: "list_all P xs \<Longrightarrow> list_all P (tl xs)"
  by (cases xs) simp_all

interpretation lines: helper_always q "client_lines q" for q
  by unfold_locales
    (auto simp: lines_defs helper_atoms fresh_process_def handleIncomingFrame_def client_line_def tail_all split: option.splits)

lemma one_line_lines:
  assumes "one_line q" and "client_line q l"
  shows "10 \<notin> set l" and "13 \<notin> set l"
  using assms by (auto simp: one_line_def client_line_def encodeConfigure_def encodeHostFrame_def encodeStop_def
      encodeObject_def Let_def)

lemma complete_append: "10 \<notin> set l \<Longrightarrow> complete_lines (l @ 10 # r) = l # complete_lines r"
  by (induction l) auto

lemma text_lines: "\<forall>l \<in> set ls. 10 \<notin> set l \<Longrightarrow> complete_lines (as_text ls) = ls"
  by (induction ls) (simp_all add: as_text_def complete_append)

lemma read_back:
  assumes "one_line q" and "list_all (client_line q) ls"
  shows "reader_lines q (as_text ls) = ls @ [encodeStop q 0]"
proof -
  have "complete_lines (as_text ls) = ls"
    by (rule text_lines) (use one_line_lines(1) [OF assms(1)] assms(2) in \<open>auto simp: list_all_iff\<close>)
  moreover have "pop_cr l = l" if "l \<in> set ls" for l
    using one_line_lines(2) [OF assms(1), of l] assms(2) that by (auto simp: pop_cr_def list_all_iff dest: last_in_set)
  then have "map pop_cr ls = ls" by (simp add: map_idI)
  ultimately show ?thesis by (simp add: reader_lines_def)
qed

text \<open>The code of an error, and what a line does to the helper.\<close>

definition line_code :: "helper_env \<Rightarrow> bytes \<Rightarrow> string" where
  "line_code q l = to_str (json_value (line_object q l) ''code'')"

definition engine_on :: "helper_main \<Rightarrow> bool" where
  "engine_on h \<longleftrightarrow> m_ClipboardEngine h \<noteq> None"

definition well_said :: "helper_env \<Rightarrow> helper_main \<Rightarrow> bool" where
  "well_said q h \<longleftrightarrow> (\<forall>l \<in> set (said h). line_code q l \<noteq> ''not-ready'')"

definition ready_engine :: "helper_env \<Rightarrow> helper_main \<Rightarrow> bool" where
  "ready_engine q h \<longleftrightarrow> (\<forall>l \<in> set (said h). line_type q l = MT_Ready \<longrightarrow> engine_on h)"

lemma said_lines:
  assumes "faithful_codec (ipc q)"
  shows "line_code q (encodeError (ipc q) n code t) = code" "line_type q (encodeError (ipc q) n code t) = MT_Error"
    "line_code q (encodeReady (ipc q) n) = []" "line_code q (encodeLocalFrame (ipc q) n f) = []"
    "line_type q (encodeLocalFrame (ipc q) n f) = MT_LocalFrame"
proof -
  have read: "line_object q (encodeObject (ipc q) ms) = Obj (ms @ [(''version'', Num (of_int PROTOCOL_VERSION))])"
    if "list_all (\<lambda>(k, v). wire_json v) ms" for ms
    using assms that by (simp add: line_object_def faithful_codec_def encodeObject_def)
  then show "line_code q (encodeError (ipc q) n code t) = code" "line_type q (encodeError (ipc q) n code t) = MT_Error"
    "line_code q (encodeReady (ipc q) n) = []" "line_code q (encodeLocalFrame (ipc q) n f) = []"
    "line_type q (encodeLocalFrame (ipc q) n f) = MT_LocalFrame"
    using type_string [of MT_Error] type_string [of MT_LocalFrame]
    by (simp_all add: line_code_def line_type_def encodeError_def encodeReady_def encodeLocalFrame_def read baseMessage_def)
qed

lemma config_handled:
  assumes "faithful_codec (ipc q)" and "main_ipc r = ipc q"
  shows "queued_frames (handleConfig r n c h) = queued_frames h" and "given (handleConfig r n c h) = given h"
    and "engine_on h \<Longrightarrow> engine_on (handleConfig r n c h)" and "well_said q h \<Longrightarrow> well_said q (handleConfig r n c h)"
    and "ready_engine q h \<Longrightarrow> ready_engine q (handleConfig r n c h)"
  using assms
  by (auto simp: handleConfig_def writeProtocolLine_def engine_on_def well_said_def ready_engine_def said_lines split: option.split)

text \<open>Frames of the engine sent on, and what else the loop does.\<close>

lemma frame_sent:
  assumes "faithful_codec (ipc q)" and "main_ipc r = ipc q"
  shows "queued_frames (sendLocalFrame r f h) = queued_frames h" "given (sendLocalFrame r f h) = given h"
    "m_ClipboardEngine (sendLocalFrame r f h) = m_ClipboardEngine h"
    and "well_said q h \<Longrightarrow> well_said q (sendLocalFrame r f h)"
    and "ready_engine q h \<Longrightarrow> ready_engine q (sendLocalFrame r f h)"
  using said_lines(4,5) [OF assms(1)] assms(2)
  by (simp_all add: sendLocalFrame_def writeProtocolLine_def well_said_def ready_engine_def engine_on_def)

lemma frames_sent:
  assumes "faithful_codec (ipc q)" and "main_ipc r = ipc q" and "t = fold (sendLocalFrame r) fs h"
  shows "queued_frames t = queued_frames h" "given t = given h" "m_ClipboardEngine t = m_ClipboardEngine h"
    and "well_said q h \<Longrightarrow> well_said q t" and "ready_engine q h \<Longrightarrow> ready_engine q t"
proof -
  have "queued_frames t = queued_frames h \<and> given t = given h \<and> m_ClipboardEngine t = m_ClipboardEngine h
      \<and> (well_said q h \<longrightarrow> well_said q t) \<and> (ready_engine q h \<longrightarrow> ready_engine q t)"
    using assms(3)
  proof (induction fs arbitrary: h)
    case (Cons f fs)
    have "t = fold (sendLocalFrame r) fs (sendLocalFrame r f h)" using Cons.prems by simp
    from Cons.IH [OF this] show ?case using frame_sent [OF assms(1,2), where f = f and h = h] by auto
  qed simp
  then show "queued_frames t = queued_frames h" "given t = given h" "m_ClipboardEngine t = m_ClipboardEngine h"
    "well_said q h \<Longrightarrow> well_said q t" "ready_engine q h \<Longrightarrow> ready_engine q t" by blast+
qed

lemma engine_stepped:
  assumes "faithful_codec (ipc q)" and "main_ipc r = ipc q" and "t = engine_step r c ev h"
  shows "queued_frames t = queued_frames h" "given t = given h" "engine_on t = engine_on h"
    and "well_said q h \<Longrightarrow> well_said q t" and "ready_engine q h \<Longrightarrow> ready_engine q t"
proof -
  have "queued_frames t = queued_frames h \<and> given t = given h \<and> engine_on t = engine_on h
      \<and> (well_said q h \<longrightarrow> well_said q t) \<and> (ready_engine q h \<longrightarrow> ready_engine q t)"
  proof (cases "m_ClipboardEngine h")
    case None
    then show ?thesis using assms(3) by (simp add: engine_step_def)
  next
    case (Some s)
    let ?h = "h\<lparr>m_ClipboardEngine := Some (clip_step c s ev)\<rparr>"
    have "t = fold (sendLocalFrame r) (drop (length (outbound s)) (outbound (clip_step c s ev))) ?h"
      using assms(3) Some by (simp add: engine_step_def Let_def)
    note sent = frames_sent [OF assms(1,2) this]
    have on: "engine_on t = engine_on h" using sent(3) Some by (simp add: engine_on_def)
    have "well_said q ?h = well_said q h" "ready_engine q ?h = ready_engine q h"
      using Some by (simp_all add: well_said_def ready_engine_def engine_on_def)
    then show ?thesis using sent on by simp
  qed
  then show "queued_frames t = queued_frames h" "given t = given h" "engine_on t = engine_on h"
    "well_said q h \<Longrightarrow> well_said q t" "ready_engine q h \<Longrightarrow> ready_engine q t" by blast+
qed

lemma delivered:
  assumes "faithful_codec (ipc q)" and "main_ipc r = ipc q" and "t = deliver_frame r c now h"
  shows "given t @ queued_frames t = given h @ queued_frames h" "engine_on t = engine_on h"
    and "well_said q h \<Longrightarrow> well_said q t" and "ready_engine q h \<Longrightarrow> ready_engine q t"
proof -
  have "given t @ queued_frames t = given h @ queued_frames h \<and> engine_on t = engine_on h
      \<and> (well_said q h \<longrightarrow> well_said q t) \<and> (ready_engine q h \<longrightarrow> ready_engine q t)"
  proof (cases "queued_frames h")
    case (Cons f fs)
    let ?h = "h\<lparr>queued_frames := fs, given := given h @ [f]\<rparr>"
    have "t = engine_step r c (Frame_arrives f now) ?h" using assms(3) Cons by (simp add: deliver_frame_def)
    note step = engine_stepped [OF assms(1,2) this]
    have "engine_on ?h = engine_on h" "well_said q ?h = well_said q h" "ready_engine q ?h = ready_engine q h"
      by (simp_all add: engine_on_def well_said_def ready_engine_def)
    then show ?thesis using Cons step by simp
  qed (use assms(3) in \<open>simp add: deliver_frame_def\<close>)
  then show "given t @ queued_frames t = given h @ queued_frames h" "engine_on t = engine_on h"
    "well_said q h \<Longrightarrow> well_said q t" "ready_engine q h \<Longrightarrow> ready_engine q t" by blast+
qed

lemma client_line_handled:
  assumes "faithful_codec (ipc q)" and "main_ipc r = ipc q" and "well_said q h" and "client_line (ipc q) l"
    and "length l \<le> MAX_LINE_BYTES" and "line_type q l = MT_HostFrame \<Longrightarrow> engine_on h"
  shows "queued_frames (handleLine r l h) = queued_frames h @ host_frames q [l]"
    and "given (handleLine r l h) = given h" and "well_said q (handleLine r l h)"
proof -
  consider n c where "l = encodeConfigure (ipc q) n c" | n f where "f \<noteq> []" "l = encodeHostFrame (ipc q) n f"
    | n where "l = encodeStop (ipc q) n"
    using assms(4) by (auto simp: client_line_def)
  then have "queued_frames (handleLine r l h) = queued_frames h @ host_frames q [l]
    \<and> given (handleLine r l h) = given h \<and> well_said q (handleLine r l h)"
  proof cases
    case 1
    then have "handleLine r l h = handleConfig r n c h" "host_frames q [l] = []"
      using decode_configure [OF assms(1)] assms(2,5) by (simp_all add: handleLine_def host_frames_def line_written [OF assms(1)])
    then show ?thesis using config_handled [OF assms(1,2)] assms(3) by simp
  next
    case 2
    then have on: "engine_on h" using assms(6) line_written [OF assms(1)] by simp
    have "decodeLine (ipc q) l = Inr (no_message\<lparr>msg_type := MT_HostFrame, msg_sequence := n, msg_frame := f\<rparr>)"
      using decode_frame(1) [OF assms(1), of n f] assms(5) 2 by simp
    then have "handleLine r l h = h\<lparr>queued_frames := queued_frames h @ [f]\<rparr>"
      using on assms(2) 2(1) by (auto simp: handleLine_def engine_on_def)
    moreover have "host_frames q [l] = [f]" using 2 by (simp add: host_frames_def line_written [OF assms(1)])
    ultimately show ?thesis using assms(3) by (simp add: well_said_def)
  next
    case 3
    then have "handleLine r l h = h\<lparr>quitting := True\<rparr>" "host_frames q [l] = []"
      using decode_plain(2) [OF assms(1), of n] assms(2,5) by (simp_all add: handleLine_def host_frames_def line_written [OF assms(1)])
    then show ?thesis using assms(3) by (simp add: well_said_def)
  qed
  then show "queued_frames (handleLine r l h) = queued_frames h @ host_frames q [l]"
    "given (handleLine r l h) = given h" "well_said q (handleLine r l h)" by blast+
qed

text \<open>The stop at the end of the input has no frame.\<close>

lemma stop_handled:
  assumes "faithful_codec (ipc q)" and "main_ipc r = ipc q"
  shows "queued_frames (handleLine r (encodeStop (ipc q) 0) h) = queued_frames h"
    and "given (handleLine r (encodeStop (ipc q) 0) h) = given h" and "host_frames q [encodeStop (ipc q) 0] = []"
    and "well_said q h \<Longrightarrow> well_said q (handleLine r (encodeStop (ipc q) 0) h)"
proof -
  show "host_frames q [encodeStop (ipc q) 0] = []" by (simp add: host_frames_def line_written [OF assms(1)])
  have "queued_frames (handleLine r (encodeStop (ipc q) 0) h) = queued_frames h
      \<and> given (handleLine r (encodeStop (ipc q) 0) h) = given h
      \<and> (well_said q h \<longrightarrow> well_said q (handleLine r (encodeStop (ipc q) 0) h))"
  proof (cases "length (encodeStop (ipc q) 0) \<le> MAX_LINE_BYTES")
    case True
    then show ?thesis
      using decode_plain(2) [OF assms(1) True] assms(2) by (simp add: handleLine_def well_said_def)
  next
    case False
    then have "decodeLine (ipc q) (encodeStop (ipc q) 0) = Inl ''message line too large''" by (simp add: decodeLine_def)
    then show ?thesis
      using assms(2) said_lines [OF assms(1)] by (auto simp: handleLine_def well_said_def writeProtocolLine_def)
  qed
  then show "queued_frames (handleLine r (encodeStop (ipc q) 0) h) = queued_frames h"
    "given (handleLine r (encodeStop (ipc q) 0) h) = given h"
    "well_said q h \<Longrightarrow> well_said q (handleLine r (encodeStop (ipc q) 0) h)" by blast+
qed

text \<open>Whatever line comes, a helper that has said READY has its engine, and keeps it.\<close>

lemma line_keeps_engine:
  assumes "faithful_codec (ipc q)" and "main_ipc r = ipc q"
  shows "engine_on h \<Longrightarrow> engine_on (handleLine r l h)" and "ready_engine q h \<Longrightarrow> ready_engine q (handleLine r l h)"
proof -
  have plain: "engine_on (writeProtocolLine r (encodeError (main_ipc r) n c u) h) = engine_on h"
    "ready_engine q h \<Longrightarrow> ready_engine q (writeProtocolLine r (encodeError (main_ipc r) n c u) h)" for n c u
    using said_lines(2) [OF assms(1)] assms(2)
    by (auto simp: writeProtocolLine_def engine_on_def ready_engine_def)
  have flags: "engine_on (h\<lparr>quitting := True\<rparr>) = engine_on h" "ready_engine q (h\<lparr>quitting := True\<rparr>) = ready_engine q h"
    "engine_on (h\<lparr>queued_frames := fs\<rparr>) = engine_on h" "ready_engine q (h\<lparr>queued_frames := fs\<rparr>) = ready_engine q h" for fs
    by (simp_all add: engine_on_def ready_engine_def)
  show "engine_on h \<Longrightarrow> engine_on (handleLine r l h)"
    using config_handled(3) [OF assms] by (auto simp: handleLine_def plain flags split: sum.split)
  show "ready_engine q h \<Longrightarrow> ready_engine q (handleLine r l h)"
    using config_handled(5) [OF assms] by (auto simp: handleLine_def plain flags split: sum.split)
qed

lemma step_keeps_engine:
  assumes "faithful_codec (ipc q)" and "main_ipc r = ipc q"
  shows "engine_on h \<Longrightarrow> engine_on (main_step r h e)" and "ready_engine q h \<Longrightarrow> ready_engine q (main_step r h e)"
  using line_keeps_engine [OF assms] engine_stepped [OF assms refl] delivered [OF assms refl]
  by (auto simp: main_step_def split: main_event.split clip_event.split)

lemma run_append [simp]: "main_run r (xs @ ys) h = main_run r ys (main_run r xs h)"
  by (simp add: main_run_def)

lemma run_keeps_engine:
  assumes "faithful_codec (ipc q)" and "main_ipc r = ipc q"
  shows "engine_on h \<Longrightarrow> engine_on (main_run r es h)" and "ready_engine q h \<Longrightarrow> ready_engine q (main_run r es h)"
  by (induction es rule: rev_induct) (auto simp: main_run_def step_keeps_engine [OF assms])

lemma answered_prefix: "frames_answered q (rev (xs @ ys)) \<Longrightarrow> frames_answered q (rev xs)"
proof (induction ys rule: rev_induct)
  case (snoc y ys)
  then show ?case by (cases y) (simp_all flip: append_assoc)
qed simp

lemma readies_heard: "readies q ys \<noteq> [] \<Longrightarrow> \<exists>l m. Heard l \<in> set ys \<and> decodeLine (ipc q) l = Inr m \<and> msg_type m = MT_Ready"
  by (induction q ys rule: readies.induct) (fastforce split: if_splits sum.splits)+

lemma ready_heard: "told_ready q (rev xs) \<Longrightarrow> \<exists>l m. Heard l \<in> set xs \<and> decodeLine (ipc q) l = Inr m \<and> msg_type m = MT_Ready"
  using readies_heard [of q "rev xs"]
  by (cases "readies q (rev xs)") (auto simp: told_ready_def split: option.splits)

lemma body_type: "decode_body q obj m = Inr m' \<Longrightarrow> msg_type m' = msg_type m"
  by (auto simp: decode_body_def case_prod_beta split: message_type.splits if_splits)

lemma ready_type: "decodeLine (ipc q) l = Inr m \<Longrightarrow> line_type q l = msg_type m"
  by (auto simp: decodeLine_def Let_def line_type_def line_object_def dest!: body_type
      split: if_splits sum.splits option.splits)

lemma read_append [simp]: "lines_read (xs @ ys) = lines_read xs @ lines_read ys"
  by (induction xs) (simp_all split: main_event.split)

text \<open>Where in the talk a line was written.\<close>

lemma written_at:
  "k < length (wrote talk) \<Longrightarrow> \<exists>xs ys. talk = xs @ Wrote (wrote talk ! k) # ys \<and> wrote xs = take k (wrote talk)"
proof (induction talk arbitrary: k)
  case (Cons x talk)
  show ?case
  proof (cases x)
    case (Heard l)
    then obtain xs ys where "talk = xs @ Wrote (wrote talk ! k) # ys" "wrote xs = take k (wrote talk)"
      using Cons.IH [of k] Cons.prems by auto
    then show ?thesis using Heard by (intro exI [of _ "x # xs"] exI [of _ ys]) simp
  next
    case (Wrote l)
    show ?thesis
    proof (cases k)
      case 0
      then show ?thesis using Wrote by (intro exI [of _ "[]"] exI [of _ talk]) simp
    next
      case (Suc k')
      then obtain xs ys where "talk = xs @ Wrote (wrote talk ! k') # ys" "wrote xs = take k' (wrote talk)"
        using Cons.IH [of k'] Cons.prems Wrote by auto
      then show ?thesis using Wrote Suc by (intro exI [of _ "x # xs"] exI [of _ ys]) simp
    qed
  qed
qed simp

text \<open>When the helper comes to a frame, it has its engine: the client waited for READY.\<close>

lemma engine_before_frame:
  assumes "faithful_codec (ipc q)" and "main_ipc r = ipc q" and "frames_answered q (rev talk)"
    and "honest_helper r m es talk" and "n < length es" and "es ! n = Line_read l"
    and "k = length (lines_read (take n es))" and "k < length (wrote talk)" and "l = wrote talk ! k"
    and "line_type q l = MT_HostFrame"
  shows "engine_on (main_run r (take n es) (new_main m))"
proof -
  obtain xs ys where t: "talk = xs @ Wrote l # ys" "wrote xs = take k (wrote talk)"
    using written_at [OF assms(8)] assms(9) by auto
  have "frames_answered q (rev ((xs @ [Wrote l]) @ ys))" using assms(3) t(1) by simp
  then have "frames_answered q (rev (xs @ [Wrote l]))" by (rule answered_prefix)
  then have "told_ready q (rev xs)" using assms(10) by simp
  then obtain l' p where l': "Heard l' \<in> set xs" "decodeLine (ipc q) l' = Inr p" "msg_type p = MT_Ready"
    using ready_heard by blast
  then obtain i where i: "i < length xs" "xs ! i = Heard l'" by (metis in_set_conv_nth)
  then have "i < length talk" "talk ! i = Heard l'" using t(1) by (auto simp: nth_append)
  then obtain n' where n': "n' \<le> length es" "prefix (lines_read (take n' es)) (wrote (take i talk))"
    "l' \<in> set (said (main_run r (take n' es) (new_main m)))"
    using assms(2,4) l'(2,3) unfolding honest_helper_def by metis
  have "wrote xs = wrote (take i xs) @ wrote (drop i xs)" by (metis append_take_drop_id wrote_append)
  moreover have "take i talk = take i xs" using i(1) t(1) by simp
  ultimately have "length (wrote (take i talk)) \<le> length (wrote xs)" by simp
  then have short: "length (lines_read (take n' es)) \<le> k"
    using prefix_length_le [OF n'(2)] t(2) by simp
  have "n' \<le> n"
  proof (rule ccontr)
    assume "\<not> n' \<le> n"
    then have "take n' es = take (Suc n) es @ take (n' - Suc n) (drop (Suc n) es)"
      using take_add [of "Suc n" "n' - Suc n" es] by simp
    moreover have "take (Suc n) es = take n es @ [Line_read l]"
      using assms(5,6) by (simp add: take_Suc_conv_app_nth)
    ultimately have "k < length (lines_read (take n' es))" using assms(7) by simp
    then show False using short by simp
  qed
  then have n: "take n es = take n' es @ take (n - n') (drop n' es)" using take_add [of n' "n - n'" es] by simp
  have "ready_engine q (main_run r (take n' es) (new_main m))"
    by (rule run_keeps_engine(2) [OF assms(1,2)]) (simp add: ready_engine_def new_main_def)
  moreover have "line_type q l' = MT_Ready" using ready_type [OF l'(2)] l'(3) by simp
  ultimately have "engine_on (main_run r (take n' es) (new_main m))" using n'(3) unfolding ready_engine_def by blast
  then show ?thesis unfolding n run_append by (rule run_keeps_engine(1) [OF assms(1,2)])
qed

text \<open>The frames handed on and those waiting, at every moment of the run.\<close>

lemma run_handled:
  assumes "faithful_codec (ipc q)" and "main_ipc r = ipc q" and "list_all (client_line (ipc q)) (wrote talk)"
    and "list_all (\<lambda>l. length l \<le> MAX_LINE_BYTES) (wrote talk)" and "frames_answered q (rev talk)"
    and "honest_helper r m es talk" and "prefix (lines_read es) (wrote talk @ [encodeStop (ipc q) 0])"
  shows "n \<le> length es \<Longrightarrow> h = main_run r (take n es) (new_main m) \<Longrightarrow>
    well_said q h \<and> prefix (given h @ queued_frames h) (host_frames q (lines_read (take n es)))
    \<and> (quitting h \<or> given h @ queued_frames h = host_frames q (lines_read (take n es)))"
proof (induction n arbitrary: h)
  case 0
  then show ?case by (simp add: main_run_def new_main_def well_said_def host_frames_def)
next
  case (Suc n)
  let ?g = "main_run r (take n es) (new_main m)"
  have IH: "well_said q ?g" "prefix (given ?g @ queued_frames ?g) (host_frames q (lines_read (take n es)))"
    "quitting ?g \<or> given ?g @ queued_frames ?g = host_frames q (lines_read (take n es))"
    using Suc.IH [OF _ refl] Suc.prems(1) by simp_all
  have tk: "take (Suc n) es = take n es @ [es ! n]" using Suc.prems(1) by (simp add: take_Suc_conv_app_nth)
  have h: "h = main_step r ?g (es ! n)" using Suc.prems(2) by (simp add: tk) (simp add: main_run_def)
  show ?case
  proof (cases "quitting ?g")
    case True
    then show ?thesis using IH by (simp add: h main_step_def tk prefix_prefix)
  next
    case False
    then have eq: "given ?g @ queued_frames ?g = host_frames q (lines_read (take n es))" using IH(3) by blast
    show ?thesis
    proof (cases "es ! n")
      case (Line_read l)
      let ?k = "length (lines_read (take n es))"
      have "lines_read es = lines_read (take n es) @ l # lines_read (drop (Suc n) es)"
        using id_take_nth_drop [of n es] Suc.prems(1) Line_read by (metis Suc_le_eq append_Cons lines_read.simps(2) main_event.simps(10) read_append)
      then obtain z where z: "wrote talk @ [encodeStop (ipc q) 0] = lines_read (take n es) @ l # z"
        using assms(7) by (auto simp: prefix_def)
      have hl: "h = handleLine r l ?g" using False by (simp add: h main_step_def Line_read)
      have "queued_frames h = queued_frames ?g @ host_frames q [l] \<and> given h = given ?g \<and> well_said q h"
      proof (cases "?k < length (wrote talk)")
        case True
        then have l: "l = wrote talk ! ?k" using arg_cong [OF z, where f = "\<lambda>xs. xs ! ?k"] by (simp add: nth_append)
        then have "l \<in> set (wrote talk)" using True by simp
        then have "client_line (ipc q) l" "length l \<le> MAX_LINE_BYTES" using assms(3,4) by (simp_all add: list_all_iff)
        from client_line_handled [OF assms(1,2) IH(1) this
            engine_before_frame [OF assms(1,2,5,6) _ Line_read refl True l]] show ?thesis
          using Suc.prems(1) by (simp add: hl)
      next
        case False
        have "length (wrote talk) + 1 = ?k + 1 + length z" using arg_cong [OF z, where f = length] by simp
        then have "z = []" using False by simp
        then have "l = encodeStop (ipc q) 0" using z by simp
        then show ?thesis using stop_handled [OF assms(1,2)] IH(1) by (simp add: hl)
      qed
      then show ?thesis using eq by (simp add: tk Line_read flip: append_assoc)
    next
      case (Engine_event c ev)
      have "given h @ queued_frames h = given ?g @ queued_frames ?g \<and> well_said q h"
        using False IH(1) engine_stepped [OF assms(1,2) refl, where h = ?g and c = c and ev = ev]
        by (cases ev) (simp_all add: h main_step_def Engine_event)
      then show ?thesis using eq by (simp add: tk Engine_event)
    next
      case (Frame_delivered c now)
      have "given h @ queued_frames h = given ?g @ queued_frames ?g \<and> well_said q h"
        using False IH(1) delivered [OF assms(1,2) refl, where h = ?g and c = c and now = now] by (simp add: h main_step_def Frame_delivered)
      then show ?thesis using eq by (simp add: tk Frame_delivered)
    qed
  qed
qed

text \<open>
  C13: The client and the helper together. When everything written has been taken by the pipe, the helper's
  reader gets exactly the lines the client wrote, then a stop. In every run of the helper over these lines,
  with whatever its engine does and sends in between, if each READY the client heard is one the helper said
  after lines written before, then the frames the engine was called with and those waiting in the queue are
  the frames of the lines read, all of them and in order, until the helper quits, and the first of them
  afterwards; and it never answers that it is not ready.
\<close>
theorem frames_reach_engine:
  assumes "faithful_codec (ipc q)" and "one_line (ipc q)" and "main_ipc r = ipc q"
    and "helper_run q (new_helper_client c) es = Some s" and "m_Process s = Some p" and "m_StdinBuffer s = []"
    and "list_all (\<lambda>l. length l \<le> MAX_LINE_BYTES) (wrote (proc_talk p))"
    and "ls = reader_lines (ipc q) (proc_taken p)" and "prefix (lines_read run) ls"
    and "honest_helper r m run (proc_talk p)" and "h = main_run r run (new_main m)"
  shows "ls = wrote (proc_talk p) @ [encodeStop (ipc q) 0]
    \<and> prefix (given h @ queued_frames h) (host_frames q (lines_read run))
    \<and> (quitting h \<or> given h @ queued_frames h = host_frames q (lines_read run))
    \<and> (\<forall>l \<in> set (said h). line_code q l \<noteq> ''not-ready'')"
proof -
  let ?ws = "wrote (proc_talk p)"
  have client: "list_all (client_line (ipc q)) ?ws"
    using lines.every_run [OF _ assms(4)] assms(5) by (simp add: lines_defs new_helper_client_def)
  have "piped s" by (rule pipe.every_run [OF new_invariants(2) assms(4)])
  then have "proc_taken p = as_text ?ws" using assms(5,6) by (simp add: piped_defs)
  then have ls: "ls = ?ws @ [encodeStop (ipc q) 0]" using read_back [OF assms(2) client] assms(8) by simp
  have "ready_first q s" by (rule helper_always.every_run [OF dialogue_always [OF assms(1)] new_invariants(3) assms(4)])
  then have "frames_answered q (rev (proc_talk p))" using assms(5) by (simp add: ready_defs)
  from run_handled [OF assms(1,3) client assms(7) this assms(10), of "length run" h] show ?thesis
    using assms(9,11) ls by (simp add: well_said_def)
qed

definition plain_main :: main_env where
  "plain_main = \<lparr>main_ipc = prefix_codec, keys_readable = (\<lambda>c. True), url_valid = (\<lambda>c. True), stdout_takes = (\<lambda>l. True)\<rparr>"

definition no_clip :: mime where
  "no_clip = \<lparr>mime_text = [], mime_image = None, mime_urls = [], mime_formats = [], mime_finder = False\<rparr>"

text \<open>The helper that reads the lines of the sample talk one after the other, then runs its queue.\<close>

abbreviation sample_loop :: "clip_env \<Rightarrow> main_event list" where
  "sample_loop c \<equiv> [Line_read (encodeConfigure prefix_codec 1 sample_config),
     Line_read (encodeHostFrame prefix_codec 2 [7]), Frame_delivered c 0]"

lemma sample_honest: "honest_helper plain_main no_clip (sample_loop c) sample_talk"
proof -
  have "decodeLine prefix_codec (encodeConfigure prefix_codec 1 sample_config) =
      Inr (no_message\<lparr>msg_type := MT_Configure, msg_sequence := 1, msg_config := sample_config\<rparr>)"
    using decode_configure [OF prefix_faithful, of 1 sample_config] sample_lengths(1) by (simp add: MAX_LINE_BYTES_def)
  moreover have "complete_config sample_config" by (simp add: complete_config_def sample_config_def)
  ultimately have "encodeReady prefix_codec 1 \<in> set (said (main_run plain_main (take 1 (sample_loop c)) (new_main no_clip)))"
    by (simp add: main_run_def main_step_def handleLine_def handleConfig_def writeProtocolLine_def new_main_def plain_main_def)
  moreover have "sample_talk ! i = Heard l \<Longrightarrow> i < 3 \<Longrightarrow> i = 1 \<and> l = encodeReady prefix_codec 1" for i l
    by (auto simp: less_Suc_eq numeral_eq_Suc)
  ultimately show ?thesis unfolding honest_helper_def by (fastforce intro!: exI [of _ 1])
qed

lemma frames_reach_engine_witness:
  "\<exists>s p. helper_run plain_helper (new_helper_client sample_config) sample_events = Some s \<and> m_Process s = Some p
     \<and> (\<forall>c. prefix (given (main_run plain_main (sample_loop c) (new_main no_clip))
         @ queued_frames (main_run plain_main (sample_loop c) (new_main no_clip))) [[7]])"
proof -
  obtain s p where s: "helper_run plain_helper (new_helper_client sample_config) sample_events = Some s" "m_Process s = Some p"
    "proc_talk p = sample_talk" "m_StdinBuffer s = []" using sample_run by blast
  have q: "ipc plain_helper = prefix_codec" "main_ipc plain_main = ipc plain_helper" by (simp_all add: plain_helper_def plain_main_def)
  have f: "faithful_codec (ipc plain_helper)" "one_line (ipc plain_helper)" using prefix_faithful prefix_one_line q by simp_all
  have l: "list_all (\<lambda>l. length l \<le> MAX_LINE_BYTES) (wrote (proc_talk p))"
    using sample_lengths s(3) by (simp add: MAX_LINE_BYTES_def)
  have "piped s" by (rule pipe.every_run [OF new_invariants(2) s(1)])
  then have "proc_taken p = as_text (wrote (proc_talk p))" using s(2,4) by (simp add: piped_defs)
  moreover have "list_all (client_line (ipc plain_helper)) (wrote (proc_talk p))"
    using lines.every_run [OF _ s(1)] s(2) by (simp add: lines_defs new_helper_client_def)
  ultimately have "reader_lines (ipc plain_helper) (proc_taken p) = wrote (proc_talk p) @ [encodeStop (ipc plain_helper) 0]"
    using read_back [OF f(2)] by simp
  then have "prefix (lines_read (sample_loop c)) (reader_lines (ipc plain_helper) (proc_taken p))" for c
    using s(3) by simp
  moreover have "honest_helper plain_main no_clip (sample_loop c) (proc_talk p)" for c using sample_honest s(3) by simp
  ultimately have r: "prefix (given (main_run plain_main (sample_loop c) (new_main no_clip))
         @ queued_frames (main_run plain_main (sample_loop c) (new_main no_clip))) (host_frames plain_helper (lines_read (sample_loop c)))" for c
    using frames_reach_engine [OF f q(2) s(1,2,4) l refl _ _ refl] by blast
  have "host_frames plain_helper (lines_read (sample_loop c)) = [[7]]" for c
    using line_written [OF f(1)] by (simp add: host_frames_def q(1))
  then show ?thesis using r s(1,2) by auto
qed

end
