(* ===== verification/WebSocketFraming.thy ===== *)
theory WebSocketFraming
  imports Prelude
begin

text \<open>
  The WebSocket framing of the file-mapping channel
  (app/streaming/filemappingwebsocket.cpp and .h): the frame parser \<open>takeFrame\<close>, the
  reassembling \<open>TextMessageReader::read\<close>, the masked frame writer and the request loop
  \<open>readJsonText\<close>. Buffers are byte lists; the C++ out-parameters are components of the
  result; translated error texts are constructors of \<open>ws_error\<close>.
\<close>

unbundle bit_operations_syntax

section \<open>Frames\<close>

definition kMaxMessageBytes :: nat where
  "kMaxMessageBytes = 16 * 1024 * 1024"

record ws_frame =
  fin :: bool
  opcode :: byte
  payload :: bytes

definition empty_frame :: ws_frame where
  "empty_frame = \<lparr>fin = False, opcode = 0, payload = []\<rparr>"

datatype ws_error =
    UnsupportedFlags
  | FrameTooLarge
  | MessageTooLarge
  | ClosedByHost
  | InvalidControlFrame
  | UnexpectedText
  | UnexpectedContinuation
  | UnexpectedOpcode byte
  | PongWriteFailed
  | ReadTimeout
  | InvalidJson

text \<open>The byte-by-byte exclusive or of a payload with the four mask bytes.\<close>

definition apply_mask :: "bytes \<Rightarrow> bytes \<Rightarrow> bytes" where
  "apply_mask key p = map (\<lambda>i. (p ! i) XOR (key ! (i mod 4))) [0..<length p]"

definition be_value :: "bytes \<Rightarrow> u64" where
  "be_value bs = foldl (\<lambda>len b. push_bit 8 len OR ucast b) 0 bs"

text \<open>
  The length field: \<open>None\<close> when the buffer is too short for the extended form, otherwise
  the length and the cursor after it.
\<close>

definition frame_length :: "bytes \<Rightarrow> (u64 \<times> nat) option" where
  "frame_length buf =
     (let len7 = (ucast (buf ! 1) :: u64) AND 0x7f in
      if len7 = 126 then
        if length buf < 4 then None
        else Some (push_bit 8 (ucast (buf ! 2)) OR ucast (buf ! 3), 4)
      else if len7 = 127 then
        if length buf < 10 then None
        else Some (be_value (take 8 (drop 2 buf)), 10)
      else Some (len7, 2))"

text \<open>
  Result of \<open>takeFrame\<close>: the error if any, the frame, the need-more flag and the buffer
  after the call.
\<close>

type_synonym take_result = "ws_error option \<times> ws_frame \<times> bool \<times> bytes"

definition take_payload :: "bool \<Rightarrow> ws_frame \<Rightarrow> nat \<Rightarrow> nat \<Rightarrow> bytes \<Rightarrow> take_result" where
  "take_payload masked frame n cursor buf =
     (if masked \<and> length buf < cursor + 4 then (None, frame, True, buf)
      else
        let key = (if masked then take 4 (drop cursor buf) else []);
            cursor = (if masked then cursor + 4 else cursor)
        in if length buf - cursor < n then (None, frame, True, buf)
        else
          let p = take n (drop cursor buf);
              p' = (if masked then apply_mask key p else p)
          in (None, frame\<lparr>payload := p'\<rparr>, False, drop (cursor + n) buf))"

definition takeFrame :: "bytes \<Rightarrow> take_result" where
  "takeFrame buf =
     (if length buf < 2 then (None, empty_frame, True, buf)
      else
        let first = buf ! 0; second = buf ! 1;
            frame = empty_frame\<lparr>fin := (first AND 0x80 \<noteq> 0), opcode := first AND 0x0f\<rparr>
        in if first AND 0x70 \<noteq> 0 then (Some UnsupportedFlags, frame, False, buf)
        else case frame_length buf of
          None \<Rightarrow> (None, frame, True, buf)
        | Some (len, cursor) \<Rightarrow>
            if unat len > kMaxMessageBytes then (Some FrameTooLarge, frame, False, buf)
            else take_payload (second AND 0x80 \<noteq> 0) frame (unat len) cursor buf)"

lemma take_payload_done:
  assumes "take_payload masked f n c buf = (e, g, False, rest)" and "c \<le> length buf"
  shows "e = None \<and> length rest + n + c \<le> length buf"
  using assms by (auto simp: take_payload_def Let_def split: if_splits)

lemma take_payload_more:
  "take_payload masked f n c buf = (e, g, True, rest) \<Longrightarrow> e = None \<and> rest = buf \<and> g = f"
  by (auto simp: take_payload_def Let_def split: if_splits)

lemma take_payload_no_error: "take_payload masked f n c buf = (e, g, nm, rest) \<Longrightarrow> e = None"
  by (auto simp: take_payload_def Let_def split: if_splits)

lemma take_payload_append:
  assumes "take_payload masked f n c buf = (e, g, False, rest)" and "c \<le> length buf"
  shows "take_payload masked f n c (buf @ x) = (e, g, False, rest @ x)"
  using assms by (auto simp: take_payload_def Let_def split: if_splits)

lemma frame_length_bounds:
  "frame_length buf = Some (l, c) \<Longrightarrow> 2 \<le> length buf \<Longrightarrow> 2 \<le> c \<and> c \<le> length buf"
  by (auto simp: frame_length_def Let_def split: if_splits)

text \<open>The three ways a call of \<open>takeFrame\<close> can end.\<close>

lemma takeFrame_cases:
  assumes "takeFrame buf = (e, f, nm, rest)"
  obtains (more) "nm" "e = None" "rest = buf"
  | (refused) err where "\<not> nm" "e = Some err" "rest = buf" "2 \<le> length buf"
  | (complete) l c where "\<not> nm" "e = None" "2 \<le> length buf" "buf ! 0 AND 0x70 = 0"
      "frame_length buf = Some (l, c)" "unat l \<le> kMaxMessageBytes"
      "take_payload (buf ! 1 AND 0x80 \<noteq> 0)
         (empty_frame\<lparr>fin := (buf ! 0 AND 0x80 \<noteq> 0), opcode := buf ! 0 AND 0x0f\<rparr>)
         (unat l) c buf = (e, f, nm, rest)"
proof (cases "length buf < 2 \<or> buf ! 0 AND 0x70 \<noteq> 0 \<or> frame_length buf = None")
  case True
  then show ?thesis
    using assms more refused by (auto simp: takeFrame_def Let_def split: if_splits)
next
  case False
  then obtain l c where lc: "frame_length buf = Some (l, c)" by auto
  let ?f = "empty_frame\<lparr>fin := (buf ! 0 AND 0x80 \<noteq> 0), opcode := buf ! 0 AND 0x0f\<rparr>"
  show ?thesis
  proof (cases "unat l \<le> kMaxMessageBytes")
    case False
    with \<open>\<not> (length buf < 2 \<or> _)\<close> lc assms refused show ?thesis
      by (auto simp: takeFrame_def Let_def)
  next
    case True
    with \<open>\<not> (length buf < 2 \<or> _)\<close> lc assms
    have tp: "take_payload (buf ! 1 AND 0x80 \<noteq> 0) ?f (unat l) c buf = (e, f, nm, rest)"
      by (simp add: takeFrame_def Let_def)
    show ?thesis
    proof (cases nm)
      case True
      with tp have "e = None \<and> rest = buf" by (auto dest: take_payload_more)
      with True more show ?thesis by blast
    next
      case False
      with tp lc True \<open>\<not> (length buf < 2 \<or> _)\<close> take_payload_no_error [OF tp] complete
      show ?thesis by auto
    qed
  qed
qed

section \<open>Reading text messages\<close>

record ws_reader =
  m_Payload :: bytes
  m_MessageStarted :: bool

definition new_reader :: ws_reader where
  "new_reader = \<lparr>m_Payload = [], m_MessageStarted = False\<rparr>"

record read_result =
  rr_error :: "ws_error option"
  rr_out :: bytes
  rr_needMore :: bool
  rr_buffer :: bytes
  rr_reader :: ws_reader
  rr_pongs :: "bytes list"

text \<open>What one complete frame does to the reader.\<close>

datatype frame_action =
    Fail ws_error
  | Skip "bytes list"
  | Continue ws_reader
  | Deliver bytes

definition on_frame :: "bool \<Rightarrow> ws_reader \<Rightarrow> ws_frame \<Rightarrow> frame_action" where
  "on_frame wantPongs r f =
     (if length (m_Payload r) + length (payload f) > kMaxMessageBytes then Fail MessageTooLarge
      else if opcode f = 0x8 then Fail ClosedByHost
      else if opcode f = 0x9 \<or> opcode f = 0xa then
        if \<not> fin f \<or> length (payload f) > 125 then Fail InvalidControlFrame
        else Skip (if opcode f = 0x9 \<and> wantPongs then [payload f] else [])
      else if opcode f = 0x1 then
        if m_MessageStarted r then Fail UnexpectedText
        else if fin f then Deliver (m_Payload r @ payload f)
        else Continue \<lparr>m_Payload = m_Payload r @ payload f, m_MessageStarted = True\<rparr>
      else if opcode f = 0x0 then
        if \<not> m_MessageStarted r then Fail UnexpectedContinuation
        else if fin f then Deliver (m_Payload r @ payload f)
        else Continue (r\<lparr>m_Payload := m_Payload r @ payload f\<rparr>)
      else Fail (UnexpectedOpcode (opcode f)))"

lemma takeFrame_shrinks:
  assumes "takeFrame buf = (None, f, False, rest)"
  shows "length rest < length buf"
  using assms
proof (cases rule: takeFrame_cases)
  case (complete l c)
  then have "2 \<le> c" "c \<le> length buf" using frame_length_bounds by blast+
  with complete(7) take_payload_done show ?thesis by fastforce
qed simp_all

function reader_read :: "bool \<Rightarrow> ws_reader \<Rightarrow> bytes \<Rightarrow> read_result" where
  "reader_read wantPongs r buf =
     (case takeFrame buf of (err, f, needMore, rest) \<Rightarrow>
        if err \<noteq> None \<or> needMore
        then \<lparr>rr_error = err, rr_out = [], rr_needMore = needMore, rr_buffer = rest,
              rr_reader = r, rr_pongs = []\<rparr>
        else case on_frame wantPongs r f of
          Fail e \<Rightarrow> \<lparr>rr_error = Some e, rr_out = [], rr_needMore = False, rr_buffer = rest,
                     rr_reader = r, rr_pongs = []\<rparr>
        | Skip ps \<Rightarrow> (let k = reader_read wantPongs r rest in k\<lparr>rr_pongs := ps @ rr_pongs k\<rparr>)
        | Continue r' \<Rightarrow> reader_read wantPongs r' rest
        | Deliver m \<Rightarrow> \<lparr>rr_error = None, rr_out = m, rr_needMore = False, rr_buffer = rest,
                        rr_reader = new_reader, rr_pongs = []\<rparr>)"
  by pat_completeness auto
termination
  by (relation "measure (\<lambda>(w, r, buf). length buf)") (auto dest: takeFrame_shrinks [OF sym])

declare reader_read.simps [simp del]


section \<open>Writing frames\<close>

definition mask_bytes :: "u32 \<Rightarrow> bytes" where
  "mask_bytes v = [ucast (drop_bit 24 v AND 0xff), ucast (drop_bit 16 v AND 0xff),
                   ucast (drop_bit 8 v AND 0xff), ucast (v AND 0xff)]"

definition be_bytes :: "u64 \<Rightarrow> bytes" where
  "be_bytes w = map (\<lambda>shift. ucast (drop_bit shift w AND 0xff)) [56, 48, 40, 32, 24, 16, 8, 0]"

definition length_header :: "nat \<Rightarrow> bytes" where
  "length_header n =
     (if n < 126 then [0x80 OR of_nat n]
      else if n \<le> 0xffff then [0x80 OR 126, of_nat (drop_bit 8 n AND 0xff), of_nat (n AND 0xff)]
      else (0x80 OR 127) # be_bytes (of_nat n))"

definition masked_frame :: "byte \<Rightarrow> bytes \<Rightarrow> u32 \<Rightarrow> bytes" where
  "masked_frame op p maskValue =
     [0x80 OR op] @ length_header (length p) @ mask_bytes maskValue @ apply_mask (mask_bytes maskValue) p"

text \<open>
  The socket: what each successful \<open>waitForReadyRead\<close> will deliver, the frames written so
  far, and two parameters of the environment, the random mask of the k-th written frame and
  whether the k-th write succeeds.
\<close>

record ws_socket =
  sent :: "bytes list"
  next_mask :: "nat \<Rightarrow> u32"
  write_ok :: "nat \<Rightarrow> bool"

definition writeMaskedFrame :: "ws_socket \<Rightarrow> byte \<Rightarrow> bytes \<Rightarrow> bool \<times> ws_socket" where
  "writeMaskedFrame s op p =
     (let k = length (sent s)
      in (write_ok s k, s\<lparr>sent := sent s @ [masked_frame op p (next_mask s k)]\<rparr>))"

definition writeText :: "ws_socket \<Rightarrow> bytes \<Rightarrow> bool \<times> ws_socket" where
  "writeText s p = writeMaskedFrame s 0x1 p"

definition writePong :: "ws_socket \<Rightarrow> bytes \<Rightarrow> bool \<times> ws_socket" where
  "writePong s p = (if length p > 125 then (False, s) else writeMaskedFrame s 0xa p)"

fun write_pongs :: "ws_socket \<Rightarrow> bytes list \<Rightarrow> bool \<times> ws_socket" where
  "write_pongs s [] = (True, s)"
| "write_pongs s (p # ps) =
     (case writePong s p of (ok, s') \<Rightarrow> if ok then write_pongs s' ps else (False, s'))"

text \<open>
  \<open>readJsonText\<close>: the reader loop over the chunks the socket delivers; an empty list of
  chunks is a timeout. \<open>parse\<close> stands for \<open>QJsonDocument::fromJson\<close> with the test that
  the document is an object.
\<close>

fun json_loop :: "(bytes \<Rightarrow> 'j option) \<Rightarrow> ws_reader \<Rightarrow> bytes \<Rightarrow> ws_socket \<Rightarrow> bytes list \<Rightarrow>
    (ws_error + 'j) \<times> bytes \<times> ws_socket \<times> bytes list" where
  "json_loop parse r buf s chunks =
     (let k = reader_read True r buf in
      case rr_error k of
        Some e \<Rightarrow> (Inl e, rr_buffer k, s, chunks)
      | None \<Rightarrow>
          (case write_pongs s (rr_pongs k) of (ok, s') \<Rightarrow>
             if \<not> ok then (Inl PongWriteFailed, rr_buffer k, s', chunks)
             else if \<not> rr_needMore k then
               (case parse (rr_out k) of
                  None \<Rightarrow> (Inl InvalidJson, rr_buffer k, s', chunks)
                | Some j \<Rightarrow> (Inr j, rr_buffer k, s', chunks))
             else case chunks of
               [] \<Rightarrow> (Inl ReadTimeout, rr_buffer k, s', [])
             | c # cs \<Rightarrow> json_loop parse (rr_reader k) (rr_buffer k @ c) s' cs))"

declare json_loop.simps [simp del]

definition readJsonText :: "(bytes \<Rightarrow> 'j option) \<Rightarrow> ws_socket \<Rightarrow> bytes \<Rightarrow> bytes list \<Rightarrow>
    (ws_error + 'j) \<times> bytes \<times> ws_socket \<times> bytes list" where
  "readJsonText parse s buf chunks = json_loop parse new_reader buf s chunks"

section \<open>Masking and lengths\<close>

lemma length_apply_mask [simp, length_facts]: "length (apply_mask key p) = length p"
  by (simp add: apply_mask_def)

lemma apply_mask_involutive [simp]: "apply_mask key (apply_mask key p) = p"
  by (rule nth_equalityI) (simp_all add: apply_mask_def xor.assoc)

lemma length_mask_bytes [simp, length_facts]: "length (mask_bytes v) = 4"
  by (simp add: mask_bytes_def)

lemma be_step:
  "push_bit 8 (drop_bit (m + 8) (w :: u64)) OR ucast (ucast (drop_bit m w AND 0xff) :: byte)
   = drop_bit m w"
proof -
  have ff: "(0xff :: u64) = mask 8" by (simp add: mask_eq_exp_minus_1)
  show ?thesis
    unfolding ff
  proof (rule bit_word_eqI)
    fix n
    assume "n < LENGTH(64)"
    moreover have "m + 8 + (n - 8) = m + n" if "8 \<le> n" using that by simp
    ultimately show "bit (push_bit 8 (drop_bit (m + 8) w) OR
        ucast (ucast (drop_bit m w AND mask 8) :: byte)) n = bit (drop_bit m w) n"
      by (cases "n < 8") (auto simp: bit_simps)
  qed
qed

lemma foldl_be_bytes:
  "foldl (\<lambda>len b. push_bit 8 len OR ucast b) (drop_bit (8 * n) w)
     (map (\<lambda>i. ucast (drop_bit (8 * i) (w :: u64) AND 0xff) :: byte) (rev [0..<n])) = w"
proof (induction n)
  case 0
  show ?case by simp
next
  case (Suc n)
  have "8 * Suc n = 8 * n + 8" by simp
  with Suc.IH show ?case
    by (simp only: upt_Suc_append zero_le rev_append rev.simps append.simps list.map foldl.simps be_step)
qed

lemma be_value_be_bytes: "be_value (be_bytes w) = w"
proof -
  have z: "drop_bit (8 * 8) w = 0" by (rule bit_word_eqI) (simp add: bit_simps)
  have s: "[56, 48, 40, 32, 24, 16, 8, 0] = map (\<lambda>i. 8 * i) (rev [0..<8 :: nat])"
    by (simp add: upt_rec)
  show ?thesis
    unfolding be_value_def be_bytes_def s map_map comp_def
    using foldl_be_bytes [of 8 w] by (simp only: z)
qed

lemma length_be_bytes [simp, length_facts]: "length (be_bytes w) = 8"
  by (simp add: be_bytes_def)

section \<open>Incremental parsing\<close>

text \<open>
  What \<open>takeFrame\<close> decides on a buffer it also decides on every longer buffer with the
  same beginning: bytes that arrive later never change a parsed frame or an error.
\<close>

lemma frame_length_append:
  assumes "frame_length buf = Some r" and "2 \<le> length buf"
  shows "frame_length (buf @ x) = Some r"
  using assms by (auto simp: frame_length_def Let_def nth_append split: if_splits)

lemma takeFrame_append:
  assumes "takeFrame buf = (e, f, False, rest)"
  shows "takeFrame (buf @ x) = (e, f, False, rest @ x)"
  using assms
proof (cases rule: takeFrame_cases)
  case (refused err)
  then show ?thesis using assms
    by (auto simp: takeFrame_def Let_def nth_append frame_length_append
        dest: take_payload_no_error split: if_splits option.splits)
next
  case (complete l c)
  moreover from this have "c \<le> length buf" using frame_length_bounds by blast
  moreover from complete(3) have "(buf @ x) ! 0 = buf ! 0" "(buf @ x) ! 1 = buf ! 1"
    by (auto simp: nth_append)
  ultimately show ?thesis
    using take_payload_append
    by (simp add: takeFrame_def Let_def frame_length_append)
qed simp

lemma takeFrame_needMore:
  "takeFrame buf = (e, f, True, rest) \<Longrightarrow> e = None \<and> rest = buf"
  by (auto elim: takeFrame_cases)

lemma takeFrame_error:
  "takeFrame buf = (Some e, f, nm, rest) \<Longrightarrow> \<not> nm \<and> rest = buf"
  by (auto elim: takeFrame_cases)


section \<open>Reassembly does not depend on how the stream is cut\<close>

text \<open>
  \<open>read_resume k x\<close> is the caller's next call of \<open>read\<close> after more bytes have been
  appended to the buffer, with the pongs of both calls.
\<close>

definition read_resume :: "bool \<Rightarrow> read_result \<Rightarrow> bytes \<Rightarrow> read_result" where
  "read_resume wantPongs k x =
     (if rr_needMore k
      then (let k' = reader_read wantPongs (rr_reader k) (rr_buffer k @ x)
            in k'\<lparr>rr_pongs := rr_pongs k @ rr_pongs k'\<rparr>)
      else k\<lparr>rr_buffer := rr_buffer k @ x\<rparr>)"

lemma read_resume_pongs:
  "read_resume w (k\<lparr>rr_pongs := ps @ rr_pongs k\<rparr>) x =
   (let k' = read_resume w k x in k'\<lparr>rr_pongs := ps @ rr_pongs k'\<rparr>)"
  by (simp add: read_resume_def Let_def)

lemma reader_read_append:
  "reader_read w r (buf @ x) = read_resume w (reader_read w r buf) x"
proof (induction w r buf rule: reader_read.induct)
  case (1 w r buf)
  obtain e f nm rest where tf: "takeFrame buf = (e, f, nm, rest)" by (metis prod_cases4)
  show ?case
  proof (cases nm)
    case True
    with tf have "e = None" "rest = buf" by (auto dest: takeFrame_needMore)
    with tf True have "reader_read w r buf = \<lparr>rr_error = None, rr_out = [], rr_needMore = True,
        rr_buffer = buf, rr_reader = r, rr_pongs = []\<rparr>"
      by (simp add: reader_read.simps [of w r buf])
    then show ?thesis by (simp add: read_resume_def)
  next
    case False
    with tf have tf': "takeFrame (buf @ x) = (e, f, False, rest @ x)"
      by (simp add: takeFrame_append)
    show ?thesis
    proof (cases e)
      case (Some err)
      with tf tf' False show ?thesis
        by (simp add: reader_read.simps [of w r buf] reader_read.simps [of w r "buf @ x"]
            read_resume_def)
    next
      case None
      note tf0 = tf [unfolded None] and tf1 = tf' [unfolded None]
      show ?thesis
      proof (cases "on_frame w r f")
        case (Skip ps)
        with "1.IH"(1) tf0 False
        have "reader_read w r (rest @ x) = read_resume w (reader_read w r rest) x" by simp
        with Skip tf0 tf1 False show ?thesis
          by (simp add: reader_read.simps [of w r buf] reader_read.simps [of w r "buf @ x"]
              read_resume_pongs Let_def)
      next
        case (Continue r')
        with "1.IH"(2) tf0 False
        have "reader_read w r' (rest @ x) = read_resume w (reader_read w r' rest) x" by simp
        with Continue tf0 tf1 False show ?thesis
          by (simp add: reader_read.simps [of w r buf] reader_read.simps [of w r "buf @ x"])
      qed (use tf0 tf1 False in \<open>simp_all add: reader_read.simps [of w r buf]
            reader_read.simps [of w r "buf @ x"] read_resume_def\<close>)
    qed
  qed
qed


section \<open>Bits of the header\<close>

lemma nibble_cases:
  assumes "(w :: byte) < 16"
  shows "w \<in> set (map of_nat [0..<16])"
proof -
  have "unat w < 16" using assms by (simp add: word_less_nat_alt)
  moreover have "w = of_nat (unat w)" by simp
  ultimately show ?thesis by (metis atLeastLessThan_iff image_eqI le0 set_map set_upt)
qed

lemma first_byte:
  assumes "(w :: byte) < 16"
  shows "(0x80 OR w) AND 0x80 \<noteq> 0 \<and> (0x80 OR w) AND 0x70 = 0 \<and> (0x80 OR w) AND 0x0f = w"
    and "w AND 0x80 = 0 \<and> w AND 0x70 = 0 \<and> w AND 0x0f = w"
  using nibble_cases [OF assms] by (auto simp: upt_rec)

lemma bit_less_pow: "(n::nat) < 2 ^ k \<Longrightarrow> bit n i \<Longrightarrow> i < k"
  by (metis bit_nat_iff bit_take_bit_iff take_bit_nat_eq_self)

lemma bit_0x80:
  "bit (0x80 :: byte) i \<longleftrightarrow> i = 7" "bit (0x80 :: nat) i \<longleftrightarrow> i = 7"
  "bit (0x80 :: int) i \<longleftrightarrow> i = 7"
  using bit_exp_iff [of 7 i, where ?'a = byte] bit_exp_iff [of 7 i, where ?'a = nat]
    bit_exp_iff [of 7 i, where ?'a = int] by auto

lemma short_length:
  assumes "n < 128"
  shows "(ucast (0x80 OR of_nat n :: byte) :: u64) AND 0x7f = of_nat n"
    and "(ucast (of_nat n :: byte) :: u64) AND 0x7f = of_nat n"
    and "(0x80 OR of_nat n :: byte) AND 0x80 \<noteq> 0"
    and "(of_nat n :: byte) AND 0x80 = 0"
proof -
  have f: "(0x7f :: u64) = mask 7" by (simp add: mask_eq_exp_minus_1)
  have b: "bit n i \<Longrightarrow> i < 7" for i using bit_less_pow [of n 7 i] assms by simp
  show "(ucast (0x80 OR of_nat n :: byte) :: u64) AND 0x7f = of_nat n"
    unfolding f by (rule bit_word_eqI) (auto simp: bit_simps bit_0x80 dest: b)
  show "(ucast (of_nat n :: byte) :: u64) AND 0x7f = of_nat n"
    unfolding f by (rule bit_word_eqI) (auto simp: bit_simps bit_0x80 dest: b)
  have "bit ((0x80 OR of_nat n :: byte) AND 0x80) 7"
    by (simp add: bit_and_iff bit_or_iff bit_0x80)
  then show "(0x80 OR of_nat n :: byte) AND 0x80 \<noteq> 0" by auto
  show "(of_nat n :: byte) AND 0x80 = 0"
    by (rule bit_word_eqI) (auto simp: bit_simps bit_0x80 dest: b)
qed

lemma two_byte_length:
  assumes "n \<le> 0xffff"
  shows "(push_bit 8 (ucast (of_nat (drop_bit 8 n AND 0xff) :: byte)) OR
          ucast (of_nat (n AND 0xff) :: byte) :: u64) = of_nat n"
proof -
  have f: "(0xff :: nat) = mask 8"
    by (simp_all add: mask_eq_exp_minus_1)
  have b: "bit n i \<Longrightarrow> i < 16" for i using bit_less_pow [of n 16 i] assms by simp
  show ?thesis
    unfolding f by (rule bit_word_eqI) (auto simp: bit_simps dest: b)
qed

section \<open>Every frame a peer can send is read back\<close>

text \<open>
  The wire form of a frame (RFC 6455), as a peer sends it: with a mask key or, as hosts do,
  without. The client's own writer is the masked form with the final bit set.
\<close>

definition wire_length :: "bool \<Rightarrow> nat \<Rightarrow> bytes" where
  "wire_length masked n =
     (let flag = (if masked then 0x80 else 0) in
      if n < 126 then [flag OR of_nat n]
      else if n \<le> 0xffff then [flag OR 126, of_nat (drop_bit 8 n AND 0xff), of_nat (n AND 0xff)]
      else (flag OR 127) # be_bytes (of_nat n))"

definition wire_frame :: "u32 option \<Rightarrow> ws_frame \<Rightarrow> bytes" where
  "wire_frame key f =
     ((if fin f then 0x80 OR opcode f else opcode f) # wire_length (key \<noteq> None) (length (payload f))) @
     (case key of None \<Rightarrow> payload f
      | Some m \<Rightarrow> mask_bytes m @ apply_mask (mask_bytes m) (payload f))"

definition wf_frame :: "ws_frame \<Rightarrow> bool" where
  "wf_frame f \<longleftrightarrow> opcode f < 16 \<and> length (payload f) \<le> kMaxMessageBytes"

lemma masked_frame_wire:
  "masked_frame op p m = wire_frame (Some m) \<lparr>fin = True, opcode = op, payload = p\<rparr>"
  by (simp add: masked_frame_def wire_frame_def wire_length_def length_header_def)

lemma take_payload_wire:
  "length h = c \<Longrightarrow> length k = 4 \<Longrightarrow> length p = n \<Longrightarrow>
   take_payload True g n c (h @ k @ p @ rest) = (None, g\<lparr>payload := apply_mask k p\<rparr>, False, rest)"
  "length h = c \<Longrightarrow> length p = n \<Longrightarrow>
   take_payload False g n c (h @ p @ rest) = (None, g\<lparr>payload := p\<rparr>, False, rest)"
  by (auto simp: take_payload_def Let_def)

lemma frame_length_wire:
  assumes "n \<le> kMaxMessageBytes"
  shows "frame_length (b # wire_length masked n @ t) = Some (of_nat n, Suc (length (wire_length masked n)))
    \<and> ((b # wire_length masked n @ t) ! 1 AND 0x80 \<noteq> 0 \<longleftrightarrow> masked)"
proof -
  have small: "unat (of_nat n :: u64) = n"
    using assms by (simp add: unat_of_nat take_bit_nat_eq_self kMaxMessageBytes_def)
  consider "n < 126" | "126 \<le> n" "n \<le> 0xffff" | "0xffff < n" by linarith
  then show ?thesis
  proof cases
    case 1
    then have "(of_nat n :: u64) \<noteq> 126" "(of_nat n :: u64) \<noteq> 127"
      by (auto dest!: arg_cong [where f = unat] simp: small)
    with 1 short_length [of n] show ?thesis
      by (simp add: frame_length_def wire_length_def Let_def)
  next
    case 2
    with short_length [of 126] two_byte_length [of n] show ?thesis
      by (simp add: frame_length_def wire_length_def Let_def)
  next
    case 3
    with short_length [of 127] be_value_be_bytes [of "of_nat n"] show ?thesis
      by (simp add: frame_length_def wire_length_def Let_def)
  qed
qed

lemma takeFrame_wire:
  assumes "wf_frame f"
  shows "takeFrame (wire_frame key f @ rest) = (None, f, False, rest)"
proof -
  let ?n = "length (payload f)" and ?b = "if fin f then 0x80 OR opcode f else opcode f"
  from assms have op: "opcode f < 16" and len: "?n \<le> kMaxMessageBytes"
    by (auto simp: wf_frame_def)
  have small: "unat (of_nat ?n :: u64) = ?n"
    using len by (simp add: unat_of_nat take_bit_nat_eq_self kMaxMessageBytes_def)
  define body where "body = (case key of None \<Rightarrow> payload f
      | Some m \<Rightarrow> mask_bytes m @ apply_mask (mask_bytes m) (payload f)) @ rest"
  have buf: "wire_frame key f @ rest = ?b # wire_length (key \<noteq> None) ?n @ body"
    by (simp add: wire_frame_def body_def)
  have tp: "take_payload (key \<noteq> None) g ?n (Suc (length (wire_length (key \<noteq> None) ?n)))
      (?b # wire_length (key \<noteq> None) ?n @ body) = (None, g\<lparr>payload := payload f\<rparr>, False, rest)" for g
    using take_payload_wire [of "?b # wire_length (key \<noteq> None) ?n"]
    by (cases key) (simp_all add: body_def)
  have first: "?b AND 0x80 \<noteq> 0 \<longleftrightarrow> fin f" "?b AND 0x70 = 0" "?b AND 0x0f = opcode f"
    using first_byte [OF op] by auto
  have two: "\<not> length (?b # wire_length (key \<noteq> None) ?n @ body) < 2"
    by (simp add: wire_length_def Let_def)
  show ?thesis
    unfolding buf takeFrame_def
    using two frame_length_wire [OF len, of ?b "key \<noteq> None" body] first tp len small
    by (simp add: empty_frame_def del: length_Cons)
qed

section \<open>Text messages\<close>

text \<open>
  The frames of one text message as a peer may send them: a text frame, continuation frames
  up to the final one, control frames anywhere before the last frame. \<open>n\<close> is the size of
  the payload read so far; the size test of the reader also counts the payload of control
  frames.
\<close>

definition is_control :: "ws_frame \<Rightarrow> bool" where
  "is_control f \<longleftrightarrow> opcode f = 0x9 \<or> opcode f = 0xa"

fun text_frames :: "bool \<Rightarrow> nat \<Rightarrow> ws_frame list \<Rightarrow> bool" where
  "text_frames started n [] = False"
| "text_frames started n (f # fs) =
     (n + length (payload f) \<le> kMaxMessageBytes \<and>
      (if is_control f then fin f \<and> length (payload f) \<le> 125 \<and> text_frames started n fs
       else opcode f = (if started then 0x0 else 0x1) \<and>
            (if fin f then fs = [] else text_frames True (n + length (payload f)) fs)))"

definition message_of :: "ws_frame list \<Rightarrow> bytes" where
  "message_of fs = concat (map payload (filter (\<lambda>f. \<not> is_control f) fs))"

definition pings_of :: "ws_frame list \<Rightarrow> bytes list" where
  "pings_of fs = map payload (filter (\<lambda>f. opcode f = 0x9) fs)"

lemma text_frames_wf: "text_frames st n fs \<Longrightarrow> f \<in> set fs \<Longrightarrow> wf_frame f"
  by (induction st n fs rule: text_frames.induct)
    (auto simp: wf_frame_def is_control_def split: if_splits)

lemma reader_read_wire_step:
  assumes "wf_frame f"
  shows "reader_read w r (wire_frame key f @ rest) =
    (case on_frame w r f of
       Fail e \<Rightarrow> \<lparr>rr_error = Some e, rr_out = [], rr_needMore = False, rr_buffer = rest,
                  rr_reader = r, rr_pongs = []\<rparr>
     | Skip ps \<Rightarrow> (let k = reader_read w r rest in k\<lparr>rr_pongs := ps @ rr_pongs k\<rparr>)
     | Continue r' \<Rightarrow> reader_read w r' rest
     | Deliver m \<Rightarrow> \<lparr>rr_error = None, rr_out = m, rr_needMore = False, rr_buffer = rest,
                     rr_reader = new_reader, rr_pongs = []\<rparr>)"
  by (subst reader_read.simps) (simp add: takeFrame_wire [OF assms])

lemma reader_read_text_frames:
  assumes "text_frames (m_MessageStarted r) (length (m_Payload r)) fs"
  shows "reader_read w r (concat (map (wire_frame key) fs) @ rest) =
    \<lparr>rr_error = None, rr_out = m_Payload r @ message_of fs, rr_needMore = False,
     rr_buffer = rest, rr_reader = new_reader, rr_pongs = (if w then pings_of fs else [])\<rparr>"
  using assms
proof (induction fs arbitrary: r)
  case Nil
  then show ?case by simp
next
  case (Cons f fs)
  have wf: "wf_frame f" using text_frames_wf [OF Cons.prems, of f] by simp
  have size: "length (m_Payload r) + length (payload f) \<le> kMaxMessageBytes"
    using Cons.prems by simp
  let ?rest = "concat (map (wire_frame key) fs) @ rest"
  have step: "reader_read w r (concat (map (wire_frame key) (f # fs)) @ rest)
      = reader_read w r (wire_frame key f @ ?rest)" by simp
  show ?case
  proof (cases "is_control f")
    case True
    then have "on_frame w r f = Skip (if opcode f = 0x9 \<and> w then [payload f] else [])"
      using Cons.prems size by (auto simp: on_frame_def is_control_def)
    moreover have "text_frames (m_MessageStarted r) (length (m_Payload r)) fs"
      using Cons.prems True by simp
    ultimately show ?thesis
      unfolding step reader_read_wire_step [OF wf]
      using Cons.IH [of r] True by (simp add: Let_def message_of_def pings_of_def)
  next
    case False
    show ?thesis
    proof (cases "fin f")
      case True
      then have "on_frame w r f = Deliver (m_Payload r @ payload f)" "fs = []"
        using Cons.prems size False by (auto simp: on_frame_def is_control_def split: if_splits)
      then show ?thesis
        unfolding step reader_read_wire_step [OF wf]
        using False by (auto simp: message_of_def pings_of_def is_control_def)
    next
      case nf: False
      let ?r = "\<lparr>m_Payload = m_Payload r @ payload f, m_MessageStarted = True\<rparr>"
      have "on_frame w r f = Continue ?r"
        using Cons.prems size False nf
        by (auto simp: on_frame_def is_control_def split: if_splits)
      moreover have "text_frames True (length (m_Payload ?r)) fs"
        using Cons.prems False nf by simp
      ultimately show ?thesis
        unfolding step reader_read_wire_step [OF wf]
        using Cons.IH [of ?r] False
        by (auto simp: message_of_def pings_of_def is_control_def)
    qed
  qed
qed

lemma reader_read_pongs:
  "p \<in> set (rr_pongs (reader_read w r buf)) \<Longrightarrow> length p \<le> 125"
proof (induction w r buf rule: reader_read.induct)
  case (1 w r buf)
  obtain e f nm rest where tf: "takeFrame buf = (e, f, nm, rest)" by (metis prod_cases4)
  show ?case
  proof (cases "e \<noteq> None \<or> nm")
    case True
    with "1.prems" tf show ?thesis by (simp add: reader_read.simps [of w r buf])
  next
    case False
    with tf have tf0: "takeFrame buf = (None, f, False, rest)" by simp
    show ?thesis
    proof (cases "on_frame w r f")
      case (Skip ps)
      then have "\<forall>q \<in> set ps. length q \<le> 125" by (auto simp: on_frame_def split: if_splits)
      with "1.IH"(1) [OF tf0 [symmetric]] "1.prems" tf0 Skip show ?thesis
        by (auto simp: reader_read.simps [of w r buf] Let_def)
    next
      case (Continue r')
      with "1.IH"(2) [OF tf0 [symmetric]] "1.prems" tf0 show ?thesis
        by (auto simp: reader_read.simps [of w r buf])
    qed (use "1.prems" tf0 in \<open>simp_all add: reader_read.simps [of w r buf]\<close>)
  qed
qed

lemma reader_read_more:
  "rr_needMore (reader_read w r buf) \<Longrightarrow> rr_error (reader_read w r buf) = None"
proof (induction w r buf rule: reader_read.induct)
  case (1 w r buf)
  obtain e f nm rest where tf: "takeFrame buf = (e, f, nm, rest)" by (metis prod_cases4)
  show ?case
  proof (cases "e \<noteq> None \<or> nm")
    case True
    with "1.prems" tf show ?thesis
      by (auto simp: reader_read.simps [of w r buf] dest: takeFrame_needMore)
  next
    case False
    with tf have tf0: "takeFrame buf = (None, f, False, rest)" by simp
    show ?thesis
      using "1.prems" tf0 "1.IH" [OF tf0 [symmetric]]
      by (cases "on_frame w r f") (auto simp: reader_read.simps [of w r buf] Let_def)
  qed
qed

text \<open>The socket after a list of pongs has been written.\<close>

fun pong_frames :: "(nat \<Rightarrow> u32) \<Rightarrow> nat \<Rightarrow> bytes list \<Rightarrow> bytes list" where
  "pong_frames key k [] = []"
| "pong_frames key k (p # ps) = masked_frame 0xa p (key k) # pong_frames key (Suc k) ps"

lemma write_pongs_all:
  assumes "\<And>k. write_ok s k" and "\<And>p. p \<in> set ps \<Longrightarrow> length p \<le> 125"
  shows "write_pongs s ps = (True, s\<lparr>sent := sent s @ pong_frames (next_mask s) (length (sent s)) ps\<rparr>)"
  using assms
proof (induction ps arbitrary: s)
  case (Cons p ps)
  let ?s = "s\<lparr>sent := sent s @ [masked_frame 0xa p (next_mask s (length (sent s)))]\<rparr>"
  have "writePong s p = (True, ?s)"
    using Cons.prems(1) Cons.prems(2) [of p] by (simp add: writePong_def writeMaskedFrame_def Let_def)
  with Cons.IH [of ?s] Cons.prems show ?case by simp
qed simp

lemma pong_frames_append:
  "pong_frames key k (ps @ qs) = pong_frames key k ps @ pong_frames key (k + length ps) qs"
  by (induction ps arbitrary: k) auto

lemma length_pong_frames [simp, length_facts]: "length (pong_frames key k ps) = length ps"
  by (induction ps arbitrary: k) auto

lemma json_loop_chunks:
  assumes "\<And>k. write_ok s k"
    and "K = reader_read True r (buf @ concat chunks)"
    and "rr_error K = None" and "\<not> rr_needMore K"
  shows "\<exists>buf' chunks'. buf' @ concat chunks' = rr_buffer K \<and>
    json_loop parse r buf s chunks =
      ((case parse (rr_out K) of None \<Rightarrow> Inl InvalidJson | Some j \<Rightarrow> Inr j), buf',
       s\<lparr>sent := sent s @ pong_frames (next_mask s) (length (sent s)) (rr_pongs K)\<rparr>, chunks')"
  using assms
proof (induction chunks arbitrary: r buf s K)
  case Nil
  have "write_pongs s (rr_pongs K) =
      (True, s\<lparr>sent := sent s @ pong_frames (next_mask s) (length (sent s)) (rr_pongs K)\<rparr>)"
    using Nil write_pongs_all reader_read_pongs by blast
  with Nil show ?case
    by (auto simp: json_loop.simps [of parse r buf] Let_def split: option.splits)
next
  case (Cons c cs)
  define k where "k = reader_read True r buf"
  have K: "K = read_resume True k (c @ concat cs)"
    using Cons.prems(2) by (simp add: k_def reader_read_append [symmetric])
  have e: "rr_error k = None"
    using Cons.prems(3) K reader_read_more [of True r buf]
    by (cases "rr_needMore k") (auto simp: read_resume_def k_def)
  have wp: "write_pongs s (rr_pongs k) =
      (True, s\<lparr>sent := sent s @ pong_frames (next_mask s) (length (sent s)) (rr_pongs k)\<rparr>)"
    using Cons.prems(1) write_pongs_all reader_read_pongs unfolding k_def by blast
  show ?case
  proof (cases "rr_needMore k")
    case False
    with K e wp show ?thesis
      by (auto simp: json_loop.simps [of parse r buf] Let_def k_def [symmetric] read_resume_def
          intro!: exI [of _ "rr_buffer k"] exI [of _ "c # cs"] split: option.splits)
  next
    case True
    define K' where "K' = reader_read True (rr_reader k) ((rr_buffer k @ c) @ concat cs)"
    have KK: "K = K'\<lparr>rr_pongs := rr_pongs k @ rr_pongs K'\<rparr>"
      using K True by (simp add: read_resume_def K'_def Let_def)
    let ?s = "s\<lparr>sent := sent s @ pong_frames (next_mask s) (length (sent s)) (rr_pongs k)\<rparr>"
    from Cons.IH [of ?s K' "rr_reader k" "rr_buffer k @ c"] Cons.prems(1,3,4) KK K'_def
    obtain buf' cs' where "buf' @ concat cs' = rr_buffer K'" and
      "json_loop parse (rr_reader k) (rr_buffer k @ c) ?s cs =
        ((case parse (rr_out K') of None \<Rightarrow> Inl InvalidJson | Some j \<Rightarrow> Inr j), buf',
         ?s\<lparr>sent := sent ?s @ pong_frames (next_mask ?s) (length (sent ?s)) (rr_pongs K')\<rparr>, cs')"
      by auto
    with KK e wp True show ?thesis
      by (auto simp: json_loop.simps [of parse r buf] Let_def k_def [symmetric]
          pong_frames_append)
  qed
qed

interpretation ws: chunked_reader "reader_read w" "read_resume w"
  by unfold_locales (rule reader_read_append)

section \<open>Bounds\<close>

definition reader_inv :: "ws_reader \<Rightarrow> bool" where
  "reader_inv r \<longleftrightarrow> length (m_Payload r) \<le> kMaxMessageBytes"

lemma on_frame_bounds:
  assumes "reader_inv r"
  shows "on_frame w r f = Continue r' \<Longrightarrow> reader_inv r'"
    and "on_frame w r f = Deliver m \<Longrightarrow> length m \<le> kMaxMessageBytes"
  using assms by (auto simp: on_frame_def reader_inv_def split: if_splits)

lemma reader_read_bounds:
  assumes "reader_inv r"
  shows "reader_inv (rr_reader (reader_read w r buf))
    \<and> length (rr_out (reader_read w r buf)) \<le> kMaxMessageBytes
    \<and> length (rr_buffer (reader_read w r buf)) \<le> length buf"
  using assms
proof (induction w r buf rule: reader_read.induct)
  case (1 w r buf)
  obtain e f nm rest where tf: "takeFrame buf = (e, f, nm, rest)" by (metis prod_cases4)
  show ?case
  proof (cases "e \<noteq> None \<or> nm")
    case True
    with tf have "rest = buf" by (auto elim: takeFrame_cases)
    with True "1.prems" tf show ?thesis
      by (auto simp: reader_read.simps [of w r buf])
  next
    case False
    with tf have tf0: "takeFrame buf = (None, f, False, rest)" by simp
    then have "length rest < length buf" by (rule takeFrame_shrinks)
    with "1.prems" tf0 "1.IH" [OF tf0 [symmetric]] on_frame_bounds [OF "1.prems", of w f]
    show ?thesis
      by (cases "on_frame w r f")
        (fastforce simp: reader_read.simps [of w r buf] Let_def new_reader_def reader_inv_def)+
  qed
qed

lemma readJsonText_reads:
  assumes "text_frames False 0 fs"
    and "buf @ concat chunks = concat (map (wire_frame key) fs) @ rest"
    and "\<And>k. write_ok s k"
  shows "\<exists>buf' chunks'. buf' @ concat chunks' = rest \<and>
    readJsonText parse s buf chunks =
      ((case parse (message_of fs) of None \<Rightarrow> Inl InvalidJson | Some j \<Rightarrow> Inr j), buf',
       s\<lparr>sent := sent s @ pong_frames (next_mask s) (length (sent s)) (pings_of fs)\<rparr>, chunks')"
proof -
  have "text_frames (m_MessageStarted new_reader) (length (m_Payload new_reader)) fs"
    using assms(1) by (simp add: new_reader_def)
  from reader_read_text_frames [OF this, of True key rest]
    json_loop_chunks [of s, OF assms(3) refl, of new_reader buf chunks parse]
  show ?thesis by (simp add: readJsonText_def assms(2) new_reader_def)
qed

section \<open>Properties\<close>

text \<open>
  every frame the client's masked writer produces, whatever its payload and mask, is read
  back by \<open>takeFrame\<close> with the same opcode and payload, leaving exactly the bytes behind it.
\<close>

theorem masked_frame_roundtrip:
  assumes "op < 16" and "length p \<le> kMaxMessageBytes"
  shows "takeFrame (masked_frame op p m @ rest) =
    (None, \<lparr>fin = True, opcode = op, payload = p\<rparr>, False, rest)"
  using assms by (simp add: masked_frame_wire takeFrame_wire wf_frame_def)

theorem masked_frame_roundtrip_witness:
  "takeFrame (masked_frame 1 [104, 105] 0xdeadbeef @ [7]) =
    (None, \<lparr>fin = True, opcode = 1, payload = [104, 105]\<rparr>, False, [7])"
  by (rule masked_frame_roundtrip) (simp_all add: kMaxMessageBytes_def)

text \<open>
  the outcome of reading a stream (error, message, pongs, reader state and rest) does not
  depend on how the transport cut it into chunks.
\<close>

theorem reader_chunking:
  "foldl (read_resume w) (reader_read w r b) chunks = reader_read w r (b @ concat chunks)"
  by (rule ws.feed_concat)

text \<open>
  a text message sent as any sequence of text and continuation frames with control frames
  between them, cut into any chunks, makes \<open>readJsonText\<close> return the parse of exactly the
  joined payload, after answering every ping with a pong carrying its payload, in order; the
  bytes behind the message stay unread.
\<close>

theorem readJsonText_message:
  assumes "text_frames False 0 fs"
    and "buf @ concat chunks = concat (map (wire_frame key) fs) @ rest"
    and "\<And>k. write_ok s k"
  shows "\<exists>buf' chunks'. buf' @ concat chunks' = rest \<and>
    readJsonText parse s buf chunks =
      ((case parse (message_of fs) of None \<Rightarrow> Inl InvalidJson | Some j \<Rightarrow> Inr j), buf',
       s\<lparr>sent := sent s @ pong_frames (next_mask s) (length (sent s)) (pings_of fs)\<rparr>, chunks')"
  using assms by (rule readJsonText_reads)

theorem readJsonText_message_witness:
  "\<exists>buf' chunks'. buf' @ concat chunks' = [] \<and>
    readJsonText Some \<lparr>sent = [], next_mask = (\<lambda>_. 5), write_ok = (\<lambda>_. True)\<rparr> [0x01, 1]
      [[123], [0x89], [1, 33, 0x80, 1, 125]] =
    (Inr [123, 125], buf', \<lparr>sent = [masked_frame 0xa [33] 5], next_mask = (\<lambda>_. 5),
       write_ok = (\<lambda>_. True)\<rparr>, chunks')"
  using readJsonText_message [where key = None and rest = "[]" and parse = Some
      and buf = "[0x01, 1]" and chunks = "[[123], [0x89], [1, 33, 0x80, 1, 125]]"
      and s = "\<lparr>sent = [], next_mask = (\<lambda>_. 5), write_ok = (\<lambda>_. True)\<rparr>"
      and fs = "[\<lparr>fin = False, opcode = 1, payload = [123]\<rparr>,
                 \<lparr>fin = True, opcode = 9, payload = [33]\<rparr>,
                 \<lparr>fin = True, opcode = 0, payload = [125]\<rparr>]"]
  by (simp add: kMaxMessageBytes_def is_control_def wire_frame_def wire_length_def
      message_of_def pings_of_def)

text \<open>
  whatever bytes the host sends, the reader never holds or delivers more than
  \<open>kMaxMessageBytes\<close>, and a call never makes the receive buffer longer.
\<close>

theorem reader_bounded:
  assumes "reader_inv r"
  shows "reader_inv (rr_reader (reader_read w r buf))
    \<and> length (rr_out (reader_read w r buf)) \<le> kMaxMessageBytes
    \<and> length (rr_buffer (reader_read w r buf)) \<le> length buf"
  using assms by (rule reader_read_bounds)

theorem reader_bounded_witness:
  "reader_inv (rr_reader (reader_read True new_reader [0x01, 1, 65]))
    \<and> length (rr_out (reader_read True new_reader [0x01, 1, 65])) \<le> kMaxMessageBytes
    \<and> length (rr_buffer (reader_read True new_reader [0x01, 1, 65])) \<le> length [0x01 :: byte, 1, 65]"
  by (rule reader_bounded) (simp add: reader_inv_def new_reader_def)

end
