(* ===== verification/FileMappingRpc.thy ===== *)
theory FileMappingRpc
  imports WebSocketFraming Json TextOps
begin

text \<open>
  The client of the host's file-mapping service (\<open>src/app/streaming/filemappingclient.cpp\<close>) and its
  adapter to the protocol interface (\<open>filemappingprotocoladapter.cpp\<close>): opening a session over a
  WebSocket, one request and its reply at a time, and what a reply becomes. The framing is that of
  \<open>WebSocketFraming\<close>. TLS, URLs, hashing, base64, JSON text and translated texts are parameters.
\<close>

section \<open>Errors and parameters\<close>

datatype error_kind =
    E_None | E_Unavailable | E_Unauthorized | E_Timeout | E_Network | E_NotFound | E_ReadOnly
  | E_Cancelled | E_Unsupported | E_Internal

record fm_error =
  kind :: error_kind
  message :: string

definition no_error :: fm_error where "no_error = \<lparr>kind = E_None, message = []\<rparr>"
definition make_error :: "error_kind \<Rightarrow> string \<Rightarrow> fm_error" where
  "make_error k m = \<lparr>kind = k, message = m\<rparr>"
definition error_ok :: "fm_error \<Rightarrow> bool" where "error_ok e \<longleftrightarrow> kind e = E_None"

record fm_env =
  parse_object :: "bytes \<Rightarrow> json option"
  print_object :: "json \<Rightarrow> bytes"
  from_base64 :: "string \<Rightarrow> bytes"
  sha1_base64 :: "string \<Rightarrow> string"
  cast_u64 :: "real \<Rightarrow> u64"
  text_unavailable :: string
  text_bad_url :: string
  text_tls_failed :: string
  text_write_failed :: string
  text_upgrade_too_large :: string
  text_upgrade_timeout :: string
  text_upgrade_rejected :: "string \<Rightarrow> string"
  text_bad_accept :: string
  text_not_connected :: string
  text_ws :: "ws_error \<Rightarrow> string"
  text_rpc_error :: string
  text_code :: "string \<Rightarrow> string"
  text_unexpected :: "json \<Rightarrow> string"
  text_no_capability :: string

section \<open>JSON values\<close>

text \<open>A cast of a \<open>double\<close> to \<open>quint64\<close>; out of range it is undefined and taken from \<open>cast_u64\<close>.\<close>

definition to_u64 :: "fm_env \<Rightarrow> real \<Rightarrow> u64" where
  "to_u64 q x = (if 0 \<le> x \<and> x < 2 ^ 64 then of_int \<lfloor>x\<rfloor> else cast_u64 q x)"

section \<open>The session\<close>

record fm_client =
  m_Socket :: "ws_socket option"
  inbox :: "bytes list"
  m_WsBuffer :: bytes
  m_LastHello :: json
  m_NextRequestId :: u64
  m_SessionConnected :: bool

record rpc_result =
  rpc_ok :: bool
  rpc_error :: string
  rpc_reply :: json

definition new_client :: fm_client where
  "new_client = \<lparr>m_Socket = None, inbox = [], m_WsBuffer = [], m_LastHello = Obj [], m_NextRequestId = 1,
     m_SessionConnected = False\<rparr>"

definition closeSession :: "fm_client \<Rightarrow> fm_client" where
  "closeSession s = s\<lparr>m_SessionConnected := False, m_WsBuffer := [], m_LastHello := Obj [], m_NextRequestId := 1,
     m_Socket := None, inbox := []\<rparr>"

definition rpcReplyError :: "fm_env \<Rightarrow> json \<Rightarrow> string option" where
  "rpcReplyError q reply =
     (if to_str (json_value reply ''type'') \<noteq> ''error'' then None
      else let m = to_str (json_value reply ''message''); code = to_str (json_value reply ''code'');
               m = (if m = [] then text_rpc_error q else m)
           in Some (if code \<noteq> [] then m @ text_code q code else m))"

text \<open>
  \<open>sendAndWait\<close>: \<open>arriving\<close> is what the socket receives during the call, up to its timeout; what it does
  not read stays in the socket.
\<close>

definition sendAndWait :: "fm_env \<Rightarrow> json \<Rightarrow> bytes list \<Rightarrow> fm_client \<Rightarrow> (string + json) \<times> fm_client" where
  "sendAndWait q msg arriving s =
     (case m_Socket s of
        None \<Rightarrow> (Inl (text_not_connected q), s)
      | Some k \<Rightarrow>
          (case writeText k (print_object q msg) of (ok, k) \<Rightarrow>
             if \<not> ok then (Inl (text_write_failed q), s\<lparr>m_Socket := Some k, inbox := inbox s @ arriving\<rparr>)
             else case readJsonText (parse_object q) k (m_WsBuffer s) (inbox s @ arriving) of (r, buf, k, rest) \<Rightarrow>
               (case r of Inl e \<Rightarrow> Inl (text_ws q e) | Inr j \<Rightarrow> Inr j,
                s\<lparr>m_Socket := Some k, m_WsBuffer := buf, inbox := rest\<rparr>)))"

definition rpc_outcome :: "fm_env \<Rightarrow> json \<Rightarrow> rpc_result" where
  "rpc_outcome q reply =
     (let e = rpcReplyError q reply;
          ok = (e = None \<and> to_str (json_value reply ''type'') = ''result'' \<and> bool_or True (json_value reply ''ok''))
      in \<lparr>rpc_ok = ok,
          rpc_error = (case e of Some m \<Rightarrow> m | None \<Rightarrow> if ok then [] else text_unexpected q reply),
          rpc_reply = reply\<rparr>)"

definition request :: "(string \<times> json) list \<Rightarrow> u64 \<Rightarrow> json" where
  "request members i = Obj (members @ [(''id'', Num (real (unat i)))])"

definition sendRpc :: "fm_env \<Rightarrow> (string \<times> json) list \<Rightarrow> bytes list \<Rightarrow> fm_client \<Rightarrow> rpc_result \<times> fm_client" where
  "sendRpc q members arriving s =
     (if \<not> m_SessionConnected s
      then (\<lparr>rpc_ok = False, rpc_error = text_not_connected q, rpc_reply = Obj []\<rparr>,
            s\<lparr>inbox := inbox s @ arriving\<rparr>)
      else case sendAndWait q (request members (m_NextRequestId s)) arriving
                  (s\<lparr>m_NextRequestId := m_NextRequestId s + 1\<rparr>) of
        (Inl e, s) \<Rightarrow> (\<lparr>rpc_ok = False, rpc_error = e, rpc_reply = Obj []\<rparr>, s)
      | (Inr reply, s) \<Rightarrow> (rpc_outcome q reply, s))"

definition list_fields :: "string \<Rightarrow> string \<Rightarrow> (string \<times> json) list" where
  "list_fields m p = [(''type'', Str ''list''), (''mapping'', Str m), (''path'', Str p)]"

definition stat_fields :: "string \<Rightarrow> string \<Rightarrow> (string \<times> json) list" where
  "stat_fields m p = [(''type'', Str ''stat''), (''mapping'', Str m), (''path'', Str p)]"

text \<open>The length goes through \<open>int\<close>, the offset through \<open>double\<close>.\<close>

definition read_fields :: "string \<Rightarrow> string \<Rightarrow> u64 \<Rightarrow> u32 \<Rightarrow> (string \<times> json) list" where
  "read_fields m p off len = [(''type'', Str ''read''), (''mapping'', Str m), (''path'', Str p),
     (''offset'', Num (real (unat off))), (''length'', Num (of_int (sint len)))]"

section \<open>Opening a session\<close>

record fm_capability =
  cap_ok :: bool
  cap_enabled :: bool
  cap_listening :: bool
  cap_port :: u16
  cap_endpoint :: string
  cap_url :: string
  cap_token :: string
  cap_uuid :: string
  cap_error :: string

text \<open>What \<open>fetchCapability\<close> reads from the body of the host's answer.\<close>

definition capability_of :: "json \<Rightarrow> fm_capability" where
  "capability_of body = \<lparr>cap_ok = bool_or False (json_value body ''ok''),
     cap_enabled = bool_or False (json_value body ''enabled''),
     cap_listening = bool_or False (json_value body ''listening''),
     cap_port = of_int (int_or 0 (json_value body ''port'')),
     cap_endpoint = to_str (json_value body ''session_endpoint''),
     cap_url = to_str (json_value body ''session_url''),
     cap_token = to_str (json_value body ''session_token''),
     cap_uuid = to_str (json_value body ''client_uuid''),
     cap_error = to_str (json_value body ''error'')\<rparr>"

text \<open>Errors of the TLS connection are ignored if each is about the paired host's certificate.\<close>

definition isPinnedCertificateError :: "bytes option \<Rightarrow> bytes list \<Rightarrow> bool" where
  "isPinnedCertificateError pinned errors =
     (case pinned of None \<Rightarrow> False | Some c \<Rightarrow> list_all (\<lambda>e. e = c) errors \<and> errors \<noteq> [])"

text \<open>
  The TLS connection: none, or its certificate errors and the socket. Errors that are not ignored end it.
\<close>

definition open_tls :: "bytes option \<Rightarrow> (bytes list \<times> ws_socket) option \<Rightarrow> ws_socket option" where
  "open_tls pinned connection =
     (case connection of
        None \<Rightarrow> None
      | Some (errors, k) \<Rightarrow> if errors = [] \<or> isPinnedCertificateError pinned errors then Some k else None)"

fun cut_at :: "bytes \<Rightarrow> bytes \<Rightarrow> (bytes \<times> bytes) option" where
  "cut_at pat [] = (if pat = [] then Some ([], []) else None)"
| "cut_at pat (b # bs) =
     (if take (length pat) (b # bs) = pat then Some ([], drop (length pat) (b # bs))
      else case cut_at pat bs of None \<Rightarrow> None | Some (x, y) \<Rightarrow> Some (b # x, y))"

definition blank_line :: bytes where "blank_line = [13, 10, 13, 10]"

text \<open>Reading up to the blank line, at most one chunk past 64 KiB.\<close>

fun read_upgrade :: "fm_env \<Rightarrow> bytes \<Rightarrow> bytes list \<Rightarrow> (string + bytes \<times> bytes) \<times> bytes list" where
  "read_upgrade q buf chunks =
     (case cut_at blank_line buf of
        Some (headers, rest) \<Rightarrow> (Inr (headers, rest), chunks)
      | None \<Rightarrow>
          if length buf > 64 * 1024 then (Inl (text_upgrade_too_large q), chunks)
          else case chunks of
            [] \<Rightarrow> (Inl (text_upgrade_timeout q), [])
          | c # cs \<Rightarrow> read_upgrade q (buf @ c) cs)"

declare read_upgrade.simps [simp del]

definition chars :: "bytes \<Rightarrow> string" where "chars = map (\<lambda>b. char_of (unat b))"

fun accept_header :: "string list \<Rightarrow> string" where
  "accept_header [] = []"
| "accept_header (l # ls) =
     (let line = trimmed l; name = takeWhile (\<lambda>c. c \<noteq> CHR '':'') line in
      if length name = length line \<or> name = [] then accept_header ls
      else if map to_lower (trimmed name) = ''sec-websocket-accept''
      then trimmed (drop (Suc (length name)) line)
      else accept_header ls)"

definition check_upgrade :: "fm_env \<Rightarrow> string \<Rightarrow> bytes \<Rightarrow> string option" where
  "check_upgrade q key headers =
     (let lines = split_on CHR 0x0A (chars headers); status = trimmed (hd lines) in
      if \<not> (starts_with ''HTTP/1.1 101'' status \<or> starts_with ''HTTP/1.0 101'' status)
      then Some (text_upgrade_rejected q status)
      else if accept_header (tl lines) \<noteq> sha1_base64 q (key @ ''258EAFA5-E914-47DA-95CA-C5AB0DC85B11'')
      then Some (text_bad_accept q)
      else None)"

definition hello :: "string \<Rightarrow> json" where
  "hello uuid = Obj [(''type'', Str ''hello''), (''version'', Num 1), (''endpoint'', Str ''client''),
     (''client_uuid'', Str uuid), (''mappings'', Arr [])]"

text \<open>
  \<open>connectSession\<close> once the URL is known: \<open>url_ok\<close> is what \<open>buildSessionUrl\<close> returns, \<open>pinned\<close> the
  paired host's certificate, \<open>connection\<close> what the TLS connection comes to, \<open>upgrade\<close> the request built from the URL and the key, and the two lists of chunks
  what arrives while waiting for the upgrade and for the hello.
\<close>

definition connectSession ::
  "fm_env \<Rightarrow> fm_capability \<Rightarrow> bool \<Rightarrow> bytes option \<Rightarrow> (bytes list \<times> ws_socket) option \<Rightarrow> string \<Rightarrow> bytes
   \<Rightarrow> string \<Rightarrow> bytes list \<Rightarrow> bytes list \<Rightarrow> fm_client \<Rightarrow> string option \<times> fm_client" where
  "connectSession q cap url_ok pinned connection key upgrade uuid chunks chunks' s =
     (if \<not> cap_ok cap \<or> \<not> cap_enabled cap \<or> \<not> cap_listening cap then (Some (text_unavailable q), s)
      else if \<not> url_ok then (Some (text_bad_url q), s)
      else let s = closeSession s in
        case open_tls pinned connection of
          None \<Rightarrow> (Some (text_tls_failed q), s)
        | Some k \<Rightarrow>
            if \<not> write_ok k (length (sent k)) then (Some (text_write_failed q), s)
            else let k = k\<lparr>sent := sent k @ [upgrade]\<rparr> in
              case read_upgrade q [] chunks of
                (Inl e, _) \<Rightarrow> (Some e, s)
              | (Inr (headers, rest), left) \<Rightarrow>
                  (case check_upgrade q key headers of
                     Some e \<Rightarrow> (Some e, s)
                   | None \<Rightarrow>
                       (case sendAndWait q (hello (if cap_uuid cap = [] then uuid else cap_uuid cap)) chunks'
                               (s\<lparr>m_Socket := Some k, m_WsBuffer := rest, inbox := left\<rparr>) of
                          (Inl e, t) \<Rightarrow> (Some e, closeSession t)
                        | (Inr reply, t) \<Rightarrow>
                            (case rpcReplyError q reply of
                               Some e \<Rightarrow> (Some e, closeSession t)
                             | None \<Rightarrow> (None, t\<lparr>m_LastHello := reply, m_NextRequestId := 1,
                                                m_SessionConnected := True\<rparr>)))))"

section \<open>The adapter\<close>

definition mapRpcError :: "string \<Rightarrow> fm_error" where
  "mapRpcError m =
     (if m = [] then no_error
      else if contains_ci ''not_found'' m \<or> contains_ci ''mapping_not_found'' m then make_error E_NotFound m
      else if contains_ci ''forbidden'' m \<or> contains_ci ''unauthorized'' m then make_error E_Unauthorized m
      else if contains_ci ''timed out'' m \<or> contains_ci ''timeout'' m then make_error E_Timeout m
      else if contains_ci ''not connected'' m \<or> contains_ci ''network'' m \<or> contains_ci ''WebSocket'' m
      then make_error E_Network m
      else make_error E_Internal m)"

record remote_capability =
  rc_available :: bool
  rc_enabled :: bool
  rc_listening :: bool
  rc_port :: u16
  rc_endpoint :: string
  rc_url :: string
  rc_token :: string
  rc_uuid :: string
  rc_error :: fm_error

definition convertCapability :: "fm_env \<Rightarrow> fm_capability \<Rightarrow> remote_capability" where
  "convertCapability q c =
     (let e = mapRpcError (cap_error c)
      in \<lparr>rc_available = (cap_ok c \<and> cap_enabled c \<and> cap_listening c), rc_enabled = cap_enabled c,
          rc_listening = cap_listening c, rc_port = cap_port c, rc_endpoint = cap_endpoint c,
          rc_url = cap_url c, rc_token = cap_token c, rc_uuid = cap_uuid c,
          rc_error = (if \<not> cap_ok c \<and> error_ok e then make_error E_Unavailable (text_no_capability q) else e)\<rparr>)"

definition legacy_capability :: "remote_capability \<Rightarrow> fm_capability" where
  "legacy_capability c = \<lparr>cap_ok = error_ok (rc_error c), cap_enabled = rc_enabled c,
     cap_listening = rc_listening c, cap_port = rc_port c, cap_endpoint = rc_endpoint c, cap_url = rc_url c,
     cap_token = rc_token c, cap_uuid = rc_uuid c, cap_error = message (rc_error c)\<rparr>"

record remote_mapping =
  map_id :: string
  map_name :: string
  map_side :: string
  map_mode :: string
  map_capabilities :: "string list"

record remote_entry =
  entry_mapping :: string
  entry_path :: string
  entry_name :: string
  entry_directory :: bool
  entry_size :: u64

record remote_stat =
  stat_exists :: bool
  stat_directory :: bool
  stat_size :: u64

definition isDirectoryKind :: "string \<Rightarrow> bool" where
  "isDirectoryKind k \<longleftrightarrow> k = ''directory''"

definition entryFromJson :: "fm_env \<Rightarrow> string \<Rightarrow> string \<Rightarrow> json \<Rightarrow> remote_entry" where
  "entryFromJson q m parent item =
     (let name = to_str (json_value item ''name'');
          path = (if parent \<noteq> [] \<and> \<not> ends_with ''/'' parent then parent @ ''/'' else parent)
      in \<lparr>entry_mapping = m, entry_path = path @ name, entry_name = name,
          entry_directory = isDirectoryKind (to_str (json_value item ''kind'')),
          entry_size = to_u64 q (to_real 0 (json_value item ''size''))\<rparr>)"

definition statFromJson :: "fm_env \<Rightarrow> json \<Rightarrow> remote_stat" where
  "statFromJson q reply =
     (let k = to_str (json_value reply ''kind'')
      in \<lparr>stat_exists = (k \<noteq> []), stat_directory = isDirectoryKind k,
          stat_size = to_u64 q (to_real 0 (json_value reply ''size''))\<rparr>)"

definition mappingsFromHello :: "json \<Rightarrow> remote_mapping list" where
  "mappingsFromHello h =
     map (\<lambda>item. let i = to_str (json_value item ''id'') in
            \<lparr>map_id = i, map_name = str_or i (json_value item ''name''),
             map_side = to_str (json_value item ''side''), map_mode = to_str (json_value item ''mode''),
             map_capabilities = map to_str (filter is_string (to_array (json_value item ''capabilities'')))\<rparr>)
       (filter (\<lambda>v. is_object v \<and> to_str (json_value v ''id'') \<noteq> []) (to_array (json_value h ''mappings'')))"

text \<open>The three requests, with the state of the client they run on.\<close>

definition adapter_list :: "fm_env \<Rightarrow> string \<Rightarrow> string \<Rightarrow> bytes list \<Rightarrow> fm_client
    \<Rightarrow> (fm_error + remote_entry list) \<times> fm_client" where
  "adapter_list q m p arriving s =
     (case sendRpc q (list_fields m p) arriving s of (r, s) \<Rightarrow>
        (if \<not> rpc_ok r then Inl (mapRpcError (rpc_error r))
         else Inr (map (entryFromJson q m p)
                (filter is_object (to_array (json_value (rpc_reply r) ''entries'')))), s))"

definition adapter_stat :: "fm_env \<Rightarrow> string \<Rightarrow> string \<Rightarrow> bytes list \<Rightarrow> fm_client
    \<Rightarrow> (fm_error + remote_stat) \<times> fm_client" where
  "adapter_stat q m p arriving s =
     (case sendRpc q (stat_fields m p) arriving s of (r, s) \<Rightarrow>
        (if \<not> rpc_ok r then Inl (mapRpcError (rpc_error r)) else Inr (statFromJson q (rpc_reply r)), s))"

definition adapter_read :: "fm_env \<Rightarrow> string \<Rightarrow> string \<Rightarrow> u64 \<Rightarrow> u32 \<Rightarrow> bytes list \<Rightarrow> fm_client
    \<Rightarrow> (fm_error + bytes) \<times> fm_client" where
  "adapter_read q m p off len arriving s =
     (case sendRpc q (read_fields m p off len) arriving s of (r, s) \<Rightarrow>
        (if \<not> rpc_ok r then Inl (mapRpcError (rpc_error r))
         else Inr (from_base64 q (to_str (json_value (rpc_reply r) ''data''))), s))"

section \<open>One request, one reply\<close>

text \<open>Connected, with nothing received and unread.\<close>

definition in_step :: "fm_client \<Rightarrow> bool" where
  "in_step s \<longleftrightarrow> m_SessionConnected s \<and> m_WsBuffer s @ concat (inbox s) = []
     \<and> (\<exists>k. m_Socket s = Some k \<and> (\<forall>n. write_ok k n))"

definition ws_sent :: "fm_client \<Rightarrow> bytes list" where
  "ws_sent s = (case m_Socket s of None \<Rightarrow> [] | Some k \<Rightarrow> sent k)"

text \<open>The frames of one message of the host, and what comes of its text.\<close>

definition one_message :: "ws_frame list \<Rightarrow> bool" where
  "one_message fs \<longleftrightarrow> text_frames False 0 fs"

definition reply_outcome :: "fm_env \<Rightarrow> bytes \<Rightarrow> rpc_result" where
  "reply_outcome q m =
     (case parse_object q m of
        None \<Rightarrow> \<lparr>rpc_ok = False, rpc_error = text_ws q InvalidJson, rpc_reply = Obj []\<rparr>
      | Some j \<Rightarrow> rpc_outcome q j)"

text \<open>What is unread before the call, with what arrives, starts with a message: the call returns that message.\<close>

lemma sendRpc_reads:
  assumes c: "m_SessionConnected s" "m_Socket s = Some k" "\<forall>n. write_ok k n" and fs: "one_message fs"
    and bytes: "(m_WsBuffer s @ concat (inbox s)) @ concat arriving = concat (map (wire_frame key) fs) @ rest"
  shows "\<exists>s'. sendRpc q members arriving s = (reply_outcome q (message_of fs), s')
    \<and> m_SessionConnected s' \<and> m_WsBuffer s' @ concat (inbox s') = rest
    \<and> m_NextRequestId s' = m_NextRequestId s + 1
    \<and> (\<exists>k' f. m_Socket s' = Some k' \<and> (\<forall>n. write_ok k' n)
         \<and> sent k' = sent k @ masked_frame 0x1 (print_object q (request members (m_NextRequestId s))) f
             # pong_frames (next_mask k) (Suc (length (sent k))) (pings_of fs))"
proof -
  let ?m = "print_object q (request members (m_NextRequestId s))"
  let ?k = "k\<lparr>sent := sent k @ [masked_frame 0x1 ?m (next_mask k (length (sent k)))]\<rparr>"
  have w: "writeText k ?m = (True, ?k)" using c(3) by (simp add: writeText_def writeMaskedFrame_def)
  have b: "m_WsBuffer s @ concat (inbox s @ arriving) = concat (map (wire_frame key) fs) @ rest"
    using bytes by simp
  obtain buf' chunks' where r: "buf' @ concat chunks' = rest"
    "readJsonText (parse_object q) ?k (m_WsBuffer s) (inbox s @ arriving) =
      ((case parse_object q (message_of fs) of None \<Rightarrow> Inl InvalidJson | Some j \<Rightarrow> Inr j), buf',
       ?k\<lparr>sent := sent ?k @ pong_frames (next_mask ?k) (length (sent ?k)) (pings_of fs)\<rparr>, chunks')"
    using readJsonText_reads [OF fs [unfolded one_message_def] b, of ?k "parse_object q"] c(3) by auto
  show ?thesis
    using c r w
    by (cases "parse_object q (message_of fs)")
      (auto simp: sendRpc_def sendAndWait_def reply_outcome_def)
qed

lemma reader_nothing:
  "rr_error (reader_read True new_reader []) = None" "rr_needMore (reader_read True new_reader [])"
  "rr_pongs (reader_read True new_reader []) = []" "rr_reader (reader_read True new_reader []) = new_reader"
  "rr_buffer (reader_read True new_reader []) = []"
  by (simp_all add: reader_read.simps [of True new_reader "[]"] takeFrame_def)

lemma readJsonText_nothing:
  assumes "concat chunks = []"
  shows "readJsonText parse k [] chunks = (Inl ReadTimeout, [], k, [])"
  using assms unfolding readJsonText_def
  by (induction chunks) (simp_all add: json_loop.simps [of parse new_reader "[]"] reader_nothing)

lemma sendRpc_nothing:
  assumes "in_step s" and "concat arriving = []"
  shows "\<exists>s'. sendRpc q members arriving s =
        (\<lparr>rpc_ok = False, rpc_error = text_ws q ReadTimeout, rpc_reply = Obj []\<rparr>, s') \<and> in_step s'"
proof -
  obtain k where k: "m_Socket s = Some k" "\<forall>n. write_ok k n" "m_SessionConnected s"
      "m_WsBuffer s = []" "concat (inbox s) = []"
    using assms(1) by (auto simp: in_step_def)
  then have "concat (inbox s @ arriving) = []" using assms(2) by simp
  from readJsonText_nothing [OF this, where parse = "parse_object q"] k show ?thesis
    by (simp add: sendRpc_def sendAndWait_def writeText_def writeMaskedFrame_def in_step_def)
qed

text \<open>A conversation: requests, each with the chunks that arrive while its call waits.\<close>

fun run_rpcs :: "fm_env \<Rightarrow> ((string \<times> json) list \<times> bytes list) list \<Rightarrow> fm_client \<Rightarrow> rpc_result list \<times> fm_client" where
  "run_rpcs q [] s = ([], s)"
| "run_rpcs q ((members, arriving) # cs) s =
     (case sendRpc q members arriving s of (r, s) \<Rightarrow> case run_rpcs q cs s of (rs, s) \<Rightarrow> (r # rs, s))"

definition answers :: "bytes list \<Rightarrow> ws_frame list \<Rightarrow> bool" where
  "answers arriving fs \<longleftrightarrow> one_message fs \<and> concat arriving = concat (map (wire_frame None) fs)"

lemma sendRpc_answered:
  assumes "in_step s" and "answers arriving fs"
  shows "\<exists>s'. sendRpc q members arriving s = (reply_outcome q (message_of fs), s') \<and> in_step s'
    \<and> m_NextRequestId s' = m_NextRequestId s + 1"
proof -
  obtain k where k: "m_Socket s = Some k" "\<forall>n. write_ok k n" "m_SessionConnected s"
      "m_WsBuffer s @ concat (inbox s) = []"
    using assms(1) by (auto simp: in_step_def)
  have "(m_WsBuffer s @ concat (inbox s)) @ concat arriving = concat (map (wire_frame None) fs) @ []"
    using assms(2) k(4) by (simp add: answers_def)
  from sendRpc_reads [OF k(3, 1, 2) _ this, of q members] assms(2) show ?thesis
    by (auto simp: answers_def in_step_def)
qed

section \<open>Properties\<close>

text \<open>
  C24: If the host answers every request with one message while its call waits, each call returns the
  host's answer to it, and the requests are numbered consecutively.
\<close>
theorem rpc_conversation:
  assumes "in_step s" and "list_all2 (\<lambda>c fs. answers (snd c) fs) cs fss"
  shows "fst (run_rpcs q cs s) = map (\<lambda>fs. reply_outcome q (message_of fs)) fss
    \<and> in_step (snd (run_rpcs q cs s))
    \<and> m_NextRequestId (snd (run_rpcs q cs s)) = m_NextRequestId s + of_nat (length cs)"
  using assms(2, 1)
proof (induction arbitrary: s rule: list_all2_induct)
  case (Cons c cs fs fss)
  obtain s' where s': "sendRpc q (fst c) (snd c) s = (reply_outcome q (message_of fs), s')"
    "in_step s'" "m_NextRequestId s' = m_NextRequestId s + 1"
    using sendRpc_answered [OF Cons.prems Cons.hyps(1)] by force
  show ?case
    using Cons.IH [OF s'(2)] s' by (cases c) (auto split: prod.split simp: algebra_simps)
qed simp

text \<open>
  The reply is not matched with the request. If a read times out and its answer comes during the
  next read, of any file, the next read returns the bytes of the first.
\<close>
theorem rpc_reply_of_earlier_request:
  assumes "in_step s" and "answers arriving fs" and "parse_object q (message_of fs) = Some reply"
    and "rpc_ok (rpc_outcome q reply)"
  shows "fst (adapter_read q m2 p2 off2 len2 arriving (snd (adapter_read q m1 p1 off1 len1 [] s)))
      = Inr (from_base64 q (to_str (json_value reply ''data'')))
    \<and> fst (adapter_read q m1 p1 off1 len1 [] s) = Inl (mapRpcError (text_ws q ReadTimeout))"
proof -
  obtain s1 where s1: "sendRpc q (read_fields m1 p1 off1 len1) [] s =
        (\<lparr>rpc_ok = False, rpc_error = text_ws q ReadTimeout, rpc_reply = Obj []\<rparr>, s1)" "in_step s1"
    using sendRpc_nothing [OF assms(1)] by force
  obtain s2 where "sendRpc q (read_fields m2 p2 off2 len2) arriving s1 = (reply_outcome q (message_of fs), s2)"
    using sendRpc_answered [OF s1(2) assms(2)] by force
  then show ?thesis
    using s1(1) assms(3, 4) by (simp add: adapter_read_def reply_outcome_def rpc_outcome_def Let_def)
qed

lemma cut_at_splits: "cut_at pat buf = Some (x, y) \<Longrightarrow> buf = x @ pat @ y"
proof (induction buf arbitrary: x)
  case (Cons b bs)
  show ?case
  proof (cases "take (length pat) (b # bs) = pat")
    case True
    then have "x = []" "y = drop (length pat) (b # bs)" using Cons.prems by simp_all
    then show ?thesis using True append_take_drop_id [of "length pat" "b # bs"] by simp
  next
    case False
    then show ?thesis using Cons by (auto split: option.splits prod.splits)
  qed
qed (simp split: if_splits)

lemma read_upgrade_splits:
  "read_upgrade q buf chunks = (Inr (headers, rest), left)
    \<Longrightarrow> buf @ concat chunks = headers @ blank_line @ rest @ concat left"
proof (induction q buf chunks rule: read_upgrade.induct)
  case (1 q buf chunks)
  show ?case
  proof (cases "cut_at blank_line buf")
    case None
    have big: "\<not> length buf > 64 * 1024" using 1(2) None by (auto simp: read_upgrade.simps [of q buf chunks])
    show ?thesis
    proof (cases chunks)
      case Nil
      then show ?thesis using 1(2) None big by (simp add: read_upgrade.simps [of q buf "[]"])
    next
      case (Cons c cs)
      then have "read_upgrade q (buf @ c) cs = (Inr (headers, rest), left)"
        using 1(2) None big by (simp add: read_upgrade.simps [of q buf "c # cs"])
      then show ?thesis using 1(1) [OF None big Cons] Cons by simp
    qed
  next
    case (Some a)
    obtain x y where a: "a = (x, y)" by force
    then have "headers = x" "rest = y" "left = chunks"
      using 1(2) Some by (simp_all add: read_upgrade.simps [of q buf chunks])
    then show ?thesis using cut_at_splits [OF Some [unfolded a]] by simp
  qed
qed

lemma accept_header_line:
  "accept_header ls \<noteq> [] \<Longrightarrow> \<exists>l\<in>set ls. \<exists>n v. trimmed l = n @ CHR '':'' # v
    \<and> map to_lower (trimmed n) = ''sec-websocket-accept'' \<and> trimmed v = accept_header ls"
proof (induction ls)
  case (Cons l ls)
  let ?n = "takeWhile (\<lambda>c. c \<noteq> CHR '':'') (trimmed l)"
  show ?case
  proof (cases "length ?n = length (trimmed l) \<or> ?n = [] \<or> map to_lower (trimmed ?n) \<noteq> ''sec-websocket-accept''")
    case True
    then have "accept_header (l # ls) = accept_header ls" by (auto simp: Let_def)
    then show ?thesis using Cons by auto
  next
    case False
    then have a: "accept_header (l # ls) = trimmed (drop (Suc (length ?n)) (trimmed l))" by (simp add: Let_def)
    have "length ?n < length (trimmed l)" using False length_takeWhile_le [of _ "trimmed l"] by (meson le_neq_implies_less)
    then have "trimmed l = ?n @ CHR '':'' # drop (Suc (length ?n)) (trimmed l)"
      using nth_length_takeWhile [of "\<lambda>c. c \<noteq> CHR '':''" "trimmed l"] id_take_nth_drop [of "length ?n" "trimmed l"]
      by (simp add: takeWhile_eq_take [symmetric])
    then show ?thesis using False a by (metis list.set_intros(1))
  qed
qed simp

lemma starts_withE: "starts_with p s \<Longrightarrow> \<exists>w. s = p @ w"
  by (metis append_take_drop_id starts_with_def)

lemma upgrade_accepted:
  assumes "check_upgrade q key headers = None"
  shows "\<exists>w. trimmed (hd (split_on CHR 0x0A (chars headers))) \<in> {''HTTP/1.1 101'' @ w, ''HTTP/1.0 101'' @ w}"
    and "accept_header (tl (split_on CHR 0x0A (chars headers)))
      = sha1_base64 q (key @ ''258EAFA5-E914-47DA-95CA-C5AB0DC85B11'')"
  using assms starts_withE [of _ "trimmed (hd (split_on CHR 0x0A (chars headers)))"]
  by (fastforce simp: check_upgrade_def Let_def split: if_splits)+

lemma tls_pinned: "open_tls pinned connection = Some k
    \<Longrightarrow> \<exists>errors. connection = Some (errors, k) \<and> (\<forall>c\<in>set errors. pinned = Some c)"
  by (auto simp: open_tls_def isPinnedCertificateError_def list_all_iff split: option.splits if_splits)

text \<open>
  C25: A session is opened only for a capability that says it is served, over a TLS connection with no
  certificate error but of the paired host's own certificate, after an upgrade answer of the host whose
  first line is the status 101 and a header of which is the accept hash of the key (when that is not
  empty), and a hello that is no error; otherwise none is open (unless nothing was attempted, and then
  nothing changed).
\<close>
theorem session_opened_justified:
  assumes "connectSession q cap url_ok pinned connection key upgrade uuid chunks chunks' s = (e, s')"
    and "sha1_base64 q (key @ ''258EAFA5-E914-47DA-95CA-C5AB0DC85B11'') \<noteq> []"
  shows "(e = None \<longrightarrow> m_SessionConnected s' \<and> cap_ok cap \<and> cap_enabled cap \<and> cap_listening cap \<and> url_ok
      \<and> (\<exists>errors k. connection = Some (errors, k) \<and> (\<forall>c\<in>set errors. pinned = Some c))
      \<and> (\<exists>headers more w. concat chunks = headers @ [13, 10, 13, 10] @ more
           \<and> trimmed (hd (split_on CHR 0x0A (chars headers))) \<in> {''HTTP/1.1 101'' @ w, ''HTTP/1.0 101'' @ w}
           \<and> (\<exists>l\<in>set (tl (split_on CHR 0x0A (chars headers))). \<exists>n v. trimmed l = n @ CHR '':'' # v
                \<and> map to_lower (trimmed n) = ''sec-websocket-accept''
                \<and> trimmed v = sha1_base64 q (key @ ''258EAFA5-E914-47DA-95CA-C5AB0DC85B11'')))
      \<and> to_str (json_value (m_LastHello s') ''type'') \<noteq> ''error'' \<and> m_NextRequestId s' = 1)
    \<and> (e \<noteq> None \<longrightarrow> s' = s \<and> \<not> (cap_ok cap \<and> cap_enabled cap \<and> cap_listening cap \<and> url_ok)
         \<or> \<not> m_SessionConnected s' \<and> m_Socket s' = None)"
proof -
  have closed: "\<not> m_SessionConnected (closeSession t)" "m_Socket (closeSession t) = None" for t
    by (simp_all add: closeSession_def)
  have failed: "e \<noteq> None \<longrightarrow> s' = s \<and> \<not> (cap_ok cap \<and> cap_enabled cap \<and> cap_listening cap \<and> url_ok)
      \<or> \<not> m_SessionConnected s' \<and> m_Socket s' = None"
    using assms(1) by (auto simp: connectSession_def Let_def closed split: if_splits option.splits prod.splits sum.splits)
  have opened: "m_SessionConnected s' \<and> cap_ok cap \<and> cap_enabled cap \<and> cap_listening cap \<and> url_ok
      \<and> (\<exists>k headers rest left. open_tls pinned connection = Some k
           \<and> read_upgrade q [] chunks = (Inr (headers, rest), left) \<and> check_upgrade q key headers = None)
      \<and> to_str (json_value (m_LastHello s') ''type'') \<noteq> ''error'' \<and> m_NextRequestId s' = 1" if "e = None"
    using assms(1) that
    by (auto simp: connectSession_def Let_def rpcReplyError_def split: if_splits option.splits prod.splits sum.splits)
  have answer: "\<exists>more w. concat chunks = headers @ [13, 10, 13, 10] @ more
           \<and> trimmed (hd (split_on CHR 0x0A (chars headers))) \<in> {''HTTP/1.1 101'' @ w, ''HTTP/1.0 101'' @ w}
           \<and> (\<exists>l\<in>set (tl (split_on CHR 0x0A (chars headers))). \<exists>n v. trimmed l = n @ CHR '':'' # v
                \<and> map to_lower (trimmed n) = ''sec-websocket-accept''
                \<and> trimmed v = sha1_base64 q (key @ ''258EAFA5-E914-47DA-95CA-C5AB0DC85B11''))"
    if "read_upgrade q [] chunks = (Inr (headers, rest), left)" "check_upgrade q key headers = None" for headers rest left
    using read_upgrade_splits [OF that(1)] upgrade_accepted [OF that(2)] accept_header_line assms(2)
    unfolding blank_line_def append_Nil by metis
  show ?thesis using failed opened tls_pinned answer by metis
qed

section \<open>A concrete session\<close>

definition result_with :: "string \<Rightarrow> json" where
  "result_with d = Obj [(''type'', Str ''result''), (''data'', Str d)]"

definition plain_env :: fm_env where
  "plain_env = \<lparr>parse_object = (\<lambda>b. Some (result_with (chars b))), print_object = (\<lambda>_. [0]),
     from_base64 = map of_char, sha1_base64 = (\<lambda>k. ''h''), cast_u64 = (\<lambda>_. 0), text_unavailable = ''unavailable'',
     text_bad_url = ''url'', text_tls_failed = ''tls'', text_write_failed = ''write'',
     text_upgrade_too_large = ''large'', text_upgrade_timeout = ''timeout'', text_upgrade_rejected = (\<lambda>s. s),
     text_bad_accept = ''accept'', text_not_connected = ''not connected'',
     text_ws = (\<lambda>_. ''Timed out waiting for WebSocket frame''), text_rpc_error = ''error'', text_code = (\<lambda>c. c),
     text_unexpected = (\<lambda>_. ''unexpected''), text_no_capability = ''none''\<rparr>"

definition open_socket :: ws_socket where
  "open_socket = \<lparr>sent = [], next_mask = (\<lambda>_. 5), write_ok = (\<lambda>_. True)\<rparr>"

definition open_client :: fm_client where
  "open_client = new_client\<lparr>m_Socket := Some open_socket, m_SessionConnected := True\<rparr>"

definition text_frame :: "bytes \<Rightarrow> ws_frame" where
  "text_frame b = \<lparr>fin = True, opcode = 1, payload = b\<rparr>"

lemma open_in_step: "in_step open_client"
  by (simp add: in_step_def open_client_def new_client_def open_socket_def)

lemma answers_with: "length b < 126 \<Longrightarrow> answers [wire_frame None (text_frame b)] [text_frame b]"
  by (simp add: answers_def one_message_def text_frame_def kMaxMessageBytes_def is_control_def)

lemma char_A [simp]: "char_of (65 :: nat) = CHR ''A''" "char_of (66 :: nat) = CHR ''B''"
  by code_simp+

lemma plain_replies [simp]:
  "message_of [text_frame b] = b" "parse_object plain_env b = Some (result_with (chars b))"
  "rpc_ok (rpc_outcome plain_env (result_with d))" "rpc_reply (reply_outcome plain_env b) = result_with (chars b)"
  "from_base64 plain_env d = map of_char d" "json_value (result_with d) ''data'' = Str d"
  by (simp_all add: message_of_def text_frame_def is_control_def reply_outcome_def rpc_outcome_def plain_env_def
      result_with_def rpcReplyError_def)

definition two_reads :: "((string \<times> json) list \<times> bytes list) list" where
  "two_reads = [(read_fields ''m'' ''a'' 0 9, [wire_frame None (text_frame [65])]),
     (read_fields ''m'' ''b'' 0 9, [wire_frame None (text_frame [66])])]"

theorem rpc_conversation_witness:
  "map rpc_reply (fst (run_rpcs plain_env two_reads open_client)) = [result_with ''A'', result_with ''B'']"
proof -
  have a: "list_all2 (\<lambda>c fs. answers (snd c) fs) two_reads [[text_frame [65]], [text_frame [66]]]"
    by (simp add: two_reads_def answers_with)
  show ?thesis using rpc_conversation [OF open_in_step a, of plain_env] by (simp add: chars_def)
qed

theorem rpc_reply_of_earlier_request_witness:
  "fst (adapter_read plain_env ''m'' ''b'' 0 9 [wire_frame None (text_frame [65])]
      (snd (adapter_read plain_env ''m'' ''a'' 0 9 [] open_client))) = Inr [65]"
proof -
  have a: "answers [wire_frame None (text_frame [65])] [text_frame [65]]" by (rule answers_with) simp
  have d: "map of_char (chars [65]) = ([65] :: bytes)" by (simp add: chars_def of_char_def)
  show ?thesis
    using rpc_reply_of_earlier_request [OF open_in_step a, of plain_env "result_with (chars [65])"] d by simp
qed

definition served :: fm_capability where
  "served = \<lparr>cap_ok = True, cap_enabled = True, cap_listening = True, cap_port = 1, cap_endpoint = [], cap_url = [],
     cap_token = [], cap_uuid = [], cap_error = []\<rparr>"

definition upgrade_headers :: bytes where
  "upgrade_headers = [72, 84, 84, 80, 47, 49, 46, 49, 32, 49, 48, 49, 10, 83, 101, 99, 45, 87, 101, 98, 83, 111, 99, 107, 101, 116, 45, 65, 99, 99, 101, 112, 116, 58, 104]"

lemma upgrade_text: "chars upgrade_headers = ''HTTP/1.1 101'' @ [CHR 0x0A] @ ''Sec-WebSocket-Accept:h''"
  by code_simp

lemma lower_name: "map to_lower ''Sec-WebSocket-Accept'' = ''sec-websocket-accept''"
  by code_simp

lemma upgrade_checked: "check_upgrade plain_env ''k'' upgrade_headers = None"
  unfolding check_upgrade_def upgrade_text
  using lower_name by (simp add: trimmed_def is_space_def starts_with_def plain_env_def)

lemma upgrade_read: "read_upgrade plain_env [] [upgrade_headers @ blank_line] = (Inr (upgrade_headers, []), [])"
  by (simp add: read_upgrade.simps upgrade_headers_def blank_line_def)

theorem session_opened_justified_witness:
  "m_SessionConnected (snd (connectSession plain_env served True None (Some ([], open_socket)) ''k'' [] ''u''
       [upgrade_headers @ blank_line] [wire_frame None (text_frame [65])] new_client))"
proof -
  let ?c = "connectSession plain_env served True None (Some ([], open_socket)) ''k'' [] ''u''
       [upgrade_headers @ blank_line] [wire_frame None (text_frame [65])] new_client"
  obtain e s' where c: "?c = (e, s')" by force
  have "one_message [text_frame [65]]"
    by (simp add: one_message_def text_frame_def kMaxMessageBytes_def is_control_def)
  then obtain buf rest k' where r: "readJsonText (parse_object plain_env)
      (open_socket\<lparr>sent := [[], masked_frame 1 [0] 5]\<rparr>) [] [wire_frame None (text_frame [65])]
      = (Inr (result_with (chars [65])), buf, k', rest)"
    using readJsonText_reads [of "[text_frame [65]]" "[]" "[wire_frame None (text_frame [65])]" None "[]"
        "open_socket\<lparr>sent := [[], masked_frame 1 [0] 5]\<rparr>" "parse_object plain_env"]
    by (auto simp: one_message_def open_socket_def)
  have p: "print_object plain_env m = [0]" "rpcReplyError plain_env (result_with d) = None" for m d
    by (simp_all add: plain_env_def rpcReplyError_def result_with_def)
  have "e = None"
    using c r upgrade_read upgrade_checked p
    by (simp add: connectSession_def open_tls_def served_def sendAndWait_def writeText_def writeMaskedFrame_def closeSession_def
        open_socket_def new_client_def)
  then show ?thesis
    using session_opened_justified [OF c] c by (simp add: plain_env_def)
qed

end
