(* ===== verification/RemoteVfs.thy ===== *)
theory RemoteVfs
  imports FileMappingRpc
begin

text \<open>
  The host's shared folders as a tree of items (\<open>src/file-mapping/vfs/protocol_remote_vfs.cpp\<close>): what
  item identifiers stand for, listing, looking up, opening and reading. The protocol client is the
  interface \<open>ProtocolClient\<close>: functions of its state, which \<open>FileMappingProtocolAdapter\<close> provides.
  UTF-8 and base64 are the parameter \<open>id_codec\<close>.
\<close>

section \<open>Paths\<close>

text \<open>\<open>normalizedRemotePath\<close>: a path with \<open>..\<close> becomes the empty path.\<close>

definition slashes :: "string \<Rightarrow> string" where
  "slashes p = map (\<lambda>c. if c = CHR 0x5C then CHR ''/'' else c) p"

definition path_parts :: "string \<Rightarrow> string list" where
  "path_parts p =
     filter (\<lambda>w. w \<noteq> [] \<and> w \<noteq> ''.'') (split_on CHR ''/'' (dropWhile (\<lambda>c. c = CHR ''/'') (slashes p)))"

definition normalizedRemotePath :: "string \<Rightarrow> string" where
  "normalizedRemotePath p =
     (if ''..'' \<in> set (path_parts p) then [] else join_with CHR ''/'' (path_parts p))"

text \<open>A plain component, and a path made of plain components only (the empty path of none).\<close>

definition plain_part :: "string \<Rightarrow> bool" where
  "plain_part w \<longleftrightarrow> w \<noteq> [] \<and> w \<noteq> ''.'' \<and> w \<noteq> ''..'' \<and> CHR ''/'' \<notin> set w \<and> CHR 0x5C \<notin> set w"

definition plain_path :: "string \<Rightarrow> bool" where
  "plain_path p \<longleftrightarrow> p = [] \<or> list_all plain_part (split_on CHR ''/'' p)"

lemma slashes_id: "CHR 0x5C \<notin> set p \<Longrightarrow> slashes p = p"
  by (induction p) (auto simp: slashes_def)

lemma slashes_no_backslash: "CHR 0x5C \<notin> set (slashes p)"
  by (auto simp: slashes_def)

lemma parts_plain: "w \<in> set (path_parts p) \<Longrightarrow> w = ''..'' \<or> plain_part w"
proof -
  assume w: "w \<in> set (path_parts p)"
  let ?d = "dropWhile (\<lambda>c. c = CHR ''/'') (slashes p)"
  have s: "w \<in> set (split_on CHR ''/'' ?d)" using w by (simp add: path_parts_def)
  have "set w \<subseteq> set ?d" using split_on_chars [OF s] .
  moreover have "set ?d \<subseteq> set (slashes p)" by (rule set_dropWhileD [THEN subsetI])
  ultimately have "CHR 0x5C \<notin> set w" using slashes_no_backslash by blast
  then show ?thesis using w split_on_sep [OF s] by (auto simp: path_parts_def plain_part_def)
qed

lemma join_plain:
  assumes "list_all plain_part ws"
  shows "plain_path (join_with CHR ''/'' ws)" and "path_parts (join_with CHR ''/'' ws) = ws"
proof -
  let ?j = "join_with CHR ''/'' ws"
  have sep: "CHR ''/'' \<notin> \<Union> (set ` set ws)" and bs: "CHR 0x5C \<notin> \<Union> (set ` set ws)"
    using assms by (auto simp: list_all_iff plain_part_def)
  have split: "split_on CHR ''/'' ?j = ws" if "ws \<noteq> []" using split_join [OF that sep] .
  show "plain_path ?j"
    using assms split by (cases "ws = []") (simp_all add: plain_path_def)
  have "CHR 0x5C \<notin> set ?j" using join_chars [of "CHR ''/''" ws] bs by auto
  moreover have "dropWhile (\<lambda>c. c = CHR ''/'') ?j = ?j"
    using assms by (cases ws; cases "hd ws"; cases "tl ws") (auto simp: list_all_iff plain_part_def)
  moreover have "filter (\<lambda>w. w \<noteq> [] \<and> w \<noteq> ''.'') ws = ws"
    using assms by (auto simp: list_all_iff plain_part_def intro: filter_True)
  ultimately show "path_parts ?j = ws"
    using split by (cases "ws = []") (simp_all add: path_parts_def slashes_id)
qed

lemma normalized_plain: "plain_path (normalizedRemotePath p)"
  using parts_plain [of _ p] join_plain(1) [of "path_parts p"]
  by (auto simp: normalizedRemotePath_def list_all_iff plain_path_def)

lemma normalized_id: "plain_path p \<Longrightarrow> normalizedRemotePath p = p"
proof (cases "p = []")
  case True
  then show ?thesis by (simp add: normalizedRemotePath_def path_parts_def slashes_def)
next
  case False
  assume "plain_path p"
  then have l: "list_all plain_part (split_on CHR ''/'' p)" using False by (simp add: plain_path_def)
  have "path_parts p = split_on CHR ''/'' p" using join_plain(2) [OF l] by simp
  moreover have "''..'' \<notin> set (split_on CHR ''/'' p)" using l by (auto simp: list_all_iff plain_part_def)
  ultimately show ?thesis by (simp add: normalizedRemotePath_def)
qed

section \<open>Identifiers\<close>

record id_codec =
  encodePart :: "string \<Rightarrow> string"
  decodePart :: "string \<Rightarrow> string option"

datatype parsed_id = Invalid_id | Root_id | Mapping_id string | Node_id string string

definition root_id :: string where "root_id = ''root''"

definition mappingId :: "id_codec \<Rightarrow> string \<Rightarrow> string" where
  "mappingId c m = ''mapping:'' @ encodePart c m"

definition nodeId :: "id_codec \<Rightarrow> string \<Rightarrow> string \<Rightarrow> string" where
  "nodeId c m p = ''node:'' @ encodePart c m @ '':'' @ encodePart c (normalizedRemotePath p)"

definition parse_node :: "id_codec \<Rightarrow> string list \<Rightarrow> parsed_id" where
  "parse_node c parts =
     (if length parts \<noteq> 3 then Invalid_id
      else case (decodePart c (parts ! 1), decodePart c (parts ! 2)) of
        (Some m, Some p) \<Rightarrow>
          let p = normalizedRemotePath p in if m \<noteq> [] \<and> p \<noteq> [] then Node_id m p else Invalid_id
      | _ \<Rightarrow> Invalid_id)"

definition parseId :: "id_codec \<Rightarrow> string \<Rightarrow> parsed_id" where
  "parseId c i =
     (if i = root_id then Root_id
      else if starts_with ''mapping:'' i
      then (case decodePart c (drop 8 i) of Some m \<Rightarrow> if m \<noteq> [] then Mapping_id m else Invalid_id | None \<Rightarrow> Invalid_id)
      else if starts_with ''node:'' i then parse_node c (split_on CHR '':'' i)
      else Invalid_id)"

section \<open>Items and handles\<close>

record vfs_item =
  item_id :: string
  parent_id :: string
  display_name :: string
  item_mapping :: string
  item_path :: string
  is_directory :: bool
  item_size :: u64

record read_handle =
  handle_id :: u64
  handle_item :: vfs_item

record 'c protocol_client =
  cl_mappings :: "'c \<Rightarrow> remote_mapping list"
  cl_list :: "string \<Rightarrow> string \<Rightarrow> 'c \<Rightarrow> (fm_error + remote_entry list) \<times> 'c"
  cl_stat :: "string \<Rightarrow> string \<Rightarrow> 'c \<Rightarrow> (fm_error + remote_stat) \<times> 'c"
  cl_read :: "string \<Rightarrow> string \<Rightarrow> u64 \<Rightarrow> u32 \<Rightarrow> 'c \<Rightarrow> (fm_error + bytes) \<times> 'c"

text \<open>The state, with the mappings and paths asked of the client as history.\<close>

record 'c vfs =
  client :: 'c
  m_NextHandleId :: u64
  m_OpenHandles :: "u64 \<Rightarrow> read_handle option"
  asked :: "(string \<times> string) list"

definition new_vfs :: "'c \<Rightarrow> 'c vfs" where
  "new_vfs k = \<lparr>client = k, m_NextHandleId = 1, m_OpenHandles = (\<lambda>_. None), asked = []\<rparr>"

definition unavailable :: fm_error where
  "unavailable = make_error E_Unavailable ''File mapping protocol client is not available''"

definition invalidItemError :: "string \<Rightarrow> fm_error" where
  "invalidItemError i = make_error E_NotFound (''Invalid file mapping VFS item id: '' @ i)"

section \<open>Operations\<close>

definition mappingItem :: "id_codec \<Rightarrow> remote_mapping \<Rightarrow> vfs_item" where
  "mappingItem c m = \<lparr>item_id = mappingId c (map_id m), parent_id = root_id,
     display_name = (if map_name m = [] then map_id m else map_name m), item_mapping = map_id m,
     item_path = [], is_directory = True, item_size = 0\<rparr>"

definition entryItem :: "id_codec \<Rightarrow> string \<Rightarrow> remote_entry \<Rightarrow> vfs_item" where
  "entryItem c parent e = \<lparr>item_id = nodeId c (entry_mapping e) (entry_path e), parent_id = parent,
     display_name = entry_name e, item_mapping = entry_mapping e,
     item_path = normalizedRemotePath (entry_path e), is_directory = entry_directory e,
     item_size = entry_size e\<rparr>"

definition list_items :: "id_codec \<Rightarrow> 'c protocol_client \<Rightarrow> string \<Rightarrow> string \<Rightarrow> string \<Rightarrow> 'c vfs
    \<Rightarrow> (fm_error + vfs_item list) \<times> 'c vfs" where
  "list_items c ops i m p v =
     (case cl_list ops m p (client v) of (r, k) \<Rightarrow>
        (case r of Inl e \<Rightarrow> Inl e | Inr es \<Rightarrow> Inr (map (entryItem c i) es),
         v\<lparr>client := k, asked := asked v @ [(m, p)]\<rparr>))"

definition vfs_children :: "id_codec \<Rightarrow> 'c protocol_client option \<Rightarrow> string \<Rightarrow> 'c vfs
    \<Rightarrow> (fm_error + vfs_item list) \<times> 'c vfs" where
  "vfs_children c cl i v =
     (case cl of
        None \<Rightarrow> (Inl unavailable, v)
      | Some ops \<Rightarrow>
          (case parseId c i of
             Root_id \<Rightarrow> (Inr (map (mappingItem c) (cl_mappings ops (client v))), v)
           | Mapping_id m \<Rightarrow> list_items c ops i m [] v
           | Node_id m p \<Rightarrow> list_items c ops i m p v
           | Invalid_id \<Rightarrow> (Inl (invalidItemError i), v)))"

text \<open>The part of a path after its last slash, and the position of that slash.\<close>

definition after_slash :: "string \<Rightarrow> string" where
  "after_slash p = rev (takeWhile (\<lambda>c. c \<noteq> CHR ''/'') (rev p))"

definition last_slash :: "string \<Rightarrow> int" where
  "last_slash p = int (length p) - int (length (after_slash p)) - 1"

definition node_item :: "id_codec \<Rightarrow> string \<Rightarrow> string \<Rightarrow> string \<Rightarrow> remote_stat \<Rightarrow> vfs_item" where
  "node_item c i m p st = \<lparr>item_id = i,
     parent_id = (if last_slash p > 0 then nodeId c m (take (nat (last_slash p)) p) else mappingId c m),
     display_name = (if last_slash p \<ge> 0 then drop (nat (last_slash p) + 1) p else p),
     item_mapping = m, item_path = p, is_directory = stat_directory st, item_size = stat_size st\<rparr>"

definition root_item :: vfs_item where
  "root_item = \<lparr>item_id = root_id, parent_id = [], display_name = ''Moonlight Host Files'', item_mapping = [],
     item_path = [], is_directory = True, item_size = 0\<rparr>"

definition vfs_get :: "id_codec \<Rightarrow> 'c protocol_client option \<Rightarrow> string \<Rightarrow> 'c vfs
    \<Rightarrow> (fm_error + vfs_item) \<times> 'c vfs" where
  "vfs_get c cl i v =
     (case cl of
        None \<Rightarrow> (Inl unavailable, v)
      | Some ops \<Rightarrow>
          (case parseId c i of
             Root_id \<Rightarrow> (Inr root_item, v)
           | Mapping_id m \<Rightarrow>
               (case filter (\<lambda>x. map_id x = m) (cl_mappings ops (client v)) of
                  x # _ \<Rightarrow> Inr (mappingItem c x)
                | [] \<Rightarrow> Inl (make_error E_NotFound ''Shared folder was not found''), v)
           | Invalid_id \<Rightarrow> (Inl (invalidItemError i), v)
           | Node_id m p \<Rightarrow>
               (case cl_stat ops m p (client v) of (r, k) \<Rightarrow>
                  (case r of
                     Inl e \<Rightarrow> Inl e
                   | Inr st \<Rightarrow>
                       if stat_exists st then Inr (node_item c i m p st)
                       else Inl (make_error E_NotFound ''Remote item was not found''),
                   v\<lparr>client := k, asked := asked v @ [(m, p)]\<rparr>))))"

definition vfs_open :: "id_codec \<Rightarrow> 'c protocol_client option \<Rightarrow> string \<Rightarrow> 'c vfs
    \<Rightarrow> (fm_error + read_handle) \<times> 'c vfs" where
  "vfs_open c cl i v =
     (case vfs_get c cl i v of
        (Inl e, v) \<Rightarrow> (Inl e, v)
      | (Inr x, v) \<Rightarrow>
          if is_directory x then (Inl (make_error E_Unsupported ''Cannot open a directory for reading''), v)
          else let h = \<lparr>handle_id = m_NextHandleId v, handle_item = x\<rparr>
               in (Inr h, v\<lparr>m_NextHandleId := m_NextHandleId v + 1,
                           m_OpenHandles := (m_OpenHandles v)(handle_id h \<mapsto> h)\<rparr>))"

text \<open>The item of the stored handle counts, not the one the caller passes.\<close>

definition vfs_read :: "'c protocol_client option \<Rightarrow> read_handle \<Rightarrow> u64 \<Rightarrow> u32 \<Rightarrow> 'c vfs
    \<Rightarrow> (fm_error + bytes) \<times> 'c vfs" where
  "vfs_read cl h off len v =
     (case cl of
        None \<Rightarrow> (Inl unavailable, v)
      | Some ops \<Rightarrow>
          if handle_id h = 0 \<or> item_id (handle_item h) = [] \<or> m_OpenHandles v (handle_id h) = None
          then (Inl (make_error E_NotFound ''Read handle is not open''), v)
          else let x = handle_item (the (m_OpenHandles v (handle_id h))) in
            if is_directory x then (Inl (make_error E_Unsupported ''Cannot read a directory''), v)
            else (case cl_read ops (item_mapping x) (item_path x) off len (client v) of (r, k) \<Rightarrow>
                    (r, v\<lparr>client := k, asked := asked v @ [(item_mapping x, item_path x)]\<rparr>)))"

definition vfs_close :: "read_handle \<Rightarrow> 'c vfs \<Rightarrow> 'c vfs" where
  "vfs_close h v = v\<lparr>m_OpenHandles := (m_OpenHandles v)(handle_id h := None)\<rparr>"

text \<open>Any use of it.\<close>

datatype vfs_event =
    Vfs_children string | Vfs_item string | Vfs_open string | Vfs_read read_handle u64 u32 | Vfs_close read_handle

definition vfs_step :: "id_codec \<Rightarrow> 'c protocol_client option \<Rightarrow> 'c vfs \<Rightarrow> vfs_event \<Rightarrow> 'c vfs" where
  "vfs_step c cl v e =
     (case e of
        Vfs_children i \<Rightarrow> snd (vfs_children c cl i v)
      | Vfs_item i \<Rightarrow> snd (vfs_get c cl i v)
      | Vfs_open i \<Rightarrow> snd (vfs_open c cl i v)
      | Vfs_read h off len \<Rightarrow> snd (vfs_read cl h off len v)
      | Vfs_close h \<Rightarrow> vfs_close h v)"

section \<open>What is asked of the host\<close>

lemma parse_plain: "parseId c i = Node_id m p \<Longrightarrow> m \<noteq> [] \<and> p \<noteq> [] \<and> plain_path p"
  by (auto simp: parseId_def parse_node_def Let_def normalized_plain split: if_splits option.splits)

definition vfs_ok :: "'c vfs \<Rightarrow> bool" where
  "vfs_ok v \<longleftrightarrow> (\<forall>(m, p)\<in>set (asked v). plain_path p)
     \<and> (\<forall>n h. m_OpenHandles v n = Some h \<longrightarrow> handle_id h = n \<and> \<not> is_directory (handle_item h)
          \<and> plain_path (item_path (handle_item h)))"

lemma plain_Nil [simp]: "plain_path []"
  by (simp add: plain_path_def)

lemma list_ok: "vfs_ok v \<Longrightarrow> plain_path p \<Longrightarrow> vfs_ok (snd (list_items c ops i m p v))"
  by (auto simp: list_items_def vfs_ok_def split: prod.split)

lemma children_ok: "vfs_ok v \<Longrightarrow> vfs_ok (snd (vfs_children c cl i v))"
  using parse_plain [of c i]
  by (auto simp: vfs_children_def list_ok split: option.split parsed_id.split)

lemma get_ok:
  assumes "vfs_ok v" and "vfs_get c cl i v = (r, v')"
  shows "vfs_ok v'" and "m_NextHandleId v' = m_NextHandleId v" and "m_OpenHandles v' = m_OpenHandles v"
    and "r = Inr x \<Longrightarrow> is_directory x \<or> plain_path (item_path x)"
  using assms parse_plain [of c i]
  by (auto simp: vfs_get_def vfs_ok_def root_item_def mappingItem_def node_item_def
      split: option.splits parsed_id.splits list.splits prod.splits sum.splits if_splits)

lemma get_next: "m_NextHandleId (snd (vfs_get c cl i v)) = m_NextHandleId v"
  by (auto simp: vfs_get_def split: option.split parsed_id.split prod.split)

lemma open_ok: "vfs_ok v \<Longrightarrow> vfs_ok (snd (vfs_open c cl i v))"
proof -
  assume v: "vfs_ok v"
  obtain r v' where g: "vfs_get c cl i v = (r, v')" by force
  show ?thesis
    using get_ok [OF v g] g
    by (cases r) (auto simp: vfs_open_def Let_def vfs_ok_def)
qed

lemma read_ok: "vfs_ok v \<Longrightarrow> vfs_ok (snd (vfs_read cl h off len v))"
  by (auto simp: vfs_read_def vfs_ok_def Let_def split: option.split prod.split)

lemma close_ok: "vfs_ok v \<Longrightarrow> vfs_ok (vfs_close h v)"
  by (auto simp: vfs_close_def vfs_ok_def)

lemma step_vfs_ok: "vfs_ok v \<Longrightarrow> vfs_ok (vfs_step c cl v e)"
  using get_ok(1) [of v c cl]
  by (cases e) (auto simp: vfs_step_def children_ok open_ok read_ok close_ok simp del: split_paired_All
      intro: get_ok(1) [OF _ prod.collapse [symmetric]])

section \<open>Round trips of identifiers\<close>

definition faithful_ids :: "id_codec \<Rightarrow> bool" where
  "faithful_ids c \<longleftrightarrow> (\<forall>s. CHR '':'' \<notin> set (encodePart c s))
     \<and> (\<forall>s. s \<noteq> [] \<longrightarrow> decodePart c (encodePart c s) = Some s)
     \<and> decodePart c (encodePart c []) \<in> {None, Some []}"

lemma parse_mapping: "faithful_ids c \<Longrightarrow> m \<noteq> [] \<Longrightarrow> parseId c (mappingId c m) = Mapping_id m"
  by (simp add: parseId_def mappingId_def faithful_ids_def starts_with_def root_id_def)

lemma parse_nodeId:
  assumes "faithful_ids c" and "m \<noteq> []"
  shows "parseId c (nodeId c m p) =
    (if normalizedRemotePath p = [] then Invalid_id else Node_id m (normalizedRemotePath p))"
proof -
  let ?p = "normalizedRemotePath p"
  have "split_on CHR '':'' (''node'' @ CHR '':'' # encodePart c m @ CHR '':'' # encodePart c ?p) =
      [''node'', encodePart c m, encodePart c ?p]"
    using assms(1) by (simp only: split_on_append split_on_word faithful_ids_def) (simp add: split_on_append split_on_word)
  then have split: "split_on CHR '':'' (nodeId c m p) = [''node'', encodePart c m, encodePart c ?p]"
    by (simp add: nodeId_def)
  have "normalizedRemotePath ?p = ?p" using normalized_id normalized_plain by blast
  then have "parse_node c [''node'', encodePart c m, encodePart c ?p] =
      (if ?p = [] then Invalid_id else Node_id m ?p)"
    using assms by (cases "?p = []") (auto simp: parse_node_def faithful_ids_def normalized_id)
  moreover have "parseId c (nodeId c m p) = parse_node c (split_on CHR '':'' (nodeId c m p))"
    by (simp add: parseId_def nodeId_def starts_with_def root_id_def)
  ultimately show ?thesis using split by simp
qed

text \<open>Extending a path by one plain name.\<close>

definition below_path :: "string \<Rightarrow> string \<Rightarrow> string" where
  "below_path p name = (if p = [] then name else p @ CHR ''/'' # name)"

lemma below_plain: "plain_path p \<Longrightarrow> plain_part name \<Longrightarrow> plain_path (below_path p name)"
proof (cases "p = []")
  case True
  assume "plain_part name"
  then show ?thesis using True by (simp add: below_path_def plain_path_def plain_part_def split_on_word)
next
  case False
  assume p: "plain_path p" "plain_part name"
  have l: "list_all plain_part (split_on CHR ''/'' p @ [name])" using p False by (simp add: plain_path_def)
  have "join_with CHR ''/'' (ws @ [name]) = join_with CHR ''/'' ws @ CHR ''/'' # name" if "ws \<noteq> []" for ws
    using that by (induction "CHR ''/''" ws rule: join_with.induct) (auto simp: join_with_Cons)
  then have "join_with CHR ''/'' (split_on CHR ''/'' p @ [name]) = below_path p name"
    using False by (simp add: below_path_def)
  then show ?thesis using join_plain(1) [OF l] by simp
qed

lemma below_slash:
  assumes "plain_part name"
  shows "last_slash (below_path p name) = (if p = [] then -1 else int (length p))"
    and "after_slash (below_path p name) = name"
proof -
  have t: "takeWhile (\<lambda>c. c \<noteq> CHR ''/'') (rev name @ CHR ''/'' # r) = rev name" for r
    using assms by (subst takeWhile_append2) (auto simp: plain_part_def)
  have u: "takeWhile (\<lambda>c. c \<noteq> CHR ''/'') (rev name) = rev name"
    using assms by (auto simp: plain_part_def)
  show a: "after_slash (below_path p name) = name"
    by (simp add: after_slash_def below_path_def t u)
  show "last_slash (below_path p name) = (if p = [] then -1 else int (length p))"
    unfolding last_slash_def a by (simp add: below_path_def)
qed

section \<open>Properties\<close>

text \<open>
  C22: Whatever identifiers and handles the operating system passes and whatever the host answers, the
  paths asked of the host are made of plain components: no empty one, no dot or dot-dot, no backslash.
\<close>
theorem vfs_asks_plain_paths:
  "list_all (\<lambda>(m, p). p = [] \<or> list_all plain_part (split_on CHR ''/'' p))
     (asked (run_events (vfs_step c cl) (new_vfs k) es))"
proof -
  have "vfs_ok (new_vfs k)" by (simp add: vfs_ok_def new_vfs_def)
  then have "vfs_ok (run_events (vfs_step c cl) (new_vfs k) es)"
    by (rule run_events_invariant) (rule step_vfs_ok)
  then show ?thesis by (auto simp: vfs_ok_def plain_path_def list_all_iff)
qed

text \<open>
  C23: The folder tree is consistent: an entry with a plain name in a listed folder gets the identifier
  of the path below that folder, and looking it up gives the name and the folder back.
\<close>
theorem vfs_tree:
  assumes "faithful_ids c" and "m \<noteq> []" and "plain_path p"
    and "name = to_str (json_value j ''name'')" and "plain_part name"
    and "x = entryItem c i (entryFromJson q m p j)"
  shows "parseId c (item_id x) = Node_id m (below_path p name) \<and> display_name x = name
    \<and> display_name (node_item c (item_id x) m (below_path p name) st) = name
    \<and> parent_id (node_item c (item_id x) m (below_path p name) st)
        = (if p = [] then mappingId c m else nodeId c m p)"
proof -
  have "\<not> ends_with ''/'' p" if "p \<noteq> []"
  proof
    assume e: "ends_with ''/'' p"
    obtain q where "p = q @ ''/''"
      using e by (metis append_butlast_last_id ends_with_def list.sel(1) list.size(3, 4) rev.simps(2) rev_rev_ident
          starts_with_def take0 that append_take_drop_id rev_append)
    then have "[] \<in> set (split_on CHR ''/'' p)" by (simp add: split_on_snoc)
    then show False using assms(3) that by (auto simp: plain_path_def list_all_iff plain_part_def)
  qed
  then have path: "entry_path (entryFromJson q m p j) = below_path p name"
    using assms(4) by (auto simp: entryFromJson_def Let_def below_path_def)
  have pl: "plain_path (below_path p name)" using below_plain assms(3, 5) .
  have ne: "below_path p name \<noteq> []" using assms(5) by (simp add: below_path_def plain_part_def)
  have id: "item_id x = nodeId c m (below_path p name)" "display_name x = name"
    using assms(4, 6) path by (simp_all add: entryItem_def) (simp_all add: entryFromJson_def Let_def)
  have "parseId c (item_id x) = Node_id m (below_path p name)"
    unfolding id(1) using parse_nodeId [OF assms(1, 2)] normalized_id [OF pl] ne by simp
  moreover have "display_name (node_item c (item_id x) m (below_path p name) st) = name"
    using below_slash [OF assms(5), of p] by (auto simp: node_item_def below_path_def nat_add_distrib)
  moreover have "parent_id (node_item c (item_id x) m (below_path p name) st)
      = (if p = [] then mappingId c m else nodeId c m p)"
    using below_slash [OF assms(5), of p] by (auto simp: node_item_def below_path_def)
  ultimately show ?thesis using id(2) by simp
qed

text \<open>
  A handle is worth what was opened: it reads the item that was opened until it is closed, whatever
  item the caller claims it has, and nothing is asked of the host for a handle that is not open.
\<close>
theorem vfs_handles:
  assumes "vfs_open c (Some ops) i v = (Inr h, v')" and "m_NextHandleId v \<noteq> 0"
  shows "vfs_read (Some ops) (h\<lparr>handle_item := x\<rparr>) off len v' =
      (if item_id x = [] then (Inl (make_error E_NotFound ''Read handle is not open''), v')
       else (fst (cl_read ops (item_mapping (handle_item h)) (item_path (handle_item h)) off len (client v')),
             v'\<lparr>client := snd (cl_read ops (item_mapping (handle_item h)) (item_path (handle_item h)) off len (client v')),
                asked := asked v' @ [(item_mapping (handle_item h), item_path (handle_item h))]\<rparr>))
    \<and> vfs_read (Some ops) h off len (vfs_close h v') =
        (Inl (make_error E_NotFound ''Read handle is not open''), vfs_close h v')"
proof -
  have "handle_id h \<noteq> 0 \<and> m_OpenHandles v' (handle_id h) = Some h \<and> \<not> is_directory (handle_item h)"
    using assms get_next [of c "Some ops" i v]
    by (auto simp: vfs_open_def Let_def split: prod.splits sum.splits if_splits)
  then show ?thesis by (auto simp: vfs_read_def vfs_close_def Let_def split: prod.split)
qed

section \<open>A concrete tree\<close>

text \<open>An encoding without colons, and a host with one shared folder \<open>m\<close> that has the file \<open>f\<close>.\<close>

fun escape :: "string \<Rightarrow> string" where
  "escape [] = []"
| "escape (c # s) = (if c = CHR '':'' then ''!c'' else if c = CHR ''!'' then ''!!'' else [c]) @ escape s"

fun unescape :: "string \<Rightarrow> string" where
  "unescape (a # b # s) =
     (if a = CHR ''!'' then (if b = CHR ''c'' then CHR '':'' else b) # unescape s else a # unescape (b # s))"
| "unescape s = s"

lemma unescape_escape: "unescape (escape s) = s"
proof (induction s)
  case (Cons c s)
  then show ?case by (cases "escape s") auto
qed simp

lemma escape_no_colon: "CHR '':'' \<notin> set (escape s)"
  by (induction s) auto

definition plain_ids :: id_codec where
  "plain_ids = \<lparr>encodePart = escape, decodePart = (\<lambda>s. Some (unescape s))\<rparr>"

lemma plain_ids_faithful: "faithful_ids plain_ids"
  by (simp add: faithful_ids_def plain_ids_def unescape_escape escape_no_colon)

definition one_file :: "unit protocol_client" where
  "one_file = \<lparr>cl_mappings = (\<lambda>_. []), cl_list = (\<lambda>_ _ k. (Inr [], k)),
     cl_stat = (\<lambda>_ p k. (Inr \<lparr>stat_exists = (p = ''f''), stat_directory = False, stat_size = 1\<rparr>, k)),
     cl_read = (\<lambda>_ _ _ _ k. (Inr [7], k))\<rparr>"

definition file_node :: json where "file_node = Obj [(''name'', Str ''f''), (''kind'', Str ''file'')]"

theorem vfs_tree_witness:
  "parseId plain_ids (item_id (entryItem plain_ids ''mapping:m'' (entryFromJson plain_env ''m'' [] file_node)))
   = Node_id ''m'' ''f''"
proof -
  have "to_str (json_value file_node ''name'') = ''f''" "plain_part ''f''"
    by (simp_all add: file_node_def plain_part_def)
  then have "parseId plain_ids (item_id (entryItem plain_ids ''mapping:m'' (entryFromJson plain_env ''m'' [] file_node)))
      = Node_id ''m'' (below_path [] ''f'')"
    using vfs_tree [OF plain_ids_faithful, of "''m''" "[]" "''f''" file_node
        "entryItem plain_ids ''mapping:m'' (entryFromJson plain_env ''m'' [] file_node)" "''mapping:m''" plain_env]
    by fastforce
  then show ?thesis by (simp add: below_path_def)
qed

definition opened_file :: "(fm_error + read_handle) \<times> unit vfs" where
  "opened_file = vfs_open plain_ids (Some one_file) (nodeId plain_ids ''m'' ''f'') (new_vfs ())"

theorem vfs_handles_witness:
  "\<exists>h. fst opened_file = Inr h
    \<and> fst (vfs_read (Some one_file) h 0 1 (vfs_close h (snd opened_file)))
        = Inl (make_error E_NotFound ''Read handle is not open'')"
proof -
  have "\<exists>h v'. opened_file = (Inr h, v')"
    using parse_nodeId [OF plain_ids_faithful, of "''m''" "''f''"]
    by (simp add: opened_file_def vfs_open_def vfs_get_def one_file_def node_item_def new_vfs_def Let_def
        normalizedRemotePath_def path_parts_def slashes_def)
  then obtain h v' where o: "opened_file = (Inr h, v')" by blast
  have "m_NextHandleId (new_vfs ()) \<noteq> 0" by (simp add: new_vfs_def)
  then have "vfs_read (Some one_file) h 0 1 (vfs_close h v')
      = (Inl (make_error E_NotFound ''Read handle is not open''), vfs_close h v')"
    using vfs_handles [OF o [unfolded opened_file_def]] by blast
  then show ?thesis by (simp add: o)
qed

end
