(* ===== verification/QtArg.thy ===== *)
theory QtArg
  imports TextOps
begin

text \<open>
  \<open>QString::arg\<close>: the occurrences of the lowest-numbered place marker are replaced. A marker is a
  percent sign, an optional \<open>L\<close> and one or two digits. Also decimal numbers, as \<open>arg\<close> prints them.
\<close>

definition digit :: "char \<Rightarrow> nat option" where
  "digit c = (let n = (of_char c :: nat) in if 48 \<le> n \<and> n \<le> 57 then Some (n - 48) else None)"

text \<open>The number of a marker and the text behind it, if the text after a percent sign goes on as one.\<close>

definition marker_digits :: "string \<Rightarrow> (nat \<times> string) option" where
  "marker_digits s =
     (case s of
        [] \<Rightarrow> None
      | c # r \<Rightarrow>
          (case digit c of
             None \<Rightarrow> None
           | Some d \<Rightarrow>
               (case r of
                  [] \<Rightarrow> Some (d, [])
                | c' # r' \<Rightarrow> (case digit c' of None \<Rightarrow> Some (d, r) | Some d' \<Rightarrow> Some (10 * d + d', r')))))"

definition marker :: "string \<Rightarrow> (nat \<times> string) option" where
  "marker s = (if s \<noteq> [] \<and> hd s = CHR ''L'' then marker_digits (tl s) else marker_digits s)"

lemma marker_digits_shorter: "marker_digits s = Some (n, r) \<Longrightarrow> length r < length s"
  by (auto simp: marker_digits_def split: list.splits option.splits)

lemma marker_shorter: "marker s = Some (n, r) \<Longrightarrow> length r < length s"
  using marker_digits_shorter [of s] marker_digits_shorter [of "tl s"]
  by (cases s) (auto simp: marker_def split: if_splits dest: less_SucI)

text \<open>A text as characters and markers; a marker keeps its own text.\<close>

function tokens :: "string \<Rightarrow> (char + nat \<times> string) list" where
  "tokens [] = []"
| "tokens (c # s) =
     (case (if c = CHR ''%'' then marker s else None) of
        None \<Rightarrow> Inl c # tokens s
      | Some (n, r) \<Rightarrow> Inr (n, c # take (length s - length r) s) # tokens r)"
  by pat_completeness auto
termination
  by (relation "measure length") (auto split: if_splits dest: marker_shorter)

declare tokens.simps(2) [simp del]

definition lowest :: "string \<Rightarrow> nat option" where
  "lowest s = (case [n. Inr (n, t) \<leftarrow> tokens s] of [] \<Rightarrow> None | n # ns \<Rightarrow> Some (fold min ns n))"

definition put_arg :: "nat \<Rightarrow> string \<Rightarrow> char + nat \<times> string \<Rightarrow> string" where
  "put_arg n a t = (case t of Inl c \<Rightarrow> [c] | Inr (m, u) \<Rightarrow> if m = n then a else u)"

definition qt_arg :: "string \<Rightarrow> string \<Rightarrow> string" where
  "qt_arg s a = (case lowest s of None \<Rightarrow> s | Some n \<Rightarrow> concat (map (put_arg n a) (tokens s)))"

fun decimal :: "nat \<Rightarrow> string" where
  "decimal n = (if n < 10 then [char_of (48 + n)] else decimal (n div 10) @ [char_of (48 + n mod 10)])"

declare decimal.simps [simp del]

lemma marker_digits_suffix: "marker_digits s = Some (n, r) \<Longrightarrow> \<exists>t. s = t @ r"
  by (auto simp: marker_digits_def split: list.splits option.splits)

lemma marker_suffix: "marker s = Some (n, r) \<Longrightarrow> s = take (length s - length r) s @ r"
proof -
  assume m: "marker s = Some (n, r)"
  have "\<exists>t. s = t @ r"
  proof (cases "s \<noteq> [] \<and> hd s = CHR ''L''")
    case True
    then have "marker_digits (tl s) = Some (n, r)" using m by (simp add: marker_def)
    then obtain t where "tl s = t @ r" using marker_digits_suffix by blast
    then have "s = (hd s # t) @ r" using True by (cases s) auto
    then show ?thesis by blast
  next
    case False
    then have "marker_digits s = Some (n, r)" using m by (simp add: marker_def split: if_splits)
    then show ?thesis by (rule marker_digits_suffix)
  qed
  then show ?thesis by auto
qed

text \<open>The tokens are the text.\<close>

lemma tokens_text: "concat (map (\<lambda>t. case t of Inl c \<Rightarrow> [c] | Inr (n, u) \<Rightarrow> u) (tokens s)) = s"
proof (induction s rule: tokens.induct)
  case (2 c s)
  show ?case
  proof (cases "if c = CHR ''%'' then marker s else None")
    case None
    then show ?thesis using 2(1) [OF None] by (simp add: tokens.simps(2) [of c s])
  next
    case (Some a)
    obtain n r where a: "a = (n, r)" by force
    then have "s = take (length s - length r) s @ r" using Some marker_suffix by (auto split: if_splits)
    then show ?thesis using 2(2) [OF Some a [symmetric]] Some a by (simp add: tokens.simps(2) [of c s])
  qed
qed simp

lemma arg_chars: "set (qt_arg s a) \<subseteq> set s \<union> set a"
proof (cases "lowest s")
  case (Some n)
  have "set (put_arg n a t) \<subseteq> set (case t of Inl c \<Rightarrow> [c] | Inr (n, u) \<Rightarrow> u) \<union> set a" for t
    by (auto simp: put_arg_def split: sum.splits prod.splits if_splits)
  then have "set (concat (map (put_arg n a) ts))
      \<subseteq> set (concat (map (\<lambda>t. case t of Inl c \<Rightarrow> [c] | Inr (n, u) \<Rightarrow> u) ts)) \<union> set a" for ts
    by (induction ts) auto
  from this [of "tokens s"] show ?thesis by (simp add: qt_arg_def Some tokens_text)
qed (simp add: qt_arg_def)

text \<open>A marker in the text: the argument is in the result.\<close>

lemma fold_min_in: "fold min ns (n :: nat) \<in> set (n # ns)"
  by (induction ns arbitrary: n) (auto simp: min_def)

lemma arg_inserted:
  assumes "Inr m \<in> set (tokens s)" and "x \<in> set a"
  shows "x \<in> set (qt_arg s a)"
proof -
  let ?ns = "[n. Inr (n, t) \<leftarrow> tokens s]"
  have ne: "?ns \<noteq> []" using assms(1) by (cases m) (auto simp: image_iff split: sum.splits intro!: bexI [of _ "Inr m"])
  then obtain n where n: "lowest s = Some n" "n \<in> set ?ns"
    using fold_min_in by (cases ?ns) (auto simp: lowest_def)
  then obtain t where "Inr (n, t) \<in> set (tokens s)" by (auto split: sum.splits)
  then have "set a \<subseteq> set (concat (map (put_arg n a) (tokens s)))"
    by (force simp: put_arg_def)
  then show ?thesis using n(1) assms(2) by (auto simp: qt_arg_def)
qed

text \<open>A space ends a marker, so texts joined by one have the markers of both.\<close>

lemma digit_space [simp]: "digit CHR '' '' = None"
  by code_simp

lemma marker_space:
  "marker (s @ CHR '' '' # r) = map_option (\<lambda>(n, t). (n, t @ CHR '' '' # r)) (marker s)"
proof -
  have d: "marker_digits (s @ CHR '' '' # r) = map_option (\<lambda>(n, t). (n, t @ CHR '' '' # r)) (marker_digits s)" for s
    by (auto simp: marker_digits_def split: list.splits option.splits)
  show ?thesis
    using d [of "tl s"] d [of s] by (cases s) (auto simp: marker_def)
qed

lemma tokens_space: "tokens (s @ CHR '' '' # r) = tokens s @ tokens (CHR '' '' # r)"
proof (induction s rule: tokens.induct)
  case (2 c s)
  show ?case
  proof (cases "if c = CHR ''%'' then marker s else None")
    case None
    then show ?thesis
      using 2(1) [OF None]
      by (simp add: tokens.simps(2) [of c] marker_space split: if_splits)
  next
    case (Some a)
    obtain n t where a: "a = (n, t)" by force
    have m: "c = CHR ''%''" "marker s = Some (n, t)" using Some a by (simp_all split: if_splits)
    have "length t < length s" using marker_shorter [OF m(2)] .
    then show ?thesis
      using 2(2) [OF Some a [symmetric]] m
      by (simp add: tokens.simps(2) [of "CHR ''%''"] marker_space)
  qed
qed simp

end
