(* ===== verification/FinderMirror.thy ===== *)
theory FinderMirror
  imports RemoteVfs QtArg "HOL-Library.Sublist"
begin

text \<open>
  The mirror of a host's shared folders on the local disk
  (\<open>src/file-mapping/mount/macos_finder_mirror_provider.cpp\<close>): safe and unique local names, copying with
  limits, mounting and unmounting. The remote folders are an interface over a state, which
  \<open>ProtocolRemoteVfs\<close> provides. The local file system is a map from paths (lists of components) to
  nodes; what else makes an operation of the system fail is the parameter \<open>disk\<close>. Sizes are natural
  numbers: the only sum of sizes from the host is formed after both are known to be within the limits.
\<close>

section \<open>Local files\<close>

type_synonym local_path = "string list"

datatype node = Dir | File bytes bool | Link local_path

type_synonym local_fs = "local_path \<Rightarrow> node option"

text \<open>
  A link is only made at \<open>Latest\<close> and nothing is reached through it: no mirror has that name. What the
  system lets happen: creating a path, making a file this long, removing a tree.
\<close>

record disk =
  may_create :: "local_path \<Rightarrow> bool"
  may_grow :: "local_path \<Rightarrow> nat \<Rightarrow> bool"
  may_remove :: "local_path \<Rightarrow> bool"

definition is_file :: "node option \<Rightarrow> bool" where
  "is_file n \<longleftrightarrow> n \<noteq> None \<and> n \<noteq> Some Dir"

definition mkpath :: "disk \<Rightarrow> local_path \<Rightarrow> local_fs \<Rightarrow> local_fs option" where
  "mkpath d p fs =
     (if \<not> may_create d p \<or> list_ex (\<lambda>n. is_file (fs (take n p))) [0..<Suc (length p)] then None
      else Some (\<lambda>x. if prefix x p then Some Dir else fs x))"

definition open_new :: "disk \<Rightarrow> local_path \<Rightarrow> local_fs \<Rightarrow> local_fs option" where
  "open_new d p fs =
     (if \<not> may_create d p \<or> fs (butlast p) \<noteq> Some Dir then None
      else case fs p of
        None \<Rightarrow> Some (fs(p \<mapsto> File [] False))
      | Some (File _ False) \<Rightarrow> Some (fs(p \<mapsto> File [] False))
      | _ \<Rightarrow> None)"

definition append_data :: "disk \<Rightarrow> local_path \<Rightarrow> bytes \<Rightarrow> local_fs \<Rightarrow> local_fs option" where
  "append_data d p b fs =
     (case fs p of
        Some (File old False) \<Rightarrow>
          if may_grow d p (length old + length b) then Some (fs(p \<mapsto> File (old @ b) False)) else None
      | _ \<Rightarrow> None)"

definition makeReadOnly :: "local_path \<Rightarrow> local_fs \<Rightarrow> local_fs" where
  "makeReadOnly p fs = (case fs p of Some (File b _) \<Rightarrow> fs(p \<mapsto> File b True) | _ \<Rightarrow> fs)"

definition remove_file :: "local_path \<Rightarrow> local_fs \<Rightarrow> local_fs" where
  "remove_file p fs = (if is_file (fs p) then fs(p := None) else fs)"

definition removeRecursively :: "disk \<Rightarrow> local_path \<Rightarrow> local_fs \<Rightarrow> local_fs option" where
  "removeRecursively d p fs = (if may_remove d p then Some (\<lambda>x. if prefix p x then None else fs x) else None)"

definition writeTextFile :: "disk \<Rightarrow> local_path \<Rightarrow> string \<Rightarrow> local_fs \<Rightarrow> local_fs" where
  "writeTextFile d p t fs =
     (case open_new d p fs of
        None \<Rightarrow> fs
      | Some fs' \<Rightarrow> (case append_data d p (map of_char t) fs' of None \<Rightarrow> fs' | Some fs'' \<Rightarrow> fs''))"

section \<open>Names\<close>

definition invalid_char :: "char \<Rightarrow> bool" where
  "invalid_char c \<longleftrightarrow> (of_char c :: nat) < 32
     \<or> c \<in> set (CHR 0x5C # CHR ''/'' # CHR '':'' # CHR ''*'' # CHR ''?'' # CHR 0x22 # ''<>|'')"

definition chop :: "string \<Rightarrow> string" where
  "chop s = rev (dropWhile (\<lambda>c. c = CHR ''.'' \<or> c = CHR '' '') (rev s))"

definition safeName :: "string \<Rightarrow> string \<Rightarrow> string" where
  "safeName name fallback =
     (let safe = trimmed name;
          safe = (if safe = [] then fallback else safe);
          safe = chop (map (\<lambda>c. if invalid_char c then CHR ''_'' else c) safe);
          safe = (if safe = [] \<or> safe = ''.'' \<or> safe = ''..'' then fallback else safe)
      in take 160 safe)"

text \<open>\<open>QFileInfo\<close>'s base name and suffix: before and after the last dot.\<close>

definition suffix_of :: "string \<Rightarrow> string" where
  "suffix_of s = (if CHR ''.'' \<in> set s then rev (takeWhile (\<lambda>c. c \<noteq> CHR ''.'') (rev s)) else [])"

definition base_of :: "string \<Rightarrow> string" where
  "base_of s = (if CHR ''.'' \<in> set s then rev (tl (dropWhile (\<lambda>c. c \<noteq> CHR ''.'') (rev s))) else s)"

definition numbered :: "string \<Rightarrow> string \<Rightarrow> nat \<Rightarrow> string" where
  "numbered base ext i = qt_arg (qt_arg (qt_arg ''%1 %2%3'' base) (decimal i)) ext"

definition child_name :: "local_fs \<Rightarrow> local_path \<Rightarrow> string \<Rightarrow> string" where
  "child_name fs parent requested =
     (let safe = safeName requested ''item'' in
      if fs (parent @ [safe]) = None then safe
      else let base = (if base_of safe = [] then safe else base_of safe);
               ext = (if suffix_of safe = [] then [] else CHR ''.'' # suffix_of safe)
           in (case filter (\<lambda>i. fs (parent @ [numbered base ext i]) = None) [2..<10000] of
                 i # _ \<Rightarrow> numbered base ext i
               | [] \<Rightarrow> safe @ '' copy''))"

definition uniqueChildPath :: "local_fs \<Rightarrow> local_path \<Rightarrow> string \<Rightarrow> local_path" where
  "uniqueChildPath fs parent requested = parent @ [child_name fs parent requested]"

section \<open>Limits and the remote side\<close>

record mirror_limits =
  maxDepth :: nat
  maxFiles :: nat
  maxBytes :: nat
  maxFileBytes :: nat
  chunkBytes :: nat

definition default_limits :: mirror_limits where
  "default_limits = \<lparr>maxDepth = 4, maxFiles = 128, maxBytes = 32 * 1024 * 1024,
     maxFileBytes = 8 * 1024 * 1024, chunkBytes = 64 * 1024\<rparr>"

text \<open>An integer variable of the environment, kept between bounds if it is one.\<close>

definition bounded_or :: "nat \<Rightarrow> int option \<Rightarrow> int \<Rightarrow> int \<Rightarrow> nat \<Rightarrow> nat" where
  "bounded_or d v lo hi unit = (case v of None \<Rightarrow> d | Some n \<Rightarrow> nat (max lo (min n hi)) * unit)"

definition limitsFromEnvironment :: "(string \<Rightarrow> int option) \<Rightarrow> mirror_limits" where
  "limitsFromEnvironment env = \<lparr>
     maxDepth = bounded_or (maxDepth default_limits) (env ''MOONLIGHT_FILE_MAPPING_MIRROR_MAX_DEPTH'') 1 32 1,
     maxFiles = bounded_or (maxFiles default_limits) (env ''MOONLIGHT_FILE_MAPPING_MIRROR_MAX_FILES'') 1 100000 1,
     maxBytes = bounded_or (maxBytes default_limits) (env ''MOONLIGHT_FILE_MAPPING_MIRROR_MAX_MB'') 1 10240 (1024 * 1024),
     maxFileBytes = bounded_or (maxFileBytes default_limits) (env ''MOONLIGHT_FILE_MAPPING_MIRROR_MAX_FILE_MB'') 1 10240 (1024 * 1024),
     chunkBytes = bounded_or (chunkBytes default_limits) (env ''MOONLIGHT_FILE_MAPPING_MIRROR_CHUNK_KB'') 16 4096 1024\<rparr>"

record 's remote_ops =
  rv_children :: "string \<Rightarrow> 's \<Rightarrow> (fm_error + vfs_item list) \<times> 's"
  rv_open :: "string \<Rightarrow> 's \<Rightarrow> (fm_error + read_handle) \<times> 's"
  rv_read :: "read_handle \<Rightarrow> u64 \<Rightarrow> u32 \<Rightarrow> 's \<Rightarrow> (fm_error + bytes) \<times> 's"
  rv_close :: "read_handle \<Rightarrow> 's \<Rightarrow> 's"

definition vfs_ops :: "id_codec \<Rightarrow> 'c protocol_client option \<Rightarrow> 'c vfs remote_ops" where
  "vfs_ops c cl = \<lparr>rv_children = vfs_children c cl, rv_open = vfs_open c cl, rv_read = vfs_read cl,
     rv_close = vfs_close\<rparr>"

section \<open>Copying\<close>

definition path_text :: "local_path \<Rightarrow> string" where
  "path_text p = concat (map (\<lambda>c. CHR ''/'' # c) p)"

datatype warning = Too_deep local_path | Too_many local_path | Too_large local_path | Snapshot_full local_path
  | Truncated local_path

record 's mirror =
  remote :: 's
  tree :: local_fs
  copied_files :: nat
  copied_bytes :: nat
  warnings :: "warning list"

definition warn :: "warning \<Rightarrow> 's mirror \<Rightarrow> 's mirror" where
  "warn w s = s\<lparr>warnings := warnings s @ [w]\<rparr>"

definition line_end :: string where "line_end = [CHR 0x0A]"

definition warning_text :: "warning \<Rightarrow> string" where
  "warning_text w =
     (case w of
        Too_deep p \<Rightarrow> qt_arg ''%1: skipped because the folder is too deep'' (path_text p)
      | Too_many p \<Rightarrow> qt_arg ''%1: skipped because the file count limit was reached'' (path_text p)
      | Too_large p \<Rightarrow> qt_arg ''%1: skipped because the file is too large'' (path_text p)
      | Snapshot_full p \<Rightarrow> qt_arg ''%1: skipped because the snapshot size limit was reached'' (path_text p)
      | Truncated p \<Rightarrow> qt_arg ''%1: truncated because the snapshot size limit was reached'' (path_text p))"

definition skippedFileText :: "string \<Rightarrow> string" where
  "skippedFileText reason =
     qt_arg (''This host file was not copied into the local snapshot.'' @ line_end @ line_end @ ''Reason: %1''
       @ line_end @ line_end
       @ ''Try opening a smaller folder or increase the Moonlight file mapping mirror limits for testing.''
       @ line_end) reason"

definition skipped_list :: "warning list \<Rightarrow> string" where
  "skipped_list ws = ''Some host files were not copied into this local snapshot:'' @ line_end @ line_end
     @ join_with CHR 0x0A (map warning_text ws) @ line_end"

text \<open>\<open>localPath + ".moonlight-skipped.txt"\<close>\<close>

definition marker_path :: "local_path \<Rightarrow> local_path" where
  "marker_path p = butlast p @ [last p @ ''.moonlight-skipped.txt'']"

definition skip_file :: "disk \<Rightarrow> local_path \<Rightarrow> warning \<Rightarrow> string \<Rightarrow> 's mirror \<Rightarrow> 's mirror" where
  "skip_file d p w reason s =
     (warn w s)\<lparr>tree := writeTextFile d (marker_path p) (skippedFileText reason) (tree s)\<rparr>"

definition io_error :: "string \<Rightarrow> fm_error" where "io_error m = make_error E_Internal m"

definition io_error_at :: "string \<Rightarrow> local_path \<Rightarrow> fm_error" where
  "io_error_at m p = io_error (qt_arg m (path_text p))"

text \<open>The loop of \<open>mirrorFile\<close>, from an offset on.\<close>

function copy_loop ::
  "'s remote_ops \<Rightarrow> disk \<Rightarrow> mirror_limits \<Rightarrow> local_path \<Rightarrow> read_handle \<Rightarrow> nat \<Rightarrow> 's mirror
   \<Rightarrow> fm_error option \<times> 's mirror" where
  "copy_loop ops d lm p h offset s =
     (if maxFileBytes lm \<le> offset \<or> maxBytes lm \<le> copied_bytes s then (None, warn (Truncated p) s)
      else let n = min (chunkBytes lm) (min (maxBytes lm - copied_bytes s) (maxFileBytes lm - offset)) in
        if n = 0 then (None, s)
        else case rv_read ops h (of_nat offset) (of_nat n) (remote s) of
          (Inl e, v) \<Rightarrow> (Some e, s\<lparr>remote := v\<rparr>)
        | (Inr b, v) \<Rightarrow>
            if b = [] then (None, s\<lparr>remote := v\<rparr>)
            else (case append_data d p b (tree s) of
                None \<Rightarrow> (Some (io_error_at ''Could not write local file: %1'' p), s\<lparr>remote := v\<rparr>)
              | Some f \<Rightarrow>
                  let t = s\<lparr>remote := v, tree := f, copied_bytes := copied_bytes s + length b\<rparr>
                  in if length b < n then (None, t) else copy_loop ops d lm p h (offset + length b) t))"
  by pat_completeness auto
termination
  by (relation "measure (\<lambda>(ops, d, lm, p, h, offset, s). maxFileBytes lm - offset)") auto

declare copy_loop.simps [simp del]

definition mirrorFile ::
  "'s remote_ops \<Rightarrow> disk \<Rightarrow> mirror_limits \<Rightarrow> vfs_item \<Rightarrow> local_path \<Rightarrow> 's mirror \<Rightarrow> fm_error option \<times> 's mirror" where
  "mirrorFile ops d lm item p s =
     (let n = unat (item_size item) in
      if maxFiles lm \<le> copied_files s
      then (None, skip_file d p (Too_many p) ''file count limit reached'' s)
      else if maxFileBytes lm < n
      then (None, skip_file d p (Too_large p) ''file exceeds the per-file mirror limit'' s)
      else if maxBytes lm < copied_bytes s + n
      then (None, skip_file d p (Snapshot_full p) ''snapshot size limit reached'' s)
      else case rv_open ops (item_id item) (remote s) of
        (Inl e, v) \<Rightarrow> (Some e, s\<lparr>remote := v\<rparr>)
      | (Inr h, v) \<Rightarrow>
          (case open_new d p (tree s) of
             None \<Rightarrow> (Some (io_error_at ''Could not create local file: %1'' p), s\<lparr>remote := rv_close ops h v\<rparr>)
           | Some f \<Rightarrow>
               (case copy_loop ops d lm p h 0 (s\<lparr>remote := v, tree := f\<rparr>) of
                  (Some e, t) \<Rightarrow> (Some e, t\<lparr>remote := rv_close ops h (remote t), tree := remove_file p (tree t)\<rparr>)
                | (None, t) \<Rightarrow>
                    (None, t\<lparr>remote := rv_close ops h (remote t), copied_files := Suc (copied_files t),
                             tree := makeReadOnly p (tree t)\<rparr>))))"

text \<open>
  \<open>mirrorChildren\<close>, with the levels left, \<open>maxDepth + 1 - depth\<close>, instead of the depth; and its loop.
\<close>

fun mirror_children ::
  "'s remote_ops \<Rightarrow> disk \<Rightarrow> mirror_limits \<Rightarrow> nat \<Rightarrow> string \<Rightarrow> local_path \<Rightarrow> 's mirror \<Rightarrow> fm_error option \<times> 's mirror"
and mirror_items ::
  "'s remote_ops \<Rightarrow> disk \<Rightarrow> mirror_limits \<Rightarrow> nat \<Rightarrow> vfs_item list \<Rightarrow> local_path \<Rightarrow> 's mirror
   \<Rightarrow> fm_error option \<times> 's mirror" where
  "mirror_children ops d lm 0 parent p s =
     (None, (warn (Too_deep p) s)\<lparr>tree := writeTextFile d (p @ [''Moonlight folder depth limit.txt''])
        (skippedFileText ''folder depth limit reached'') (tree s)\<rparr>)"
| "mirror_children ops d lm (Suc levels) parent p s =
     (case rv_children ops parent (remote s) of
        (Inl e, v) \<Rightarrow> (Some e, s\<lparr>remote := v\<rparr>)
      | (Inr items, v) \<Rightarrow> mirror_items ops d lm levels items p (s\<lparr>remote := v\<rparr>))"
| "mirror_items ops d lm levels [] p s = (None, s)"
| "mirror_items ops d lm levels (item # items) p s =
     (let c = uniqueChildPath (tree s) p (display_name item) in
      case (if is_directory item
            then (case mkpath d c (tree s) of
                    None \<Rightarrow> (Some (io_error_at ''Could not create local folder: %1'' c), s)
                  | Some f \<Rightarrow> mirror_children ops d lm levels (item_id item) c (s\<lparr>tree := f\<rparr>))
            else mirrorFile ops d lm item c s) of
        (Some e, s) \<Rightarrow> (Some e, s)
      | (None, s) \<Rightarrow> mirror_items ops d lm levels items p s)"

section \<open>Mounting\<close>

record mount_request =
  hostUuid :: string
  hostName :: string
  sessionId :: string

datatype mount_state = Unmounted | Mounting | Mounted | Mount_unavailable | Mount_error

record mount_status =
  mstate :: mount_state
  displayPath :: local_path
  status_message :: string

record mount_result =
  mount_error :: fm_error
  mount_id :: local_path
  mount_status :: mount_status

definition unmounted :: mount_status where
  "unmounted = \<lparr>mstate = Unmounted, displayPath = [], status_message = []\<rparr>"

definition mount_ok :: "mount_result \<Rightarrow> bool" where "mount_ok r \<longleftrightarrow> error_ok (mount_error r)"

definition failed_mount :: "mount_state \<Rightarrow> fm_error \<Rightarrow> mount_result" where
  "failed_mount st e = \<lparr>mount_error = e, mount_id = [],
     mount_status = \<lparr>mstate = st, displayPath = [], status_message = message e\<rparr>\<rparr>"

definition copy_failure :: "fm_error \<Rightarrow> mount_result" where
  "copy_failure e = (failed_mount Mount_error e)\<lparr>mount_status := \<lparr>mstate = Mount_error, displayPath = [],
     status_message = (if message e = [] then ''Host files could not be copied.'' else message e)\<rparr>\<rparr>"

text \<open>The provider's state: what it mounted, and the local files it works on.\<close>

record mirror_provider =
  m_Mounts :: "local_path \<Rightarrow> mount_status option"
  local_tree :: local_fs

definition cacheRootPath :: "local_path \<Rightarrow> mount_request \<Rightarrow> local_path" where
  "cacheRootPath base r =
     base @ [safeName (if hostName r = [] then hostUuid r else hostName r) ''host'' @ ''-''
             @ safeName (sessionId r) ''session'']"

definition mirror_status :: "local_path \<Rightarrow> mirror_provider \<Rightarrow> mount_status" where
  "mirror_status i s =
     (case m_Mounts s i of
        None \<Rightarrow> unmounted
      | Some st \<Rightarrow> if local_tree s i = None then unmounted else st)"

definition readme :: "mount_request \<Rightarrow> string" where
  "readme r =
     (let label = (if hostName r = [] then hostUuid r else hostName r) in
      ''Moonlight Host Files'' @ line_end @ line_end
      @ ''Host: '' @ (if label = [] then ''Unknown host'' else label) @ line_end
      @ ''Session: '' @ (if sessionId r = [] then ''current'' else sessionId r) @ line_end @ line_end
      @ ''This folder is a read-only snapshot of folders shared by the host for the current streaming session.''
      @ line_end
      @ ''To refresh it, choose Host Files in Moonlight again. Large files or very deep folders may be skipped.''
      @ line_end)"

text \<open>The alias \<open>Latest\<close> of the newest mirror.\<close>

definition latestAliasPath :: "local_path \<Rightarrow> local_path" where
  "latestAliasPath base = base @ [''Latest'']"

definition createLatestAlias :: "local_path \<Rightarrow> local_path \<Rightarrow> local_fs \<Rightarrow> local_fs" where
  "createLatestAlias base m fs =
     (let a = latestAliasPath base;
          fs = remove_file a fs
      in if fs a = None then fs(a \<mapsto> Link m) else fs)"

definition removeLatestAlias :: "local_path \<Rightarrow> local_path \<Rightarrow> local_fs \<Rightarrow> local_fs" where
  "removeLatestAlias base m fs =
     (let a = latestAliasPath base in if fs a = Some (Link m) then fs(a := None) else fs)"

text \<open>\<open>remote\<close> is the request's tree of remote files; without one nothing can be mounted.\<close>

definition mirror_mount ::
  "disk \<Rightarrow> local_path \<Rightarrow> mirror_limits \<Rightarrow> ('s remote_ops \<times> 's) option \<Rightarrow> mount_request \<Rightarrow> mirror_provider
   \<Rightarrow> mount_result \<times> 's option \<times> mirror_provider" where
  "mirror_mount d base lm vfs r s =
     (case vfs of
        None \<Rightarrow> (failed_mount Mount_unavailable (make_error E_Unavailable ''Host files are unavailable.''), None, s)
      | Some (ops, v) \<Rightarrow>
          let root = cacheRootPath base r in
          (case (if local_tree s root = Some Dir then removeRecursively d root (local_tree s) else Some (local_tree s)) of
             None \<Rightarrow> (failed_mount Mount_error (io_error ''Could not refresh the local host files snapshot.''), Some v, s)
           | Some f \<Rightarrow>
               (case mkpath d root f of
                  None \<Rightarrow> (failed_mount Mount_error (io_error ''Could not create the local host files snapshot.''), Some v,
                           s\<lparr>local_tree := f\<rparr>)
                | Some f \<Rightarrow>
                    (case mirror_children ops d lm (Suc (maxDepth lm)) root_id root
                            \<lparr>remote = v, tree = writeTextFile d (root @ [''README.txt'']) (readme r) f,
                             copied_files = 0, copied_bytes = 0, warnings = []\<rparr> of
                       (Some e, t) \<Rightarrow>
                         (copy_failure e, Some (remote t),
                          s\<lparr>local_tree := (case removeRecursively d root (tree t) of None \<Rightarrow> tree t | Some f \<Rightarrow> f)\<rparr>)
                     | (None, t) \<Rightarrow>
                         let f = (if warnings t = [] then tree t
                                  else writeTextFile d (root @ [''Moonlight skipped files.txt'']) (skipped_list (warnings t)) (tree t));
                             st = \<lparr>mstate = Mounted, displayPath = root, status_message =
                               (if warnings t = [] then ''Host files are ready.''
                                else ''Host files are ready. Some large or deep items were skipped.'')\<rparr>
                         in (\<lparr>mount_error = no_error, mount_id = root, mount_status = st\<rparr>, Some (remote t),
                             s\<lparr>m_Mounts := (m_Mounts s)(root \<mapsto> st),
                               local_tree := createLatestAlias base root (makeReadOnly (root @ [''README.txt'']) f)\<rparr>)))))"

definition mirror_reveal :: "(local_path \<Rightarrow> bool) \<Rightarrow> local_path \<Rightarrow> mirror_provider \<Rightarrow> fm_error" where
  "mirror_reveal opened i s =
     (let st = mirror_status i s in
      if mstate st \<noteq> Mounted \<or> displayPath st = []
      then make_error E_NotFound ''Host files are not mounted for this session.''
      else if opened (displayPath st) then no_error
      else make_error E_Internal ''Could not open host files in Finder.'')"

definition mirror_unmount :: "disk \<Rightarrow> local_path \<Rightarrow> local_path \<Rightarrow> mirror_provider \<Rightarrow> mirror_provider" where
  "mirror_unmount d base i s =
     (case m_Mounts s i of
        None \<Rightarrow> s
      | Some _ \<Rightarrow>
          s\<lparr>m_Mounts := (m_Mounts s)(i := None),
            local_tree := (if i = [] then local_tree s
                           else let f = removeLatestAlias base i (local_tree s)
                in case removeRecursively d i f of None \<Rightarrow> f | Some f \<Rightarrow> f)\<rparr>)"

section \<open>Local names are plain\<close>

lemma invalid_no_slash: "\<not> invalid_char c \<Longrightarrow> c \<noteq> CHR ''/'' \<and> c \<noteq> CHR 0x5C"
  by (auto simp: invalid_char_def)

lemma chop_set: "set (chop s) \<subseteq> set s"
  by (auto simp: chop_def dest: set_dropWhileD)

lemma safe_name_plain:
  assumes "plain_part fb" and "length fb \<le> 160" and "\<forall>c\<in>set fb. \<not> invalid_char c"
  shows "plain_part (safeName name fb)" and "length (safeName name fb) \<le> 160"
proof -
  define s0 where "s0 = (if trimmed name = [] then fb else trimmed name)"
  define s1 where "s1 = chop (map (\<lambda>c. if invalid_char c then CHR ''_'' else c) s0)"
  define s2 where "s2 = (if s1 = [] \<or> s1 = ''.'' \<or> s1 = ''..'' then fb else s1)"
  have def: "safeName name fb = take 160 s2" by (simp add: safeName_def Let_def s0_def s1_def s2_def)
  have u: "\<not> invalid_char CHR ''_''" by (simp add: invalid_char_def)
  have "\<forall>c\<in>set s1. \<not> invalid_char c"
    using chop_set [of "map (\<lambda>c. if invalid_char c then CHR ''_'' else c) s0"] u unfolding s1_def by fastforce
  then have "\<forall>c\<in>set s2. \<not> invalid_char c" using assms(3) unfolding s2_def by presburger
  then have chars: "\<forall>c\<in>set (take 160 s2). c \<noteq> CHR ''/'' \<and> c \<noteq> CHR 0x5C"
    using invalid_no_slash set_take_subset [of 160 s2] by blast
  have ne: "s2 \<noteq> []" "s2 \<noteq> ''.''" "s2 \<noteq> ''..''"
    using assms(1) unfolding s2_def plain_part_def by presburger+
  have dots: "take 160 s2 \<noteq> [] \<and> take 160 s2 \<noteq> ''.'' \<and> take 160 s2 \<noteq> ''..''"
  proof (cases "length s2 \<le> 160")
    case True
    then have "take 160 s2 = s2" by (rule take_all)
    then show ?thesis using ne by presburger
  next
    case False
    then have l: "length (take 160 s2) = 160" by simp
    have "x \<noteq> [] \<and> x \<noteq> ''.'' \<and> x \<noteq> ''..''" if "length x = 160" for x :: string using that by auto
    from this [OF l] show ?thesis .
  qed
  show "plain_part (safeName name fb)"
    unfolding def plain_part_def using dots chars by blast
  show "length (safeName name fb) \<le> 160" unfolding def by simp
qed

lemma digit_char: "k < 10 \<Longrightarrow> (char_of (48 + k :: nat) :: char) \<notin> {CHR ''/'', CHR 0x5C}"
proof -
  assume k: "k < 10"
  then have "k = 0 \<or> k = 1 \<or> k = 2 \<or> k = 3 \<or> k = 4 \<or> k = 5 \<or> k = 6 \<or> k = 7 \<or> k = 8 \<or> k = 9" by presburger
  then show ?thesis by (elim disjE) (simp_all add: char_of_def)
qed

lemma decimal_chars: "CHR ''/'' \<notin> set (decimal n) \<and> CHR 0x5C \<notin> set (decimal n)"
proof (induction n rule: decimal.induct)
  case (1 n)
  have d: "(char_of (48 + k :: nat) :: char) \<noteq> CHR ''/''" "(char_of (48 + k :: nat) :: char) \<noteq> CHR 0x5C"
    if "k < 10" for k using digit_char [OF that] by blast+
  show ?case
  proof (cases "n < 10")
    case True
    then have "decimal n = [char_of (48 + n)]" by (subst decimal.simps) simp
    then show ?thesis using d [OF True] by simp
  next
    case False
    then have "decimal n = decimal (n div 10) @ [char_of (48 + n mod 10)]" by (subst decimal.simps) simp
    moreover have "n mod 10 < 10" by simp
    ultimately show ?thesis using d [of "n mod 10"] 1 [OF False] by simp
  qed
qed

lemma numbered_plain:
  assumes b: "CHR ''/'' \<notin> set base" "CHR 0x5C \<notin> set base" and e: "CHR ''/'' \<notin> set ext" "CHR 0x5C \<notin> set ext"
  shows "plain_part (numbered base ext i)"
proof -
  have space: "CHR '' '' \<in> set (qt_arg s a)" if "CHR '' '' \<in> set s" for s a
  proof -
    from split_list [OF that] obtain u r where "s = u @ CHR '' '' # r" by blast
    then have "Inl CHR '' '' \<in> set (tokens s)"
      by (simp add: tokens_space tokens.simps(2) [of "CHR '' ''"])
    then show ?thesis using that by (force simp: qt_arg_def put_arg_def split: option.split)
  qed
  have chars: "CHR ''/'' \<notin> set (numbered base ext i) \<and> CHR 0x5C \<notin> set (numbered base ext i)"
    using arg_chars [of "qt_arg (qt_arg ''%1 %2%3'' base) (decimal i)" ext]
      arg_chars [of "qt_arg ''%1 %2%3'' base" "decimal i"] arg_chars [of "''%1 %2%3''" base] b e decimal_chars [of i]
    unfolding numbered_def by auto
  have "CHR '' '' \<in> set (numbered base ext i)" unfolding numbered_def by (intro space) simp
  then have "numbered base ext i \<notin> {[], ''.'', ''..''}" by (auto simp: numbered_def)
  then show ?thesis using chars by (simp add: plain_part_def)
qed

lemma base_suffix_chars: "set (base_of s) \<subseteq> set s" "set (suffix_of s) \<subseteq> set s"
proof -
  have t: "set (tl xs) \<subseteq> set xs" for xs :: string by (cases xs) auto
  have "set (dropWhile P (rev s)) \<subseteq> set s" for P by (auto dest: set_dropWhileD)
  then have "set (tl (dropWhile P (rev s))) \<subseteq> set s" for P using t by blast
  then show "set (base_of s) \<subseteq> set s" by (simp add: base_of_def)
  show "set (suffix_of s) \<subseteq> set s" by (auto simp: suffix_of_def dest: set_takeWhileD)
qed

lemma plain_more: "plain_part w \<Longrightarrow> plain_part x \<Longrightarrow> plain_part (w @ x)"
  by (auto simp: plain_part_def append_eq_Cons_conv)

lemma child_plain: "plain_part (child_name fs p n)"
proof -
  let ?safe = "safeName n ''item''"
  have safe: "plain_part ?safe"
    by (rule safe_name_plain(1)) (simp_all add: plain_part_def invalid_char_def)
  then have c: "CHR ''/'' \<notin> set ?safe" "CHR 0x5C \<notin> set ?safe" by (simp_all add: plain_part_def)
  have e: "CHR ''/'' \<notin> set (if suffix_of ?safe = [] then [] else CHR ''.'' # suffix_of ?safe)"
    "CHR 0x5C \<notin> set (if suffix_of ?safe = [] then [] else CHR ''.'' # suffix_of ?safe)"
    using c base_suffix_chars(2) [of ?safe] by auto
  have b: "CHR ''/'' \<notin> set (if base_of ?safe = [] then ?safe else base_of ?safe)"
    "CHR 0x5C \<notin> set (if base_of ?safe = [] then ?safe else base_of ?safe)"
    using c base_suffix_chars(1) [of ?safe] by auto
  have copy: "plain_part (?safe @ '' copy'')"
    by (rule plain_more [OF safe]) (simp add: plain_part_def)
  have pick: "plain_part (case is of [] \<Rightarrow> c | i # _ \<Rightarrow> f i)" if "\<And>i. plain_part (f i)" "plain_part c"
    for "is" :: "nat list" and f c
    using that by (cases "is") simp_all
  show ?thesis
    unfolding child_name_def Let_def
    by (cases "fs (p @ [?safe]) = None")
      (simp_all only: if_True if_False safe pick [OF numbered_plain [OF b e] copy] simp_thms)
qed

lemma dashed_plain: "plain_part h \<Longrightarrow> plain_part s \<Longrightarrow> plain_part (h @ ''-'' @ s) \<and> h @ ''-'' @ s \<noteq> ''Latest''"
proof -
  assume h: "plain_part h" "plain_part s"
  have m: "plain_part ''-''" by (simp add: plain_part_def)
  have "x \<noteq> ''Latest''" if "CHR ''-'' \<in> set x" for x :: string using that by auto
  then have "h @ ''-'' @ s \<noteq> ''Latest''" by simp
  then show ?thesis using plain_more [OF h(1) plain_more [OF m h(2)]] by blast
qed

lemma root_plain: "\<exists>n. plain_part n \<and> n \<noteq> ''Latest'' \<and> cacheRootPath base r = base @ [n]"
proof -
  have h: "plain_part (safeName n ''host'')" for n
    by (rule safe_name_plain(1)) (simp_all add: plain_part_def invalid_char_def)
  have s: "plain_part (safeName n ''session'')" for n
    by (rule safe_name_plain(1)) (simp_all add: plain_part_def invalid_char_def)
  show ?thesis unfolding cacheRootPath_def using dashed_plain [OF h s] by blast
qed

section \<open>Where local files change\<close>

text \<open>
  Only directories that were missing on the way to \<open>m\<close> are added outside of it, and whatever else is new
  has a path of plain components below \<open>m\<close>, of length \<open>k\<close> at most.
\<close>

definition stays :: "nat \<Rightarrow> local_path \<Rightarrow> local_fs \<Rightarrow> local_fs \<Rightarrow> bool" where
  "stays k m old new \<longleftrightarrow>
     (\<forall>x. new x \<noteq> old x \<longrightarrow>
        strict_prefix x m \<and> old x = None \<and> new x = Some Dir
        \<or> prefix m x \<and> (new x = None \<or> length x \<le> k \<and> list_all plain_part (drop (length m) x)))"

lemma stays_refl [simp]: "stays k m fs fs"
  by (simp add: stays_def)

lemma stays_upd [intro]:
  "stays k m old new \<Longrightarrow> list_all plain_part q \<Longrightarrow> length m + length q \<le> k \<Longrightarrow> stays k m old (new(m @ q := v))"
  by (simp add: stays_def)

lemma stays_open: "open_new d (m @ q) fs = Some f \<Longrightarrow> stays k m old fs \<Longrightarrow> list_all plain_part q
    \<Longrightarrow> length m + length q \<le> k \<Longrightarrow> stays k m old f"
  by (auto simp: open_new_def split: if_splits option.splits node.splits bool.splits)

lemma stays_append: "append_data d (m @ q) b fs = Some f \<Longrightarrow> stays k m old fs \<Longrightarrow> list_all plain_part q
    \<Longrightarrow> length m + length q \<le> k \<Longrightarrow> stays k m old f"
  by (auto simp: append_data_def split: if_splits option.splits node.splits bool.splits)

lemma stays_readonly: "stays k m old fs \<Longrightarrow> list_all plain_part q \<Longrightarrow> length m + length q \<le> k
    \<Longrightarrow> stays k m old (makeReadOnly (m @ q) fs)"
  by (auto simp: makeReadOnly_def split: option.splits node.splits)

lemma stays_remove_file: "stays k m old fs \<Longrightarrow> list_all plain_part q \<Longrightarrow> length m + length q \<le> k
    \<Longrightarrow> stays k m old (remove_file (m @ q) fs)"
  by (auto simp: remove_file_def)

lemma stays_text: "stays k m old fs \<Longrightarrow> list_all plain_part q \<Longrightarrow> length m + length q \<le> k
    \<Longrightarrow> stays k m old (writeTextFile d (m @ q) t fs)"
  by (auto simp: writeTextFile_def split: option.split dest: stays_open stays_append)

lemma stays_removed:
  assumes "removeRecursively d m fs = Some f" and "stays k m old fs"
  shows "stays k m old f"
proof -
  have f: "f = (\<lambda>x. if prefix m x then None else fs x)"
    using assms(1) by (auto simp: removeRecursively_def split: if_splits)
  have "f x \<noteq> old x \<longrightarrow> strict_prefix x m \<and> old x = None \<and> f x = Some Dir
      \<or> prefix m x \<and> (f x = None \<or> length x \<le> k \<and> list_all plain_part (drop (length m) x))" for x
    using assms(2) by (cases "prefix m x") (auto simp: f stays_def)
  then show ?thesis unfolding stays_def by blast
qed

lemma stays_mkpath:
  assumes "mkpath d (m @ q) fs = Some f" and "stays k m old fs" and "list_all plain_part q"
    and "length m + length q \<le> k"
  shows "stays k m old f"
  unfolding stays_def
proof (intro allI impI)
  fix x assume x: "f x \<noteq> old x"
  have f: "f = (\<lambda>x. if prefix x (m @ q) then Some Dir else fs x)"
    and nofile: "\<forall>n<Suc (length (m @ q)). \<not> is_file (fs (take n (m @ q)))"
    using assms(1) by (auto simp: mkpath_def list_ex_iff split: if_splits)
  show "strict_prefix x m \<and> old x = None \<and> f x = Some Dir
      \<or> prefix m x \<and> (f x = None \<or> length x \<le> k \<and> list_all plain_part (drop (length m) x))"
  proof (cases "prefix x (m @ q)")
    case False
    then have "f x = fs x" by (simp add: f)
    then show ?thesis using x assms(2) by (simp add: stays_def)
  next
    case True
    then have fx: "f x = Some Dir" by (simp add: f)
    obtain zs where zs: "m @ q = x @ zs" using True by (auto simp: prefix_def)
    have "x = take (length x) (m @ q)" "length x \<le> length (m @ q)" unfolding zs by simp_all
    then have "\<not> is_file (fs x)" using nofile by (metis le_imp_less_Suc)
    then have dir: "fs x = None \<or> fs x = Some Dir" by (auto simp: is_file_def)
    show ?thesis
    proof (cases "prefix m x")
      case True
      then obtain y where y: "x = m @ y" by (auto simp: prefix_def)
      then have "prefix y q" using \<open>prefix x (m @ q)\<close> by simp
      then have "list_all plain_part y" using assms(3) by (auto simp: prefix_def)
      moreover have "length y \<le> length q" using \<open>prefix y q\<close> by (rule prefix_length_le)
      ultimately show ?thesis using y True assms(4) by simp
    next
      case False
      then have sp: "strict_prefix x m" using \<open>prefix x (m @ q)\<close>
        by (metis prefix_def prefix_same_cases strict_prefix_def)
      then have "\<not> prefix m x" using False by simp
      then have "fs x = old x \<or> old x = None" using assms(2) by (auto simp: stays_def)
      then have "old x = None" using dir x fx by auto
      then show ?thesis using sp fx by simp
    qed
  qed
qed

lemma stays_loop:
  "copy_loop ops d lm (m @ q) h off s = (e, t) \<Longrightarrow> stays k m old (tree s) \<Longrightarrow> list_all plain_part q
    \<Longrightarrow> length m + length q \<le> k \<Longrightarrow> stays k m old (tree t)"
proof (induction ops d lm "m @ q" h off s arbitrary: e t rule: copy_loop.induct)
  case (1 ops d lm h off s)
  show ?case
    using "1.prems" "1.hyps"
    by (subst (asm) copy_loop.simps)
      (auto simp: Let_def warn_def stays_append split: if_splits sum.splits prod.splits option.splits)
qed

lemma stays_marker:
  "stays k m old fs \<Longrightarrow> list_all plain_part q \<Longrightarrow> q \<noteq> [] \<Longrightarrow> length m + length q \<le> k
    \<Longrightarrow> stays k m old (writeTextFile d (marker_path (m @ q)) t fs)"
proof -
  assume a: "stays k m old fs" "list_all plain_part q" "q \<noteq> []" "length m + length q \<le> k"
  have "list_all plain_part (butlast q @ [last q @ ''.moonlight-skipped.txt''])"
    using a(2,3) plain_more [of "last q" "''.moonlight-skipped.txt''"]
    by (auto simp: list_all_iff plain_part_def dest: in_set_butlastD)
  from stays_text [OF a(1) this, where d = d and t = t] a(3,4) show ?thesis
    by (simp add: marker_path_def butlast_append)
qed

lemma stays_mirrorFile:
  assumes "mirrorFile ops d lm item (m @ q) s = (e, t)" and "stays k m old (tree s)"
    and "list_all plain_part q" and "q \<noteq> []" and "length m + length q \<le> k"
  shows "stays k m old (tree t)"
proof -
  have skip: "stays k m old (tree (skip_file d (m @ q) w r s))" for w r
    using stays_marker [OF assms(2-5)] by (simp add: skip_file_def)
  note at = assms(3,5)
  have opened: "stays k m old (tree u)"
    if "open_new d (m @ q) (tree s) = Some f" "copy_loop ops d lm (m @ q) h 0 (s\<lparr>remote := v, tree := f\<rparr>) = (e', u)"
    for f h v e' u
    using stays_loop [OF that(2) _ at] stays_open [OF that(1) assms(2) at] by simp
  show ?thesis
    using assms(1)
    by (auto simp: mirrorFile_def Let_def skip assms(2) stays_remove_file [OF opened at] stays_readonly [OF opened at]
        split: if_splits sum.splits prod.splits option.splits)
qed

lemma stays_children:
  "mirror_children ops d lm l i (m @ q) s = (e, t) \<Longrightarrow> stays k m old (tree s) \<Longrightarrow> list_all plain_part q
    \<Longrightarrow> length m + length q + l < k \<Longrightarrow> stays k m old (tree t)"
  "mirror_items ops d lm l items (m @ q) s = (e, t) \<Longrightarrow> stays k m old (tree s) \<Longrightarrow> list_all plain_part q
    \<Longrightarrow> length m + length q + l + 1 < k \<Longrightarrow> stays k m old (tree t)"
proof (induction ops d lm l i "m @ q" s and ops d lm l items "m @ q" s arbitrary: q e t and q e t
    rule: mirror_children_mirror_items.induct)
  case (1 ops d lm i s)
  have "stays k m old (writeTextFile d (m @ q @ [''Moonlight folder depth limit.txt''])
      (skippedFileText ''folder depth limit reached'') (tree s))"
    by (rule stays_text [OF 1(2)]) (use 1 in \<open>simp_all add: plain_part_def\<close>)
  then show ?case using 1(1) by (auto simp: warn_def)
next
  case (2 ops d lm l i s)
  then show ?case by (auto split: prod.splits sum.splits)
next
  case (3 ops d lm l s)
  then show ?case by simp
next
  case (4 ops d lm l item items s)
  let ?q = "q @ [child_name (tree s) (m @ q) (display_name item)]"
  have c: "uniqueChildPath (tree s) (m @ q) (display_name item) = m @ ?q"
    by (simp add: uniqueChildPath_def)
  have plain: "list_all plain_part ?q" using "4.prems"(3) child_plain by simp
  have len: "length m + length ?q + l < k" using "4.prems"(4) by simp
  have dir: "stays k m old f" if "mkpath d (m @ ?q) (tree s) = Some f" for f
    using stays_mkpath [OF that "4.prems"(2) plain] len by simp
  let ?step = "if is_directory item
      then (case mkpath d (m @ ?q) (tree s) of
              None \<Rightarrow> (Some (io_error_at ''Could not create local folder: %1'' (m @ ?q)), s)
            | Some f \<Rightarrow> mirror_children ops d lm l (item_id item) (m @ ?q) (s\<lparr>tree := f\<rparr>))
      else mirrorFile ops d lm item (m @ ?q) s"
  obtain e1 u where step: "?step = (e1, u)" by force
  have u: "stays k m old (tree u)"
  proof (cases "is_directory item")
    case True
    then show ?thesis
      using step 4(1) [OF c [symmetric] True] "4.prems"(2) dir plain len
      by (auto split: option.splits)
  next
    case False
    then have "mirrorFile ops d lm item (m @ ?q) s = (e1, u)" using step by simp
    from stays_mirrorFile [OF this "4.prems"(2) plain] len show ?thesis by simp
  qed
  have "(case (e1, u) of (Some e, s) \<Rightarrow> (Some e, s)
      | (None, s) \<Rightarrow> mirror_items ops d lm l items (m @ q) s) = (e, t)"
    using "4.prems"(1) step by (simp add: Let_def c)
  then show ?case
    using u 4(2) [OF c [symmetric] step [symmetric]] "4.prems"(3,4)
    by (auto split: option.splits)
qed

lemma stays_mount:
  assumes "cacheRootPath base r = m"
  shows "\<exists>f. stays (length m + maxDepth lm + 2) m (local_tree s) f
    \<and> local_tree (snd (snd (mirror_mount d base lm vfs r s))) \<in> {f, createLatestAlias base m f}"
proof (cases vfs)
  case None
  then show ?thesis by (auto simp: mirror_mount_def intro!: exI [of _ "local_tree s"])
next
  case (Some a)
  obtain ops v where a: "a = (ops, v)" by force
  let ?k = "length m + maxDepth lm + 2"
  let ?clear = "if local_tree s m = Some Dir then removeRecursively d m (local_tree s) else Some (local_tree s)"
  let ?start = "\<lambda>f. \<lparr>remote = v, tree = writeTextFile d (m @ [''README.txt'']) (readme r) f,
    copied_files = 0, copied_bytes = 0, warnings = []\<rparr>"
  have texts: "list_all plain_part [n]" if "n \<in> {''README.txt'', ''Moonlight skipped files.txt''}" for n
    using that by (auto simp: plain_part_def)
  have clear: "stays ?k m (local_tree s) f" if "?clear = Some f" for f
    using that stays_removed [of d m "local_tree s" f ?k "local_tree s"] by (auto split: if_splits)
  have made: "stays ?k m (local_tree s) g" if "?clear = Some f" "mkpath d m f = Some g" for f g
    using stays_mkpath [of d m "[]" f g ?k "local_tree s"] clear [OF that(1)] that(2) by simp
  have copied: "stays ?k m (local_tree s) (tree t)"
    if "?clear = Some f" "mkpath d m f = Some g"
      "mirror_children ops d lm (Suc (maxDepth lm)) root_id m (?start g) = (e, t)" for f g e t
  proof -
    have "stays ?k m (local_tree s) (tree (?start g))"
      using stays_text [OF made [OF that(1,2)] texts] by simp
    from stays_children(1) [where q = "[]" and m = m, simplified, OF that(3) this] show ?thesis by simp
  qed
  have finish: "stays ?k m (local_tree s) (makeReadOnly (m @ [''README.txt''])
      (if warnings t = [] then tree t
       else writeTextFile d (m @ [''Moonlight skipped files.txt'']) (skipped_list (warnings t)) (tree t)))"
    if "stays ?k m (local_tree s) (tree t)" for t :: "'a mirror"
    using stays_readonly [OF _ texts] stays_text [OF that texts] that by simp
  have cleaned: "stays ?k m (local_tree s) (case removeRecursively d m (tree t) of None \<Rightarrow> tree t | Some f \<Rightarrow> f)"
    if "stays ?k m (local_tree s) (tree t)" for t :: "'a mirror"
    using that by (auto split: option.split intro: stays_removed)
  show ?thesis
  proof (cases "?clear")
    case None
    then show ?thesis using Some a by (auto simp: mirror_mount_def assms Let_def intro!: exI [of _ "local_tree s"])
  next
    case f: (Some f)
    show ?thesis
    proof (cases "mkpath d m f")
      case None
      then show ?thesis
        using Some a f clear [OF f] by (auto simp: mirror_mount_def assms Let_def intro!: exI [of _ f])
    next
      case g: (Some g)
      obtain e t where t: "mirror_children ops d lm (Suc (maxDepth lm)) root_id m (?start g) = (e, t)" by force
      note st = copied [OF f g t]
      show ?thesis
      proof (cases e)
        case None
        then have "local_tree (snd (snd (mirror_mount d base lm vfs r s))) =
            createLatestAlias base m (makeReadOnly (m @ [''README.txt''])
              (if warnings t = [] then tree t
               else writeTextFile d (m @ [''Moonlight skipped files.txt'']) (skipped_list (warnings t)) (tree t)))"
          using Some a f g t by (simp add: mirror_mount_def assms Let_def)
        with finish [OF st] show ?thesis by - (rule exI, rule conjI, assumption, simp)
      next
        case (Some e')
        then have "local_tree (snd (snd (mirror_mount d base lm vfs r s))) =
            (case removeRecursively d m (tree t) of None \<Rightarrow> tree t | Some f \<Rightarrow> f)"
          using \<open>vfs = Some a\<close> a f g t by (simp add: mirror_mount_def assms Let_def)
        with cleaned [OF st] show ?thesis by - (rule exI, rule conjI, assumption, simp)
      qed
    qed
  qed
qed

section \<open>Limits\<close>

lemma env_limits:
  "0 < chunkBytes (limitsFromEnvironment env)" "chunkBytes (limitsFromEnvironment env) < 2 ^ 32"
  "maxFileBytes (limitsFromEnvironment env) < 2 ^ 64" "maxBytes (limitsFromEnvironment env) < 2 ^ 63"
  by (auto simp: limitsFromEnvironment_def bounded_or_def default_limits_def split: option.split)

text \<open>
  The files of a tree that are marked read-only, with their contents. While copying these are the copied
  files: the texts written beside them stay writable.
\<close>

definition read_only_files :: "local_fs \<Rightarrow> (local_path \<times> bytes) set" where
  "read_only_files fs = {(p, b). fs p = Some (File b True)}"

lemma read_only_open: "open_new d p fs = Some f \<Longrightarrow> read_only_files f = read_only_files fs \<and> f p = Some (File [] False)"
  by (auto simp: open_new_def read_only_files_def split: if_splits option.splits node.splits bool.splits)

lemma read_only_append:
  assumes "append_data d p b fs = Some f"
  shows "read_only_files f = read_only_files fs" and "fs p = Some (File a False) \<Longrightarrow> f p = Some (File (a @ b) False)"
  using assms by (auto simp: append_data_def read_only_files_def split: if_splits option.splits node.splits bool.splits)

lemma read_only_text [simp]: "read_only_files (writeTextFile d p t fs) = read_only_files fs"
  by (auto simp: writeTextFile_def split: option.split dest: read_only_open read_only_append(1))

lemma read_only_mkpath:
  assumes "mkpath d p fs = Some f"
  shows "read_only_files f = read_only_files fs"
proof -
  have f: "f = (\<lambda>x. if prefix x p then Some Dir else fs x)"
    and nofile: "\<forall>n<Suc (length p). \<not> is_file (fs (take n p))"
    using assms by (auto simp: mkpath_def list_ex_iff split: if_splits)
  have "\<not> is_file (fs x)" if "prefix x p" for x
    using nofile that by (metis append_eq_conv_conj le_imp_less_Suc prefix_def prefix_length_le)
  then show ?thesis by (fastforce simp: f read_only_files_def is_file_def split: if_splits)
qed

lemma read_only_remove: "read_only_files (remove_file p fs) \<subseteq> read_only_files fs"
  by (auto simp: remove_file_def read_only_files_def split: if_splits)

lemma read_only_made: "fs p = Some (File b r) \<Longrightarrow> read_only_files (makeReadOnly p fs) = insert (p, b) (read_only_files fs - {p} \<times> UNIV)"
  by (auto simp: makeReadOnly_def read_only_files_def split: if_splits)

lemma read_only_removed: "removeRecursively d p fs = Some f \<Longrightarrow> read_only_files f \<subseteq> read_only_files fs"
  by (auto simp: removeRecursively_def read_only_files_def split: if_splits)

text \<open>
  The copies made since the tree was \<open>old\<close> are no more than the counters say, with \<open>k\<close> bytes of one that is
  being made, and the counters and each copy are within the limits.
\<close>

definition copies_within :: "local_fs \<Rightarrow> mirror_limits \<Rightarrow> nat \<Rightarrow> 's mirror \<Rightarrow> bool" where
  "copies_within old lm k s \<longleftrightarrow>
     (let new = read_only_files (tree s) - read_only_files old
      in finite new \<and> card new \<le> copied_files s \<and> (\<Sum>(p, b)\<in>new. length b) + k \<le> copied_bytes s
         \<and> (\<forall>(p, b)\<in>new. length b \<le> maxFileBytes lm))
     \<and> copied_files s \<le> maxFiles lm \<and> copied_bytes s \<le> maxBytes lm"

lemma copies_fewer:
  assumes "copies_within old lm k s" and "read_only_files (tree t) \<subseteq> read_only_files (tree s)"
    and "copied_files t = copied_files s" and "copied_bytes t = copied_bytes s" and "j \<le> k"
  shows "copies_within old lm j t"
proof -
  let ?s = "read_only_files (tree s) - read_only_files old" and ?t = "read_only_files (tree t) - read_only_files old"
  have f: "finite ?s" and sub: "?t \<subseteq> ?s" using assms(1,2) by (auto simp: copies_within_def Let_def)
  have "card ?t \<le> card ?s" using card_mono [OF f sub] .
  moreover have "(\<Sum>(p, b)\<in>?t. length b) \<le> (\<Sum>(p, b)\<in>?s. length b)" using sum_mono2 [OF f sub] by force
  moreover have "finite ?t" using finite_subset [OF sub f] .
  ultimately show ?thesis
    using assms(1,3-5) sub unfolding copies_within_def Let_def by (auto intro: le_trans)
qed

lemma copies_grow:
  assumes "copies_within old lm k s" and "read_only_files (tree t) = read_only_files (tree s)"
    and "copied_files t = copied_files s" and "copied_bytes t = copied_bytes s + n" and "copied_bytes t \<le> maxBytes lm"
  shows "copies_within old lm (k + n) t"
  using assms by (simp add: copies_within_def Let_def)

lemma copies_done:
  assumes "copies_within old lm (length b) s" and "length b \<le> maxFileBytes lm" and "copied_files s < maxFiles lm"
    and "read_only_files (tree t) \<subseteq> insert (p, b) (read_only_files (tree s))"
    and "copied_files t = Suc (copied_files s)" and "copied_bytes t = copied_bytes s"
  shows "copies_within old lm 0 t"
proof -
  let ?s = "read_only_files (tree s) - read_only_files old" and ?t = "read_only_files (tree t) - read_only_files old"
  have f: "finite ?s" and sub: "?t \<subseteq> insert (p, b) ?s" using assms(1,4) by (auto simp: copies_within_def Let_def)
  have fi: "finite (insert (p, b) ?s)" using f by simp
  have "card ?t \<le> Suc (card ?s)"
    using card_mono [OF fi sub] card_insert_le_m1 [of "Suc (card ?s)" ?s "(p, b)"] by simp
  moreover have "(\<Sum>(p, b)\<in>?t. length b) \<le> (\<Sum>(p, b)\<in>?s. length b) + length b"
  proof -
    have "(\<Sum>(p, b)\<in>?t. length b) \<le> (\<Sum>(p, b)\<in>insert (p, b) ?s. length b)" using sum_mono2 [OF fi sub] by force
    also have "\<dots> \<le> (\<Sum>(p, b)\<in>?s. length b) + length b" using f by (simp add: sum.insert_if)
    finally show ?thesis .
  qed
  moreover have "\<forall>(p, b)\<in>?t. length b \<le> maxFileBytes lm"
    using sub assms(1,2) by (fastforce simp: copies_within_def Let_def)
  ultimately show ?thesis
    using assms(1,3,5,6) finite_subset [OF sub fi] unfolding copies_within_def Let_def by linarith
qed

text \<open>
  From some states on, which no request leaves, the host never answers a read with more than asked.
\<close>

definition reads_bounded :: "('s \<Rightarrow> bool) \<Rightarrow> 's remote_ops \<Rightarrow> bool" where
  "reads_bounded I ops \<longleftrightarrow>
     (\<forall>v. I v \<longrightarrow>
        (\<forall>i. I (snd (rv_children ops i v)) \<and> I (snd (rv_open ops i v)))
      \<and> (\<forall>h. I (rv_close ops h v))
      \<and> (\<forall>h off n. I (snd (rv_read ops h off n v))
           \<and> (case fst (rv_read ops h off n v) of Inr b \<Rightarrow> length b \<le> unat n | _ \<Rightarrow> True)))"

lemma reads_boundedD:
  assumes "reads_bounded I ops" and "I v"
  shows "rv_read ops h off n v = (r, v') \<Longrightarrow> I v'"
    and "rv_read ops h off n v = (Inr b, v') \<Longrightarrow> length b \<le> unat n"
    and "rv_children ops i v = (c, v') \<Longrightarrow> I v'" and "rv_open ops i v = (x, v') \<Longrightarrow> I v'"
    and "I (rv_close ops h v)"
proof -
  note all = assms(1) [unfolded reads_bounded_def, rule_format, OF assms(2)]
  show "rv_children ops i v = (c, v') \<Longrightarrow> I v'" "rv_open ops i v = (x, v') \<Longrightarrow> I v'" "I (rv_close ops h v)"
    using all [THEN conjunct1, rule_format, of i] all [THEN conjunct2, THEN conjunct1, rule_format, of h] by simp_all
  have "I (snd (rv_read ops h off n v)) \<and> (case fst (rv_read ops h off n v) of Inr b \<Rightarrow> length b \<le> unat n | _ \<Rightarrow> True)"
    using all [THEN conjunct2, THEN conjunct2] by blast
  then show "rv_read ops h off n v = (r, v') \<Longrightarrow> I v'"
    "rv_read ops h off n v = (Inr b, v') \<Longrightarrow> length b \<le> unat n" by simp_all
qed

definition asked_bytes :: "mirror_limits \<Rightarrow> nat \<Rightarrow> 's mirror \<Rightarrow> nat" where
  "asked_bytes lm off s = min (chunkBytes lm) (min (maxBytes lm - copied_bytes s) (maxFileBytes lm - off))"

text \<open>The loop at its end and within, when a chunk holds something and fits a 32-bit integer.\<close>

lemma loop_end: "maxFileBytes lm \<le> off \<or> maxBytes lm \<le> copied_bytes s
    \<Longrightarrow> copy_loop ops d lm p h off s = (None, warn (Truncated p) s)"
  by (subst copy_loop.simps) (simp only: if_True)

lemma loop_go:
  assumes "off < maxFileBytes lm" and "copied_bytes s < maxBytes lm" and "0 < chunkBytes lm"
  shows "copy_loop ops d lm p h off s =
    (case rv_read ops h (of_nat off) (of_nat (asked_bytes lm off s)) (remote s) of
      (Inl e, v) \<Rightarrow> (Some e, s\<lparr>remote := v\<rparr>)
    | (Inr b, v) \<Rightarrow>
        if b = [] then (None, s\<lparr>remote := v\<rparr>)
        else (case append_data d p b (tree s) of
            None \<Rightarrow> (Some (io_error_at ''Could not write local file: %1'' p), s\<lparr>remote := v\<rparr>)
          | Some f \<Rightarrow>
              let t = s\<lparr>remote := v, tree := f, copied_bytes := copied_bytes s + length b\<rparr>
              in if length b < asked_bytes lm off s then (None, t)
                 else copy_loop ops d lm p h (off + length b) t))"
proof -
  have "asked_bytes lm off s \<noteq> 0" "\<not> (maxFileBytes lm \<le> off \<or> maxBytes lm \<le> copied_bytes s)"
    using assms by (auto simp: asked_bytes_def)
  then show ?thesis
    by (subst copy_loop.simps) (simp only: asked_bytes_def [symmetric] Let_def if_False)
qed

lemma asked_word: "chunkBytes lm < 2 ^ 32 \<Longrightarrow> unat (of_nat (asked_bytes lm off s) :: u32) = asked_bytes lm off s"
  by (simp add: unsigned_of_nat take_bit_nat_eq_self asked_bytes_def)

lemma loop_copies_within:
  assumes ops: "reads_bounded I ops" and chunk: "0 < chunkBytes lm" "chunkBytes lm < 2 ^ 32"
  shows "copy_loop ops d lm p h (length a) s = (e, t) \<Longrightarrow> I (remote s) \<Longrightarrow> copies_within old lm (length a) s
    \<Longrightarrow> tree s p = Some (File a False) \<Longrightarrow> length a \<le> maxFileBytes lm
    \<Longrightarrow> I (remote t) \<and> copied_files t = copied_files s
      \<and> (\<exists>b. tree t p = Some (File b False) \<and> length b \<le> maxFileBytes lm \<and> copies_within old lm (length b) t)"
proof (induction "maxFileBytes lm - length a" arbitrary: a s rule: less_induct)
  case less
  show ?case
  proof (cases "maxFileBytes lm \<le> length a \<or> maxBytes lm \<le> copied_bytes s")
    case True
    then have "t = warn (Truncated p) s" using less.prems(1) loop_end [OF True, of ops d p h] by simp
    then show ?thesis using less.prems copies_fewer [OF less.prems(3), of t] by (auto simp: warn_def)
  next
    case False
    then have c: "length a < maxFileBytes lm" "copied_bytes s < maxBytes lm" by simp_all
    let ?n = "asked_bytes lm (length a) s"
    obtain r v where read: "rv_read ops h (of_nat (length a)) (of_nat ?n) (remote s) = (r, v)" by force
    have v: "I v" by (rule reads_boundedD(1) [OF ops less.prems(2) read])
    have same: "copies_within old lm (length a) (s\<lparr>remote := v\<rparr>)" by (rule copies_fewer [OF less.prems(3)]) simp_all
    note loop = less.prems(1) [unfolded loop_go [OF c chunk(1)] read]
    show ?thesis
    proof (cases "\<exists>b f. r = Inr b \<and> b \<noteq> [] \<and> append_data d p b (tree s) = Some f")
      case False
      then have "t = s\<lparr>remote := v\<rparr>" using loop by (auto split: sum.splits if_splits option.splits)
      then show ?thesis using same v less.prems by auto
    next
      case True
      then obtain b f where b: "r = Inr b" "b \<noteq> []" "append_data d p b (tree s) = Some f" by blast
      have len: "length b \<le> ?n"
        using reads_boundedD(2) [OF ops less.prems(2) read [unfolded b(1)]] asked_word [OF chunk(2), of "length a" s]
        by (simp only:)
      let ?t = "s\<lparr>remote := v, tree := f, copied_bytes := copied_bytes s + length b\<rparr>"
      have at: "tree ?t p = Some (File (a @ b) False)" using read_only_append(2) [OF b(3) less.prems(4)] by simp
      have fits: "length (a @ b) \<le> maxFileBytes lm" using len [unfolded asked_bytes_def] c(1) unfolding length_append by linarith
      have room: "copied_bytes s + length b \<le> maxBytes lm" using len [unfolded asked_bytes_def] c(2) by linarith
      have within: "copies_within old lm (length (a @ b)) ?t"
        using copies_grow [OF less.prems(3), of ?t "length b"] read_only_append(1) [OF b(3)] room
        by simp
      show ?thesis
      proof (cases "length b < ?n")
        case True
        then show ?thesis using loop b v at fits within by (auto simp: Let_def)
      next
        case False
        then have "copy_loop ops d lm p h (length (a @ b)) ?t = (e, t)" using loop b by (simp add: Let_def)
        moreover have "maxFileBytes lm - length (a @ b) < maxFileBytes lm - length a"
          using b(2) c(1) by (cases b) auto
        ultimately show ?thesis using less.hyps [of "a @ b" ?t] v at fits within by simp
      qed
    qed
  qed
qed

lemma file_copies_within:
  assumes "reads_bounded I ops" and "0 < chunkBytes lm" "chunkBytes lm < 2 ^ 32"
    and "mirrorFile ops d lm item p s = (e, t)" and "I (remote s)" and "copies_within old lm 0 s"
  shows "I (remote t) \<and> copies_within old lm 0 t"
proof (cases "maxFiles lm \<le> copied_files s \<or> maxFileBytes lm < unat (item_size item)
    \<or> maxBytes lm < copied_bytes s + unat (item_size item)")
  case True
  then obtain w r where "t = skip_file d p w r s" using assms(4) by (auto simp: mirrorFile_def Let_def split: if_splits)
  then show ?thesis using assms(5) copies_fewer [OF assms(6), of t 0] by (simp add: skip_file_def warn_def)
next
  case go: False
  obtain r v where op: "rv_open ops (item_id item) (remote s) = (r, v)" by force
  have v: "I v" by (rule reads_boundedD(4) [OF assms(1,5) op])
  show ?thesis
  proof (cases "\<exists>h f. r = Inr h \<and> open_new d p (tree s) = Some f")
    case False
    then have "I (remote t) \<and> tree t = tree s \<and> copied_files t = copied_files s \<and> copied_bytes t = copied_bytes s"
      using assms(4) go op v reads_boundedD(5) [OF assms(1) v]
      by (auto simp: mirrorFile_def Let_def split: sum.splits option.splits)
    then show ?thesis using copies_fewer [OF assms(6), of t 0] by simp
  next
    case True
    then obtain h f where h: "r = Inr h" and f: "open_new d p (tree s) = Some f" by blast
    obtain e' u where u: "copy_loop ops d lm p h 0 (s\<lparr>remote := v, tree := f\<rparr>) = (e', u)" by force
    have start: "copies_within old lm 0 (s\<lparr>remote := v, tree := f\<rparr>)"
      by (rule copies_fewer [OF assms(6)]) (use read_only_open [OF f] in simp_all)
    obtain b where l: "I (remote u)" "copied_files u = copied_files s" "tree u p = Some (File b False)"
      "length b \<le> maxFileBytes lm" "copies_within old lm (length b) u"
      using loop_copies_within [OF assms(1-3), of d p h "[]" "s\<lparr>remote := v, tree := f\<rparr>" e' u old] u start
        read_only_open [OF f] v by auto
    have closed: "I (rv_close ops h (remote u))" by (rule reads_boundedD(5) [OF assms(1) l(1)])
    show ?thesis
    proof (cases e')
      case None
      then have "t = u\<lparr>remote := rv_close ops h (remote u), copied_files := Suc (copied_files u),
          tree := makeReadOnly p (tree u)\<rparr>"
        using assms(4) go op h f u by (auto simp: mirrorFile_def Let_def)
      then show ?thesis
        using closed copies_done [OF l(5,4), of t p] l(2) go read_only_made [where fs = "tree u", OF l(3)] by auto
    next
      case (Some x)
      then have "t = u\<lparr>remote := rv_close ops h (remote u), tree := remove_file p (tree u)\<rparr>"
        using assms(4) go op h f u by (auto simp: mirrorFile_def Let_def)
      then show ?thesis using closed copies_fewer [OF l(5), of t 0] read_only_remove [of p "tree u"] by simp
    qed
  qed
qed

lemma children_copies_within:
  assumes "reads_bounded I ops" and "0 < chunkBytes lm" "chunkBytes lm < 2 ^ 32"
  shows "mirror_children ops d lm l i p s = (e, t) \<Longrightarrow> I (remote s) \<Longrightarrow> copies_within old lm 0 s
      \<Longrightarrow> I (remote t) \<and> copies_within old lm 0 t"
    and "mirror_items ops d lm l items p s = (e, t) \<Longrightarrow> I (remote s) \<Longrightarrow> copies_within old lm 0 s
      \<Longrightarrow> I (remote t) \<and> copies_within old lm 0 t"
  using assms
proof (induction ops d lm l i p s and ops d lm l items p s arbitrary: e t and e t
    rule: mirror_children_mirror_items.induct)
  case (1 ops d lm i p s)
  then show ?case using copies_fewer [OF 1(3), of t 0] by (auto simp: warn_def)
next
  case (2 ops d lm l i p s)
  obtain r v where c: "rv_children ops i (remote s) = (r, v)" by force
  have v: "I v" by (rule reads_boundedD(3) [OF 2(5,3) c])
  have same: "copies_within old lm 0 (s\<lparr>remote := v\<rparr>)" by (rule copies_fewer [OF 2(4)]) simp_all
  show ?case
  proof (cases r)
    case (Inl a)
    then show ?thesis using 2(2) c v same by auto
  next
    case (Inr items)
    then have "mirror_items ops d lm l items p (s\<lparr>remote := v\<rparr>) = (e, t)" using 2(2) c by simp
    then show ?thesis using 2(1) [OF c [symmetric] Inr] v same 2(5-7) by simp
  qed
next
  case (3 ops d lm l p s)
  then show ?case by simp
next
  case (4 ops d lm l item items p s)
  let ?c = "uniqueChildPath (tree s) p (display_name item)"
  let ?step = "if is_directory item
      then (case mkpath d ?c (tree s) of
              None \<Rightarrow> (Some (io_error_at ''Could not create local folder: %1'' ?c), s)
            | Some f \<Rightarrow> mirror_children ops d lm l (item_id item) ?c (s\<lparr>tree := f\<rparr>))
      else mirrorFile ops d lm item ?c s"
  obtain e1 u where step: "?step = (e1, u)" by force
  have u: "I (remote u) \<and> copies_within old lm 0 u"
  proof (cases "is_directory item")
    case True
    show ?thesis
    proof (cases "mkpath d ?c (tree s)")
      case None
      then show ?thesis using step True 4(4,5) by auto
    next
      case (Some f)
      have "copies_within old lm 0 (s\<lparr>tree := f\<rparr>)"
        by (rule copies_fewer [OF 4(5)]) (use read_only_mkpath [OF Some] in simp_all)
      then show ?thesis using 4(1) [OF refl True Some] step True Some 4(4,6-8) by simp
    qed
  next
    case False
    then have "mirrorFile ops d lm item ?c s = (e1, u)" using step by simp
    then show ?thesis by (rule file_copies_within [OF 4(6-8) _ 4(4,5)])
  qed
  have rest: "(case e1 of Some e \<Rightarrow> (Some e, u) | None \<Rightarrow> mirror_items ops d lm l items p u) = (e, t)"
    using 4(3) by (simp add: Let_def step)
  show ?case
  proof (cases e1)
    case None
    then have "mirror_items ops d lm l items p u = (e, t)" using rest by simp
    then show ?thesis using 4(2) [OF refl step [symmetric] None] u 4(6-8) by simp
  next
    case (Some a)
    then show ?thesis using rest u by simp
  qed
qed

section \<open>Copies\<close>

text \<open>
  From some states on, which reading does not leave, the handle reads these bytes: what is answered is the
  part asked for.
\<close>

definition serves :: "('s \<Rightarrow> bool) \<Rightarrow> 's remote_ops \<Rightarrow> read_handle \<Rightarrow> bytes \<Rightarrow> bool" where
  "serves I ops h b \<longleftrightarrow>
     (\<forall>v. I v \<longrightarrow> (\<forall>off n. \<exists>v'. I v' \<and> rv_read ops h off n v = (Inr (take (unat n) (drop (unat off) b)), v')))"

lemma servesE:
  assumes "serves I ops h b" and "I v"
  obtains v' where "I v'" and "rv_read ops h off n v = (Inr (take (unat n) (drop (unat off) b)), v')"
  using assms unfolding serves_def by blast

text \<open>The copy counts as cut off when it ends at a limit, also if nothing is missing.\<close>

definition end_warning :: "mirror_limits \<Rightarrow> local_path \<Rightarrow> nat \<Rightarrow> nat \<Rightarrow> warning list" where
  "end_warning lm p n m = (if n = maxFileBytes lm \<or> m = maxBytes lm then [Truncated p] else [])"

lemma loop_copies:
  assumes "serves I ops h b" and "0 < chunkBytes lm" "chunkBytes lm < 2 ^ 32" "maxFileBytes lm < 2 ^ 64"
    and "length b \<le> maxFileBytes lm" and "\<And>n. n \<le> length b \<Longrightarrow> may_grow d p n"
  shows "I (remote s) \<Longrightarrow> off \<le> length b \<Longrightarrow> copied_bytes s + (length b - off) \<le> maxBytes lm
    \<Longrightarrow> tree s p = Some (File (take off b) False)
    \<Longrightarrow> \<exists>v'. I v' \<and> copy_loop ops d lm p h off s =
      (None, s\<lparr>remote := v', tree := (tree s)(p \<mapsto> File b False), copied_bytes := copied_bytes s + (length b - off),
         warnings := warnings s @ end_warning lm p (length b) (copied_bytes s + (length b - off))\<rparr>)"
proof (induction "length b - off" arbitrary: off s rule: less_induct)
  case less
  show ?case
  proof (cases "maxFileBytes lm \<le> off \<or> maxBytes lm \<le> copied_bytes s")
    case True
    then have off: "off = length b" using less.prems(2,3) assms(5) by auto
    then have "(tree s)(p \<mapsto> File b False) = tree s" using less.prems(4) by (auto simp: fun_eq_iff)
    moreover have "length b = maxFileBytes lm \<or> copied_bytes s = maxBytes lm"
      using True off less.prems(3) assms(5) by auto
    ultimately show ?thesis
      unfolding loop_end [OF True] using off less.prems(1)
      by (intro exI [of _ "remote s"]) (simp add: warn_def end_warning_def)
  next
    case False
    then have c: "off < maxFileBytes lm" "copied_bytes s < maxBytes lm" by simp_all
    let ?n = "asked_bytes lm off s" and ?r = "take (asked_bytes lm off s) (drop off b)"
    have "unat (of_nat off :: u64) = off" using c(1) assms(4) by (simp add: unsigned_of_nat take_bit_nat_eq_self)
    then obtain v where v: "I v" and read: "rv_read ops h (of_nat off) (of_nat ?n) (remote s) = (Inr ?r, v)"
      using servesE [OF assms(1) less.prems(1), of "of_nat off" "of_nat ?n"] asked_word [OF assms(3), of off s]
      by metis
    have n: "0 < ?n" "?n \<le> maxFileBytes lm - off" "?n \<le> maxBytes lm - copied_bytes s"
      using c assms(2) by (auto simp: asked_bytes_def)
    have lr: "length ?r = min ?n (length b - off)" by simp
    show ?thesis
    proof (cases "off = length b")
      case True
      then have "(tree s)(p \<mapsto> File b False) = tree s" using less.prems(4) by (auto simp: fun_eq_iff)
      then show ?thesis
        unfolding loop_go [OF c assms(2)] read using True c v
        by (intro exI [of _ v]) (simp add: end_warning_def)
    next
      case False
      let ?t = "s\<lparr>remote := v, tree := (tree s)(p \<mapsto> File (take off b @ ?r) False),
        copied_bytes := copied_bytes s + length ?r\<rparr>"
      have ne: "?r \<noteq> []" using False less.prems(2) n(1) by simp
      have "length (take off b) + length ?r \<le> length b" using less.prems(2) by simp
      then have ap: "append_data d p ?r (tree s) = Some ((tree s)(p \<mapsto> File (take off b @ ?r) False))"
        using less.prems(4) assms(6) by (simp add: append_data_def)
      have body: "copy_loop ops d lm p h off s =
          (if length ?r < ?n then (None, ?t) else copy_loop ops d lm p h (off + length ?r) ?t)"
        unfolding loop_go [OF c assms(2)] read using ne ap by (simp add: Let_def)
      have tk: "take off b @ ?r = take (off + length ?r) b"
        using less.prems(2) by (simp add: take_add min_def)
      show ?thesis
      proof (cases "length ?r < ?n")
        case True
        then have l: "length ?r = length b - off" using lr by linarith
        then have "off + length ?r = length b" using less.prems(2) by simp
        then have "take off b @ ?r = b" using tk by simp
        moreover have "length b \<noteq> maxFileBytes lm" "copied_bytes s + (length b - off) \<noteq> maxBytes lm"
          using True l n by linarith+
        moreover have "copy_loop ops d lm p h off s = (None, ?t)" using body True by (simp only: if_True)
        ultimately show ?thesis using v unfolding l by (intro exI [of _ v]) (simp add: end_warning_def)
      next
        case False
        then have l: "length ?r = ?n" "?n \<le> length b - off" using lr by linarith+
        have "\<exists>v'. I v' \<and> copy_loop ops d lm p h (off + length ?r) ?t =
            (None, ?t\<lparr>remote := v', tree := (tree ?t)(p \<mapsto> File b False),
               copied_bytes := copied_bytes ?t + (length b - (off + length ?r)),
               warnings := warnings ?t @ end_warning lm p (length b) (copied_bytes ?t + (length b - (off + length ?r)))\<rparr>)"
          by (rule less.hyps) (use l n v less.prems in \<open>simp_all add: tk\<close>)
        moreover have "length ?r + (length b - (off + length ?r)) = length b - off" using l less.prems(2) by linarith
        ultimately show ?thesis unfolding body using False by (simp add: add.assoc)
      qed
    qed
  qed
qed

text \<open>
  From some of its states on the client answers what is asked of one file of the host: it is there, and
  these are its bytes.
\<close>

definition file_served :: "('c \<Rightarrow> bool) \<Rightarrow> 'c protocol_client \<Rightarrow> string \<Rightarrow> string \<Rightarrow> bytes \<Rightarrow> bool" where
  "file_served K cl m q b \<longleftrightarrow>
     (\<forall>k. K k \<longrightarrow>
        (\<exists>st k'. K k' \<and> cl_stat cl m q k = (Inr st, k') \<and> stat_exists st \<and> \<not> stat_directory st)
      \<and> (\<forall>off n. \<exists>k'. K k' \<and> cl_read cl m q off n k = (Inr (take (unat n) (drop (unat off) b)), k')))"

text \<open>Then \<open>ProtocolRemoteVfs\<close> opens it, and the handle reads it, whatever else happened to the client.\<close>

lemma vfs_opens:
  assumes "file_served K cl m q b" and "parseId c i = Node_id m q" and "K (client v)"
  obtains h v' where "vfs_open c (Some cl) i v = (Inr h, v')" and "K (client v')"
    and "handle_id h = m_NextHandleId v" and "m_OpenHandles v' = (m_OpenHandles v)(handle_id h \<mapsto> h)"
    and "item_id (handle_item h) = i" and "item_mapping (handle_item h) = m" and "item_path (handle_item h) = q"
    and "\<not> is_directory (handle_item h)"
proof -
  obtain st k' where "K k'" "cl_stat cl m q (client v) = (Inr st, k')" "stat_exists st" "\<not> stat_directory st"
    using assms(1,3) unfolding file_served_def by blast
  then show ?thesis
    using that assms(2) by (simp add: vfs_open_def vfs_get_def node_item_def Let_def)
qed

lemma vfs_serves:
  assumes "file_served K cl m q b" and "handle_id h \<noteq> 0" and "item_id (handle_item h) \<noteq> []"
    and "\<not> is_directory (handle_item h)" and "item_mapping (handle_item h) = m" and "item_path (handle_item h) = q"
    and "H (handle_id h) = Some h"
  shows "serves (\<lambda>v. K (client v) \<and> m_OpenHandles v = H) (vfs_ops c (Some cl)) h b"
  unfolding serves_def
proof (intro allI impI)
  fix v :: "'a vfs" and off n assume v: "K (client v) \<and> m_OpenHandles v = H"
  then obtain k' where "K k'" "cl_read cl m q off n (client v) = (Inr (take (unat n) (drop (unat off) b)), k')"
    using assms(1) unfolding file_served_def by blast
  then show "\<exists>v'. (K (client v') \<and> m_OpenHandles v' = H)
      \<and> rv_read (vfs_ops c (Some cl)) h off n v = (Inr (take (unat n) (drop (unat off) b)), v')"
    using v assms(2-7) by (simp add: vfs_ops_def vfs_read_def Let_def)
qed

lemma file_copied:
  assumes "serves I ops h b" and "rv_open ops (item_id item) (remote s) = (Inr h, v)" and "I v"
    and "unat (item_size item) = length b"
    and "length b \<le> maxFileBytes (limitsFromEnvironment env)"
    and "copied_bytes s + length b \<le> maxBytes (limitsFromEnvironment env)"
    and "copied_files s < maxFiles (limitsFromEnvironment env)"
    and "tree s p = None" and "tree s (butlast p) = Some Dir" and "may_create d p"
    and "\<And>n. n \<le> length b \<Longrightarrow> may_grow d p n"
  shows "\<exists>v'. I v' \<and> mirrorFile ops d (limitsFromEnvironment env) item p s =
    (None, s\<lparr>remote := rv_close ops h v', tree := (tree s)(p \<mapsto> File b True),
       copied_files := copied_files s + 1, copied_bytes := copied_bytes s + length b,
       warnings := warnings s @ end_warning (limitsFromEnvironment env) p (length b) (copied_bytes s + length b)\<rparr>)"
proof -
  let ?lm = "limitsFromEnvironment env" and ?s = "s\<lparr>remote := v, tree := (tree s)(p \<mapsto> File [] False)\<rparr>"
  have new: "open_new d p (tree s) = Some ((tree s)(p \<mapsto> File [] False))"
    using assms(8-10) by (simp add: open_new_def)
  have "\<exists>v'. I v' \<and> copy_loop ops d ?lm p h 0 ?s =
      (None, ?s\<lparr>remote := v', tree := (tree ?s)(p \<mapsto> File b False),
         copied_bytes := copied_bytes ?s + (length b - 0),
         warnings := warnings ?s @ end_warning ?lm p (length b) (copied_bytes ?s + (length b - 0))\<rparr>)"
    by (rule loop_copies [OF assms(1) env_limits(1-3) assms(5) assms(11)]) (use assms(3,6) in simp_all)
  then show ?thesis
    using assms(2,4-7) new by (auto simp: mirrorFile_def Let_def makeReadOnly_def)
qed

section \<open>Handles\<close>

text \<open>What the mirror relies on to leave no file of the host open.\<close>

locale remote_files =
  fixes ops :: "'s remote_ops"
    and handles :: "'s \<Rightarrow> 'h set"
    and key :: "read_handle \<Rightarrow> 'h"
  assumes children_handles: "rv_children ops i v = (r, v') \<Longrightarrow> handles v' = handles v"
    and open_fails: "rv_open ops i v = (Inl e, v') \<Longrightarrow> handles v' = handles v"
    and open_handle: "rv_open ops i v = (Inr h, v') \<Longrightarrow> handles v' = insert (key h) (handles v)"
    and read_handles: "rv_read ops h off n v = (c, v') \<Longrightarrow> handles v' = handles v"
    and close_handle: "handles (rv_close ops h v) = handles v - {key h}"
begin

lemma loop_handles:
  "copy_loop ops d lm p h off s = (e, t) \<Longrightarrow> handles (remote t) = handles (remote s)"
proof (induction "maxFileBytes lm - off" arbitrary: off s rule: less_induct)
  case less
  define n where "n = asked_bytes lm off s"
  define ended where "ended \<longleftrightarrow> maxFileBytes lm \<le> off \<or> maxBytes lm \<le> copied_bytes s"
  obtain r v where read: "rv_read ops h (of_nat off) (of_nat n) (remote s) = (r, v)" by force
  have v: "handles v = handles (remote s)" by (rule read_handles [OF read])
  have loop: "(if ended then (None, warn (Truncated p) s)
      else if n = 0 then (None, s)
      else case r of Inl e \<Rightarrow> (Some e, s\<lparr>remote := v\<rparr>)
        | Inr b \<Rightarrow>
            if b = [] then (None, s\<lparr>remote := v\<rparr>)
            else (case append_data d p b (tree s) of
                None \<Rightarrow> (Some (io_error_at ''Could not write local file: %1'' p), s\<lparr>remote := v\<rparr>)
              | Some f \<Rightarrow>
                  if length b < n then (None, s\<lparr>remote := v, tree := f, copied_bytes := copied_bytes s + length b\<rparr>)
                  else copy_loop ops d lm p h (off + length b)
                    (s\<lparr>remote := v, tree := f, copied_bytes := copied_bytes s + length b\<rparr>))) = (e, t)"
    using less.prems [unfolded copy_loop.simps [of ops d lm p h off s] Let_def asked_bytes_def [symmetric]
      n_def [symmetric] ended_def [symmetric] read] by (simp only: prod.case split: sum.splits)
  show ?case
  proof (cases r)
    case (Inl e')
    then have "t = warn (Truncated p) s \<or> t = s \<or> t = s\<lparr>remote := v\<rparr>"
      using loop by (cases ended; cases "n = 0") simp_all
    then show ?thesis using v by (elim disjE) (simp_all add: warn_def)
  next
    case (Inr b)
    show ?thesis
    proof (cases "append_data d p b (tree s)")
      case None
      then have "t = warn (Truncated p) s \<or> t = s \<or> t = s\<lparr>remote := v\<rparr>"
        using loop Inr by (cases ended; cases "n = 0"; cases "b = []") simp_all
      then show ?thesis using v by (elim disjE) (simp_all add: warn_def)
    next
      case (Some f)
      let ?t = "s\<lparr>remote := v, tree := f, copied_bytes := copied_bytes s + length b\<rparr>"
      show ?thesis
      proof (cases "\<not> ended \<and> n \<noteq> 0 \<and> b \<noteq> [] \<and> \<not> length b < n")
        case True
        then have "copy_loop ops d lm p h (off + length b) ?t = (e, t)"
          using loop Inr Some by (simp only: if_False sum.case option.case simp_thms)
        moreover have "maxFileBytes lm - (off + length b) < maxFileBytes lm - off"
          using True by (cases b) (auto simp: ended_def)
        ultimately have "handles (remote t) = handles (remote ?t)" by (rule less.hyps [rotated])
        then show ?thesis using v by simp
      next
        case False
        then have "t = warn (Truncated p) s \<or> t = s \<or> t = s\<lparr>remote := v\<rparr> \<or> t = ?t"
          using loop Inr Some by (cases ended; cases "n = 0"; cases "b = []") simp_all
        then show ?thesis using v by (elim disjE) (simp_all add: warn_def)
      qed
    qed
  qed
qed

lemma file_handles:
  assumes "mirrorFile ops d lm item p s = (e, t)"
  shows "handles (remote t) \<subseteq> handles (remote s)"
proof (cases "maxFiles lm \<le> copied_files s \<or> maxFileBytes lm < unat (item_size item)
    \<or> maxBytes lm < copied_bytes s + unat (item_size item)")
  case True
  then have "remote t = remote s"
    using assms by (auto simp: mirrorFile_def Let_def skip_file_def warn_def split: if_splits)
  then show ?thesis by simp
next
  case go: False
  obtain r v where op: "rv_open ops (item_id item) (remote s) = (r, v)" by force
  show ?thesis
  proof (cases r)
    case (Inl e')
    then have "remote t = v" using assms go op by (auto simp: mirrorFile_def Let_def)
    then show ?thesis using open_fails [OF op [unfolded Inl]] by simp
  next
    case (Inr h)
    note opened = open_handle [OF op [unfolded Inr]]
    show ?thesis
    proof (cases "open_new d p (tree s)")
      case None
      then have "remote t = rv_close ops h v" using assms go op Inr by (auto simp: mirrorFile_def Let_def)
      then show ?thesis using opened by (auto simp: close_handle)
    next
      case (Some f)
      obtain e' u where u: "copy_loop ops d lm p h 0 (s\<lparr>remote := v, tree := f\<rparr>) = (e', u)" by force
      then have "remote t = rv_close ops h (remote u)"
        using assms go op Inr Some by (auto simp: mirrorFile_def Let_def split: option.splits)
      then show ?thesis using opened loop_handles [OF u] by (auto simp: close_handle)
    qed
  qed
qed

lemma all_handles:
  "mirror_children os d lm l i p s = (e, t) \<Longrightarrow> os = ops \<Longrightarrow> handles (remote t) \<subseteq> handles (remote s)"
  "mirror_items os d lm l items p s = (e, t) \<Longrightarrow> os = ops \<Longrightarrow> handles (remote t) \<subseteq> handles (remote s)"
proof (induction os d lm l i p s and os d lm l items p s arbitrary: e t and e t
    rule: mirror_children_mirror_items.induct)
  case (2 os d lm l i p s)
  obtain r v where list: "rv_children ops i (remote s) = (r, v)" by force
  note v = children_handles [OF list]
  show ?case
  proof (cases r)
    case (Inl e')
    then have "t = s\<lparr>remote := v\<rparr>" using 2(2,3) list by simp
    then show ?thesis using v by simp
  next
    case (Inr items)
    then have "mirror_items os d lm l items p (s\<lparr>remote := v\<rparr>) = (e, t)" using 2(2,3) list by simp
    from 2(1) [OF _ _ this 2(3)] list Inr v 2(3) show ?thesis by simp
  qed
next
  case (4 os d lm l item items p s)
  let ?c = "uniqueChildPath (tree s) p (display_name item)"
  let ?step = "if is_directory item
      then (case mkpath d ?c (tree s) of
              None \<Rightarrow> (Some (io_error_at ''Could not create local folder: %1'' ?c), s)
            | Some f \<Rightarrow> mirror_children os d lm l (item_id item) ?c (s\<lparr>tree := f\<rparr>))
      else mirrorFile os d lm item ?c s"
  obtain e1 u where step: "?step = (e1, u)" by force
  have u: "handles (remote u) \<subseteq> handles (remote s)"
  proof (cases "is_directory item")
    case True
    then show ?thesis
      using step 4(1) [OF refl True] 4(4) by (cases "mkpath d ?c (tree s)") auto
  next
    case False
    then show ?thesis using step 4(4) file_handles by simp
  qed
  have rest: "(case e1 of Some e \<Rightarrow> (Some e, u) | None \<Rightarrow> mirror_items os d lm l items p u) = (e, t)"
    using 4(3) by (simp add: Let_def step)
  show ?case
  proof (cases e1)
    case None
    then have "mirror_items os d lm l items p u = (e, t)" using rest by simp
    from 4(2) [OF refl step [symmetric] None this 4(4)] u show ?thesis by blast
  next
    case (Some a)
    then show ?thesis using rest u by simp
  qed
qed (auto simp: warn_def)

end

interpretation remote_vfs: remote_files "vfs_ops c cl" "\<lambda>v. dom (m_OpenHandles v)" handle_id
proof unfold_locales
  fix i v r v'
  show "rv_children (vfs_ops c cl) i v = (r, v') \<Longrightarrow> dom (m_OpenHandles v') = dom (m_OpenHandles v)"
    by (auto simp: vfs_ops_def vfs_children_def list_items_def
        split: option.splits parsed_id.splits prod.splits)
next
  fix i v e v'
  obtain r u where g: "vfs_get c cl i v = (r, u)" by force
  then have "m_OpenHandles u = m_OpenHandles v"
    by (auto simp: vfs_get_def split: option.splits parsed_id.splits prod.splits)
  then show "rv_open (vfs_ops c cl) i v = (Inl e, v') \<Longrightarrow> dom (m_OpenHandles v') = dom (m_OpenHandles v)"
    using g by (auto simp: vfs_ops_def vfs_open_def Let_def split: sum.splits if_splits)
next
  fix i v h v'
  obtain r u where g: "vfs_get c cl i v = (r, u)" by force
  then have "m_OpenHandles u = m_OpenHandles v"
    by (auto simp: vfs_get_def split: option.splits parsed_id.splits prod.splits)
  then show "rv_open (vfs_ops c cl) i v = (Inr h, v')
      \<Longrightarrow> dom (m_OpenHandles v') = insert (handle_id h) (dom (m_OpenHandles v))"
    using g by (auto simp: vfs_ops_def vfs_open_def Let_def split: sum.splits if_splits)
next
  fix h off n v r v'
  show "rv_read (vfs_ops c cl) h off n v = (r, v') \<Longrightarrow> dom (m_OpenHandles v') = dom (m_OpenHandles v)"
    by (auto simp: vfs_ops_def vfs_read_def Let_def split: option.splits prod.splits if_splits)
next
  fix h v
  show "dom (m_OpenHandles (rv_close (vfs_ops c cl) h v)) = dom (m_OpenHandles v) - {handle_id h}"
    by (auto simp: vfs_ops_def vfs_close_def)
qed

section \<open>How mounting ends\<close>

text \<open>No directory is lost while copying.\<close>

definition keeps_dirs :: "local_fs \<Rightarrow> local_fs \<Rightarrow> bool" where
  "keeps_dirs old new \<longleftrightarrow> (\<forall>x. old x = Some Dir \<longrightarrow> new x = Some Dir)"

lemma keeps_refl [simp]: "keeps_dirs fs fs"
  by (simp add: keeps_dirs_def)

lemma keeps_trans: "keeps_dirs a b \<Longrightarrow> keeps_dirs b c \<Longrightarrow> keeps_dirs a c"
  by (simp add: keeps_dirs_def)

lemma keeps_open: "open_new d p fs = Some f \<Longrightarrow> keeps_dirs fs f"
  by (auto simp: keeps_dirs_def open_new_def split: if_splits option.splits node.splits bool.splits)

lemma keeps_append: "append_data d p b fs = Some f \<Longrightarrow> keeps_dirs fs f"
  by (auto simp: keeps_dirs_def append_data_def split: if_splits option.splits node.splits bool.splits)

lemma keeps_mkpath: "mkpath d p fs = Some f \<Longrightarrow> keeps_dirs fs f"
  by (auto simp: keeps_dirs_def mkpath_def split: if_splits)

lemma keeps_readonly: "keeps_dirs fs (makeReadOnly p fs)"
  by (auto simp: keeps_dirs_def makeReadOnly_def split: option.splits node.splits)

lemma keeps_remove_file: "keeps_dirs fs (remove_file p fs)"
  by (simp add: keeps_dirs_def remove_file_def is_file_def)

lemma keeps_text: "keeps_dirs fs (writeTextFile d p t fs)"
  by (auto simp: writeTextFile_def split: option.split intro: keeps_open keeps_trans [OF keeps_open keeps_append])

lemma keeps_alias: "keeps_dirs fs (createLatestAlias base m fs)"
  using keeps_remove_file [of fs "latestAliasPath base"]
  by (auto simp: createLatestAlias_def Let_def keeps_dirs_def)

lemma keeps_loop: "copy_loop ops d lm p h off s = (e, t) \<Longrightarrow> keeps_dirs (tree s) (tree t)"
proof (induction ops d lm p h off s arbitrary: e t rule: copy_loop.induct)
  case (1 ops d lm p h off s)
  show ?case
    using "1.prems" "1.IH"
    by (subst (asm) copy_loop.simps)
      (auto simp: Let_def warn_def split: if_splits sum.splits prod.splits option.splits
        intro: keeps_trans [OF keeps_append])
qed

lemma keeps_file:
  assumes "mirrorFile ops d lm item p s = (e, t)"
  shows "keeps_dirs (tree s) (tree t)"
proof -
  have "keeps_dirs (tree s) (tree u)"
    if "open_new d p (tree s) = Some f" "copy_loop ops d lm p h 0 (s\<lparr>remote := v, tree := f\<rparr>) = (e', u)" for f h v e' u
    using keeps_trans [OF keeps_open [OF that(1)], of "tree u"] keeps_loop [OF that(2)] by simp
  then show ?thesis
    using assms
    by (auto simp: mirrorFile_def Let_def skip_file_def warn_def keeps_text keeps_trans [OF _ keeps_remove_file]
        keeps_trans [OF _ keeps_readonly]
        split: if_splits sum.splits prod.splits option.splits)
qed

lemma keeps_children:
  "mirror_children ops d lm l i p s = (e, t) \<Longrightarrow> keeps_dirs (tree s) (tree t)"
  "mirror_items ops d lm l items p s = (e, t) \<Longrightarrow> keeps_dirs (tree s) (tree t)"
proof (induction ops d lm l i p s and ops d lm l items p s arbitrary: e t and e t
    rule: mirror_children_mirror_items.induct)
  case (1 ops d lm i p s)
  then show ?case by (auto simp: warn_def keeps_text)
next
  case (2 ops d lm l i p s)
  then show ?case by (auto split: prod.splits sum.splits)
next
  case (3 ops d lm l p s)
  then show ?case by simp
next
  case (4 ops d lm l item items p s)
  let ?c = "uniqueChildPath (tree s) p (display_name item)"
  let ?step = "if is_directory item
      then (case mkpath d ?c (tree s) of
              None \<Rightarrow> (Some (io_error_at ''Could not create local folder: %1'' ?c), s)
            | Some f \<Rightarrow> mirror_children ops d lm l (item_id item) ?c (s\<lparr>tree := f\<rparr>))
      else mirrorFile ops d lm item ?c s"
  obtain e1 u where step: "?step = (e1, u)" by force
  have u: "keeps_dirs (tree s) (tree u)"
  proof (cases "is_directory item")
    case True
    show ?thesis
    proof (cases "mkpath d ?c (tree s)")
      case None
      then show ?thesis using step True by auto
    next
      case (Some f)
      then show ?thesis
        using step True 4(1) [OF refl True Some] keeps_trans [OF keeps_mkpath [OF Some]] by simp
    qed
  next
    case False
    then show ?thesis using step keeps_file by simp
  qed
  have rest: "(case e1 of Some e \<Rightarrow> (Some e, u) | None \<Rightarrow> mirror_items ops d lm l items p u) = (e, t)"
    using 4(3) by (simp add: Let_def step)
  show ?case
  proof (cases e1)
    case None
    then have "mirror_items ops d lm l items p u = (e, t)" using rest by simp
    from 4(2) [OF refl step [symmetric] None this] u show ?thesis by (rule keeps_trans [rotated])
  next
    case (Some a)
    then show ?thesis using rest u by simp
  qed
qed

text \<open>A folder reported as mounted is there and known; else, with a disk that lets trees be removed, nothing is left.\<close>

lemma mount_mounted:
  assumes "mirror_mount d base lm vfs r s = (res, v', s')" and "mstate (mount_status res) = Mounted"
  shows "mount_ok res \<and> mount_id res = cacheRootPath base r \<and> displayPath (mount_status res) = cacheRootPath base r
    \<and> (\<forall>x. prefix x (cacheRootPath base r) \<longrightarrow> local_tree s' x = Some Dir)
    \<and> m_Mounts s' (cacheRootPath base r) = Some (mount_status res)"
proof -
  let ?m = "cacheRootPath base r"
  let ?clear = "if local_tree s ?m = Some Dir then removeRecursively d ?m (local_tree s) else Some (local_tree s)"
  obtain ops v where vfs: "vfs = Some (ops, v)"
    using assms by (cases vfs) (auto simp: mirror_mount_def failed_mount_def)
  obtain f where f: "?clear = Some f"
    using assms vfs by (cases ?clear) (auto simp: mirror_mount_def failed_mount_def Let_def)
  obtain g where g: "mkpath d ?m f = Some g"
    using assms vfs f by (cases "mkpath d ?m f") (auto simp: mirror_mount_def failed_mount_def Let_def)
  let ?start = "\<lparr>remote = v, tree = writeTextFile d (?m @ [''README.txt'']) (readme r) g,
    copied_files = 0, copied_bytes = 0, warnings = []\<rparr>"
  obtain e t where t: "mirror_children ops d lm (Suc (maxDepth lm)) root_id ?m ?start = (e, t)" by force
  have e: "e = None" using assms vfs f g t by (cases e) (auto simp: mirror_mount_def copy_failure_def Let_def)
  let ?f = "if warnings t = [] then tree t
    else writeTextFile d (?m @ [''Moonlight skipped files.txt'']) (skipped_list (warnings t)) (tree t)"
  have "g x = Some Dir" if "prefix x ?m" for x using g that by (auto simp: mkpath_def split: if_splits)
  moreover have "keeps_dirs g (tree t)"
    using keeps_trans [OF keeps_text] keeps_children(1) [OF t] by simp
  moreover have "keeps_dirs (tree t) ?f" by (simp add: keeps_text)
  moreover have "keeps_dirs ?f (createLatestAlias base ?m (makeReadOnly (?m @ [''README.txt'']) ?f))"
    by (rule keeps_trans [OF keeps_readonly keeps_alias])
  ultimately have "createLatestAlias base ?m (makeReadOnly (?m @ [''README.txt'']) ?f) x = Some Dir"
    if "prefix x ?m" for x using that by (simp only: keeps_dirs_def)
  then show ?thesis
    using assms(1) vfs f g t e
    by (auto simp: mirror_mount_def Let_def mount_ok_def no_error_def error_ok_def)
qed

lemma mount_failed:
  assumes "mirror_mount d base lm vfs r s = (res, v', s')" and "mstate (mount_status res) \<noteq> Mounted"
    and "may_remove d (cacheRootPath base r)" and "\<And>x. prefix (cacheRootPath base r) x \<Longrightarrow> local_tree s x = None"
  shows "prefix (cacheRootPath base r) x \<Longrightarrow> local_tree s' x = None"
  using assms
  by (auto simp: mirror_mount_def Let_def copy_failure_def removeRecursively_def failed_mount_def
      split: option.splits prod.splits if_splits)

section \<open>Properties\<close>

definition changed_paths :: "local_fs \<Rightarrow> local_fs \<Rightarrow> local_path set" where
  "changed_paths old new = {x. new x \<noteq> old x}"

text \<open>
  C2: Whatever the host and its files are called, mounting works inside one folder, a plain name in the
  mirror's base folder: apart from the alias \<open>Latest\<close> and folders missing on the way, only paths in it
  change, and a path that is there afterwards has plain components only and a bounded depth.
  Unmounting changes nothing outside of the folder but that alias.
\<close>
theorem mirror_stays_inside:
  "butlast (cacheRootPath base r) = base \<and> plain_part (last (cacheRootPath base r))
   \<and> changed_paths (local_tree s) (local_tree (snd (snd (mirror_mount d base lm vfs r s))))
       \<subseteq> {base @ [''Latest'']} \<union> {x. strict_prefix x (cacheRootPath base r)}
         \<union> {x. prefix (cacheRootPath base r) x
              \<and> (local_tree (snd (snd (mirror_mount d base lm vfs r s))) x = None
                 \<or> length x \<le> length base + maxDepth lm + 3 \<and> list_all plain_part (drop (length base) x))}
   \<and> changed_paths (local_tree s) (local_tree (mirror_unmount d base i s))
       \<subseteq> {base @ [''Latest'']} \<union> {x. prefix i x}"
proof -
  obtain n where n: "plain_part n" "n \<noteq> ''Latest''" "cacheRootPath base r = base @ [n]"
    using root_plain by blast
  let ?m = "base @ [n]" and ?new = "local_tree (snd (snd (mirror_mount d base lm vfs r s)))"
  obtain f where f: "stays (length ?m + maxDepth lm + 2) ?m (local_tree s) f"
    "?new \<in> {f, createLatestAlias base ?m f}"
    using stays_mount [OF n(3)] by blast
  have "createLatestAlias base ?m f x = f x" if "x \<noteq> base @ [''Latest'']" for x
    using that by (simp add: createLatestAlias_def latestAliasPath_def remove_file_def Let_def)
  then have new: "?new x = f x" if "x \<noteq> base @ [''Latest'']" for x
    using f(2) that by auto
  have below: "list_all plain_part (drop (length base) x)"
    if "prefix ?m x" "list_all plain_part (drop (length ?m) x)" for x
    using that n(1) by (auto simp: prefix_def)
  have "x \<in> {base @ [''Latest'']} \<union> {x. strict_prefix x ?m}
         \<union> {x. prefix ?m x \<and> (?new x = None
              \<or> length x \<le> length base + maxDepth lm + 3 \<and> list_all plain_part (drop (length base) x))}"
    if x: "?new x \<noteq> local_tree s x" for x
  proof (cases "x = base @ [''Latest'']")
    case False
    then have "f x \<noteq> local_tree s x" using x new by simp
    then have "strict_prefix x ?m \<or> prefix ?m x \<and> (f x = None
        \<or> length x \<le> length ?m + maxDepth lm + 2 \<and> list_all plain_part (drop (length ?m) x))"
      using f(1) unfolding stays_def by blast
    then show ?thesis using below new [OF False] by auto
  qed simp
  then have "changed_paths (local_tree s) ?new \<subseteq> {base @ [''Latest'']} \<union> {x. strict_prefix x ?m}
      \<union> {x. prefix ?m x \<and> (?new x = None
           \<or> length x \<le> length base + maxDepth lm + 3 \<and> list_all plain_part (drop (length base) x))}"
    unfolding changed_paths_def by blast
  moreover have "changed_paths (local_tree s) (local_tree (mirror_unmount d base i s))
      \<subseteq> {base @ [''Latest'']} \<union> {x. prefix i x}"
    by (auto simp: changed_paths_def mirror_unmount_def removeRecursively_def removeLatestAlias_def
        latestAliasPath_def Let_def split: option.splits if_splits)
  ultimately show ?thesis unfolding n(3) butlast_snoc last_snoc using n(1) by blast
qed

text \<open>The copied files below a folder, with their contents; the note to the reader there is not one.\<close>

definition copies_below :: "local_path \<Rightarrow> local_fs \<Rightarrow> (local_path \<times> bytes) set" where
  "copies_below m fs =
     {(x, b). strict_prefix m x \<and> x \<noteq> m @ [''README.txt''] \<and> (x, b) \<in> read_only_files fs}"

lemma copies_bounds:
  assumes "copies_within old lm k t" and "X \<subseteq> read_only_files (tree t) - read_only_files old"
  shows "finite X \<and> card X \<le> maxFiles lm \<and> (\<Sum>(x, b)\<in>X. length b) \<le> maxBytes lm
    \<and> (\<forall>(x, b)\<in>X. length b \<le> maxFileBytes lm)"
proof -
  let ?n = "read_only_files (tree t) - read_only_files old"
  have f: "finite ?n" using assms(1) by (simp add: copies_within_def Let_def)
  have "card X \<le> card ?n" using card_mono [OF f assms(2)] .
  moreover have "(\<Sum>(x, b)\<in>X. length b) \<le> (\<Sum>(x, b)\<in>?n. length b)" using sum_mono2 [OF f assms(2)] by force
  ultimately show ?thesis
    using assms finite_subset [OF assms(2) f] unfolding copies_within_def Let_def by (auto intro: le_trans)
qed

text \<open>What is done after copying adds no copy.\<close>

lemma copies_below_more:
  assumes "n \<noteq> ''Latest''" and "m = base @ [n]"
  shows "read_only_files f = read_only_files g
    \<Longrightarrow> copies_below m (createLatestAlias base m (makeReadOnly (m @ [''README.txt'']) f)) \<subseteq> copies_below m g"
proof -
  assume same: "read_only_files f = read_only_files g"
  have "createLatestAlias base m (makeReadOnly (m @ [''README.txt'']) f) x = f x"
    if "strict_prefix m x" "x \<noteq> m @ [''README.txt'']" for x
  proof -
    have "x \<noteq> base @ [''Latest'']" using that(1) assms by (auto simp: strict_prefix_def prefix_def)
    then show ?thesis
      using that(2)
      by (auto simp: createLatestAlias_def latestAliasPath_def remove_file_def makeReadOnly_def Let_def
          split: option.split node.split)
  qed
  then have "copies_below m (createLatestAlias base m (makeReadOnly (m @ [''README.txt'']) f)) \<subseteq> copies_below m f"
    by (auto simp: copies_below_def read_only_files_def)
  also have "\<dots> = copies_below m g" using same by (simp add: copies_below_def)
  finally show ?thesis .
qed

lemma mount_copies_within:
  assumes "reads_bounded (I :: 's \<Rightarrow> bool) ops" and "I v" and "0 < chunkBytes lm" "chunkBytes lm < 2 ^ 32"
    and "local_tree s (cacheRootPath base r) = Some Dir \<and> may_remove d (cacheRootPath base r)
      \<or> (\<forall>x. strict_prefix (cacheRootPath base r) x \<longrightarrow> local_tree s x = None)"
  shows "\<exists>old (t :: 's mirror). copies_within old lm 0 t
    \<and> copies_below (cacheRootPath base r) (local_tree (snd (snd (mirror_mount d base lm (Some (ops, v)) r s))))
        \<subseteq> read_only_files (tree t) - read_only_files old"
proof -
  obtain n where n: "n \<noteq> ''Latest''" "cacheRootPath base r = base @ [n]" using root_plain by blast
  let ?m = "cacheRootPath base r"
  let ?clear = "if local_tree s ?m = Some Dir then removeRecursively d ?m (local_tree s) else Some (local_tree s)"
  let ?after = "local_tree (snd (snd (mirror_mount d base lm (Some (ops, v)) r s)))"
  let ?none = "\<lparr>remote = v, tree = (\<lambda>_. None), copied_files = 0, copied_bytes = 0, warnings = []\<rparr>"
  have zero: "copies_within (\<lambda>_. None) lm 0 ?none" by (simp add: copies_within_def read_only_files_def)
  have bare: "copies_below ?m (local_tree s) = {}" if "?clear = None"
    using that assms(5) by (auto simp: copies_below_def read_only_files_def removeRecursively_def split: if_splits)
  have cleared: "copies_below ?m f = {}" if "?clear = Some f" for f
    using that assms(5)
    by (auto simp: copies_below_def read_only_files_def removeRecursively_def strict_prefix_def split: if_splits)
  show ?thesis
  proof (cases "?clear")
    case None
    then have "?after = local_tree s" by (simp add: mirror_mount_def Let_def)
    then show ?thesis using bare [OF None] zero by auto
  next
    case f: (Some f)
    show ?thesis
    proof (cases "mkpath d ?m f")
      case None
      then have "?after = f" using f by (simp add: mirror_mount_def Let_def)
      then show ?thesis using cleared [OF f] zero by auto
    next
      case g: (Some g)
      let ?w = "writeTextFile d (?m @ [''README.txt'']) (readme r) g"
      obtain e t where t: "mirror_children ops d lm (Suc (maxDepth lm)) root_id ?m
          \<lparr>remote = v, tree = ?w, copied_files = 0, copied_bytes = 0, warnings = []\<rparr> = (e, t)" by force
      have within: "copies_within ?w lm 0 t"
        using children_copies_within(1) [OF assms(1,3,4) t, of ?w] assms(2) by (simp add: copies_within_def)
      have old: "copies_below ?m ?w = {}"
        using cleared [OF f] read_only_mkpath [OF g] by (simp add: copies_below_def)
      have "copies_below ?m ?after \<subseteq> copies_below ?m (tree t)"
      proof (cases e)
        case None
        let ?f = "if warnings t = [] then tree t
          else writeTextFile d (?m @ [''Moonlight skipped files.txt'']) (skipped_list (warnings t)) (tree t)"
        have "?after = createLatestAlias base ?m (makeReadOnly (?m @ [''README.txt'']) ?f)"
          using f g t None by (simp add: mirror_mount_def Let_def)
        moreover have "read_only_files ?f = read_only_files (tree t)" by simp
        ultimately show ?thesis using copies_below_more [OF n, of ?f "tree t"] by simp
      next
        case (Some x)
        then have "?after = (case removeRecursively d ?m (tree t) of None \<Rightarrow> tree t | Some f \<Rightarrow> f)"
          using f g t by (simp add: mirror_mount_def Let_def)
        then show ?thesis
          using read_only_removed [of d ?m "tree t"] by (auto simp: copies_below_def split: option.splits)
      qed
      also have "\<dots> \<subseteq> read_only_files (tree t) - read_only_files ?w"
        using old by (auto simp: copies_below_def)
      finally show ?thesis using within by blast
    qed
  qed
qed

text \<open>
  C20: With limits from the environment and a host that does not answer a read with more than asked, the
  files that mounting copies are at most as many as allowed, and their bytes are, together and in each,
  whatever the host's folders hold and however mounting ends. What the mirror writes itself about skipped
  items is not counted: a note for each of them.
\<close>
theorem mirror_limits_kept:
  assumes "reads_bounded I ops" and "I v"
    and "local_tree s (cacheRootPath base r) = Some Dir \<and> may_remove d (cacheRootPath base r)
      \<or> (\<forall>x. strict_prefix (cacheRootPath base r) x \<longrightarrow> local_tree s x = None)"
    and "mirror_mount d base (limitsFromEnvironment env) (Some (ops, v)) r s = (res, v', s')"
    and "copies = copies_below (cacheRootPath base r) (local_tree s')"
  shows "finite copies \<and> card copies \<le> maxFiles (limitsFromEnvironment env)
    \<and> (\<Sum>(x, b)\<in>copies. length b) \<le> maxBytes (limitsFromEnvironment env)
    \<and> (\<forall>(x, b)\<in>copies. length b \<le> maxFileBytes (limitsFromEnvironment env))"
proof -
  have "local_tree (snd (snd (mirror_mount d base (limitsFromEnvironment env) (Some (ops, v)) r s))) = local_tree s'"
    using assms(4) by simp
  then show ?thesis
    using mount_copies_within [OF assms(1,2) env_limits(1,2) assms(3)] copies_bounds unfolding assms(5) by metis
qed

text \<open>A host with one shared folder and a file of one byte in it. The client counts what it is asked.\<close>

definition small_entry :: remote_entry where
  "small_entry = \<lparr>entry_mapping = ''m'', entry_path = ''f'', entry_name = ''f'', entry_directory = False, entry_size = 1\<rparr>"

definition small_file :: vfs_item where
  "small_file = entryItem plain_ids (mappingId plain_ids ''m'') small_entry"

definition small_host :: "nat protocol_client" where
  "small_host = \<lparr>cl_mappings = (\<lambda>_. [\<lparr>map_id = ''m'', map_name = ''m'', map_side = ''host'', map_mode = ''read'',
       map_capabilities = []\<rparr>]),
     cl_list = (\<lambda>_ _ k. (Inr [small_entry], Suc k)),
     cl_stat = (\<lambda>_ _ k. (Inr \<lparr>stat_exists = True, stat_directory = False, stat_size = 1\<rparr>, Suc k)),
     cl_read = (\<lambda>_ _ off n k. (Inr (take (unat n) (drop (unat off) [7])), Suc k))\<rparr>"

definition small_files :: "nat vfs remote_ops" where "small_files = vfs_ops plain_ids (Some small_host)"

definition all_allowed :: disk where
  "all_allowed = \<lparr>may_create = \<lambda>_. True, may_grow = \<lambda>_ _. True, may_remove = \<lambda>_. True\<rparr>"

lemma small_bounded: "reads_bounded (\<lambda>_. True) small_files"
  by (auto simp: reads_bounded_def small_files_def vfs_ops_def vfs_read_def small_host_def Let_def split: sum.split)

lemma mirror_limits_kept_witness:
  "card (copies_below (cacheRootPath [''h''] \<lparr>hostUuid = ''u'', hostName = ''n'', sessionId = ''s''\<rparr>)
     (local_tree (snd (snd (mirror_mount all_allowed [''h''] (limitsFromEnvironment (\<lambda>_. None))
       (Some (small_files, new_vfs 0)) \<lparr>hostUuid = ''u'', hostName = ''n'', sessionId = ''s''\<rparr>
       \<lparr>m_Mounts = \<lambda>_. None, local_tree = \<lambda>_. None\<rparr>))))) \<le> 128"
proof -
  let ?r = "\<lparr>hostUuid = ''u'', hostName = ''n'', sessionId = ''s''\<rparr>"
  let ?s = "\<lparr>m_Mounts = \<lambda>_. None, local_tree = \<lambda>_. None\<rparr>"
  obtain res v' s' where m: "mirror_mount all_allowed [''h''] (limitsFromEnvironment (\<lambda>_. None))
      (Some (small_files, new_vfs 0)) ?r ?s = (res, v', s')" by (metis prod_cases3)
  have l: "maxFiles (limitsFromEnvironment (\<lambda>_. None)) = 128"
    by (simp add: limitsFromEnvironment_def bounded_or_def default_limits_def)
  have "card (copies_below (cacheRootPath [''h''] ?r) (local_tree s')) \<le> maxFiles (limitsFromEnvironment (\<lambda>_. None))"
    using mirror_limits_kept [OF small_bounded TrueI _ m refl] by simp
  then show ?thesis unfolding m l by simp
qed

text \<open>
  C21: A file the limits allow, which the host has and serves through \<open>ProtocolRemoteVfs\<close>, is copied byte
  for byte in as many reads as it takes and left read-only, when the disk takes it; its handle is closed.
  The list of skipped items says that it was cut off exactly when it, or the snapshot with it, fills its
  limit to the byte: nothing is missing then.
\<close>
theorem mirror_copies_exactly:
  assumes "file_served K cl m q b" and "K (client (remote s))" and "m_NextHandleId (remote s) \<noteq> 0"
    and "parseId c (item_id item) = Node_id m q" and "unat (item_size item) = length b"
    and "length b \<le> maxFileBytes (limitsFromEnvironment env)"
    and "copied_bytes s + length b \<le> maxBytes (limitsFromEnvironment env)"
    and "copied_files s < maxFiles (limitsFromEnvironment env)"
    and "tree s p = None" and "tree s (butlast p) = Some Dir" and "may_create d p"
    and "\<And>n. n \<le> length b \<Longrightarrow> may_grow d p n"
  shows "\<exists>v. K (client v)
    \<and> m_OpenHandles v = (m_OpenHandles (remote s))(m_NextHandleId (remote s) := None)
    \<and> mirrorFile (vfs_ops c (Some cl)) d (limitsFromEnvironment env) item p s =
    (None, s\<lparr>remote := v, tree := (tree s)(p \<mapsto> File b True),
       copied_files := copied_files s + 1, copied_bytes := copied_bytes s + length b,
       warnings := warnings s
         @ (if length b = maxFileBytes (limitsFromEnvironment env)
                \<or> copied_bytes s + length b = maxBytes (limitsFromEnvironment env)
            then [Truncated p] else [])\<rparr>)"
proof -
  obtain h v where h: "vfs_open c (Some cl) (item_id item) (remote s) = (Inr h, v)" "K (client v)"
    "handle_id h = m_NextHandleId (remote s)" "m_OpenHandles v = (m_OpenHandles (remote s))(handle_id h \<mapsto> h)"
    "item_id (handle_item h) = item_id item" "item_mapping (handle_item h) = m" "item_path (handle_item h) = q"
    "\<not> is_directory (handle_item h)"
    using vfs_opens [where v = "remote s", OF assms(1,4,2)] .
  have "item_id (handle_item h) \<noteq> []" using h(5) assms(4) by (auto simp: parseId_def root_id_def starts_with_def)
  then have "serves (\<lambda>w. K (client w) \<and> m_OpenHandles w = m_OpenHandles v) (vfs_ops c (Some cl)) h b"
    using vfs_serves [OF assms(1) _ _ h(8,6,7)] h(3,4) assms(3) by simp
  note copy = file_copied [OF this, of item s v env p d]
  have "rv_open (vfs_ops c (Some cl)) (item_id item) (remote s) = (Inr h, v)" using h(1) by (simp add: vfs_ops_def)
  from copy [OF this _ assms(5-12)] h(2) obtain w where w: "K (client w)" "m_OpenHandles w = m_OpenHandles v"
    and f: "mirrorFile (vfs_ops c (Some cl)) d (limitsFromEnvironment env) item p s =
    (None, s\<lparr>remote := vfs_close h w, tree := (tree s)(p \<mapsto> File b True),
       copied_files := copied_files s + 1, copied_bytes := copied_bytes s + length b,
       warnings := warnings s @ end_warning (limitsFromEnvironment env) p (length b) (copied_bytes s + length b)\<rparr>)"
    by (auto simp: vfs_ops_def)
  show ?thesis
    by (rule exI [of _ "vfs_close h w"]) (use w f h(3,4) in \<open>simp add: vfs_close_def end_warning_def\<close>)
qed

lemma mirror_copies_exactly_witness:
  "tree (snd (mirrorFile small_files all_allowed (limitsFromEnvironment (\<lambda>_. None)) small_file [''h'', ''a'']
     \<lparr>remote = new_vfs 0, tree = [[''h''] \<mapsto> Dir], copied_files = 0, copied_bytes = 0, warnings = []\<rparr>))
   = [[''h''] \<mapsto> Dir, [''h'', ''a''] \<mapsto> File [7] True]"
proof -
  let ?s = "\<lparr>remote = new_vfs 0, tree = [[''h''] \<mapsto> Dir], copied_files = 0, copied_bytes = 0, warnings = []\<rparr>"
  have l: "maxFiles (limitsFromEnvironment (\<lambda>_. None)) = 128"
    "maxBytes (limitsFromEnvironment (\<lambda>_. None)) = 33554432"
    "maxFileBytes (limitsFromEnvironment (\<lambda>_. None)) = 8388608"
    by (simp_all add: limitsFromEnvironment_def bounded_or_def default_limits_def)
  have served: "file_served (\<lambda>_. True) small_host ''m'' ''f'' [7]" by (simp add: file_served_def small_host_def)
  have "parseId plain_ids (item_id small_file) = Node_id ''m'' ''f''"
    using parse_nodeId [OF plain_ids_faithful, of "''m''" "''f''"]
    by (simp add: small_file_def small_entry_def entryItem_def normalizedRemotePath_def path_parts_def slashes_def)
  from mirror_copies_exactly [OF served, of ?s plain_ids small_file "\<lambda>_. None" "[''h'', ''a'']" all_allowed]
    this show ?thesis
    by (auto simp: l small_files_def small_file_def small_entry_def entryItem_def all_allowed_def new_vfs_def)
qed

text \<open>
  However mounting ends, no file of the host is left open that was not open before.
\<close>
theorem mirror_closes_handles:
  "\<exists>v'. fst (snd (mirror_mount d base lm (Some (vfs_ops c cl, v)) r s)) = Some v'
     \<and> dom (m_OpenHandles v') \<subseteq> dom (m_OpenHandles v)"
proof -
  let ?m = "cacheRootPath base r"
  let ?clear = "if local_tree s ?m = Some Dir then removeRecursively d ?m (local_tree s) else Some (local_tree s)"
  let ?start = "\<lambda>f. \<lparr>remote = v, tree = writeTextFile d (?m @ [''README.txt'']) (readme r) f,
    copied_files = 0, copied_bytes = 0, warnings = []\<rparr>"
  show ?thesis
  proof (cases "?clear")
    case None
    then show ?thesis by (auto simp: mirror_mount_def Let_def)
  next
    case f: (Some f)
    show ?thesis
    proof (cases "mkpath d ?m f")
      case None
      then show ?thesis using f by (simp add: mirror_mount_def Let_def)
    next
      case g: (Some g)
      obtain e t where t: "mirror_children (vfs_ops c cl) d lm (Suc (maxDepth lm)) root_id ?m (?start g) = (e, t)"
        by force
      have "fst (snd (mirror_mount d base lm (Some (vfs_ops c cl, v)) r s)) = Some (remote t)"
        using f g t by (cases e) (simp_all add: mirror_mount_def Let_def)
      then show ?thesis using remote_vfs.all_handles(1) [OF t refl] by simp
    qed
  qed
qed

text \<open>A host that answers with more than asked fills the disk beyond the limit.\<close>

lemma long_answer_exceeds_limit:
  "copied_bytes (snd (copy_loop (small_files\<lparr>rv_read := \<lambda>h off n v. (Inr (replicate 9 0), v)\<rparr>) all_allowed
     \<lparr>maxDepth = 1, maxFiles = 1, maxBytes = 4, maxFileBytes = 4, chunkBytes = 4\<rparr> [''a''] h 0
     \<lparr>remote = v, tree = [[''a''] \<mapsto> File [] False], copied_files = 0, copied_bytes = 0, warnings = []\<rparr>)) = 9"
proof -
  have "replicate 9 (0 :: byte) \<noteq> []" by simp
  then show ?thesis
    by (subst loop_go) (simp_all add: all_allowed_def append_data_def asked_bytes_def Let_def
        loop_end warn_def)
qed

end
