(* ===== verification/MountCoordination.thy ===== *)
theory MountCoordination
  imports FinderMirror "HOL-Library.AList"
begin

text \<open>
  Which provider mounts a host's files, and the mounts in use
  (\<open>src/file-mapping/mount/mount_coordinator.cpp\<close>, \<open>unavailable_mount_provider.cpp\<close>,
  \<open>windows_explorer_mirror_provider.cpp\<close>, \<open>mount_provider_factory.cpp\<close>). A provider is a record of its
  operations on the state \<open>'w\<close> that all providers share; \<open>'v\<close> is the remote file tree of a request.
\<close>

section \<open>Providers\<close>

record ('v, 'w) mount_provider =
  p_name :: string
  p_status :: "local_path \<Rightarrow> 'w \<Rightarrow> mount_status"
  p_mount :: "mount_request \<Rightarrow> 'v \<Rightarrow> 'w \<Rightarrow> mount_result \<times> string list \<times> 'w"
  p_reveal :: "local_path \<Rightarrow> 'w \<Rightarrow> fm_error"
  p_unmount :: "local_path \<Rightarrow> 'w \<Rightarrow> 'w"

definition unavailable_provider :: "string \<Rightarrow> string \<Rightarrow> ('v, 'w) mount_provider" where
  "unavailable_provider name m =
     (let st = \<lparr>mstate = Mount_unavailable, displayPath = [], status_message = m\<rparr> in
      \<lparr>p_name = name,
       p_status = \<lambda>i w. st,
       p_mount = \<lambda>r v w. (\<lparr>mount_error = make_error E_Unsupported m, mount_id = [], mount_status = st\<rparr>, [], w),
       p_reveal = \<lambda>i w. make_error E_Unsupported m,
       p_unmount = \<lambda>i w. w\<rparr>)"

text \<open>The state the mirror works on: its own, and that of the host's tree of files.\<close>

record 's files_world =
  mirror_of :: mirror_provider
  host_tree :: 's

record system_env =
  the_disk :: disk
  cacheBase :: local_path
  env_limits :: mirror_limits
  can_open :: "local_path \<Rightarrow> bool"

definition finder_provider :: "system_env \<Rightarrow> ('s remote_ops, 's files_world) mount_provider" where
  "finder_provider e =
     \<lparr>p_name = ''macOS Finder mirror'',
      p_status = \<lambda>i w. mirror_status i (mirror_of w),
      p_mount = \<lambda>r ops w.
        (case mirror_mount (the_disk e) (cacheBase e) (env_limits e) (Some (ops, host_tree w)) r (mirror_of w) of
           (res, v, m) \<Rightarrow> (res, [], \<lparr>mirror_of = m, host_tree = (case v of None \<Rightarrow> host_tree w | Some v \<Rightarrow> v)\<rparr>)),
      p_reveal = \<lambda>i w. mirror_reveal (can_open e) i (mirror_of w),
      p_unmount = \<lambda>i w. w\<lparr>mirror_of := mirror_unmount (the_disk e) (cacheBase e) i (mirror_of w)\<rparr>\<rparr>"

text \<open>On Windows the same with other texts. \<open>QString::replace\<close> works from left to right, without overlaps.\<close>

fun replace_text :: "string \<Rightarrow> string \<Rightarrow> nat \<Rightarrow> string \<Rightarrow> string" where
  "replace_text before after k [] = []"
| "replace_text before after (Suc k) (c # t) = replace_text before after k t"
| "replace_text before after 0 (c # t) =
     (if starts_with before (c # t) then after @ replace_text before after (length before - 1) t
      else c # replace_text before after 0 t)"

definition in_explorer :: "mount_result \<Rightarrow> mount_result" where
  "in_explorer r =
     (let st = mount_status r in
      if mount_ok r \<and> mstate st = Mounted
      then r\<lparr>mount_status := st\<lparr>status_message :=
        (if status_message st = [] then ''Host files are ready in Explorer.''
         else replace_text ''Host files are ready'' ''Host files are ready in Explorer'' 0 (status_message st))\<rparr>\<rparr>
      else r)"

definition explorer_provider :: "system_env \<Rightarrow> ('s remote_ops, 's files_world) mount_provider" where
  "explorer_provider e =
     (finder_provider e)\<lparr>p_name := ''Windows Explorer mirror'',
       p_mount := \<lambda>r ops w. (case p_mount (finder_provider e) r ops w of (res, ds, w) \<Rightarrow> (in_explorer res, ds, w)),
       p_reveal := \<lambda>i w.
         (let st = mirror_status i (mirror_of w) in
          if mstate st \<noteq> Mounted \<or> displayPath st = []
          then make_error E_NotFound ''Host files are not mounted for this session.''
          else if can_open e (displayPath st) then no_error
          else make_error E_Internal ''Could not open host files in Explorer.'')\<rparr>"

text \<open>
  The providers a build starts with. The experimental ones of macOS, which two environment variables add
  in front, drive a system extension and are not modelled.
\<close>

datatype mount_platform = MacOS | Windows | Linux

definition fallback_provider :: "('v, 'w) mount_provider" where
  "fallback_provider = unavailable_provider ''Moonlight file browser''
     ''Moonlight's built-in host files browser is not available yet.''"

definition createDefaultMountProviders ::
  "mount_platform \<Rightarrow> system_env \<Rightarrow> ('s remote_ops, 's files_world) mount_provider option list" where
  "createDefaultMountProviders pl e =
     [Some (case pl of
        MacOS \<Rightarrow> finder_provider e
      | Windows \<Rightarrow> explorer_provider e
      | Linux \<Rightarrow> unavailable_provider ''Linux FUSE integration''
          (qt_arg ''%1 is not available in this build yet.'' ''Linux FUSE integration'')),
      Some fallback_provider]"

section \<open>The coordinator\<close>

record coordinator_result = mount_result +
  providerName :: string
  diagnostics :: "string list"

text \<open>A mount in use: the provider's place in the list, and what it gave.\<close>

record active_mount =
  a_provider :: nat
  a_id :: local_path
  a_status :: mount_status

record ('v, 'w) coordinator =
  m_Providers :: "('v, 'w) mount_provider option list"
  m_ActiveMounts :: "(string \<times> active_mount) list"

definition new_coordinator :: "('v, 'w) mount_provider option list \<Rightarrow> ('v, 'w) coordinator" where
  "new_coordinator ps = \<lparr>m_Providers = ps, m_ActiveMounts = []\<rparr>"

definition addProvider :: "('v, 'w) mount_provider option \<Rightarrow> ('v, 'w) coordinator \<Rightarrow> ('v, 'w) coordinator" where
  "addProvider p c = (case p of None \<Rightarrow> c | Some _ \<Rightarrow> c\<lparr>m_Providers := m_Providers c @ [p]\<rparr>)"

definition sessionKey :: "string \<Rightarrow> string \<Rightarrow> string" where
  "sessionKey host session = host @ '':'' @ session"

definition provider_at :: "('v, 'w) coordinator \<Rightarrow> nat \<Rightarrow> ('v, 'w) mount_provider option" where
  "provider_at c k = (if k < length (m_Providers c) then m_Providers c ! k else None)"

definition unavailableResult :: "string \<Rightarrow> coordinator_result" where
  "unavailableResult m = \<lparr>mount_error = make_error E_Unavailable m, mount_id = [],
     mount_status = \<lparr>mstate = Mount_unavailable, displayPath = [], status_message = m\<rparr>,
     providerName = [], diagnostics = []\<rparr>"

fun state_number :: "mount_state \<Rightarrow> nat" where
  "state_number Unmounted = 0" | "state_number Mounting = 1" | "state_number Mounted = 2"
| "state_number Mount_unavailable = 3" | "state_number Mount_error = 4"

fun kind_number :: "error_kind \<Rightarrow> nat" where
  "kind_number E_None = 0" | "kind_number E_Unavailable = 1" | "kind_number E_Unauthorized = 2"
| "kind_number E_Timeout = 3" | "kind_number E_Network = 4" | "kind_number E_NotFound = 5"
| "kind_number E_ReadOnly = 6" | "kind_number E_Cancelled = 7" | "kind_number E_Unsupported = 8"
| "kind_number E_Internal = 9"

definition attempt_text :: "string \<Rightarrow> mount_result \<Rightarrow> string" where
  "attempt_text name r =
     fold (\<lambda>a t. qt_arg t a)
       [name, if mount_ok r then ''true'' else ''false'', decimal (state_number (mstate (mount_status r))),
        decimal (kind_number (kind (mount_error r))), message (mount_error r), status_message (mount_status r),
        path_text (displayPath (mount_status r))]
       (''provider='' @ [CHR 0x22] @ ''%1'' @ [CHR 0x22] @ '' ok=%2 state=%3 error_kind=%4 error='' @ [CHR 0x22] @ ''%5''
        @ [CHR 0x22] @ '' message='' @ [CHR 0x22] @ ''%6'' @ [CHR 0x22] @ '' display_path='' @ [CHR 0x22] @ ''%7'' @ [CHR 0x22])"

definition provider_text :: "string \<Rightarrow> string \<Rightarrow> string" where
  "provider_text name d = ''provider='' @ [CHR 0x22] @ name @ [CHR 0x22] @ '' diagnostic='' @ [CHR 0x22] @ d @ [CHR 0x22]"

definition reused_text :: "string \<Rightarrow> mount_status \<Rightarrow> string" where
  "reused_text name st =
     fold (\<lambda>a t. qt_arg t a) [name, decimal (state_number (mstate st)), path_text (displayPath st)]
       (''provider='' @ [CHR 0x22] @ ''%1'' @ [CHR 0x22] @ '' reused=true state=%2 display_path='' @ [CHR 0x22] @ ''%3'' @ [CHR 0x22])"

text \<open>The providers in turn, from a place in the list on: what is answered, and who mounted.\<close>

fun try_providers ::
  "nat \<Rightarrow> ('v, 'w) mount_provider option list \<Rightarrow> mount_request \<Rightarrow> 'v \<Rightarrow> string list \<Rightarrow> coordinator_result
   \<Rightarrow> coordinator_result option \<Rightarrow> 'w \<Rightarrow> coordinator_result \<times> nat option \<times> 'w" where
  "try_providers k [] r v ds last_result first w =
     ((case first of Some f \<Rightarrow> f\<lparr>diagnostics := ds\<rparr> | None \<Rightarrow> last_result\<lparr>diagnostics := ds\<rparr>), None, w)"
| "try_providers k (None # ps) r v ds last_result first w = try_providers (Suc k) ps r v ds last_result first w"
| "try_providers k (Some p # ps) r v ds last_result first w =
     (case p_mount p r v w of (res, own, w) \<Rightarrow>
        let ds = ds @ [attempt_text (p_name p) res] @ map (provider_text (p_name p)) (filter (\<lambda>d. d \<noteq> []) own);
            cr = mount_result.extend res \<lparr>providerName = p_name p, diagnostics = ds\<rparr>
        in if \<not> mount_ok res
           then try_providers (Suc k) ps r v ds cr
             (if first = None \<and> kind (mount_error res) \<noteq> E_Unsupported then Some cr else first) w
           else (cr, Some k, w))"

definition unmount_entry :: "('v, 'w) coordinator \<Rightarrow> active_mount \<Rightarrow> 'w \<Rightarrow> 'w" where
  "unmount_entry c a w = (case provider_at c (a_provider a) of None \<Rightarrow> w | Some p \<Rightarrow> p_unmount p (a_id a) w)"

definition erase_key :: "string \<Rightarrow> ('v, 'w) coordinator \<Rightarrow> ('v, 'w) coordinator" where
  "erase_key key c = c\<lparr>m_ActiveMounts := filter (\<lambda>(k, a). k \<noteq> key) (m_ActiveMounts c)\<rparr>"

definition set_active :: "string \<Rightarrow> active_mount \<Rightarrow> ('v, 'w) coordinator \<Rightarrow> ('v, 'w) coordinator" where
  "set_active key a c = c\<lparr>m_ActiveMounts := AList.update key a (m_ActiveMounts c)\<rparr>"

definition mount_anew ::
  "mount_request \<Rightarrow> 'v \<Rightarrow> ('v, 'w) coordinator \<Rightarrow> 'w \<Rightarrow> coordinator_result \<times> ('v, 'w) coordinator \<times> 'w" where
  "mount_anew r v c w =
     (case try_providers 0 (m_Providers c) r v []
             (unavailableResult ''No host files mount provider is available.'') None w of
        (res, None, w) \<Rightarrow> (res, c, w)
      | (res, Some k, w) \<Rightarrow>
          (res, set_active (sessionKey (hostUuid r) (sessionId r))
             \<lparr>a_provider = k, a_id = mount_id res, a_status = mount_status res\<rparr> c, w))"

definition ensureMounted ::
  "mount_request \<Rightarrow> 'v option \<Rightarrow> ('v, 'w) coordinator \<Rightarrow> 'w \<Rightarrow> coordinator_result \<times> ('v, 'w) coordinator \<times> 'w" where
  "ensureMounted r vfs c w =
     (if hostUuid r = [] \<or> sessionId r = []
      then ((unavailableResult ''Host files cannot be mounted without an active host session.'')
              \<lparr>diagnostics := [''coordinator unavailable: missing active host session'']\<rparr>, c, w)
      else case vfs of
        None \<Rightarrow> ((unavailableResult ''Host files cannot be mounted because the remote file tree is unavailable.'')
              \<lparr>diagnostics := [''coordinator unavailable: remote file tree missing'']\<rparr>, c, w)
      | Some v \<Rightarrow>
          let key = sessionKey (hostUuid r) (sessionId r) in
          (case map_of (m_ActiveMounts c) key of
             None \<Rightarrow> mount_anew r v c w
           | Some a \<Rightarrow>
               (case provider_at c (a_provider a) of
                  None \<Rightarrow> mount_anew r v c w
                | Some p \<Rightarrow>
                    let st = p_status p (a_id a) w in
                    if mstate st = Mounted \<or> mstate st = Mounting
                    then (\<lparr>mount_error = no_error, mount_id = a_id a, mount_status = st, providerName = p_name p,
                           diagnostics = [reused_text (p_name p) st]\<rparr>,
                          set_active key (a\<lparr>a_status := st\<rparr>) c, w)
                    else mount_anew r v (erase_key key c) (p_unmount p (a_id a) w))))"

definition reveal :: "string \<Rightarrow> string \<Rightarrow> ('v, 'w) coordinator \<Rightarrow> 'w \<Rightarrow> fm_error" where
  "reveal host session c w =
     (case map_of (m_ActiveMounts c) (sessionKey host session) of
        None \<Rightarrow> make_error E_NotFound ''Host files are not mounted for this session.''
      | Some a \<Rightarrow>
          (case provider_at c (a_provider a) of
             None \<Rightarrow> make_error E_NotFound ''Host files are not mounted for this session.''
           | Some p \<Rightarrow> p_reveal p (a_id a) w))"

definition session_status ::
  "string \<Rightarrow> string \<Rightarrow> ('v, 'w) coordinator \<Rightarrow> 'w \<Rightarrow> mount_status \<times> ('v, 'w) coordinator" where
  "session_status host session c w =
     (let key = sessionKey host session in
      case map_of (m_ActiveMounts c) key of
        None \<Rightarrow> (unmounted, c)
      | Some a \<Rightarrow>
          (case provider_at c (a_provider a) of
             None \<Rightarrow> (unmounted, c)
           | Some p \<Rightarrow> let st = p_status p (a_id a) w in (st, set_active key (a\<lparr>a_status := st\<rparr>) c)))"

definition unmount_session ::
  "string \<Rightarrow> string \<Rightarrow> ('v, 'w) coordinator \<Rightarrow> 'w \<Rightarrow> ('v, 'w) coordinator \<times> 'w" where
  "unmount_session host session c w =
     (case map_of (m_ActiveMounts c) (sessionKey host session) of
        None \<Rightarrow> (c, w)
      | Some a \<Rightarrow> (erase_key (sessionKey host session) c, unmount_entry c a w))"

definition unmountAll :: "('v, 'w) coordinator \<Rightarrow> 'w \<Rightarrow> ('v, 'w) coordinator \<times> 'w" where
  "unmountAll c w = (c\<lparr>m_ActiveMounts := []\<rparr>, fold (unmount_entry c) (map snd (m_ActiveMounts c)) w)"

text \<open>Any use of the coordinator.\<close>

datatype 'v coordinator_event =
    Ensure mount_request "'v option" | Status string string | Unmount string string

definition coordinator_step ::
  "('v, 'w) coordinator \<times> 'w \<Rightarrow> 'v coordinator_event \<Rightarrow> ('v, 'w) coordinator \<times> 'w" where
  "coordinator_step cw e =
     (case cw of (c, w) \<Rightarrow>
        (case e of
           Ensure r vfs \<Rightarrow> snd (ensureMounted r vfs c w)
         | Status h i \<Rightarrow> (snd (session_status h i c w), w)
         | Unmount h i \<Rightarrow> unmount_session h i c w))"

section \<open>No mount is forgotten\<close>

text \<open>
  What the coordinator relies on: mounting adds at most the mount it reports, unmounting removes it, and
  a provider leaves the others' mounts alone.
\<close>

locale mount_providers =
  fixes ps :: "('v, 'w) mount_provider option list"
    and live :: "nat \<Rightarrow> 'w \<Rightarrow> local_path set"
  assumes mounts: "k < length ps \<Longrightarrow> ps ! k = Some p \<Longrightarrow> p_mount p r v w = (res, ds, w') \<Longrightarrow>
      live j w' \<subseteq> (if j = k \<and> mount_ok res then insert (mount_id res) (live j w) else live j w)"
    and unmounts: "k < length ps \<Longrightarrow> ps ! k = Some p \<Longrightarrow>
      live j (p_unmount p i w) \<subseteq> (if j = k then live j w - {i} else live j w)"
    and no_mounts: "length ps \<le> j \<or> ps ! j = None \<Longrightarrow> live j w = {}"
begin

definition tracked :: "(string \<times> active_mount) list \<Rightarrow> (nat \<times> local_path) set" where
  "tracked ms = (\<lambda>(key, a). (a_provider a, a_id a)) ` set ms"

definition live_mounts :: "'w \<Rightarrow> (nat \<times> local_path) set" where
  "live_mounts w = {(k, i). i \<in> live k w}"

lemma try_live:
  "try_providers k qs r v ds l f w = (res, who, w') \<Longrightarrow> (\<And>i. i < length qs \<Longrightarrow> k + i < length ps \<and> ps ! (k + i) = qs ! i)
   \<Longrightarrow> live_mounts w' \<subseteq> (case who of None \<Rightarrow> live_mounts w | Some j \<Rightarrow> insert (j, mount_id res) (live_mounts w))"
proof (induction k qs r v ds l f w rule: try_providers.induct)
  case (1 k r v ds l f w)
  then show ?case by auto
next
  case (2 k qs r v ds l f w)
  have "k' < length qs \<Longrightarrow> Suc k + k' < length ps \<and> ps ! (Suc k + k') = qs ! k'" for k'
    using 2(3) [of "Suc k'"] by simp
  then show ?case using 2(1,2) by simp
next
  case (3 k p qs r v ds l f w)
  obtain res0 own u where m: "p_mount p r v w = (res0, own, u)" by (metis prod_cases3)
  have k: "k < length ps" "ps ! k = Some p" using 3(3) [of 0] by simp_all
  have rest: "k' < length qs \<Longrightarrow> Suc k + k' < length ps \<and> ps ! (Suc k + k') = qs ! k'" for k'
    using 3(3) [of "Suc k'"] by simp
  note u = mounts [OF k m]
  show ?case
  proof (cases "mount_ok res0")
    case True
    then have "who = Some k" "w' = u" "mount_id res = mount_id res0"
      using 3(2) m by (auto simp: Let_def mount_result.defs)
    moreover have "(j, i) \<in> insert (k, mount_id res0) (live_mounts w)" if "i \<in> live j u" for j i
      using subsetD [OF u [of j] that] True by (cases "j = k") (auto simp: live_mounts_def)
    ultimately show ?thesis by (auto simp: live_mounts_def)
  next
    case False
    have "live_mounts u \<subseteq> live_mounts w" using u False by (auto simp: live_mounts_def)
    moreover have "live_mounts w' \<subseteq> (case who of None \<Rightarrow> live_mounts u | Some j \<Rightarrow> insert (j, mount_id res) (live_mounts u))"
      using 3(1) [OF m [symmetric] refl refl refl False _ rest] 3(2) m False by (simp add: Let_def cong: if_cong)
    ultimately show ?thesis by (cases who) auto
  qed
qed

lemma unmount_live:
  assumes "m_Providers c = ps"
  shows "live_mounts (unmount_entry c a w) \<subseteq> live_mounts w - {(a_provider a, a_id a)}"
proof (cases "provider_at c (a_provider a)")
  case None
  then have "live (a_provider a) w = {}"
    using no_mounts [of "a_provider a" w] assms by (auto simp: provider_at_def split: if_splits)
  then show ?thesis using None by (auto simp: unmount_entry_def live_mounts_def)
next
  case (Some p)
  then have k: "a_provider a < length ps" "ps ! a_provider a = Some p"
    using assms by (auto simp: provider_at_def split: if_splits)
  have "(j, i) \<in> live_mounts w - {(a_provider a, a_id a)}" if "i \<in> live j (p_unmount p (a_id a) w)" for j i
    using subsetD [OF unmounts [OF k] that] by (cases "j = a_provider a") (auto simp: live_mounts_def)
  then show ?thesis using Some by (auto simp: unmount_entry_def live_mounts_def)
qed

definition all_tracked :: "('v, 'w) coordinator \<times> 'w \<Rightarrow> bool" where
  "all_tracked cw = (case cw of (c, w) \<Rightarrow> m_Providers c = ps \<and> distinct (map fst (m_ActiveMounts c))
     \<and> live_mounts w \<subseteq> tracked (m_ActiveMounts c))"

lemma tracked_erase:
  assumes "distinct (map fst ms)" and "map_of ms key = Some a"
  shows "tracked ms - {(a_provider a, a_id a)} \<subseteq> tracked (filter (\<lambda>(k, a). k \<noteq> key) ms)"
proof -
  have "b = a" if "(key, b) \<in> set ms" for b using assms that by simp
  then show ?thesis by (force simp: tracked_def)
qed

lemma tracked_update:
  "insert (a_provider a, a_id a) (tracked (filter (\<lambda>(k, a). k \<noteq> key) ms)) \<subseteq> tracked (AList.update key a ms)"
proof (induction ms)
  case (Cons m ms)
  then show ?case by (cases m) (auto simp: tracked_def split: if_splits)
qed (simp add: tracked_def)

lemma all_trackedD:
  assumes "all_tracked (c, w)"
  shows "m_Providers c = ps" and "distinct (map fst (m_ActiveMounts c))"
    and "live_mounts w \<subseteq> tracked (m_ActiveMounts c)"
  using assms by (simp_all add: all_tracked_def)

lemma set_active_tracked:
  assumes "m_Providers c = ps" and "distinct (map fst (m_ActiveMounts c))"
    and "live_mounts w \<subseteq> insert (a_provider a, a_id a) (tracked (m_ActiveMounts (erase_key key c)))"
  shows "all_tracked (set_active key a c, w)"
proof -
  have "live_mounts w \<subseteq> tracked (AList.update key a (m_ActiveMounts c))"
    using assms(3) tracked_update [of a key "m_ActiveMounts c"] by (auto simp: erase_key_def)
  then show ?thesis
    using assms(1) distinct_update [OF assms(2), of key a] by (simp add: all_tracked_def set_active_def)
qed

text \<open>A new mount under a key, when what is live is tracked under other keys.\<close>

lemma anew_tracked:
  assumes "m_Providers c = ps" and "distinct (map fst (m_ActiveMounts c))"
    and "live_mounts w \<subseteq> tracked (m_ActiveMounts (erase_key (sessionKey (hostUuid r) (sessionId r)) c))"
  shows "all_tracked (snd (mount_anew r v c w))"
proof -
  let ?key = "sessionKey (hostUuid r) (sessionId r)"
  obtain res who w' where t: "try_providers 0 (m_Providers c) r v []
      (unavailableResult ''No host files mount provider is available.'') None w = (res, who, w')"
    by (metis prod_cases3)
  have live: "live_mounts w' \<subseteq> (case who of None \<Rightarrow> live_mounts w | Some j \<Rightarrow> insert (j, mount_id res) (live_mounts w))"
    by (rule try_live [OF t]) (use assms(1) in simp)
  show ?thesis
  proof (cases who)
    case None
    have "tracked (m_ActiveMounts (erase_key ?key c)) \<subseteq> tracked (m_ActiveMounts c)"
      by (auto simp: erase_key_def tracked_def)
    then have "live_mounts w' \<subseteq> tracked (m_ActiveMounts c)" using None live assms(3) by auto
    then show ?thesis using None t assms(1,2) by (simp add: mount_anew_def all_tracked_def)
  next
    case (Some k)
    let ?a = "\<lparr>a_provider = k, a_id = mount_id res, a_status = mount_status res\<rparr>"
    have "live_mounts w' \<subseteq> insert (a_provider ?a, a_id ?a) (tracked (m_ActiveMounts (erase_key ?key c)))"
      using live assms(3) Some by auto
    from set_active_tracked [OF assms(1,2) this] show ?thesis using Some t by (simp add: mount_anew_def)
  qed
qed

lemma erase_tracked:
  assumes "all_tracked (c, w)" and "map_of (m_ActiveMounts c) key = Some a"
  shows "all_tracked (erase_key key c, unmount_entry c a w)"
proof -
  note c = all_trackedD [OF assms(1)]
  have "live_mounts (unmount_entry c a w) \<subseteq> tracked (m_ActiveMounts c) - {(a_provider a, a_id a)}"
    using unmount_live [OF c(1)] c(3) by blast
  also have "... \<subseteq> tracked (m_ActiveMounts (erase_key key c))"
    using tracked_erase [OF c(2) assms(2)] by (simp add: erase_key_def)
  finally show ?thesis using c(1,2) by (simp add: all_tracked_def erase_key_def distinct_map_filter)
qed

lemma restatus_tracked:
  assumes "all_tracked (c, w)" and "map_of (m_ActiveMounts c) key = Some a"
  shows "all_tracked (set_active key (a\<lparr>a_status := st\<rparr>) c, w)"
proof -
  note c = all_trackedD [OF assms(1)]
  have "live_mounts w \<subseteq> insert (a_provider a, a_id a) (tracked (m_ActiveMounts (erase_key key c)))"
    using c(3) tracked_erase [OF c(2) assms(2)] by (auto simp: erase_key_def)
  then show ?thesis using set_active_tracked [OF c(1,2), of w "a\<lparr>a_status := st\<rparr>" key] by simp
qed

lemma erase_twice [simp]: "erase_key key (erase_key key c) = erase_key key c"
  by (simp add: erase_key_def)

lemma erase_absent: "map_of (m_ActiveMounts c) key = None \<Longrightarrow> erase_key key c = c"
  by (rule coordinator.equality) (force simp: erase_key_def map_of_eq_None_iff intro!: filter_True)+

lemma dead_provider: "m_Providers c = ps \<Longrightarrow> provider_at c k = None \<Longrightarrow> live k w = {}"
  using no_mounts [of k w] by (auto simp: provider_at_def split: if_splits)

lemma ensure_tracked:
  assumes "all_tracked (c, w)"
  shows "all_tracked (snd (ensureMounted r vfs c w))"
proof (cases "hostUuid r = [] \<or> sessionId r = [] \<or> vfs = None")
  case True
  then show ?thesis using assms by (auto simp: ensureMounted_def split: option.split)
next
  case False
  then obtain v where v: "vfs = Some v" "hostUuid r \<noteq> []" "sessionId r \<noteq> []" by auto
  note c = all_trackedD [OF assms]
  let ?key = "sessionKey (hostUuid r) (sessionId r)"
  show ?thesis
  proof (cases "map_of (m_ActiveMounts c) ?key")
    case None
    then have "all_tracked (snd (mount_anew r v c w))"
      by (intro anew_tracked c(1,2)) (simp add: erase_absent c(3))
    then show ?thesis using v None by (simp add: ensureMounted_def)
  next
    case (Some a)
    show ?thesis
    proof (cases "provider_at c (a_provider a)")
      case None
      then have "live (a_provider a) w = {}" by (rule dead_provider [OF c(1)])
      then have "live_mounts w \<subseteq> tracked (m_ActiveMounts c) - {(a_provider a, a_id a)}"
        using c(3) by (auto simp: live_mounts_def)
      also have "... \<subseteq> tracked (m_ActiveMounts (erase_key ?key c))"
        using tracked_erase [OF c(2) Some] by (simp add: erase_key_def)
      finally have "all_tracked (snd (mount_anew r v c w))" by (rule anew_tracked [OF c(1,2)])
      then show ?thesis using v Some None by (simp add: ensureMounted_def)
    next
      case p: (Some p)
      have "unmount_entry c a w = p_unmount p (a_id a) w" using p by (simp add: unmount_entry_def)
      then have e: "all_tracked (erase_key ?key c, p_unmount p (a_id a) w)"
        using erase_tracked [OF assms Some] by simp
      have "all_tracked (snd (mount_anew r v (erase_key ?key c) (p_unmount p (a_id a) w)))"
        by (rule anew_tracked [OF all_trackedD(1,2) [OF e]]) (simp add: all_trackedD(3) [OF e])
      then show ?thesis
        using v Some p restatus_tracked [OF assms Some] by (simp add: ensureMounted_def Let_def)
    qed
  qed
qed

lemma step_tracked: "all_tracked cw \<Longrightarrow> all_tracked (coordinator_step cw e)"
proof (cases cw; cases e)
  fix c w r vfs
  assume "all_tracked cw" "cw = (c, w)" "e = Ensure r vfs"
  then show ?thesis using ensure_tracked by (simp add: coordinator_step_def)
next
  fix c w h i
  assume a: "all_tracked cw" "cw = (c, w)" "e = Status h i"
  then show ?thesis
    using restatus_tracked [of c w "sessionKey h i"]
    by (cases "map_of (m_ActiveMounts c) (sessionKey h i)")
      (auto simp: coordinator_step_def session_status_def Let_def split: option.split)
next
  fix c w h i
  assume "all_tracked cw" "cw = (c, w)" "e = Unmount h i"
  then show ?thesis
    using erase_tracked [of c w "sessionKey h i"]
    by (auto simp: coordinator_step_def unmount_session_def split: option.split)
qed

lemma run_tracked: "all_tracked cw \<Longrightarrow> all_tracked (run_events coordinator_step cw es)"
  by (rule run_events_invariant [where I = all_tracked]) (simp_all add: step_tracked)

lemma all_unmounted:
  assumes "all_tracked (c, w)"
  shows "live_mounts (snd (unmountAll c w)) = {}"
proof -
  note c = all_trackedD [OF assms]
  have "live_mounts (fold (unmount_entry c) as w) \<subseteq> live_mounts w - (\<lambda>a. (a_provider a, a_id a)) ` set as" for as
    using unmount_live [OF c(1)] by (induction as arbitrary: w) (simp, fastforce)
  moreover have "tracked (m_ActiveMounts c) = (\<lambda>a. (a_provider a, a_id a)) ` set (map snd (m_ActiveMounts c))"
    by (force simp: tracked_def)
  ultimately show ?thesis using c(3) by (fastforce simp: unmountAll_def)
qed

end

section \<open>The providers\<close>

text \<open>What the mirror, as the first of the providers, has mounted.\<close>

definition mirror_live :: "mount_platform \<Rightarrow> nat \<Rightarrow> 's files_world \<Rightarrow> local_path set" where
  "mirror_live pl j w = (if j = 0 \<and> pl \<noteq> Linux then dom (m_Mounts (mirror_of w)) else {})"

lemma mirror_mount_mounts:
  assumes "mirror_mount d base lm vfs r s = (res, v, s')"
  shows "dom (m_Mounts s') \<subseteq> (if mount_ok res then insert (mount_id res) (dom (m_Mounts s)) else dom (m_Mounts s))"
  using assms
  by (auto simp: mirror_mount_def Let_def mount_ok_def no_error_def error_ok_def failed_mount_def copy_failure_def
      split: option.splits prod.splits if_splits)

lemma unmount_mounts: "dom (m_Mounts (mirror_unmount d base i s)) = dom (m_Mounts s) - {i}"
  by (auto simp: mirror_unmount_def Let_def split: option.splits)

lemma explorer_ok [simp]: "mount_ok (in_explorer r) = mount_ok r" "mount_id (in_explorer r) = mount_id r"
  by (simp_all add: in_explorer_def Let_def mount_ok_def)

lemma finder_mounts:
  assumes "p_mount (finder_provider e) r ops w = (res, ds, w')"
  shows "dom (m_Mounts (mirror_of w')) \<subseteq>
      (if mount_ok res then insert (mount_id res) (dom (m_Mounts (mirror_of w))) else dom (m_Mounts (mirror_of w)))"
proof -
  obtain res' v m where m: "mirror_mount (the_disk e) (cacheBase e) (env_limits e) (Some (ops, host_tree w)) r
      (mirror_of w) = (res', v, m)" by (metis prod_cases3)
  then have "res = res'" "mirror_of w' = m" using assms by (auto simp: finder_provider_def)
  then show ?thesis using mirror_mount_mounts [OF m] by (simp only:)
qed

lemma explorer_mounts:
  assumes "p_mount (explorer_provider e) r ops w = (res, ds, w')"
  shows "dom (m_Mounts (mirror_of w')) \<subseteq>
      (if mount_ok res then insert (mount_id res) (dom (m_Mounts (mirror_of w))) else dom (m_Mounts (mirror_of w)))"
proof -
  obtain res' ds' u where f: "p_mount (finder_provider e) r ops w = (res', ds', u)" by (metis prod_cases3)
  then have "res = in_explorer res'" "w' = u" using assms by (simp_all add: explorer_provider_def)
  then show ?thesis using finder_mounts [OF f] by (cases "mount_ok res'") simp_all
qed

lemma mirror_unmounts:
  "dom (m_Mounts (mirror_of (p_unmount (finder_provider e) i w))) = dom (m_Mounts (mirror_of w)) - {i}"
  "dom (m_Mounts (mirror_of (p_unmount (explorer_provider e) i w))) = dom (m_Mounts (mirror_of w)) - {i}"
  by (simp_all add: explorer_provider_def finder_provider_def unmount_mounts)

lemma default_at:
  fixes e :: system_env and p :: "('s remote_ops, 's files_world) mount_provider"
  assumes "k < length (createDefaultMountProviders pl e :: ('s remote_ops, 's files_world) mount_provider option list)"
    and "createDefaultMountProviders pl e ! k = Some p"
  shows "(\<exists>name m. p = unavailable_provider name m \<and> (k = 0 \<longrightarrow> pl = Linux))
    \<or> k = 0 \<and> pl = MacOS \<and> p = finder_provider e \<or> k = 0 \<and> pl = Windows \<and> p = explorer_provider e"
proof -
  have "k = 0 \<or> k = 1" using assms(1) by (auto simp: createDefaultMountProviders_def)
  then show ?thesis
  proof
    assume k: "k = 0"
    then show ?thesis using assms(2) by (cases pl) (auto simp: createDefaultMountProviders_def)
  next
    assume k: "k = 1"
    then have "p = fallback_provider" using assms(2) by (simp add: createDefaultMountProviders_def)
    then have "\<exists>name m. p = unavailable_provider name m" unfolding fallback_provider_def by (intro exI)
    then show ?thesis using k by simp
  qed
qed

interpretation default_providers:
  mount_providers "createDefaultMountProviders pl e :: ('s remote_ops, 's files_world) mount_provider option list"
    "mirror_live pl"
proof unfold_locales
  fix k r v w res ds w' j and p :: "('s remote_ops, 's files_world) mount_provider"
  assume a: "k < length (createDefaultMountProviders pl e :: ('s remote_ops, 's files_world) mount_provider option list)"
    "createDefaultMountProviders pl e ! k = Some p" and m: "p_mount p r v w = (res, ds, w')"
  show "mirror_live pl j w' \<subseteq> (if j = k \<and> mount_ok res then insert (mount_id res) (mirror_live pl j w)
      else mirror_live pl j w)"
    using default_at [OF a]
  proof (elim disjE exE conjE)
    fix name t assume "p = unavailable_provider name t"
    then show ?thesis
      using m by (auto simp: unavailable_provider_def Let_def mount_ok_def error_ok_def make_error_def)
  next
    assume "k = 0" "pl = MacOS" "p = finder_provider e"
    then show ?thesis using finder_mounts [of e r v w res ds w'] m by (auto simp: mirror_live_def)
  next
    assume "k = 0" "pl = Windows" "p = explorer_provider e"
    then show ?thesis using explorer_mounts [of e r v w res ds w'] m by (auto simp: mirror_live_def)
  qed
next
  fix k j i w and p :: "('s remote_ops, 's files_world) mount_provider"
  assume a: "k < length (createDefaultMountProviders pl e :: ('s remote_ops, 's files_world) mount_provider option list)"
    "createDefaultMountProviders pl e ! k = Some p"
  show "mirror_live pl j (p_unmount p i w) \<subseteq> (if j = k then mirror_live pl j w - {i} else mirror_live pl j w)"
    using default_at [OF a]
  proof (elim disjE exE conjE)
    fix name t assume "p = unavailable_provider name t" "k = 0 \<longrightarrow> pl = Linux"
    then show ?thesis by (auto simp: unavailable_provider_def Let_def mirror_live_def)
  next
    assume "k = 0" "pl = MacOS" "p = finder_provider e"
    then show ?thesis by (auto simp: mirror_live_def mirror_unmounts)
  next
    assume "k = 0" "pl = Windows" "p = explorer_provider e"
    then show ?thesis by (auto simp: mirror_live_def mirror_unmounts)
  qed
next
  fix j w
  assume "length (createDefaultMountProviders pl e :: ('s remote_ops, 's files_world) mount_provider option list) \<le> j
      \<or> (createDefaultMountProviders pl e :: ('s remote_ops, 's files_world) mount_provider option list) ! j = None"
  then show "mirror_live pl j w = {}"
    by (auto simp: createDefaultMountProviders_def mirror_live_def less_Suc_eq_0_disj split: if_splits)
qed

section \<open>The mirror among the providers\<close>

definition native_provider :: "mount_platform \<Rightarrow> system_env \<Rightarrow> ('s remote_ops, 's files_world) mount_provider" where
  "native_provider pl e = (if pl = MacOS then finder_provider e else explorer_provider e)"

lemma native_mount:
  assumes "p_mount (native_provider pl e) r ops w = (res, ds, w')"
  obtains res' v where "mirror_mount (the_disk e) (cacheBase e) (env_limits e) (Some (ops, host_tree w)) r (mirror_of w) =
      (res', v, mirror_of w')" and "res = res' \<or> res = in_explorer res'" and "ds = []"
proof -
  obtain res' v m where m: "mirror_mount (the_disk e) (cacheBase e) (env_limits e) (Some (ops, host_tree w)) r
      (mirror_of w) = (res', v, m)" by (metis prod_cases3)
  have "mirror_of w' = m" "res = res' \<or> res = in_explorer res'" "ds = []"
    using assms m
    by (auto simp: native_provider_def finder_provider_def explorer_provider_def split: if_splits)
  then show thesis using that m by blast
qed

lemma in_explorer_state [simp]:
  "mstate (mount_status (in_explorer r)) = mstate (mount_status r)"
  "displayPath (mount_status (in_explorer r)) = displayPath (mount_status r)"
  by (simp_all add: in_explorer_def Let_def)

lemma native_status: "p_status (native_provider pl e) i w = mirror_status i (mirror_of w)"
  by (simp add: native_provider_def finder_provider_def explorer_provider_def)

lemma native_mounted:
  assumes "p_mount (native_provider pl e) r ops w = (res, ds, w')" and "mstate (mount_status res) = Mounted"
  shows "mount_ok res" and "mount_id res = cacheRootPath (cacheBase e) r"
    and "displayPath (mount_status res) = cacheRootPath (cacheBase e) r"
    and "prefix x (cacheRootPath (cacheBase e) r) \<Longrightarrow> local_tree (mirror_of w') x = Some Dir"
    and "mstate (mirror_status (mount_id res) (mirror_of w')) = Mounted"
    and "displayPath (mirror_status (mount_id res) (mirror_of w')) = cacheRootPath (cacheBase e) r"
proof -
  obtain res' v where m: "mirror_mount (the_disk e) (cacheBase e) (env_limits e) (Some (ops, host_tree w)) r
      (mirror_of w) = (res', v, mirror_of w')" and res: "res = res' \<or> res = in_explorer res'"
    using native_mount [OF assms(1)] by metis
  have st: "mstate (mount_status res') = Mounted" using res assms(2) by auto
  note ok = mount_mounted [OF m st]
  show "mount_ok res" "mount_id res = cacheRootPath (cacheBase e) r"
    "displayPath (mount_status res) = cacheRootPath (cacheBase e) r"
    "prefix x (cacheRootPath (cacheBase e) r) \<Longrightarrow> local_tree (mirror_of w') x = Some Dir"
    using ok res by auto
  then show "mstate (mirror_status (mount_id res) (mirror_of w')) = Mounted"
    "displayPath (mirror_status (mount_id res) (mirror_of w')) = cacheRootPath (cacheBase e) r"
    using ok st by (simp_all add: mirror_status_def)
qed

text \<open>Mounting anew with the default providers: it is the native one that mounts, or nothing does.\<close>

lemma default_try:
  fixes ops :: "'s remote_ops"
  assumes "mount_anew r ops c w = (res, c', w')" and "m_Providers c = createDefaultMountProviders pl e"
    and "pl \<noteq> Linux"
  obtains res0 where "p_mount (native_provider pl e) r ops w = (res0, [], w')"
    and "mstate (mount_status res) = Mounted \<longrightarrow> mstate (mount_status res0) = Mounted"
    and "mstate (mount_status res0) = Mounted \<longrightarrow> mount_result.truncate res = res0
      \<and> c' = set_active (sessionKey (hostUuid r) (sessionId r))
          \<lparr>a_provider = 0, a_id = mount_id res0, a_status = mount_status res0\<rparr> c"
proof -
  have ps: "m_Providers c = [Some (native_provider pl e), Some fallback_provider]"
    using assms(2,3) by (cases pl) (simp_all add: createDefaultMountProviders_def native_provider_def)
  obtain res0 ds u where m0: "p_mount (native_provider pl e) r ops w = (res0, ds, u)" by (metis prod_cases3)
  have ds: "ds = []" by (rule native_mount [OF m0])
  define fb :: "('s remote_ops, 's files_world) mount_provider" where "fb = fallback_provider"
  have fb: "p_mount fb r ops u = (res, own, u')
      \<Longrightarrow> u' = u \<and> \<not> mount_ok res \<and> mstate (mount_status res) = Mount_unavailable" for res own u'
    by (auto simp: fb_def fallback_provider_def unavailable_provider_def Let_def mount_ok_def error_ok_def make_error_def)
  obtain res1 own where m1: "p_mount fb r ops u = (res1, own, u)" using fb by (metis prod_cases3)
  note fb1 = fb [OF m1]
  show thesis
  proof (cases "mount_ok res0")
    case True
    then have "w' = u" "mount_result.truncate res = res0"
      "c' = set_active (sessionKey (hostUuid r) (sessionId r))
         \<lparr>a_provider = 0, a_id = mount_id res0, a_status = mount_status res0\<rparr> c" "mount_status res = mount_status res0"
      using assms(1) m0 by (auto simp: mount_anew_def ps Let_def mount_result.defs)
    then show thesis using that m0 ds by simp
  next
    case False
    then have "mstate (mount_status res0) \<noteq> Mounted" using native_mounted(1) [OF m0] by blast
    moreover have "w' = u" "mstate (mount_status res) \<in> {mstate (mount_status res0), Mount_unavailable}"
      using assms(1) m0 m1 fb1 False
      by (auto simp: mount_anew_def ps fb_def [symmetric] Let_def mount_result.defs split: if_splits)
    ultimately show thesis using that m0 ds by auto
  qed
qed

lemma ensure_native:
  fixes ops :: "'s remote_ops"
  assumes "p_mount (native_provider pl e) r ops w = (res0, ds, w')" and "mstate (mount_status res0) = Mounted"
    and "hostUuid r \<noteq> []" and "sessionId r \<noteq> []" and "pl \<noteq> Linux"
  obtains res c' where
    "ensureMounted r (Some ops) (new_coordinator (createDefaultMountProviders pl e)) w = (res, c', w')"
    and "mount_result.truncate res = res0"
proof -
  have ps: "createDefaultMountProviders pl e =
      [Some (native_provider pl e :: ('s remote_ops, 's files_world) mount_provider), Some fallback_provider]"
    using assms(5) by (cases pl) (simp_all add: createDefaultMountProviders_def native_provider_def)
  show thesis
    using that assms(1,3,4) native_mounted(1) [OF assms(1,2)]
    by (simp add: ensureMounted_def new_coordinator_def mount_anew_def ps Let_def mount_result.defs)
qed

section \<open>Properties\<close>

text \<open>
  Whatever sessions mount and unmount host files, in any order and with any failures, unmounting all
  leaves no snapshot mounted, with the providers of any platform.
\<close>
theorem none_left_mounted:
  assumes "run_events coordinator_step (new_coordinator (createDefaultMountProviders pl e), w) es = (c, w')"
    and "m_Mounts (mirror_of w) = (\<lambda>_. None)" and "pl \<noteq> Linux"
  shows "m_Mounts (mirror_of (snd (unmountAll c w'))) = (\<lambda>_. None)"
proof -
  have "default_providers.all_tracked pl e (new_coordinator (createDefaultMountProviders pl e), w)"
    using assms(2) by (auto simp: default_providers.all_tracked_def default_providers.live_mounts_def
        new_coordinator_def mirror_live_def split: if_splits)
  from default_providers.run_tracked [OF this, of es] have "default_providers.all_tracked pl e (c, w')"
    using assms(1) by simp
  from default_providers.all_unmounted [OF this]
  have "i \<notin> mirror_live pl 0 (snd (unmountAll c w'))" for i
    unfolding default_providers.live_mounts_def by blast
  then have "m_Mounts (mirror_of (snd (unmountAll c w'))) i = None" for i
    using assms(3) by (simp add: mirror_live_def domIff)
  then show ?thesis by (rule ext)
qed

text \<open>A host without shared folders, asked for twice.\<close>

definition empty_host :: "unit remote_ops" where
  "empty_host = \<lparr>rv_children = \<lambda>i v. (Inr [], v), rv_open = \<lambda>i v. (Inl no_error, v),
     rv_read = \<lambda>h off n v. (Inr [], v), rv_close = \<lambda>h v. v\<rparr>"

definition test_env :: system_env where
  "test_env = \<lparr>the_disk = all_allowed, cacheBase = [''home''], env_limits = default_limits, can_open = \<lambda>_. True\<rparr>"

definition empty_world :: "unit files_world" where
  "empty_world = \<lparr>mirror_of = \<lparr>m_Mounts = \<lambda>_. None, local_tree = \<lambda>_. None\<rparr>, host_tree = ()\<rparr>"

definition one_request :: mount_request where
  "one_request = \<lparr>hostUuid = ''u'', hostName = ''pc'', sessionId = ''1''\<rparr>"

lemma none_left_mounted_witness:
  "m_Mounts (mirror_of (snd (unmountAll
      (fst (run_events coordinator_step (new_coordinator (createDefaultMountProviders MacOS test_env), empty_world)
        [Ensure one_request (Some empty_host), Ensure one_request (Some empty_host)]))
      (snd (run_events coordinator_step (new_coordinator (createDefaultMountProviders MacOS test_env), empty_world)
        [Ensure one_request (Some empty_host), Ensure one_request (Some empty_host)]))))) = (\<lambda>_. None)"
  by (rule none_left_mounted [OF prod.collapse [symmetric]]) (simp_all add: empty_world_def)

text \<open>The providers asked in turn, to the first that mounts, with their answers.\<close>

fun attempts ::
  "('v, 'w) mount_provider option list \<Rightarrow> mount_request \<Rightarrow> 'v \<Rightarrow> 'w \<Rightarrow> (string \<times> mount_result) list" where
  "attempts [] r v w = []"
| "attempts (None # ps) r v w = attempts ps r v w"
| "attempts (Some p # ps) r v w =
     (case p_mount p r v w of (res, _, w) \<Rightarrow>
        (p_name p, res) # (if mount_ok res then [] else attempts ps r v w))"

definition answered :: "coordinator_result \<Rightarrow> string \<times> mount_result" where
  "answered res = (providerName res, mount_result.truncate res)"

definition best_answer :: "(string \<times> mount_result) list \<Rightarrow> string \<times> mount_result \<Rightarrow> string \<times> mount_result" where
  "best_answer as other =
     (case filter (\<lambda>a. mount_ok (snd a)) as of
        a # _ \<Rightarrow> a
      | [] \<Rightarrow>
          (case filter (\<lambda>a. kind (mount_error (snd a)) \<noteq> E_Unsupported) as of
             a # _ \<Rightarrow> a
           | [] \<Rightarrow> last (other # as)))"

lemma answered_simps [simp]:
  "answered (res\<lparr>diagnostics := ds\<rparr>) = answered res"
  "answered (mount_result.extend r \<lparr>providerName = n, diagnostics = ds\<rparr>) = (n, r)"
  by (simp_all add: answered_def mount_result.defs)

lemma ok_not_unsupported: "mount_ok r \<Longrightarrow> kind (mount_error r) \<noteq> E_Unsupported"
  by (simp add: mount_ok_def error_ok_def)

lemma try_answers:
  "answered (fst (try_providers k ps r v ds l f w)) =
    (case filter (\<lambda>a. mount_ok (snd a)) (attempts ps r v w) of
       a # _ \<Rightarrow> a
     | [] \<Rightarrow> (case f of Some f \<Rightarrow> answered f | None \<Rightarrow> best_answer (attempts ps r v w) (answered l)))"
proof (induction k ps r v ds l f w rule: try_providers.induct)
  case (3 k p ps r v ds l f w)
  obtain res own u where m: "p_mount p r v w = (res, own, u)" by (metis prod_cases3)
  show ?case
  proof (cases "mount_ok res")
    case True
    then show ?thesis using m by (simp add: Let_def)
  next
    case False
    note IH = 3 [OF m [symmetric] refl refl refl False]
    show ?thesis
    proof (cases f)
      case None
      then show ?thesis
        using IH m False by (simp add: Let_def best_answer_def cong: if_cong split: list.split if_split)
    next
      case (Some f')
      then show ?thesis using IH m False by (simp add: Let_def cong: if_cong split: list.split)
    qed
  qed
next
  case (2 k ps r v ds l f w)
  then show ?case by (simp only: try_providers.simps attempts.simps)
qed (auto simp: best_answer_def split: option.split)

text \<open>
  Asked for a mount, the coordinator uses the first provider that mounts. If none does, it reports
  the first failure that is not just that a provider does not support this system, and otherwise the last.
\<close>
theorem coordinator_answers:
  "answered (fst (mount_anew r v c w)) =
     best_answer (attempts (m_Providers c) r v w)
       ([], \<lparr>mount_error = make_error E_Unavailable ''No host files mount provider is available.'', mount_id = [],
             mount_status = \<lparr>mstate = Mount_unavailable, displayPath = [],
               status_message = ''No host files mount provider is available.''\<rparr>\<rparr>)"
proof -
  have "answered (unavailableResult m) = ([], \<lparr>mount_error = make_error E_Unavailable m, mount_id = [],
      mount_status = \<lparr>mstate = Mount_unavailable, displayPath = [], status_message = m\<rparr>\<rparr>)" for m
    by (simp add: answered_def unavailableResult_def mount_result.defs)
  moreover have "fst (mount_anew r v c w) = fst (try_providers 0 (m_Providers c) r v []
      (unavailableResult ''No host files mount provider is available.'') None w)"
    by (auto simp: mount_anew_def split: prod.split option.split)
  ultimately show ?thesis by (simp add: try_answers best_answer_def split: list.split)
qed

text \<open>
  Once the host files of a session are mounted, asking for them again, with the same host and
  session, gives the same folder and leaves disk and host alone: nothing is copied a second time.
\<close>
theorem mounted_reused:
  fixes ops :: "'s remote_ops"
  assumes "ensureMounted r (Some ops) (new_coordinator (createDefaultMountProviders pl e)) w = (res, c', w')"
    and "mstate (mount_status res) = Mounted" and "pl \<noteq> Linux"
  shows "\<exists>res' c''. ensureMounted r (Some ops') c' w' = (res', c'', w') \<and> error_ok (mount_error res')
     \<and> mount_id res' = mount_id res \<and> mstate (mount_status res') = Mounted
     \<and> displayPath (mount_status res') = displayPath (mount_status res)"
proof -
  let ?c = "new_coordinator (createDefaultMountProviders pl e) :: ('s remote_ops, 's files_world) coordinator"
  let ?key = "sessionKey (hostUuid r) (sessionId r)"
  have id: "hostUuid r \<noteq> []" "sessionId r \<noteq> []"
    using assms(1,2) by (auto simp: ensureMounted_def unavailableResult_def split: if_splits)
  then have "mount_anew r ops ?c w = (res, c', w')"
    using assms(1) by (simp add: ensureMounted_def new_coordinator_def)
  from default_try [OF this _ assms(3)] obtain res0
    where m: "p_mount (native_provider pl e) r ops w = (res0, [], w')" and st: "mstate (mount_status res0) = Mounted"
      and res: "mount_result.truncate res = res0"
      and c': "c' = set_active ?key \<lparr>a_provider = 0, a_id = mount_id res0, a_status = mount_status res0\<rparr> ?c"
    using assms(2) by (auto simp: new_coordinator_def)
  have at: "provider_at c' 0 = Some (native_provider pl e)"
    using assms(3) by (cases pl)
      (simp_all add: c' provider_at_def set_active_def new_coordinator_def createDefaultMountProviders_def native_provider_def)
  have active: "map_of (m_ActiveMounts c') ?key =
      Some \<lparr>a_provider = 0, a_id = mount_id res0, a_status = mount_status res0\<rparr>"
    by (simp add: c' set_active_def new_coordinator_def)
  have same: "mount_id res = mount_id res0" "mount_status res = mount_status res0"
    using res by (auto simp: mount_result.defs)
  show ?thesis
    using id active at native_mounted [OF m st]
    by (simp add: ensureMounted_def Let_def native_status no_error_def error_ok_def same)
qed

lemma empty_mounted:
  assumes "local_tree s = (\<lambda>_. None)"
  shows "mstate (mount_status (fst (mirror_mount all_allowed base lm (Some (empty_host, ())) r s))) = Mounted"
  using assms
  by (simp add: mirror_mount_def Let_def mkpath_def all_allowed_def empty_host_def is_file_def list_ex_iff)

lemma mounted_reused_witness:
  "\<exists>res' c''. ensureMounted one_request (Some empty_host)
      (fst (snd (ensureMounted one_request (Some empty_host) (new_coordinator (createDefaultMountProviders MacOS test_env))
        empty_world)))
      (snd (snd (ensureMounted one_request (Some empty_host) (new_coordinator (createDefaultMountProviders MacOS test_env))
        empty_world)))
    = (res', c'', snd (snd (ensureMounted one_request (Some empty_host)
        (new_coordinator (createDefaultMountProviders MacOS test_env)) empty_world)))
    \<and> mstate (mount_status res') = Mounted"
proof -
  let ?m = "p_mount (native_provider MacOS test_env) one_request empty_host empty_world"
  have "mstate (mount_status (fst ?m)) = Mounted"
    using empty_mounted [of "mirror_of empty_world" "cacheBase test_env" "env_limits test_env" one_request]
    by (auto simp: native_provider_def finder_provider_def empty_world_def test_env_def split: prod.split)
  then obtain res0 ds w1 where m: "?m = (res0, ds, w1)" and st: "mstate (mount_status res0) = Mounted"
    by (metis prod_cases3 fst_conv)
  have r: "hostUuid one_request \<noteq> []" "sessionId one_request \<noteq> []" by (simp_all add: one_request_def)
  obtain res c' where e: "ensureMounted one_request (Some empty_host)
      (new_coordinator (createDefaultMountProviders MacOS test_env)) empty_world = (res, c', w1)"
    and res: "mount_result.truncate res = res0"
    using ensure_native [OF m st r] by blast
  have "mstate (mount_status res) = Mounted" using res st by (auto simp: mount_result.defs)
  from mounted_reused [OF e this, of empty_host] show ?thesis unfolding e by auto
qed

end
