(* ===== verification/HostFilesSession.thy ===== *)
theory HostFilesSession
  imports MountCoordination
begin

text \<open>
  Host files in a streaming session (\<open>src/app/streaming/filemappingux.cpp\<close> and the functions of
  \<open>src/app/streaming/session.cpp\<close> on file mapping): probing the host, mounting on a click in the overlay
  menu, and cleaning up at the end. Probing and mounting are tasks of the thread pool, which finish at any
  time, also after the session. Texts are those of the source; an environment says what the system allows.
\<close>

section \<open>State\<close>

datatype files_state =
    Files_unknown | Files_checking | Files_unavailable | Files_available | Files_mounting | Files_open | Files_error

record probe_outcome =
  po_available :: bool
  po_error :: bool
  po_detail :: string
  po_message :: string

record mount_outcome =
  mo_ok :: bool
  mo_detail :: string
  mo_message :: string
  mo_path :: local_path

text \<open>
  The computer of the session, if there still is one, as (uuid, name). A task writes its outcome into an
  object it shares with the session: the session refers to one such object per kind by its number, and an
  outcome it has not read yet is pending.
\<close>

record files_session =
  m_Computer :: "(string \<times> string) option"
  m_FileMappingSessionId :: string
  m_FileMappingState :: files_state
  m_FileMappingDetail :: string
  m_FileMappingToast :: string
  m_FileMappingMountPath :: local_path
  m_FileMappingProbeState :: "nat option"
  m_FileMappingMountState :: "nat option"
  probes_running :: "nat set"
  probe_pending :: "nat \<Rightarrow> probe_outcome option"
  mounts_running :: "(nat \<times> mount_request) list"
  mount_pending :: "nat \<Rightarrow> mount_outcome option"
  next_task :: nat
  disk_tree :: local_fs
  toasts :: "string list"
  opened_paths :: "local_path list"
  session_over :: bool

definition showStreamingToast :: "string \<Rightarrow> files_session \<Rightarrow> files_session" where
  "showStreamingToast t s = s\<lparr>toasts := toasts s @ [t]\<rparr>"

definition show_state :: "files_state \<Rightarrow> string \<Rightarrow> string \<Rightarrow> files_session \<Rightarrow> files_session" where
  "show_state st detail toast s =
     s\<lparr>m_FileMappingState := st, m_FileMappingDetail := detail, m_FileMappingToast := toast\<rparr>"

definition or_else :: "string \<Rightarrow> string \<Rightarrow> string" where
  "or_else t other = (if t = [] then other else t)"

section \<open>Tasks\<close>

definition not_shared :: string where
  "not_shared = ''No host folders are shared. On the host PC, right-click a folder and share it with Moonlight.''"

definition not_ready :: string where "not_ready = ''Host file sharing is enabled but not ready yet.''"

definition no_token :: string where
  "no_token = ''Host file sharing is waiting for a session token. Try again in a moment.''"

definition not_checked :: "string \<Rightarrow> string" where
  "not_checked e = qt_arg ''Host file sharing could not be checked: %1'' e"

definition capability_task :: "fm_capability \<Rightarrow> probe_outcome" where
  "capability_task c =
     (if \<not> cap_ok c
      then \<lparr>po_available = False, po_error = cap_error c \<noteq> [],
             po_detail = (if cap_error c \<noteq> [] then ''Error'' else ''Not shared''),
             po_message = (if cap_error c = [] then not_shared else not_checked (cap_error c))\<rparr>
      else if \<not> cap_enabled c
      then \<lparr>po_available = False, po_error = False, po_detail = ''Not shared'', po_message = not_shared\<rparr>
      else if \<not> cap_listening c \<or> cap_port c = 0
      then \<lparr>po_available = False, po_error = True, po_detail = ''Starting'', po_message = or_else (cap_error c) not_ready\<rparr>
      else if cap_token c = []
      then \<lparr>po_available = False, po_error = True, po_detail = ''Retry'', po_message = or_else (cap_error c) no_token\<rparr>
      else \<lparr>po_available = True, po_error = False, po_detail = ''Ready'',
             po_message = ''Host files are ready. Shared folders are read-only in this session.''\<rparr>)"

definition failed_task :: "string \<Rightarrow> string \<Rightarrow> mount_outcome" where
  "failed_task detail m = \<lparr>mo_ok = False, mo_detail = detail, mo_message = m, mo_path = []\<rparr>"

text \<open>What the coordinator's answer means to the user. The coordinator itself is dropped.\<close>

definition mounted_outcome :: "coordinator_result \<Rightarrow> mount_outcome" where
  "mounted_outcome r =
     (if error_ok (mount_error r) \<and> mstate (mount_status r) = Mounted
      then \<lparr>mo_ok = True, mo_detail = ''Open'',
             mo_message = (if providerName r = ''macOS Finder mirror'' then ''Host files are ready as a Finder folder.''
                           else or_else (status_message (mount_status r)) ''Host files are ready.''),
             mo_path = displayPath (mount_status r)\<rparr>
      else failed_task ''Error'' (or_else (message (mount_error r)) ''Host files could not be prepared.''))"

text \<open>
  A task on the host's answers: its capability, whether a session opens, and its tree of files. Its
  coordinator and providers are its own.
\<close>

record 's host_answers =
  h_capability :: remote_capability
  h_connect :: fm_error
  h_ops :: "'s remote_ops"
  h_tree :: 's

definition mount_task ::
  "mount_platform \<Rightarrow> system_env \<Rightarrow> mount_request \<Rightarrow> 's host_answers \<Rightarrow> local_fs \<Rightarrow> mount_outcome \<times> local_fs" where
  "mount_task pl e r h fs =
     (let c = h_capability h in
      if \<not> error_ok (rc_error c) then (failed_task ''Error'' (not_checked (message (rc_error c))), fs)
      else if \<not> rc_enabled c then (failed_task ''Not shared'' not_shared, fs)
      else if \<not> rc_listening c \<or> rc_port c = 0 then (failed_task ''Starting'' not_ready, fs)
      else if rc_token c = [] then (failed_task ''Retry'' no_token, fs)
      else if \<not> error_ok (h_connect h)
      then (failed_task ''Error'' (qt_arg ''Host files could not be connected: %1'' (message (h_connect h))), fs)
      else case rv_children (h_ops h) root_id (h_tree h) of
        (Inl err, v) \<Rightarrow>
          (failed_task ''Error'' (qt_arg ''Host files root could not be listed: %1'' (message err)), fs)
      | (Inr _, v) \<Rightarrow>
          (case ensureMounted r (Some (h_ops h)) (new_coordinator (createDefaultMountProviders pl e))
                  \<lparr>mirror_of = \<lparr>m_Mounts = \<lambda>_. None, local_tree = fs\<rparr>, host_tree = v\<rparr> of
             (res, _, w) \<Rightarrow> (mounted_outcome res, local_tree (mirror_of w))))"

section \<open>The session\<close>

definition openFileMappingMountPath :: "system_env \<Rightarrow> files_session \<Rightarrow> bool \<times> files_session" where
  "openFileMappingMountPath e s =
     (let p = m_FileMappingMountPath s in
      if p = [] \<or> \<not> can_open e p then (False, s) else (True, s\<lparr>opened_paths := opened_paths s @ [p]\<rparr>))"

definition no_computer :: "files_session \<Rightarrow> files_session" where
  "no_computer s = show_state Files_unavailable ''Unavailable'' ''Host file sharing is not available.'' s"

definition startFileMappingUxProbe :: "files_session \<Rightarrow> files_session" where
  "startFileMappingUxProbe s =
     (let s = show_state Files_checking ''Checking'' ''Checking host file sharing...'' s in
      case m_Computer s of
        None \<Rightarrow> no_computer s
      | Some _ \<Rightarrow>
          s\<lparr>m_FileMappingProbeState := Some (next_task s), probes_running := insert (next_task s) (probes_running s),
            next_task := Suc (next_task s)\<rparr>)"

definition processFileMappingUxProbeResult :: "files_session \<Rightarrow> files_session" where
  "processFileMappingUxProbeResult s =
     (case m_FileMappingProbeState s of
        None \<Rightarrow> s
      | Some i \<Rightarrow>
          (case probe_pending s i of
             None \<Rightarrow> s
           | Some r \<Rightarrow>
               let st = (if po_available r then Files_available else if po_error r then Files_error else Files_unavailable);
                   s = show_state st (po_detail r) (po_message r) (s\<lparr>probe_pending := (probe_pending s)(i := None)\<rparr>)
               in if po_available r then showStreamingToast (po_message r) s else s))"

definition startFileMappingMount :: "system_env \<Rightarrow> files_session \<Rightarrow> files_session" where
  "startFileMappingMount e s =
     (if m_FileMappingMountState s \<noteq> None then showStreamingToast ''Preparing host files...'' s
      else if m_FileMappingMountPath s \<noteq> []
      then showStreamingToast ''Opening host files...'' (snd (openFileMappingMountPath e s))
      else let s = showStreamingToast ''Preparing host files...''
                     (show_state Files_mounting ''Preparing'' ''Preparing host files...'' s)
           in case m_Computer s of
             None \<Rightarrow> no_computer s
           | Some (u, n) \<Rightarrow>
               s\<lparr>m_FileMappingMountState := Some (next_task s),
                 mounts_running := mounts_running s
                   @ [(next_task s, \<lparr>hostUuid = u, hostName = n, sessionId = m_FileMappingSessionId s\<rparr>)],
                 next_task := Suc (next_task s)\<rparr>)"

definition processFileMappingMountResult :: "system_env \<Rightarrow> files_session \<Rightarrow> files_session" where
  "processFileMappingMountResult e s =
     (case m_FileMappingMountState s of
        None \<Rightarrow> s
      | Some i \<Rightarrow>
          (case mount_pending s i of
             None \<Rightarrow> s
           | Some r \<Rightarrow>
               let s = s\<lparr>mount_pending := (mount_pending s)(i := None), m_FileMappingMountState := None\<rparr> in
               if mo_ok r \<and> mo_path r \<noteq> []
               then let s = show_state Files_open (or_else (mo_detail r) ''Open'')
                              (or_else (mo_message r) ''Host files are ready.'')
                              (s\<lparr>m_FileMappingMountPath := mo_path r\<rparr>)
                    in (case openFileMappingMountPath e s of
                          (True, s) \<Rightarrow> showStreamingToast (m_FileMappingToast s) s
                        | (False, s) \<Rightarrow> showStreamingToast
                            (qt_arg ''Host files are ready, but the folder did not open. Check %1.''
                               (path_text (m_FileMappingMountPath s))) s)
               else let s = show_state Files_error (or_else (mo_detail r) ''Error'')
                              (or_else (mo_message r) ''Host files could not be opened.'')
                              (s\<lparr>m_FileMappingMountPath := []\<rparr>)
                    in showStreamingToast (m_FileMappingToast s) s))"

text \<open>The menu's entry for host files.\<close>

definition show_host_files :: "system_env \<Rightarrow> files_session \<Rightarrow> files_session" where
  "show_host_files e s =
     (case m_FileMappingState s of
        Files_checking \<Rightarrow> showStreamingToast ''Checking host file sharing...'' s
      | Files_unknown \<Rightarrow> showStreamingToast ''Checking host file sharing...'' s
      | Files_mounting \<Rightarrow> showStreamingToast ''Preparing host files...'' s
      | Files_open \<Rightarrow>
          if m_FileMappingMountPath s \<noteq> []
          then showStreamingToast ''Opening host files...'' (snd (openFileMappingMountPath e s))
          else showStreamingToast ''Host file sharing is not available.'' s
      | Files_available \<Rightarrow> startFileMappingMount e s
      | _ \<Rightarrow> startFileMappingUxProbe (showStreamingToast
              (if m_FileMappingToast s = [] then ''Host file sharing is not available. Retrying...''
               else m_FileMappingToast s @ '' Retrying...'') s))"

text \<open>Only what lies in the mirrors' folder, and is there, is removed.\<close>

definition isMoonlightGeneratedFileMappingMirrorPath :: "system_env \<Rightarrow> local_fs \<Rightarrow> local_path \<Rightarrow> bool" where
  "isMoonlightGeneratedFileMappingMirrorPath e fs p \<longleftrightarrow>
     p \<noteq> [] \<and> last p \<noteq> ''Latest'' \<and> fs p \<noteq> None \<and> fs (cacheBase e) \<noteq> None \<and> prefix (cacheBase e) p"

definition cleanupFileMappingMount :: "system_env \<Rightarrow> files_session \<Rightarrow> files_session" where
  "cleanupFileMappingMount e s =
     (let p = m_FileMappingMountPath s; fs = disk_tree s in
      s\<lparr>m_FileMappingMountState := None, m_FileMappingMountPath := [],
        disk_tree := (if p \<noteq> [] \<and> isMoonlightGeneratedFileMappingMirrorPath e fs p
                      then (case removeRecursively (the_disk e) p fs of None \<Rightarrow> fs | Some f \<Rightarrow> f) else fs)\<rparr>)"

section \<open>Steps\<close>

definition new_session :: "(string \<times> string) option \<Rightarrow> string \<Rightarrow> local_fs \<Rightarrow> files_session" where
  "new_session pc sid fs = startFileMappingUxProbe
     \<lparr>m_Computer = pc, m_FileMappingSessionId = sid, m_FileMappingState = Files_unknown,
      m_FileMappingDetail = ''Checking'', m_FileMappingToast = [], m_FileMappingMountPath = [],
      m_FileMappingProbeState = None, m_FileMappingMountState = None, probes_running = {},
      probe_pending = \<lambda>_. None, mounts_running = [], mount_pending = \<lambda>_. None, next_task = 0,
      disk_tree = fs, toasts = [], opened_paths = [], session_over = False\<rparr>"

text \<open>A task ends with what the host answered; the session's loop looks for outcomes; the user clicks; the end.\<close>

datatype 's files_event =
    Probe_done nat fm_capability
  | Mount_done nat "'s host_answers"
  | Loop_turn
  | Click_host_files
  | Session_end

definition probe_done :: "nat \<Rightarrow> fm_capability \<Rightarrow> files_session \<Rightarrow> files_session" where
  "probe_done i c s =
     (if i \<in> probes_running s
      then s\<lparr>probes_running := probes_running s - {i}, probe_pending := (probe_pending s)(i \<mapsto> capability_task c)\<rparr>
      else s)"

definition mount_done :: "mount_platform \<Rightarrow> system_env \<Rightarrow> nat \<Rightarrow> 's host_answers \<Rightarrow> files_session \<Rightarrow> files_session" where
  "mount_done pl e i h s =
     (case map_of (mounts_running s) i of
        None \<Rightarrow> s
      | Some r \<Rightarrow>
          (case mount_task pl e r h (disk_tree s) of (out, fs) \<Rightarrow>
             s\<lparr>mounts_running := filter (\<lambda>(k, _). k \<noteq> i) (mounts_running s),
               mount_pending := (mount_pending s)(i \<mapsto> out), disk_tree := fs\<rparr>))"

definition files_step :: "mount_platform \<Rightarrow> system_env \<Rightarrow> files_session \<Rightarrow> 's files_event \<Rightarrow> files_session" where
  "files_step pl e s ev =
     (case ev of
        Probe_done i c \<Rightarrow> probe_done i c s
      | Mount_done i h \<Rightarrow> mount_done pl e i h s
      | Loop_turn \<Rightarrow>
          if session_over s then s else processFileMappingMountResult e (processFileMappingUxProbeResult s)
      | Click_host_files \<Rightarrow> if session_over s then s else show_host_files e s
      | Session_end \<Rightarrow> if session_over s then s else (cleanupFileMappingMount e s)\<lparr>session_over := True\<rparr>)"

section \<open>The menu tells the truth\<close>

text \<open>A task of the session is under way: it runs, or its outcome waits to be read.\<close>

definition probe_outstanding :: "files_session \<Rightarrow> bool" where
  "probe_outstanding s \<longleftrightarrow>
     (\<exists>i. m_FileMappingProbeState s = Some i \<and> (i \<in> probes_running s \<or> probe_pending s i \<noteq> None))"

definition mount_outstanding :: "files_session \<Rightarrow> bool" where
  "mount_outstanding s \<longleftrightarrow>
     (\<exists>i. m_FileMappingMountState s = Some i \<and> (i \<in> fst ` set (mounts_running s) \<or> mount_pending s i \<noteq> None))"

text \<open>Numbers of tasks are never used again.\<close>

definition numbers_ok :: "files_session \<Rightarrow> bool" where
  "numbers_ok s \<longleftrightarrow> probes_running s \<subseteq> {..<next_task s} \<and> (\<forall>i\<ge>next_task s. probe_pending s i = None)
     \<and> fst ` set (mounts_running s) \<subseteq> {..<next_task s} \<and> (\<forall>i\<ge>next_task s. mount_pending s i = None)
     \<and> (\<forall>i\<in>probes_running s. probe_pending s i = None)
     \<and> (\<forall>i\<in>fst ` set (mounts_running s). mount_pending s i = None)"

definition menu_ok :: "files_session \<Rightarrow> bool" where
  "menu_ok s \<longleftrightarrow> (m_FileMappingState s = Files_checking) = probe_outstanding s
     \<and> (m_FileMappingState s = Files_mounting) = mount_outstanding s
     \<and> (m_FileMappingState s = Files_open) = (m_FileMappingMountPath s \<noteq> [])
     \<and> m_FileMappingState s \<noteq> Files_unknown
     \<and> (mounts_running s = [] \<or> (\<exists>i r. mounts_running s = [(i, r)] \<and> m_FileMappingMountState s = Some i))
     \<and> (m_FileMappingMountState s \<noteq> None) = mount_outstanding s"

definition session_ok :: "files_session \<Rightarrow> bool" where
  "session_ok s \<longleftrightarrow> numbers_ok s \<and> (session_over s \<or> menu_ok s)"

lemma toast_ok [simp]:
  "numbers_ok (showStreamingToast t s) = numbers_ok s" "menu_ok (showStreamingToast t s) = menu_ok s"
  "session_over (showStreamingToast t s) = session_over s"
  "probe_outstanding (showStreamingToast t s) = probe_outstanding s"
  "mount_outstanding (showStreamingToast t s) = mount_outstanding s"
  "m_FileMappingMountState (showStreamingToast t s) = m_FileMappingMountState s"
  "m_FileMappingMountPath (showStreamingToast t s) = m_FileMappingMountPath s"
  "mounts_running (showStreamingToast t s) = mounts_running s"
  by (simp_all add: showStreamingToast_def numbers_ok_def menu_ok_def probe_outstanding_def mount_outstanding_def)

lemma open_path_ok [simp]:
  "numbers_ok (snd (openFileMappingMountPath e s)) = numbers_ok s"
  "menu_ok (snd (openFileMappingMountPath e s)) = menu_ok s"
  by (simp_all add: openFileMappingMountPath_def Let_def numbers_ok_def menu_ok_def probe_outstanding_def
      mount_outstanding_def)

lemma start_probe_ok:
  assumes "numbers_ok s" and "\<not> mount_outstanding s" and "m_FileMappingMountState s = None"
    and "m_FileMappingMountPath s = []" and "mounts_running s = []" and "\<not> probe_outstanding s"
  shows "numbers_ok (startFileMappingUxProbe s) \<and> menu_ok (startFileMappingUxProbe s)"
proof (cases "m_Computer s")
  case None
  then show ?thesis
    using assms
    by (simp add: startFileMappingUxProbe_def Let_def show_state_def no_computer_def numbers_ok_def menu_ok_def
        probe_outstanding_def mount_outstanding_def)
next
  case (Some a)
  then show ?thesis
    using assms
    by (auto simp: startFileMappingUxProbe_def Let_def show_state_def numbers_ok_def menu_ok_def
        probe_outstanding_def mount_outstanding_def)
qed

lemma start_mount_ok:
  assumes "numbers_ok s" and "menu_ok s" and "m_FileMappingState s = Files_available"
  shows "numbers_ok (startFileMappingMount e s) \<and> menu_ok (startFileMappingMount e s)"
proof -
  have s: "m_FileMappingMountState s = None" "m_FileMappingMountPath s = []" "mounts_running s = []"
    "\<not> probe_outstanding s" "\<not> mount_outstanding s"
    using assms(2,3) by (auto simp: menu_ok_def)
  show ?thesis
    using s assms(1)
    by (auto simp: startFileMappingMount_def Let_def show_state_def showStreamingToast_def no_computer_def numbers_ok_def
        menu_ok_def probe_outstanding_def mount_outstanding_def split: option.split)
qed

lemma probe_result_ok:
  assumes "numbers_ok s" and "menu_ok s"
  shows "numbers_ok (processFileMappingUxProbeResult s) \<and> menu_ok (processFileMappingUxProbeResult s)"
proof (cases "\<exists>i r. m_FileMappingProbeState s = Some i \<and> probe_pending s i = Some r")
  case True
  then obtain i r where i: "m_FileMappingProbeState s = Some i" "probe_pending s i = Some r" by blast
  then have "probe_outstanding s" by (simp add: probe_outstanding_def)
  then have c: "m_FileMappingState s = Files_checking" using assms(2) by (simp add: menu_ok_def)
  have ni: "i \<notin> probes_running s" using assms(1) i(2) by (auto simp: numbers_ok_def)
  let ?s = "show_state (if po_available r then Files_available else if po_error r then Files_error else Files_unavailable)
      (po_detail r) (po_message r) (s\<lparr>probe_pending := (probe_pending s)(i := None)\<rparr>)"
  have n: "numbers_ok ?s" using assms(1) by (auto simp: numbers_ok_def show_state_def)
  have m: "menu_ok ?s"
    using assms(2) i c ni
    by (simp add: menu_ok_def show_state_def probe_outstanding_def mount_outstanding_def)
  show ?thesis
    using i n m by (cases "po_available r"; cases "po_error r") (simp_all add: processFileMappingUxProbeResult_def Let_def)
next
  case False
  then have "processFileMappingUxProbeResult s = s"
    by (auto simp: processFileMappingUxProbeResult_def split: option.split)
  then show ?thesis using assms by simp
qed

lemma mount_result_ok:
  assumes "numbers_ok s" and "menu_ok s"
  shows "numbers_ok (processFileMappingMountResult e s) \<and> menu_ok (processFileMappingMountResult e s)"
proof (cases "\<exists>i r. m_FileMappingMountState s = Some i \<and> mount_pending s i = Some r")
  case True
  then obtain i r where i: "m_FileMappingMountState s = Some i" "mount_pending s i = Some r" by blast
  then have "mount_outstanding s" by (simp add: mount_outstanding_def)
  then have c: "m_FileMappingState s = Files_mounting" using assms(2) by (simp add: menu_ok_def)
  have "i \<notin> fst ` set (mounts_running s)" using assms(1) i(2) by (auto simp: numbers_ok_def)
  then have none: "mounts_running s = []" using assms(2) i(1) by (auto simp: menu_ok_def)
  have np: "\<not> probe_outstanding s" using assms(2) c by (simp add: menu_ok_def)
  let ?t = "s\<lparr>mount_pending := (mount_pending s)(i := None), m_FileMappingMountState := None\<rparr>"
  let ?open = "show_state Files_open (or_else (mo_detail r) ''Open'') (or_else (mo_message r) ''Host files are ready.'')
      (?t\<lparr>m_FileMappingMountPath := mo_path r\<rparr>)"
  let ?error = "show_state Files_error (or_else (mo_detail r) ''Error'')
      (or_else (mo_message r) ''Host files could not be opened.'') (?t\<lparr>m_FileMappingMountPath := []\<rparr>)"
  have n: "numbers_ok ?open" "numbers_ok ?error" using assms(1) by (auto simp: numbers_ok_def show_state_def)
  have m: "mo_path r \<noteq> [] \<Longrightarrow> menu_ok ?open" "menu_ok ?error"
    using np none by (simp_all add: menu_ok_def show_state_def probe_outstanding_def mount_outstanding_def)
  show ?thesis
  proof (cases "mo_ok r \<and> mo_path r \<noteq> []")
    case True
    obtain b u where u: "openFileMappingMountPath e ?open = (b, u)" by force
    then have "numbers_ok u" "menu_ok u" using open_path_ok [of e ?open] n m True by simp_all
    then show ?thesis
      using i True u by (cases b) (simp_all add: processFileMappingMountResult_def Let_def)
  next
    case False
    then show ?thesis using i n m by (auto simp: processFileMappingMountResult_def Let_def)
  qed
next
  case False
  then have "processFileMappingMountResult e s = s"
    by (auto simp: processFileMappingMountResult_def split: option.split)
  then show ?thesis using assms by simp
qed

lemma menu_same:
  assumes "menu_ok s" and "m_FileMappingState t = m_FileMappingState s"
    and "m_FileMappingMountPath t = m_FileMappingMountPath s" and "m_FileMappingMountState t = m_FileMappingMountState s"
    and "probe_outstanding t = probe_outstanding s" and "mount_outstanding t = mount_outstanding s"
    and "mounts_running t = [] \<or> mounts_running t = mounts_running s"
  shows "menu_ok t"
  using assms(1,7) unfolding menu_ok_def assms(2-6) by presburger

lemma probe_done_ok:
  assumes "numbers_ok s"
  shows "numbers_ok (probe_done i c s)" and "menu_ok s \<Longrightarrow> menu_ok (probe_done i c s)"
proof -
  show "numbers_ok (probe_done i c s)" using assms by (auto simp: probe_done_def numbers_ok_def)
  have p: "probe_outstanding (probe_done i c s) = probe_outstanding s"
    by (auto simp: probe_done_def probe_outstanding_def)
  have m: "mount_outstanding (probe_done i c s) = mount_outstanding s"
    by (simp add: probe_done_def mount_outstanding_def)
  show "menu_ok (probe_done i c s)" if "menu_ok s"
    by (rule menu_same [OF that]) (simp_all add: p m, simp_all add: probe_done_def)
qed

lemma mount_done_ok:
  assumes "numbers_ok s"
  shows "numbers_ok (mount_done pl e i h s)" and "menu_ok s \<Longrightarrow> menu_ok (mount_done pl e i h s)"
proof -
  have "numbers_ok (mount_done pl e i h s) \<and> (menu_ok s \<longrightarrow> menu_ok (mount_done pl e i h s))"
  proof (cases "map_of (mounts_running s) i")
    case None
    then show ?thesis using assms by (simp add: mount_done_def)
  next
    case (Some r)
    obtain out fs where t: "mount_task pl e r h (disk_tree s) = (out, fs)" by force
    have mem: "i \<in> fst ` set (mounts_running s)" using map_of_SomeD [OF Some] by force
    have ended: "mount_done pl e i h s = s\<lparr>mounts_running := filter (\<lambda>(k, _). k \<noteq> i) (mounts_running s),
        mount_pending := (mount_pending s)(i \<mapsto> out), disk_tree := fs\<rparr>" (is "_ = ?t")
      using Some t by (simp add: mount_done_def)
    have n: "numbers_ok ?t" using assms mem unfolding numbers_ok_def by auto
    have "menu_ok ?t" if menu: "menu_ok s"
    proof -
      obtain r' where r: "mounts_running s = [(i, r')]" "m_FileMappingMountState s = Some i"
        using menu mem by (auto simp: menu_ok_def)
      then have m: "mount_outstanding ?t = mount_outstanding s" by (simp add: mount_outstanding_def)
      have p: "probe_outstanding ?t = probe_outstanding s" by (simp add: probe_outstanding_def)
      show ?thesis by (rule menu_same [OF menu _ _ _ p m]) (simp_all add: r)
    qed
    then show ?thesis using n unfolding ended by blast
  qed
  then show "numbers_ok (mount_done pl e i h s)" "menu_ok s \<Longrightarrow> menu_ok (mount_done pl e i h s)" by blast+
qed

lemma click_ok:
  assumes "numbers_ok s" and "menu_ok s"
  shows "numbers_ok (show_host_files e s) \<and> menu_ok (show_host_files e s)"
proof (cases "m_FileMappingState s \<in> {Files_error, Files_unavailable}")
  case True
  let ?s = "showStreamingToast (if m_FileMappingToast s = [] then ''Host file sharing is not available. Retrying...''
               else m_FileMappingToast s @ '' Retrying...'') s"
  have "numbers_ok ?s" "\<not> mount_outstanding ?s" "m_FileMappingMountState ?s = None"
    "m_FileMappingMountPath ?s = []" "mounts_running ?s = []" "\<not> probe_outstanding ?s"
    using assms True unfolding toast_ok by (auto simp: menu_ok_def)
  from start_probe_ok [OF this] show ?thesis using True by (auto simp: show_host_files_def)
next
  case False
  then show ?thesis
    using assms start_mount_ok [OF assms]
    by (cases "m_FileMappingState s") (simp_all add: show_host_files_def)
qed

lemma cleanup_numbers: "numbers_ok s \<Longrightarrow> numbers_ok (cleanupFileMappingMount e s)"
  by (simp add: cleanupFileMappingMount_def Let_def numbers_ok_def)

lemma session_step: "session_ok s \<Longrightarrow> session_ok (files_step pl e s ev)"
proof -
  assume s: "session_ok s"
  then have n: "numbers_ok s" by (simp add: session_ok_def)
  show ?thesis
  proof (cases ev)
    case (Probe_done i c)
    then show ?thesis
      using s probe_done_ok [OF n, of i c] by (auto simp: files_step_def session_ok_def probe_done_def)
  next
    case (Mount_done i h)
    have "session_over (mount_done pl e i h s) = session_over s"
      by (simp add: mount_done_def split: option.split prod.split)
    then show ?thesis
      using s mount_done_ok [OF n, of pl e i h] Mount_done by (auto simp: files_step_def session_ok_def)
  next
    case Loop_turn
    then show ?thesis
      using s probe_result_ok [of s] mount_result_ok [of "processFileMappingUxProbeResult s" e]
      by (auto simp: files_step_def session_ok_def)
  next
    case Click_host_files
    then show ?thesis using s click_ok [of s e] by (auto simp: files_step_def session_ok_def)
  next
    case Session_end
    then show ?thesis
      using s cleanup_numbers [OF n, of e] by (auto simp: files_step_def session_ok_def numbers_ok_def)
  qed
qed

lemma new_session_ok: "session_ok (new_session pc sid fs)"
  unfolding new_session_def session_ok_def
  by (rule conjI disjI2, (rule start_probe_ok [THEN conjunct1] start_probe_ok [THEN conjunct2];
      simp add: numbers_ok_def mount_outstanding_def probe_outstanding_def))+

lemma run_session_ok: "session_ok (run_events (files_step pl e) (new_session pc sid fs) es)"
  by (rule run_events_invariant [where I = session_ok]) (simp_all add: new_session_ok session_step)

section \<open>What is on the disk\<close>

definition nothing_at :: "local_path \<Rightarrow> local_fs \<Rightarrow> bool" where
  "nothing_at m fs \<longleftrightarrow> (\<forall>x. prefix m x \<longrightarrow> fs x = None)"

definition folder_at :: "local_path \<Rightarrow> local_fs \<Rightarrow> bool" where
  "folder_at m fs \<longleftrightarrow> (\<forall>x. prefix x m \<longrightarrow> fs x = Some Dir)"

definition fresh_world :: "local_fs \<Rightarrow> 's \<Rightarrow> 's files_world" where
  "fresh_world fs v = \<lparr>mirror_of = \<lparr>m_Mounts = \<lambda>_. None, local_tree = fs\<rparr>, host_tree = v\<rparr>"

lemma task_cases:
  assumes "mount_task pl e r h fs = (out, fs')"
  shows "\<not> mo_ok out \<and> fs' = fs
    \<or> (\<exists>v res c w. ensureMounted r (Some (h_ops h)) (new_coordinator (createDefaultMountProviders pl e))
          (fresh_world fs v) = (res, c, w) \<and> out = mounted_outcome res \<and> fs' = local_tree (mirror_of w))"
proof -
  have f: "\<not> mo_ok (failed_task a b)" for a b by (simp add: failed_task_def)
  obtain ch v where ch: "rv_children (h_ops h) root_id (h_tree h) = (ch, v)" by force
  obtain res c w where m: "ensureMounted r (Some (h_ops h)) (new_coordinator (createDefaultMountProviders pl e))
      (fresh_world fs v) = (res, c, w)" by (metis prod_cases3)
  show ?thesis
  proof (cases "out = mounted_outcome res \<and> fs' = local_tree (mirror_of w)")
    case True
    then show ?thesis using m by blast
  next
    case False
    then have "\<not> mo_ok out \<and> fs' = fs"
      using assms m f
      by (cases ch) (auto simp: mount_task_def Let_def ch fresh_world_def [symmetric] split: if_splits)
    then show ?thesis by blast
  qed
qed

text \<open>What the coordinator reports is on the disk.\<close>

lemma ensure_disk:
  fixes ops :: "'s remote_ops"
  assumes "ensureMounted r (Some ops) (new_coordinator (createDefaultMountProviders pl e)) (fresh_world fs v) = (res, c, w)"
    and "nothing_at (cacheRootPath (cacheBase e) r) fs" and "may_remove (the_disk e) (cacheRootPath (cacheBase e) r)"
  shows "if mstate (mount_status res) = Mounted
    then error_ok (mount_error res) \<and> displayPath (mount_status res) = cacheRootPath (cacheBase e) r
      \<and> folder_at (cacheRootPath (cacheBase e) r) (local_tree (mirror_of w))
    else nothing_at (cacheRootPath (cacheBase e) r) (local_tree (mirror_of w))"
proof (cases "hostUuid r = [] \<or> sessionId r = []")
  case True
  then show ?thesis using assms(1,2) by (auto simp: ensureMounted_def unavailableResult_def fresh_world_def)
next
  case False
  let ?c = "new_coordinator (createDefaultMountProviders pl e) :: ('s remote_ops, 's files_world) coordinator"
  have m: "mount_anew r ops ?c (fresh_world fs v) = (res, c, w)"
    using assms(1) False by (simp add: ensureMounted_def new_coordinator_def)
  show ?thesis
  proof (cases "pl = Linux")
    case True
    then have "mstate (mount_status res) \<noteq> Mounted \<and> w = fresh_world fs v"
      using m by (auto simp: mount_anew_def new_coordinator_def createDefaultMountProviders_def fallback_provider_def
          unavailable_provider_def Let_def mount_ok_def error_ok_def make_error_def mount_result.defs)
    then show ?thesis using assms(2) by (simp add: fresh_world_def)
  next
    case False
    have ps: "m_Providers ?c = createDefaultMountProviders pl e" by (simp add: new_coordinator_def)
    obtain res0 where p: "p_mount (native_provider pl e) r ops (fresh_world fs v) = (res0, [], w)"
      and up: "mstate (mount_status res) = Mounted \<longrightarrow> mstate (mount_status res0) = Mounted"
      and same: "mstate (mount_status res0) = Mounted \<longrightarrow> mount_result.truncate res = res0"
      using default_try [OF m ps False] by metis
    show ?thesis
    proof (cases "mstate (mount_status res0) = Mounted")
      case True
      then have "mount_status res = mount_status res0" "mount_error res = mount_error res0"
        using same by (auto simp: mount_result.defs)
      then show ?thesis using True native_mounted [OF p True] by (simp add: folder_at_def mount_ok_def)
    next
      case not: False
      obtain res' u where mm: "mirror_mount (the_disk e) (cacheBase e) (env_limits e) (Some (ops, v)) r
          \<lparr>m_Mounts = \<lambda>_. None, local_tree = fs\<rparr> = (res', u, mirror_of w)" and "res0 = res' \<or> res0 = in_explorer res'"
        using native_mount [OF p] by (auto simp: fresh_world_def)
      then have "mstate (mount_status res') \<noteq> Mounted" using not by auto
      from mount_failed [OF mm this assms(3)] have "nothing_at (cacheRootPath (cacheBase e) r) (local_tree (mirror_of w))"
        using assms(2) by (simp add: nothing_at_def)
      then show ?thesis using up not by simp
    qed
  qed
qed

text \<open>A task leaves the folder it reports, or nothing.\<close>

lemma task_disk:
  assumes t: "mount_task pl e r h fs = (out, fs')" and empty: "nothing_at (cacheRootPath (cacheBase e) r) fs"
    and remove: "may_remove (the_disk e) (cacheRootPath (cacheBase e) r)"
  shows "if mo_ok out then mo_path out = cacheRootPath (cacheBase e) r \<and> folder_at (cacheRootPath (cacheBase e) r) fs'
    else nothing_at (cacheRootPath (cacheBase e) r) fs'"
  using task_cases [OF t]
proof (elim disjE exE conjE)
  fix v res c w
  assume m: "ensureMounted r (Some (h_ops h)) (new_coordinator (createDefaultMountProviders pl e)) (fresh_world fs v)
      = (res, c, w)" and out: "out = mounted_outcome res" "fs' = local_tree (mirror_of w)"
  show ?thesis
    using ensure_disk [OF m empty remove] out by (simp add: mounted_outcome_def failed_task_def split: if_splits)
qed (use empty in simp)

text \<open>
  The folder of the session: it is there once it is mounted or reported, and else nothing is.
\<close>

definition reported :: "files_session \<Rightarrow> local_path option" where
  "reported s = (case m_FileMappingMountState s of
     None \<Rightarrow> None
   | Some i \<Rightarrow> (case mount_pending s i of None \<Rightarrow> None | Some out \<Rightarrow> if mo_ok out then Some (mo_path out) else None))"

definition disk_ok :: "local_path \<Rightarrow> mount_request \<Rightarrow> files_session \<Rightarrow> bool" where
  "disk_ok m r s \<longleftrightarrow> m_Computer s = Some (hostUuid r, hostName r) \<and> m_FileMappingSessionId s = sessionId r
     \<and> (\<forall>(i, r')\<in>set (mounts_running s). r' = r)
     \<and> (nothing_at m (disk_tree s) \<and> m_FileMappingMountPath s = [] \<and> reported s = None
        \<or> folder_at m (disk_tree s) \<and> mounts_running s = []
          \<and> (m_FileMappingMountPath s = m \<and> reported s = None \<or> m_FileMappingMountPath s = [] \<and> reported s = Some m))"

lemma disk_same:
  assumes "disk_ok m r s" and "m_Computer t = m_Computer s" and "m_FileMappingSessionId t = m_FileMappingSessionId s"
    and "mounts_running t = mounts_running s" and "disk_tree t = disk_tree s"
    and "m_FileMappingMountPath t = m_FileMappingMountPath s" and "reported t = reported s"
  shows "disk_ok m r t"
  using assms(1) unfolding disk_ok_def assms(2-7) .

lemma reported_cong:
  assumes "m_FileMappingMountState t = m_FileMappingMountState s" and "mount_pending t = mount_pending s"
  shows "reported t = reported s"
  unfolding reported_def assms ..

lemma toast_fields [simp]:
  "m_Computer (showStreamingToast t s) = m_Computer s"
  "m_FileMappingSessionId (showStreamingToast t s) = m_FileMappingSessionId s"
  "disk_tree (showStreamingToast t s) = disk_tree s"
  "mount_pending (showStreamingToast t s) = mount_pending s"
  by (simp_all add: showStreamingToast_def)

lemma open_fields [simp]:
  "m_Computer (snd (openFileMappingMountPath e s)) = m_Computer s"
  "m_FileMappingSessionId (snd (openFileMappingMountPath e s)) = m_FileMappingSessionId s"
  "disk_tree (snd (openFileMappingMountPath e s)) = disk_tree s"
  "mount_pending (snd (openFileMappingMountPath e s)) = mount_pending s"
  "m_FileMappingMountState (snd (openFileMappingMountPath e s)) = m_FileMappingMountState s"
  "m_FileMappingMountPath (snd (openFileMappingMountPath e s)) = m_FileMappingMountPath s"
  "mounts_running (snd (openFileMappingMountPath e s)) = mounts_running s"
  by (simp_all add: openFileMappingMountPath_def Let_def)

lemma probing_disk:
  "disk_ok m r s \<Longrightarrow> disk_ok m r (startFileMappingUxProbe s)"
  "disk_ok m r s \<Longrightarrow> disk_ok m r (processFileMappingUxProbeResult s)"
  "disk_ok m r s \<Longrightarrow> disk_ok m r (probe_done i c s)"
  by (erule disk_same; (rule reported_cong)?; simp add: startFileMappingUxProbe_def processFileMappingUxProbeResult_def
      probe_done_def Let_def show_state_def no_computer_def showStreamingToast_def split: option.split)+

lemma toast_reported [simp]: "reported (showStreamingToast t s) = reported s"
  by (rule reported_cong) simp_all

lemma toast_disk [simp]: "disk_ok m r (showStreamingToast t s) = disk_ok m r s"
  by (simp add: disk_ok_def)

lemma open_disk: "disk_ok m r s \<Longrightarrow> disk_ok m r (snd (openFileMappingMountPath e s))"
  by (erule disk_same; (rule reported_cong)?; simp)

lemma root_not_Nil: "cacheRootPath base r \<noteq> []"
  by (simp add: cacheRootPath_def)

lemma start_mount_disk:
  assumes "disk_ok m r s" and "numbers_ok s" and "menu_ok s" and "m \<noteq> []"
    and "m_FileMappingState s = Files_available"
  shows "disk_ok m r (startFileMappingMount e s)"
proof -
  have none: "m_FileMappingMountState s = None" "m_FileMappingMountPath s = []" "mounts_running s = []"
    using assms(3,5) by (auto simp: menu_ok_def)
  have d: "nothing_at m (disk_tree s)" "reported s = None" "m_Computer s = Some (hostUuid r, hostName r)"
    "m_FileMappingSessionId s = sessionId r"
    using assms(1,4) none by (auto simp: disk_ok_def reported_def)
  have "mount_pending s (next_task s) = None" using assms(2) by (simp add: numbers_ok_def)
  then show ?thesis
    using d none
    by (simp add: startFileMappingMount_def Let_def show_state_def showStreamingToast_def disk_ok_def reported_def)
qed

lemma mount_result_disk:
  assumes "disk_ok m r s" and "menu_ok s" and "m \<noteq> []"
  shows "disk_ok m r (processFileMappingMountResult e s)"
proof (cases "\<exists>i out. m_FileMappingMountState s = Some i \<and> mount_pending s i = Some out")
  case False
  then have "processFileMappingMountResult e s = s"
    by (auto simp: processFileMappingMountResult_def split: option.split)
  then show ?thesis using assms by simp
next
  case True
  then obtain i out where i: "m_FileMappingMountState s = Some i" "mount_pending s i = Some out" by blast
  then have "mount_outstanding s" by (simp add: mount_outstanding_def)
  then have "m_FileMappingState s = Files_mounting" using assms(2) by (simp add: menu_ok_def)
  then have path: "m_FileMappingMountPath s = []" using assms(2) by (simp add: menu_ok_def)
  have rep: "reported s = (if mo_ok out then Some (mo_path out) else None)" by (simp add: reported_def i)
  let ?t = "s\<lparr>mount_pending := (mount_pending s)(i := None), m_FileMappingMountState := None\<rparr>"
  let ?open = "show_state Files_open (or_else (mo_detail out) ''Open'') (or_else (mo_message out) ''Host files are ready.'')
      (?t\<lparr>m_FileMappingMountPath := mo_path out\<rparr>)"
  let ?error = "show_state Files_error (or_else (mo_detail out) ''Error'')
      (or_else (mo_message out) ''Host files could not be opened.'') (?t\<lparr>m_FileMappingMountPath := []\<rparr>)"
  show ?thesis
  proof (cases "mo_ok out")
    case True
    then have ok: "mo_path out = m" "mo_path out \<noteq> []" using assms(1,3) path rep by (auto simp: disk_ok_def)
    then have d: "disk_ok m r ?open"
      using assms(1,3) rep True path by (auto simp: disk_ok_def show_state_def reported_def)
    obtain b u where u: "openFileMappingMountPath e ?open = (b, u)" by force
    then have "disk_ok m r u" using open_disk [OF d, of e] by simp
    then show ?thesis using i True ok(2) u by (cases b) (simp_all add: processFileMappingMountResult_def Let_def)
  next
    case False
    have "disk_ok m r ?error"
      using assms(1,3) rep False path by (auto simp: disk_ok_def show_state_def reported_def)
    then show ?thesis using i False by (simp add: processFileMappingMountResult_def Let_def)
  qed
qed

lemma mount_done_disk:
  assumes "disk_ok m r s" and "menu_ok s" and "m = cacheRootPath (cacheBase e) r" and "may_remove (the_disk e) m"
  shows "disk_ok m r (mount_done pl e i h s)"
proof (cases "map_of (mounts_running s) i")
  case None
  then show ?thesis using assms(1) by (simp add: mount_done_def)
next
  case (Some r')
  obtain out fs where t: "mount_task pl e r' h (disk_tree s) = (out, fs)" by force
  have mem: "(i, r') \<in> set (mounts_running s)" using map_of_SomeD [OF Some] .
  then have run: "mounts_running s = [(i, r')]" "m_FileMappingMountState s = Some i"
    using assms(2) by (auto simp: menu_ok_def)
  have r: "r' = r" using assms(1) mem by (auto simp: disk_ok_def)
  have d: "nothing_at m (disk_tree s)" "m_FileMappingMountPath s = []" using assms(1) run by (auto simp: disk_ok_def)
  have "if mo_ok out then mo_path out = m \<and> folder_at m fs else nothing_at m fs"
    using task_disk [OF t] d(1) assms(4) unfolding r assms(3) by blast
  moreover have "mount_done pl e i h s = s\<lparr>mounts_running := [], mount_pending := (mount_pending s)(i \<mapsto> out), disk_tree := fs\<rparr>"
    using Some t run by (simp add: mount_done_def)
  ultimately show ?thesis
    using assms(1) d run by (auto simp: disk_ok_def reported_def split: if_splits)
qed

lemma click_disk:
  assumes "disk_ok m r s" and "numbers_ok s" and "menu_ok s" and "m \<noteq> []"
  shows "disk_ok m r (show_host_files e s)"
  using assms start_mount_disk [OF assms] open_disk [OF assms(1)] probing_disk(1)
  by (cases "m_FileMappingState s") (simp_all add: show_host_files_def)

text \<open>As long as the session lasts.\<close>

definition during :: "local_path \<Rightarrow> mount_request \<Rightarrow> files_session \<Rightarrow> bool" where
  "during m r s \<longleftrightarrow> session_ok s \<and> (session_over s \<or> disk_ok m r s)"

lemma during_step:
  assumes "during m r s" and "m = cacheRootPath (cacheBase e) r" and "may_remove (the_disk e) m"
  shows "during m r (files_step pl e s ev)"
proof (cases "session_over s")
  case True
  then have "session_over (files_step pl e s ev)"
    by (cases ev) (auto simp: files_step_def probe_done_def mount_done_def split: option.split prod.split)
  then show ?thesis using assms(1) session_step [of s pl e ev] by (simp add: during_def)
next
  case False
  then have s: "disk_ok m r s" "numbers_ok s" "menu_ok s" using assms(1) by (auto simp: during_def session_ok_def)
  have p: "menu_ok (processFileMappingUxProbeResult s)" using probe_result_ok [OF s(2,3)] by blast
  have ne: "m \<noteq> []" using assms(2) root_not_Nil by simp
  have "session_over (files_step pl e s ev) \<or> disk_ok m r (files_step pl e s ev)"
  proof (cases ev)
    case (Probe_done i c)
    then show ?thesis using probing_disk(3) [OF s(1), of i c] by (simp add: files_step_def)
  next
    case (Mount_done i h)
    then show ?thesis using mount_done_disk [OF s(1,3) assms(2,3), of pl i h] by (simp add: files_step_def)
  next
    case Loop_turn
    then show ?thesis using mount_result_disk [OF probing_disk(2) [OF s(1)] p ne, of e] False by (simp add: files_step_def)
  next
    case Click_host_files
    then show ?thesis using click_disk [OF s ne, of e] False by (simp add: files_step_def)
  next
    case Session_end
    then show ?thesis using False by (simp add: files_step_def)
  qed
  then show ?thesis using assms(1) session_step [of s pl e ev] by (auto simp: during_def)
qed

lemma run_during:
  assumes "m = cacheRootPath (cacheBase e) \<lparr>hostUuid = u, hostName = n, sessionId = sid\<rparr>"
    and "may_remove (the_disk e) m" and "nothing_at m fs"
  shows "during m \<lparr>hostUuid = u, hostName = n, sessionId = sid\<rparr>
    (run_events (files_step pl e) (new_session (Some (u, n)) sid fs) es)"
proof (rule run_events_invariant [where I = "during m \<lparr>hostUuid = u, hostName = n, sessionId = sid\<rparr>"])
  have "disk_ok m \<lparr>hostUuid = u, hostName = n, sessionId = sid\<rparr> (new_session (Some (u, n)) sid fs)"
    unfolding new_session_def
    by (rule probing_disk(1)) (simp add: disk_ok_def reported_def assms(3))
  then show "during m \<lparr>hostUuid = u, hostName = n, sessionId = sid\<rparr> (new_session (Some (u, n)) sid fs)"
    using new_session_ok by (simp add: during_def)
next
  fix s :: files_session and ev :: "'a files_event"
  assume "during m \<lparr>hostUuid = u, hostName = n, sessionId = sid\<rparr> s"
  from during_step [OF this assms(1,2)]
  show "during m \<lparr>hostUuid = u, hostName = n, sessionId = sid\<rparr> (files_step pl e s ev)" .
qed

text \<open>When the session is over and no task mounts, the disk stays as it is.\<close>

lemma over_quiet:
  "session_over s \<Longrightarrow> mounts_running s = [] \<Longrightarrow>
    session_over (run_events (files_step pl e) s es) \<and> mounts_running (run_events (files_step pl e) s es) = []
      \<and> disk_tree (run_events (files_step pl e) s es) = disk_tree s"
proof (rule run_events_invariant [where I = "\<lambda>t. session_over t \<and> mounts_running t = [] \<and> disk_tree t = disk_tree s"])
  fix t :: files_session and ev :: "'a files_event"
  assume "session_over t \<and> mounts_running t = [] \<and> disk_tree t = disk_tree s"
  then show "session_over (files_step pl e t ev) \<and> mounts_running (files_step pl e t ev) = []
      \<and> disk_tree (files_step pl e t ev) = disk_tree s"
    by (cases ev) (simp_all add: files_step_def probe_done_def mount_done_def)
qed simp

section \<open>Properties\<close>

text \<open>
  C9: The menu's entry for host files tells the truth as long as the session lasts, whatever the host
  answers and however the user clicks: it says checking or preparing exactly while such a task is under
  way or its outcome is not read yet, and open exactly when there is a folder to open. At most one task
  mounts at a time.
\<close>
theorem menu_tells_truth:
  "session_over (run_events (files_step pl e) (new_session pc sid fs) es)
   \<or> (m_FileMappingState (run_events (files_step pl e) (new_session pc sid fs) es) = Files_checking)
       = probe_outstanding (run_events (files_step pl e) (new_session pc sid fs) es)
     \<and> (m_FileMappingState (run_events (files_step pl e) (new_session pc sid fs) es) = Files_mounting)
       = mount_outstanding (run_events (files_step pl e) (new_session pc sid fs) es)
     \<and> (m_FileMappingState (run_events (files_step pl e) (new_session pc sid fs) es) = Files_open)
       = (m_FileMappingMountPath (run_events (files_step pl e) (new_session pc sid fs) es) \<noteq> [])
     \<and> length (mounts_running (run_events (files_step pl e) (new_session pc sid fs) es)) \<le> 1"
proof -
  let ?s = "run_events (files_step pl e) (new_session pc sid fs) es"
  have "session_over ?s \<or> menu_ok ?s" using run_session_ok [of pl e pc sid fs es] unfolding session_ok_def by blast
  then show ?thesis
  proof
    assume m: "menu_ok ?s"
    then have "length (mounts_running ?s) \<le> 1" by (auto simp: menu_ok_def)
    then show ?thesis using m unfolding menu_ok_def by blast
  qed simp
qed

text \<open>
  C19: If no task is mounting when the session ends, nothing is left in the session's mirror folder, then
  or later, provided that the disk lets the folder be removed and it was not there before. The experimental
  providers of macOS, which do not mirror, are not modelled; the alias \<open>Latest\<close>, which lies beside
  the folder, stays.
\<close>
theorem snapshot_removed:
  fixes es es' :: "'s files_event list"
  assumes "m_FileMappingMountState (run_events (files_step pl e) (new_session (Some (u, n)) sid fs) es) = None"
    and "\<not> session_over (run_events (files_step pl e) (new_session (Some (u, n)) sid fs) es)"
    and "may_remove (the_disk e) (cacheRootPath (cacheBase e) \<lparr>hostUuid = u, hostName = n, sessionId = sid\<rparr>)"
    and "nothing_at (cacheRootPath (cacheBase e) \<lparr>hostUuid = u, hostName = n, sessionId = sid\<rparr>) fs"
  shows "nothing_at (cacheRootPath (cacheBase e) \<lparr>hostUuid = u, hostName = n, sessionId = sid\<rparr>)
    (disk_tree (run_events (files_step pl e) (new_session (Some (u, n)) sid fs) (es @ Session_end # es')))"
proof -
  let ?r = "\<lparr>hostUuid = u, hostName = n, sessionId = sid\<rparr>"
  let ?m = "cacheRootPath (cacheBase e) ?r"
  define s where "s = run_events (files_step pl e) (new_session (Some (u, n)) sid fs) es"
  have s: "disk_ok ?m ?r s" "menu_ok s"
    using run_during [OF refl assms(3,4), of pl es] assms(2) by (auto simp: s_def during_def session_ok_def)
  have none: "m_FileMappingMountState s = None" using assms(1) by (simp add: s_def)
  then have run: "mounts_running s = []" using s(2) by (auto simp: menu_ok_def)
  have "reported s = None" using none by (simp add: reported_def)
  then have disk: "nothing_at ?m (disk_tree s) \<and> m_FileMappingMountPath s = []
      \<or> folder_at ?m (disk_tree s) \<and> m_FileMappingMountPath s = ?m"
    using s(1) by (auto simp: disk_ok_def)
  obtain w where w: "?m = cacheBase e @ [w]" "w \<noteq> ''Latest''" using root_plain by blast
  have "nothing_at ?m (disk_tree (cleanupFileMappingMount e s))"
    using disk
  proof
    assume a: "folder_at ?m (disk_tree s) \<and> m_FileMappingMountPath s = ?m"
    have "isMoonlightGeneratedFileMappingMirrorPath e (disk_tree s) ?m"
      using a by (simp add: isMoonlightGeneratedFileMappingMirrorPath_def w folder_at_def)
    then show ?thesis
      using a assms(3) w(1)
      by (simp add: cleanupFileMappingMount_def Let_def removeRecursively_def nothing_at_def)
  qed (simp add: cleanupFileMappingMount_def Let_def)
  moreover have "session_over (files_step pl e s (Session_end :: 's files_event))"
    "mounts_running (files_step pl e s (Session_end :: 's files_event)) = []"
    "disk_tree (files_step pl e s (Session_end :: 's files_event)) = disk_tree (cleanupFileMappingMount e s)"
    using assms(2) run by (simp_all add: files_step_def cleanupFileMappingMount_def Let_def s_def)
  ultimately show ?thesis
    using over_quiet [of "files_step pl e s (Session_end :: 's files_event)" pl e es'] by (simp add: s_def)
qed

text \<open>A host that shares files, and its answers to the two tasks.\<close>

definition sharing :: fm_capability where
  "sharing = \<lparr>cap_ok = True, cap_enabled = True, cap_listening = True, cap_port = 47998, cap_endpoint = ''e'',
     cap_url = ''u'', cap_token = ''t'', cap_uuid = ''c'', cap_error = []\<rparr>"

definition sharing_host :: "unit host_answers" where
  "sharing_host = \<lparr>h_capability = \<lparr>rc_available = True, rc_enabled = True, rc_listening = True, rc_port = 47998,
       rc_endpoint = ''e'', rc_url = ''u'', rc_token = ''t'', rc_uuid = ''c'', rc_error = no_error\<rparr>,
     h_connect = no_error, h_ops = empty_host, h_tree = ()\<rparr>"

lemma sharing_available: "po_available (capability_task sharing)"
  by (simp add: sharing_def capability_task_def)

text \<open>The session clicks once the host has answered.\<close>

lemma after_click:
  assumes "po_available (capability_task c)"
  shows "\<exists>d t ts. run_events (files_step pl e) (new_session (Some (u, n)) sid fs) [Probe_done 0 c, Loop_turn, Click_host_files] =
    \<lparr>m_Computer = Some (u, n), m_FileMappingSessionId = sid, m_FileMappingState = Files_mounting,
      m_FileMappingDetail = d, m_FileMappingToast = t, m_FileMappingMountPath = [],
      m_FileMappingProbeState = Some 0, m_FileMappingMountState = Some 1, probes_running = {},
      probe_pending = \<lambda>_. None, mounts_running = [(1, \<lparr>hostUuid = u, hostName = n, sessionId = sid\<rparr>)],
      mount_pending = \<lambda>_. None, next_task = 2, disk_tree = fs, toasts = ts, opened_paths = [], session_over = False\<rparr>"
  using assms
  by (simp add: new_session_def startFileMappingUxProbe_def Let_def show_state_def files_step_def probe_done_def
      processFileMappingUxProbeResult_def processFileMappingMountResult_def show_host_files_def
      startFileMappingMount_def showStreamingToast_def fun_upd_idem_iff)

text \<open>A task on this host mounts.\<close>

lemma sharing_mounts: "mo_ok (fst (mount_task MacOS test_env one_request sharing_host (\<lambda>_. None)))"
proof -
  let ?m = "p_mount (native_provider MacOS test_env) one_request empty_host (fresh_world (\<lambda>_. None) ())"
  have "mstate (mount_status (fst ?m)) = Mounted"
    using empty_mounted [of "\<lparr>m_Mounts = \<lambda>_. None, local_tree = \<lambda>_. None\<rparr>" "cacheBase test_env" "env_limits test_env" one_request]
    by (auto simp: native_provider_def finder_provider_def fresh_world_def test_env_def split: prod.split)
  then obtain res0 ds w where m: "?m = (res0, ds, w)" and st: "mstate (mount_status res0) = Mounted"
    by (metis prod_cases3 fst_conv)
  have r: "hostUuid one_request \<noteq> []" "sessionId one_request \<noteq> []" by (simp_all add: one_request_def)
  obtain res c where e: "ensureMounted one_request (Some empty_host)
      (new_coordinator (createDefaultMountProviders MacOS test_env)) (fresh_world (\<lambda>_. None) ()) = (res, c, w)"
    and res: "mount_result.truncate res = res0"
    using ensure_native [OF m st r] by blast
  have "mount_status res = mount_status res0" "mount_error res = mount_error res0"
    using res by (auto simp: mount_result.defs)
  then have "mo_ok (mounted_outcome res)"
    using native_mounted(1) [OF m st] st by (simp add: mounted_outcome_def mount_ok_def)
  then show ?thesis
    using e by (simp add: mount_task_def Let_def sharing_host_def empty_host_def fresh_world_def [symmetric] error_ok_def no_error_def)
qed

lemma snapshot_removed_witness:
  "nothing_at (cacheRootPath [''home''] one_request)
    (disk_tree (run_events (files_step MacOS test_env) (new_session (Some (''u'', ''pc'')) ''1'' (\<lambda>_. None))
      ([Probe_done 0 sharing, Loop_turn, Click_host_files, Mount_done 1 sharing_host, Loop_turn] @ [Session_end])))"
proof -
  have "m_FileMappingMountState (run_events (files_step MacOS test_env) (new_session (Some (''u'', ''pc'')) ''1'' (\<lambda>_. None))
        [Probe_done 0 sharing, Loop_turn, Click_host_files, Mount_done 1 sharing_host, Loop_turn]) = None
      \<and> \<not> session_over (run_events (files_step MacOS test_env) (new_session (Some (''u'', ''pc'')) ''1'' (\<lambda>_. None))
        [Probe_done 0 sharing, Loop_turn, Click_host_files, Mount_done 1 sharing_host, Loop_turn])"
  proof -
    obtain out fs where t: "mount_task MacOS test_env \<lparr>hostUuid = ''u'', hostName = ''pc'', sessionId = ''1''\<rparr> sharing_host
      (\<lambda>_. None) = (out, fs)" by force
    obtain d a ts where click: "run_events (files_step MacOS test_env) (new_session (Some (''u'', ''pc'')) ''1'' (\<lambda>_. None))
        [Probe_done 0 sharing, Loop_turn, Click_host_files :: unit files_event] =
      \<lparr>m_Computer = Some (''u'', ''pc''), m_FileMappingSessionId = ''1'', m_FileMappingState = Files_mounting,
        m_FileMappingDetail = d, m_FileMappingToast = a, m_FileMappingMountPath = [],
        m_FileMappingProbeState = Some 0, m_FileMappingMountState = Some 1, probes_running = {},
        probe_pending = \<lambda>_. None, mounts_running = [(1, \<lparr>hostUuid = ''u'', hostName = ''pc'', sessionId = ''1''\<rparr>)],
        mount_pending = \<lambda>_. None, next_task = 2, disk_tree = (\<lambda>_. None), toasts = ts, opened_paths = [],
        session_over = False\<rparr>"
      using after_click [OF sharing_available] by blast
    have split: "[Probe_done 0 sharing, Loop_turn, Click_host_files, Mount_done 1 sharing_host, Loop_turn] =
        [Probe_done 0 sharing, Loop_turn, Click_host_files] @ [Mount_done 1 sharing_host, Loop_turn]" by simp
    show ?thesis
      unfolding split run_events_append click
      by (simp add: files_step_def mount_done_def t processFileMappingUxProbeResult_def processFileMappingMountResult_def
          Let_def show_state_def openFileMappingMountPath_def showStreamingToast_def)
  qed
  then show ?thesis
    using snapshot_removed [of MacOS test_env "''u''" "''pc''" "''1''" "\<lambda>_. None"
        "[Probe_done 0 sharing, Loop_turn, Click_host_files, Mount_done 1 sharing_host, Loop_turn]" "[]"]
    by (simp add: test_env_def all_allowed_def nothing_at_def one_request_def)
qed

text \<open>
  C36: If the session ends while a task still mounts and that task succeeds, the folder with the host's
  files stays on the disk whatever happens after: nobody is left who knows of it.
\<close>
theorem snapshot_left_behind:
  fixes h :: "'s host_answers" and es :: "'s files_event list"
  assumes "po_available (capability_task c)"
    and "mo_ok (fst (mount_task pl e \<lparr>hostUuid = u, hostName = n, sessionId = sid\<rparr> h fs))"
    and "may_remove (the_disk e) (cacheRootPath (cacheBase e) \<lparr>hostUuid = u, hostName = n, sessionId = sid\<rparr>)"
    and "nothing_at (cacheRootPath (cacheBase e) \<lparr>hostUuid = u, hostName = n, sessionId = sid\<rparr>) fs"
  shows "disk_tree (run_events (files_step pl e) (new_session (Some (u, n)) sid fs)
      ([Probe_done 0 c, Loop_turn, Click_host_files] @ [Session_end, Mount_done 1 h] @ es))
    (cacheRootPath (cacheBase e) \<lparr>hostUuid = u, hostName = n, sessionId = sid\<rparr>) = Some Dir"
proof -
  let ?r = "\<lparr>hostUuid = u, hostName = n, sessionId = sid\<rparr>"
  let ?s = "run_events (files_step pl e) (new_session (Some (u, n)) sid fs)
    ([Probe_done 0 c, Loop_turn, Click_host_files] @ [Session_end, Mount_done 1 h])"
  obtain out fs' where t: "mount_task pl e ?r h fs = (out, fs')" by force
  have f: "folder_at (cacheRootPath (cacheBase e) ?r) fs'"
    using task_disk [OF t assms(4,3)] assms(2) t by simp
  obtain d a ts where click: "run_events (files_step pl e) (new_session (Some (u, n)) sid fs)
      [Probe_done 0 c, Loop_turn, Click_host_files :: 's files_event] =
    \<lparr>m_Computer = Some (u, n), m_FileMappingSessionId = sid, m_FileMappingState = Files_mounting,
      m_FileMappingDetail = d, m_FileMappingToast = a, m_FileMappingMountPath = [],
      m_FileMappingProbeState = Some 0, m_FileMappingMountState = Some 1, probes_running = {},
      probe_pending = \<lambda>_. None, mounts_running = [(1, ?r)],
      mount_pending = \<lambda>_. None, next_task = 2, disk_tree = fs, toasts = ts, opened_paths = [], session_over = False\<rparr>"
    using after_click [OF assms(1)] by blast
  have "session_over ?s" "mounts_running ?s = []" "disk_tree ?s = fs'"
    unfolding run_events_append click
    by (simp_all add: files_step_def cleanupFileMappingMount_def Let_def mount_done_def t)
  from over_quiet [OF this(1,2), of pl e es] this(3) f show ?thesis
    by (simp add: folder_at_def)
qed

lemma snapshot_left_behind_witness:
  "disk_tree (run_events (files_step MacOS test_env) (new_session (Some (''u'', ''pc'')) ''1'' (\<lambda>_. None))
      ([Probe_done 0 sharing, Loop_turn, Click_host_files] @ [Session_end, Mount_done 1 sharing_host] @ []))
    (cacheRootPath [''home''] one_request) = Some Dir"
  using snapshot_left_behind [of sharing MacOS test_env "''u''" "''pc''" "''1''" sharing_host "\<lambda>_. None" "[]"]
    sharing_available sharing_mounts
  by (simp add: test_env_def all_allowed_def nothing_at_def one_request_def)

end
