(* ===== verification/Localisation.thy ===== *)
theory Localisation
  imports Prelude
begin

text \<open>
  How the client picks and swaps its translation: the language preference, the suffix of the
  resource it loads (\<open>StreamingPreferences::getSuffixFromLanguage\<close>) and the swap of the installed
  translator (\<open>StreamingPreferences::retranslate\<close>), both in
  \<open>src/app/settings/streamingpreferences.cpp\<close>. Qt's \<open>QTranslator\<close> and the resource system are parameters.
\<close>

section \<open>Languages and their resources\<close>

text \<open>\<open>StreamingPreferences::Language\<close>, in the order that numbers the stored preference.\<close>

datatype language =
    LANG_AUTO | LANG_EN | LANG_FR | LANG_ZH_CN | LANG_DE | LANG_NB_NO | LANG_RU | LANG_ES
  | LANG_JA | LANG_VI | LANG_TH | LANG_KO | LANG_HU | LANG_NL | LANG_SV | LANG_TR
  | LANG_UK | LANG_ZH_TW | LANG_PT | LANG_PT_BR | LANG_EL | LANG_IT | LANG_HI | LANG_PL
  | LANG_CS | LANG_HE | LANG_CKB | LANG_LT | LANG_ET | LANG_BG | LANG_EO | LANG_TA

text \<open>
  \<open>getSuffixFromLanguage\<close>; \<open>locale_name\<close> is \<open>QLocale::system().name()\<close>, which the switch falls
  back to.
\<close>

fun getSuffixFromLanguage :: "string \<Rightarrow> language \<Rightarrow> string" where
  "getSuffixFromLanguage locale_name LANG_DE = ''de''"
| "getSuffixFromLanguage locale_name LANG_EN = ''en''"
| "getSuffixFromLanguage locale_name LANG_FR = ''fr''"
| "getSuffixFromLanguage locale_name LANG_ZH_CN = ''zh_CN''"
| "getSuffixFromLanguage locale_name LANG_NB_NO = ''nb_NO''"
| "getSuffixFromLanguage locale_name LANG_RU = ''ru''"
| "getSuffixFromLanguage locale_name LANG_ES = ''es''"
| "getSuffixFromLanguage locale_name LANG_JA = ''ja''"
| "getSuffixFromLanguage locale_name LANG_VI = ''vi''"
| "getSuffixFromLanguage locale_name LANG_TH = ''th''"
| "getSuffixFromLanguage locale_name LANG_KO = ''ko''"
| "getSuffixFromLanguage locale_name LANG_HU = ''hu''"
| "getSuffixFromLanguage locale_name LANG_NL = ''nl''"
| "getSuffixFromLanguage locale_name LANG_SV = ''sv''"
| "getSuffixFromLanguage locale_name LANG_TR = ''tr''"
| "getSuffixFromLanguage locale_name LANG_UK = ''uk''"
| "getSuffixFromLanguage locale_name LANG_ZH_TW = ''zh_TW''"
| "getSuffixFromLanguage locale_name LANG_PT = ''pt''"
| "getSuffixFromLanguage locale_name LANG_PT_BR = ''pt_BR''"
| "getSuffixFromLanguage locale_name LANG_EL = ''el''"
| "getSuffixFromLanguage locale_name LANG_IT = ''it''"
| "getSuffixFromLanguage locale_name LANG_HI = ''hi''"
| "getSuffixFromLanguage locale_name LANG_PL = ''pl''"
| "getSuffixFromLanguage locale_name LANG_CS = ''cs''"
| "getSuffixFromLanguage locale_name LANG_HE = ''he''"
| "getSuffixFromLanguage locale_name LANG_CKB = ''ckb''"
| "getSuffixFromLanguage locale_name LANG_LT = ''lt''"
| "getSuffixFromLanguage locale_name LANG_ET = ''et''"
| "getSuffixFromLanguage locale_name LANG_BG = ''bg''"
| "getSuffixFromLanguage locale_name LANG_EO = ''eo''"
| "getSuffixFromLanguage locale_name LANG_TA = ''ta''"
| "getSuffixFromLanguage locale_name LANG_AUTO = locale_name"

text \<open>The suffixes of the compiled catalogues listed in \<open>src/app/resources.qrc\<close>.\<close>

definition bundled :: "string list" where
  "bundled =
    [''de'', ''fr'', ''zh_CN'', ''nb_NO'', ''ru'', ''es'', ''ja'', ''vi'', ''th'', ''ko'',
     ''hu'', ''nl'', ''sv'', ''tr'', ''uk'', ''zh_TW'', ''el'', ''hi'', ''it'', ''pt'',
     ''pl'', ''cs'', ''he'', ''ckb'', ''lt'', ''et'', ''bg'', ''eo'', ''ta'', ''pt_BR'']"

definition named_languages :: "language list" where
  "named_languages =
    [LANG_EN, LANG_FR, LANG_ZH_CN, LANG_DE, LANG_NB_NO, LANG_RU, LANG_ES, LANG_JA,
     LANG_VI, LANG_TH, LANG_KO, LANG_HU, LANG_NL, LANG_SV, LANG_TR, LANG_UK,
     LANG_ZH_TW, LANG_PT, LANG_PT_BR, LANG_EL, LANG_IT, LANG_HI, LANG_PL, LANG_CS,
     LANG_HE, LANG_CKB, LANG_LT, LANG_ET, LANG_BG, LANG_EO, LANG_TA]"

definition resource_name :: "string \<Rightarrow> string" where
  "resource_name suffix = '':/languages/qml_'' @ suffix"

text \<open>
  every language of the preference other than the automatic one and English (the language of
  the sources) has its own suffix and a compiled catalogue under that suffix in the application's
  resources, whatever the system locale is.
\<close>

theorem language_resources:
  "getSuffixFromLanguage loc l \<in> set bundled \<longleftrightarrow>
     (case l of LANG_AUTO \<Rightarrow> loc \<in> set bundled | LANG_EN \<Rightarrow> False | _ \<Rightarrow> True)
   \<and> inj_on (getSuffixFromLanguage loc) (- {LANG_AUTO})"
proof -
  have "distinct (map (getSuffixFromLanguage loc) named_languages)"
    by (simp add: named_languages_def)
  moreover have "- {LANG_AUTO} \<subseteq> set named_languages"
  proof
    fix a assume "a \<in> - {LANG_AUTO}"
    then show "a \<in> set named_languages" by (cases a) (simp_all add: named_languages_def)
  qed
  ultimately have "inj_on (getSuffixFromLanguage loc) (- {LANG_AUTO})"
    by (auto simp: distinct_map intro: inj_on_subset)
  then show ?thesis by (cases l) (simp_all add: bundled_def)
qed

section \<open>Swapping the translator\<close>

text \<open>
  Translator objects are identified by the address \<open>new\<close> gave them. The state holds the static
  pointer of \<open>retranslate\<close>, the application's list of installed translators (most recent
  first), the objects allocated and not yet deleted, what each loaded translator holds, and how
  often the QML engine was told to re-evaluate its texts.
\<close>

record translators =
  translator :: "nat option"
  installed :: "nat list"
  live :: "nat list"
  next_address :: nat
  loaded :: "nat \<Rightarrow> string"
  refreshes :: nat

definition no_translators :: translators where
  "no_translators = \<lparr>translator = None, installed = [], live = [], next_address = 0,
     loaded = (\<lambda>_. []), refreshes = 0\<rparr>"

text \<open>The removal of the old translator: \<open>removeTranslator\<close>, \<open>delete\<close>, and the pointer reset.\<close>

definition drop_translator :: "translators \<Rightarrow> translators" where
  "drop_translator s = (case translator s of
     None \<Rightarrow> s
   | Some t \<Rightarrow> s\<lparr>installed := removeAll t (installed s), live := remove1 t (live s),
                 translator := None\<rparr>)"

text \<open>
  \<open>retranslate\<close>. \<open>old_qt\<close> is the compile-time test for Qt before 5.10, \<open>engine\<close> says that the
  QML engine is set, \<open>available\<close> what \<open>QTranslator::load\<close> answers for a resource name.
\<close>

definition retranslate ::
  "bool \<Rightarrow> bool \<Rightarrow> (string \<Rightarrow> bool) \<Rightarrow> string \<Rightarrow> language \<Rightarrow> translators \<Rightarrow> bool \<times> translators" where
  "retranslate old_qt engine available loc lang s =
     (if old_qt \<and> engine then (False, s)
      else
        let t = next_address s;
            s1 = s\<lparr>next_address := t + 1, live := t # live s\<rparr>;
            suffix = getSuffixFromLanguage loc lang;
            s2 = drop_translator s1;
            s3 = (if available (resource_name suffix)
                  then s2\<lparr>loaded := (loaded s2)(t := resource_name suffix), translator := Some t,
                          installed := t # installed s2\<rparr>
                  else s2\<lparr>live := remove1 t (live s2)\<rparr>)
        in (True, if engine then s3\<lparr>refreshes := refreshes s3 + 1\<rparr> else s3))"

text \<open>
  The invariant: the application's list holds exactly the static translator, nothing else is
  allocated, and addresses to come are fresh.
\<close>

definition translators_inv :: "translators \<Rightarrow> bool" where
  "translators_inv s \<longleftrightarrow> installed s = (case translator s of None \<Rightarrow> [] | Some t \<Rightarrow> [t])
     \<and> live s = installed s \<and> (\<forall>t\<in>set (live s). t < next_address s)"

lemma no_translators_inv [inv_intros]: "translators_inv no_translators"
  by (simp add: translators_inv_def no_translators_def)

text \<open>What the catalogues in force are, by name.\<close>

definition in_force :: "translators \<Rightarrow> string list" where
  "in_force s = map (loaded s) (installed s)"

lemma retranslate_step:
  assumes "translators_inv s" and "\<not> (old_qt \<and> engine)"
  shows "translators_inv (snd (retranslate old_qt engine available loc lang s))"
    and "in_force (snd (retranslate old_qt engine available loc lang s)) =
           (if available (resource_name (getSuffixFromLanguage loc lang))
            then [resource_name (getSuffixFromLanguage loc lang)] else [])"
  using assms
  by (auto simp: translators_inv_def in_force_def retranslate_def drop_translator_def Let_def
      split: option.splits)

text \<open>A sequence of changes of the language preference, each followed by \<open>retranslate\<close>.\<close>

definition change_languages ::
  "bool \<Rightarrow> bool \<Rightarrow> (string \<Rightarrow> bool) \<Rightarrow> string \<Rightarrow> language list \<Rightarrow> translators \<Rightarrow> translators" where
  "change_languages old_qt engine available loc ls s =
     run_events (\<lambda>s l. snd (retranslate old_qt engine available loc l s)) s ls"

lemma change_languages_inv [inv_intros]:
  assumes "translators_inv s"
  shows "translators_inv (change_languages old_qt engine available loc ls s)"
  unfolding change_languages_def
proof (rule run_events_invariant [where I = translators_inv, OF assms])
  fix s l
  assume "translators_inv s"
  then show "translators_inv (snd (retranslate old_qt engine available loc l s))"
    by (cases "old_qt \<and> engine") (auto simp: retranslate_step(1), simp add: retranslate_def)
qed

text \<open>
  whatever languages the user went through, the catalogue in force after choosing \<open>l\<close> is that
  of \<open>l\<close> alone, or none when it cannot be loaded (so that the sources' English shows), and the
  translators still allocated are exactly the installed ones: no stale translator, no leak and no
  deleted translator in the list. This holds where dynamic retranslation is compiled in, or
  before the QML engine exists.
\<close>

theorem last_language_in_force:
  assumes "\<not> (old_qt \<and> engine)"
  shows "in_force (change_languages old_qt engine available loc (ls @ [l]) no_translators) =
           (if available (resource_name (getSuffixFromLanguage loc l))
            then [resource_name (getSuffixFromLanguage loc l)] else [])
         \<and> live (change_languages old_qt engine available loc (ls @ [l]) no_translators) =
           installed (change_languages old_qt engine available loc (ls @ [l]) no_translators)"
proof -
  let ?s = "change_languages old_qt engine available loc ls no_translators"
  have inv: "translators_inv ?s" by (intro inv_intros)
  have step: "change_languages old_qt engine available loc (ls @ [l]) no_translators =
      snd (retranslate old_qt engine available loc l ?s)"
    by (simp add: change_languages_def)
  show ?thesis
    unfolding step using retranslate_step [OF inv assms] by (simp add: translators_inv_def)
qed

theorem last_language_in_force_witness:
  "in_force (change_languages False True (\<lambda>r. r \<noteq> '':/languages/qml_en'') ''C''
       ([LANG_DE, LANG_EN, LANG_FR] @ [LANG_ZH_CN]) no_translators) = ['':/languages/qml_zh_CN'']"
  using last_language_in_force [of False True "\<lambda>r. r \<noteq> '':/languages/qml_en''" "''C''"
      "[LANG_DE, LANG_EN, LANG_FR]" LANG_ZH_CN]
  by (simp add: resource_name_def)

end
