(* ===== verification/Pacer.thy ===== *)
theory Pacer
  imports Prelude "HOL-Library.Multiset" "HOL-Library.Sublist"
begin

text \<open>
  The frame pacer (\<open>src/app/streaming/video/ffmpeg-renderers/pacer/pacer.cpp\<close>): decoded frames pass
  through a pacing queue and a render queue, moved by the decoder thread, the V-sync thread, the
  render thread (or the main thread) and, at the end, the destructor. A step is what a thread does
  between two points where another can interfere: a region under \<open>m_FrameQueueLock\<close>, a wait, or a call
  made without the lock. A frame is its pointer, drawing and freeing it are histories.
\<close>

section \<open>State\<close>

type_synonym frame = nat

text \<open>Where each thread stands. \<open>R_deciding\<close> is inside the lock, before the wait gives it up.\<close>

datatype vsync_point =
    V_ready | V_entering | V_dropping frame nat | V_waiting | V_woken | V_waking | V_exited

datatype render_point =
    R_ready | R_deciding | R_waiting | R_woken | R_rendering frame | R_dropping frame nat | R_exited

datatype submit_point = S_ready | S_wake_pacing | S_wake_render

datatype destructor_point = D_alive | D_join_vsync | D_join_render | D_done

record pacer =
  m_RenderQueue :: "frame list"
  m_PacingQueue :: "frame list"
  m_PacingQueueHistory :: "nat list"
  m_RenderQueueHistory :: "nat list"
  m_DeferredFreeFrame :: "frame option"
  m_Stopping :: bool
  m_MaxVideoFps :: nat
  m_DisplayFps :: nat
  has_vsync_source :: bool
  has_render_thread :: bool
  no_buffering :: bool
  vsync_at :: vsync_point
  render_at :: render_point
  submit_at :: submit_point
  destructor_at :: destructor_point
  pacerDroppedFrames :: nat
  dequeued_empty :: bool
  submitted :: "frame list"
  rendered :: "frame list"
  freed :: "frame list"

definition MAX_QUEUED_FRAMES :: nat where "MAX_QUEUED_FRAMES = 3"
definition PACER_MAX_OUTSTANDING_FRAMES :: nat where "PACER_MAX_OUTSTANDING_FRAMES = 3 + 1 + 1"

text \<open>After \<open>initialize\<close>; \<open>vs\<close> and \<open>rt\<close> tell whether it found a V-sync source and made a render thread.\<close>

definition initialize :: "bool \<Rightarrow> bool \<Rightarrow> bool \<Rightarrow> nat \<Rightarrow> nat \<Rightarrow> pacer" where
  "initialize vs rt nb video display = \<lparr>m_RenderQueue = [], m_PacingQueue = [], m_PacingQueueHistory = [],
     m_RenderQueueHistory = [], m_DeferredFreeFrame = None, m_Stopping = False, m_MaxVideoFps = video,
     m_DisplayFps = display, has_vsync_source = vs, has_render_thread = rt, no_buffering = nb,
     vsync_at = (if vs then V_ready else V_exited), render_at = R_ready, submit_at = S_ready,
     destructor_at = D_alive, pacerDroppedFrames = 0, dequeued_empty = False, submitted = [],
     rendered = [], freed = []\<rparr>"

section \<open>Operations\<close>

definition dropFrameForEnqueue :: "frame list \<Rightarrow> frame list \<times> frame list" where
  "dropFrameForEnqueue q = (if length q = MAX_QUEUED_FRAMES then (tl q, [hd q]) else (q, []))"

definition enqueueFrameForRendering :: "frame \<Rightarrow> pacer \<Rightarrow> pacer" where
  "enqueueFrameForRendering f s =
     (let (q, d) = dropFrameForEnqueue (m_RenderQueue s)
      in s\<lparr>m_RenderQueue := q @ [f], freed := freed s @ d\<rparr>)"

text \<open>What it does once the lock is released: a wake-up, or an event that the main thread will handle.\<close>

definition wake_renderer :: "pacer \<Rightarrow> pacer" where
  "wake_renderer s =
     (if has_render_thread s \<and> render_at s = R_waiting then s\<lparr>render_at := R_woken\<rparr> else s)"

definition submitFrame :: "frame \<Rightarrow> pacer \<Rightarrow> pacer" where
  "submitFrame f s =
     (let s = s\<lparr>submitted := submitted s @ [f]\<rparr> in
      if has_vsync_source s
      then let (q, d) = dropFrameForEnqueue (m_PacingQueue s)
           in s\<lparr>m_PacingQueue := q @ [f], freed := freed s @ d, submit_at := S_wake_pacing\<rparr>
      else (enqueueFrameForRendering f s)\<lparr>submit_at := S_wake_render\<rparr>)"

definition submit_wakes :: "pacer \<Rightarrow> pacer" where
  "submit_wakes s =
     (case submit_at s of
        S_ready \<Rightarrow> s
      | S_wake_pacing \<Rightarrow>
          (if vsync_at s = V_waiting then s\<lparr>vsync_at := V_woken\<rparr> else s)\<lparr>submit_at := S_ready\<rparr>
      | S_wake_render \<Rightarrow> (wake_renderer s)\<lparr>submit_at := S_ready\<rparr>)"

text \<open>A rolling window; dequeuing from an empty queue is undefined behaviour and recorded.\<close>

definition remember :: "nat \<Rightarrow> nat \<Rightarrow> nat list \<Rightarrow> nat list" where
  "remember window n h = (if length h = window then tl h else h) @ [n]"

definition remember_fails :: "nat \<Rightarrow> nat list \<Rightarrow> bool" where
  "remember_fails window h \<longleftrightarrow> length h = window \<and> h = []"

definition place_first :: "pacer \<Rightarrow> pacer" where
  "place_first s =
     (case m_PacingQueue s of
        [] \<Rightarrow> s\<lparr>dequeued_empty := True\<rparr>
      | f # fs \<Rightarrow> (enqueueFrameForRendering f (s\<lparr>m_PacingQueue := fs\<rparr>))\<lparr>vsync_at := V_waking\<rparr>)"

text \<open>The loop of \<open>handleVsync\<close> up to the next release of the lock, and what follows the loop.\<close>

definition pacing_catch_up :: "nat \<Rightarrow> pacer \<Rightarrow> pacer" where
  "pacing_catch_up target s =
     (if target < length (m_PacingQueue s)
      then s\<lparr>m_PacingQueue := tl (m_PacingQueue s), vsync_at := V_dropping (hd (m_PacingQueue s)) target\<rparr>
      else if m_PacingQueue s = [] then s\<lparr>vsync_at := V_waiting\<rparr>
      else place_first s)"

definition pacing_target :: "pacer \<Rightarrow> nat" where
  "pacing_target s =
     (if m_DisplayFps s \<le> m_MaxVideoFps s \<and> (\<exists>n\<in>set (m_PacingQueueHistory s). n \<le> 1) then 3 else 1)"

definition handleVsync :: "pacer \<Rightarrow> pacer" where
  "handleVsync s =
     (let target = pacing_target s;
          s = (if m_DisplayFps s \<le> m_MaxVideoFps s
               then s\<lparr>m_PacingQueueHistory :=
                        remember (m_DisplayFps s div 2) (length (m_PacingQueue s)) (m_PacingQueueHistory s),
                      dequeued_empty := dequeued_empty s \<or>
                        remember_fails (m_DisplayFps s div 2) (m_PacingQueueHistory s)\<rparr>
               else s)
      in pacing_catch_up target s)"

definition drop_frame :: "frame \<Rightarrow> pacer \<Rightarrow> pacer" where
  "drop_frame f s = s\<lparr>pacerDroppedFrames := Suc (pacerDroppedFrames s), freed := freed s @ [f]\<rparr>"

text \<open>The V-sync thread, one step.\<close>

definition vsync_step :: "pacer \<Rightarrow> pacer" where
  "vsync_step s =
     (case vsync_at s of
        V_ready \<Rightarrow> s\<lparr>vsync_at := (if m_Stopping s then V_exited else V_entering)\<rparr>
      | V_entering \<Rightarrow> handleVsync s
      | V_dropping f target \<Rightarrow> pacing_catch_up target (drop_frame f s)
      | V_waiting \<Rightarrow> s
      | V_woken \<Rightarrow> if m_Stopping s then s\<lparr>vsync_at := V_ready\<rparr> else place_first s
      | V_waking \<Rightarrow> (wake_renderer s)\<lparr>vsync_at := V_ready\<rparr>
      | V_exited \<Rightarrow> s)"

definition vsync_timeout :: "pacer \<Rightarrow> pacer" where
  "vsync_timeout s = (if vsync_at s = V_waiting then s\<lparr>vsync_at := V_ready\<rparr> else s)"

text \<open>\<open>renderFrame\<close>, from the call of the renderer on.\<close>

definition begin_render :: "pacer \<Rightarrow> pacer" where
  "begin_render s =
     (case m_RenderQueue s of
        [] \<Rightarrow> s
      | f # fs \<Rightarrow> s\<lparr>m_RenderQueue := fs, render_at := R_rendering f, rendered := rendered s @ [f]\<rparr>)"

definition render_catch_up :: "nat \<Rightarrow> pacer \<Rightarrow> pacer" where
  "render_catch_up target s =
     (if target < length (m_RenderQueue s)
      then s\<lparr>m_RenderQueue := tl (m_RenderQueue s), render_at := R_dropping (hd (m_RenderQueue s)) target\<rparr>
      else s\<lparr>render_at := R_ready\<rparr>)"

definition render_target :: "pacer \<Rightarrow> nat" where
  "render_target s =
     (if no_buffering s then 1 else if 0 \<in> set (m_RenderQueueHistory s) then 2 else 0)"

definition finish_render :: "frame \<Rightarrow> pacer \<Rightarrow> pacer" where
  "finish_render f s =
     (let s = s\<lparr>m_DeferredFreeFrame := Some f,
                freed := freed s @ (case m_DeferredFreeFrame s of None \<Rightarrow> [] | Some g \<Rightarrow> [g])\<rparr>;
          target = render_target s;
          s = (if no_buffering s then s
               else s\<lparr>m_RenderQueueHistory :=
                        remember (m_MaxVideoFps s div 2) (length (m_RenderQueue s)) (m_RenderQueueHistory s),
                      dequeued_empty := dequeued_empty s \<or>
                        remember_fails (m_MaxVideoFps s div 2) (m_RenderQueueHistory s)\<rparr>)
      in render_catch_up target s)"

text \<open>The test of \<open>renderThread\<close>'s inner loop, with the lock held.\<close>

definition render_check :: "pacer \<Rightarrow> pacer" where
  "render_check s =
     (if m_Stopping s then s\<lparr>render_at := R_exited\<rparr>
      else if m_RenderQueue s = [] then s\<lparr>render_at := R_deciding\<rparr>
      else begin_render s)"

definition render_step :: "pacer \<Rightarrow> pacer" where
  "render_step s =
     (case render_at s of
        R_ready \<Rightarrow> if has_render_thread s then render_check s else s
      | R_deciding \<Rightarrow> s\<lparr>render_at := R_waiting\<rparr>
      | R_waiting \<Rightarrow> s
      | R_woken \<Rightarrow> render_check s
      | R_rendering f \<Rightarrow> finish_render f s
      | R_dropping f target \<Rightarrow> render_catch_up target (drop_frame f s)
      | R_exited \<Rightarrow> s)"

definition renderOnMainThread :: "pacer \<Rightarrow> pacer" where
  "renderOnMainThread s = (if has_render_thread s then s else begin_render s)"

text \<open>The destructor, up to each thread it waits for.\<close>

definition destructor_step :: "pacer \<Rightarrow> pacer" where
  "destructor_step s =
     (case destructor_at s of
        D_alive \<Rightarrow>
          s\<lparr>m_Stopping := True, destructor_at := D_join_vsync,
            vsync_at := (if vsync_at s = V_waiting then V_woken else vsync_at s)\<rparr>
      | D_join_vsync \<Rightarrow>
          if vsync_at s = V_exited then (wake_renderer s)\<lparr>destructor_at := D_join_render\<rparr> else s
      | D_join_render \<Rightarrow>
          if has_render_thread s \<and> render_at s \<noteq> R_exited then s
          else s\<lparr>m_RenderQueue := [], m_PacingQueue := [], m_DeferredFreeFrame := None,
                 freed := freed s @ m_RenderQueue s @ m_PacingQueue s
                   @ (case m_DeferredFreeFrame s of None \<Rightarrow> [] | Some g \<Rightarrow> [g]),
                 destructor_at := D_done\<rparr>
      | D_done \<Rightarrow> s)"

section \<open>Schedules\<close>

text \<open>
  Any interleaving of the threads. A step that would need the lock while another thread holds it, or
  that its thread cannot take, leaves the state unchanged. The decoder thread has ended before the
  destructor runs (\<open>FFmpegVideoDecoder::reset\<close>), and the main thread, which runs it, is not rendering.
\<close>

datatype pacer_event =
    Frame_decoded frame | Submit_wakes | Vsync_runs | Vsync_times_out | Render_runs | Frame_ready | Destroy

definition pacer_step :: "pacer \<Rightarrow> pacer_event \<Rightarrow> pacer" where
  "pacer_step s e =
     (if dequeued_empty s then s
      else case e of
        Frame_decoded f \<Rightarrow>
          if submit_at s = S_ready \<and> destructor_at s = D_alive \<and> render_at s \<noteq> R_deciding
          then submitFrame f s else s
      | Submit_wakes \<Rightarrow> submit_wakes s
      | Vsync_runs \<Rightarrow> if render_at s = R_deciding \<and> vsync_at s \<notin> {V_ready, V_waking} then s else vsync_step s
      | Vsync_times_out \<Rightarrow> if render_at s = R_deciding then s else vsync_timeout s
      | Render_runs \<Rightarrow> render_step s
      | Frame_ready \<Rightarrow>
          if render_at s = R_ready \<and> destructor_at s = D_alive then renderOnMainThread s else s
      | Destroy \<Rightarrow>
          if destructor_at s = D_alive \<and>
             (submit_at s \<noteq> S_ready \<or> \<not> has_render_thread s \<and> render_at s \<noteq> R_ready)
          then s else destructor_step s)"

section \<open>Which frames are held\<close>

definition vsync_holds :: "pacer \<Rightarrow> frame list" where
  "vsync_holds s = (case vsync_at s of V_dropping f _ \<Rightarrow> [f] | _ \<Rightarrow> [])"

definition render_holds :: "pacer \<Rightarrow> frame list" where
  "render_holds s = (case render_at s of R_rendering f \<Rightarrow> [f] | R_dropping f _ \<Rightarrow> [f] | _ \<Rightarrow> [])"

definition deferred :: "pacer \<Rightarrow> frame list" where
  "deferred s = (case m_DeferredFreeFrame s of None \<Rightarrow> [] | Some f \<Rightarrow> [f])"

definition held :: "pacer \<Rightarrow> frame list" where
  "held s = m_PacingQueue s @ vsync_holds s @ m_RenderQueue s @ render_holds s @ deferred s"

lemmas holds_defs = held_def vsync_holds_def render_holds_def deferred_def

text \<open>Every submitted frame is held or was freed, once; what is drawn and still to be drawn is in order.\<close>

definition accounted :: "pacer \<Rightarrow> bool" where
  "accounted s \<longleftrightarrow> mset (submitted s) = mset (freed s) + mset (held s)
     \<and> subseq (rendered s @ m_RenderQueue s @ m_PacingQueue s) (submitted s)"

lemma dropped_prefix: "dropFrameForEnqueue q = (q', d) \<Longrightarrow> q = d @ q'"
  by (cases q) (auto simp: dropFrameForEnqueue_def MAX_QUEUED_FRAMES_def split: if_splits)

lemma dropped_bound: "dropFrameForEnqueue q = (q', d) \<Longrightarrow> length q \<le> MAX_QUEUED_FRAMES \<Longrightarrow> length q' < MAX_QUEUED_FRAMES"
  by (auto simp: dropFrameForEnqueue_def MAX_QUEUED_FRAMES_def split: if_splits)

text \<open>Frames may leave the head of a queue without being drawn.\<close>

lemma subseq_skip: "subseq (a @ x @ b) c \<Longrightarrow> subseq (a @ b) c"
  by (meson subseq_append_le_same_iff subseq_order.trans list_emb_append2 list_emb_append_mono subseq_order.order_refl)


text \<open>
  The bounds of the queues, what the threads that exist can be doing, and that a thread which sleeps
  while its queue has a frame is about to be woken.
\<close>

definition pacer_ok :: "pacer \<Rightarrow> bool" where
  "pacer_ok s \<longleftrightarrow>
     length (m_PacingQueue s) \<le> MAX_QUEUED_FRAMES \<and> length (m_RenderQueue s) \<le> MAX_QUEUED_FRAMES
     \<and> (has_vsync_source s \<or> m_PacingQueue s = [] \<and> vsync_at s = V_exited)
     \<and> (has_render_thread s \<or> render_at s \<notin> {R_deciding, R_waiting, R_woken, R_exited})
     \<and> (render_at s = R_deciding \<longrightarrow> m_RenderQueue s = [])
     \<and> (render_at s = R_waiting \<and> m_RenderQueue s \<noteq> [] \<longrightarrow> submit_at s = S_wake_render \<or> vsync_at s = V_waking)
     \<and> (vsync_at s = V_waiting \<and> m_PacingQueue s \<noteq> [] \<longrightarrow> submit_at s = S_wake_pacing)
     \<and> (destructor_at s \<noteq> D_alive \<longrightarrow> submit_at s = S_ready \<and> m_Stopping s)
     \<and> (destructor_at s \<in> {D_join_render, D_done} \<longrightarrow> vsync_at s = V_exited)
     \<and> (destructor_at s \<noteq> D_alive \<and> \<not> has_render_thread s \<longrightarrow> render_at s = R_ready)
     \<and> (destructor_at s = D_done \<longrightarrow> (has_render_thread s \<longrightarrow> render_at s = R_exited) \<and> held s = [])
     \<and> (vsync_at s = V_exited \<and> has_vsync_source s \<longrightarrow> m_Stopping s)"

lemma enqueue_is:
  assumes "dropFrameForEnqueue (m_RenderQueue s) = (q, d)"
  shows "enqueueFrameForRendering f s = s\<lparr>m_RenderQueue := q @ [f], freed := freed s @ d\<rparr>"
  using assms by (simp add: enqueueFrameForRendering_def)

lemma enqueue_accounted:
  assumes "mset (submitted s) = mset (freed s) + mset (held s) + {#f#}"
    and "subseq (rendered s @ m_RenderQueue s @ f # m_PacingQueue s) (submitted s)"
  shows "accounted (enqueueFrameForRendering f s)"
proof -
  obtain q d where d: "dropFrameForEnqueue (m_RenderQueue s) = (q, d)" by force
  have "subseq (rendered s @ d @ q @ f # m_PacingQueue s) (submitted s)"
    using assms(2) dropped_prefix [OF d] by simp
  then have "subseq (rendered s @ q @ f # m_PacingQueue s) (submitted s)" by (rule subseq_skip)
  then show ?thesis
    unfolding enqueue_is [OF d]
    using assms(1) dropped_prefix [OF d] by (simp add: accounted_def holds_defs)
qed

text \<open>Only the threads' points and counters changed.\<close>

lemma accounted_cong:
  assumes "submitted s' = submitted s" "freed s' = freed s" "rendered s' = rendered s"
    "m_RenderQueue s' = m_RenderQueue s" "m_PacingQueue s' = m_PacingQueue s"
    "vsync_holds s' = vsync_holds s" "render_holds s' = render_holds s" "deferred s' = deferred s"
  shows "accounted s' = accounted s"
  using assms by (simp add: accounted_def held_def)

lemma wake_accounted [simp]: "accounted (wake_renderer s) = accounted s"
  by (simp add: accounted_def wake_renderer_def holds_defs)

lemma render_point_accounted:
  "render_holds s = [] \<Longrightarrow> render_holds (s\<lparr>render_at := p\<rparr>) = [] \<Longrightarrow> accounted (s\<lparr>render_at := p\<rparr>) = accounted s"
  by (rule accounted_cong) (simp_all add: vsync_holds_def deferred_def)

lemma submit_accounted:
  assumes "accounted s" and "pacer_ok s"
  shows "accounted (submitFrame f s)"
proof (cases "has_vsync_source s")
  case True
  obtain q d where d: "dropFrameForEnqueue (m_PacingQueue s) = (q, d)" by force
  have "subseq ((rendered s @ m_RenderQueue s) @ d @ q) (submitted s)"
    using assms(1) dropped_prefix [OF d] by (simp add: accounted_def)
  then have "subseq ((rendered s @ m_RenderQueue s) @ q) (submitted s)" by (rule subseq_skip)
  then have "subseq ((rendered s @ m_RenderQueue s @ q) @ [f]) (submitted s @ [f])"
    by (intro list_emb_append_mono) simp_all
  moreover have "submitFrame f s = s\<lparr>submitted := submitted s @ [f], m_PacingQueue := q @ [f],
      freed := freed s @ d, submit_at := S_wake_pacing\<rparr>"
    using True d by (simp add: submitFrame_def)
  ultimately show ?thesis
    using assms(1) dropped_prefix [OF d] by (simp add: accounted_def holds_defs)
next
  case False
  let ?s = "s\<lparr>submitted := submitted s @ [f]\<rparr>"
  have "subseq ((rendered s @ m_RenderQueue s) @ [f]) (submitted s @ [f])"
    using assms False by (intro list_emb_append_mono) (simp_all add: accounted_def pacer_ok_def)
  then have "accounted (enqueueFrameForRendering f ?s)"
    using assms False by (intro enqueue_accounted) (simp_all add: accounted_def pacer_ok_def holds_defs)
  moreover have "submitFrame f s = (enqueueFrameForRendering f ?s)\<lparr>submit_at := S_wake_render\<rparr>"
    using False by (simp add: submitFrame_def)
  ultimately show ?thesis
    using accounted_cong [of "(enqueueFrameForRendering f ?s)\<lparr>submit_at := S_wake_render\<rparr>" "enqueueFrameForRendering f ?s"]
    by (simp add: holds_defs)
qed

lemma place_accounted:
  assumes "accounted s" and "vsync_holds s = []"
  shows "accounted (place_first s)"
proof (cases "m_PacingQueue s")
  case (Cons f fs)
  let ?s = "s\<lparr>m_PacingQueue := fs\<rparr>"
  have "accounted (enqueueFrameForRendering f ?s)"
    using assms Cons by (intro enqueue_accounted) (simp_all add: accounted_def holds_defs)
  moreover obtain q d where d: "dropFrameForEnqueue (m_RenderQueue ?s) = (q, d)" by force
  ultimately show ?thesis
    using assms(2) Cons accounted_cong [of "(enqueueFrameForRendering f ?s)\<lparr>vsync_at := V_waking\<rparr>" "enqueueFrameForRendering f ?s"]
    by (simp add: place_first_def enqueue_is [OF d] vsync_holds_def render_holds_def deferred_def)
qed (use assms in \<open>simp add: place_first_def accounted_def holds_defs\<close>)

lemma pacing_accounted:
  assumes "accounted s" and "vsync_holds s = []"
  shows "accounted (pacing_catch_up target s)"
proof -
  have "subseq (rendered s @ m_RenderQueue s @ fs) (submitted s)" if "m_PacingQueue s = f # fs" for f fs
    using assms(1) that subseq_skip [of "rendered s @ m_RenderQueue s" "[f]" fs] by (simp add: accounted_def)
  then show ?thesis
    using assms place_accounted [OF assms]
    by (cases "m_PacingQueue s") (auto simp: pacing_catch_up_def accounted_def holds_defs)
qed

lemma begin_accounted:
  assumes "accounted s" and "render_holds s = []"
  shows "accounted (begin_render s)"
  using assms by (cases "m_RenderQueue s") (simp_all add: begin_render_def accounted_def holds_defs)

lemma render_accounted:
  assumes "mset (submitted s) = mset (freed s) + mset (m_PacingQueue s @ vsync_holds s @ m_RenderQueue s @ deferred s)"
    and "subseq (rendered s @ m_RenderQueue s @ m_PacingQueue s) (submitted s)"
  shows "accounted (render_catch_up target s)"
proof -
  have "subseq (rendered s @ fs @ m_PacingQueue s) (submitted s)" if "m_RenderQueue s = f # fs" for f fs
    using assms(2) that subseq_skip [of "rendered s" "[f]" "fs @ m_PacingQueue s"] by simp
  then show ?thesis
    using assms by (cases "m_RenderQueue s") (auto simp: render_catch_up_def accounted_def holds_defs)
qed

lemma drop_while_vsync:
  assumes "accounted s" and "vsync_at s = V_dropping f target"
  shows "accounted (pacing_catch_up target (drop_frame f s))"
proof -
  have "pacing_catch_up target (drop_frame f s) = pacing_catch_up target (drop_frame f s\<lparr>vsync_at := V_entering\<rparr>)"
    by (simp add: pacing_catch_up_def drop_frame_def place_first_def enqueueFrameForRendering_def split: list.split prod.split)
  moreover have "accounted (drop_frame f s\<lparr>vsync_at := V_entering\<rparr>)"
    using assms by (simp add: accounted_def drop_frame_def holds_defs)
  ultimately show ?thesis using pacing_accounted [of "drop_frame f s\<lparr>vsync_at := V_entering\<rparr>"]
    by (simp add: vsync_holds_def)
qed

lemma vsync_accounted: "accounted s \<Longrightarrow> accounted (vsync_step s)"
proof (cases "vsync_at s")
  case V_entering
  assume s: "accounted s"
  let ?s = "if m_DisplayFps s \<le> m_MaxVideoFps s
     then s\<lparr>m_PacingQueueHistory := remember (m_DisplayFps s div 2) (length (m_PacingQueue s)) (m_PacingQueueHistory s),
       dequeued_empty := dequeued_empty s \<or> remember_fails (m_DisplayFps s div 2) (m_PacingQueueHistory s)\<rparr>
     else s"
  have "accounted ?s" "vsync_holds ?s = []" using s V_entering by (simp_all add: accounted_def holds_defs)
  then show ?thesis using pacing_accounted by (simp add: vsync_step_def V_entering handleVsync_def Let_def)
next
  case V_woken
  assume s: "accounted s"
  then show ?thesis using place_accounted [OF s]
    by (auto simp: vsync_step_def V_woken vsync_holds_def accounted_def held_def render_holds_def deferred_def)
next
  case V_waking
  assume s: "accounted s"
  have "accounted ((wake_renderer s)\<lparr>vsync_at := V_ready\<rparr>) = accounted (wake_renderer s)"
    using V_waking by (intro accounted_cong) (simp_all add: wake_renderer_def holds_defs)
  then show ?thesis using s by (simp add: vsync_step_def V_waking)
qed (simp_all add: vsync_step_def drop_while_vsync, simp_all add: accounted_def holds_defs)

lemma finish_accounted:
  assumes "accounted s" and "render_at s = R_rendering f"
  shows "accounted (finish_render f s)"
  using assms unfolding finish_render_def Let_def
  by (intro render_accounted) (simp_all add: accounted_def holds_defs)

lemma render_step_accounted: "accounted s \<Longrightarrow> accounted (render_step s)"
proof (cases "render_at s")
  case (R_dropping f target)
  assume "accounted s"
  then have "accounted (render_catch_up target (drop_frame f s))"
    using R_dropping by (intro render_accounted) (simp_all add: accounted_def drop_frame_def holds_defs)
  then show ?thesis by (simp add: render_step_def R_dropping)
qed (simp_all add: render_step_def render_check_def finish_accounted begin_accounted render_point_accounted
      render_holds_def)

lemma submit_wakes_accounted [simp]: "accounted (submit_wakes s) = accounted s"
  by (rule accounted_cong)
    (simp_all add: submit_wakes_def wake_renderer_def holds_defs split: submit_point.split)

lemma destructor_accounted: "accounted s \<Longrightarrow> pacer_ok s \<Longrightarrow> accounted (destructor_step s)"
proof (cases "destructor_at s")
  case D_join_render
  assume s: "accounted s" "pacer_ok s"
  have "subseq (rendered s) (submitted s)"
    using s(1) subseq_skip [of "rendered s" "m_RenderQueue s @ m_PacingQueue s" "[]"] by (simp add: accounted_def)
  moreover have "vsync_holds s = []" "has_render_thread s \<and> render_at s \<noteq> R_exited \<or> render_holds s = []"
    using s(2) D_join_render by (auto simp: pacer_ok_def vsync_holds_def render_holds_def)
  ultimately show ?thesis
    using s(1) by (auto simp: destructor_step_def D_join_render accounted_def held_def vsync_holds_def render_holds_def
        deferred_def)
qed (auto simp: destructor_step_def wake_renderer_def accounted_def holds_defs)

lemma queue_bounds:
  "pacer_ok s \<Longrightarrow> length (m_PacingQueue s) \<le> MAX_QUEUED_FRAMES \<and> length (m_RenderQueue s) \<le> MAX_QUEUED_FRAMES"
  by (simp add: pacer_ok_def)

lemma wake_is:
  "pacer_ok s \<Longrightarrow> wake_renderer s = (if render_at s = R_waiting then s\<lparr>render_at := R_woken\<rparr> else s)"
  by (auto simp: pacer_ok_def wake_renderer_def)

lemma submit_ok:
  assumes "pacer_ok s" and "submit_at s = S_ready" "destructor_at s = D_alive" "render_at s \<noteq> R_deciding"
  shows "pacer_ok (submitFrame f s)"
proof (cases "has_vsync_source s")
  case True
  obtain q d where d: "dropFrameForEnqueue (m_PacingQueue s) = (q, d)" by force
  have "length q < MAX_QUEUED_FRAMES" using dropped_bound [OF d] assms(1) by (simp add: pacer_ok_def)
  moreover have "submitFrame f s = s\<lparr>submitted := submitted s @ [f], m_PacingQueue := q @ [f],
      freed := freed s @ d, submit_at := S_wake_pacing\<rparr>"
    using True d by (simp add: submitFrame_def)
  ultimately show ?thesis using assms True by (simp add: pacer_ok_def)
next
  case False
  obtain q d where d: "dropFrameForEnqueue (m_RenderQueue s) = (q, d)" by force
  have "length q < MAX_QUEUED_FRAMES" using dropped_bound [OF d] assms(1) by (simp add: pacer_ok_def)
  moreover have "submitFrame f s = s\<lparr>submitted := submitted s @ [f], m_RenderQueue := q @ [f],
      freed := freed s @ d, submit_at := S_wake_render\<rparr>"
    using False d by (simp add: submitFrame_def enqueueFrameForRendering_def)
  ultimately show ?thesis using assms False by (simp add: pacer_ok_def)
qed

lemma submit_wakes_ok: "pacer_ok s \<Longrightarrow> pacer_ok (submit_wakes s)"
  by (cases "submit_at s"; cases "render_at s = R_waiting"; cases "vsync_at s = V_waiting")
    (simp_all add: submit_wakes_def wake_is, simp_all add: pacer_ok_def holds_defs)

lemma place_ok:
  assumes "pacer_ok s" and "vsync_at s \<notin> {V_exited, V_waiting}" "render_at s \<noteq> R_deciding"
  shows "pacer_ok (place_first s)"
proof (cases "m_PacingQueue s")
  case (Cons f fs)
  obtain q d where d: "dropFrameForEnqueue (m_RenderQueue s) = (q, d)" by force
  have "length q < MAX_QUEUED_FRAMES" using dropped_bound [OF d] assms(1) by (simp add: pacer_ok_def)
  moreover have "place_first s = s\<lparr>m_PacingQueue := fs, m_RenderQueue := q @ [f], freed := freed s @ d,
      vsync_at := V_waking\<rparr>"
    using Cons d by (simp add: place_first_def enqueueFrameForRendering_def)
  ultimately show ?thesis using assms Cons by (auto simp: pacer_ok_def)
qed (use assms in \<open>simp add: place_first_def pacer_ok_def holds_defs\<close>)

lemma catch_up_ok:
  assumes "pacer_ok s" and "vsync_at s \<notin> {V_exited, V_waiting, V_waking}" "render_at s \<noteq> R_deciding"
  shows "pacer_ok (pacing_catch_up target s)"
proof -
  have "destructor_at s \<noteq> D_done" "destructor_at s \<noteq> D_join_render" "has_vsync_source s"
    using assms(1, 2) by (auto simp: pacer_ok_def)
  note facts = this assms
  consider "target < length (m_PacingQueue s)" | "m_PacingQueue s = []"
    | "\<not> target < length (m_PacingQueue s)" "m_PacingQueue s \<noteq> []" by auto
  then show ?thesis
  proof cases
    case 1
    then have "pacing_catch_up target s =
        s\<lparr>m_PacingQueue := tl (m_PacingQueue s), vsync_at := V_dropping (hd (m_PacingQueue s)) target\<rparr>"
      by (simp add: pacing_catch_up_def)
    moreover have "length (m_PacingQueue s) - Suc 0 \<le> MAX_QUEUED_FRAMES" using queue_bounds [OF assms(1)] by linarith
    ultimately show ?thesis using facts by (simp add: pacer_ok_def)
  next
    case 2
    then have "pacing_catch_up target s = s\<lparr>vsync_at := V_waiting\<rparr>" by (simp add: pacing_catch_up_def)
    then show ?thesis using facts 2 by (simp add: pacer_ok_def)
  next
    case 3
    then have "pacing_catch_up target s = place_first s" by (simp add: pacing_catch_up_def)
    then show ?thesis using place_ok [of s] facts by simp
  qed
qed

lemma vsync_ok:
  assumes "pacer_ok s" and "render_at s = R_deciding \<Longrightarrow> vsync_at s \<in> {V_ready, V_waking}"
  shows "pacer_ok (vsync_step s)"
proof (cases "vsync_at s")
  case V_entering
  let ?s = "if m_DisplayFps s \<le> m_MaxVideoFps s
     then s\<lparr>m_PacingQueueHistory := remember (m_DisplayFps s div 2) (length (m_PacingQueue s)) (m_PacingQueueHistory s),
       dequeued_empty := dequeued_empty s \<or> remember_fails (m_DisplayFps s div 2) (m_PacingQueueHistory s)\<rparr>
     else s"
  have "pacer_ok ?s" "vsync_at ?s = V_entering" "render_at ?s \<noteq> R_deciding"
    using assms V_entering by (auto simp: pacer_ok_def holds_defs)
  then show ?thesis using catch_up_ok [of ?s] by (simp add: vsync_step_def V_entering handleVsync_def Let_def)
next
  case (V_dropping f target)
  have "pacer_ok (drop_frame f s)" "vsync_at (drop_frame f s) = V_dropping f target" "render_at (drop_frame f s) \<noteq> R_deciding"
    using assms V_dropping by (auto simp: pacer_ok_def drop_frame_def holds_defs)
  then show ?thesis by (simp add: vsync_step_def V_dropping catch_up_ok)
next
  case V_waking
  then show ?thesis using assms(1)
    by (cases "render_at s = R_waiting") (simp_all add: vsync_step_def wake_is, simp_all add: pacer_ok_def holds_defs)
next
  case V_woken
  show ?thesis
  proof (cases "m_Stopping s")
    case True
    then show ?thesis using assms(1) V_woken by (simp add: vsync_step_def pacer_ok_def holds_defs)
  qed (use assms V_woken place_ok [of s] in \<open>auto simp: vsync_step_def\<close>)
qed (use assms in \<open>simp_all add: vsync_step_def pacer_ok_def holds_defs\<close>)

lemma render_catch_up_ok:
  assumes "pacer_ok s" and "render_at s \<notin> {R_deciding, R_waiting}" "destructor_at s = D_alive \<or> has_render_thread s"
    "destructor_at s \<noteq> D_done"
  shows "pacer_ok (render_catch_up target s)"
proof (cases "target < length (m_RenderQueue s)")
  case True
  then have "render_catch_up target s =
      s\<lparr>m_RenderQueue := tl (m_RenderQueue s), render_at := R_dropping (hd (m_RenderQueue s)) target\<rparr>"
    by (simp add: render_catch_up_def)
  moreover have "length (m_RenderQueue s) - Suc 0 \<le> MAX_QUEUED_FRAMES" using queue_bounds [OF assms(1)] by linarith
  ultimately show ?thesis using assms by (simp add: pacer_ok_def)
next
  case False
  then have "render_catch_up target s = s\<lparr>render_at := R_ready\<rparr>" by (simp add: render_catch_up_def)
  then show ?thesis using assms by (simp add: pacer_ok_def)
qed

lemma render_check_ok:
  assumes "pacer_ok s" and "has_render_thread s" "render_at s \<in> {R_ready, R_woken}"
  shows "pacer_ok (render_check s)"
  using assms by (cases "m_RenderQueue s") (auto simp: render_check_def begin_render_def pacer_ok_def)

lemma render_ok:
  assumes "pacer_ok s"
  shows "pacer_ok (render_step s)"
proof (cases "render_at s")
  case (R_rendering f)
  have d: "destructor_at s = D_alive \<or> has_render_thread s" "destructor_at s \<noteq> D_done"
    using assms R_rendering by (auto simp: pacer_ok_def holds_defs)
  then show ?thesis
    unfolding render_step_def finish_render_def Let_def R_rendering render_point.case
    using assms R_rendering by (intro render_catch_up_ok) (auto simp: pacer_ok_def holds_defs)
next
  case (R_dropping f target)
  have d: "destructor_at s = D_alive \<or> has_render_thread s" "destructor_at s \<noteq> D_done"
    using assms R_dropping by (auto simp: pacer_ok_def holds_defs)
  then show ?thesis
    unfolding render_step_def R_dropping render_point.case drop_frame_def
    using assms R_dropping by (intro render_catch_up_ok) (auto simp: pacer_ok_def holds_defs)
next
  case R_deciding
  then have "render_step s = s\<lparr>render_at := R_waiting\<rparr>" "has_render_thread s" "m_RenderQueue s = []"
    using assms by (simp_all add: render_step_def pacer_ok_def)
  then show ?thesis using assms R_deciding by (simp add: pacer_ok_def)
next
  case R_woken
  then have "has_render_thread s" using assms by (simp add: pacer_ok_def)
  then show ?thesis using assms render_check_ok [of s] by (simp add: render_step_def R_woken)
qed (use assms render_check_ok [of s] in \<open>simp_all add: render_step_def\<close>)

lemma main_render_ok:
  assumes "pacer_ok s" and "render_at s = R_ready" "destructor_at s = D_alive"
  shows "pacer_ok (renderOnMainThread s)"
  using assms by (cases "m_RenderQueue s") (auto simp: renderOnMainThread_def begin_render_def pacer_ok_def)

lemma destructor_ok:
  assumes "pacer_ok s"
    and "destructor_at s = D_alive \<Longrightarrow> submit_at s = S_ready \<and> (has_render_thread s \<or> render_at s = R_ready)"
  shows "pacer_ok (destructor_step s)"
proof (cases "destructor_at s")
  case D_join_render
  have "vsync_at s = V_exited" "has_render_thread s \<or> render_at s = R_ready"
    using assms(1) D_join_render by (auto simp: pacer_ok_def)
  then show ?thesis using assms(1) D_join_render
    by (auto simp: destructor_step_def pacer_ok_def holds_defs)
next
  case D_join_vsync
  then show ?thesis using assms(1) by (auto simp: destructor_step_def pacer_ok_def wake_renderer_def)
next
  case D_alive
  then show ?thesis using assms by (auto simp: destructor_step_def pacer_ok_def)
qed (use assms(1) in \<open>simp add: destructor_step_def\<close>)

lemma timeout_ok: "pacer_ok s \<Longrightarrow> render_at s \<noteq> R_deciding \<Longrightarrow> pacer_ok (vsync_timeout s)"
  by (cases "vsync_at s = V_waiting") (simp_all add: vsync_timeout_def pacer_ok_def holds_defs)

lemma step_ok:
  assumes "pacer_ok s"
  shows "pacer_ok (pacer_step s e)"
  using assms submit_ok [of s] submit_wakes_ok [of s] vsync_ok [of s] timeout_ok [of s] render_ok [of s]
    main_render_ok [of s] destructor_ok [of s]
  by (cases e) (simp_all add: pacer_step_def)

lemma step_accounted:
  assumes "accounted s" and "pacer_ok s"
  shows "accounted (pacer_step s e)"
proof -
  have "accounted (vsync_timeout s)" using assms(1) by (auto simp: vsync_timeout_def accounted_def holds_defs)
  moreover have "accounted (renderOnMainThread s)" if "render_at s = R_ready"
    using that assms(1) by (simp add: renderOnMainThread_def begin_accounted render_holds_def)
  ultimately show ?thesis
    using assms by (cases e)
      (auto simp: pacer_step_def submit_accounted vsync_accounted render_step_accounted destructor_accounted)
qed

lemma pacer_run:
  assumes "s = run_events pacer_step (initialize vs rt nb video display) es"
  shows "pacer_ok s" and "accounted s"
proof -
  let ?ok = "\<lambda>s. pacer_ok s \<and> accounted s"
  have "?ok (initialize vs rt nb video display)"
    by (simp add: pacer_ok_def accounted_def initialize_def holds_defs MAX_QUEUED_FRAMES_def)
  then have "?ok s"
    unfolding assms by (rule run_events_invariant) (simp add: step_ok step_accounted)
  then show "pacer_ok s" "accounted s" by simp_all
qed

text \<open>What \<open>initialize\<close> found never changes.\<close>

lemma same_setup:
  "has_vsync_source (pacer_step s e) = has_vsync_source s"
  by (cases e)
    (simp_all add: pacer_step_def submitFrame_def Let_def enqueueFrameForRendering_def submit_wakes_def wake_renderer_def
      vsync_step_def handleVsync_def pacing_catch_up_def place_first_def vsync_timeout_def render_step_def render_check_def
      begin_render_def finish_render_def render_catch_up_def drop_frame_def renderOnMainThread_def destructor_step_def
      split: prod.split list.split vsync_point.split render_point.split submit_point.split destructor_point.split)

lemma run_same_setup:
  "has_vsync_source (run_events pacer_step s es) = has_vsync_source s"
  by (induction es arbitrary: s) (simp_all add: same_setup)

section \<open>Properties\<close>

text \<open>The render thread has just found its queue empty when the destructor starts.\<close>

definition stopped_early :: pacer where
  "stopped_early =
     run_events pacer_step (initialize False True False 60 60) [Render_runs, Destroy, Destroy, Render_runs]"

text \<open>Frames with their wake-ups, V-sync pulses that move one frame, and a renderer that stays in its second frame.\<close>

definition pool_run :: "pacer_event list" where
  "pool_run =
     (let frame = (\<lambda>n. [Frame_decoded n, Submit_wakes]); vsync = [Vsync_runs, Vsync_runs, Vsync_runs]
      in frame 1 @ vsync @ [Render_runs, Render_runs]
         @ frame 2 @ vsync @ [Render_runs]
         @ frame 3 @ vsync @ frame 4 @ vsync @ frame 5 @ vsync
         @ frame 6 @ frame 7 @ frame 8 @ [Vsync_runs, Vsync_runs] @ frame 9)"

text \<open>
  C4: Whatever the threads do, every decoded frame is in exactly one place or was freed exactly once:
  none is lost, freed twice or freed while the renderer draws it; after the destructor all are freed.
\<close>
theorem pacer_frames_accounted:
  assumes "s = run_events pacer_step (initialize vs rt nb video display) es" and "distinct (submitted s)"
  shows "distinct (freed s @ held s) \<and> set (freed s @ held s) = set (submitted s)
    \<and> (render_at s = R_rendering f \<longrightarrow> f \<notin> set (freed s))
    \<and> (destructor_at s = D_done \<longrightarrow> set (freed s) = set (submitted s))"
proof -
  note run = pacer_run [OF assms(1)]
  have m: "mset (freed s @ held s) = mset (submitted s)" using run(2) by (simp add: accounted_def)
  then have d: "distinct (freed s @ held s)" and e: "set (freed s @ held s) = set (submitted s)"
    using assms(2) by (metis mset_eq_imp_distinct_iff, metis mset_eq_setD)
  have "f \<in> set (held s)" if "render_at s = R_rendering f" using that by (simp add: holds_defs)
  moreover have "held s = []" if "destructor_at s = D_done" using that run(1) by (simp add: pacer_ok_def)
  ultimately show ?thesis using d e by auto
qed

text \<open>C31: Frames are drawn in the order in which they were decoded, each at most once.\<close>
theorem pacer_draws_in_order:
  "subseq (rendered (run_events pacer_step (initialize vs rt nb video display) es))
     (submitted (run_events pacer_step (initialize vs rt nb video display) es))"
proof -
  let ?s = "run_events pacer_step (initialize vs rt nb video display) es"
  have "subseq (rendered ?s @ (m_RenderQueue ?s @ m_PacingQueue ?s) @ []) (submitted ?s)"
    using pacer_run(2) [OF refl] by (simp add: accounted_def)
  then have "subseq (rendered ?s @ []) (submitted ?s)" by (rule subseq_skip)
  then show ?thesis by simp
qed

text \<open>
  Without a V-sync source the pacer never holds more frames than the decoder's pool reserves for
  it; with one it may hold nine, four more.
\<close>
theorem pacer_holds_at_most:
  "length (held (run_events pacer_step (initialize vs rt nb video display) es))
     \<le> (if vs then PACER_MAX_OUTSTANDING_FRAMES + 4 else PACER_MAX_OUTSTANDING_FRAMES)"
proof -
  let ?s = "run_events pacer_step (initialize vs rt nb video display) es"
  have ok: "pacer_ok ?s" by (rule pacer_run [OF refl])
  have vs: "has_vsync_source ?s = vs" by (simp add: run_same_setup initialize_def)
  have one: "length (vsync_holds ?s) \<le> 1" "length (render_holds ?s) \<le> 1" "length (deferred ?s) \<le> 1"
    by (simp_all add: vsync_holds_def render_holds_def deferred_def split: vsync_point.split render_point.split option.split)
  have none: "m_PacingQueue ?s = [] \<and> vsync_holds ?s = []" if "\<not> vs"
    using ok vs that by (simp add: pacer_ok_def vsync_holds_def)
  show ?thesis
    using queue_bounds [OF ok] one none
    by (cases vs) (simp_all add: held_def MAX_QUEUED_FRAMES_def PACER_MAX_OUTSTANDING_FRAMES_def)
qed


text \<open>
  A 30 frames per second stream on a 60 Hz display and a renderer that blocks: the pacer holds
  nine frames, more than the decoder's pool reserves for it.
\<close>
theorem pacer_exceeds_pool:
  "length (held (run_events pacer_step (initialize True True False 30 60) pool_run)) = 9
   \<and> PACER_MAX_OUTSTANDING_FRAMES = 5"
  by code_simp

text \<open>
  A sleeping thread is never forgotten: if the render thread sleeps while the render queue has a
  frame, or the V-sync thread while the pacing queue has one, some thread is about to wake it.
\<close>
theorem pacer_wakes_follow:
  assumes "s = run_events pacer_step (initialize vs rt nb video display) es"
  shows "(render_at s = R_waiting \<and> m_RenderQueue s \<noteq> [] \<longrightarrow> submit_at s = S_wake_render \<or> vsync_at s = V_waking)
    \<and> (vsync_at s = V_waiting \<and> m_PacingQueue s \<noteq> [] \<longrightarrow> submit_at s = S_wake_pacing)"
  using pacer_run(1) [OF assms] by (simp add: pacer_ok_def)

text \<open>
  The V-sync thread trusts its wake-up. One that comes late, after the frame it announced has been
  taken, makes it take a frame from the empty pacing queue.
\<close>
theorem pacer_stale_wake:
  "dequeued_empty (run_events pacer_step (initialize True True False 60 60)
     ([Frame_decoded 1] @ [Vsync_runs, Vsync_runs, Vsync_runs] @ [Vsync_runs, Vsync_runs]
      @ [Submit_wakes, Vsync_runs]))"
  by code_simp

text \<open>
  The destructor does not take the lock. If it runs between the render thread's test and its wait,
  its wake-up is lost: the render thread sleeps and the destructor waits for it, forever.
\<close>
theorem pacer_stop_hangs:
  "run_events pacer_step stopped_early es = stopped_early
   \<and> destructor_at stopped_early = D_join_render \<and> render_at stopped_early = R_waiting"
proof -
  have s: "\<not> dequeued_empty stopped_early" "destructor_at stopped_early = D_join_render"
    "render_at stopped_early = R_waiting" "vsync_at stopped_early = V_exited"
    "submit_at stopped_early = S_ready" "has_render_thread stopped_early"
    by code_simp+
  have "pacer_step stopped_early e = stopped_early" for e
    using s by (cases e) (simp_all add: pacer_step_def submit_wakes_def vsync_step_def vsync_timeout_def render_step_def
        destructor_step_def)
  then have "run_events pacer_step stopped_early es = stopped_early" by (induction es) simp_all
  then show ?thesis using s by blast
qed

section \<open>Concrete runs\<close>

definition one_frame :: pacer where
  "one_frame = run_events pacer_step (initialize False True False 60 60)
     [Frame_decoded 1, Submit_wakes, Render_runs, Render_runs, Destroy, Destroy, Render_runs, Destroy]"

theorem pacer_frames_accounted_witness: "set (freed one_frame) = {1}"
proof -
  have "submitted one_frame = [1]" by code_simp
  moreover have "destructor_at one_frame = D_done" by code_simp
  ultimately show ?thesis using pacer_frames_accounted [OF one_frame_def] by simp
qed

definition waiting_renderer :: pacer where
  "waiting_renderer = run_events pacer_step (initialize False True False 60 60)
     [Render_runs, Render_runs, Frame_decoded 1]"

theorem pacer_wakes_follow_witness: "submit_at waiting_renderer = S_wake_render"
proof -
  have "render_at waiting_renderer = R_waiting" by code_simp
  moreover have "m_RenderQueue waiting_renderer = [1]" by code_simp
  moreover have "vsync_at waiting_renderer = V_exited" by code_simp
  ultimately show ?thesis using pacer_wakes_follow [OF waiting_renderer_def] by simp
qed

end
