(* ===== verification/Pairing.thy ===== *)
theory Pairing
  imports TextOps
begin

text \<open>
  Pairing with a host (\<open>NvPairingManager::pair\<close> in \<open>src/app/backend/nvpairingmanager.cpp\<close>, \<open>parseQuad\<close> in
  \<open>nvhttp.cpp\<close>): five requests that prove to each side that the other knows the PIN and holds the key
  of its certificate. Cryptography, certificates, hexadecimal text and the network are parameters.
\<close>

section \<open>Parameters\<close>

text \<open>
  \<open>sha True\<close> is SHA-256, \<open>sha False\<close> SHA-1; the AES functions take a key of 16 bytes; \<open>behind\<close> is what
  lies in memory behind a byte array and its terminating zero.
\<close>

record crypto =
  sha :: "bool \<Rightarrow> bytes \<Rightarrow> bytes"
  aes_encrypt :: "bytes \<Rightarrow> bytes \<Rightarrow> bytes"
  aes_decrypt :: "bytes \<Rightarrow> bytes \<Rightarrow> bytes"
  cert_signature :: "bytes \<Rightarrow> bytes"
  verify_with :: "bytes \<Rightarrow> bytes \<Rightarrow> bytes \<Rightarrow> bool"
  sign_message :: "bytes \<Rightarrow> bytes"
  client_cert :: bytes
  parse_cert :: "bytes \<Rightarrow> bytes option"
  pin_bytes :: "string \<Rightarrow> bytes"
  behind :: bytes
  number_of :: "string \<Rightarrow> int"

text \<open>A host's answer: its status and what \<open>getXmlString\<close> and \<open>getXmlStringFromHex\<close> give.\<close>

record pair_answer =
  status_ok :: bool
  text_of :: "string \<Rightarrow> string"
  hex_of :: "string \<Rightarrow> bytes"

datatype pair_request =
    Get_server_cert bytes bytes
  | Client_challenge bytes
  | Server_challenge_resp bytes
  | Client_pairing_secret bytes
  | Pair_challenge bytes
  | Unpair

datatype pair_result = PAIRED | PIN_WRONG | FAILED | ALREADY_IN_PROGRESS

datatype pair_outcome = Pair_returned pair_result | Pair_threw | Index_out_of_range

record pair_run =
  requests :: "pair_request list"
  overread :: bool
  pinned :: "bytes option"
  saved_pairname :: "string option"

text \<open>The network: the answer to the last of the requests so far, or an error.\<close>

type_synonym pair_host = "pair_request list \<Rightarrow> pair_answer option"

section \<open>The protocol\<close>

definition parseQuad :: "crypto \<Rightarrow> string \<Rightarrow> int list" where
  "parseQuad q quad = (if quad = [] then [] else map (number_of q) (split_on (CHR ''.'') quad))"

text \<open>\<open>n\<close> bytes read from the start of an array, and whether that leaves it.\<close>

definition read_from :: "crypto \<Rightarrow> nat \<Rightarrow> bytes \<Rightarrow> bytes" where
  "read_from q n xs = take n (xs @ 0 # behind q)"

definition reads_beyond :: "nat \<Rightarrow> bytes \<Rightarrow> bool" where
  "reads_beyond n xs \<longleftrightarrow> length xs + 1 < n"

text \<open>The key: a byte array made from a pointer to characters ends before the first zero.\<close>

definition aes_key :: "crypto \<Rightarrow> bool \<Rightarrow> bytes \<Rightarrow> bytes" where
  "aes_key q sha256 saltedPin = take 16 (takeWhile (\<lambda>b. b \<noteq> 0) (sha q sha256 saltedPin))"

definition encrypt :: "crypto \<Rightarrow> bytes \<Rightarrow> bytes \<Rightarrow> bytes" where
  "encrypt q plaintext key = (if plaintext = [] then [] else aes_encrypt q (read_from q 16 key) plaintext)"

definition decrypt :: "crypto \<Rightarrow> bytes \<Rightarrow> bytes \<Rightarrow> bytes" where
  "decrypt q ciphertext key = (if ciphertext = [] then [] else aes_decrypt q (read_from q 16 key) ciphertext)"

text \<open>\<open>resize(32)\<close>; bytes it adds are unspecified and taken from \<open>behind\<close>.\<close>

definition resize32 :: "crypto \<Rightarrow> bytes \<Rightarrow> bytes" where
  "resize32 q xs = take 32 (xs @ behind q)"

definition ask :: "pair_host \<Rightarrow> pair_request \<Rightarrow> pair_run \<Rightarrow> pair_answer option \<times> pair_run" where
  "ask host r s =
     (let s = s\<lparr>requests := requests s @ [r]\<rparr> in (host (requests s), s))"

definition fail_with :: "pair_host \<Rightarrow> pair_result \<Rightarrow> pair_run \<Rightarrow> pair_outcome \<times> pair_run" where
  "fail_with host st s =
     (case ask host Unpair s of
        (None, s) \<Rightarrow> (Pair_threw, s)
      | (Some _, s) \<Rightarrow> (Pair_returned st, s))"

text \<open>The stages after the first: the request, the check of its status and of \<open>paired\<close>.\<close>

definition stage ::
  "pair_host \<Rightarrow> pair_request \<Rightarrow> (pair_answer \<Rightarrow> pair_run \<Rightarrow> pair_outcome \<times> pair_run) \<Rightarrow> pair_run
     \<Rightarrow> pair_outcome \<times> pair_run" where
  "stage host r rest s =
     (case ask host r s of
        (None, s) \<Rightarrow> (Pair_threw, s)
      | (Some xml, s) \<Rightarrow>
          if \<not> status_ok xml then (Pair_threw, s)
          else if text_of xml ''paired'' \<noteq> ''1'' then fail_with host FAILED s
          else rest xml s)"

definition check_server_secret ::
  "crypto \<Rightarrow> bool \<Rightarrow> bytes \<Rightarrow> bytes \<Rightarrow> bytes \<Rightarrow> bytes \<Rightarrow> bytes \<Rightarrow> pair_result option" where
  "check_server_secret q sha256 cert challenge serverResponse serverSecret serverSignature =
     (if \<not> verify_with q serverSecret serverSignature cert then Some FAILED
      else if sha q sha256 (challenge @ cert_signature q cert @ serverSecret) \<noteq> serverResponse
      then Some PIN_WRONG
      else None)"

definition last_stages :: "crypto \<Rightarrow> pair_host \<Rightarrow> bytes \<Rightarrow> bytes \<Rightarrow> pair_run \<Rightarrow> pair_outcome \<times> pair_run" where
  "last_stages q host cert secret =
     stage host (Client_pairing_secret (secret @ sign_message q secret))
       (\<lambda>_. stage host (Pair_challenge cert) (\<lambda>_ s. (Pair_returned PAIRED, s)))"

text \<open>From the answer to the challenge on.\<close>

definition response_stages ::
  "crypto \<Rightarrow> pair_host \<Rightarrow> bool \<Rightarrow> bytes \<Rightarrow> bytes \<Rightarrow> bytes \<Rightarrow> bytes \<Rightarrow> bytes \<Rightarrow> pair_answer \<Rightarrow> pair_run
     \<Rightarrow> pair_outcome \<times> pair_run" where
  "response_stages q host sha256 key plaincert cert challenge secret xml s =
     (let hashLength = (if sha256 then 32 else 20);
          data = decrypt q (hex_of xml ''challengeresponse'') key
      in if length data < hashLength then fail_with host FAILED s
      else
        let serverResponse = take hashLength data;
            serverChallenge = read_from q 16 (drop hashLength data);
            s = s\<lparr>overread := overread s \<or> reads_beyond 16 (drop hashLength data)\<rparr>;
            challengeResponse = serverChallenge @ cert_signature q (client_cert q) @ secret;
            paddedHash = resize32 q (sha q sha256 challengeResponse)
        in stage host (Server_challenge_resp (encrypt q paddedHash key))
             (\<lambda>xml s.
                let pairingSecret = hex_of xml ''pairingsecret'' in
                if length pairingSecret \<le> 16 then fail_with host FAILED s
                else
                  let serverSecret = take 16 pairingSecret; serverSignature = drop 16 pairingSecret in
                  case check_server_secret q sha256 plaincert challenge serverResponse serverSecret serverSignature of
                    Some st \<Rightarrow> fail_with host st s
                  | None \<Rightarrow> last_stages q host cert secret s) s)"

text \<open>
  \<open>pair\<close>: \<open>salt\<close>, \<open>challenge\<close> and \<open>secret\<close> are the random bytes. The last component is the host's
  certificate afterwards.
\<close>

definition pair ::
  "crypto \<Rightarrow> pair_host \<Rightarrow> string \<Rightarrow> string \<Rightarrow> bytes \<Rightarrow> bytes \<Rightarrow> bytes \<Rightarrow> bytes \<Rightarrow> pair_outcome \<times> pair_run \<times> bytes" where
  "pair q host appVersion pin salt challenge secret serverCert =
     (let s = \<lparr>requests = [], overread = False, pinned = None, saved_pairname = None\<rparr> in
      case parseQuad q appVersion of
        [] \<Rightarrow> (Index_out_of_range, s, serverCert)
      | serverMajorVersion # _ \<Rightarrow>
        let sha256 = (serverMajorVersion \<ge> 7);
            key = aes_key q sha256 (salt @ pin_bytes q pin)
        in case ask host (Get_server_cert salt (client_cert q)) s of
             (None, s) \<Rightarrow> (Pair_threw, s, serverCert)
           | (Some xml, s) \<Rightarrow>
               if \<not> status_ok xml then (Pair_threw, s, serverCert)
               else if text_of xml ''paired'' \<noteq> ''1'' then (Pair_returned FAILED, s, serverCert)
               else
                 let plaincert = hex_of xml ''plaincert'' in
                 if plaincert = [] then (case fail_with host ALREADY_IN_PROGRESS s of (r, s) \<Rightarrow> (r, s, serverCert))
                 else case parse_cert q plaincert of
                   None \<Rightarrow> (case fail_with host FAILED s of (r, s) \<Rightarrow> (r, s, serverCert))
                 | Some cert \<Rightarrow>
                     let name = text_of xml ''pairname'';
                         s = (if name \<noteq> [] then s\<lparr>saved_pairname := Some name\<rparr> else s);
                         s = s\<lparr>pinned := Some cert, overread := reads_beyond 16 key\<rparr>
                     in case stage host (Client_challenge (encrypt q challenge key))
                               (response_stages q host sha256 key plaincert cert challenge secret) s of
                          (r, s) \<Rightarrow> (r, s, if r = Pair_returned PAIRED then cert else serverCert))"

section \<open>What each stage can do\<close>

lemma fail_with_cases:
  "fail_with host st s = (r, s') \<Longrightarrow>
     s' = s\<lparr>requests := requests s @ [Unpair]\<rparr> \<and> (r = Pair_threw \<or> r = Pair_returned st)"
  by (auto simp: fail_with_def ask_def Let_def split: option.splits)

lemma stage_cases:
  assumes "stage host r rest s = (o', s')"
  obtains
    (Threw) "o' = Pair_threw" "s' = s\<lparr>requests := requests s @ [r]\<rparr>"
  | (Refused) "fail_with host FAILED (s\<lparr>requests := requests s @ [r]\<rparr>) = (o', s')"
  | (Went_on) xml where "host (requests s @ [r]) = Some xml" "status_ok xml" "text_of xml ''paired'' = ''1''"
      "rest xml (s\<lparr>requests := requests s @ [r]\<rparr>) = (o', s')"
proof (cases "host (requests s @ [r])")
  case None
  then show ?thesis using assms Threw by (simp add: stage_def ask_def Let_def)
next
  case (Some xml)
  consider "\<not> status_ok xml" | "status_ok xml" "text_of xml ''paired'' \<noteq> ''1''"
    | "status_ok xml" "text_of xml ''paired'' = ''1''" by blast
  then show ?thesis
    using assms Some Threw Refused Went_on by cases (simp_all add: stage_def ask_def Let_def)
qed

definition is_secret :: "pair_request \<Rightarrow> bool" where
  "is_secret r \<longleftrightarrow> (case r of Client_pairing_secret b \<Rightarrow> True | _ \<Rightarrow> False)"

lemma is_secret_simps [simp]:
  "is_secret (Client_pairing_secret b)" "\<not> is_secret Unpair" "\<not> is_secret (Get_server_cert a b)"
  "\<not> is_secret (Client_challenge b)" "\<not> is_secret (Server_challenge_resp b)" "\<not> is_secret (Pair_challenge b)"
  by (simp_all add: is_secret_def)

text \<open>How a run that returns ends: with the certificate, or by taking the pairing back.\<close>

definition ends_well :: "pair_outcome \<Rightarrow> pair_run \<Rightarrow> bool" where
  "ends_well r s \<longleftrightarrow> r \<noteq> Index_out_of_range
     \<and> (\<forall>st. r = Pair_returned st \<and> st \<noteq> PAIRED \<longrightarrow> last (requests s) = Unpair)"

lemma fail_ends_well: "fail_with host st s = (r, s') \<Longrightarrow> st \<noteq> PAIRED \<Longrightarrow> ends_well r s' \<and> r \<noteq> Pair_returned PAIRED"
  by (auto simp: ends_well_def dest: fail_with_cases)

text \<open>A request was answered, and the host said yes.\<close>

definition accepted :: "pair_host \<Rightarrow> pair_request list \<Rightarrow> bool" where
  "accepted host rs \<longleftrightarrow> (case host rs of None \<Rightarrow> False | Some x \<Rightarrow> status_ok x \<and> text_of x ''paired'' = ''1'')"

lemma last_stages_cases:
  assumes "last_stages q host cert secret s = (r, s')"
  shows "ends_well r s' \<and> pinned s' = pinned s \<and> (\<exists>l. requests s' = requests s @ l)
    \<and> (r = Pair_returned PAIRED \<longrightarrow> requests s' = requests s
         @ [Client_pairing_secret (secret @ sign_message q secret), Pair_challenge cert]
       \<and> accepted host (requests s @ [Client_pairing_secret (secret @ sign_message q secret)])
       \<and> accepted host (requests s'))"
  using assms unfolding last_stages_def
proof (cases rule: stage_cases)
  case (Went_on xml)
  from Went_on(4) show ?thesis
    by (cases rule: stage_cases)
      (use Went_on(1-3) in \<open>auto simp: ends_well_def accepted_def dest: fail_with_cases fail_ends_well\<close>)
qed (auto simp: ends_well_def dest: fail_with_cases fail_ends_well)

text \<open>The host has proved itself: its response, its secret and the signature fit.\<close>

definition host_proved ::
  "crypto \<Rightarrow> bool \<Rightarrow> bytes \<Rightarrow> bytes \<Rightarrow> bytes \<Rightarrow> pair_answer \<Rightarrow> pair_answer \<Rightarrow> bool" where
  "host_proved q sha256 key plaincert challenge x2 x3 \<longleftrightarrow>
     (let data = decrypt q (hex_of x2 ''challengeresponse'') key; s = hex_of x3 ''pairingsecret'' in
      16 < length s \<and> verify_with q (take 16 s) (drop 16 s) plaincert
      \<and> sha q sha256 (challenge @ cert_signature q plaincert @ take 16 s)
          = take (if sha256 then 32 else 20) data)"

text \<open>What the client answers to the host's challenge: its hash, encrypted.\<close>

definition hash_answer :: "crypto \<Rightarrow> bool \<Rightarrow> bytes \<Rightarrow> bytes \<Rightarrow> pair_answer \<Rightarrow> bytes" where
  "hash_answer q sha256 key secret x2 =
     (let n = (if sha256 then 32 else 20); data = decrypt q (hex_of x2 ''challengeresponse'') key
      in encrypt q (resize32 q (sha q sha256 (read_from q 16 (drop n data) @ cert_signature q (client_cert q) @ secret))) key)"

lemma response_stages_cases:
  assumes "response_stages q host sha256 key plaincert cert challenge secret x2 s = (r, s')"
  obtains (Failed) "r \<noteq> Pair_returned PAIRED" "ends_well r s'" "pinned s' = pinned s"
      "\<exists>l. requests s' = requests s @ l \<and> \<not> list_ex is_secret l"
  | (Proved) e x3 b where "host (requests s @ [Server_challenge_resp e]) = Some x3"
      "e = hash_answer q sha256 key secret x2" "accepted host (requests s @ [Server_challenge_resp e])"
      "host_proved q sha256 key plaincert challenge x2 x3"
      "last_stages q host cert secret (s\<lparr>overread := b, requests := requests s @ [Server_challenge_resp e]\<rparr>) = (r, s')"
proof -
  let ?n = "if sha256 then 32 else 20 :: nat"
  let ?d = "decrypt q (hex_of x2 ''challengeresponse'') key"
  have failed: thesis
    if "fail_with host st t = (r, s')" "st \<noteq> PAIRED" "pinned t = pinned s"
      "requests t = requests s @ l" "\<not> list_ex is_secret l" for st t l
    using fail_ends_well [OF that(1, 2)] fail_with_cases [OF that(1)] that
    by (intro Failed) (auto intro: exI [of _ "l @ [Unpair]"])
  show thesis
  proof (cases "length ?d < ?n")
    case True
    then have "fail_with host FAILED s = (r, s')"
      using assms by (simp add: response_stages_def Let_def split: if_splits)
    then show thesis by (rule failed [where l = "[]"]) simp_all
  next
    case False
    define e where "e = encrypt q (resize32 q (sha q sha256 (read_from q 16 (drop ?n ?d)
      @ cert_signature q (client_cert q) @ secret))) key"
    let ?s = "s\<lparr>overread := overread s \<or> reads_beyond 16 (drop ?n ?d)\<rparr>"
    let ?rest = "\<lambda>xml s.
      if length (hex_of xml ''pairingsecret'') \<le> 16 then fail_with host FAILED s
      else case check_server_secret q sha256 plaincert challenge (take ?n ?d)
              (take 16 (hex_of xml ''pairingsecret'')) (drop 16 (hex_of xml ''pairingsecret'')) of
             Some st \<Rightarrow> fail_with host st s
           | None \<Rightarrow> last_stages q host cert secret s"
    have "response_stages q host sha256 key plaincert cert challenge secret x2 s
        = stage host (Server_challenge_resp e) ?rest ?s"
      unfolding response_stages_def Let_def e_def by (simp only: False if_False)
    then have st: "stage host (Server_challenge_resp e) ?rest ?s = (r, s')" using assms by simp
    show thesis using st
    proof (cases rule: stage_cases)
      case Threw
      then show thesis by (intro Failed) (auto simp: ends_well_def)
    next
      case Refused
      then show thesis by (rule failed [where l = "[Server_challenge_resp e]"]) simp_all
    next
      case (Went_on x3)
      let ?p = "hex_of x3 ''pairingsecret''"
      show thesis
      proof (cases "length ?p \<le> 16")
        case True
        then have "fail_with host FAILED (?s\<lparr>requests := requests ?s @ [Server_challenge_resp e]\<rparr>) = (r, s')"
          using Went_on(4) by simp
        then show thesis by (rule failed [where l = "[Server_challenge_resp e]"]) simp_all
      next
        case long: False
        show thesis
        proof (cases "check_server_secret q sha256 plaincert challenge (take ?n ?d) (take 16 ?p) (drop 16 ?p)")
          case (Some st)
          then have "fail_with host st (?s\<lparr>requests := requests ?s @ [Server_challenge_resp e]\<rparr>) = (r, s')"
            using Went_on(4) long by simp
          moreover have st: "st \<noteq> PAIRED" using Some by (auto simp: check_server_secret_def split: if_splits)
          ultimately show thesis by (rule failed [where l = "[Server_challenge_resp e]"]) simp_all
        next
          case None
          then have "host_proved q sha256 key plaincert challenge x2 x3"
            using long by (auto simp: check_server_secret_def host_proved_def Let_def split: if_splits)
          moreover have "e = hash_answer q sha256 key secret x2" by (simp add: e_def hash_answer_def)
          ultimately show thesis using Went_on None long by (intro Proved) (auto simp: accepted_def)
        qed
      qed
    qed
  qed
qed

section \<open>The whole protocol\<close>

definition new_run :: pair_run where
  "new_run = \<lparr>requests = [], overread = False, pinned = None, saved_pairname = None\<rparr>"

definition sha_of :: "crypto \<Rightarrow> string \<Rightarrow> bool" where
  "sha_of q appVersion \<longleftrightarrow> hd (parseQuad q appVersion) \<ge> 7"

text \<open>Everything before the challenge fails without a trace, or leads to it.\<close>

lemma pair_cases:
  assumes "pair q host v pin salt challenge secret old = (r, s', new)"
  obtains (Failed) "r \<noteq> Pair_returned PAIRED" "new = old" "\<not> list_ex is_secret (requests s')"
      "r = Index_out_of_range \<or> requests s' = [Get_server_cert salt (client_cert q)] \<or> ends_well r s'"
  | (Challenged) x1 cert b n where "v \<noteq> []"
      "host [Get_server_cert salt (client_cert q)] = Some x1" "accepted host [Get_server_cert salt (client_cert q)]"
      "parse_cert q (hex_of x1 ''plaincert'') = Some cert"
      "stage host (Client_challenge (encrypt q challenge (aes_key q (sha_of q v) (salt @ pin_bytes q pin))))
         (response_stages q host (sha_of q v) (aes_key q (sha_of q v) (salt @ pin_bytes q pin))
            (hex_of x1 ''plaincert'') cert challenge secret)
         \<lparr>requests = [Get_server_cert salt (client_cert q)], overread = b, pinned = Some cert, saved_pairname = n\<rparr>
       = (r, s')"
      "new = (if r = Pair_returned PAIRED then cert else old)"
proof -
  let ?r1 = "Get_server_cert salt (client_cert q)"
  let ?s1 = "\<lparr>requests = [?r1], overread = False, pinned = None, saved_pairname = None\<rparr>"
  have failed: thesis if "fail_with host st ?s1 = (r, s')" "st \<noteq> PAIRED" "new = old" for st
    using fail_ends_well [OF that(1, 2)] fail_with_cases [OF that(1)] that(3) by (intro Failed) auto
  show thesis
  proof (cases "parseQuad q v")
    case Nil
    then have "r = Index_out_of_range" "requests s' = []" "new = old" using assms by (auto simp: pair_def)
    then show thesis by (intro Failed) simp_all
  next
    case (Cons major rest)
    then have v: "sha_of q v = (major \<ge> 7)" "v \<noteq> []" by (auto simp: sha_of_def parseQuad_def)
    show thesis
    proof (cases "host [?r1]")
      case None
      then have "r = Pair_threw" "requests s' = [?r1]" "new = old"
        using assms Cons by (auto simp: pair_def ask_def Let_def)
      then show thesis by (intro Failed) simp_all
    next
      case (Some x1)
      let ?p = "hex_of x1 ''plaincert''"
      show thesis
      proof (cases "status_ok x1 \<and> text_of x1 ''paired'' = ''1''")
        case False
        then have "r = Pair_threw \<or> r = Pair_returned FAILED" "requests s' = [?r1]" "new = old"
          using assms Cons Some by (auto simp: pair_def ask_def Let_def split: if_splits)
        then show thesis by (intro Failed) auto
      next
        case ok: True
        show thesis
        proof (cases "?p = [] \<or> parse_cert q ?p = None")
          case True
          then obtain st where "fail_with host st ?s1 = (r, s')" "st \<noteq> PAIRED" "new = old"
            using assms Cons Some ok by (auto simp: pair_def ask_def Let_def split: if_splits prod.splits)
          then show thesis by (rule failed)
        next
          case False
          then obtain cert where c: "parse_cert q ?p = Some cert" "?p \<noteq> []" by auto
          obtain r1 t1 where st: "stage host (Client_challenge (encrypt q challenge (aes_key q (sha_of q v) (salt @ pin_bytes q pin))))
            (response_stages q host (sha_of q v) (aes_key q (sha_of q v) (salt @ pin_bytes q pin)) ?p cert challenge secret)
            \<lparr>requests = [?r1], overread = reads_beyond 16 (aes_key q (sha_of q v) (salt @ pin_bytes q pin)),
             pinned = Some cert, saved_pairname = (if text_of x1 ''pairname'' \<noteq> [] then Some (text_of x1 ''pairname'') else None)\<rparr>
            = (r1, t1)" by force
          then have "r = r1" "s' = t1" "new = (if r1 = Pair_returned PAIRED then cert else old)"
            using assms Cons Some ok c by (auto simp: pair_def ask_def Let_def v(1) split: if_splits)
          then show thesis using st v(2) Some ok c(1) by (intro Challenged) (auto simp: accepted_def)
        qed
      qed
    qed
  qed
qed

text \<open>
  C1: The client proves itself only to a host that has proved itself: in whatever way pairing ends,
  if the client's secret was sent then the host's answer, decrypted with the key made from the PIN,
  is the hash of the challenge, the certificate's signature and the host's secret, and that secret
  is signed with the key of the certificate the host presented.
\<close>
theorem secret_only_to_proved_host:
  assumes "pair q host v pin salt challenge secret old = (r, s', new)"
    and "Client_pairing_secret b \<in> set (requests s')"
  shows "\<exists>x1 x2 x3. host_proved q (sha_of q v) (aes_key q (sha_of q v) (salt @ pin_bytes q pin))
       (hex_of x1 ''plaincert'') challenge x2 x3
    \<and> host (take 1 (requests s')) = Some x1 \<and> host (take 2 (requests s')) = Some x2
    \<and> host (take 3 (requests s')) = Some x3"
  using assms(1)
proof (cases rule: pair_cases)
  case Failed
  then show ?thesis using assms(2) by (auto simp: list_ex_iff)
next
  case (Challenged x1 cert b' n)
  let ?key = "aes_key q (sha_of q v) (salt @ pin_bytes q pin)"
  let ?r1 = "Get_server_cert salt (client_cert q)" and ?r2 = "Client_challenge (encrypt q challenge ?key)"
  from Challenged(5) show ?thesis
  proof (cases rule: stage_cases)
    case Threw
    then show ?thesis using assms(2) by simp
  next
    case Refused
    then show ?thesis using assms(2) by (auto dest!: fail_with_cases)
  next
    case (Went_on x2)
    from Went_on(4) show ?thesis
    proof (cases rule: response_stages_cases)
      case Failed
      have "is_secret (Client_pairing_secret b)" by simp
      then show ?thesis using Failed assms(2) by (fastforce simp: list_ex_iff)
    next
      case (Proved e x3 b2)
      obtain l where l: "requests s' = [?r1, ?r2, Server_challenge_resp e] @ l"
        using last_stages_cases [OF Proved(5)] by auto
      then have "take 1 (requests s') = [?r1]" "take 2 (requests s') = [?r1, ?r2]"
        "take 3 (requests s') = [?r1, ?r2, Server_challenge_resp e]" by simp_all
      then show ?thesis using Challenged(2) Went_on(1) Proved(1, 4) by (intro exI conjI) simp_all
    qed
  qed
qed

text \<open>
  C3: Pairing succeeds only after all five requests, in order, each answered with status OK and paired set to 1;
  the challenge and the answer to the host's challenge are encrypted with the key made from the PIN, the
  certificate kept for the host is the one it presented first, the TLS connection of the last request is
  pinned to it, and the host has proved that it knows the PIN, by its answers to the second and the third
  request. Otherwise the certificate stays as it was, and a run that returns has taken the pairing back
  unless the host refused it at the first request.
\<close>
theorem pairing_outcome:
  assumes "pair q host v pin salt challenge secret old = (r, s', new)" and "v \<noteq> []"
  shows "(r = Pair_returned PAIRED \<longrightarrow>
      (\<exists>x1 x2 x3 key. key = aes_key q (sha_of q v) (salt @ pin_bytes q pin)
         \<and> requests s' = [Get_server_cert salt (client_cert q), Client_challenge (encrypt q challenge key),
              Server_challenge_resp (hash_answer q (sha_of q v) key secret x2),
              Client_pairing_secret (secret @ sign_message q secret), Pair_challenge new]
         \<and> (\<forall>n \<in> {1..5}. \<exists>x. host (take n (requests s')) = Some x \<and> status_ok x \<and> text_of x ''paired'' = ''1'')
         \<and> host (take 1 (requests s')) = Some x1 \<and> host (take 2 (requests s')) = Some x2
         \<and> host (take 3 (requests s')) = Some x3
         \<and> parse_cert q (hex_of x1 ''plaincert'') = Some new \<and> pinned s' = Some new
         \<and> host_proved q (sha_of q v) key (hex_of x1 ''plaincert'') challenge x2 x3))
    \<and> (r \<noteq> Pair_returned PAIRED \<longrightarrow> new = old)
    \<and> (\<forall>st. r = Pair_returned st \<and> st \<noteq> PAIRED \<longrightarrow>
         requests s' = [Get_server_cert salt (client_cert q)] \<or> last (requests s') = Unpair)"
  using assms(1)
proof (cases rule: pair_cases)
  case Failed
  then show ?thesis by (auto simp: ends_well_def)
next
  case (Challenged x1 cert b' n)
  let ?key = "aes_key q (sha_of q v) (salt @ pin_bytes q pin)"
  let ?r1 = "Get_server_cert salt (client_cert q)" and ?r2 = "Client_challenge (encrypt q challenge ?key)"
  from Challenged(5) show ?thesis
  proof (cases rule: stage_cases)
    case Threw
    then show ?thesis using Challenged(6) by simp
  next
    case Refused
    then show ?thesis using Challenged(6) by (auto dest!: fail_with_cases)
  next
    case (Went_on x2)
    from Went_on(4) show ?thesis
    proof (cases rule: response_stages_cases)
      case Failed
      then show ?thesis using Challenged(6) by (auto simp: ends_well_def)
    next
      case (Proved e x3 b2)
      show ?thesis
      proof (cases "r = Pair_returned PAIRED")
        case True
        let ?r4 = "Client_pairing_secret (secret @ sign_message q secret)"
        note last = last_stages_cases [OF Proved(5)]
        have new: "new = cert" using True Challenged(6) by simp
        have reqs: "requests s' = [?r1, ?r2, Server_challenge_resp e, ?r4, Pair_challenge cert]" "pinned s' = Some cert"
          using True last by auto
        have acc: "accepted host (requests s')" "accepted host [?r1, ?r2, Server_challenge_resp e, ?r4]"
          "accepted host [?r1, ?r2, Server_challenge_resp e]" "accepted host [?r1, ?r2]" "accepted host [?r1]"
          using True last Challenged(3) Went_on(1-3) Proved(3) by (auto simp: accepted_def)
        have "accepted host (take n (requests s'))" if "n \<in> {1..5}" for n
        proof -
          have "n \<in> {1, 2, 3, 4, 5}" using that by auto
          then show ?thesis using acc unfolding reqs(1) by (elim insertE) simp_all
        qed
        then have five: "\<forall>n \<in> {1..5}. \<exists>x. host (take n (requests s')) = Some x \<and> status_ok x \<and> text_of x ''paired'' = ''1''"
          by (fastforce simp: accepted_def split: option.splits)
        have "host (take 1 (requests s')) = Some x1" "host (take 2 (requests s')) = Some x2"
          "host (take 3 (requests s')) = Some x3"
          unfolding reqs(1) using Challenged(2) Went_on(1) Proved(1) by simp_all
        then show ?thesis
          using True Challenged(4) Proved(2, 4) reqs five new by (intro conjI impI exI [of _ x1] exI [of _ x2] exI [of _ x3]) auto
      next
        case False
        then show ?thesis using last_stages_cases [OF Proved(5)] Challenged(6) by (auto simp: ends_well_def)
      qed
    qed
  qed
qed

section \<open>An honest host\<close>

text \<open>
  What a host does that follows the protocol: its certificate, signature and secrets, and the PIN
  the user typed there.
\<close>

record honest =
  host_cert :: bytes
  host_sign :: "bytes \<Rightarrow> bytes"
  host_secret :: bytes
  host_challenge :: bytes
  host_pin :: string

definition host_key :: "crypto \<Rightarrow> honest \<Rightarrow> bool \<Rightarrow> bytes \<Rightarrow> bytes" where
  "host_key q h sha256 salt = take 16 (sha q sha256 (salt @ pin_bytes q (host_pin h)))"

definition accepts :: "(string \<Rightarrow> bytes) \<Rightarrow> bool \<Rightarrow> pair_answer option" where
  "accepts hex ok = Some \<lparr>status_ok = True, text_of = (\<lambda>t. if t = ''paired'' then (if ok then ''1'' else ''0'') else []), hex_of = hex\<rparr>"

definition honest_host :: "crypto \<Rightarrow> honest \<Rightarrow> pair_host" where
  "honest_host q h rs =
     (let (salt, ccert) = (case hd rs of Get_server_cert salt ccert \<Rightarrow> (salt, ccert) | _ \<Rightarrow> ([], []));
          key = host_key q h True salt
      in case last rs of
           Get_server_cert _ _ \<Rightarrow> accepts (\<lambda>t. if t = ''plaincert'' then host_cert h else []) True
         | Client_challenge c \<Rightarrow>
             (let m = aes_decrypt q key c @ cert_signature q (host_cert h) @ host_secret h
              in accepts (\<lambda>t. if t = ''challengeresponse''
                              then aes_encrypt q key (sha q True m @ host_challenge h) else []) True)
         | Server_challenge_resp e \<Rightarrow>
             accepts (\<lambda>t. if t = ''pairingsecret'' then host_secret h @ host_sign h (host_secret h) else []) True
         | Client_pairing_secret p \<Rightarrow>
             accepts (\<lambda>_. [])
               ((case rs ! 2 of
                   Server_challenge_resp e \<Rightarrow>
                     sha q True (host_challenge h @ cert_signature q ccert @ take 16 p) = aes_decrypt q key e
                 | _ \<Rightarrow> False)
                \<and> verify_with q (take 16 p) (drop 16 p) ccert)
         | Pair_challenge cert \<Rightarrow> accepts (\<lambda>_. []) True
         | Unpair \<Rightarrow> accepts (\<lambda>_. []) True)"

text \<open>What is relied on of the cryptography.\<close>

definition sound_crypto :: "crypto \<Rightarrow> honest \<Rightarrow> bool" where
  "sound_crypto q h \<longleftrightarrow>
     (\<forall>k x. length k = 16 \<and> length x mod 16 = 0 \<longrightarrow> aes_decrypt q k (aes_encrypt q k x) = x
        \<and> length (aes_encrypt q k x) = length x)
   \<and> (\<forall>x. length (sha q True x) = 32)
   \<and> (\<forall>x. verify_with q x (host_sign h x) (host_cert h) \<and> verify_with q x (sign_message q x) (client_cert q))
   \<and> host_sign h (host_secret h) \<noteq> [] \<and> length (host_secret h) = 16 \<and> length (host_challenge h) = 16
   \<and> host_cert h \<noteq> [] \<and> parse_cert q (host_cert h) = Some (host_cert h)"

definition answer_with :: "(string \<Rightarrow> bytes) \<Rightarrow> pair_answer" where
  "answer_with hex = the (accepts hex True)"

lemma answer_with_facts [simp]:
  "hex_of (answer_with f) = f" "status_ok (answer_with f)" "text_of (answer_with f) ''paired'' = ''1''"
  "text_of (answer_with f) ''pairname'' = []"
  by (simp_all add: answer_with_def accepts_def)

lemma stage_accepted:
  "host (requests s @ [r]) = accepts f True \<Longrightarrow>
     stage host r rest s = rest (answer_with f) (s\<lparr>requests := requests s @ [r]\<rparr>)"
  by (simp add: stage_def ask_def Let_def answer_with_def accepts_def)

lemma key_read:
  assumes "16 \<le> length (sha q b x)" and "0 \<notin> set (take 15 (sha q b x))"
  shows "read_from q 16 (aes_key q b x) = take 16 (sha q b x)" and "\<not> reads_beyond 16 (aes_key q b x)"
proof -
  let ?h = "sha q b x"
  have split: "?h = take 15 ?h @ ?h ! 15 # drop 16 ?h"
    using assms(1) id_take_nth_drop [of 15 ?h] by simp
  have nz: "takeWhile (\<lambda>b. b \<noteq> 0) ?h = take 15 ?h @ takeWhile (\<lambda>b. b \<noteq> 0) (?h ! 15 # drop 16 ?h)"
    by (subst split, subst takeWhile_append2) (use assms(2) in auto)
  have t16: "take 16 ?h = take 15 ?h @ [?h ! 15]"
    using assms(1) take_Suc_conv_app_nth [of 15 ?h] by simp
  show "read_from q 16 (aes_key q b x) = take 16 ?h" "\<not> reads_beyond 16 (aes_key q b x)"
    using assms(1) by (simp_all add: read_from_def aes_key_def reads_beyond_def nz t16 min_def)
qed

lemma honest_first: "honest_host q h [Get_server_cert salt c]
    = accepts (\<lambda>t. if t = ''plaincert'' then host_cert h else []) True"
  by (simp add: honest_host_def)

lemma honest_pairing:
  assumes "sound_crypto q h" and "host_pin h = pin" and "hd (parseQuad q v) \<ge> 7" and "v \<noteq> []"
    and "length challenge = 16" and "length secret = 16"
    and "0 \<notin> set (take 15 (sha q True (salt @ pin_bytes q pin)))"
  shows "\<exists>s. pair q (honest_host q h) v pin salt challenge secret old = (Pair_returned PAIRED, s, host_cert h)
    \<and> \<not> overread s \<and> Client_pairing_secret (secret @ sign_message q secret) \<in> set (requests s)"
proof -
  let ?H = "honest_host q h"
  define key where "key = aes_key q True (salt @ pin_bytes q pin)"
  define k where "k = host_key q h True salt"
  have len: "length (sha q True x) = 32" for x using assms(1) by (simp add: sound_crypto_def)
  have k: "read_from q 16 key = k" "\<not> reads_beyond 16 key" "length k = 16"
    using key_read [of q True "salt @ pin_bytes q pin"] assms(2, 7) len
    by (simp_all add: key_def k_def host_key_def)
  have aes: "aes_decrypt q k (aes_encrypt q k x) = x" "length (aes_encrypt q k x) = length x"
    if "length x mod 16 = 0" for x
    using assms(1) k(3) that by (simp_all add: sound_crypto_def)
  have h: "length (host_secret h) = 16" "length (host_challenge h) = 16" "host_cert h \<noteq> []"
    "host_sign h (host_secret h) \<noteq> []" "parse_cert q (host_cert h) = Some (host_cert h)"
    "verify_with q x (host_sign h x) (host_cert h)" "verify_with q x (sign_message q x) (client_cert q)" for x
    using assms(1) by (simp_all add: sound_crypto_def)
  let ?r1 = "Get_server_cert salt (client_cert q)"
  define c where "c = encrypt q challenge key"
  define m where "m = challenge @ cert_signature q (host_cert h) @ host_secret h"
  define d where "d = aes_encrypt q k (sha q True m @ host_challenge h)"
  define x2 where "x2 = answer_with (\<lambda>t. if t = ''challengeresponse'' then d else [])"
  have c: "aes_decrypt q k c = challenge" using aes(1) [of challenge] assms(5) k(1) by (auto simp: c_def encrypt_def)
  have "d \<noteq> []" "aes_decrypt q k d = sha q True m @ host_challenge h"
    using aes [of "sha q True m @ host_challenge h"] len h(2) by (auto simp: d_def)
  then have d: "decrypt q d key = sha q True m @ host_challenge h" by (simp add: decrypt_def k(1))
  define e where "e = encrypt q (sha q True (host_challenge h @ cert_signature q (client_cert q) @ secret)) key"
  have e: "aes_decrypt q k e = sha q True (host_challenge h @ cert_signature q (client_cert q) @ secret)"
  proof -
    have "sha q True y \<noteq> []" "length (sha q True y) mod 16 = 0" for y using len [of y] by auto
    then show ?thesis using aes(1) k(1) by (simp add: e_def encrypt_def)
  qed
  define s0 where "s0 = \<lparr>requests = [?r1], overread = False, pinned = Some (host_cert h), saved_pairname = None\<rparr>"
  have s0: "requests s0 = [?r1]" "\<not> overread s0" by (simp_all add: s0_def)
  define x3 where "x3 = answer_with (\<lambda>t. if t = ''pairingsecret'' then host_secret h @ host_sign h (host_secret h) else [])"
  have last: "\<exists>s'. last_stages q ?H (host_cert h) secret s = (Pair_returned PAIRED, s') \<and> overread s' = overread s
      \<and> Client_pairing_secret (secret @ sign_message q secret) \<in> set (requests s')"
    if "requests s = [?r1, Client_challenge c, Server_challenge_resp e]" for s
    unfolding last_stages_def using that assms(6) e h(7)
    by (simp add: stage_accepted honest_host_def k_def [symmetric])
  have resp: "\<exists>s'. response_stages q ?H True key (host_cert h) (host_cert h) challenge secret x2 s
      = (Pair_returned PAIRED, s') \<and> overread s' = overread s \<and> Client_pairing_secret (secret @ sign_message q secret) \<in> set (requests s')"
    if "requests s = [?r1, Client_challenge c]" for s
  proof -
    have "read_from q 16 (host_challenge h) = host_challenge h" "\<not> reads_beyond 16 (host_challenge h)"
      using h(2) by (simp_all add: read_from_def reads_beyond_def)
    moreover have "resize32 q (sha q True y) = sha q True y" for y using len by (simp add: resize32_def)
    ultimately have "response_stages q ?H True key (host_cert h) (host_cert h) challenge secret x2 s
        = last_stages q ?H (host_cert h) secret (s\<lparr>requests := requests s @ [Server_challenge_resp e]\<rparr>)"
      using that len h(1, 4, 6)
      by (simp add: response_stages_def x2_def d Let_def e_def [symmetric] stage_accepted check_server_secret_def m_def honest_host_def)
    then show ?thesis using last [of "s\<lparr>requests := requests s @ [Server_challenge_resp e]\<rparr>"] that by simp
  qed
  have st: "stage ?H (Client_challenge c) (response_stages q ?H True key (host_cert h) (host_cert h) challenge secret) s0
      = response_stages q ?H True key (host_cert h) (host_cert h) challenge secret x2 (s0\<lparr>requests := [?r1, Client_challenge c]\<rparr>)"
    using s0(1) c by (simp add: stage_accepted x2_def d_def m_def k_def [symmetric] Let_def honest_host_def cong: if_cong)
  obtain major rest where v: "parseQuad q v = major # rest" "major \<ge> 7"
    using assms(3, 4) by (cases "parseQuad q v") (auto simp: parseQuad_def)
  obtain s' where s': "response_stages q ?H True key (host_cert h) (host_cert h) challenge secret x2
      (s0\<lparr>requests := [?r1, Client_challenge c]\<rparr>) = (Pair_returned PAIRED, s') \<and> overread s' = overread s0
      \<and> Client_pairing_secret (secret @ sign_message q secret) \<in> set (requests s')"
    using resp [of "s0\<lparr>requests := [?r1, Client_challenge c]\<rparr>"] by auto
  have "pair q ?H v pin salt challenge secret old = (Pair_returned PAIRED, s', host_cert h)"
    using v h(3, 5) st s' k(2)
    by (simp add: pair_def ask_def Let_def accepts_def key_def [symmetric] c_def [symmetric] s0_def honest_first)
  then show ?thesis using s' s0(2) by auto
qed

text \<open>
  C28: With an honest host of the current generation on which the same PIN was typed, pairing
  succeeds and keeps its certificate, if the first fifteen bytes of the hash the key is taken from
  hold no zero.
\<close>
theorem honest_pairing_succeeds:
  assumes "sound_crypto q h" and "host_pin h = pin" and "hd (parseQuad q v) \<ge> 7" and "v \<noteq> []"
    and "length challenge = 16" and "length secret = 16"
    and "0 \<notin> set (take 15 (sha q True (salt @ pin_bytes q pin)))"
  shows "\<exists>s. pair q (honest_host q h) v pin salt challenge secret old = (Pair_returned PAIRED, s, host_cert h)
    \<and> \<not> overread s"
  using honest_pairing [OF assms] by blast

text \<open>
  If the hash of the salted PIN has a zero before its sixteenth byte, the key is not made from
  the PIN alone: behind the zero it continues with whatever lies in memory.
\<close>
theorem key_ends_at_zero:
  assumes "i < 15" and "i < length (sha q b x)" and "sha q b x ! i = 0" and "0 \<notin> set (take i (sha q b x))"
  shows "read_from q 16 (aes_key q b x) = take (Suc i) (sha q b x) @ take (15 - i) (behind q)
    \<and> (reads_beyond 16 (aes_key q b x))"
proof -
  let ?h = "sha q b x"
  have split: "?h = take i ?h @ 0 # drop (Suc i) ?h"
    using assms(2, 3) id_take_nth_drop [of i ?h] by simp
  have "takeWhile (\<lambda>b. b \<noteq> 0) ?h = take i ?h"
    by (subst split, subst takeWhile_append2) (use assms(4) in auto)
  moreover have "take (Suc i) ?h = take i ?h @ [0]" using assms(2, 3) take_Suc_conv_app_nth [of i ?h] by simp
  moreover have "16 - i = Suc (15 - i)" using assms(1) by simp
  ultimately show ?thesis using assms(1, 2)
    by (simp add: read_from_def aes_key_def reads_beyond_def min_def)
qed

lemma overread_kept:
  "fail_with host st s = (r, s') \<Longrightarrow> overread s' = overread s"
  by (auto dest: fail_with_cases)

lemma overread_last: "last_stages q host cert secret s = (r, s') \<Longrightarrow> overread s' = overread s"
  unfolding last_stages_def
  by (elim stage_cases) (auto dest: overread_kept elim!: stage_cases)

text \<open>
  A host that answers the challenge with a hash and nothing behind it makes the client read
  past the end of the decrypted answer.
\<close>
theorem short_challenge_response_overreads:
  assumes "length (decrypt q (hex_of xml ''challengeresponse'') key) = (if sha256 then 32 else 20)"
    and "response_stages q host sha256 key plaincert cert challenge secret xml s = (r, s')"
  shows "overread s'"
proof -
  let ?n = "if sha256 then 32 else 20 :: nat" and ?d = "decrypt q (hex_of xml ''challengeresponse'') key"
  obtain e rest where "stage host (Server_challenge_resp e) rest (s\<lparr>overread := overread s \<or> reads_beyond 16 (drop ?n ?d)\<rparr>) = (r, s')"
    and rest: "\<And>xml t. rest xml t = (if length (hex_of xml ''pairingsecret'') \<le> 16 then fail_with host FAILED t
      else case check_server_secret q sha256 plaincert challenge (take ?n ?d)
              (take 16 (hex_of xml ''pairingsecret'')) (drop 16 (hex_of xml ''pairingsecret'')) of
             Some st \<Rightarrow> fail_with host st t
           | None \<Rightarrow> last_stages q host cert secret t)"
    using assms(2) unfolding response_stages_def Let_def assms(1) by (simp only: less_irrefl if_False)
  moreover have "reads_beyond 16 (drop ?n ?d)" using assms(1) by (simp add: reads_beyond_def)
  ultimately show ?thesis
    by (elim stage_cases)
      (auto simp: rest dest: overread_kept overread_last split: if_splits option.splits)
qed

section \<open>A concrete pairing\<close>

text \<open>Toy cryptography: a constant hash, encryption by exclusive or with the first key byte.\<close>

definition toy_sha :: "bool \<Rightarrow> bytes \<Rightarrow> bytes" where
  "toy_sha sha256 x = replicate (if sha256 then 32 else 20) (if sum_list x = 0 then 1 else sum_list x)"

definition toy :: crypto where
  "toy = \<lparr>sha = toy_sha,
     aes_encrypt = (\<lambda>k. map (\<lambda>b. b + hd k)), aes_decrypt = (\<lambda>k. map (\<lambda>b. b - hd k)),
     cert_signature = (\<lambda>c. c), verify_with = (\<lambda>x sig c. sig = x @ c), sign_message = (\<lambda>x. x @ [2]),
     client_cert = [2], parse_cert = (\<lambda>c. if c = [] then None else Some c),
     pin_bytes = map (\<lambda>c. of_nat (of_char c)), behind = [], number_of = (\<lambda>_. 7)\<rparr>"

definition toy_host :: honest where
  "toy_host = \<lparr>host_cert = [3], host_sign = (\<lambda>x. x @ [3]), host_secret = replicate 16 4,
     host_challenge = replicate 16 5, host_pin = ''1234''\<rparr>"

lemma toy_sound: "sound_crypto toy toy_host"
proof -
  have "hd k + (b - hd k) = b" for k and b :: byte by simp
  then show ?thesis by (simp add: sound_crypto_def toy_def toy_host_def toy_sha_def o_def)
qed

lemma toy_hash: "0 \<notin> set (sha toy b x)"
  by (simp add: toy_def toy_sha_def)

definition toy_pairing :: "bytes \<Rightarrow> pair_outcome \<times> pair_run \<times> bytes" where
  "toy_pairing old = pair toy (honest_host toy toy_host) ''7.1'' ''1234'' (replicate 16 9) (replicate 16 6) (replicate 16 8) old"

lemma toy_facts:
  "hd (parseQuad toy ''7.1'') \<ge> 7" "0 \<notin> set (take 15 (sha toy True x))" "host_pin toy_host = ''1234''"
  "host_cert toy_host = [3]" "sha_of toy ''7.1''"
  using toy_hash [of True x] by (auto simp: parseQuad_def toy_def toy_host_def sha_of_def dest: in_set_takeD)

lemma toy_paired:
  "\<exists>s. toy_pairing [] = (Pair_returned PAIRED, s, [3])
    \<and> Client_pairing_secret (replicate 16 8 @ sign_message toy (replicate 16 8)) \<in> set (requests s)"
  using honest_pairing [OF toy_sound toy_facts(3, 1) _ _ _ toy_facts(2), of "replicate 16 6" "replicate 16 8" "replicate 16 9" "[]"]
  by (auto simp: toy_pairing_def toy_facts)

theorem honest_pairing_succeeds_witness:
  "\<exists>s. toy_pairing [] = (Pair_returned PAIRED, s, [3]) \<and> \<not> overread s"
  using honest_pairing_succeeds [OF toy_sound toy_facts(3, 1) _ _ _ toy_facts(2), of "replicate 16 6" "replicate 16 8" "replicate 16 9" "[]"]
  by (simp add: toy_pairing_def toy_facts)

theorem pairing_outcome_witness:
  "\<exists>s. snd (toy_pairing []) = (s, [3]) \<and> pinned s = Some [3] \<and> length (requests s) = 5"
proof -
  obtain s where "toy_pairing [] = (Pair_returned PAIRED, s, [3])" using toy_paired by blast
  then show ?thesis
    using pairing_outcome [of toy "honest_host toy toy_host" "''7.1''" "''1234''" "replicate 16 9" "replicate 16 6"
        "replicate 16 8" "[]"] by (auto simp: toy_pairing_def)
qed

theorem secret_only_to_proved_host_witness:
  "\<exists>s (x1 :: pair_answer) x2 x3. toy_pairing [] = (Pair_returned PAIRED, s, [3])
    \<and> host_proved toy True (aes_key toy True (replicate 16 9 @ pin_bytes toy ''1234'')) (hex_of x1 ''plaincert'')
        (replicate 16 6) x2 x3"
proof -
  obtain s where s: "toy_pairing [] = (Pair_returned PAIRED, s, [3])"
    and b: "Client_pairing_secret (replicate 16 8 @ sign_message toy (replicate 16 8)) \<in> set (requests s)"
    using toy_paired by blast
  then obtain x1 :: pair_answer and x2 x3 where "host_proved toy True (aes_key toy True (replicate 16 9 @ pin_bytes toy ''1234''))
      (hex_of x1 ''plaincert'') (replicate 16 6) x2 x3"
    using secret_only_to_proved_host [OF s [unfolded toy_pairing_def] b] unfolding eqTrueI [OF toy_facts(5)] by blast
  then show ?thesis using s by blast
qed

theorem key_ends_at_zero_witness:
  "read_from (toy\<lparr>sha := \<lambda>_ x. [1, 0] @ replicate 30 1, behind := replicate 20 7\<rparr>) 16
     (aes_key (toy\<lparr>sha := \<lambda>_ x. [1, 0] @ replicate 30 1, behind := replicate 20 7\<rparr>) True []) = [1, 0] @ replicate 14 7"
  using key_ends_at_zero [of 1 "toy\<lparr>sha := \<lambda>_ x. [1, 0] @ replicate 30 1, behind := replicate 20 7\<rparr>" True "[]"]
  by simp

theorem short_challenge_response_overreads_witness:
  "overread (snd (response_stages toy (\<lambda>_. None) True [1] [3] [3] [6] [8]
     \<lparr>status_ok = True, text_of = (\<lambda>_. []), hex_of = (\<lambda>_. replicate 32 0)\<rparr>
     \<lparr>requests = [], overread = False, pinned = None, saved_pairname = None\<rparr>))"
proof -
  have "length (decrypt toy (replicate 32 0) [1]) = 32" by (simp add: decrypt_def toy_def)
  then show ?thesis
    using short_challenge_response_overreads [of toy "\<lparr>status_ok = True, text_of = (\<lambda>_. []), hex_of = (\<lambda>_. replicate 32 0)\<rparr>"
        "[1]" True "\<lambda>_. None" "[3]" "[3]" "[6]" "[8]"
        "\<lparr>requests = [], overread = False, pinned = None, saved_pairname = None\<rparr>"]
    by (metis (no_types, lifting) pair_answer.select_convs(3) prod.collapse)
qed

end
