(* ===== verification/PenReplay.thy ===== *)
theory PenReplay
  imports Prelude
begin

text \<open>
  Pen input: which of the coalesced samples Windows reports are replayed
  (\<open>src/app/streaming/input/penhistory.h\<close>). Samples are newest first; timestamps and state keys are
  32-bit unsigned.
\<close>

section \<open>Choosing the recent samples\<close>

definition MAX_HISTORY_SAMPLES :: nat where "MAX_HISTORY_SAMPLES = 128"
definition MAX_REPLAY_SAMPLES :: nat where "MAX_REPLAY_SAMPLES = 16"
definition MAX_REPLAY_AGE_MS :: u32 where "MAX_REPLAY_AGE_MS = 16"

text \<open>The loop of \<open>selectRecentSampleCount\<close>, over the timestamps after the newest.\<close>

fun recent_run :: "u32 \<Rightarrow> u32 \<Rightarrow> u32 \<Rightarrow> u32 list \<Rightarrow> nat" where
  "recent_run newest now age [] = 0"
| "recent_run newest now age (t # ts) =
     (if t = 0 \<or> newest - t > age \<or> now - t > age then 0 else Suc (recent_run newest now age ts))"

definition selectRecentSampleCount :: "u32 list option \<Rightarrow> nat \<Rightarrow> u32 \<Rightarrow> u32 \<Rightarrow> nat" where
  "selectRecentSampleCount timestamps count now age =
     (case timestamps of
        None \<Rightarrow> 0
      | Some ts \<Rightarrow>
          if count = 0 then 0
          else if hd ts = 0 \<or> now = 0 then count
          else Suc (recent_run (hd ts) now age (take (count - 1) (tl ts))))"

section \<open>Keeping the transitions\<close>

text \<open>
  The loop over the state keys, oldest sample first: which samples it marks, given the state
  known before them. An unknown state is taken from the first sample, which is not marked.
\<close>

fun transition_marks :: "u32 option \<Rightarrow> u32 list \<Rightarrow> bool list" where
  "transition_marks known [] = []"
| "transition_marks None (k # ks) = False # transition_marks (Some k) ks"
| "transition_marks (Some s) (k # ks) =
     (if k \<noteq> s then True # transition_marks (Some k) ks else False # transition_marks (Some s) ks)"

text \<open>
  \<open>selectReplaySamples\<close>: the indices to replay, oldest first. The keep flags are those of the recent
  prefix together with those of the transitions.
\<close>

definition keep_flags ::
  "u32 list \<Rightarrow> u32 list \<Rightarrow> nat \<Rightarrow> u32 \<Rightarrow> u32 option \<Rightarrow> bool list" where
  "keep_flags timestamps keys count now previous =
     (let recent = selectRecentSampleCount (Some timestamps) (min count MAX_REPLAY_SAMPLES) now
                     MAX_REPLAY_AGE_MS;
          marks = rev (transition_marks previous (rev (take count keys)))
      in map (\<lambda>i. i < recent \<or> marks ! i) [0..<count])"

definition selectReplaySamples ::
  "u32 list option \<Rightarrow> u32 list option \<Rightarrow> nat \<Rightarrow> u32 \<Rightarrow> bool \<Rightarrow> u32 \<Rightarrow> nat list" where
  "selectReplaySamples timestamps keys count now previous_valid previous =
     (case (timestamps, keys) of
        (Some ts, Some ks) \<Rightarrow>
          if count = 0 then []
          else let n = min count MAX_HISTORY_SAMPLES;
                   keep = keep_flags ts ks n now (if previous_valid then Some previous else None)
               in filter (\<lambda>i. keep ! i) (rev [0..<n])
      | _ \<Rightarrow> [])"

section \<open>What the selection keeps\<close>

lemma recent_run_le: "recent_run newest now age ts \<le> length ts"
  by (induction ts) auto

lemma recent_run_ages:
  "i < recent_run newest now age ts \<Longrightarrow>
     ts ! i \<noteq> 0 \<and> newest - ts ! i \<le> age \<and> now - ts ! i \<le> age"
proof (induction ts arbitrary: i)
  case (Cons t ts)
  then show ?case by (cases i) (auto split: if_splits simp: not_less)
qed simp

lemma recent_count_bounds:
  assumes "0 < count" and "count \<le> length ts"
  shows "0 < selectRecentSampleCount (Some ts) count now age
       \<and> selectRecentSampleCount (Some ts) count now age \<le> count"
proof -
  have "recent_run (hd ts) now age (take (count - 1) (tl ts)) \<le> count - 1"
    using recent_run_le [of "hd ts" now age "take (count - 1) (tl ts)"] assms by auto
  then show ?thesis using assms by (auto simp: selectRecentSampleCount_def)
qed

lemma length_transition_marks [simp, length_facts]:
  "length (transition_marks known ks) = length ks"
  by (induction known ks rule: transition_marks.induct) auto

lemma length_keep_flags [simp, length_facts]: "length (keep_flags ts ks n now prev) = n"
  by (simp add: keep_flags_def Let_def)

text \<open>
  Adjacent repetitions carry no transition: a subsequence that keeps every marked element, and
  whatever else, has the same runs of states as the whole.
\<close>

lemma keep_transitions:
  assumes "length keep = length ks"
    and "\<And>i. i < length ks \<Longrightarrow> transition_marks (Some s) ks ! i \<Longrightarrow> keep ! i"
  shows "remdups_adj (s # map snd (filter fst (zip keep ks))) = remdups_adj (s # ks)"
  using assms
proof (induction ks arbitrary: s keep)
  case (Cons k ks)
  obtain b bs where keep: "keep = b # bs" using Cons.prems(1) by (cases keep) auto
  have len: "length bs = length ks" using Cons.prems(1) keep by simp
  have rest: "transition_marks (Some k) ks ! i \<Longrightarrow> bs ! i" if "i < length ks" for i
    using Cons.prems(2) [of "Suc i"] that keep by (cases "k = s") auto
  note IH = Cons.IH [OF len rest]
  show ?case
  proof (cases "k = s")
    case True
    then show ?thesis using IH keep by (cases b) auto
  next
    case False
    then have "b" using Cons.prems(2) [of 0] keep by simp
    then show ?thesis using IH keep False by simp
  qed
qed simp

lemma filter_rev_upt:
  "length keep = n \<Longrightarrow> n \<le> length ks \<Longrightarrow>
     map ((!) ks) (filter (\<lambda>i. keep ! i) (rev [0..<n])) =
     map snd (filter fst (zip (rev keep) (rev (take n ks))))"
proof (induction n arbitrary: keep)
  case (Suc n)
  then obtain bs b where keep: "keep = bs @ [b]" and len: "length bs = n"
    by (metis length_Suc_conv_rev)
  have bs: "map ((!) ks) (filter (\<lambda>i. bs ! i) (rev [0..<n])) =
      map snd (filter fst (zip (rev bs) (rev (take n ks))))"
    using Suc.IH [OF len] Suc.prems by simp
  have eq: "filter (\<lambda>i. keep ! i) (rev [0..<n]) = filter (\<lambda>i. bs ! i) (rev [0..<n])"
    by (rule filter_cong) (auto simp: keep len nth_append)
  have "take (Suc n) ks = take n ks @ [ks ! n]" using Suc.prems by (simp add: take_Suc_conv_app_nth)
  then show ?case using bs len by (simp add: eq) (simp add: keep nth_append)
qed simp

lemma transition_marks_nth:
  "i < length ks \<Longrightarrow> transition_marks (Some s) ks ! i \<longleftrightarrow> ks ! i \<noteq> (if i = 0 then s else ks ! (i - 1))"
proof (induction ks arbitrary: s i)
  case (Cons k ks)
  show ?case
  proof (cases i)
    case (Suc j)
    then have "transition_marks (Some k) ks ! j \<longleftrightarrow> ks ! j \<noteq> (if j = 0 then k else ks ! (j - 1))"
      using Cons by simp
    then show ?thesis using Suc by (cases "k = s") (auto simp: nth_Cons')
  qed simp
qed simp

lemma transition_marks_unknown:
  "ks \<noteq> [] \<Longrightarrow> transition_marks None ks = transition_marks (Some (hd ks)) ks"
  by (cases ks) auto

text \<open>The state before the oldest sample: the known one, or that sample's own.\<close>

definition state_before :: "u32 list \<Rightarrow> nat \<Rightarrow> bool \<Rightarrow> u32 \<Rightarrow> u32" where
  "state_before ks n previous_valid previous = (if previous_valid then previous else ks ! (n - 1))"

text \<open>Sample \<open>i\<close> of \<open>n\<close> changes the state.\<close>

definition changes_state :: "u32 list \<Rightarrow> nat \<Rightarrow> bool \<Rightarrow> u32 \<Rightarrow> nat \<Rightarrow> bool" where
  "changes_state ks n previous_valid previous i \<longleftrightarrow>
     ks ! i \<noteq> (if Suc i = n then state_before ks n previous_valid previous else ks ! Suc i)"

lemma marks_known:
  assumes "0 < n" and "n \<le> length ks"
  shows "transition_marks (if v then Some p else None) (rev (take n ks)) =
         transition_marks (Some (state_before ks n v p)) (rev (take n ks))"
proof -
  have ne: "take n ks \<noteq> []" using assms by auto
  then have "rev (take n ks) \<noteq> []" "hd (rev (take n ks)) = ks ! (n - 1)"
    using assms last_conv_nth [OF ne] by (auto simp: hd_rev min_absorb2)
  then show ?thesis using transition_marks_unknown [of "rev (take n ks)"]
    by (simp add: state_before_def)
qed

lemma keep_flag:
  assumes "i < n" and "n \<le> length ks"
  shows "keep_flags ts ks n now (if v then Some p else None) ! i \<longleftrightarrow>
     i < selectRecentSampleCount (Some ts) (min n MAX_REPLAY_SAMPLES) now MAX_REPLAY_AGE_MS
     \<or> changes_state ks n v p i"
proof -
  let ?R = "rev (take n ks)"
  let ?m = "transition_marks (Some (state_before ks n v p)) ?R"
  have "rev ?m ! i = ?m ! (n - Suc i)" using assms by (simp add: rev_nth)
  also have "\<dots> \<longleftrightarrow> ?R ! (n - Suc i) \<noteq> (if n - Suc i = 0 then state_before ks n v p
      else ?R ! (n - Suc i - 1))"
    using assms by (subst transition_marks_nth) auto
  also have "?R ! (n - Suc i) = ks ! i" using assms by (simp add: rev_nth)
  also have "(if n - Suc i = 0 then state_before ks n v p else ?R ! (n - Suc i - 1)) =
      (if Suc i = n then state_before ks n v p else ks ! Suc i)"
    using assms by (auto simp: rev_nth Suc_diff_Suc)
  finally have m: "rev ?m ! i \<longleftrightarrow> changes_state ks n v p i" by (simp add: changes_state_def)
  have "0 < n" using assms by simp
  then show ?thesis
    using m assms marks_known [of n ks v p] by (simp add: keep_flags_def Let_def)
qed

text \<open>
  the samples chosen for replay go through the same states, in the same order, as all the
  samples (of the 128 newest), starting from the state before the oldest: coalescing drops motion
  only, never a transition.
\<close>

theorem replay_keeps_states:
  assumes "0 < count" and "count \<le> length ks"
  shows "remdups_adj (state_before ks (min count MAX_HISTORY_SAMPLES) v p
           # map ((!) ks) (selectReplaySamples (Some ts) (Some ks) count now v p))
       = remdups_adj (state_before ks (min count MAX_HISTORY_SAMPLES) v p
           # rev (take (min count MAX_HISTORY_SAMPLES) ks))"
proof -
  define n where "n = min count MAX_HISTORY_SAMPLES"
  define s where "s = state_before ks n v p"
  let ?keep = "keep_flags ts ks n now (if v then Some p else None)"
  have n: "0 < n" "n \<le> length ks" using assms by (auto simp: n_def MAX_HISTORY_SAMPLES_def)
  have sel: "selectReplaySamples (Some ts) (Some ks) count now v p = filter (\<lambda>i. ?keep ! i) (rev [0..<n])"
    using assms by (simp add: selectReplaySamples_def Let_def n_def)
  have marks: "rev ?keep ! i" if "i < n" "transition_marks (Some s) (rev (take n ks)) ! i" for i
  proof -
    have "rev ?keep ! i = ?keep ! (n - Suc i)" using that(1) by (simp add: rev_nth)
    moreover have "rev (transition_marks (Some s) (rev (take n ks))) ! (n - Suc i)"
      using that n by (simp add: rev_nth min_absorb2)
    ultimately show ?thesis
      using that n marks_known [OF n, of v p] by (simp add: keep_flags_def Let_def s_def)
  qed
  have eq: "map ((!) ks) (selectReplaySamples (Some ts) (Some ks) count now v p) =
      map snd (filter fst (zip (rev ?keep) (rev (take n ks))))"
    unfolding sel by (rule filter_rev_upt) (use n in auto)
  have "remdups_adj (s # map snd (filter fst (zip (rev ?keep) (rev (take n ks))))) =
      remdups_adj (s # rev (take n ks))"
    by (rule keep_transitions) (use n marks in \<open>auto simp: min_absorb2\<close>)
  then show ?thesis unfolding n_def [symmetric] s_def [symmetric] eq .
qed

theorem replay_keeps_states_witness:
  "remdups_adj ((5 :: u32) # map ((!) [7, 7, 5, 6, 5])
     (selectReplaySamples (Some [100, 99, 98, 97, 50]) (Some [7, 7, 5, 6, 5]) 5 100 True 5))
   = [5, 6, 5, 7]"
  using replay_keeps_states [of 5 "[7, 7, 5, 6, 5]" True 5 "[100, 99, 98, 97, 50]" 100]
  by (simp add: state_before_def MAX_HISTORY_SAMPLES_def)

text \<open>
  the selection is oldest first without repetition and always contains the newest sample; a
  sample that changes no state is replayed only if it is among the 16 newest, and then, where the
  device gives usable times, only if it is the newest or at most 16 ms old.
\<close>

theorem replay_selection:
  assumes "0 < count" and "count \<le> length ks" and "count \<le> length ts"
    and "n = min count MAX_HISTORY_SAMPLES"
    and "sel = selectReplaySamples (Some ts) (Some ks) count now v p"
  shows "sorted_wrt (>) sel \<and> 0 \<in> set sel
       \<and> (\<forall>i\<in>set sel. i < n \<and> (changes_state ks n v p i \<or> i = 0
            \<or> (i < MAX_REPLAY_SAMPLES
               \<and> (hd ts = 0 \<or> now = 0 \<or> (ts ! i \<noteq> 0 \<and> now - ts ! i \<le> MAX_REPLAY_AGE_MS)))))
       \<and> (\<forall>i<n. changes_state ks n v p i \<longrightarrow> i \<in> set sel)"
proof -
  let ?m = "min n MAX_REPLAY_SAMPLES"
  let ?recent = "selectRecentSampleCount (Some ts) ?m now MAX_REPLAY_AGE_MS"
  let ?keep = "keep_flags ts ks n now (if v then Some p else None)"
  have n: "0 < n" "n \<le> length ks" "n \<le> length ts"
    using assms by (auto simp: MAX_HISTORY_SAMPLES_def)
  have sel: "sel = filter (\<lambda>i. ?keep ! i) (rev [0..<n])"
    using assms by (simp add: selectReplaySamples_def Let_def)
  have mem: "i \<in> set sel \<longleftrightarrow> i < n \<and> (i < ?recent \<or> changes_state ks n v p i)" for i
    using keep_flag [OF _ n(2), of i ts now v p] by (auto simp: sel split del: if_split)
  have pos: "0 < ?m" "?m \<le> length ts" using n by (auto simp: MAX_REPLAY_SAMPLES_def)
  note bounds = recent_count_bounds [OF pos, of now MAX_REPLAY_AGE_MS]
  have young: "i = 0 \<or> hd ts = 0 \<or> now = 0 \<or> (ts ! i \<noteq> 0 \<and> now - ts ! i \<le> MAX_REPLAY_AGE_MS)"
    if "i < ?recent" for i
  proof (cases "i = 0 \<or> hd ts = 0 \<or> now = 0")
    case False
    then obtain j where j: "i = Suc j" by (cases i) auto
    have lt: "j < recent_run (hd ts) now MAX_REPLAY_AGE_MS (take (?m - 1) (tl ts))"
      using that False pos j by (simp add: selectRecentSampleCount_def)
    moreover have "j < ?m - 1" using lt recent_run_le less_le_trans by fastforce
    moreover have "ts \<noteq> []" using n by auto
    ultimately show ?thesis using recent_run_ages [OF lt] j by (cases ts) auto
  qed auto
  have "sorted_wrt (>) sel" unfolding sel
    by (rule sorted_wrt_filter) (simp add: sorted_wrt_rev)
  moreover have "0 \<in> set sel" using mem bounds n by auto
  ultimately show ?thesis using mem young bounds by fastforce
qed

theorem replay_selection_witness:
  "sorted_wrt (>) (selectReplaySamples (Some [100, 99, 98, 97, 50]) (Some [7, 7, 5, 6, 5]) 5 100 True 5)"
  using replay_selection [of 5 "[7, 7, 5, 6, 5]" "[100, 99, 98, 97, 50]" 5 _ 100 True 5]
  by (simp add: MAX_HISTORY_SAMPLES_def)

end
