(* ===== verification/Settings.thy ===== *)
theory Settings
  imports Complex_Main TextOps
begin

text \<open>
  The client's preferences (\<open>src/app/settings/streamingpreferences.cpp\<close>): loading them from the
  settings store with defaults, range checks and migrations, saving them, the setters that do more
  than assign, and the default bitrate. Enumerations are their integer values, because the code
  casts stored integers to them unchecked. \<open>QSettings\<close> is a map from keys to stored values; how a
  value is stored and converted back is the parameter \<open>codec\<close>. Doubles and floats are reals.
\<close>

section \<open>Constants\<close>

definition OMP_DISABLED :: int where "OMP_DISABLED = 0"
definition OMP_BUTTON :: int where "OMP_BUTTON = 1"
definition OMP_TOP_EDGE :: int where "OMP_TOP_EDGE = 2"
definition OMP_RIGHT_EDGE :: int where "OMP_RIGHT_EDGE = 3"
definition OMP_LEFT_EDGE :: int where "OMP_LEFT_EDGE = 4"
definition BGS_PHOTOGRAPHY :: int where "BGS_PHOTOGRAPHY = 0"
definition BGS_ANIME :: int where "BGS_ANIME = 1"
definition BGS_API :: int where "BGS_API = 2"
definition BGS_LOCAL :: int where "BGS_LOCAL = 3"
definition BGS_NONE :: int where "BGS_NONE = 4"
definition WM_FULLSCREEN :: int where "WM_FULLSCREEN = 0"
definition WM_FULLSCREEN_DESKTOP :: int where "WM_FULLSCREEN_DESKTOP = 1"
definition WM_WINDOWED :: int where "WM_WINDOWED = 2"
definition UI_WINDOWED :: int where "UI_WINDOWED = 0"
definition UI_MAXIMIZED :: int where "UI_MAXIMIZED = 1"
definition UI_FULLSCREEN :: int where "UI_FULLSCREEN = 2"
definition VCC_AUTO :: int where "VCC_AUTO = 0"
definition VCC_FORCE_H264 :: int where "VCC_FORCE_H264 = 1"
definition VCC_FORCE_HEVC :: int where "VCC_FORCE_HEVC = 2"
definition VCC_FORCE_HEVC_HDR_DEPRECATED :: int where "VCC_FORCE_HEVC_HDR_DEPRECATED = 3"
definition VCC_FORCE_AV1 :: int where "VCC_FORCE_AV1 = 4"
definition DSHM_PHYSICAL :: int where "DSHM_PHYSICAL = 0"
definition DSHM_EMULATED :: int where "DSHM_EMULATED = 1"
definition HBM_HOST_DEFAULT :: int where "HBM_HOST_DEFAULT = 0"
definition HBM_AUTO :: int where "HBM_AUTO = 1"
definition HBM_MANUAL :: int where "HBM_MANUAL = 2"
definition SCM_FOLLOW_HOST :: int where "SCM_FOLLOW_HOST = (-1)"
definition SCM_ENSURE_PRIMARY :: int where "SCM_ENSURE_PRIMARY = 2"
definition SCM_ENSURE_SECONDARY :: int where "SCM_ENSURE_SECONDARY = 4"
definition HDR_PQ :: int where "HDR_PQ = 1"
definition LANG_EN_ID :: int where "LANG_EN_ID = 1"
definition CURRENT_DEFAULT_VER :: int where "CURRENT_DEFAULT_VER = 2"
definition DEFAULT_BACKGROUND_OVERLAY_OPACITY :: int where
  "DEFAULT_BACKGROUND_OVERLAY_OPACITY = 72"

lemmas enum_defs = OMP_DISABLED_def OMP_BUTTON_def OMP_TOP_EDGE_def OMP_RIGHT_EDGE_def OMP_LEFT_EDGE_def
  BGS_PHOTOGRAPHY_def BGS_ANIME_def BGS_API_def BGS_LOCAL_def BGS_NONE_def
  WM_FULLSCREEN_def WM_FULLSCREEN_DESKTOP_def WM_WINDOWED_def UI_WINDOWED_def UI_MAXIMIZED_def
  UI_FULLSCREEN_def VCC_AUTO_def VCC_FORCE_H264_def VCC_FORCE_HEVC_def VCC_FORCE_HEVC_HDR_DEPRECATED_def
  VCC_FORCE_AV1_def DSHM_PHYSICAL_def DSHM_EMULATED_def HBM_HOST_DEFAULT_def HBM_AUTO_def
  HBM_MANUAL_def SCM_FOLLOW_HOST_def SCM_ENSURE_PRIMARY_def SCM_ENSURE_SECONDARY_def HDR_PQ_def
  LANG_EN_ID_def

text \<open>The keys of the store (the \<open>SER_\<close> constants), in the order of the source.\<close>

definition setting_keys :: "string list" where
  "setting_keys =
    [''streamsettings'', ''width'', ''height'', ''fps'',
     ''bitrate'', ''autoadjustbitrate'', ''sunshineabr'', ''fullscreen'',
     ''ignoreaspectratio'', ''vsync'', ''gameopts'', ''hostaudio'',
     ''multicontroller'', ''audiocfg'', ''videocfg'', ''hdr'',
     ''yuv444'', ''videodec'', ''windowmode'', ''mdns'',
     ''quitAppAfter'', ''mouseacceleration'', ''abstouchmode'', ''nativeTouchpad'',
     ''dualSenseHapticsMode'', ''startwindowed'', ''framepacing'', ''videoenhancement'',
     ''streamresolutionscale'', ''streamresolutionscaleratio'', ''remoteresolution'', ''remotewidth'',
     ''remoteheight'', ''remotefps'', ''remotefpsrate'', ''connwarnings'',
     ''confwarnings'', ''uidisplaymode'', ''rememberwindowposition'', ''richpresence'',
     ''gamepadmouse'', ''defaultver'', ''packetsize'', ''detectnetblocking'',
     ''showperfoverlay'', ''swapmousebuttons'', ''swapwinaltkeys'', ''muteonfocusloss'',
     ''backgroundgamepad'', ''gamepadquitcombo'', ''reversescroll'', ''swapfacebuttons'',
     ''capturesyskeys'', ''keepawake'', ''language'', ''screencombinationmode'',
     ''customscreenmode'', ''customvddscreenmode'', ''showLocalCursor'', ''microphone'',
     ''overlaymenuplacement'', ''overlaymenuposition'', ''hdrmode'', ''hdrbrightnessmode'',
     ''hdrmaxbrightness'', ''hdrminbrightness'', ''hdrmaxaveragebrightness'', ''autoupdatecheck'',
     ''usbforwarding'', ''usbforwardingbound'', ''renderer'', ''backgroundsource'',
     ''backgroundimageapi'', ''backgroundimagelocalpath'', ''backgroundoverlayopacity'', ''backgroundsetupcompleted'']"

section \<open>The store\<close>

record 'v codec =
  from_int :: "int \<Rightarrow> 'v"
  from_bool :: "bool \<Rightarrow> 'v"
  from_real :: "real \<Rightarrow> 'v"
  from_str :: "string \<Rightarrow> 'v"
  from_list :: "string list \<Rightarrow> 'v"
  to_int :: "'v \<Rightarrow> int"
  to_boolean :: "'v \<Rightarrow> bool"
  to_float :: "'v \<Rightarrow> real"
  to_text :: "'v \<Rightarrow> string"
  to_texts :: "'v \<Rightarrow> string list"

type_synonym 'v store = "string \<Rightarrow> 'v option"

text \<open>\<open>value(key, default)\<close> followed by the conversion the code asks for.\<close>

definition int_value :: "'v codec \<Rightarrow> 'v store \<Rightarrow> string \<Rightarrow> int \<Rightarrow> int" where
  "int_value q s key d = (case s key of None \<Rightarrow> d | Some v \<Rightarrow> to_int q v)"

definition bool_value :: "'v codec \<Rightarrow> 'v store \<Rightarrow> string \<Rightarrow> bool \<Rightarrow> bool" where
  "bool_value q s key d = (case s key of None \<Rightarrow> d | Some v \<Rightarrow> to_boolean q v)"

definition real_value :: "'v codec \<Rightarrow> 'v store \<Rightarrow> string \<Rightarrow> real \<Rightarrow> real" where
  "real_value q s key d = (case s key of None \<Rightarrow> d | Some v \<Rightarrow> to_float q v)"

definition str_value :: "'v codec \<Rightarrow> 'v store \<Rightarrow> string \<Rightarrow> string \<Rightarrow> string" where
  "str_value q s key d = (case s key of None \<Rightarrow> d | Some v \<Rightarrow> to_text q v)"

definition list_value :: "'v codec \<Rightarrow> 'v store \<Rightarrow> string \<Rightarrow> string list \<Rightarrow> string list" where
  "list_value q s key d = (case s key of None \<Rightarrow> d | Some v \<Rightarrow> to_texts q v)"

lemmas value_defs = int_value_def bool_value_def real_value_def str_value_def list_value_def

record platform =
  windows :: bool
  mac :: bool
  wayland :: bool
  slow_gpu :: bool

section \<open>Preferences\<close>

record prefs =
  width :: "int"
  height :: "int"
  fps :: "int"
  bitrateKbps :: "int"
  autoAdjustBitrate :: "bool"
  enableSunshineAbr :: "bool"
  ignoreAspectRatio :: "bool"
  enableVsync :: "bool"
  gameOptimizations :: "bool"
  playAudioOnHost :: "bool"
  multiController :: "bool"
  enableMdns :: "bool"
  quitAppAfter :: "bool"
  absoluteMouseMode :: "bool"
  showLocalCursor :: "bool"
  absoluteTouchMode :: "bool"
  enableNativeTouchpad :: "bool"
  dualSenseHapticsMode :: "int"
  framePacing :: "bool"
  videoEnhancement :: "bool"
  streamResolutionScale :: "bool"
  streamResolutionScaleRatio :: "int"
  remoteResolution :: "bool"
  remoteResolutionWidth :: "int"
  remoteResolutionHeight :: "int"
  remoteFps :: "bool"
  remoteFpsRate :: "int"
  connectionWarnings :: "bool"
  configurationWarnings :: "bool"
  richPresence :: "bool"
  gamepadMouse :: "bool"
  detectNetworkBlocking :: "bool"
  showPerformanceOverlay :: "bool"
  swapMouseButtons :: "bool"
  swapWinAltKeys :: "bool"
  muteOnFocusLoss :: "bool"
  backgroundGamepad :: "bool"
  gamepadQuitCombo :: "int"
  reverseScrollDirection :: "bool"
  swapFaceButtons :: "bool"
  keepAwake :: "bool"
  packetSize :: "int"
  audioConfig :: "int"
  videoCodecConfig :: "int"
  enableHdr :: "bool"
  hdrMode :: "int"
  hdrBrightnessMode :: "int"
  hdrMaxBrightness :: "real"
  hdrMinBrightness :: "real"
  hdrMaxAverageBrightness :: "real"
  enableYUV444 :: "bool"
  videoDecoderSelection :: "int"
  windowMode :: "int"
  recommendedFullScreenMode :: "int"
  uiDisplayMode :: "int"
  rememberWindowPosition :: "bool"
  language :: "int"
  captureSysKeysMode :: "int"
  screenCombinationMode :: "int"
  enableMicrophone :: "bool"
  overlayMenuPosition :: "int"
  autoUpdateCheck :: "bool"
  usbForwardingEnabled :: "bool"
  rendererSelection :: "int"
  m_UsbForwardingBoundDevices :: "string list"
  m_BackgroundSource :: "int"
  m_BackgroundImageApi :: "string"
  m_BackgroundImageLocalPath :: "string"
  m_BackgroundOverlayOpacity :: "int"
  m_BackgroundSetupCompleted :: "bool"

section \<open>The default bitrate\<close>

text \<open>
  \<open>getDefaultBitrate\<close>: the resolution factor is interpolated in a table of pixel counts, the frame
  rate factor is linear up to 60 and a square root beyond. The source's last entry, with
  \<open>-1\<close> pixels, marks the table's end.
\<close>

definition res_table :: "(int \<times> int) list" where
  "res_table = [(640 * 360, 1), (854 * 480, 2), (1280 * 720, 5), (1920 * 1080, 10),
     (2560 * 1440, 20), (3840 * 2160, 40)]"

text \<open>The loop: \<open>prev\<close> is the table entry before the remaining ones, none at the first.\<close>

fun resolution_factor :: "(int \<times> int) option \<Rightarrow> (int \<times> int) list \<Rightarrow> int \<Rightarrow> real" where
  "resolution_factor prev [] pixels = (case prev of Some (_, f) \<Rightarrow> of_int f | None \<Rightarrow> -1)"
| "resolution_factor prev ((n, f) # rest) pixels =
     (if pixels = n then of_int f
      else if pixels < n
      then (case prev of
              None \<Rightarrow> of_int f
            | Some (n0, f0) \<Rightarrow> of_int (pixels - n0) / of_int (n - n0) * of_int (f - f0) + of_int f0)
      else resolution_factor (Some (n, f)) rest pixels)"

definition frame_rate_factor :: "int \<Rightarrow> real" where
  "frame_rate_factor rate = (if rate \<le> 60 then of_int rate else sqrt (of_int rate / 60) * 60) / 30"

definition qRound :: "real \<Rightarrow> int" where
  "qRound x = (if x \<ge> 0 then \<lfloor>x + 1 / 2\<rfloor> else - \<lfloor>- x + 1 / 2\<rfloor>)"

definition getDefaultBitrate :: "int \<Rightarrow> int \<Rightarrow> int \<Rightarrow> bool \<Rightarrow> int" where
  "getDefaultBitrate w h rate yuv444 =
     qRound (resolution_factor None res_table (int32 (w * h)) * (if yuv444 then 2 else 1)
             * frame_rate_factor rate) * 1000"

section \<open>Loading\<close>

definition decodeOverlayMenuPlacement :: "int \<Rightarrow> int" where
  "decodeOverlayMenuPlacement v =
     (if v \<in> {OMP_TOP_EDGE, OMP_RIGHT_EDGE, OMP_LEFT_EDGE, OMP_BUTTON, OMP_DISABLED} then v
      else OMP_DISABLED)"

definition decodeBackgroundSource :: "int \<Rightarrow> int" where
  "decodeBackgroundSource v =
     (if v \<in> {BGS_PHOTOGRAPHY, BGS_API, BGS_LOCAL, BGS_NONE} then v else BGS_NONE)"

definition migrateLegacyOverlayMenuPosition :: "int \<Rightarrow> int" where
  "migrateLegacyOverlayMenuPosition v =
     (if v = 0 then OMP_RIGHT_EDGE else if v = 1 then OMP_LEFT_EDGE else if v = 3 then OMP_DISABLED
      else if v = 4 then OMP_BUTTON else OMP_RIGHT_EDGE)"

definition loadOverlayMenuPlacement :: "'v codec \<Rightarrow> 'v store \<Rightarrow> int \<times> 'v store" where
  "loadOverlayMenuPlacement q s =
     (if s ''overlaymenuplacement'' \<noteq> None
      then (decodeOverlayMenuPlacement (int_value q s ''overlaymenuplacement'' 0),
            s(''overlaymenuposition'' := None))
      else if s ''overlaymenuposition'' = None then (OMP_DISABLED, s)
      else let p = migrateLegacyOverlayMenuPosition (int_value q s ''overlaymenuposition'' 0)
           in (p, s(''overlaymenuplacement'' \<mapsto> from_int q p, ''overlaymenuposition'' := None)))"

definition recommended :: "platform \<Rightarrow> int" where
  "recommended plat =
     (if mac plat then WM_FULLSCREEN_DESKTOP
      else if wayland plat \<and> \<not> slow_gpu plat then WM_FULLSCREEN_DESKTOP else WM_FULLSCREEN)"

definition read_haptics :: "'v codec \<Rightarrow> platform \<Rightarrow> 'v store \<Rightarrow> int" where
  "read_haptics q plat s =
     (let d = (if windows plat then DSHM_PHYSICAL else DSHM_EMULATED);
          m = int_value q s ''dualSenseHapticsMode'' d;
          m = (if m \<noteq> DSHM_PHYSICAL \<and> m \<noteq> DSHM_EMULATED then d else m)
      in if \<not> windows plat \<and> m = DSHM_PHYSICAL then DSHM_EMULATED else m)"

definition read_brightness :: "'v codec \<Rightarrow> platform \<Rightarrow> 'v store \<Rightarrow> int" where
  "read_brightness q plat s =
     (let d = (if windows plat then HBM_AUTO else HBM_HOST_DEFAULT);
          m = int_value q s ''hdrbrightnessmode'' d
      in if m < HBM_HOST_DEFAULT \<or> m > HBM_MANUAL then d else m)"

definition read_screen_mode :: "'v codec \<Rightarrow> 'v store \<Rightarrow> int" where
  "read_screen_mode q s =
     (let m = (if s ''screencombinationmode'' \<noteq> None
               then int_value q s ''screencombinationmode'' SCM_FOLLOW_HOST
               else let screen = int_value q s ''customscreenmode'' (-1);
                        vdd = int_value q s ''customvddscreenmode'' (-1)
                    in if screen \<noteq> -1 then screen
                       else if vdd = 1 then SCM_ENSURE_PRIMARY
                       else if vdd = 2 then SCM_ENSURE_SECONDARY
                       else vdd)
      in if m < SCM_FOLLOW_HOST \<or> m > SCM_ENSURE_SECONDARY then SCM_FOLLOW_HOST else m)"

text \<open>\<open>reload\<close> up to the migrations at its end; \<open>omp\<close> is the overlay menu position loaded before.\<close>

definition read_prefs :: "'v codec \<Rightarrow> platform \<Rightarrow> int \<Rightarrow> 'v store \<Rightarrow> prefs" where
  "read_prefs q plat omp s =
     (let w = int_value q s ''width'' 1280; h = int_value q s ''height'' 720;
          f = int_value q s ''fps'' 60; yuv = bool_value q s ''yuv444'' False
      in \<lparr>width = w,
         height = h,
         fps = f,
         bitrateKbps = int_value q s ''bitrate'' (getDefaultBitrate w h f yuv),
         autoAdjustBitrate = bool_value q s ''autoadjustbitrate'' True,
         enableSunshineAbr = bool_value q s ''sunshineabr'' False,
         ignoreAspectRatio = bool_value q s ''ignoreaspectratio'' True,
         enableVsync = bool_value q s ''vsync'' True,
         gameOptimizations = bool_value q s ''gameopts'' True,
         playAudioOnHost = bool_value q s ''hostaudio'' False,
         multiController = bool_value q s ''multicontroller'' True,
         enableMdns = bool_value q s ''mdns'' True,
         quitAppAfter = bool_value q s ''quitAppAfter'' False,
         absoluteMouseMode = bool_value q s ''mouseacceleration'' False,
         showLocalCursor = bool_value q s ''showLocalCursor'' False,
         absoluteTouchMode = bool_value q s ''abstouchmode'' True,
         enableNativeTouchpad = bool_value q s ''nativeTouchpad'' False,
         dualSenseHapticsMode = read_haptics q plat s,
         framePacing = bool_value q s ''framepacing'' False,
         videoEnhancement = bool_value q s ''videoenhancement'' False,
         streamResolutionScale = bool_value q s ''streamresolutionscale'' False,
         streamResolutionScaleRatio = int_value q s ''streamresolutionscaleratio'' 100,
         remoteResolution = bool_value q s ''remoteresolution'' False,
         remoteResolutionWidth = int_value q s ''remotewidth'' 1280,
         remoteResolutionHeight = int_value q s ''remoteheight'' 720,
         remoteFps = bool_value q s ''remotefps'' False,
         remoteFpsRate = int_value q s ''remotefpsrate'' 60,
         connectionWarnings = bool_value q s ''connwarnings'' True,
         configurationWarnings = bool_value q s ''confwarnings'' True,
         richPresence = bool_value q s ''richpresence'' True,
         gamepadMouse = bool_value q s ''gamepadmouse'' True,
         detectNetworkBlocking = bool_value q s ''detectnetblocking'' True,
         showPerformanceOverlay = bool_value q s ''showperfoverlay'' False,
         swapMouseButtons = bool_value q s ''swapmousebuttons'' False,
         swapWinAltKeys = bool_value q s ''swapwinaltkeys'' False,
         muteOnFocusLoss = bool_value q s ''muteonfocusloss'' False,
         backgroundGamepad = bool_value q s ''backgroundgamepad'' False,
         gamepadQuitCombo = int_value q s ''gamepadquitcombo'' 0,
         reverseScrollDirection = bool_value q s ''reversescroll'' False,
         swapFaceButtons = bool_value q s ''swapfacebuttons'' False,
         keepAwake = bool_value q s ''keepawake'' True,
         packetSize = int_value q s ''packetsize'' 0,
         audioConfig = int_value q s ''audiocfg'' 0,
         videoCodecConfig = int_value q s ''videocfg'' VCC_AUTO,
         enableHdr = bool_value q s ''hdr'' False,
         hdrMode = int_value q s ''hdrmode'' HDR_PQ,
         hdrBrightnessMode = read_brightness q plat s,
         hdrMaxBrightness = real_value q s ''hdrmaxbrightness'' 1000,
         hdrMinBrightness = real_value q s ''hdrminbrightness'' (1 / 1000),
         hdrMaxAverageBrightness = real_value q s ''hdrmaxaveragebrightness'' 1000,
         enableYUV444 = yuv,
         videoDecoderSelection = int_value q s ''videodec'' 0,
         windowMode = int_value q s ''windowmode'' (if bool_value q s ''fullscreen'' True then recommended plat else WM_WINDOWED),
         recommendedFullScreenMode = recommended plat,
         uiDisplayMode = int_value q s ''uidisplaymode'' (if bool_value q s ''startwindowed'' True then UI_WINDOWED else UI_MAXIMIZED),
         rememberWindowPosition = bool_value q s ''rememberwindowposition'' True,
         language = int_value q s ''language'' LANG_EN_ID,
         captureSysKeysMode = int_value q s ''capturesyskeys'' 0,
         screenCombinationMode = read_screen_mode q s,
         enableMicrophone = bool_value q s ''microphone'' False,
         overlayMenuPosition = omp,
         autoUpdateCheck = bool_value q s ''autoupdatecheck'' True,
         usbForwardingEnabled = bool_value q s ''usbforwarding'' False,
         rendererSelection = int_value q s ''renderer'' 0,
         m_UsbForwardingBoundDevices = list_value q s ''usbforwardingbound'' [],
         m_BackgroundSource = decodeBackgroundSource (int_value q s ''backgroundsource'' BGS_NONE),
         m_BackgroundImageApi = trimmed (str_value q s ''backgroundimageapi'' []),
         m_BackgroundImageLocalPath = str_value q s ''backgroundimagelocalpath'' [],
         m_BackgroundOverlayOpacity = max 0 (min 100 (int_value q s ''backgroundoverlayopacity'' DEFAULT_BACKGROUND_OVERLAY_OPACITY)),
         m_BackgroundSetupCompleted = bool_value q s ''backgroundsetupcompleted'' False\<rparr>)"

text \<open>The updates of defaults and the repair of the retired codec value.\<close>

definition upgrade_prefs :: "platform \<Rightarrow> int \<Rightarrow> prefs \<Rightarrow> prefs" where
  "upgrade_prefs plat ver p =
     (let p = (if ver < 1 \<and> mac plat \<and> windowMode p = WM_FULLSCREEN
               then p\<lparr>windowMode := WM_FULLSCREEN_DESKTOP\<rparr> else p);
          p = (if ver < 2 \<and> windowMode p = WM_FULLSCREEN \<and> wayland plat
               then p\<lparr>windowMode := WM_FULLSCREEN_DESKTOP\<rparr> else p)
      in if videoCodecConfig p = VCC_FORCE_HEVC_HDR_DEPRECATED
         then p\<lparr>videoCodecConfig := VCC_AUTO, enableHdr := True\<rparr> else p)"

definition reload :: "'v codec \<Rightarrow> platform \<Rightarrow> 'v store \<Rightarrow> prefs \<times> 'v store" where
  "reload q plat s =
     (let ver = int_value q s ''defaultver'' 0;
          (omp, s') = loadOverlayMenuPlacement q s
      in (upgrade_prefs plat ver (read_prefs q plat omp s'), s'))"

section \<open>Saving\<close>

text \<open>The \<open>setValue\<close> and \<open>remove\<close> calls of \<open>save\<close>, in order; a removal has no value.\<close>

definition save_calls :: "'v codec \<Rightarrow> prefs \<Rightarrow> (string \<times> 'v option) list" where
  "save_calls q p =
    [(''width'', Some (from_int q (width p))),
     (''height'', Some (from_int q (height p))),
     (''fps'', Some (from_int q (fps p))),
     (''bitrate'', Some (from_int q (bitrateKbps p))),
     (''autoadjustbitrate'', Some (from_bool q (autoAdjustBitrate p))),
     (''sunshineabr'', Some (from_bool q (enableSunshineAbr p))),
     (''ignoreaspectratio'', Some (from_bool q (ignoreAspectRatio p))),
     (''vsync'', Some (from_bool q (enableVsync p))),
     (''gameopts'', Some (from_bool q (gameOptimizations p))),
     (''hostaudio'', Some (from_bool q (playAudioOnHost p))),
     (''multicontroller'', Some (from_bool q (multiController p))),
     (''mdns'', Some (from_bool q (enableMdns p))),
     (''quitAppAfter'', Some (from_bool q (quitAppAfter p))),
     (''mouseacceleration'', Some (from_bool q (absoluteMouseMode p))),
     (''showLocalCursor'', Some (from_bool q (showLocalCursor p))),
     (''abstouchmode'', Some (from_bool q (absoluteTouchMode p))),
     (''nativeTouchpad'', Some (from_bool q (enableNativeTouchpad p))),
     (''dualSenseHapticsMode'', Some (from_int q (dualSenseHapticsMode p))),
     (''framepacing'', Some (from_bool q (framePacing p))),
     (''videoenhancement'', Some (from_bool q (videoEnhancement p))),
     (''streamresolutionscale'', Some (from_bool q (streamResolutionScale p))),
     (''streamresolutionscaleratio'', Some (from_int q (streamResolutionScaleRatio p))),
     (''remoteresolution'', Some (from_bool q (remoteResolution p))),
     (''remotewidth'', Some (from_int q (remoteResolutionWidth p))),
     (''remoteheight'', Some (from_int q (remoteResolutionHeight p))),
     (''remotefps'', Some (from_bool q (remoteFps p))),
     (''remotefpsrate'', Some (from_int q (remoteFpsRate p))),
     (''connwarnings'', Some (from_bool q (connectionWarnings p))),
     (''confwarnings'', Some (from_bool q (configurationWarnings p))),
     (''richpresence'', Some (from_bool q (richPresence p))),
     (''gamepadmouse'', Some (from_bool q (gamepadMouse p))),
     (''packetsize'', Some (from_int q (packetSize p))),
     (''detectnetblocking'', Some (from_bool q (detectNetworkBlocking p))),
     (''showperfoverlay'', Some (from_bool q (showPerformanceOverlay p))),
     (''audiocfg'', Some (from_int q (audioConfig p))),
     (''hdr'', Some (from_bool q (enableHdr p))),
     (''hdrmode'', Some (from_int q (hdrMode p))),
     (''hdrbrightnessmode'', Some (from_int q (hdrBrightnessMode p))),
     (''hdrmaxbrightness'', Some (from_real q (hdrMaxBrightness p))),
     (''hdrminbrightness'', Some (from_real q (hdrMinBrightness p))),
     (''hdrmaxaveragebrightness'', Some (from_real q (hdrMaxAverageBrightness p))),
     (''yuv444'', Some (from_bool q (enableYUV444 p))),
     (''videocfg'', Some (from_int q (videoCodecConfig p))),
     (''videodec'', Some (from_int q (videoDecoderSelection p))),
     (''renderer'', Some (from_int q (rendererSelection p))),
     (''windowmode'', Some (from_int q (windowMode p))),
     (''uidisplaymode'', Some (from_int q (uiDisplayMode p))),
     (''rememberwindowposition'', Some (from_bool q (rememberWindowPosition p))),
     (''language'', Some (from_int q (language p))),
     (''backgroundsource'', Some (from_int q (m_BackgroundSource p))),
     (''backgroundimageapi'', Some (from_str q (m_BackgroundImageApi p))),
     (''backgroundimagelocalpath'', Some (from_str q (m_BackgroundImageLocalPath p))),
     (''backgroundoverlayopacity'', Some (from_int q (m_BackgroundOverlayOpacity p))),
     (''backgroundsetupcompleted'', Some (from_bool q (m_BackgroundSetupCompleted p))),
     (''defaultver'', Some (from_int q CURRENT_DEFAULT_VER)),
     (''swapmousebuttons'', Some (from_bool q (swapMouseButtons p))),
     (''swapwinaltkeys'', Some (from_bool q (swapWinAltKeys p))),
     (''muteonfocusloss'', Some (from_bool q (muteOnFocusLoss p))),
     (''backgroundgamepad'', Some (from_bool q (backgroundGamepad p))),
     (''gamepadquitcombo'', Some (from_int q (gamepadQuitCombo p))),
     (''reversescroll'', Some (from_bool q (reverseScrollDirection p))),
     (''swapfacebuttons'', Some (from_bool q (swapFaceButtons p))),
     (''capturesyskeys'', Some (from_int q (captureSysKeysMode p))),
     (''keepawake'', Some (from_bool q (keepAwake p))),
     (''screencombinationmode'', Some (from_int q (screenCombinationMode p))),
     (''customscreenmode'', None),
     (''customvddscreenmode'', None),
     (''microphone'', Some (from_bool q (enableMicrophone p))),
     (''overlaymenuplacement'', Some (from_int q (overlayMenuPosition p))),
     (''autoupdatecheck'', Some (from_bool q (autoUpdateCheck p))),
     (''usbforwarding'', Some (from_bool q (usbForwardingEnabled p))),
     (''usbforwardingbound'', Some (from_list q (m_UsbForwardingBoundDevices p)))]"

definition save :: "'v codec \<Rightarrow> prefs \<Rightarrow> 'v store \<Rightarrow> 'v store" where
  "save q p s = foldl (\<lambda>m (k, v). m(k := v)) s (save_calls q p)"

fun call_value :: "(string \<times> 'v option) list \<Rightarrow> string \<Rightarrow> 'v option \<Rightarrow> 'v option" where
  "call_value [] k d = d"
| "call_value ((k', v) # cs) k d = (if k' = k then v else call_value cs k d)"

lemma foldl_updates:
  "distinct (map fst cs) \<Longrightarrow> foldl (\<lambda>m (k, v). m(k := v)) s cs k = call_value cs k (s k)"
proof (induction cs arbitrary: s)
  case (Cons c cs)
  obtain k' v where c: "c = (k', v)" by (cases c)
  have "call_value cs k' d = d" for d
    using Cons.prems c by (induction cs) auto
  then show ?case using Cons c by auto
qed simp

lemma save_keys_distinct: "distinct (map fst (save_calls q p))"
  by (simp add: save_calls_def)

lemma save_lookup: "save q p s k = call_value (save_calls q p) k (s k)"
  unfolding save_def by (rule foldl_updates [OF save_keys_distinct])

lemma save_lookups [simp]:
  "save q p s ''width'' = Some (from_int q (width p))"
  "save q p s ''height'' = Some (from_int q (height p))"
  "save q p s ''fps'' = Some (from_int q (fps p))"
  "save q p s ''bitrate'' = Some (from_int q (bitrateKbps p))"
  "save q p s ''autoadjustbitrate'' = Some (from_bool q (autoAdjustBitrate p))"
  "save q p s ''sunshineabr'' = Some (from_bool q (enableSunshineAbr p))"
  "save q p s ''ignoreaspectratio'' = Some (from_bool q (ignoreAspectRatio p))"
  "save q p s ''vsync'' = Some (from_bool q (enableVsync p))"
  "save q p s ''gameopts'' = Some (from_bool q (gameOptimizations p))"
  "save q p s ''hostaudio'' = Some (from_bool q (playAudioOnHost p))"
  "save q p s ''multicontroller'' = Some (from_bool q (multiController p))"
  "save q p s ''mdns'' = Some (from_bool q (enableMdns p))"
  "save q p s ''quitAppAfter'' = Some (from_bool q (quitAppAfter p))"
  "save q p s ''mouseacceleration'' = Some (from_bool q (absoluteMouseMode p))"
  "save q p s ''showLocalCursor'' = Some (from_bool q (showLocalCursor p))"
  "save q p s ''abstouchmode'' = Some (from_bool q (absoluteTouchMode p))"
  "save q p s ''nativeTouchpad'' = Some (from_bool q (enableNativeTouchpad p))"
  "save q p s ''dualSenseHapticsMode'' = Some (from_int q (dualSenseHapticsMode p))"
  "save q p s ''framepacing'' = Some (from_bool q (framePacing p))"
  "save q p s ''videoenhancement'' = Some (from_bool q (videoEnhancement p))"
  "save q p s ''streamresolutionscale'' = Some (from_bool q (streamResolutionScale p))"
  "save q p s ''streamresolutionscaleratio'' = Some (from_int q (streamResolutionScaleRatio p))"
  "save q p s ''remoteresolution'' = Some (from_bool q (remoteResolution p))"
  "save q p s ''remotewidth'' = Some (from_int q (remoteResolutionWidth p))"
  "save q p s ''remoteheight'' = Some (from_int q (remoteResolutionHeight p))"
  "save q p s ''remotefps'' = Some (from_bool q (remoteFps p))"
  "save q p s ''remotefpsrate'' = Some (from_int q (remoteFpsRate p))"
  "save q p s ''connwarnings'' = Some (from_bool q (connectionWarnings p))"
  "save q p s ''confwarnings'' = Some (from_bool q (configurationWarnings p))"
  "save q p s ''richpresence'' = Some (from_bool q (richPresence p))"
  "save q p s ''gamepadmouse'' = Some (from_bool q (gamepadMouse p))"
  "save q p s ''packetsize'' = Some (from_int q (packetSize p))"
  "save q p s ''detectnetblocking'' = Some (from_bool q (detectNetworkBlocking p))"
  "save q p s ''showperfoverlay'' = Some (from_bool q (showPerformanceOverlay p))"
  "save q p s ''audiocfg'' = Some (from_int q (audioConfig p))"
  "save q p s ''hdr'' = Some (from_bool q (enableHdr p))"
  "save q p s ''hdrmode'' = Some (from_int q (hdrMode p))"
  "save q p s ''hdrbrightnessmode'' = Some (from_int q (hdrBrightnessMode p))"
  "save q p s ''hdrmaxbrightness'' = Some (from_real q (hdrMaxBrightness p))"
  "save q p s ''hdrminbrightness'' = Some (from_real q (hdrMinBrightness p))"
  "save q p s ''hdrmaxaveragebrightness'' = Some (from_real q (hdrMaxAverageBrightness p))"
  "save q p s ''yuv444'' = Some (from_bool q (enableYUV444 p))"
  "save q p s ''videocfg'' = Some (from_int q (videoCodecConfig p))"
  "save q p s ''videodec'' = Some (from_int q (videoDecoderSelection p))"
  "save q p s ''renderer'' = Some (from_int q (rendererSelection p))"
  "save q p s ''windowmode'' = Some (from_int q (windowMode p))"
  "save q p s ''uidisplaymode'' = Some (from_int q (uiDisplayMode p))"
  "save q p s ''rememberwindowposition'' = Some (from_bool q (rememberWindowPosition p))"
  "save q p s ''language'' = Some (from_int q (language p))"
  "save q p s ''backgroundsource'' = Some (from_int q (m_BackgroundSource p))"
  "save q p s ''backgroundimageapi'' = Some (from_str q (m_BackgroundImageApi p))"
  "save q p s ''backgroundimagelocalpath'' = Some (from_str q (m_BackgroundImageLocalPath p))"
  "save q p s ''backgroundoverlayopacity'' = Some (from_int q (m_BackgroundOverlayOpacity p))"
  "save q p s ''backgroundsetupcompleted'' = Some (from_bool q (m_BackgroundSetupCompleted p))"
  "save q p s ''defaultver'' = Some (from_int q CURRENT_DEFAULT_VER)"
  "save q p s ''swapmousebuttons'' = Some (from_bool q (swapMouseButtons p))"
  "save q p s ''swapwinaltkeys'' = Some (from_bool q (swapWinAltKeys p))"
  "save q p s ''muteonfocusloss'' = Some (from_bool q (muteOnFocusLoss p))"
  "save q p s ''backgroundgamepad'' = Some (from_bool q (backgroundGamepad p))"
  "save q p s ''gamepadquitcombo'' = Some (from_int q (gamepadQuitCombo p))"
  "save q p s ''reversescroll'' = Some (from_bool q (reverseScrollDirection p))"
  "save q p s ''swapfacebuttons'' = Some (from_bool q (swapFaceButtons p))"
  "save q p s ''capturesyskeys'' = Some (from_int q (captureSysKeysMode p))"
  "save q p s ''keepawake'' = Some (from_bool q (keepAwake p))"
  "save q p s ''screencombinationmode'' = Some (from_int q (screenCombinationMode p))"
  "save q p s ''customscreenmode'' = None"
  "save q p s ''customvddscreenmode'' = None"
  "save q p s ''microphone'' = Some (from_bool q (enableMicrophone p))"
  "save q p s ''overlaymenuplacement'' = Some (from_int q (overlayMenuPosition p))"
  "save q p s ''autoupdatecheck'' = Some (from_bool q (autoUpdateCheck p))"
  "save q p s ''usbforwarding'' = Some (from_bool q (usbForwardingEnabled p))"
  "save q p s ''usbforwardingbound'' = Some (from_list q (m_UsbForwardingBoundDevices p))"
  unfolding save_lookup save_calls_def
  by (simp_all only: call_value.simps list.inject char.inject simp_thms if_True if_False list.distinct)

section \<open>Round trips\<close>

text \<open>What \<open>QSettings\<close> documents of a value stored and read back with its own type.\<close>

definition faithful :: "'v codec \<Rightarrow> bool" where
  "faithful q \<longleftrightarrow> (\<forall>i. to_int q (from_int q i) = i) \<and> (\<forall>b. to_boolean q (from_bool q b) = b)
     \<and> (\<forall>x. to_float q (from_real q x) = x) \<and> (\<forall>t. to_text q (from_str q t) = t)
     \<and> (\<forall>ts. to_texts q (from_list q ts) = ts)"

lemma faithfulD [simp]:
  "faithful q \<Longrightarrow> to_int q (from_int q i) = i"
  "faithful q \<Longrightarrow> to_boolean q (from_bool q b) = b"
  "faithful q \<Longrightarrow> to_float q (from_real q x) = x"
  "faithful q \<Longrightarrow> to_text q (from_str q t) = t"
  "faithful q \<Longrightarrow> to_texts q (from_list q ts) = ts"
  by (simp_all add: faithful_def)

text \<open>
  The preferences whose checked members are in range on a platform. Loading checks the haptics and the
  overlay menu, the HDR brightness and screen combination modes, the members of the background and the
  retired codec; the other enumerations are cast from whatever number is stored (\<open>taken_as_stored\<close>).
\<close>

definition checked_prefs :: "platform \<Rightarrow> prefs \<Rightarrow> bool" where
  "checked_prefs plat p \<longleftrightarrow>
     dualSenseHapticsMode p \<in> (if windows plat then {DSHM_PHYSICAL, DSHM_EMULATED} else {DSHM_EMULATED})
   \<and> overlayMenuPosition p \<in> {OMP_DISABLED, OMP_BUTTON, OMP_TOP_EDGE, OMP_RIGHT_EDGE, OMP_LEFT_EDGE}
   \<and> HBM_HOST_DEFAULT \<le> hdrBrightnessMode p \<and> hdrBrightnessMode p \<le> HBM_MANUAL
   \<and> SCM_FOLLOW_HOST \<le> screenCombinationMode p \<and> screenCombinationMode p \<le> SCM_ENSURE_SECONDARY
   \<and> m_BackgroundSource p \<in> {BGS_PHOTOGRAPHY, BGS_API, BGS_LOCAL, BGS_NONE}
   \<and> 0 \<le> m_BackgroundOverlayOpacity p \<and> m_BackgroundOverlayOpacity p \<le> 100
   \<and> trimmed (m_BackgroundImageApi p) = m_BackgroundImageApi p
   \<and> videoCodecConfig p \<noteq> VCC_FORCE_HEVC_HDR_DEPRECATED
   \<and> recommendedFullScreenMode p = recommended plat"

lemma read_saved:
  assumes q: "faithful q" and p: "checked_prefs plat p"
  shows "read_prefs q plat (overlayMenuPosition p) ((save q p s)(''overlaymenuposition'' := None)) = p"
proof -
  have m: "read_haptics q plat ((save q p s)(''overlaymenuposition'' := None)) = dualSenseHapticsMode p"
      "read_brightness q plat ((save q p s)(''overlaymenuposition'' := None)) = hdrBrightnessMode p"
      "read_screen_mode q ((save q p s)(''overlaymenuposition'' := None)) = screenCombinationMode p"
      "decodeBackgroundSource (m_BackgroundSource p) = m_BackgroundSource p"
      "max 0 (min 100 (m_BackgroundOverlayOpacity p)) = m_BackgroundOverlayOpacity p"
      "trimmed (m_BackgroundImageApi p) = m_BackgroundImageApi p"
      "recommended plat = recommendedFullScreenMode p"
    using p q
    by (auto simp: checked_prefs_def read_haptics_def read_brightness_def read_screen_mode_def
        decodeBackgroundSource_def int_value_def Let_def split: if_splits)
  show ?thesis
    by (rule prefs.equality) (simp_all add: read_prefs_def Let_def value_defs q m)
qed

lemma save_overlay:
  assumes "faithful q" and "checked_prefs plat p"
  shows "loadOverlayMenuPlacement q (save q p s) =
    (overlayMenuPosition p, (save q p s)(''overlaymenuposition'' := None))"
  using assms
  by (auto simp: loadOverlayMenuPlacement_def int_value_def decodeOverlayMenuPlacement_def checked_prefs_def)

lemma reload_saved:
  assumes "faithful q" and "checked_prefs plat p"
  shows "fst (reload q plat (save q p s)) = p"
proof -
  have "int_value q (save q p s) ''defaultver'' 0 = 2"
    using assms(1) by (simp add: int_value_def CURRENT_DEFAULT_VER_def)
  moreover have "upgrade_prefs plat 2 p = p"
    using assms(2) by (simp add: upgrade_prefs_def checked_prefs_def)
  ultimately show ?thesis
    by (simp add: reload_def save_overlay [OF assms] read_saved [OF assms])
qed

text \<open>
  C32: what is saved is what is loaded: for preferences in range, whatever the store held before,
  loading after saving gives back every member, in spite of the migrations, fallbacks and repairs
  that loading performs.
\<close>

theorem settings_roundtrip:
  assumes "faithful q" and "checked_prefs plat p"
  shows "fst (reload q plat (save q p s)) = p"
  using assms by (rule reload_saved)

text \<open>The members loading reads through a check, whatever is stored.\<close>

lemma read_in_range:
  "read_haptics q plat s \<in> (if windows plat then {DSHM_PHYSICAL, DSHM_EMULATED} else {DSHM_EMULATED})"
  "HBM_HOST_DEFAULT \<le> read_brightness q plat s" "read_brightness q plat s \<le> HBM_MANUAL"
  "SCM_FOLLOW_HOST \<le> read_screen_mode q s" "read_screen_mode q s \<le> SCM_ENSURE_SECONDARY"
  "decodeBackgroundSource v \<in> {BGS_PHOTOGRAPHY, BGS_API, BGS_LOCAL, BGS_NONE}"
  "fst (loadOverlayMenuPlacement q s) \<in>
     {OMP_DISABLED, OMP_BUTTON, OMP_TOP_EDGE, OMP_RIGHT_EDGE, OMP_LEFT_EDGE}"
  by (auto simp: read_haptics_def read_brightness_def read_screen_mode_def decodeBackgroundSource_def
      loadOverlayMenuPlacement_def decodeOverlayMenuPlacement_def migrateLegacyOverlayMenuPosition_def
      Let_def enum_defs)

lemma read_prefs_checked:
  "dualSenseHapticsMode (read_prefs q plat omp s) = read_haptics q plat s"
  "overlayMenuPosition (read_prefs q plat omp s) = omp"
  "hdrBrightnessMode (read_prefs q plat omp s) = read_brightness q plat s"
  "screenCombinationMode (read_prefs q plat omp s) = read_screen_mode q s"
  "m_BackgroundSource (read_prefs q plat omp s) =
     decodeBackgroundSource (int_value q s ''backgroundsource'' BGS_NONE)"
  "m_BackgroundOverlayOpacity (read_prefs q plat omp s) =
     max 0 (min 100 (int_value q s ''backgroundoverlayopacity'' DEFAULT_BACKGROUND_OVERLAY_OPACITY))"
  "m_BackgroundImageApi (read_prefs q plat omp s) = trimmed (str_value q s ''backgroundimageapi'' [])"
  "recommendedFullScreenMode (read_prefs q plat omp s) = recommended plat"
  by (simp_all add: read_prefs_def Let_def)

lemma upgrade_keeps:
  "dualSenseHapticsMode (upgrade_prefs plat ver p) = dualSenseHapticsMode p"
  "overlayMenuPosition (upgrade_prefs plat ver p) = overlayMenuPosition p"
  "hdrBrightnessMode (upgrade_prefs plat ver p) = hdrBrightnessMode p"
  "screenCombinationMode (upgrade_prefs plat ver p) = screenCombinationMode p"
  "m_BackgroundSource (upgrade_prefs plat ver p) = m_BackgroundSource p"
  "m_BackgroundOverlayOpacity (upgrade_prefs plat ver p) = m_BackgroundOverlayOpacity p"
  "m_BackgroundImageApi (upgrade_prefs plat ver p) = m_BackgroundImageApi p"
  "recommendedFullScreenMode (upgrade_prefs plat ver p) = recommendedFullScreenMode p"
  "videoCodecConfig (upgrade_prefs plat ver p) \<noteq> VCC_FORCE_HEVC_HDR_DEPRECATED"
  by (auto simp: upgrade_prefs_def Let_def VCC_AUTO_def VCC_FORCE_HEVC_HDR_DEPRECATED_def)

lemma reload_in_range: "checked_prefs plat (fst (reload q plat s))"
proof -
  obtain omp s' where o: "loadOverlayMenuPlacement q s = (omp, s')" by force
  have omp: "omp \<in> {OMP_DISABLED, OMP_BUTTON, OMP_TOP_EDGE, OMP_RIGHT_EDGE, OMP_LEFT_EDGE}"
    using read_in_range(7) [of q s] o by simp
  show ?thesis
    using read_in_range(1-3) [of q plat s'] read_in_range(4, 5) [of q s']
      read_in_range(6) [of "int_value q s' ''backgroundsource'' BGS_NONE"] omp
    by (simp add: reload_def o checked_prefs_def upgrade_keeps read_prefs_checked)
qed






lemma decode_migrated [simp]:
  "decodeOverlayMenuPlacement (migrateLegacyOverlayMenuPosition v) = migrateLegacyOverlayMenuPosition v"
  "decodeOverlayMenuPlacement (decodeOverlayMenuPlacement v) = decodeOverlayMenuPlacement v"
  by (auto simp: decodeOverlayMenuPlacement_def migrateLegacyOverlayMenuPosition_def)

lemma load_overlay_twice:
  assumes "faithful q"
  shows "loadOverlayMenuPlacement q (snd (loadOverlayMenuPlacement q s)) = loadOverlayMenuPlacement q s"
  using assms
  by (auto simp: loadOverlayMenuPlacement_def Let_def int_value_def fun_upd_idem_iff fun_eq_iff)

lemma load_overlay_version:
  "int_value q (snd (loadOverlayMenuPlacement q s)) ''defaultver'' 0 = int_value q s ''defaultver'' 0"
  by (simp add: loadOverlayMenuPlacement_def Let_def int_value_def)

text \<open>
  the migration of the overlay menu position runs once: a second load, from the store the
  first one left behind, reads the same preferences and changes the store no further, and the
  retired key is gone.
\<close>

theorem migration_runs_once:
  assumes "faithful q"
  shows "reload q plat (snd (reload q plat s)) = reload q plat s
       \<and> snd (reload q plat s) ''overlaymenuposition'' = None"
proof -
  obtain omp s' where o: "loadOverlayMenuPlacement q s = (omp, s')" by force
  have "loadOverlayMenuPlacement q s' = (omp, s')"
    using load_overlay_twice [OF assms, of s] o by simp
  moreover have "int_value q s' ''defaultver'' 0 = int_value q s ''defaultver'' 0"
    using load_overlay_version [of q s] o by simp
  moreover have "s' ''overlaymenuposition'' = None"
    using o by (auto simp: loadOverlayMenuPlacement_def Let_def split: if_splits)
  ultimately show ?thesis by (simp add: reload_def o)
qed

section \<open>The default bitrate grows with the picture\<close>

definition increasing :: "(int \<times> int) list \<Rightarrow> bool" where
  "increasing t \<longleftrightarrow> sorted_wrt (\<lambda>(n, f) (n', f'). n < n' \<and> f \<le> f') t"

lemma interpolation_bounds:
  fixes n0 n f0 f x y :: int
  assumes "n0 < n" "f0 \<le> f" "n0 \<le> x" "x \<le> y" "y \<le> n"
  defines "g \<equiv> \<lambda>x. of_int (x - n0) / of_int (n - n0) * of_int (f - f0) + of_int f0 :: real"
  shows "of_int f0 \<le> g x" "g x \<le> g y" "g y \<le> of_int f"
proof -
  have d: "(0 :: real) < of_int (n - n0)" "(0 :: real) \<le> of_int (f - f0)" using assms(1, 2) by auto
  show "of_int f0 \<le> g x"
    using d assms(3) by (simp add: g_def)
  show "g x \<le> g y"
    using d assms(4) unfolding g_def by (intro add_right_mono mult_right_mono divide_right_mono) auto
  have "of_int (y - n0) / of_int (n - n0) \<le> (1 :: real)" using d assms(5) by simp
  then have "of_int (y - n0) / of_int (n - n0) * of_int (f - f0) \<le> (1 :: real) * of_int (f - f0)"
    using d by (intro mult_right_mono) auto
  then show "g y \<le> of_int f" by (simp add: g_def)
qed

lemma interpolated:
  "n0 < n \<Longrightarrow> x \<le> n \<Longrightarrow> resolution_factor (Some (n0, f0)) ((n, f) # t) x =
     of_int (x - n0) / of_int (n - n0) * of_int (f - f0) + of_int f0"
  by simp

lemma resolution_factor_lower:
  assumes "increasing ((n0, f0) # t)" and "n0 \<le> x"
  shows "of_int f0 \<le> resolution_factor (Some (n0, f0)) t x"
  using assms
proof (induction t arbitrary: n0 f0)
  case (Cons c t)
  obtain n f where c: "c = (n, f)" by (cases c)
  have inc: "n0 < n" "f0 \<le> f" "increasing ((n, f) # t)" using Cons.prems c by (auto simp: increasing_def)
  show ?case
  proof (cases "x \<le> n")
    case True
    then show ?thesis
      using c inc interpolation_bounds(1) [of n0 n f0 f x x] Cons.prems(2) by simp
  next
    case False
    then have "of_int f \<le> resolution_factor (Some (n, f)) t x" using Cons.IH [OF inc(3)] by simp
    moreover have "(of_int f0 :: real) \<le> of_int f" using inc by simp
    ultimately show ?thesis using False c by simp
  qed
qed simp

lemma resolution_factor_mono_from:
  assumes "increasing ((n0, f0) # t)" and "n0 \<le> x" and "x \<le> y"
  shows "resolution_factor (Some (n0, f0)) t x \<le> resolution_factor (Some (n0, f0)) t y"
  using assms
proof (induction t arbitrary: n0 f0)
  case (Cons c t)
  obtain n f where c: "c = (n, f)" by (cases c)
  have inc: "n0 < n" "f0 \<le> f" "increasing ((n, f) # t)" using Cons.prems c by (auto simp: increasing_def)
  note b = interpolation_bounds [OF inc(1, 2) Cons.prems(2)]
  consider (low) "y \<le> n" | (across) "x \<le> n" "n < y" | (high) "n < x" using Cons.prems(3) by linarith
  then show ?case
  proof cases
    case low
    then show ?thesis
      using b(2) [OF Cons.prems(3) low] interpolated [OF inc(1)] Cons.prems(3) c by simp
  next
    case across
    have "resolution_factor (Some (n0, f0)) (c # t) x \<le> of_int f"
      using b(3) [of x] across c by simp
    also have "\<dots> \<le> resolution_factor (Some (n, f)) t y"
      using resolution_factor_lower [OF inc(3)] across by simp
    finally show ?thesis using across c by simp
  next
    case high
    then show ?thesis using Cons.IH [OF inc(3)] Cons.prems(3) c by simp
  qed
qed simp

lemma resolution_factor_mono:
  assumes "x \<le> y"
  shows "resolution_factor None res_table x \<le> resolution_factor None res_table y"
    and "0 < resolution_factor None res_table x"
proof -
  define t :: "(int \<times> int) list" where "t = [(854 * 480, 2), (1280 * 720, 5), (1920 * 1080, 10), (2560 * 1440, 20), (3840 * 2160, 40)]"
  have tab: "res_table = (640 * 360, 1) # t" by (simp add: res_table_def t_def)
  have inc: "increasing ((640 * 360, 1) # t)" by (simp add: increasing_def t_def)
  have rf: "resolution_factor None res_table z =
      (if z \<le> 640 * 360 then 1 else resolution_factor (Some (640 * 360, 1)) t z)" for z
    unfolding tab by simp
  have low: "1 \<le> resolution_factor (Some (640 * 360, 1)) t z" if "640 * 360 \<le> z" for z
    using resolution_factor_lower [OF inc that] by simp
  show "resolution_factor None res_table x \<le> resolution_factor None res_table y"
    using resolution_factor_mono_from [OF inc _ assms] low [of y] assms by (auto simp: rf)
  show "0 < resolution_factor None res_table x" using low [of x] by (auto simp: rf)
qed

lemma frame_rate_factor_mono:
  assumes "a \<le> b" and "0 \<le> a"
  shows "frame_rate_factor a \<le> frame_rate_factor b" and "0 \<le> frame_rate_factor a"
proof -
  have s: "60 \<le> sqrt (of_int r / 60) * 60" if "60 < r" for r :: int
  proof -
    have "1 \<le> sqrt (of_int r / 60)" using that by (simp add: real_le_rsqrt)
    then show ?thesis by simp
  qed
  show "frame_rate_factor a \<le> frame_rate_factor b"
  proof (cases "b \<le> 60")
    case False
    have "(if a \<le> 60 then of_int a else sqrt (of_int a / 60) * 60) \<le> sqrt (of_int b / 60) * 60"
    proof (cases "a \<le> 60")
      case True
      then have "real_of_int a \<le> 60" by simp
      moreover have "60 \<le> sqrt (real_of_int b / 60) * 60" using s \<open>\<not> b \<le> 60\<close> by simp
      ultimately have "real_of_int a \<le> sqrt (real_of_int b / 60) * 60" by (rule order_trans)
      then show ?thesis unfolding if_P [OF True] .
    qed (use assms in simp)
    then show ?thesis using False by (simp add: frame_rate_factor_def divide_right_mono)
  qed (use assms in \<open>auto simp: frame_rate_factor_def\<close>)
  show "0 \<le> frame_rate_factor a"
    using assms s [of a] by (auto simp: frame_rate_factor_def)
qed

text \<open>
  the suggested bitrate never decreases when the resolution or the frame rate grows, across
  the table's entries, the interpolation between them and its two ends, while the number of pixels fits an \<open>int\<close>.
\<close>

theorem default_bitrate_monotone:
  assumes "w * h \<le> w' * h'" and "0 \<le> rate" and "rate \<le> rate'" and "0 \<le> w * h" and "w' * h' < 2 ^ 31"
  shows "getDefaultBitrate w h rate yuv \<le> getDefaultBitrate w' h' rate' yuv"
proof -
  let ?y = "if yuv then 2 else 1 :: real"
  let ?a = "resolution_factor None res_table (w * h) * ?y * frame_rate_factor rate"
  let ?b = "resolution_factor None res_table (w' * h') * ?y * frame_rate_factor rate'"
  note r = resolution_factor_mono [OF assms(1)] resolution_factor_mono(2) [OF order_refl, of "w' * h'"]
  note f = frame_rate_factor_mono [OF assms(3, 2)]
  have "?a \<le> ?b"
    using r f by (intro mult_mono) auto
  moreover have "0 \<le> ?a" using r f by simp
  ultimately have "qRound ?a \<le> qRound ?b" by (auto simp: qRound_def intro: floor_mono)
  moreover have "int32 (w * h) = w * h" "int32 (w' * h') = w' * h'" using assms(1,4,5) by (simp_all add: int32_in_range)
  ultimately show ?thesis by (simp add: getDefaultBitrate_def)
qed

theorem default_bitrate_monotone_witness:
  "getDefaultBitrate 1280 720 30 False \<le> getDefaultBitrate 1920 1080 60 False
   \<and> getDefaultBitrate 1920 1080 60 False = 20000"
  using default_bitrate_monotone [of 1280 720 1920 1080 30 60 False]
  by (simp add: getDefaultBitrate_def res_table_def frame_rate_factor_def qRound_def int32_def)

section \<open>Setters\<close>

datatype prefs_signal =
    Overlay_menu_position_changed
  | Background_configuration_changed
  | Background_opacity_changed
  | Background_setup_changed
  | Usb_bound_devices_changed

definition setOverlayMenuPosition :: "int \<Rightarrow> prefs \<Rightarrow> prefs \<times> prefs_signal list" where
  "setOverlayMenuPosition pos p =
     (if overlayMenuPosition p = pos then (p, [])
      else (p\<lparr>overlayMenuPosition := pos\<rparr>, [Overlay_menu_position_changed]))"

definition setBackgroundSetupCompleted :: "bool \<Rightarrow> prefs \<Rightarrow> prefs \<times> prefs_signal list" where
  "setBackgroundSetupCompleted done p =
     (if m_BackgroundSetupCompleted p = done then (p, [])
      else (p\<lparr>m_BackgroundSetupCompleted := done\<rparr>, [Background_setup_changed]))"

definition setBackgroundSource :: "int \<Rightarrow> prefs \<Rightarrow> prefs \<times> prefs_signal list" where
  "setBackgroundSource src p =
     (let src = decodeBackgroundSource src;
          changed = (m_BackgroundSource p \<noteq> src);
          (p', sig) = setBackgroundSetupCompleted True (p\<lparr>m_BackgroundSource := src\<rparr>)
      in (p', sig @ (if changed \<or> \<not> m_BackgroundSetupCompleted p
                     then [Background_configuration_changed] else [])))"

definition setBackgroundImageApi :: "string \<Rightarrow> prefs \<Rightarrow> prefs \<times> prefs_signal list" where
  "setBackgroundImageApi url p =
     (let url = trimmed url;
          src = (if url = [] then BGS_NONE else BGS_API);
          changed = (m_BackgroundImageApi p \<noteq> url \<or> m_BackgroundSource p \<noteq> src);
          (p', sig) = setBackgroundSetupCompleted True
                        (p\<lparr>m_BackgroundImageApi := url, m_BackgroundSource := src\<rparr>)
      in (p', sig @ (if changed \<or> \<not> m_BackgroundSetupCompleted p
                     then [Background_configuration_changed] else [])))"

definition setBackgroundImageLocalPath :: "string \<Rightarrow> prefs \<Rightarrow> prefs \<times> prefs_signal list" where
  "setBackgroundImageLocalPath path p =
     (let path = trimmed path;
          src = (if path = [] then BGS_NONE else BGS_LOCAL);
          changed = (m_BackgroundImageLocalPath p \<noteq> path \<or> m_BackgroundSource p \<noteq> src);
          (p', sig) = setBackgroundSetupCompleted True
                        (p\<lparr>m_BackgroundImageLocalPath := path, m_BackgroundSource := src\<rparr>)
      in (p', sig @ (if changed \<or> \<not> m_BackgroundSetupCompleted p
                     then [Background_configuration_changed] else [])))"

definition setBackgroundOverlayOpacity :: "int \<Rightarrow> prefs \<Rightarrow> prefs \<times> prefs_signal list" where
  "setBackgroundOverlayOpacity v p =
     (let v = max 0 (min 100 v) in
      if m_BackgroundOverlayOpacity p = v then (p, [])
      else (p\<lparr>m_BackgroundOverlayOpacity := v\<rparr>, [Background_opacity_changed]))"

definition setUsbForwardingBoundDevices :: "string list \<Rightarrow> prefs \<Rightarrow> prefs \<times> prefs_signal list" where
  "setUsbForwardingBoundDevices ds p =
     (if m_UsbForwardingBoundDevices p = ds then (p, [])
      else (p\<lparr>m_UsbForwardingBoundDevices := ds\<rparr>, [Usb_bound_devices_changed]))"

definition resetBackgroundConfiguration :: "prefs \<Rightarrow> prefs \<times> prefs_signal list" where
  "resetBackgroundConfiguration p =
     (let opacity = (m_BackgroundOverlayOpacity p \<noteq> DEFAULT_BACKGROUND_OVERLAY_OPACITY);
          changed = (m_BackgroundSource p \<noteq> BGS_NONE \<or> m_BackgroundImageApi p \<noteq> []
                     \<or> m_BackgroundImageLocalPath p \<noteq> []);
          (p', sig) = setBackgroundSetupCompleted True
             (p\<lparr>m_BackgroundSource := BGS_NONE, m_BackgroundImageApi := [],
                m_BackgroundImageLocalPath := [],
                m_BackgroundOverlayOpacity := DEFAULT_BACKGROUND_OVERLAY_OPACITY\<rparr>)
      in (p', sig @ (if opacity then [Background_opacity_changed] else [])
                  @ (if changed \<or> \<not> m_BackgroundSetupCompleted p
                     then [Background_configuration_changed] else [])))"

datatype prefs_change =
    Overlay_position int
  | Setup_completed bool
  | Source int
  | Image_api string
  | Local_path string
  | Opacity int
  | Usb_devices "string list"
  | Reset_background

fun apply_change :: "prefs_change \<Rightarrow> prefs \<Rightarrow> prefs \<times> prefs_signal list" where
  "apply_change (Overlay_position v) p = setOverlayMenuPosition v p"
| "apply_change (Setup_completed b) p = setBackgroundSetupCompleted b p"
| "apply_change (Source v) p = setBackgroundSource v p"
| "apply_change (Image_api u) p = setBackgroundImageApi u p"
| "apply_change (Local_path u) p = setBackgroundImageLocalPath u p"
| "apply_change (Opacity v) p = setBackgroundOverlayOpacity v p"
| "apply_change (Usb_devices ds) p = setUsbForwardingBoundDevices ds p"
| "apply_change Reset_background p = resetBackgroundConfiguration p"

lemmas setter_defs = setOverlayMenuPosition_def setBackgroundSetupCompleted_def
  setBackgroundSource_def setBackgroundImageApi_def setBackgroundImageLocalPath_def
  setBackgroundOverlayOpacity_def setUsbForwardingBoundDevices_def resetBackgroundConfiguration_def

text \<open>A caller passes a member of the enumeration for the overlay menu's position.\<close>

definition allowed :: "prefs_change \<Rightarrow> bool" where
  "allowed c \<longleftrightarrow> (case c of
     Overlay_position v \<Rightarrow> v \<in> {OMP_DISABLED, OMP_BUTTON, OMP_TOP_EDGE, OMP_RIGHT_EDGE, OMP_LEFT_EDGE}
   | _ \<Rightarrow> True)"

lemma fst_completed [simp]:
  "fst (setBackgroundSetupCompleted b p) = p\<lparr>m_BackgroundSetupCompleted := b\<rparr>"
  by (auto simp: setBackgroundSetupCompleted_def)

lemma fst_setters:
  "fst (setOverlayMenuPosition v p) = p\<lparr>overlayMenuPosition := v\<rparr>"
  "fst (setBackgroundSource v p) =
     p\<lparr>m_BackgroundSource := decodeBackgroundSource v, m_BackgroundSetupCompleted := True\<rparr>"
  "fst (setBackgroundImageApi u p) =
     p\<lparr>m_BackgroundImageApi := trimmed u,
       m_BackgroundSource := (if trimmed u = [] then BGS_NONE else BGS_API),
       m_BackgroundSetupCompleted := True\<rparr>"
  "fst (setBackgroundImageLocalPath u p) =
     p\<lparr>m_BackgroundImageLocalPath := trimmed u,
       m_BackgroundSource := (if trimmed u = [] then BGS_NONE else BGS_LOCAL),
       m_BackgroundSetupCompleted := True\<rparr>"
  "fst (setBackgroundOverlayOpacity x p) = p\<lparr>m_BackgroundOverlayOpacity := max 0 (min 100 x)\<rparr>"
  "fst (setUsbForwardingBoundDevices ds p) = p\<lparr>m_UsbForwardingBoundDevices := ds\<rparr>"
  "fst (resetBackgroundConfiguration p) =
     p\<lparr>m_BackgroundSource := BGS_NONE, m_BackgroundImageApi := [],
       m_BackgroundImageLocalPath := [],
       m_BackgroundOverlayOpacity := DEFAULT_BACKGROUND_OVERLAY_OPACITY,
       m_BackgroundSetupCompleted := True\<rparr>"
  by (simp_all add: setOverlayMenuPosition_def setBackgroundSource_def setBackgroundImageApi_def
      setBackgroundImageLocalPath_def setBackgroundOverlayOpacity_def setUsbForwardingBoundDevices_def
      resetBackgroundConfiguration_def Let_def split_beta)

lemma decode_source_member: "decodeBackgroundSource v \<in> {BGS_PHOTOGRAPHY, BGS_API, BGS_LOCAL, BGS_NONE}"
  by (simp add: decodeBackgroundSource_def)

lemma change_keeps_valid:
  assumes "checked_prefs plat p" and "allowed c"
  shows "checked_prefs plat (fst (apply_change c p))"
proof (cases c)
  case (Source v)
  then show ?thesis using assms decode_source_member [of v] by (simp add: checked_prefs_def fst_setters)
qed (use assms in \<open>simp_all add: checked_prefs_def fst_setters allowed_def DEFAULT_BACKGROUND_OVERLAY_OPACITY_def\<close>)

text \<open>
  any sequence of setter calls keeps loaded preferences in range, so that saving and loading
  them afterwards gives them back.
\<close>

theorem changes_survive_saving:
  assumes "faithful q" and "\<forall>c\<in>set cs. allowed c"
    and "p = run_events (\<lambda>p c. fst (apply_change c p)) (fst (reload q plat s)) cs"
  shows "fst (reload q plat (save q p s')) = p"
proof -
  have "checked_prefs plat (run_events (\<lambda>p c. fst (apply_change c p)) p0 cs)"
    if "checked_prefs plat p0" for p0
    using that assms(2) by (induction cs arbitrary: p0) (auto intro: change_keeps_valid)
  then have "checked_prefs plat p" using assms(3) reload_in_range by blast
  then show ?thesis using reload_saved [OF assms(1)] by simp
qed

text \<open>Members after an equal update; used to compare preferences before and after a setter.\<close>

lemma updates_equal:
  "x = y \<Longrightarrow> overlayMenuPosition x = overlayMenuPosition y
     \<and> m_BackgroundSetupCompleted x = m_BackgroundSetupCompleted y
     \<and> m_BackgroundSource x = m_BackgroundSource y
     \<and> m_BackgroundImageApi x = m_BackgroundImageApi y
     \<and> m_BackgroundImageLocalPath x = m_BackgroundImageLocalPath y
     \<and> m_BackgroundOverlayOpacity x = m_BackgroundOverlayOpacity y
     \<and> m_UsbForwardingBoundDevices x = m_UsbForwardingBoundDevices y" for x y :: prefs
  by simp

lemma unchanged_iff:
  fixes p :: prefs
  shows "p\<lparr>overlayMenuPosition := pos\<rparr> = p \<longleftrightarrow>
     overlayMenuPosition p = pos"
  and "p\<lparr>m_BackgroundSetupCompleted := b\<rparr> = p \<longleftrightarrow>
     m_BackgroundSetupCompleted p = b"
  and "p\<lparr>m_BackgroundSource := src, m_BackgroundSetupCompleted := b\<rparr> = p \<longleftrightarrow>
     m_BackgroundSource p = src \<and> m_BackgroundSetupCompleted p = b"
  and "p\<lparr>m_BackgroundImageApi := url, m_BackgroundSource := src, m_BackgroundSetupCompleted := b\<rparr> = p \<longleftrightarrow>
     m_BackgroundImageApi p = url \<and> m_BackgroundSource p = src \<and> m_BackgroundSetupCompleted p = b"
  and "p\<lparr>m_BackgroundImageLocalPath := path, m_BackgroundSource := src, m_BackgroundSetupCompleted := b\<rparr> = p \<longleftrightarrow>
     m_BackgroundImageLocalPath p = path \<and> m_BackgroundSource p = src \<and> m_BackgroundSetupCompleted p = b"
  and "p\<lparr>m_BackgroundOverlayOpacity := v\<rparr> = p \<longleftrightarrow>
     m_BackgroundOverlayOpacity p = v"
  and "p\<lparr>m_UsbForwardingBoundDevices := ds\<rparr> = p \<longleftrightarrow>
     m_UsbForwardingBoundDevices p = ds"
  and "p\<lparr>m_BackgroundSource := src, m_BackgroundImageApi := url, m_BackgroundImageLocalPath := path, m_BackgroundOverlayOpacity := v, m_BackgroundSetupCompleted := b\<rparr> = p \<longleftrightarrow>
     m_BackgroundSource p = src \<and> m_BackgroundImageApi p = url \<and> m_BackgroundImageLocalPath p = path \<and> m_BackgroundOverlayOpacity p = v \<and> m_BackgroundSetupCompleted p = b"
  by (auto dest!: updates_equal)

text \<open>
  no silent change and no empty ceremony: a setter emits nothing exactly when it leaves the
  preferences as they were.
\<close>

theorem setters_notify:
  "snd (apply_change c p) = [] \<longleftrightarrow> fst (apply_change c p) = p"
proof (cases c)
  case Reset_background
  then show ?thesis
    by (auto simp: fst_setters unchanged_iff setBackgroundSetupCompleted_def
        resetBackgroundConfiguration_def Let_def split_beta dest!: updates_equal)
next
  case (Source v)
  then show ?thesis
    by (auto simp: fst_setters unchanged_iff setBackgroundSetupCompleted_def setBackgroundSource_def
        Let_def split_beta dest!: updates_equal)
next
  case (Image_api u)
  then show ?thesis
    by (auto simp: fst_setters unchanged_iff setBackgroundSetupCompleted_def setBackgroundImageApi_def
        Let_def split_beta dest!: updates_equal)
next
  case (Local_path u)
  then show ?thesis
    by (auto simp: fst_setters unchanged_iff setBackgroundSetupCompleted_def
        setBackgroundImageLocalPath_def Let_def split_beta dest!: updates_equal)
next
  case (Setup_completed b)
  then show ?thesis by (auto simp: unchanged_iff setBackgroundSetupCompleted_def dest!: updates_equal)
qed (auto simp: fst_setters unchanged_iff setOverlayMenuPosition_def setBackgroundOverlayOpacity_def
      setUsbForwardingBoundDevices_def Let_def
      dest!: updates_equal)

section \<open>A concrete store\<close>

text \<open>Values as \<open>QVariant\<close> keeps them, the parameter's concrete instance.\<close>

datatype variant = V_int int | V_bool bool | V_real real | V_str string | V_list "string list"

fun v_int :: "variant \<Rightarrow> int" where "v_int (V_int i) = i" | "v_int _ = 0"
fun v_bool :: "variant \<Rightarrow> bool" where "v_bool (V_bool b) = b" | "v_bool _ = False"
fun v_real :: "variant \<Rightarrow> real" where "v_real (V_real x) = x" | "v_real _ = 0"
fun v_str :: "variant \<Rightarrow> string" where "v_str (V_str t) = t" | "v_str _ = []"
fun v_list :: "variant \<Rightarrow> string list" where "v_list (V_list ts) = ts" | "v_list _ = []"

definition variants :: "variant codec" where
  "variants = \<lparr>from_int = V_int, from_bool = V_bool, from_real = V_real, from_str = V_str,
     from_list = V_list, to_int = v_int, to_boolean = v_bool, to_float = v_real, to_text = v_str,
     to_texts = v_list\<rparr>"

lemma variants_faithful: "faithful variants"
  by (simp add: faithful_def variants_def)

definition linux :: platform where
  "linux = \<lparr>windows = False, mac = False, wayland = True, slow_gpu = False\<rparr>"

definition old_store :: "variant store" where
  "old_store = [''overlaymenuposition'' \<mapsto> V_int 4, ''videocfg'' \<mapsto> V_int 3]"

theorem settings_roundtrip_witness:
  "fst (reload variants linux (save variants (fst (reload variants linux Map.empty)) Map.empty)) =
     fst (reload variants linux Map.empty)"
  by (rule settings_roundtrip [OF variants_faithful reload_in_range])


theorem migration_runs_once_witness:
  "overlayMenuPosition (fst (reload variants linux (snd (reload variants linux old_store)))) = OMP_BUTTON"
proof -
  have "overlayMenuPosition (fst (reload variants linux old_store)) = OMP_BUTTON"
    by (simp add: reload_def loadOverlayMenuPlacement_def old_store_def upgrade_keeps
        read_prefs_checked Let_def migrateLegacyOverlayMenuPosition_def int_value_def variants_def)
  then show ?thesis using migration_runs_once [OF variants_faithful, of linux old_store] by simp
qed

theorem changes_survive_saving_witness:
  "m_BackgroundSource (fst (reload variants linux (save variants
     (run_events (\<lambda>p c. fst (apply_change c p)) (fst (reload variants linux old_store))
        [Image_api '' https://a '', Opacity 250]) old_store))) = BGS_API"
proof -
  let ?p = "run_events (\<lambda>p c. fst (apply_change c p)) (fst (reload variants linux old_store))
        [Image_api '' https://a '', Opacity 250]"
  have "m_BackgroundSource ?p = BGS_API"
    by (simp add: fst_setters trimmed_def is_space_def)
  moreover have "fst (reload variants linux (save variants ?p old_store)) = ?p"
    using changes_survive_saving [OF variants_faithful _ refl,
        of "[Image_api '' https://a '', Opacity 250]"] by (simp add: allowed_def)
  ultimately show ?thesis by simp
qed

end
