(* ===== verification/StylusReplay.thy ===== *)
theory StylusReplay
  imports Complex_Main TextOps
begin

text \<open>
  The stylus recording player (\<open>src/app/streaming/input/stylusreplay.cpp\<close>): loading a recording,
  starting and stopping, sending the samples that are due, and the delay to the next one. Times
  are 64-bit unsigned microseconds. Qt's number parsers and UTF-8 decoding are parameters;
  coordinates are real numbers, their rounding to \<open>float\<close> is not modelled.
\<close>

section \<open>Samples and recordings\<close>

datatype double = Finite real | Non_finite

record number_parsers =
  to_u64 :: "string \<Rightarrow> u64 option"
  to_u32 :: "string \<Rightarrow> u32 option"
  to_i32 :: "string \<Rightarrow> int option"
  to_double :: "string \<Rightarrow> double option"
  utf8 :: "string \<Rightarrow> string"

record sample =
  timestamp_us :: u64
  event_type :: byte
  pos_x :: real
  pos_y :: real
  pressure :: real
  rotation :: u16
  tilt :: byte

datatype load_error =
    No_file
  | Too_big
  | Not_opened
  | Unsupported
  | Bad_format nat
  | Out_of_range nat
  | Out_of_order nat
  | Too_many
  | Read_error
  | No_samples

text \<open>A file as \<open>loadFile\<close> meets it; a line has its terminator.\<close>

record recording_file =
  is_file :: bool
  file_bytes :: nat
  opens :: bool
  lines :: "string list"
  read_fails :: bool
  file_name :: string

definition MaxSamples :: nat where "MaxSamples = 200000"
definition MaxSamplesPerProcess :: nat where "MaxSamplesPerProcess = 256"
definition MaxFileBytes :: nat where "MaxFileBytes = 64 * 1024 * 1024"
definition RotationUnknown :: u32 where "RotationUnknown = 0xFFFF"
definition TiltUnknown :: int where "TiltUnknown = 0xFF"

definition DataMagic :: string where
  "DataMagic = ''SUNSHINE_STYLUS_DAT'' @ [CHR 0x09] @ ''1''"

definition utf8_bom :: string where
  "utf8_bom = [CHR 0xEF, CHR 0xBB, CHR 0xBF]"

section \<open>Text\<close>

text \<open>\<open>trimLineEnding\<close>.\<close>

definition trimLineEnding :: "string \<Rightarrow> string" where
  "trimLineEnding s = rev (dropWhile (\<lambda>c. c = CHR 0x0A \<or> c = CHR 0x0D) (rev s))"

section \<open>Loading\<close>

text \<open>The values of a record's fields, and the range checks on them.\<close>

definition unit_value :: "double option \<Rightarrow> real option" where
  "unit_value d = (case d of Some (Finite x) \<Rightarrow> (if x < 0 \<or> x > 1 then None else Some x) | _ \<Rightarrow> None)"

definition parse_sample :: "number_parsers \<Rightarrow> string list \<Rightarrow> sample option" where
  "parse_sample q f =
     (case (to_u64 q (f ! 1), to_u32 q (f ! 2), unit_value (to_double q (f ! 3)),
            unit_value (to_double q (f ! 4)), unit_value (to_double q (f ! 5)), to_u32 q (f ! 6),
            to_i32 q (f ! 7)) of
        (Some t, Some e, Some x, Some y, Some p, Some r, Some a) \<Rightarrow>
          if e > 7 \<or> (r > 359 \<and> r \<noteq> RotationUnknown) \<or> a < 0 \<or> (a > 90 \<and> a \<noteq> TiltUnknown)
          then None
          else Some \<lparr>timestamp_us = t, event_type = ucast e, pos_x = x, pos_y = y, pressure = p,
                     rotation = ucast r, tilt = of_int a\<rparr>
      | _ \<Rightarrow> None)"

text \<open>
  The loop over the lines after the first: \<open>n\<close> is the number of the last line read, \<open>got\<close> what is
  collected, the previous timestamp is that of the last sample collected.
\<close>

fun load_lines ::
  "number_parsers \<Rightarrow> nat \<Rightarrow> sample list \<Rightarrow> bool \<Rightarrow> string list \<Rightarrow> load_error + sample list \<times> bool" where
  "load_lines q n got truncated [] = Inr (got, truncated)"
| "load_lines q n got truncated (raw # rest) =
     (let line = trimmed (utf8 q (trimLineEnding raw)) in
      if starts_with ''# truncated=true'' line then load_lines q (Suc n) got True rest
      else if line = [] \<or> starts_with ''#'' line then load_lines q (Suc n) got truncated rest
      else let fields = words line in
        if length fields \<noteq> 8 \<or> fields ! 0 \<noteq> ''P'' then Inl (Bad_format (Suc n))
        else case parse_sample q fields of
            None \<Rightarrow> Inl (Out_of_range (Suc n))
          | Some s \<Rightarrow>
              if got \<noteq> [] \<and> timestamp_us s < timestamp_us (last got) then Inl (Out_of_order (Suc n))
              else if length got \<ge> MaxSamples then Inl Too_many
              else load_lines q (Suc n) (got @ [s]) truncated rest)"

record replay =
  samples :: "sample list"
  source_name :: string
  is_truncated :: bool
  playing :: bool
  speed :: int
  next_sample :: nat
  start_us :: u64

definition new_replay :: replay where
  "new_replay = \<lparr>samples = [], source_name = [], is_truncated = False, playing = False, speed = 1,
     next_sample = 0, start_us = 0\<rparr>"

definition replay_stop :: "replay \<Rightarrow> replay" where
  "replay_stop c = c\<lparr>playing := False, next_sample := 0, start_us := 0\<rparr>"

definition first_line :: "recording_file \<Rightarrow> string" where
  "first_line f = (let l = trimLineEnding (case lines f of [] \<Rightarrow> [] | l # _ \<Rightarrow> l)
                   in if starts_with utf8_bom l then drop 3 l else l)"

definition loadFile :: "number_parsers \<Rightarrow> recording_file \<Rightarrow> replay \<Rightarrow> load_error + replay" where
  "loadFile q f c =
     (if \<not> is_file f then Inl No_file
      else if file_bytes f > MaxFileBytes then Inl Too_big
      else if \<not> opens f then Inl Not_opened
      else if first_line f \<noteq> DataMagic then Inl Unsupported
      else case load_lines q 1 [] False (tl (lines f)) of
          Inl e \<Rightarrow> Inl e
        | Inr (got, truncated) \<Rightarrow>
            if read_fails f then Inl Read_error
            else if got = [] then Inl No_samples
            else Inr ((replay_stop c)\<lparr>samples := got, source_name := file_name f,
                                      is_truncated := truncated\<rparr>))"

section \<open>Playing\<close>

datatype start_problem = Nothing_loaded | Bad_speed

definition replay_start :: "u64 \<Rightarrow> int \<Rightarrow> replay \<Rightarrow> start_problem + replay" where
  "replay_start now v c =
     (if samples c = [] then Inl Nothing_loaded
      else if v \<noteq> 1 \<and> v \<noteq> 2 \<and> v \<noteq> 4 then Inl Bad_speed
      else Inr (c\<lparr>start_us := now, next_sample := 0, speed := v, playing := True\<rparr>))"

text \<open>When sample \<open>i\<close> is due after the start: its offset in the recording over the speed, rounded up.\<close>

definition dueOffsetUs :: "replay \<Rightarrow> nat \<Rightarrow> u64" where
  "dueOffsetUs c i =
     (let offset = timestamp_us (samples c ! i) - timestamp_us (hd (samples c));
          v = word_of_int (speed c)
      in offset div v + (if offset mod v \<noteq> 0 then 1 else 0))"

definition elapsed_us :: "u64 \<Rightarrow> replay \<Rightarrow> u64" where
  "elapsed_us now c = (if now \<ge> start_us c then now - start_us c else 0)"

datatype process_result = Idle | Running | Finished | SendFailed

text \<open>
  The loop of \<open>processDue\<close>; \<open>send\<close> is the callback, if any. \<open>calls\<close> are the samples the callback has been
  called with so far, and its answer may depend on all of them. The loop returns the next index, how many
  were sent, the calls, and whether a send failed.
\<close>

type_synonym send_callback = "(sample list \<Rightarrow> int) option"

function process_loop ::
  "send_callback \<Rightarrow> replay \<Rightarrow> u64 \<Rightarrow> nat \<Rightarrow> nat \<Rightarrow> sample list \<Rightarrow> nat \<times> nat \<times> sample list \<times> bool" where
  "process_loop send c elapsed i sent calls =
     (if i < length (samples c) \<and> sent < MaxSamplesPerProcess \<and> dueOffsetUs c i \<le> elapsed
      then case send of
          None \<Rightarrow> (i, sent, calls, True)
        | Some f \<Rightarrow>
            let calls = calls @ [samples c ! i] in
            if f calls \<noteq> 0 then (i, sent, calls, True)
            else process_loop send c elapsed (Suc i) (Suc sent) calls
      else (i, sent, calls, False))"
  by pat_completeness auto
termination
  by (relation "measure (\<lambda>(send, c, elapsed, i, sent, calls). length (samples c) - i)") auto

declare process_loop.simps [simp del]

definition processDue ::
  "send_callback \<Rightarrow> u64 \<Rightarrow> sample list \<Rightarrow> replay \<Rightarrow> process_result \<times> nat \<times> sample list \<times> replay" where
  "processDue send now calls c =
     (if \<not> playing c then (Idle, 0, calls, c)
      else case process_loop send c (elapsed_us now c) (next_sample c) 0 calls of
          (i, sent, calls, True) \<Rightarrow> (SendFailed, sent, calls, replay_stop c)
        | (i, sent, calls, False) \<Rightarrow>
            if i = length (samples c) then (Finished, sent, calls, replay_stop c)
            else (Running, sent, calls, c\<lparr>next_sample := i\<rparr>))"

text \<open>\<open>nextDelayMs\<close>; \<open>-1\<close> when nothing is to come.\<close>

definition nextDelayMs :: "u64 \<Rightarrow> replay \<Rightarrow> int" where
  "nextDelayMs now c =
     (if \<not> playing c \<or> next_sample c \<ge> length (samples c) then -1
      else let elapsed = elapsed_us now c; due = dueOffsetUs c (next_sample c) in
        if due \<le> elapsed then 0
        else let remaining = (due - elapsed + 999) div 1000
             in uint (min remaining 2147483647))"

definition durationUs :: "replay \<Rightarrow> u64" where
  "durationUs c =
     (if length (samples c) < 2 then 0
      else timestamp_us (last (samples c)) - timestamp_us (hd (samples c)))"

definition remainingUs :: "u64 \<Rightarrow> replay \<Rightarrow> u64" where
  "remainingUs now c =
     (if \<not> playing c \<or> samples c = [] then 0
      else let total = dueOffsetUs c (length (samples c) - 1); elapsed = elapsed_us now c
           in if elapsed < total then total - elapsed else 0)"

section \<open>Loaded recordings are well formed\<close>

definition valid_sample :: "sample \<Rightarrow> bool" where
  "valid_sample s \<longleftrightarrow> event_type s \<le> 7 \<and> 0 \<le> pos_x s \<and> pos_x s \<le> 1 \<and> 0 \<le> pos_y s \<and> pos_y s \<le> 1
     \<and> 0 \<le> pressure s \<and> pressure s \<le> 1 \<and> (rotation s \<le> 359 \<or> rotation s = 0xFFFF)
     \<and> (tilt s \<le> 90 \<or> tilt s = 0xFF)"

definition valid_recording :: "sample list \<Rightarrow> bool" where
  "valid_recording ss \<longleftrightarrow> length ss \<le> MaxSamples \<and> sorted (map timestamp_us ss) \<and> list_all valid_sample ss"

lemma unit_value_range: "unit_value d = Some x \<Longrightarrow> 0 \<le> x \<and> x \<le> 1"
  by (auto simp: unit_value_def split: option.splits double.splits if_splits)

lemma ucast_le:
  fixes x :: "u32" and n :: nat
  assumes "x \<le> of_nat n" and "n < 2 ^ LENGTH('b :: len)" and "LENGTH('b) \<le> 32"
  shows "(ucast x :: 'b word) \<le> of_nat n"
proof -
  have n32: "n < 2 ^ 32" using assms(2, 3) by (meson less_le_trans one_le_numeral power_increasing)
  have "unat x \<le> n"
    using assms(1) n32 by (simp add: word_le_nat_alt unat_of_nat take_bit_nat_eq_self)
  moreover have "unat (ucast x :: 'b word) \<le> unat x" by (simp add: unsigned_ucast_eq)
  ultimately show ?thesis
    using assms(2) by (simp add: word_le_nat_alt unat_of_nat take_bit_nat_eq_self)
qed

lemma event_in_range: "\<not> (7 :: u32) < e \<Longrightarrow> (ucast e :: byte) \<le> 7"
  using ucast_le [of e 7, where 'b = 8] by simp

lemma rotation_in_range:
  assumes "(359 :: u32) < r \<longrightarrow> r = RotationUnknown"
  shows "(ucast r :: u16) \<le> 359 \<or> (ucast r :: u16) = 0xFFFF"
proof (cases "r = RotationUnknown")
  case True
  then show ?thesis by (simp add: RotationUnknown_def)
next
  case False
  then show ?thesis using ucast_le [of r 359, where 'b = 16] assms by simp
qed

lemma tilt_in_range:
  assumes "\<not> a < 0" and "90 < a \<longrightarrow> a = TiltUnknown"
  shows "(of_int a :: byte) \<le> 90 \<or> (of_int a :: byte) = 0xFF"
proof (cases "a = TiltUnknown")
  case True
  then show ?thesis by (simp add: TiltUnknown_def)
next
  case False
  then have "a \<le> 90" "0 \<le> a" using assms by auto
  then have "(of_int a :: byte) \<le> 90" by (simp add: word_le_def uint_word_of_int)
  then show ?thesis by blast
qed

lemma parse_sample_valid:
  assumes "parse_sample q f = Some s"
  shows "valid_sample s"
proof -
  obtain t where "to_u64 q (f ! 1) = Some t" using assms
    by (auto simp: parse_sample_def split: option.splits)
  moreover obtain e where "to_u32 q (f ! 2) = Some e" using assms
    by (auto simp: parse_sample_def split: option.splits)
  moreover obtain x where "unit_value (to_double q (f ! 3)) = Some x" using assms
    by (auto simp: parse_sample_def split: option.splits)
  moreover obtain y where "unit_value (to_double q (f ! 4)) = Some y" using assms
    by (auto simp: parse_sample_def split: option.splits)
  moreover obtain p where "unit_value (to_double q (f ! 5)) = Some p" using assms
    by (auto simp: parse_sample_def split: option.splits)
  moreover obtain r where "to_u32 q (f ! 6) = Some r" using assms
    by (auto simp: parse_sample_def split: option.splits)
  moreover obtain a where "to_i32 q (f ! 7) = Some a" using assms
    by (auto simp: parse_sample_def split: option.splits)
  ultimately show ?thesis
    using assms event_in_range [of e] rotation_in_range [of r] tilt_in_range [of a]
      unit_value_range [of _ x] unit_value_range [of _ y] unit_value_range [of _ p]
    by (auto simp: parse_sample_def valid_sample_def split del: if_split split: if_split_asm)
qed

lemma load_lines_valid:
  assumes "load_lines q n got tr ls = Inr (got', tr')" and "valid_recording got"
  shows "valid_recording got'"
  using assms
proof (induction q n got tr ls rule: load_lines.induct)
  case (2 q n got tr raw rest)
  let ?line = "trimmed (utf8 q (trimLineEnding raw))"
  consider (trunc) "starts_with ''# truncated=true'' ?line"
    | (skip) "\<not> starts_with ''# truncated=true'' ?line" "?line = [] \<or> starts_with ''#'' ?line"
    | (data) "\<not> starts_with ''# truncated=true'' ?line" "\<not> (?line = [] \<or> starts_with ''#'' ?line)"
    by blast
  then show ?case
  proof cases
    case trunc
    then show ?thesis using 2 by (simp add: Let_def)
  next
    case skip
    then show ?thesis using 2 by (simp add: Let_def)
  next
    case data
    then obtain s where s: "parse_sample q (words ?line) = Some s"
      and ok: "got = [] \<or> \<not> timestamp_us s < timestamp_us (last got)" "length got < MaxSamples"
      and rec: "load_lines q (Suc n) (got @ [s]) tr rest = Inr (got', tr')"
      and fmt: "\<not> (length (words ?line) \<noteq> 8 \<or> words ?line ! 0 \<noteq> ''P'')"
      using "2.prems"(1) by (auto simp: Let_def split: if_splits option.splits)
    have "valid_recording (got @ [s])"
      using "2.prems"(2) ok parse_sample_valid [OF s]
      by (cases got rule: rev_cases)
        (fastforce simp: valid_recording_def sorted_append not_less)+
    then show ?thesis using "2.IH"(3) [OF refl data _ fmt s] ok rec by (auto simp: not_less)
  qed
qed simp

text \<open>
  a recording that loads is never empty, holds at most 200000 samples in order of time, every
  field of every sample is in its range, and the player is stopped.
\<close>

theorem loadFile_valid:
  assumes "loadFile q f c = Inr c'"
  shows "samples c' \<noteq> [] \<and> valid_recording (samples c') \<and> \<not> playing c' \<and> next_sample c' = 0"
proof -
  obtain got tr where l: "load_lines q 1 [] False (tl (lines f)) = Inr (got, tr)"
    and c': "c' = (replay_stop c)\<lparr>samples := got, source_name := file_name f, is_truncated := tr\<rparr>"
    and "got \<noteq> []"
    using assms by (auto simp: loadFile_def split: if_splits sum.splits)
  then show ?thesis using load_lines_valid [OF l] by (simp add: replay_stop_def valid_recording_def)
qed

section \<open>Due times\<close>

lemma unat_minus_sorted:
  assumes "sorted (map timestamp_us ss)" and "i < length ss"
  shows "unat (timestamp_us (ss ! i) - timestamp_us (hd ss)) =
         unat (timestamp_us (ss ! i)) - unat (timestamp_us (hd ss))"
proof -
  have "timestamp_us (hd ss) \<le> timestamp_us (ss ! i)"
    using sorted_nth_mono [OF assms(1), of 0 i] assms(2) by (cases ss; cases i) auto
  then show ?thesis by (simp add: unat_sub)
qed

text \<open>Division rounding up, as a natural number: no wrap-around, whatever the offset.\<close>

lemma ceil_div_word:
  fixes d :: u64
  assumes "v = 1 \<or> v = 2 \<or> v = 4"
  shows "unat (d div of_nat v + (if d mod of_nat v \<noteq> 0 then 1 else 0)) = (unat d + v - 1) div v"
proof -
  have v: "unat (of_nat v :: u64) = v" using assms by auto
  have d: "unat d < 2 ^ 64" using unsigned_less [of d, where ?'a = nat] by simp
  have zero: "d mod of_nat v = 0 \<longleftrightarrow> unat d mod v = 0"
    using v by (simp add: word_unat_eq_iff unat_mod_distrib)
  have small: "unat d div v + (if unat d mod v \<noteq> 0 then 1 else 0) < 2 ^ 64"
    using assms d by (auto split: if_splits)
  have "unat (d div of_nat v + (if d mod of_nat v \<noteq> 0 then 1 else 0)) =
      (unat d div v + (if unat d mod v \<noteq> 0 then 1 else 0)) mod 2 ^ 64"
    using zero v by (simp add: unat_word_ariths unat_div_distrib mod_Suc_eq)
  also have "\<dots> = (unat d + v - 1) div v"
    using small assms by auto presburger+
  finally show ?thesis .
qed

definition playable :: "replay \<Rightarrow> bool" where
  "playable c \<longleftrightarrow> sorted (map timestamp_us (samples c)) \<and> speed c \<in> {1, 2, 4}
     \<and> next_sample c \<le> length (samples c)"

lemma due_offset_nat:
  assumes "playable c" and "i < length (samples c)"
  shows "unat (dueOffsetUs c i) =
    (unat (timestamp_us (samples c ! i)) - unat (timestamp_us (hd (samples c))) + nat (speed c) - 1)
      div nat (speed c)"
proof -
  have v: "nat (speed c) = 1 \<or> nat (speed c) = 2 \<or> nat (speed c) = 4" "word_of_int (speed c) = (of_nat (nat (speed c)) :: u64)"
    using assms(1) by (auto simp: playable_def)
  show ?thesis
    using ceil_div_word [OF v(1)] unat_minus_sorted [of "samples c" i] assms v(2)
    by (simp add: dueOffsetUs_def Let_def playable_def)
qed

lemma due_offset_mono:
  assumes "playable c" and "i \<le> j" and "j < length (samples c)"
  shows "dueOffsetUs c i \<le> dueOffsetUs c j"
proof -
  have "timestamp_us (samples c ! i) \<le> timestamp_us (samples c ! j)"
    using sorted_nth_mono [of "map timestamp_us (samples c)" i j] assms
    by (simp add: playable_def)
  then have "unat (timestamp_us (samples c ! i)) \<le> unat (timestamp_us (samples c ! j))"
    by (simp add: word_le_nat_alt)
  then show ?thesis using assms by (simp add: word_le_nat_alt due_offset_nat div_le_mono diff_le_mono add_le_mono)
qed

section \<open>Sending\<close>

text \<open>What the callback has been called with when the samples up to the index \<open>k\<close> have been handed over.\<close>

definition calls_to :: "replay \<Rightarrow> sample list \<Rightarrow> nat \<Rightarrow> nat \<Rightarrow> sample list" where
  "calls_to c calls i k = calls @ take (k - i) (drop i (samples c))"

lemma calls_to_start [simp]: "calls_to c calls i i = calls"
  by (simp add: calls_to_def)

lemma calls_to_step: "i < length (samples c) \<Longrightarrow> i < k \<Longrightarrow> calls_to c (calls @ [samples c ! i]) (Suc i) k = calls_to c calls i k"
proof -
  assume "i < length (samples c)" "i < k"
  then have "drop i (samples c) = samples c ! i # drop (Suc i) (samples c)" "k - i = Suc (k - Suc i)"
    by (simp_all add: Cons_nth_drop_Suc)
  then show ?thesis by (simp add: calls_to_def)
qed

lemma process_loop_spec:
  assumes "i \<le> length (samples c)" and "sent \<le> MaxSamplesPerProcess"
    and "process_loop send c elapsed i sent calls = (i', sent', calls', failed)"
  shows "i \<le> i' \<and> i' \<le> length (samples c) \<and> sent' + i = sent + i' \<and> sent' \<le> MaxSamplesPerProcess
       \<and> (\<forall>j\<in>{i..<i'}. dueOffsetUs c j \<le> elapsed \<and> (\<exists>f. send = Some f \<and> f (calls_to c calls i (Suc j)) = 0))
       \<and> (if failed then i' < length (samples c)
            \<and> (case send of None \<Rightarrow> calls' = calls
               | Some f \<Rightarrow> calls' = calls_to c calls i (Suc i') \<and> f calls' \<noteq> 0)
          else calls' = calls_to c calls i i'
            \<and> (i' = length (samples c) \<or> sent' = MaxSamplesPerProcess \<or> elapsed < dueOffsetUs c i'))"
  using assms
proof (induction send c elapsed i sent calls rule: process_loop.induct)
  case (1 send c elapsed i sent calls)
  let ?go = "i < length (samples c) \<and> sent < MaxSamplesPerProcess \<and> dueOffsetUs c i \<le> elapsed"
  let ?calls = "calls @ [samples c ! i]"
  consider (stop) "\<not> ?go" | (none) ?go "send = None" | (fail) f where ?go "send = Some f" "f ?calls \<noteq> 0"
    | (go_on) f where ?go "send = Some f" "f ?calls = 0" by blast
  then show ?case
  proof cases
    case stop
    then have "(i', sent', calls', failed) = (i, sent, calls, False)"
      using "1.prems"(3) by (subst (asm) process_loop.simps) auto
    then show ?thesis using stop "1.prems" by (auto simp: not_less not_le)
  next
    case none
    then have "(i', sent', calls', failed) = (i, sent, calls, True)"
      using "1.prems"(3) by (subst (asm) process_loop.simps) auto
    then show ?thesis using none "1.prems" by auto
  next
    case (fail f)
    then have "(i', sent', calls', failed) = (i, sent, ?calls, True)"
      using "1.prems"(3) by (subst (asm) process_loop.simps) (auto simp: Let_def)
    moreover have "?calls = calls_to c calls i (Suc i)" using calls_to_step [of i c "Suc i" calls] fail(1) by simp
    ultimately show ?thesis using fail "1.prems"(2) by simp
  next
    case (go_on f)
    then have rec: "process_loop send c elapsed (Suc i) (Suc sent) ?calls = (i', sent', calls', failed)"
      using "1.prems"(3) by (subst (asm) process_loop.simps) (auto simp: Let_def)
    have le: "Suc i \<le> length (samples c)" "Suc sent \<le> MaxSamplesPerProcess" using go_on(1) by auto
    have ne: "\<not> f ?calls \<noteq> 0" using go_on(3) by simp
    note IH = "1.IH" [OF go_on(1,2) refl ne le rec]
    have step: "calls_to c ?calls (Suc i) k = calls_to c calls i k" if "i < k" for k
      using calls_to_step that go_on(1) by simp
    have "f (calls_to c calls i (Suc i)) = 0" using step [of "Suc i"] go_on(3) by simp
    then have "dueOffsetUs c j \<le> elapsed \<and> (\<exists>f. send = Some f \<and> f (calls_to c calls i (Suc j)) = 0)"
      if "j \<in> {i..<i'}" for j
      using that IH go_on step by (cases "j = i") auto
    moreover have "i < i'" using IH by simp
    ultimately show ?thesis using IH step go_on(2) by (auto split: if_splits)
  qed
qed

text \<open>
  one call of \<open>processDue\<close> sends the next samples in order, at most 256, none before it is due;
  it reports a failed send at the sample that failed, the end exactly when every sample has been
  sent, and otherwise stops because the next sample is not due or the batch is full.
\<close>

theorem processDue_sends:
  assumes "playing c" and "playable c" and "processDue send now calls c = (r, sent, calls', c')" and "n = next_sample c"
  shows "n + sent \<le> length (samples c) \<and> sent \<le> MaxSamplesPerProcess
       \<and> (\<forall>i\<in>{n..<n + sent}. dueOffsetUs c i \<le> elapsed_us now c
            \<and> (\<exists>f. send = Some f \<and> f (calls_to c calls n (Suc i)) = 0))
       \<and> (case r of
            Running \<Rightarrow> c' = c\<lparr>next_sample := n + sent\<rparr> \<and> calls' = calls_to c calls n (n + sent)
              \<and> n + sent < length (samples c)
              \<and> (sent = MaxSamplesPerProcess \<or> elapsed_us now c < dueOffsetUs c (n + sent))
          | Finished \<Rightarrow> c' = replay_stop c \<and> calls' = calls_to c calls n (n + sent) \<and> n + sent = length (samples c)
          | SendFailed \<Rightarrow> c' = replay_stop c \<and> n + sent < length (samples c)
              \<and> (case send of None \<Rightarrow> calls' = calls
                 | Some f \<Rightarrow> calls' = calls_to c calls n (Suc (n + sent)) \<and> f calls' \<noteq> 0)
          | Idle \<Rightarrow> False)"
proof -
  obtain i k cs failed where p: "process_loop send c (elapsed_us now c) n 0 calls = (i, k, cs, failed)"
    by (metis prod_cases4)
  have le: "n \<le> length (samples c)" "0 \<le> MaxSamplesPerProcess"
    using assms(2,4) by (auto simp: playable_def)
  note spec = process_loop_spec [OF le p]
  then have i: "i = n + k" by auto
  have "sent = k" "calls' = cs"
    using assms(1,3,4) p by (auto simp: processDue_def split: bool.splits if_splits)
  then show ?thesis
    using assms(1, 3, 4) p spec i
    by (auto simp: processDue_def split: bool.splits if_splits)
qed

text \<open>
  The player driven by calls at the times \<open>nows\<close> until it stops: what the callback was called with, and
  the player at the end.
\<close>

fun play :: "send_callback \<Rightarrow> sample list \<Rightarrow> replay \<Rightarrow> u64 list \<Rightarrow> sample list \<times> replay" where
  "play send calls c [] = (calls, c)"
| "play send calls c (now # nows) =
     (case processDue send now calls c of
        (r, sent, calls, c') \<Rightarrow> if r = Running then play send calls c' nows else (calls, c'))"

lemma playable_next:
  "playable c \<Longrightarrow> n \<le> length (samples c) \<Longrightarrow> playable (c\<lparr>next_sample := n\<rparr>)"
  by (simp add: playable_def)

lemma dueOffset_next [simp]: "dueOffsetUs (c\<lparr>next_sample := n\<rparr>) i = dueOffsetUs c i"
  by (simp add: dueOffsetUs_def)

lemma elapsed_next [simp]: "elapsed_us now (c\<lparr>next_sample := n\<rparr>) = elapsed_us now c"
  by (simp add: elapsed_us_def)

lemma calls_from_start: "n \<le> k \<Longrightarrow> calls_to c (take n (samples c)) n k = take k (samples c)"
  using take_add [of n "k - n" "samples c"] by (simp add: calls_to_def)

lemma play_order:
  assumes "playing c" and "playable c" and "calls = take (next_sample c) (samples c)"
  shows "\<exists>m \<le> length (samples c). fst (play send calls c nows) = take m (samples c)"
  using assms
proof (induction nows arbitrary: c calls)
  case Nil
  then show ?case by (intro exI [of _ "next_sample c"]) (simp add: playable_def)
next
  case (Cons now nows)
  obtain r sent calls' c' where p: "processDue send now calls c = (r, sent, calls', c')" by (metis prod_cases4)
  note spec = processDue_sends [OF Cons.prems(1,2) p refl]
  let ?n = "next_sample c + sent"
  note upto = calls_from_start [of "next_sample c" _ c, folded Cons.prems(3)]
  show ?case
  proof (cases "r = Running")
    case True
    then have c': "c' = c\<lparr>next_sample := ?n\<rparr>" "calls' = take ?n (samples c)" and le: "?n \<le> length (samples c)"
      using spec upto by auto
    have "playing c'" "playable c'" "calls' = take (next_sample c') (samples c')"
      using c' le Cons.prems by (auto intro: playable_next)
    from Cons.IH [OF this] show ?thesis using True p c'(1) by simp
  next
    case False
    have "\<exists>m \<le> length (samples c). calls' = take m (samples c)"
    proof (cases r)
      case SendFailed
      show ?thesis
      proof (cases send)
        case None
        then show ?thesis using spec SendFailed Cons.prems(2,3)
          by (intro exI [of _ "next_sample c"]) (simp add: playable_def)
      next
        case (Some f)
        then show ?thesis using spec SendFailed upto [of "Suc ?n"] by (intro exI [of _ "Suc ?n"]) simp
      qed
    next
      case Finished
      then show ?thesis using spec upto [of ?n] by (intro exI [of _ ?n]) simp
    qed (use spec False in auto)
    then show ?thesis using False p by simp
  qed
qed

lemma play_finishes:
  assumes "playing c" and "playable c" and "samples c \<noteq> []"
    and late: "\<forall>t\<in>set nows. dueOffsetUs c (length (samples c) - 1) \<le> elapsed_us t c"
    and enough: "length (samples c) - next_sample c < MaxSamplesPerProcess * length nows"
    and "calls = take (next_sample c) (samples c)"
    and accepts: "\<And>cs. f cs = 0"
  shows "fst (play (Some f) calls c nows) = samples c \<and> \<not> playing (snd (play (Some f) calls c nows))"
  using assms(1-6)
proof (induction nows arbitrary: c calls)
  case (Cons now nows)
  obtain r sent calls' c' where p: "processDue (Some f) now calls c = (r, sent, calls', c')" by (metis prod_cases4)
  note spec = processDue_sends [OF Cons.prems(1, 2) p refl]
  let ?n = "next_sample c + sent"
  note upto = calls_from_start [of "next_sample c" _ c, folded Cons.prems(6)]
  have r: "r = Running \<or> r = Finished"
    using spec accepts by (cases r) auto
  show ?case
  proof (cases "r = Running")
    case True
    then have c': "c' = c\<lparr>next_sample := ?n\<rparr>" "calls' = take ?n (samples c)" and lt: "?n < length (samples c)"
      using spec upto by auto
    have "dueOffsetUs c ?n \<le> dueOffsetUs c (length (samples c) - 1)"
      using due_offset_mono [OF Cons.prems(2)] lt by simp
    also have "\<dots> \<le> elapsed_us now c" using Cons.prems(4) by simp
    finally have "sent = MaxSamplesPerProcess" using True spec by auto
    then have "length (samples c') - next_sample c' < MaxSamplesPerProcess * length nows"
      using Cons.prems(5) c' lt by (simp add: MaxSamplesPerProcess_def)
    moreover have "playable c'" using playable_next [OF Cons.prems(2)] c' lt by simp
    ultimately have "fst (play (Some f) calls' c' nows) = samples c' \<and> \<not> playing (snd (play (Some f) calls' c' nows))"
      using Cons.prems c' by (intro Cons.IH) auto
    then show ?thesis using True p c'(1) by simp
  next
    case False
    then have "c' = replay_stop c" "calls' = samples c" using r spec upto [of ?n] by auto
    then show ?thesis using False p by (simp add: replay_stop_def)
  qed
qed simp

lemma start_playable:
  assumes "replay_start t0 v c0 = Inr c" and "sorted (map timestamp_us (samples c0))"
  shows "playing c \<and> playable c \<and> next_sample c = 0 \<and> samples c = samples c0 \<and> samples c \<noteq> []
     \<and> start_us c = t0"
  using assms by (auto simp: replay_start_def playable_def split: if_splits)

text \<open>
  C34: A replay sends every sample exactly once and in order: however its calls are timed and whatever the
  callback answers, the samples it was called with are an initial segment of the recording; and once the
  calls come after the last due time, one more call than there are full batches of 256 completes it: when
  the callback accepts every sample, it was called with exactly the recording.
\<close>

theorem replay_in_order_and_complete:
  assumes "replay_start t0 v c0 = Inr c" and "valid_recording (samples c0)"
  shows "(\<exists>m\<le>length (samples c0). fst (play send [] c nows) = take m (samples c0))
       \<and> ((\<forall>t\<in>set nows. dueOffsetUs c (length (samples c0) - 1) \<le> elapsed_us t c)
           \<and> length (samples c0) < 256 * length nows \<and> (\<forall>cs. f cs = 0)
          \<longrightarrow> fst (play (Some f) [] c nows) = samples c0 \<and> \<not> playing (snd (play (Some f) [] c nows)))"
proof -
  have c: "playing c" "playable c" "next_sample c = 0" "samples c = samples c0" "samples c \<noteq> []"
    using start_playable [OF assms(1)] assms(2) by (auto simp: valid_recording_def)
  then show ?thesis
    using play_order [OF c(1, 2), of "[]" send nows] play_finishes [OF c(1, 2), of nows "[]" f]
    by (auto simp: MaxSamplesPerProcess_def)
qed

text \<open>
  the delay to the next sample is exact to the millisecond: waiting it out makes the sample
  due, and one millisecond less would not, as long as the wait stays under the range of \<open>int\<close> and
  the due time does not come within 999 microseconds of the 64-bit limit.
\<close>

theorem nextDelay_exact:
  assumes "playing c" and "next_sample c < length (samples c)"
    and "elapsed_us now c < dueOffsetUs c (next_sample c)"
    and "unat (dueOffsetUs c (next_sample c)) < 2147483647 * 1000"
  shows "unat (dueOffsetUs c (next_sample c)) \<le> unat (elapsed_us now c) + nat (nextDelayMs now c) * 1000
       \<and> unat (elapsed_us now c) + (nat (nextDelayMs now c) - 1) * 1000 < unat (dueOffsetUs c (next_sample c))"
proof -
  let ?due = "dueOffsetUs c (next_sample c)" and ?el = "elapsed_us now c"
  let ?gap = "unat ?due - unat ?el"
  have lt: "unat ?el < unat ?due" using assms(3) by (simp add: word_less_nat_alt)
  have gap: "unat (?due - ?el) = ?gap" using assms(3) by (simp add: unat_sub less_imp_le)
  then have "unat (?due - ?el + 999) = ?gap + 999"
    using assms(4) by (simp add: unat_word_ariths)
  then have q: "unat ((?due - ?el + 999) div 1000) = (?gap + 999) div 1000"
    by (simp add: unat_div_distrib)
  have "(?gap + 999) div 1000 \<le> 2147483647" using assms(4) by simp
  then have "(?due - ?el + 999) div 1000 \<le> 2147483647"
    using q by (simp add: word_le_nat_alt)
  moreover have "\<not> ?due \<le> ?el" using assms(3) by simp
  ultimately have "nextDelayMs now c = uint ((?due - ?el + 999) div 1000)"
    using assms(1, 2) by (simp add: nextDelayMs_def Let_def min_def)
  then have d: "nat (nextDelayMs now c) = (?gap + 999) div 1000"
    using q by (simp add: nat_uint_eq)
  show ?thesis unfolding d using lt by linarith
qed

section \<open>A concrete recording\<close>

definition demo_parsers :: number_parsers where
  "demo_parsers = \<lparr>to_u64 = map_of [(''0'', 0), (''1500'', 1500)],
     to_u32 = map_of [(''0'', 0), (''1'', 1), (''90'', 90)], to_i32 = map_of [(''45'', 45)],
     to_double = map_of [(''0'', Finite 0), (''0.5'', Finite (1 / 2))], utf8 = (\<lambda>s. s)\<rparr>"

definition demo_file :: recording_file where
  "demo_file = \<lparr>is_file = True, file_bytes = 64, opens = True,
     lines = [DataMagic @ [CHR 0x0A], ''P 0 1 0.5 0.5 0 90 45'' @ [CHR 0x0A], ''P 1500 0 0 0 0.5 90 45''],
     read_fails = False, file_name = ''a.dat''\<rparr>"

definition demo_sample :: "u64 \<Rightarrow> byte \<Rightarrow> real \<Rightarrow> real \<Rightarrow> sample" where
  "demo_sample t e x p = \<lparr>timestamp_us = t, event_type = e, pos_x = x, pos_y = x, pressure = p,
     rotation = 90, tilt = 45\<rparr>"

definition demo_replay :: replay where
  "demo_replay = new_replay\<lparr>samples := [demo_sample 0 1 (1 / 2) 0, demo_sample 1500 0 0 (1 / 2)],
     source_name := ''a.dat''\<rparr>"

lemma demo_loads: "loadFile demo_parsers demo_file new_replay = Inr demo_replay"
  by (simp add: loadFile_def demo_file_def first_line_def demo_parsers_def trimLineEnding_def
      DataMagic_def MaxFileBytes_def MaxSamples_def starts_with_def utf8_bom_def trimmed_def
      is_space_def words.simps Let_def parse_sample_def unit_value_def demo_replay_def
      replay_stop_def new_replay_def demo_sample_def)

definition demo_playing :: replay where
  "demo_playing = demo_replay\<lparr>start_us := 1000, speed := 2, playing := True\<rparr>"

lemma demo_starts: "replay_start 1000 2 demo_replay = Inr demo_playing"
  by (simp add: replay_start_def demo_playing_def demo_replay_def new_replay_def)

lemma demo_recording: "valid_recording (samples demo_replay)"
  by (simp add: valid_recording_def demo_replay_def valid_sample_def demo_sample_def MaxSamples_def)

lemma demo_playable: "playing demo_playing \<and> playable demo_playing"
  using start_playable [OF demo_starts] demo_recording by (simp add: valid_recording_def)

theorem loadFile_valid_witness: "valid_recording (samples demo_replay) \<and> \<not> playing demo_replay"
  using loadFile_valid [OF demo_loads] by simp

lemma demo_due: "dueOffsetUs demo_playing 0 = 0" "dueOffsetUs demo_playing (Suc 0) = 750"
  by (simp_all add: dueOffsetUs_def demo_playing_def demo_replay_def demo_sample_def Let_def)

lemma demo_elapsed: "elapsed_us 1000 demo_playing = 0" "elapsed_us 5000 demo_playing = 4000"
  by (simp_all add: elapsed_us_def demo_playing_def)

lemma demo_samples: "length (samples demo_playing) = 2" "next_sample demo_playing = 0"
  by (simp_all add: demo_playing_def demo_replay_def new_replay_def)

lemma demo_process:
  "processDue (Some (\<lambda>cs. 0)) 1000 [] demo_playing
   = (Running, 1, [samples demo_playing ! 0], demo_playing\<lparr>next_sample := 1\<rparr>)"
  using demo_playable
  by (simp add: processDue_def demo_elapsed demo_samples process_loop.simps demo_due
      MaxSamplesPerProcess_def)

theorem processDue_sends_witness:
  "elapsed_us 1000 demo_playing < dueOffsetUs demo_playing 1"
  using processDue_sends [of demo_playing, OF _ _ demo_process refl] demo_playable
  by (simp add: demo_samples MaxSamplesPerProcess_def)

theorem replay_in_order_and_complete_witness:
  "fst (play (Some (\<lambda>cs. 0)) [] demo_playing [5000]) = [demo_sample 0 1 (1 / 2) 0, demo_sample 1500 0 0 (1 / 2)]"
  using replay_in_order_and_complete [OF demo_starts demo_recording, of None "[5000]" "\<lambda>cs. 0"]
  by (simp add: demo_elapsed demo_due demo_replay_def new_replay_def del: play.simps)

theorem nextDelay_exact_witness:
  "750 \<le> unat (elapsed_us 1000 (demo_playing\<lparr>next_sample := 1\<rparr>))
           + nat (nextDelayMs 1000 (demo_playing\<lparr>next_sample := 1\<rparr>)) * 1000"
  using nextDelay_exact [of "demo_playing\<lparr>next_sample := 1\<rparr>" 1000] demo_playable
  by (simp add: demo_due demo_elapsed demo_samples)

end
