(* ===== verification/CompatCheck.thy ===== *)
theory CompatCheck
  imports TextOps "HOL-Library.List_Lexorder"
begin

text \<open>
  The check of a host's version against the latest known to be supported
  (\<open>CompatFetcher::isGfeVersionSupported\<close> in \<open>src/app/settings/compatfetcher.cpp\<close>). Its loop has no
  bound of its own, so it is a partial function and that it returns is proved. \<open>to_int\<close> is
  \<open>QString::toInt(&ok)\<close>: a number, or nothing if the text is none.
\<close>

definition component :: "(string \<Rightarrow> int option) \<Rightarrow> string list \<Rightarrow> nat \<Rightarrow> int option" where
  "component to_int quad i =
     (if i < length quad
      then (case to_int (quad ! i) of None \<Rightarrow> None | Some v \<Rightarrow> if v < 0 then None else Some v)
      else Some 0)"

partial_function (option) compare_from ::
  "(string \<Rightarrow> int option) \<Rightarrow> string list \<Rightarrow> string list \<Rightarrow> nat \<Rightarrow> bool option" where
  "compare_from to_int gfe latest i =
     (case component to_int gfe i of
        None \<Rightarrow> Some True
      | Some actualVerVal \<Rightarrow>
         (case component to_int latest i of
            None \<Rightarrow> Some True
          | Some latestSupportedVal \<Rightarrow>
              if i \<ge> length gfe \<and> i \<ge> length latest then Some True
              else if actualVerVal < latestSupportedVal then Some True
              else if actualVerVal > latestSupportedVal then Some False
              else compare_from to_int gfe latest (Suc i)))"

definition isGfeVersionSupported :: "(string \<Rightarrow> int option) \<Rightarrow> string \<Rightarrow> string \<Rightarrow> bool option" where
  "isGfeVersionSupported to_int latestSupportedVersion gfeVersion =
     (if trimmed gfeVersion = [] then Some True
      else if latestSupportedVersion = [] then Some True
      else
        let latest = split_on (CHR ''.'') latestSupportedVersion; gfe = split_on (CHR ''.'') gfeVersion in
        if length gfe \<le> 1 then Some True
        else if length latest \<le> 1 then Some True
        else compare_from to_int gfe latest 0)"

lemma compare_returns: "\<exists>b. compare_from to_int gfe latest i = Some b"
proof (induction "Suc (max (length gfe) (length latest)) - i" arbitrary: i)
  case 0
  then have "length gfe \<le> i" "length latest \<le> i" by auto
  then show ?case by (subst compare_from.simps) (auto split: option.split)
next
  case (Suc n)
  then have "\<exists>b. compare_from to_int gfe latest (Suc i) = Some b" by (intro Suc.hyps(1)) simp
  then show ?case by (subst compare_from.simps) (auto split: option.split)
qed

text \<open>
  The check returns for every version and every stored one, although its loop has no bound.
\<close>
theorem version_check_returns:
  "\<exists>b. isGfeVersionSupported to_int latestSupportedVersion gfeVersion = Some b"
  using compare_returns by (auto simp: isGfeVersionSupported_def Let_def)

text \<open>The reference: versions as numbers, missing components as 0, compared lexicographically.\<close>

definition padded :: "nat \<Rightarrow> int list \<Rightarrow> int list" where
  "padded n xs = xs @ replicate (n - length xs) 0"

definition parses :: "(string \<Rightarrow> int option) \<Rightarrow> string list \<Rightarrow> int list \<Rightarrow> bool" where
  "parses to_int quad xs \<longleftrightarrow> map to_int quad = map Some xs \<and> list_all (\<lambda>x. 0 \<le> x) xs"

lemma component_parsed:
  assumes "parses to_int quad xs"
  shows "component to_int quad i = Some (if i < length xs then xs ! i else 0)"
proof (cases "i < length quad")
  case True
  have len: "length quad = length xs" using assms unfolding parses_def by (metis length_map)
  then have "to_int (quad ! i) = Some (xs ! i)"
    using assms True unfolding parses_def by (metis nth_map)
  moreover have "0 \<le> xs ! i" using assms True len by (simp add: parses_def list_all_length)
  ultimately show ?thesis using True len by (simp add: component_def)
next
  case False
  moreover have "length quad = length xs" using assms unfolding parses_def by (metis length_map)
  ultimately show ?thesis by (simp add: component_def)
qed

lemma nth_padded: "i < n \<Longrightarrow> length xs \<le> n \<Longrightarrow> padded n xs ! i = (if i < length xs then xs ! i else 0)"
  by (simp add: padded_def nth_append)

lemma compare_parsed:
  assumes g: "parses to_int gfe a" and l: "parses to_int latest b" and n: "n = max (length a) (length b)"
    and i: "i \<le> n"
  shows "compare_from to_int gfe latest i = Some (drop i (padded n a) \<le> drop i (padded n b))"
  using i
proof (induction "n - i" arbitrary: i)
  case 0
  then have "i = n" by simp
  then have "drop i (padded n a) = []" "drop i (padded n b) = []" using n by (simp_all add: padded_def)
  moreover have "length gfe \<le> i" "length latest \<le> i"
    using g l n \<open>i = n\<close> unfolding parses_def by (metis length_map max.cobounded1 max.cobounded2)+
  ultimately show ?case
    by (subst compare_from.simps) (simp add: component_parsed [OF g] component_parsed [OF l])
next
  case (Suc k)
  then have i: "i < n" by simp
  have c: "drop i (padded n xs) = (if i < length xs then xs ! i else 0) # drop (Suc i) (padded n xs)"
    if "length xs \<le> n" for xs
    using i that Cons_nth_drop_Suc [of i "padded n xs"] nth_padded [OF i that] by (simp add: padded_def)
  have le: "length a \<le> n" "length b \<le> n" using n by simp_all
  have "\<not> (length gfe \<le> i \<and> length latest \<le> i)"
    using g l i n unfolding parses_def by (metis length_map less_max_iff_disj not_less)
  moreover have "compare_from to_int gfe latest (Suc i) = Some (drop (Suc i) (padded n a) \<le> drop (Suc i) (padded n b))"
    using Suc by (intro Suc.hyps(1)) simp_all
  ultimately show ?case
    unfolding c [OF le(1)] c [OF le(2)]
    by (subst compare_from.simps) (auto simp: component_parsed [OF g] component_parsed [OF l])
qed

text \<open>
  For versions of at least two components that are all numbers, a version is supported exactly
  if it is not greater than the latest supported one, component by component with missing ones as 0.
\<close>
theorem version_check_compares:
  assumes "parses to_int (split_on (CHR ''.'') gfe) a" and "parses to_int (split_on (CHR ''.'') latest) b"
    and "1 < length a" and "1 < length b" and "n = max (length a) (length b)"
    and "trimmed gfe \<noteq> []" and "latest \<noteq> []"
  shows "isGfeVersionSupported to_int latest gfe = Some (padded n a \<le> padded n b)"
proof -
  have "length (split_on (CHR ''.'') gfe) = length a" "length (split_on (CHR ''.'') latest) = length b"
    using assms(1, 2) unfolding parses_def by (metis length_map)+
  then show ?thesis
    using assms compare_parsed [OF assms(1, 2, 5), of 0] by (simp add: isGfeVersionSupported_def)
qed

definition digit :: "string \<Rightarrow> int option" where
  "digit s = (case s of [c] \<Rightarrow> Some (int (of_char c) - 48) | _ \<Rightarrow> None)"

theorem version_check_compares_witness:
  "isGfeVersionSupported digit ''3.2.1'' ''3.2'' = Some True"
  using version_check_compares [of digit "''3.2''" "[3, 2]" "''3.2.1''" "[3, 2, 1]" 3]
  by (simp add: parses_def digit_def padded_def trimmed_def is_space_def)

end
