(* ===== verification/UpdateCheck.thy ===== *)
theory UpdateCheck
  imports TextOps Json CompatCheck
begin

text \<open>
  The check for a newer release and the choice of the package to offer
  (\<open>src/app/backend/autoupdatechecker.cpp\<close>, \<open>autoupdatechecker.h\<close>). The request itself is outside; its answer is an
  argument. \<open>to_int\<close> is \<open>QString::toInt(&ok)\<close>.
\<close>

section \<open>Versions\<close>

definition index_of :: "char \<Rightarrow> string \<Rightarrow> nat option" where
  "index_of c s = (if c \<in> set s then Some (length (takeWhile (\<lambda>d. d \<noteq> c) s)) else None)"

definition suffix_index :: "string \<Rightarrow> nat option" where
  "suffix_index s =
     (case (index_of (CHR ''+'') s, index_of (CHR ''-'') s) of
        (None, p) \<Rightarrow> p
      | (Some i, Some p) \<Rightarrow> if p < i then Some p else Some i
      | (Some i, None) \<Rightarrow> Some i)"

fun leading_ints :: "(string \<Rightarrow> int option) \<Rightarrow> string list \<Rightarrow> int list" where
  "leading_ints to_int [] = []"
| "leading_ints to_int (c # cs) = (case to_int c of None \<Rightarrow> [] | Some v \<Rightarrow> v # leading_ints to_int cs)"

definition parseStringToVersionQuad :: "(string \<Rightarrow> int option) \<Rightarrow> string \<Rightarrow> int list" where
  "parseStringToVersionQuad to_int s =
     (let v = trimmed s;
          v = (if starts_with ''v'' v \<or> starts_with ''V'' v then tl v else v);
          v = (case suffix_index v of None \<Rightarrow> v | Some i \<Rightarrow> take i v)
      in leading_ints to_int (split_on (CHR ''.'') v))"

function compare_quads :: "int list \<Rightarrow> int list \<Rightarrow> nat \<Rightarrow> int" where
  "compare_quads a b i =
     (let v = (if i < length a then a ! i else 0); w = (if i < length b then b ! i else 0) in
      if length a \<le> i \<and> length b \<le> i then 0
      else if v < w then - 1
      else if w < v then 1
      else compare_quads a b (Suc i))"
  by pat_completeness auto

termination
  by (relation "measure (\<lambda>(a, b, i). max (length a) (length b) - i)") auto

declare compare_quads.simps [simp del]

definition compareVersion :: "int list \<Rightarrow> int list \<Rightarrow> int" where
  "compareVersion a b = compare_quads a b 0"

section \<open>Packages\<close>

datatype update_platform = Windows | Mac | App_image | Other_platform

text \<open>\<open>build_arch\<close> is \<open>QSysInfo::buildCpuArchitecture\<close>; \<open>portable_dat\<close>, whether that file lies beside the program.\<close>

record update_env =
  on_platform :: update_platform
  build_arch :: string
  portable_dat :: bool
  as_int :: "string \<Rightarrow> int option"

definition getPreferredAssetSuffix :: "update_env \<Rightarrow> string" where
  "getPreferredAssetSuffix q =
     (case on_platform q of
        Mac \<Rightarrow> ''-'' @ build_arch q @ ''.dmg''
      | App_image \<Rightarrow>
          let a = map to_lower (build_arch q); a = (if a = ''arm64'' then ''aarch64'' else a) in ''-'' @ a @ ''.AppImage''
      | _ \<Rightarrow> [])"

definition isPortableInstall :: "update_env \<Rightarrow> bool" where
  "isPortableInstall q \<longleftrightarrow> on_platform q = Windows \<and> portable_dat q"

definition getExpectedAssetSuffix :: "update_env \<Rightarrow> string" where
  "getExpectedAssetSuffix q =
     (case on_platform q of
        Windows \<Rightarrow> if isPortableInstall q then ''.zip'' else ''.exe''
      | Mac \<Rightarrow> ''.dmg''
      | App_image \<Rightarrow> ''.AppImage''
      | Other_platform \<Rightarrow> [])"

definition getCurrentBuildArch :: "update_env \<Rightarrow> string" where
  "getCurrentBuildArch q =
     (if build_arch q = ''x86_64'' then ''x64''
      else if build_arch q = ''i386'' then ''x86''
      else map to_lower (build_arch q))"

definition getExpectedAssetPrefix :: "update_env \<Rightarrow> string" where
  "getExpectedAssetPrefix q =
     (if on_platform q = Windows
      then if isPortableInstall q then ''Moonlight-VPlus-Portable-'' @ getCurrentBuildArch q @ ''-'' else ''Moonlight-VPlus-Setup-''
      else [])"

definition legacyPrefix :: "update_env \<Rightarrow> string" where
  "legacyPrefix q =
     (if isPortableInstall q then ''MoonlightPortable-'' @ getCurrentBuildArch q @ ''-'' else ''MoonlightSetup-'')"

definition starts_ci :: "string \<Rightarrow> string \<Rightarrow> bool" where
  "starts_ci p s \<longleftrightarrow> starts_with (map to_lower p) (map to_lower s)"

definition ends_ci :: "string \<Rightarrow> string \<Rightarrow> bool" where
  "ends_ci p s \<longleftrightarrow> ends_with (map to_lower p) (map to_lower s)"

definition prefixMatches :: "update_env \<Rightarrow> string \<Rightarrow> bool" where
  "prefixMatches q n \<longleftrightarrow> getExpectedAssetPrefix q = [] \<or> starts_ci (getExpectedAssetPrefix q) n
     \<or> on_platform q = Windows \<and> starts_ci (legacyPrefix q) n"

definition isOtherArchAsset :: "update_env \<Rightarrow> string \<Rightarrow> bool" where
  "isOtherArchAsset q n \<longleftrightarrow> ends_ci ''-arm64.dmg'' n \<or> ends_ci ''-x86_64.dmg'' n
     \<or> getPreferredAssetSuffix q \<noteq> [] \<and> (ends_ci ''-aarch64.AppImage'' n \<or> ends_ci ''-x86_64.AppImage'' n)"

definition url_and_digest :: "json \<Rightarrow> string \<times> string" where
  "url_and_digest a = (to_str (json_value a ''browser_download_url''), to_str (json_value a ''digest''))"

text \<open>The loop over the assets: what it found for this architecture, and the fallback.\<close>

fun scan_assets :: "update_env \<Rightarrow> json list \<Rightarrow> string \<times> string \<Rightarrow> (string \<times> string) \<times> (string \<times> string)" where
  "scan_assets q [] fallback = (([], []), fallback)"
| "scan_assets q (a # as) fallback =
     (if \<not> is_object a then scan_assets q as fallback
      else let n = to_str (json_value a ''name'') in
        if \<not> prefixMatches q n \<or> \<not> ends_ci (getExpectedAssetSuffix q) n then scan_assets q as fallback
        else if getPreferredAssetSuffix q \<noteq> [] \<and> ends_ci (getPreferredAssetSuffix q) n then (url_and_digest a, fallback)
        else if fst fallback = [] \<and> \<not> isOtherArchAsset q n then scan_assets q as (url_and_digest a)
        else scan_assets q as fallback)"

definition find_download :: "update_env \<Rightarrow> json \<Rightarrow> string \<times> string" where
  "find_download q release =
     (if getExpectedAssetSuffix q \<noteq> [] \<and> is_array (json_value release ''assets'')
      then case scan_assets q (to_array (json_value release ''assets'')) ([], []) of (found, fallback) \<Rightarrow>
        if fst found = [] \<and> fst fallback \<noteq> [] then fallback else found
      else ([], []))"

section \<open>The checker\<close>

record update_checker =
  m_CurrentVersionQuad :: "int list"
  m_UpdateDownloadUrl :: string
  m_UpdateAssetDigest :: string
  update_signals :: "(string \<times> string) list"

definition new_checker :: "update_env \<Rightarrow> string \<Rightarrow> update_checker" where
  "new_checker q version = \<lparr>m_CurrentVersionQuad = parseStringToVersionQuad (as_int q) version,
     m_UpdateDownloadUrl = [], m_UpdateAssetDigest = [], update_signals = []\<rparr>"

text \<open>\<open>None\<close> stands for a failed request or an answer that is not JSON.\<close>

definition handleUpdateCheckRequestFinished :: "update_env \<Rightarrow> json option \<Rightarrow> update_checker \<Rightarrow> update_checker" where
  "handleUpdateCheckRequestFinished q reply s =
     (case reply of
        None \<Rightarrow> s
      | Some release \<Rightarrow>
          if \<not> is_object release then s
          else if to_bool (json_value release ''prerelease'') \<or> to_bool (json_value release ''draft'') then s
          else if \<not> is_string (json_value release ''tag_name'') then s
          else let tag = to_str (json_value release ''tag_name'') in
            if compareVersion (m_CurrentVersionQuad s) (parseStringToVersionQuad (as_int q) tag) < 0
            then case find_download q release of (url, digest) \<Rightarrow>
              let url = (if url = [] then to_str (json_value release ''html_url'') else url) in
              s\<lparr>m_UpdateDownloadUrl := url, m_UpdateAssetDigest := digest, update_signals := update_signals s @ [(tag, url)]\<rparr>
            else s)"

text \<open>What \<open>installUpdate\<close> hands to the installer: the URL and the digest to check it against.\<close>

definition install_request :: "update_checker \<Rightarrow> string \<Rightarrow> string \<times> string" where
  "install_request s url = (url, if url = m_UpdateDownloadUrl s then m_UpdateAssetDigest s else [])"

section \<open>Versions compared\<close>

definition lex_sign :: "int list \<Rightarrow> int list \<Rightarrow> int" where
  "lex_sign a b = (if a < b then - 1 else if b < a then 1 else 0)"

lemma lex_sign_Cons: "lex_sign (x # a) (y # b) = (if x < y then - 1 else if y < x then 1 else lex_sign a b)"
  by (auto simp: lex_sign_def)

lemma compare_drop:
  assumes "n = max (length a) (length b)" and "i \<le> n"
  shows "compare_quads a b i = lex_sign (drop i (padded n a)) (drop i (padded n b))"
  using assms(2)
proof (induction "n - i" arbitrary: i)
  case 0
  then have "drop i (padded n a) = []" "drop i (padded n b) = []" "length a \<le> i" "length b \<le> i"
    using assms(1) by (auto simp: padded_def)
  then show ?case by (subst compare_quads.simps) (simp add: lex_sign_def)
next
  case (Suc k)
  then have i: "i < n" by simp
  have le: "length a \<le> n" "length b \<le> n" using assms(1) by simp_all
  have c: "drop i (padded n xs) = (if i < length xs then xs ! i else 0) # drop (Suc i) (padded n xs)"
    if "length xs \<le> n" for xs
    using i that Cons_nth_drop_Suc [of i "padded n xs"] nth_padded [OF i that] by (simp add: padded_def)
  have "compare_quads a b (Suc i) = lex_sign (drop (Suc i) (padded n a)) (drop (Suc i) (padded n b))"
    using Suc by (intro Suc.hyps(1)) simp_all
  moreover have "\<not> (length a \<le> i \<and> length b \<le> i)" using i assms(1) by auto
  ultimately show ?case
    unfolding c [OF le(1)] c [OF le(2)] lex_sign_Cons by (subst compare_quads.simps) (auto simp: Let_def)
qed

lemma suffix_index_Cons:
  "suffix_index (c # s) = (if c = CHR ''+'' \<or> c = CHR ''-'' then Some 0 else map_option Suc (suffix_index s))"
  by (auto simp: suffix_index_def index_of_def split: option.splits)

lemma cut_suffix: "(case suffix_index s of None \<Rightarrow> s | Some i \<Rightarrow> take i s) = takeWhile (\<lambda>c. c \<noteq> CHR ''+'' \<and> c \<noteq> CHR ''-'') s"
proof (induction s)
  case Nil
  show ?case by (simp add: suffix_index_def index_of_def)
next
  case (Cons c s)
  then show ?case by (auto simp: suffix_index_Cons split: option.splits)
qed

lemma ints_read: "map to_int ws = map Some ns \<Longrightarrow> leading_ints to_int ws = ns"
  by (induction ws arbitrary: ns) auto

section \<open>Packages found\<close>

definition suits :: "update_env \<Rightarrow> json \<Rightarrow> bool" where
  "suits q a \<longleftrightarrow> (let n = to_str (json_value a ''name'') in
     is_object a \<and> prefixMatches q n \<and> ends_ci (getExpectedAssetSuffix q) n
     \<and> (getPreferredAssetSuffix q \<noteq> [] \<and> ends_ci (getPreferredAssetSuffix q) n \<or> \<not> isOtherArchAsset q n))"

definition from_assets :: "update_env \<Rightarrow> json list \<Rightarrow> string \<times> string \<Rightarrow> bool" where
  "from_assets q as p \<longleftrightarrow> fst p = [] \<or> (\<exists>a \<in> set as. suits q a \<and> p = url_and_digest a)"

lemma scan_from:
  assumes "from_assets q all fallback" and "set as \<subseteq> set all"
  shows "from_assets q all (fst (scan_assets q as fallback)) \<and> from_assets q all (snd (scan_assets q as fallback))"
  using assms
proof (induction q as fallback rule: scan_assets.induct)
  case (1 q fallback)
  then show ?case by (simp add: from_assets_def)
next
  case (2 q a as fallback)
  let ?n = "to_str (json_value a ''name'')"
  show ?case
  proof (cases "is_object a \<and> prefixMatches q ?n \<and> ends_ci (getExpectedAssetSuffix q) ?n")
    case False
    then show ?thesis using 2 by auto
  next
    case True
    have suits: "from_assets q all (url_and_digest a)"
      if "getPreferredAssetSuffix q \<noteq> [] \<and> ends_ci (getPreferredAssetSuffix q) ?n \<or> \<not> isOtherArchAsset q ?n"
      using that True 2(6) by (auto simp: from_assets_def suits_def Let_def)
    show ?thesis
      using True 2 suits by (simp add: Let_def)
  qed
qed

lemma found_from: "from_assets q (to_array (json_value release ''assets'')) (find_download q release)"
proof -
  let ?as = "to_array (json_value release ''assets'')"
  have "from_assets q ?as ([], [])" by (simp add: from_assets_def)
  from scan_from [OF this, of ?as] show ?thesis
    by (auto simp: find_download_def case_prod_beta from_assets_def)
qed

lemma lex_sign_compared:
  "compareVersion a b = lex_sign (padded (max (length a) (length b)) a) (padded (max (length a) (length b)) b)"
  using compare_drop [OF refl, of 0 a b] by (simp add: compareVersion_def)

lemma lex_sign_neg: "lex_sign a b < 0 \<longleftrightarrow> a < b"
  by (simp add: lex_sign_def)

section \<open>Packages for this machine\<close>

text \<open>
  What a package must be called, in lower case letters, written out for each platform and without the
  predicates of the code. The names of architectures have no hyphen.
\<close>

definition own_arch :: "update_env \<Rightarrow> string" where
  "own_arch q =
     (let a = map to_lower (build_arch q) in
      case on_platform q of
        Windows \<Rightarrow> if build_arch q = ''x86_64'' then ''x64'' else if build_arch q = ''i386'' then ''x86'' else a
      | App_image \<Rightarrow> if a = ''arm64'' then ''aarch64'' else a
      | _ \<Rightarrow> a)"

definition for_this_machine :: "update_env \<Rightarrow> string \<Rightarrow> bool" where
  "for_this_machine q n \<longleftrightarrow>
     (case on_platform q of
        Windows \<Rightarrow>
          if portable_dat q
          then ends_with ''.zip'' n \<and> (starts_with (''moonlight-vplus-portable-'' @ own_arch q @ ''-'') n
                                    \<or> starts_with (''moonlightportable-'' @ own_arch q @ ''-'') n)
          else ends_with ''.exe'' n \<and> (starts_with ''moonlight-vplus-setup-'' n \<or> starts_with ''moonlightsetup-'' n)
      | Mac \<Rightarrow> ends_with ''.dmg'' n
          \<and> (\<forall>a \<in> {''arm64'', ''x86_64''}. ends_with (''-'' @ a @ ''.dmg'') n \<longrightarrow> a = own_arch q)
      | App_image \<Rightarrow> ends_with ''.appimage'' n
          \<and> (\<forall>a \<in> {''aarch64'', ''x86_64''}. ends_with (''-'' @ a @ ''.appimage'') n \<longrightarrow> a = own_arch q)
      | Other_platform \<Rightarrow> False)"

lemma hyphen_lower: "to_lower c = CHR ''-'' \<longleftrightarrow> c = CHR ''-''"
proof (cases "65 \<le> (of_char c :: nat) \<and> (of_char c :: nat) \<le> 90")
  case True
  then have "c \<noteq> CHR ''-''" by auto
  moreover have "take_bit 8 (of_char c + 32) = (of_char c + 32 :: nat)" using True by (simp add: take_bit_nat_eq_self)
  then have "char_of (of_char c + 32 :: nat) \<noteq> CHR ''-''" using True by (auto simp: char_of_eq_iff)
  ultimately show ?thesis using True by (simp add: to_lower_def)
next
  case False
  then show ?thesis unfolding to_lower_def by (simp only: if_False)
qed

lemma lower_idem: "to_lower (to_lower c) = to_lower c"
proof (cases "65 \<le> (of_char c :: nat) \<and> (of_char c :: nat) \<le> 90")
  case True
  then have "take_bit 8 (of_char c + 32) = (of_char c + 32 :: nat)" by (simp add: take_bit_nat_eq_self)
  then have "(of_char (to_lower c) :: nat) = of_char c + 32" using True by (simp add: to_lower_def)
  then show ?thesis using True by (simp add: to_lower_def [of "to_lower c"])
next
  case False
  then have "to_lower c = c" unfolding to_lower_def by (simp only: if_False)
  then show ?thesis by simp
qed

lemma ends_with_split: "ends_with p s \<longleftrightarrow> (\<exists>u. s = u @ p)"
proof -
  have "ends_with p s \<longleftrightarrow> (\<exists>u. rev s = rev p @ u)"
    by (metis append_take_drop_id append_eq_conv_conj ends_with_def starts_with_def)
  also have "\<dots> \<longleftrightarrow> (\<exists>u. s = u @ p)" by (metis rev_append rev_rev_ident)
  finally show ?thesis .
qed

lemma last_hyphen:
  assumes "u @ CHR ''-'' # a = v @ CHR ''-'' # b" and "CHR ''-'' \<notin> set a" and "CHR ''-'' \<notin> set b"
  shows "a = b"
proof -
  have tail: "takeWhile (\<lambda>c. c \<noteq> CHR ''-'') (rev (w @ CHR ''-'' # x)) = rev x" if "CHR ''-'' \<notin> set x" for w x
  proof -
    have "takeWhile (\<lambda>c. c \<noteq> CHR ''-'') (rev x @ CHR ''-'' # rev w) = rev x @ takeWhile (\<lambda>c. c \<noteq> CHR ''-'') (CHR ''-'' # rev w)"
      by (rule takeWhile_append2) (use that in auto)
    then show ?thesis by simp
  qed
  have "rev a = rev b" using tail [OF assms(2), of u] tail [OF assms(3), of v] unfolding assms(1) by (rule trans [OF sym])
  then show ?thesis by simp
qed

lemma one_architecture:
  assumes "ends_with (''-'' @ a @ e) n" and "ends_with (''-'' @ b @ e) n" and "CHR ''-'' \<notin> set a" and "CHR ''-'' \<notin> set b"
  shows "a = b"
proof -
  obtain u where u: "n = u @ ''-'' @ a @ e" using assms(1) unfolding ends_with_split by blast
  obtain v where v: "n = v @ ''-'' @ b @ e" using assms(2) unfolding ends_with_split by blast
  have "(u @ CHR ''-'' # a) @ e = (v @ CHR ''-'' # b) @ e" using u v by simp
  then have "u @ CHR ''-'' # a = v @ CHR ''-'' # b" unfolding append_same_eq .
  then show ?thesis using assms(3,4) by (rule last_hyphen)
qed

text \<open>The letters of the names in the code, in lower case.\<close>

lemma lower_literal:
  "to_lower (CHR ''A'') = CHR ''a''" "to_lower (CHR ''I'') = CHR ''i''" "to_lower (CHR ''M'') = CHR ''m''" "to_lower (CHR ''P'') = CHR ''p''" "to_lower (CHR ''S'') = CHR ''s''" "to_lower (CHR ''V'') = CHR ''v''"
  "to_lower (CHR ''.'') = CHR ''.''" "to_lower (CHR ''-'') = CHR ''-''" "to_lower (CHR ''_'') = CHR ''_''" "to_lower (CHR ''0'') = CHR ''0''" "to_lower (CHR ''1'') = CHR ''1''" "to_lower (CHR ''2'') = CHR ''2''" "to_lower (CHR ''3'') = CHR ''3''"
  "to_lower (CHR ''4'') = CHR ''4''" "to_lower (CHR ''6'') = CHR ''6''" "to_lower (CHR ''8'') = CHR ''8''" "to_lower (CHR ''9'') = CHR ''9''" "to_lower (CHR ''a'') = CHR ''a''" "to_lower (CHR ''b'') = CHR ''b''" "to_lower (CHR ''c'') = CHR ''c''" "to_lower (CHR ''d'') = CHR ''d''"
  "to_lower (CHR ''e'') = CHR ''e''" "to_lower (CHR ''f'') = CHR ''f''" "to_lower (CHR ''g'') = CHR ''g''" "to_lower (CHR ''h'') = CHR ''h''" "to_lower (CHR ''i'') = CHR ''i''" "to_lower (CHR ''l'') = CHR ''l''" "to_lower (CHR ''m'') = CHR ''m''" "to_lower (CHR ''n'') = CHR ''n''"
  "to_lower (CHR ''o'') = CHR ''o''" "to_lower (CHR ''p'') = CHR ''p''" "to_lower (CHR ''r'') = CHR ''r''" "to_lower (CHR ''s'') = CHR ''s''" "to_lower (CHR ''t'') = CHR ''t''" "to_lower (CHR ''u'') = CHR ''u''" "to_lower (CHR ''v'') = CHR ''v''" "to_lower (CHR ''x'') = CHR ''x''"
  "to_lower (CHR ''y'') = CHR ''y''" "to_lower (CHR ''z'') = CHR ''z''"
  by (simp_all add: to_lower_def char_of_eq_iff)

lemma own_hyphen:
  assumes "CHR ''-'' \<notin> set (build_arch q)"
  shows "CHR ''-'' \<notin> set (own_arch q)"
proof -
  have "CHR ''-'' \<notin> set (map to_lower (build_arch q))"
  proof
    assume "CHR ''-'' \<in> set (map to_lower (build_arch q))"
    then obtain c where "c \<in> set (build_arch q)" "to_lower c = CHR ''-''" by auto
    then show False using assms hyphen_lower [of c] by simp
  qed
  moreover define a where "a = map to_lower (build_arch q)"
  ultimately show ?thesis unfolding own_arch_def Let_def a_def [symmetric] by (simp split: update_platform.split)
qed

lemma suits_machine:
  assumes "suits q a" and "CHR ''-'' \<notin> set (build_arch q)" and "on_platform q \<noteq> Other_platform"
  shows "for_this_machine q (map to_lower (to_str (json_value a ''name'')))"
proof -
  let ?n = "map to_lower (to_str (json_value a ''name''))"
  note own = own_hyphen [OF assms(2)]
  show ?thesis
  proof (cases "on_platform q")
    case Windows
    then show ?thesis using assms(1)
      by (auto simp: suits_def Let_def for_this_machine_def prefixMatches_def starts_ci_def ends_ci_def getExpectedAssetPrefix_def
          getExpectedAssetSuffix_def legacyPrefix_def isPortableInstall_def getCurrentBuildArch_def own_arch_def lower_literal lower_idem o_def
          split: if_splits)
  next
    case Mac
    have pref: "map to_lower (getPreferredAssetSuffix q) = ''-'' @ own_arch q @ ''.dmg''"
      using Mac by (simp add: getPreferredAssetSuffix_def own_arch_def lower_literal lower_idem Let_def)
    have "b = own_arch q" if "b \<in> {''arm64'', ''x86_64''}" "ends_with (''-'' @ b @ ''.dmg'') ?n" for b
    proof -
      have "ends_ci (getPreferredAssetSuffix q) (to_str (json_value a ''name''))"
        using assms(1) that by (auto simp: suits_def Let_def isOtherArchAsset_def ends_ci_def lower_literal)
      then have "ends_with (''-'' @ own_arch q @ ''.dmg'') ?n" by (simp add: ends_ci_def pref)
      from one_architecture [OF that(2) this _ own] that(1) show ?thesis by auto
    qed
    then show ?thesis using Mac assms(1)
      by (simp add: for_this_machine_def suits_def Let_def ends_ci_def getExpectedAssetSuffix_def lower_literal)
  next
    case App_image
    have pref: "map to_lower (getPreferredAssetSuffix q) = ''-'' @ own_arch q @ ''.appimage''"
      using App_image by (simp add: getPreferredAssetSuffix_def own_arch_def lower_literal lower_idem Let_def)
    have "b = own_arch q" if "b \<in> {''aarch64'', ''x86_64''}" "ends_with (''-'' @ b @ ''.appimage'') ?n" for b
    proof -
      have "getPreferredAssetSuffix q \<noteq> []" using App_image by (simp add: getPreferredAssetSuffix_def Let_def)
      then have "ends_ci (getPreferredAssetSuffix q) (to_str (json_value a ''name''))"
        using assms(1) that by (auto simp: suits_def Let_def isOtherArchAsset_def ends_ci_def lower_literal)
      then have "ends_with (''-'' @ own_arch q @ ''.appimage'') ?n" by (simp add: ends_ci_def pref)
      from one_architecture [OF that(2) this _ own] that(1) show ?thesis by auto
    qed
    then show ?thesis using App_image assms(1)
      by (simp add: for_this_machine_def suits_def Let_def ends_ci_def getExpectedAssetSuffix_def lower_literal)
  qed (use assms(3) in simp)
qed

section \<open>Properties\<close>

text \<open>
  The comparison of versions, a loop without a bound of its own, returns for all versions, and tells how
  they stand as lists of numbers, with missing ones as 0.
\<close>
theorem versions_compared:
  "compareVersion a b = lex_sign (padded (max (length a) (length b)) a) (padded (max (length a) (length b)) b)"
  by (rule lex_sign_compared)

text \<open>
  A release tag is read as the numbers of its version, with or without a v in front and whatever SemVer
  suffix follows.
\<close>
theorem tag_read:
  assumes "map to_int ws = map Some ns" and "ws \<noteq> []" and "v \<in> {[], ''v'', ''V''}"
    and "rest = [] \<or> hd rest \<in> {CHR ''+'', CHR ''-''}" and "trimmed (v @ join_with (CHR ''.'') ws @ rest) = v @ join_with (CHR ''.'') ws @ rest"
    and "\<forall>w \<in> set ws. w \<noteq> [] \<and> set w \<inter> set ''+-.vV'' = {}"
  shows "parseStringToVersionQuad to_int (v @ join_with (CHR ''.'') ws @ rest) = ns"
proof -
  let ?j = "join_with (CHR ''.'') ws"
  have j: "set ?j \<inter> set ''+-vV'' = {}" using join_chars [of "CHR ''.''" ws] assms(6) by auto
  have ne: "?j \<noteq> []" using assms(2,6) by (cases ws; cases "tl ws") auto
  then have "hd ?j \<in> set ?j" by simp
  then have hd: "hd ?j \<noteq> CHR ''v''" "hd ?j \<noteq> CHR ''V''" using j by auto
  then have strip: "(if starts_with ''v'' (v @ ?j @ rest) \<or> starts_with ''V'' (v @ ?j @ rest) then tl (v @ ?j @ rest)
      else v @ ?j @ rest) = ?j @ rest"
    using assms(3) ne by (cases ?j) (auto simp: starts_with_def)
  have "takeWhile (\<lambda>c. c \<noteq> CHR ''+'' \<and> c \<noteq> CHR ''-'') (?j @ rest) = ?j"
    using j assms(4) by (cases rest) (auto simp: takeWhile_append)
  moreover have "split_on (CHR ''.'') ?j = ws" using assms(2,6) by (intro split_join) auto
  ultimately show ?thesis
    using ints_read [OF assms(1)] by (simp add: parseStringToVersionQuad_def assms(5) Let_def strip cut_suffix)
qed

text \<open>
  A newer release is offered, and nothing else: exactly if it is neither a draft nor a pre-release, has a
  tag, and the version of its tag is greater than the current one. The offer is made once.
\<close>
theorem offered_exactly_when_newer:
  "update_signals (handleUpdateCheckRequestFinished q (Some release) s) =
     (let tag = to_str (json_value release ''tag_name''); b = parseStringToVersionQuad (as_int q) tag;
          n = max (length (m_CurrentVersionQuad s)) (length b)
      in if is_object release \<and> \<not> to_bool (json_value release ''prerelease'') \<and> \<not> to_bool (json_value release ''draft'')
            \<and> is_string (json_value release ''tag_name'') \<and> padded n (m_CurrentVersionQuad s) < padded n b
         then update_signals s @ [(tag, m_UpdateDownloadUrl (handleUpdateCheckRequestFinished q (Some release) s))]
         else update_signals s)"
  by (simp add: handleUpdateCheckRequestFinished_def Let_def case_prod_beta lex_sign_compared lex_sign_neg)

text \<open>
  C17: What is offered for download is the page of the release, or an asset of it for this machine: on a Mac a
  disk image and on Linux an AppImage that does not name another architecture, on Windows a portable archive
  that names this architecture, or the setup program, as the installation is portable or not; and the
  digest that the installer is given for it is that of the same asset.
\<close>
theorem offered_asset_suits:
  assumes "t = handleUpdateCheckRequestFinished q (Some release) s" and "CHR ''-'' \<notin> set (build_arch q)"
    and "update_signals t = update_signals s @ [(tag, url)]" and "url \<noteq> to_str (json_value release ''html_url'')"
  shows "\<exists>a \<in> set (to_array (json_value release ''assets'')). is_object a
    \<and> for_this_machine q (map to_lower (to_str (json_value a ''name'')))
    \<and> install_request t url = (to_str (json_value a ''browser_download_url''), to_str (json_value a ''digest''))"
proof -
  let ?as = "to_array (json_value release ''assets'')" and ?f = "find_download q release"
  have t: "t = s\<lparr>m_UpdateDownloadUrl := (if fst ?f = [] then to_str (json_value release ''html_url'') else fst ?f),
      m_UpdateAssetDigest := snd ?f, update_signals := update_signals s @ [(to_str (json_value release ''tag_name''),
        if fst ?f = [] then to_str (json_value release ''html_url'') else fst ?f)]\<rparr>"
    using assms(1,3) by (auto simp: handleUpdateCheckRequestFinished_def Let_def case_prod_beta split: if_splits)
  then have url: "url = fst ?f" "fst ?f \<noteq> []" using assms(3,4) by (auto split: if_splits)
  then obtain a where a: "a \<in> set ?as" "suits q a" "?f = url_and_digest a"
    using found_from [of q release] by (auto simp: from_assets_def)
  have "on_platform q \<noteq> Other_platform" using url(2) by (auto simp: find_download_def getExpectedAssetSuffix_def)
  then have "for_this_machine q (map to_lower (to_str (json_value a ''name'')))"
    using suits_machine [OF a(2) assms(2)] by simp
  moreover have "is_object a" using a(2) by (simp add: suits_def Let_def)
  ultimately show ?thesis using url t a(1,3) by (auto simp: install_request_def url_and_digest_def)
qed

section \<open>A concrete release\<close>

text \<open>A Mac with version 6.2.82 that reads three numbers, and a release with packages for two architectures.\<close>

definition digits :: "string \<Rightarrow> int option" where
  "digits s = map_of [(''6'', 6), (''2'', 2), (''82'', 82), (''3'', 3)] s"

definition sample_mac :: update_env where
  "sample_mac = \<lparr>on_platform = Mac, build_arch = ''arm64'', portable_dat = False, as_int = digits\<rparr>"

definition sample_asset :: "string \<Rightarrow> string \<Rightarrow> json" where
  "sample_asset n d = Obj [(''name'', Str n), (''browser_download_url'', Str (''https://host/'' @ n)), (''digest'', Str d)]"

definition sample_release :: json where
  "sample_release = Obj [(''tag_name'', Str ''v6.3''), (''html_url'', Str ''https://host''),
     (''assets'', Arr [sample_asset ''M-6.3-x86_64.dmg'' ''d1'', sample_asset ''M-6.3-arm64.dmg'' ''d2''])]"

lemma tag_read_witness:
  "parseStringToVersionQuad digits (''v'' @ join_with (CHR ''.'') [''6'', ''2'', ''82''] @ ''-14-g13'') = [6, 2, 82]"
  by (rule tag_read) code_simp+

lemma sample_offer:
  "update_signals (handleUpdateCheckRequestFinished sample_mac (Some sample_release) (new_checker sample_mac ''6.2.82''))
   = [(''v6.3'', ''https://host/M-6.3-arm64.dmg'')]" "update_signals (new_checker sample_mac ''6.2.82'') = []"
  by code_simp+

lemma sample_page: "to_str (json_value sample_release ''html_url'') = ''https://host''"
  by code_simp

lemma offered_asset_suits_witness:
  "\<exists>a \<in> set (to_array (json_value sample_release ''assets'')). is_object a
    \<and> for_this_machine sample_mac (map to_lower (to_str (json_value a ''name'')))
    \<and> install_request (handleUpdateCheckRequestFinished sample_mac (Some sample_release) (new_checker sample_mac ''6.2.82''))
        ''https://host/M-6.3-arm64.dmg'' = (to_str (json_value a ''browser_download_url''), to_str (json_value a ''digest''))"
proof -
  have "CHR ''-'' \<notin> set (build_arch sample_mac)" by (simp add: sample_mac_def)
  from offered_asset_suits [OF refl this, of sample_release "new_checker sample_mac ''6.2.82''" "''v6.3''"
      "''https://host/M-6.3-arm64.dmg''"] show ?thesis
    by (simp add: sample_offer sample_page)
qed

end
