(* ===== verification/UpdateInstall.thy ===== *)
theory UpdateInstall
  imports UpdateCheck
begin

text \<open>
  The installer of updates (\<open>src/app/backend/portableupdateinstaller.cpp\<close>): downloading a package into a
  workspace, checking it, and handing it to the updater that replaces the program. Paths, URLs, SHA-256 and the
  text of numbers are parameters; what the disk and the tools answer is part of each event.
\<close>

section \<open>State\<close>

text \<open>
  The installation: \<open>portable_root\<close> and \<open>portable_dat_there\<close> describe the portable folder, \<open>two_up\<close> is the folder
  two levels above the executable, if there is one, \<open>parent_of\<close> is \<open>absolutePath\<close>, \<open>file_path\<close> is
  \<open>QDir(d).filePath(n)\<close>, and \<open>mb_text\<close> a number of megabytes with some decimals.
\<close>

record install_env =
  inst_platform :: update_platform
  portable_dat_there :: bool
  portable_root :: string
  two_up :: "string option"
  cache_dir :: string
  home_dir :: string
  app_file :: string
  app_pid :: int
  parent_of :: "string \<Rightarrow> string"
  file_path :: "string \<Rightarrow> string \<Rightarrow> string"
  native_path :: "string \<Rightarrow> string"
  sha256_hex :: "bytes \<Rightarrow> string"
  parse_url :: "string \<Rightarrow> (string \<times> string) option"
  int_text :: "int \<Rightarrow> string"
  mb_text :: "nat \<Rightarrow> int \<Rightarrow> string"

text \<open>The programs \<open>runTool\<close> runs on a Mac.\<close>

datatype mac_tool = Attach | Ditto | Detach | Xattr | Codesign

text \<open>
  Answers from outside: \<open>found_program\<close> is where a program is, empty if nowhere; \<open>flushed\<close> is what the
  package on the disk holds after it was flushed and closed, whose results the code does not look at; \<open>tool_runs\<close>
  says which programs end well.
\<close>

record io_answers =
  found_program :: "string \<Rightarrow> string"
  dir_writable :: bool
  msecs_now :: int
  workspace_made :: bool
  file_opens :: bool
  write_takes :: bool
  disk_free :: "int option"
  flushed :: "bytes \<Rightarrow> bytes"
  archive_reads :: bool
  mount_point_made :: bool
  tool_runs :: "mac_tool \<Rightarrow> bool"
  bundle_in_image :: bool
  resource_opens :: bool
  script_opens :: bool
  script_takes :: bool
  launch_works :: bool

datatype install_message = Failed string | Status string

text \<open>
  What was handed to the updater: the URL it came from, the workspace, the package, the digest it was checked
  against, and the arguments and working directory the updater was started with.
\<close>

record launch_record =
  from_url :: string
  in_workspace :: string
  package :: bytes
  checked_digest :: string
  started_with :: "string list"
  started_in :: string

record installer =
  m_UpdateReply :: "string option"
  m_UpdateFile :: bool
  m_PortableUpdateWorkspace :: string
  m_PortableUpdateError :: string
  m_ExpectedSha256 :: string
  m_MetadataChecked :: bool
  archive :: bytes
  workspaces :: "string set"
  install_messages :: "install_message list"
  tools_run :: "mac_tool list"
  handed_over :: "launch_record list"

definition new_installer :: installer where
  "new_installer = \<lparr>m_UpdateReply = None, m_UpdateFile = False, m_PortableUpdateWorkspace = [], m_PortableUpdateError = [],
     m_ExpectedSha256 = [], m_MetadataChecked = False, archive = [], workspaces = {}, install_messages = [],
     tools_run = [], handed_over = []\<rparr>"

definition fail_update :: "string \<Rightarrow> installer \<Rightarrow> installer" where
  "fail_update t s = s\<lparr>install_messages := install_messages s @ [Failed t]\<rparr>"

definition tell_update :: "string \<Rightarrow> installer \<Rightarrow> installer" where
  "tell_update t s = s\<lparr>install_messages := install_messages s @ [Status t]\<rparr>"

section \<open>Where things are\<close>

definition isPortable :: "install_env \<Rightarrow> bool" where
  "isPortable q \<longleftrightarrow> inst_platform q = Windows \<and> portable_dat_there q"

definition getInstalledBundlePath :: "install_env \<Rightarrow> string" where
  "getInstalledBundlePath q =
     (if inst_platform q \<noteq> Mac then []
      else case two_up q of None \<Rightarrow> [] | Some p \<Rightarrow> if ends_with ''.app'' p then p else [])"

definition isBundleInstall :: "install_env \<Rightarrow> bool" where
  "isBundleInstall q \<longleftrightarrow> getInstalledBundlePath q \<noteq> []"

definition getUpdateArchiveSuffix :: "install_env \<Rightarrow> string" where
  "getUpdateArchiveSuffix q = (if inst_platform q = Mac then ''.dmg'' else ''.zip'')"

definition getUpdateArchiveName :: "install_env \<Rightarrow> string" where
  "getUpdateArchiveName q = (if inst_platform q = Mac then ''MoonlightUpdate.dmg'' else ''MoonlightPortableUpdate.zip'')"

definition getUpdateStorageProbePath :: "install_env \<Rightarrow> string" where
  "getUpdateStorageProbePath q =
     (if inst_platform q = Mac
      then if getInstalledBundlePath q \<noteq> [] then parent_of q (getInstalledBundlePath q) else cache_dir q
      else portable_root q)"

definition getPortableUpdaterExecutable :: "install_env \<Rightarrow> io_answers \<Rightarrow> string" where
  "getPortableUpdaterExecutable q io =
     (case inst_platform q of
        Windows \<Rightarrow> if found_program io ''powershell.exe'' \<noteq> [] then found_program io ''powershell.exe''
                   else found_program io ''pwsh.exe''
      | Mac \<Rightarrow> if found_program io ''/bin/sh'' \<noteq> [] then ''/bin/sh'' else []
      | _ \<Rightarrow> [])"

definition createPortableUpdateWorkspace :: "install_env \<Rightarrow> io_answers \<Rightarrow> string" where
  "createPortableUpdateWorkspace q io =
     (let w = file_path q (getUpdateStorageProbePath q)
                ((if inst_platform q = Mac then ''.MoonlightUpdate-'' else ''MoonlightPortableUpdate-'')
                 @ int_text q (app_pid q) @ ''-'' @ int_text q (msecs_now io))
      in if workspace_made io then w else [])"

definition script_name :: "install_env \<Rightarrow> string" where
  "script_name q = (if inst_platform q = Mac then ''install-dmg-update.sh'' else ''install-portable-update.ps1'')"

definition materializePortableUpdateScript :: "install_env \<Rightarrow> io_answers \<Rightarrow> string \<Rightarrow> string" where
  "materializePortableUpdateScript q io workspace =
     (if \<not> resource_opens io then []
      else if \<not> script_opens io then []
      else if \<not> script_takes io then []
      else file_path q workspace (script_name q))"

section \<open>Checks\<close>

definition ensureWritableInstallDir :: "install_env \<Rightarrow> io_answers \<Rightarrow> string option" where
  "ensureWritableInstallDir q io =
     (case inst_platform q of
        Windows \<Rightarrow>
          if \<not> dir_writable io then Some (''The current Moonlight folder is not writable. Move Moonlight to a writable ''
            @ ''location, run it with sufficient permissions, or download and install the update manually.'') else None
      | Mac \<Rightarrow>
          if getInstalledBundlePath q = [] then Some ''In-app update requires running Moonlight from an app bundle.''
          else if \<not> dir_writable io then Some (''Moonlight is installed in a folder you can't write to. Move it to your ''
            @ ''Applications folder, or download and install the update manually.'') else None
      | _ \<Rightarrow> Some [])"

definition supportsInAppUpdate :: "install_env \<Rightarrow> io_answers \<Rightarrow> bool" where
  "supportsInAppUpdate q io \<longleftrightarrow>
     (case inst_platform q of
        Windows \<Rightarrow> isPortable q \<and> getPortableUpdaterExecutable q io \<noteq> []
      | Mac \<Rightarrow> isBundleInstall q \<and> getPortableUpdaterExecutable q io \<noteq> [] \<and> ensureWritableInstallDir q io = None
      | _ \<Rightarrow> False)"

definition is_hex :: "char \<Rightarrow> bool" where
  "is_hex c \<longleftrightarrow> (let n = (of_char c :: nat) in 48 \<le> n \<and> n \<le> 57 \<or> 65 \<le> n \<and> n \<le> 70 \<or> 97 \<le> n \<and> n \<le> 102)"

definition is_sha256 :: "string \<Rightarrow> bool" where
  "is_sha256 d \<longleftrightarrow> length d = 64 \<and> list_all is_hex d"

definition normalizedDigest :: "string \<Rightarrow> string" where
  "normalizedDigest d = (let d = trimmed d in if starts_ci ''sha256:'' d then drop 7 d else d)"

definition digest_problem :: "install_env \<Rightarrow> string \<Rightarrow> string option" where
  "digest_problem q d =
     (if inst_platform q = Mac
      then if \<not> is_sha256 d then Some (''The update package has no valid integrity information. Please install the ''
        @ ''update manually.'') else None
      else if d \<noteq> [] \<and> \<not> is_sha256 d then Some ''The update package has invalid integrity information.'' else None)"

definition estimateRequiredWorkspaceBytes :: "int \<Rightarrow> int" where
  "estimateRequiredWorkspaceBytes n = (if n \<le> 0 then 0 else int64 (n * 3 + 64 * 1024 * 1024))"

definition ensureSufficientDiskSpace :: "install_env \<Rightarrow> io_answers \<Rightarrow> int \<Rightarrow> string option" where
  "ensureSufficientDiskSpace q io n =
     (if n \<le> 0 then None
      else case disk_free io of
        None \<Rightarrow> Some ''Unable to determine free disk space for the update.''
      | Some f \<Rightarrow>
          if f < n then Some (''Not enough free disk space for the update. Need about '' @ mb_text q 0 n @ '' MB free.'')
          else None)"

definition verifyUpdateArchive :: "install_env \<Rightarrow> io_answers \<Rightarrow> installer \<Rightarrow> string option" where
  "verifyUpdateArchive q io s =
     (if m_ExpectedSha256 s = [] then None
      else if \<not> archive_reads io then Some ''Unable to verify the downloaded update package.''
      else if sha256_hex q (archive s) \<noteq> m_ExpectedSha256 s
      then Some ''The downloaded update package failed its integrity check.''
      else None)"

section \<open>Operations\<close>

definition resetPortableUpdateState :: "bool \<Rightarrow> installer \<Rightarrow> installer" where
  "resetPortableUpdateState removeWorkspace s =
     (let s = s\<lparr>m_UpdateReply := None, m_UpdateFile := False\<rparr>;
          s = (if removeWorkspace \<and> m_PortableUpdateWorkspace s \<noteq> []
               then s\<lparr>workspaces := workspaces s - {m_PortableUpdateWorkspace s}\<rparr> else s);
          s = (if removeWorkspace then s\<lparr>m_PortableUpdateWorkspace := [], m_ExpectedSha256 := []\<rparr> else s)
      in s\<lparr>m_MetadataChecked := False\<rparr>)"

definition installUpdate :: "install_env \<Rightarrow> io_answers \<Rightarrow> string \<Rightarrow> string \<Rightarrow> installer \<Rightarrow> installer" where
  "installUpdate q io url expectedDigest s =
     (if \<not> supportsInAppUpdate q io then fail_update ''In-app update is not supported for this installation.'' s
      else if m_UpdateReply s \<noteq> None then tell_update ''An update is already in progress.'' s
      else case parse_url q (trimmed url) of
        None \<Rightarrow> fail_update ''The update URL is invalid.'' s
      | Some (scheme, path) \<Rightarrow>
          if scheme = [] then fail_update ''The update URL is invalid.'' s
          else if \<not> ends_ci (getUpdateArchiveSuffix q) path
          then fail_update ''The update package was not found for this release.'' s
          else let digest = normalizedDigest expectedDigest in
            case digest_problem q digest of
              Some e \<Rightarrow> fail_update e s
            | None \<Rightarrow>
                (case ensureWritableInstallDir q io of
                   Some e \<Rightarrow> fail_update e s
                 | None \<Rightarrow>
                     if createPortableUpdateWorkspace q io = []
                     then fail_update ''Unable to create a temporary folder for the update.'' s
                     else let s = resetPortableUpdateState True
                                    (s\<lparr>workspaces := insert (createPortableUpdateWorkspace q io) (workspaces s)\<rparr>);
                              s = s\<lparr>m_PortableUpdateWorkspace := createPortableUpdateWorkspace q io, m_PortableUpdateError := [],
                                    m_ExpectedSha256 := map to_lower digest, m_MetadataChecked := False,
                                    m_UpdateFile := True\<rparr>
                       in if \<not> file_opens io
                          then let s = resetPortableUpdateState True
                                         (s\<lparr>m_PortableUpdateError := ''Unable to create the update package on disk.''\<rparr>)
                               in fail_update (m_PortableUpdateError s) s
                          else tell_update ''Downloading update...''
                                 (s\<lparr>archive := [], m_UpdateReply := Some (trimmed url)\<rparr>)))"

text \<open>Data that has come is written; whether that failed.\<close>

definition take_data :: "io_answers \<Rightarrow> bytes \<Rightarrow> installer \<Rightarrow> bool \<times> installer" where
  "take_data io data s =
     (if m_UpdateReply s = None \<or> \<not> m_UpdateFile s then (False, s)
      else if data = [] then (False, s)
      else if \<not> write_takes io
      then (True, s\<lparr>m_PortableUpdateError := ''Failed while writing the update package to disk.''\<rparr>)
      else (False, s\<lparr>archive := archive s @ data\<rparr>))"

text \<open>Preparing the bundle of a disk image: what went wrong, and the programs that were run, in order.\<close>

definition stageMacUpdateBundle :: "io_answers \<Rightarrow> string option \<times> mac_tool list" where
  "stageMacUpdateBundle io =
     (if \<not> mount_point_made io then (Some ''Unable to create a temporary folder for the update.'', [])
      else if \<not> tool_runs io Attach then (Some ''Unable to open the downloaded disk image.'', [Attach])
      else let (e, ran) =
             (if \<not> bundle_in_image io then (Some ''The downloaded disk image does not contain Moonlight.'', [])
              else if \<not> tool_runs io Ditto then (Some ''Unable to extract the update.'', [Ditto])
              else (None, [Ditto]))
        in (e, Attach # ran @ Detach # (if e = None then [Xattr, Codesign] else [])))"

definition updater_arguments :: "install_env \<Rightarrow> string \<Rightarrow> string \<Rightarrow> string list" where
  "updater_arguments q workspace script =
     (if inst_platform q = Mac
      then [script, workspace, getInstalledBundlePath q, file_path q workspace ''Moonlight.app'', int_text q (app_pid q)]
      else [''-NoProfile'', ''-ExecutionPolicy'', ''Bypass'', ''-WindowStyle'', ''Hidden'',
            ''-File'', native_path q script,
            ''-WorkspaceDir'', native_path q workspace,
            ''-InstallDir'', native_path q (portable_root q),
            ''-ZipPath'', native_path q (file_path q workspace (getUpdateArchiveName q)),
            ''-ExePath'', native_path q (app_file q)])"

definition hand_over :: "install_env \<Rightarrow> io_answers \<Rightarrow> installer \<Rightarrow> installer" where
  "hand_over q io s =
     (let (problem, ran) = (if inst_platform q = Mac then stageMacUpdateBundle io else (None, []));
          s = s\<lparr>tools_run := tools_run s @ ran\<rparr>
      in case problem of
        Some e \<Rightarrow> fail_update e (resetPortableUpdateState True s)
      | None \<Rightarrow>
          let script = materializePortableUpdateScript q io (m_PortableUpdateWorkspace s) in
          if script = []
          then fail_update ''Unable to prepare the update installer.'' (resetPortableUpdateState True s)
          else if getPortableUpdaterExecutable q io = [] \<or> \<not> launch_works io
          then fail_update ''Unable to launch the updater.'' (resetPortableUpdateState True s)
          else (tell_update ''Installing update and restarting Moonlight...'' s)
            \<lparr>handed_over := handed_over s @ [\<lparr>from_url = (case m_UpdateReply s of None \<Rightarrow> [] | Some u \<Rightarrow> u),
               in_workspace = m_PortableUpdateWorkspace s, package = archive s, checked_digest = m_ExpectedSha256 s,
               started_with = updater_arguments q (m_PortableUpdateWorkspace s) script,
               started_in = (if inst_platform q = Mac then home_dir q else native_path q (portable_root q))\<rparr>],
             m_UpdateReply := None, m_UpdateFile := False\<rparr>)"

text \<open>\<open>err\<close> is the error of the reply; a failed write cannot abort a reply that has finished.\<close>

definition handlePortableUpdateDownloadFinished ::
  "install_env \<Rightarrow> io_answers \<Rightarrow> string option \<Rightarrow> bytes \<Rightarrow> installer \<Rightarrow> installer" where
  "handlePortableUpdateDownloadFinished q io err data s =
     (let s = snd (take_data io data s);
          failure = (case (m_UpdateReply s, err) of
             (Some u, Some e) \<Rightarrow>
               if m_PortableUpdateError s = [] then ''Failed to download the update: '' @ e else m_PortableUpdateError s
           | _ \<Rightarrow> m_PortableUpdateError s);
          s = (if m_UpdateFile s then s\<lparr>archive := flushed io (archive s)\<rparr> else s)
      in if failure \<noteq> []
         then fail_update failure (resetPortableUpdateState True (s\<lparr>m_PortableUpdateError := []\<rparr>))
         else let s = tell_update ''Verifying update...'' s in
           case verifyUpdateArchive q io s of
             Some e \<Rightarrow> fail_update e (resetPortableUpdateState True s)
           | None \<Rightarrow> hand_over q io s)"

text \<open>\<open>QNetworkReply::abort\<close> ends a running reply with an error, and says so at once.\<close>

definition abort_update :: "install_env \<Rightarrow> io_answers \<Rightarrow> installer \<Rightarrow> installer" where
  "abort_update q io s = handlePortableUpdateDownloadFinished q io (Some ''Operation canceled'') [] s"

definition handlePortableUpdateDownloadReadyRead :: "install_env \<Rightarrow> io_answers \<Rightarrow> bytes \<Rightarrow> installer \<Rightarrow> installer" where
  "handlePortableUpdateDownloadReadyRead q io data s =
     (case take_data io data s of (failed, s) \<Rightarrow> if failed then abort_update q io s else s)"

definition handlePortableUpdateMetaDataChanged :: "install_env \<Rightarrow> io_answers \<Rightarrow> int option \<Rightarrow> installer \<Rightarrow> installer" where
  "handlePortableUpdateMetaDataChanged q io contentLength s =
     (if m_UpdateReply s = None \<or> m_MetadataChecked s then s
      else let s = s\<lparr>m_MetadataChecked := True\<rparr> in
        case contentLength of
          None \<Rightarrow> s
        | Some n \<Rightarrow>
            if n \<le> 0 then s
            else case ensureSufficientDiskSpace q io (estimateRequiredWorkspaceBytes n) of
              None \<Rightarrow> s
            | Some e \<Rightarrow> abort_update q io (s\<lparr>m_PortableUpdateError := e\<rparr>))"

definition handlePortableUpdateDownloadProgress :: "install_env \<Rightarrow> int \<Rightarrow> int \<Rightarrow> installer \<Rightarrow> installer" where
  "handlePortableUpdateDownloadProgress q bytesReceived bytesTotal s =
     (if 0 < bytesTotal
      then tell_update (''Downloading update... '' @ int_text q (bytesReceived * 100 div bytesTotal) @ ''%'') s
      else tell_update (''Downloading update... '' @ mb_text q 1 bytesReceived @ '' MB'') s)"

datatype install_event =
    Install io_answers string string
  | Meta_data io_answers "int option"
  | Data io_answers bytes
  | Progress int int
  | Finished io_answers "string option" bytes

definition install_step :: "install_env \<Rightarrow> installer \<Rightarrow> install_event \<Rightarrow> installer" where
  "install_step q s e =
     (case e of
        Install io url digest \<Rightarrow> installUpdate q io url digest s
      | Meta_data io n \<Rightarrow> handlePortableUpdateMetaDataChanged q io n s
      | Data io data \<Rightarrow> handlePortableUpdateDownloadReadyRead q io data s
      | Progress got all \<Rightarrow> handlePortableUpdateDownloadProgress q got all s
      | Finished io err data \<Rightarrow>
          if m_UpdateReply s = None then s else handlePortableUpdateDownloadFinished q io err data s)"

section \<open>Invariants\<close>

text \<open>What was requested: URLs with digests. A download is one of them, and so is every package handed over.\<close>

definition requested :: "install_env \<Rightarrow> (string \<times> string) set \<Rightarrow> string \<Rightarrow> string \<Rightarrow> bool" where
  "requested q reqs url sha \<longleftrightarrow> (\<exists>(u, d) \<in> reqs. url = trimmed u \<and> sha = map to_lower (normalizedDigest d)
     \<and> digest_problem q (normalizedDigest d) = None)"

definition verified :: "install_env \<Rightarrow> (string \<times> string) set \<Rightarrow> launch_record \<Rightarrow> bool" where
  "verified q reqs r \<longleftrightarrow> requested q reqs (from_url r) (checked_digest r)
     \<and> (checked_digest r \<noteq> [] \<longrightarrow> sha256_hex q (package r) = checked_digest r)"

definition install_ok :: "install_env \<Rightarrow> (string \<times> string) set \<Rightarrow> installer \<Rightarrow> bool" where
  "install_ok q reqs s \<longleftrightarrow> (\<forall>r \<in> set (handed_over s). verified q reqs r)
     \<and> (\<forall>url. m_UpdateReply s = Some url \<longrightarrow> requested q reqs url (m_ExpectedSha256 s) \<and> m_PortableUpdateWorkspace s \<noteq> [])
     \<and> workspaces s - in_workspace ` set (handed_over s)
         \<subseteq> (if m_UpdateReply s = None then {} else {m_PortableUpdateWorkspace s})"

lemma install_ok_cong:
  assumes "install_ok q reqs s" and "m_UpdateReply t = m_UpdateReply s" and "m_ExpectedSha256 t = m_ExpectedSha256 s"
    and "m_PortableUpdateWorkspace t = m_PortableUpdateWorkspace s" and "workspaces t = workspaces s" and "handed_over t = handed_over s"
  shows "install_ok q reqs t"
  using assms(1) unfolding install_ok_def assms(2-6) .

lemma ok_message [simp]: "install_ok q reqs (fail_update t s) = install_ok q reqs s" "install_ok q reqs (tell_update t s) = install_ok q reqs s"
  by (simp_all add: install_ok_def fail_update_def tell_update_def)

lemma ok_reset: "install_ok q reqs s \<Longrightarrow> install_ok q reqs (resetPortableUpdateState True s)"
  by (auto simp: install_ok_def resetPortableUpdateState_def Let_def split: if_splits)

lemma reset_idle [simp]: "m_UpdateReply (resetPortableUpdateState b s) = None"
  by (simp add: resetPortableUpdateState_def Let_def)

lemma message_idle [simp]:
  "m_UpdateReply (fail_update t s) = m_UpdateReply s" "m_UpdateReply (tell_update t s) = m_UpdateReply s"
  by (simp_all add: fail_update_def tell_update_def)

text \<open>The two ways a package is dealt with in the end.\<close>

lemma hand_over_cases:
  assumes "hand_over q io s = t" and "u = s\<lparr>tools_run := tools_run s @ (if inst_platform q = Mac then snd (stageMacUpdateBundle io) else [])\<rparr>"
  obtains (failed) e where "t = fail_update e (resetPortableUpdateState True u)"
  | (over) "t = (tell_update ''Installing update and restarting Moonlight...'' u)
      \<lparr>handed_over := handed_over s @ [\<lparr>from_url = (case m_UpdateReply s of None \<Rightarrow> [] | Some u \<Rightarrow> u),
         in_workspace = m_PortableUpdateWorkspace s, package = archive s, checked_digest = m_ExpectedSha256 s,
         started_with = updater_arguments q (m_PortableUpdateWorkspace s)
           (materializePortableUpdateScript q io (m_PortableUpdateWorkspace s)),
         started_in = (if inst_platform q = Mac then home_dir q else native_path q (portable_root q))\<rparr>],
       m_UpdateReply := None, m_UpdateFile := False\<rparr>"
  using assms
  by (cases "if inst_platform q = Mac then stageMacUpdateBundle io else (None, [])"; cases "inst_platform q = Mac")
    (auto simp: hand_over_def Let_def split: option.splits if_splits)

lemma ok_hand_over:
  assumes "install_ok q reqs s" and "m_UpdateReply s = Some url" and "verifyUpdateArchive q io s = None"
  shows "install_ok q reqs (hand_over q io s)"
proof -
  have req: "requested q reqs url (m_ExpectedSha256 s)" using assms(1,2) by (simp add: install_ok_def)
  moreover have sha: "m_ExpectedSha256 s \<noteq> [] \<longrightarrow> sha256_hex q (archive s) = m_ExpectedSha256 s"
    using assms(3) by (auto simp: verifyUpdateArchive_def split: if_splits)
  define u where "u = s\<lparr>tools_run := tools_run s @ (if inst_platform q = Mac then snd (stageMacUpdateBundle io) else [])\<rparr>"
  have u: "install_ok q reqs u" by (rule install_ok_cong [OF assms(1)]) (simp_all add: u_def)
  from refl u_def show ?thesis
  proof (cases rule: hand_over_cases)
    case (failed e)
    then show ?thesis using ok_reset [OF u] by simp
  next
    case over
    then show ?thesis
      using u assms(2) req sha by (auto simp: install_ok_def verified_def tell_update_def u_def)
  qed
qed

lemma hand_over_idle: "m_UpdateReply (hand_over q io s) = None"
  by (rule hand_over_cases [of q io s, OF refl refl]) simp_all

lemma data_core:
  "m_UpdateReply (snd (take_data io data s)) = m_UpdateReply s" "m_ExpectedSha256 (snd (take_data io data s)) = m_ExpectedSha256 s"
  "m_PortableUpdateWorkspace (snd (take_data io data s)) = m_PortableUpdateWorkspace s"
  "workspaces (snd (take_data io data s)) = workspaces s" "handed_over (snd (take_data io data s)) = handed_over s"
  by (simp_all add: take_data_def)

lemma ok_finished:
  assumes "install_ok q reqs s" and "m_UpdateReply s = Some url"
  shows "install_ok q reqs (handlePortableUpdateDownloadFinished q io err data s)"
    and "m_UpdateReply (handlePortableUpdateDownloadFinished q io err data s) = None"
proof -
  let ?t = "snd (take_data io data s)"
  let ?f = "if m_UpdateFile ?t then ?t\<lparr>archive := flushed io (archive ?t)\<rparr> else ?t"
  let ?v = "tell_update ''Verifying update...'' ?f"
  have core: "m_UpdateReply ?f = m_UpdateReply s" "m_ExpectedSha256 ?f = m_ExpectedSha256 s"
    "m_PortableUpdateWorkspace ?f = m_PortableUpdateWorkspace s" "workspaces ?f = workspaces s" "handed_over ?f = handed_over s"
    by (simp_all add: data_core)
  have f: "install_ok q reqs ?f" by (rule install_ok_cong [OF assms(1) core])
  have failed: "install_ok q reqs (?f\<lparr>m_PortableUpdateError := []\<rparr>)" by (rule install_ok_cong [OF f]) simp_all
  have v: "install_ok q reqs ?v" "m_UpdateReply ?v = Some url" using f core(1) assms(2) by simp_all
  show "install_ok q reqs (handlePortableUpdateDownloadFinished q io err data s)"
    unfolding handlePortableUpdateDownloadFinished_def Let_def
    using ok_reset [OF failed] ok_reset [OF v(1)] ok_hand_over [OF v]
    by (auto split: option.split)
  show "m_UpdateReply (handlePortableUpdateDownloadFinished q io err data s) = None"
    unfolding handlePortableUpdateDownloadFinished_def Let_def by (auto simp: hand_over_idle split: option.split)
qed

lemma ok_install:
  assumes "install_ok q reqs s"
  shows "install_ok q (insert (url, digest) reqs) (installUpdate q io url digest s)"
proof -
  let ?reqs = "insert (url, digest) reqs"
  have more: "requested q ?reqs u d" if "requested q reqs u d" for u d using that by (auto simp: requested_def)
  have s: "install_ok q ?reqs s" using assms more by (auto simp: install_ok_def verified_def)
  let ?d = "map to_lower (normalizedDigest digest)"
  let ?r = "resetPortableUpdateState True (s\<lparr>workspaces := insert (createPortableUpdateWorkspace q io) (workspaces s)\<rparr>)"
  let ?b = "?r\<lparr>m_PortableUpdateWorkspace := createPortableUpdateWorkspace q io, m_PortableUpdateError := [], m_ExpectedSha256 := ?d,
    m_MetadataChecked := False, m_UpdateFile := True\<rparr>"
  have begun: "install_ok q ?reqs (?b\<lparr>archive := [], m_UpdateReply := Some (trimmed url)\<rparr>)"
    "install_ok q ?reqs (resetPortableUpdateState True (?b\<lparr>m_PortableUpdateError := e\<rparr>))"
    if "m_UpdateReply s = None" "createPortableUpdateWorkspace q io \<noteq> []" "digest_problem q (normalizedDigest digest) = None" for e
    using s that by (auto simp: install_ok_def requested_def resetPortableUpdateState_def Let_def split: if_splits)
  show ?thesis
    using s begun by (auto simp: installUpdate_def Let_def split: option.split)
qed

section \<open>Runs\<close>

definition install_run :: "install_env \<Rightarrow> install_event list \<Rightarrow> installer \<Rightarrow> installer" where
  "install_run q es s = foldl (install_step q) s es"

definition requests_of :: "install_event list \<Rightarrow> (string \<times> string) set" where
  "requests_of es = {(u, d). \<exists>io. Install io u d \<in> set es}"

lemma take_data_flags:
  "take_data io data s = (failed, t) \<Longrightarrow> m_UpdateReply t = m_UpdateReply s \<and> (install_ok q reqs s \<longrightarrow> install_ok q reqs t)"
  using data_core [of io data s] install_ok_cong [of q reqs s t] by auto

lemma ok_abort: "install_ok q reqs s \<Longrightarrow> m_UpdateReply s = Some url \<Longrightarrow> install_ok q reqs (abort_update q io s)"
  unfolding abort_update_def by (rule ok_finished(1))

lemma ok_ready_read:
  assumes "install_ok q reqs s"
  shows "install_ok q reqs (handlePortableUpdateDownloadReadyRead q io data s)"
proof (cases "take_data io data s")
  case (Pair failed t)
  have "\<exists>url. m_UpdateReply t = Some url" if failed
    using that Pair by (auto simp: take_data_def split: if_splits)
  then show ?thesis
    using take_data_flags [OF Pair, of q reqs] assms ok_abort [of q reqs t _ io]
    by (auto simp: handlePortableUpdateDownloadReadyRead_def Pair)
qed

lemma ok_meta_data:
  assumes "install_ok q reqs s"
  shows "install_ok q reqs (handlePortableUpdateMetaDataChanged q io n s)"
proof (cases "m_UpdateReply s")
  case None
  then show ?thesis using assms by (simp add: handlePortableUpdateMetaDataChanged_def)
next
  case (Some url)
  have "install_ok q reqs (s\<lparr>m_MetadataChecked := True\<rparr>)"
    "install_ok q reqs (abort_update q io (s\<lparr>m_MetadataChecked := True, m_PortableUpdateError := e\<rparr>))" for e
    using install_ok_cong [OF assms] Some by (auto intro!: ok_abort [where url = url])
  then show ?thesis
    using assms by (auto simp: handlePortableUpdateMetaDataChanged_def Let_def split: option.split)
qed

lemma update_ok_step: "install_ok q reqs s \<Longrightarrow> install_ok q (reqs \<union> requests_of [e]) (install_step q s e)"
  using ok_install ok_ready_read ok_meta_data ok_finished(1)
  by (cases e) (auto simp: install_step_def requests_of_def handlePortableUpdateDownloadProgress_def split: option.split)

lemma ok_run: "install_ok q reqs s \<Longrightarrow> install_ok q (reqs \<union> requests_of es) (install_run q es s)"
proof (induction es arbitrary: reqs s)
  case Nil
  then show ?case by (simp add: install_run_def requests_of_def)
next
  case (Cons e es)
  have "requests_of (e # es) = requests_of [e] \<union> requests_of es" by (auto simp: requests_of_def)
  then show ?case using Cons.IH [OF update_ok_step [OF Cons.prems]] by (simp add: install_run_def Un_assoc)
qed

lemma ok_new: "install_ok q {} new_installer"
  by (simp add: install_ok_def new_installer_def)

lemmas ok_reached = ok_run [OF ok_new, simplified]

lemma mac_digest: "digest_problem q d = None \<Longrightarrow> inst_platform q = Mac \<Longrightarrow> d \<noteq> []"
  by (auto simp: digest_problem_def is_sha256_def split: if_splits)

section \<open>An update that works\<close>

definition all_works :: "install_env \<Rightarrow> io_answers \<Rightarrow> int option \<Rightarrow> bool" where
  "all_works q io n \<longleftrightarrow> supportsInAppUpdate q io \<and> ensureWritableInstallDir q io = None \<and> createPortableUpdateWorkspace q io \<noteq> []
     \<and> file_opens io \<and> write_takes io \<and> flushed io = id \<and> archive_reads io
     \<and> (inst_platform q = Mac \<longrightarrow> fst (stageMacUpdateBundle io) = None)
     \<and> (\<forall>w. materializePortableUpdateScript q io w = file_path q w (script_name q) \<and> file_path q w (script_name q) \<noteq> [])
     \<and> launch_works io
     \<and> (case n of None \<Rightarrow> True | Some n \<Rightarrow> ensureSufficientDiskSpace q io (estimateRequiredWorkspaceBytes n) = None)"

definition installable :: "install_env \<Rightarrow> string \<Rightarrow> string \<Rightarrow> bool" where
  "installable q url digest \<longleftrightarrow> (case parse_url q (trimmed url) of
       None \<Rightarrow> False | Some (scheme, path) \<Rightarrow> scheme \<noteq> [] \<and> ends_ci (getUpdateArchiveSuffix q) path)
     \<and> digest_problem q (normalizedDigest digest) = None"

definition launched :: "install_env \<Rightarrow> string \<Rightarrow> string \<Rightarrow> bytes \<Rightarrow> string \<Rightarrow> launch_record" where
  "launched q url w p sha = \<lparr>from_url = url, in_workspace = w, package = p, checked_digest = sha,
     started_with = updater_arguments q w (file_path q w (script_name q)),
     started_in = (if inst_platform q = Mac then home_dir q else native_path q (portable_root q))\<rparr>"

definition downloading :: "string \<Rightarrow> string \<Rightarrow> string \<Rightarrow> installer \<Rightarrow> bool" where
  "downloading url w sha s \<longleftrightarrow> m_UpdateReply s = Some url \<and> m_UpdateFile s \<and> m_PortableUpdateError s = []
     \<and> m_PortableUpdateWorkspace s = w \<and> m_ExpectedSha256 s = sha"

lemma download_begins:
  assumes "all_works q io n" and "installable q url digest" and "m_UpdateReply s = None"
    and "t = installUpdate q io url digest s"
  shows "downloading (trimmed url) (createPortableUpdateWorkspace q io) (map to_lower (normalizedDigest digest)) t" and "archive t = []"
    and "handed_over t = handed_over s" and "createPortableUpdateWorkspace q io \<noteq> m_PortableUpdateWorkspace s \<Longrightarrow> createPortableUpdateWorkspace q io \<in> workspaces t"
  using assms
  by (auto simp: installUpdate_def all_works_def installable_def downloading_def Let_def tell_update_def
      resetPortableUpdateState_def split: option.splits prod.splits)

lemma space_suffices:
  "all_works q io n \<Longrightarrow> m_UpdateReply s = Some url
     \<Longrightarrow> handlePortableUpdateMetaDataChanged q io n s = s\<lparr>m_MetadataChecked := True\<rparr>"
  by (auto simp: handlePortableUpdateMetaDataChanged_def all_works_def Let_def split: option.split)

lemma data_taken:
  "downloading url w sha s \<Longrightarrow> write_takes io \<Longrightarrow> take_data io data s = (False, s\<lparr>archive := archive s @ data\<rparr>)"
  by (auto simp: take_data_def downloading_def)

lemma data_all_taken:
  "downloading url w sha s \<Longrightarrow> write_takes io
     \<Longrightarrow> foldl (install_step q) s (map (Data io) cs) = s\<lparr>archive := archive s @ concat cs\<rparr>"
proof (induction cs arbitrary: s)
  case Nil
  then show ?case by simp
next
  case (Cons c cs)
  have "install_step q s (Data io c) = s\<lparr>archive := archive s @ c\<rparr>"
    using data_taken [OF Cons.prems] by (simp add: install_step_def handlePortableUpdateDownloadReadyRead_def)
  moreover have "downloading url w sha (s\<lparr>archive := archive s @ c\<rparr>)" using Cons.prems by (simp add: downloading_def)
  ultimately show ?case using Cons.IH [of "s\<lparr>archive := archive s @ c\<rparr>"] Cons.prems by simp
qed

lemma hand_over_works:
  assumes "all_works q io n" and "downloading url w sha s" and "t = hand_over q io s"
  shows "handed_over t = handed_over s @ [launched q url w (archive s) sha]" and "workspaces t = workspaces s"
proof -
  have up: "getPortableUpdaterExecutable q io \<noteq> []"
    using assms(1) by (auto simp: all_works_def supportsInAppUpdate_def split: update_platform.splits)
  obtain ran where ran: "(if inst_platform q = Mac then stageMacUpdateBundle io else (None, [])) = (None, ran)"
    using assms(1) by (cases "stageMacUpdateBundle io"; cases "inst_platform q = Mac") (auto simp: all_works_def)
  show "handed_over t = handed_over s @ [launched q url w (archive s) sha]" and "workspaces t = workspaces s"
    using assms up unfolding hand_over_def ran
    by (auto simp: all_works_def downloading_def tell_update_def launched_def Let_def)
qed

lemma download_ends:
  assumes "all_works q io n" and "downloading url w sha s" and "sha \<noteq> [] \<Longrightarrow> sha256_hex q (archive s @ data) = sha"
    and "t = handlePortableUpdateDownloadFinished q io None data s"
  shows "handed_over t = handed_over s @ [launched q url w (archive s @ data) sha]" and "workspaces t = workspaces s"
proof -
  let ?v = "tell_update ''Verifying update...'' (s\<lparr>archive := archive s @ data\<rparr>)"
  have d: "downloading url w sha ?v" using assms(2) by (simp add: downloading_def tell_update_def)
  have v: "verifyUpdateArchive q io ?v = None"
    using assms(1-3) by (auto simp: verifyUpdateArchive_def all_works_def downloading_def tell_update_def)
  have "flushed io = id" "write_takes io" using assms(1) by (simp_all add: all_works_def)
  then have "t = hand_over q io ?v"
    using assms(2) data_taken [OF assms(2), of io data] v unfolding assms(4) handlePortableUpdateDownloadFinished_def Let_def
    by (simp add: downloading_def)
  from hand_over_works [OF assms(1) d this] show
    "handed_over t = handed_over s @ [launched q url w (archive s @ data) sha]" "workspaces t = workspaces s"
    by (simp_all add: tell_update_def)
qed

lemma arrives:
  assumes "all_works q io n" and "installable q url digest" and "m_UpdateReply s = None"
    and "createPortableUpdateWorkspace q io \<noteq> m_PortableUpdateWorkspace s"
    and "normalizedDigest digest \<noteq> [] \<Longrightarrow> sha256_hex q (concat cs @ rest) = map to_lower (normalizedDigest digest)"
    and "t = install_run q (Install io url digest # Meta_data io n # map (Data io) cs @ [Finished io None rest]) s"
  shows "handed_over t = handed_over s @ [launched q (trimmed url) (createPortableUpdateWorkspace q io) (concat cs @ rest)
      (map to_lower (normalizedDigest digest))]
    \<and> createPortableUpdateWorkspace q io \<in> workspaces t"
proof -
  let ?w = "createPortableUpdateWorkspace q io" and ?sha = "map to_lower (normalizedDigest digest)"
  let ?a = "installUpdate q io url digest s"
  let ?c = "?a\<lparr>m_MetadataChecked := True, archive := concat cs\<rparr>"
  note a = download_begins [OF assms(1-3) refl]
  have reply: "m_UpdateReply ?a = Some (trimmed url)" using a(1) by (simp add: downloading_def)
  have b: "downloading (trimmed url) ?w ?sha (?a\<lparr>m_MetadataChecked := True\<rparr>)" using a(1) by (simp add: downloading_def)
  have c: "downloading (trimmed url) ?w ?sha ?c" using a(1) by (simp add: downloading_def)
  have takes: "write_takes io" using assms(1) by (simp add: all_works_def)
  have "install_step q s (Install io url digest) = ?a"
    "install_step q ?a (Meta_data io n) = ?a\<lparr>m_MetadataChecked := True\<rparr>"
    using space_suffices [OF assms(1) reply] by (simp_all add: install_step_def)
  then have "t = handlePortableUpdateDownloadFinished q io None rest ?c"
    using data_all_taken [OF b takes, of q cs] a(2) reply
    unfolding assms(6) install_run_def by (simp add: install_step_def)
  from download_ends [OF assms(1) c _ this] show ?thesis
    using a(3) a(4) [OF assms(4)] assms(5) by simp
qed

section \<open>Properties\<close>

text \<open>
  C16: Only packages that were asked for and checked are handed to the updater, whatever happens, in any order:
  each comes from the URL of a request, and if the request came with a digest, the SHA-256 of the package
  is that digest; on a Mac it always is.
\<close>
theorem installed_verified:
  assumes "r \<in> set (handed_over (install_run q es new_installer))"
  shows "\<exists>io u d. Install io u d \<in> set es \<and> from_url r = trimmed u
    \<and> (if inst_platform q = Mac \<or> normalizedDigest d \<noteq> []
       then is_sha256 (normalizedDigest d) \<and> sha256_hex q (package r) = map to_lower (normalizedDigest d) else True)"
proof -
  have "verified q (requests_of es) r" using ok_reached [of q es] assms by (simp add: install_ok_def)
  then obtain u d where ud: "(u, d) \<in> requests_of es" "from_url r = trimmed u" "checked_digest r = map to_lower (normalizedDigest d)"
    "digest_problem q (normalizedDigest d) = None" "checked_digest r \<noteq> [] \<longrightarrow> sha256_hex q (package r) = checked_digest r"
    by (auto simp: verified_def requested_def)
  obtain io where io: "Install io u d \<in> set es" using ud(1) by (auto simp: requests_of_def)
  have "is_sha256 (normalizedDigest d) \<and> sha256_hex q (package r) = map to_lower (normalizedDigest d)"
    if "inst_platform q = Mac \<or> normalizedDigest d \<noteq> []"
    using that ud(3-5) mac_digest [OF ud(4)] by (auto simp: digest_problem_def split: if_splits)
  then show ?thesis using io ud(2) by auto
qed

text \<open>
  No update leaves files behind: a workspace that was not handed to the updater exists only while the
  download into it is running.
\<close>
theorem workspaces_removed:
  "workspaces (install_run q es new_installer) - in_workspace ` set (handed_over (install_run q es new_installer))
     \<subseteq> (if m_UpdateReply (install_run q es new_installer) = None then {}
        else {m_PortableUpdateWorkspace (install_run q es new_installer)})"
  using ok_reached [of q es] by (simp add: install_ok_def)

text \<open>
  C18: An update that is asked for while none is running arrives: if the package can be installed, the disk and
  the tools work, and it has the digest stated, then what is handed to the updater is the package as it was
  sent, in whatever pieces it came, and its workspace is kept.
\<close>
theorem update_arrives:
  assumes "all_works q io n" and "installable q url digest" and "m_UpdateReply s = None"
    and "createPortableUpdateWorkspace q io \<noteq> m_PortableUpdateWorkspace s"
    and "normalizedDigest digest \<noteq> [] \<Longrightarrow> sha256_hex q (concat cs @ rest) = map to_lower (normalizedDigest digest)"
    and "t = install_run q (Install io url digest # Meta_data io n # map (Data io) cs @ [Finished io None rest]) s"
  shows "handed_over t = handed_over s @ [launched q (trimmed url) (createPortableUpdateWorkspace q io) (concat cs @ rest)
      (map to_lower (normalizedDigest digest))]
    \<and> createPortableUpdateWorkspace q io \<in> workspaces t"
  by (rule arrives [OF assms])

section \<open>A concrete update\<close>

text \<open>A portable installation on Windows, a disk and tools that work, and an update in three pieces.\<close>

definition sample_digest :: string where
  "sample_digest = ''sha256:'' @ replicate 64 (CHR ''A'')"

definition sample_env :: install_env where
  "sample_env = \<lparr>inst_platform = Windows, portable_dat_there = True, portable_root = ''C:'', two_up = None, cache_dir = [],
     home_dir = [], app_file = ''C:/M.exe'', app_pid = 7, parent_of = id, file_path = (\<lambda>d n. d @ ''/'' @ n), native_path = id,
     sha256_hex = (\<lambda>_. replicate 64 (CHR ''a'')), parse_url = (\<lambda>u. Some (''https'', u)), int_text = (\<lambda>_. ''7''),
     mb_text = (\<lambda>_ _. [])\<rparr>"

definition sample_io :: io_answers where
  "sample_io = \<lparr>found_program = (\<lambda>_. ''P''), dir_writable = True, msecs_now = 7, workspace_made = True, file_opens = True,
     write_takes = True, disk_free = Some 100000000, flushed = id, archive_reads = True, mount_point_made = True,
     tool_runs = (\<lambda>_. True), bundle_in_image = True, resource_opens = True, script_opens = True, script_takes = True,
     launch_works = True\<rparr>"

definition sample_update :: "install_event list" where
  "sample_update = Install sample_io '' https://h/p.zip'' sample_digest # Meta_data sample_io (Some 3)
     # map (Data sample_io) [[1], [2]] @ [Finished sample_io None [3]]"

lemma sample_works: "all_works sample_env sample_io (Some 3)"
  by (simp add: all_works_def supportsInAppUpdate_def isPortable_def getPortableUpdaterExecutable_def
      ensureWritableInstallDir_def createPortableUpdateWorkspace_def materializePortableUpdateScript_def sample_env_def
      sample_io_def ensureSufficientDiskSpace_def estimateRequiredWorkspaceBytes_def int64_def)

lemma sample_digest_read: "map to_lower (normalizedDigest sample_digest) = replicate 64 (CHR ''a'')"
  "is_sha256 (normalizedDigest sample_digest)"
  by code_simp+

lemma sample_url: "trimmed '' https://h/p.zip'' = ''https://h/p.zip''" "ends_ci ''.zip'' ''https://h/p.zip''"
  by code_simp+

lemma sample_installable: "installable sample_env '' https://h/p.zip'' sample_digest"
  unfolding installable_def sample_url digest_problem_def
  by (simp add: sample_env_def getUpdateArchiveSuffix_def sample_url sample_digest_read)

lemma sample_fresh:
  "m_UpdateReply new_installer = None"
  "createPortableUpdateWorkspace sample_env sample_io \<noteq> m_PortableUpdateWorkspace new_installer"
  "createPortableUpdateWorkspace sample_env sample_io = ''C:/MoonlightPortableUpdate-7-7''"
  "sha256_hex sample_env = (\<lambda>_. replicate 64 (CHR ''a''))"
  by (simp_all add: new_installer_def sample_io_def sample_env_def createPortableUpdateWorkspace_def
      getUpdateStorageProbePath_def)

lemma sample_sha: "sha256_hex sample_env p = map to_lower (normalizedDigest sample_digest)"
  unfolding sample_fresh(4) sample_digest_read(1) ..

lemma sample_handed:
  "handed_over (install_run sample_env sample_update new_installer) = [launched sample_env ''https://h/p.zip''
     ''C:/MoonlightPortableUpdate-7-7'' (concat [[1], [2]] @ [3]) (map to_lower (normalizedDigest sample_digest))]"
proof -
  have "handed_over new_installer = []" by (simp add: new_installer_def)
  with arrives [OF sample_works sample_installable sample_fresh(1,2) sample_sha refl, of "[[1], [2]]" "[3]"] show ?thesis
    unfolding sample_update_def sample_fresh(3) sample_url by (simp only: append_Nil)
qed

lemma update_arrives_witness:
  "''C:/MoonlightPortableUpdate-7-7'' \<in> workspaces (install_run sample_env sample_update new_installer)"
  unfolding sample_update_def sample_fresh(3) [symmetric]
  by (intro update_arrives [OF sample_works sample_installable sample_fresh(1,2) sample_sha refl, THEN conjunct2])

lemma installed_verified_witness:
  "\<exists>io u d. Install io u d \<in> set sample_update \<and> ''https://h/p.zip'' = trimmed u
    \<and> (if inst_platform sample_env = Mac \<or> normalizedDigest d \<noteq> []
       then is_sha256 (normalizedDigest d) \<and> sha256_hex sample_env [1, 2, 3] = map to_lower (normalizedDigest d) else True)"
  using installed_verified [of _ sample_env sample_update] unfolding sample_handed
  by (simp add: launched_def cong: if_cong)

text \<open>
  What \<open>flush\<close> and \<open>close\<close> say is not looked at: without a digest a package that lost its end on the way to
  the disk is handed over all the same.
\<close>
lemma lost_bytes_handed_over:
  "map package (handed_over (install_run sample_env [Install sample_io ''https://h/p.zip'' [],
     Finished (sample_io\<lparr>flushed := take 1\<rparr>) None [1, 2, 3]] new_installer)) = [[1]]"
  by code_simp

end
