(* ===== verification/UsbTunnel.thy ===== *)
theory UsbTunnel
  imports Json
begin

text \<open>
  USB forwarding: the capability document a host publishes
  (\<open>src/app/backend/usbforwardingcapability.h\<close>) and the tunnel that carries one USB/IP device between
  the local USB/IP server and the host (\<open>src/app/backend/usbforwardingtunnel.cpp\<close>). The sockets are
  queues, every Qt signal the tunnel connects is an event, and JSON text and UTF-8 are parameters.
\<close>

section \<open>The capability document\<close>

record usb_text =
  parse_json :: "bytes \<Rightarrow> json"
  to_json :: "json \<Rightarrow> bytes"
  from_utf8 :: "bytes \<Rightarrow> string"

record capability =
  available :: bool
  reason :: string
  port :: nat
  token :: bytes

definition hex_digit :: "char \<Rightarrow> bool" where
  "hex_digit c \<longleftrightarrow> c \<in> set ''0123456789abcdefABCDEF''"

definition valid_token :: "string \<Rightarrow> bool" where
  "valid_token t \<longleftrightarrow> length t = 64 \<and> list_all hex_digit t"

definition to_latin1 :: "string \<Rightarrow> bytes" where
  "to_latin1 = map of_char"

text \<open>\<open>Capability::parse\<close>, its early returns in order.\<close>

definition parse_capability :: "usb_text \<Rightarrow> bytes \<Rightarrow> capability option" where
  "parse_capability q b =
     (if length b > 4096 then None
      else let d = parse_json q b in
        if \<not> is_object d then None
        else if to_real (-1) (json_value d ''version'') \<noteq> 1 \<or> \<not> is_bool (json_value d ''enabled'')
             \<or> \<not> is_bool (json_value d ''available'') then None
        else let on = to_bool (json_value d ''enabled'') \<and> to_bool (json_value d ''available'');
                 why = to_str (json_value d ''reason'') in
          if \<not> on then Some \<lparr>available = False, reason = why, port = 0, token = []\<rparr>
          else let p = to_real (-1) (json_value d ''port''); t = to_str (json_value d ''token'') in
            if p < 1 \<or> p > 65535 \<or> p \<noteq> of_int \<lfloor>p\<rfloor> \<or> \<not> valid_token t then None
            else Some \<lparr>available = True, reason = why, port = nat \<lfloor>p\<rfloor>, token = to_latin1 t\<rparr>)"

section \<open>Configuration\<close>

definition kMaxHandshakeBytes :: nat where "kMaxHandshakeBytes = 4 * 1024"
definition kHighWaterMark :: nat where "kHighWaterMark = 4 * 1024 * 1024"
definition kMaxBusIdBytes :: nat where "kMaxBusIdBytes = 31"
definition pump_chunk :: nat where "pump_chunk = 64 * 1024"

record tunnel_config =
  host :: string
  remote_port :: nat
  session_token :: bytes
  pin :: "bytes option"
  bus_id :: bytes
  local_host :: string
  local_port :: nat

text \<open>The characters of a bus id: digits, letters, \<open>-\<close> (45) and \<open>.\<close> (46).\<close>

definition bus_id_char :: "byte \<Rightarrow> bool" where
  "bus_id_char c \<longleftrightarrow> (48 \<le> c \<and> c \<le> 57) \<or> (97 \<le> c \<and> c \<le> 122) \<or> (65 \<le> c \<and> c \<le> 90)
     \<or> c = 45 \<or> c = 46"

definition valid_config :: "tunnel_config \<Rightarrow> bool" where
  "valid_config c =
     (if host c = [] \<or> remote_port c = 0 \<or> session_token c = [] \<or> bus_id c = [] \<or> local_port c = 0
      then False
      else if length (bus_id c) > kMaxBusIdBytes then False
      else list_all bus_id_char (bus_id c))"

section \<open>State\<close>

text \<open>
  A socket: whether it is in the connected state, the bytes received and not yet read, the bytes
  written and not yet sent, and, as history, every byte that arrived and every byte that was sent.
  For the TLS socket, the certificate the peer presented.
\<close>

record socket =
  connected :: bool
  inq :: bytes
  outq :: bytes
  arrived :: bytes
  wire :: bytes
  peer :: "bytes option"

definition new_socket :: socket where
  "new_socket = \<lparr>connected = False, inq = [], outq = [], arrived = [], wire = [], peer = None\<rparr>"

text \<open>Every byte the tunnel wrote to a socket, sent or still queued.\<close>

definition written :: "socket \<Rightarrow> bytes" where
  "written k = wire k @ outq k"

datatype tunnel_message =
    Timed_out
  | Wrong_certificate
  | Certificate_errors "string list"
  | Invalid_response
  | Host_refused string
  | Closed_early
  | Host_lost string
  | Local_failed string

datatype tunnel_signal = Forwarding | Closed "tunnel_message option"

datatype start_error = Incomplete_config | Already_running | Not_paired

record tunnel =
  cfg :: tunnel_config
  m_Local :: "socket option"
  m_Remote :: "socket option"
  timer :: bool
  hbuf :: bytes
  handshake_done :: bool
  peer_verified :: bool
  finished :: bool
  signals :: "tunnel_signal list"

definition new_tunnel :: "tunnel_config \<Rightarrow> tunnel" where
  "new_tunnel c = \<lparr>cfg = c, m_Local = None, m_Remote = None, timer = False, hbuf = [],
     handshake_done = False, peer_verified = False, finished = False, signals = []\<rparr>"

section \<open>Operations\<close>

definition tunnel_start :: "tunnel \<Rightarrow> start_error + tunnel" where
  "tunnel_start s =
     (if \<not> valid_config (cfg s) then Inl Incomplete_config
      else if m_Local s \<noteq> None \<or> m_Remote s \<noteq> None then Inl Already_running
      else if pin (cfg s) = None then Inl Not_paired
      else Inr (s\<lparr>m_Local := Some new_socket, m_Remote := Some new_socket, finished := False,
                  handshake_done := False, peer_verified := False, hbuf := [], timer := True\<rparr>))"

definition tunnel_stop :: "tunnel \<Rightarrow> tunnel" where
  "tunnel_stop s = s\<lparr>finished := True, timer := False, m_Local := None, m_Remote := None\<rparr>"

definition failWith :: "tunnel_message \<Rightarrow> tunnel \<Rightarrow> tunnel" where
  "failWith m s =
     (if finished s then s
      else let s = tunnel_stop s in s\<lparr>signals := signals s @ [Closed (Some m)]\<rparr>)"

definition finishCleanly :: "tunnel \<Rightarrow> tunnel" where
  "finishCleanly s =
     (if finished s then s
      else if \<not> handshake_done s then failWith Closed_early s
      else let s = tunnel_stop s in s\<lparr>signals := signals s @ [Closed None]\<rparr>)"

text \<open>\<open>write\<close> on a socket queues the bytes.\<close>

definition sock_write :: "bytes \<Rightarrow> socket \<Rightarrow> socket" where
  "sock_write b k = k\<lparr>outq := outq k @ b\<rparr>"

text \<open>The local-to-host pump: one socket's unread bytes moved to the other's queue.\<close>

function pump_local :: "socket \<Rightarrow> socket \<Rightarrow> socket \<times> socket" where
  "pump_local l r =
     (if inq l \<noteq> [] \<and> length (outq r) < kHighWaterMark
      then pump_local (l\<lparr>inq := drop pump_chunk (inq l)\<rparr>) (sock_write (take pump_chunk (inq l)) r)
      else (l, r))"
  by auto
termination
  by (relation "measure (\<lambda>(l, r). length (inq l))") (auto simp: pump_chunk_def)

declare pump_local.simps [simp del]

definition handleLocalReadyRead :: "tunnel \<Rightarrow> tunnel" where
  "handleLocalReadyRead s =
     (case (m_Local s, m_Remote s) of
        (Some l, Some r) \<Rightarrow>
          if \<not> handshake_done s then s
          else if finished s then s
          else let (l', r') = pump_local l r in s\<lparr>m_Local := Some l', m_Remote := Some r'\<rparr>
      | _ \<Rightarrow> s)"

text \<open>
  The host-to-local pump: the bytes left over from the handshake first, then the socket's, while
  the local queue is below the high-water mark.
\<close>

function pump_remote :: "bytes \<Rightarrow> socket \<Rightarrow> socket \<Rightarrow> bytes \<times> socket \<times> socket" where
  "pump_remote h l r =
     (if length (outq l) < kHighWaterMark
      then if h \<noteq> [] then pump_remote (drop pump_chunk h) (sock_write (take pump_chunk h) l) r
           else if inq r \<noteq> []
           then pump_remote h (sock_write (take pump_chunk (inq r)) l)
                  (r\<lparr>inq := drop pump_chunk (inq r)\<rparr>)
           else (h, l, r)
      else (h, l, r))"
  by auto
termination
  by (relation "measure (\<lambda>(h, l, r). length h + length (inq r))") (auto simp: pump_chunk_def)

declare pump_remote.simps [simp del]

text \<open>The handshake reply: the failure its \<open>op\<close> and \<open>reason\<close> give, or none.\<close>

definition reply_failure :: "usb_text \<Rightarrow> bytes \<Rightarrow> tunnel_message option" where
  "reply_failure q line =
     (let reply = parse_json q line in
      if to_str (json_value reply ''op'') = ''ready'' then None
      else Some (Host_refused (to_str (json_value reply ''reason''))))"

text \<open>\<open>indexOf('\n')\<close>, with the bytes after it.\<close>

fun split_line :: "bytes \<Rightarrow> (bytes \<times> bytes) option" where
  "split_line [] = None"
| "split_line (b # bs) =
     (if b = 10 then Some ([], bs)
      else map_option (\<lambda>(x, y). (b # x, y)) (split_line bs))"

text \<open>The pump that ends \<open>handleRemoteReadyRead\<close>, with the drain of the local side after it.\<close>

definition pump_host :: "tunnel \<Rightarrow> tunnel" where
  "pump_host s =
     (case (m_Local s, m_Remote s) of
        (Some l, Some r) \<Rightarrow>
          if finished s then s
          else let (h, l', r') = pump_remote (hbuf s) l r;
                   s' = s\<lparr>hbuf := h, m_Local := Some l', m_Remote := Some r'\<rparr>
               in if h = [] \<and> length (outq l') < kHighWaterMark then handleLocalReadyRead s' else s'
      | _ \<Rightarrow> s)"

text \<open>
  \<open>handleRemoteReadyRead\<close>. The flag \<open>stops\<close> says that a receiver of the \<open>forwarding\<close> signal calls
  \<open>stop\<close> before \<open>emit\<close> returns.
\<close>

definition handleRemoteReadyRead :: "usb_text \<Rightarrow> bool \<Rightarrow> tunnel \<Rightarrow> tunnel" where
  "handleRemoteReadyRead q stops s =
     (case (m_Local s, m_Remote s) of
        (Some l, Some r) \<Rightarrow>
          if finished s \<or> \<not> peer_verified s \<or> \<not> connected l then s
          else if handshake_done s then pump_host s
          else
            let buf = hbuf s @ inq r;
                s1 = s\<lparr>hbuf := buf, m_Remote := Some (r\<lparr>inq := []\<rparr>)\<rparr>
            in case split_line buf of
                 None \<Rightarrow> if length buf > kMaxHandshakeBytes then failWith Invalid_response s1 else s1
               | Some (line, rest) \<Rightarrow>
                   if length line > kMaxHandshakeBytes then failWith Invalid_response s1
                   else let s2 = s1\<lparr>hbuf := rest\<rparr>
                        in case reply_failure q line of
                             Some m \<Rightarrow> failWith m s2
                           | None \<Rightarrow>
                               let s3 = s2\<lparr>handshake_done := True, timer := False,
                                           signals := signals s2 @ [Forwarding]\<rparr>
                               in if stops then tunnel_stop s3 else pump_host s3
      | _ \<Rightarrow> s)"

definition request_line :: "usb_text \<Rightarrow> tunnel_config \<Rightarrow> bytes" where
  "request_line q c =
     to_json q (Obj [(''op'', Str ''forward''), (''token'', Str (from_utf8 q (session_token c))),
                     (''busid'', Str (from_utf8 q (bus_id c)))]) @ [10]"

text \<open>The slot of \<open>encrypted\<close>: the pin is compared before anything is sent.\<close>

definition on_encrypted :: "usb_text \<Rightarrow> tunnel \<Rightarrow> tunnel" where
  "on_encrypted q s =
     (case m_Remote s of
        None \<Rightarrow> s
      | Some r \<Rightarrow>
          if peer r \<noteq> pin (cfg s) then failWith Wrong_certificate s
          else s\<lparr>peer_verified := True, m_Remote := Some (sock_write (request_line q (cfg s)) r)\<rparr>)"

definition on_ssl_errors :: "bytes \<Rightarrow> string list \<Rightarrow> tunnel \<Rightarrow> tunnel" where
  "on_ssl_errors cert errors s =
     (if m_Remote s = None then s
      else if Some cert = pin (cfg s) then s
      else failWith (Certificate_errors errors) s)"

section \<open>Events\<close>

text \<open>
  What the environment does: the sockets' signals, the startup timer and the owner's \<open>stop\<close>. A
  rule's premises say when Qt can raise the signal.
\<close>

datatype tunnel_event =
    Local_connects
  | Local_receives bytes
  | Local_sends nat
  | Local_disconnects
  | Local_errors string
  | Remote_certificate bytes
  | Remote_ssl_errors bytes "string list"
  | Remote_receives bytes
  | Remote_sends nat
  | Remote_disconnects
  | Remote_errors string
  | Startup_timeout
  | Owner_stops

definition receive :: "bytes \<Rightarrow> socket \<Rightarrow> socket" where
  "receive b k = k\<lparr>inq := inq k @ b, arrived := arrived k @ b\<rparr>"

definition send :: "nat \<Rightarrow> socket \<Rightarrow> socket" where
  "send n k = k\<lparr>outq := drop n (outq k), wire := wire k @ take n (outq k)\<rparr>"

inductive usb_step :: "usb_text \<Rightarrow> tunnel \<Rightarrow> tunnel_event \<Rightarrow> tunnel \<Rightarrow> bool" for q where
  local_connects:
    "m_Local s = Some l \<Longrightarrow> \<not> connected l \<Longrightarrow>
     usb_step q s Local_connects
       (handleRemoteReadyRead q stops (s\<lparr>m_Local := Some (l\<lparr>connected := True\<rparr>)\<rparr>))"
| local_receives:
    "m_Local s = Some l \<Longrightarrow> connected l \<Longrightarrow>
     usb_step q s (Local_receives b) (handleLocalReadyRead (s\<lparr>m_Local := Some (receive b l)\<rparr>))"
| local_sends:
    "m_Local s = Some l \<Longrightarrow> connected l \<Longrightarrow> n \<le> length (outq l) \<Longrightarrow>
     usb_step q s (Local_sends n)
       (handleRemoteReadyRead q stops (s\<lparr>m_Local := Some (send n l)\<rparr>))"
| local_disconnects:
    "m_Local s = Some l \<Longrightarrow> usb_step q s Local_disconnects (finishCleanly s)"
| local_errors:
    "m_Local s = Some l \<Longrightarrow> usb_step q s (Local_errors e) (failWith (Local_failed e) s)"
| remote_certificate:
    "m_Remote s = Some r \<Longrightarrow> peer r = None \<Longrightarrow>
     usb_step q s (Remote_certificate c) (on_encrypted q (s\<lparr>m_Remote := Some (r\<lparr>peer := Some c\<rparr>)\<rparr>))"
| remote_ssl_errors:
    "m_Remote s = Some r \<Longrightarrow> peer r = None \<Longrightarrow>
     usb_step q s (Remote_ssl_errors c es) (on_ssl_errors c es s)"
| remote_receives:
    "m_Remote s = Some r \<Longrightarrow> peer r \<noteq> None \<Longrightarrow>
     usb_step q s (Remote_receives b)
       (handleRemoteReadyRead q stops (s\<lparr>m_Remote := Some (receive b r)\<rparr>))"
| remote_sends:
    "m_Remote s = Some r \<Longrightarrow> n \<le> length (outq r) \<Longrightarrow>
     usb_step q s (Remote_sends n) (handleLocalReadyRead (s\<lparr>m_Remote := Some (send n r)\<rparr>))"
| remote_disconnects:
    "m_Remote s = Some r \<Longrightarrow> usb_step q s Remote_disconnects (finishCleanly s)"
| remote_errors:
    "m_Remote s = Some r \<Longrightarrow> usb_step q s (Remote_errors e) (failWith (Host_lost e) s)"
| startup_timeout:
    "timer s \<Longrightarrow> usb_step q s Startup_timeout (failWith Timed_out s)"
| owner_stops:
    "usb_step q s Owner_stops (tunnel_stop s)"

inductive_cases usb_stepE: "usb_step q s e s'"

lemmas usb_step_by_event = usb_stepE [consumes 1, case_names local_connects local_receives
    local_sends local_disconnects local_errors remote_certificate remote_ssl_errors
    remote_receives remote_sends remote_disconnects remote_errors startup_timeout owner_stops]

text \<open>The states of one tunnel session, from a successful \<open>start\<close> on.\<close>

inductive usb_run :: "usb_text \<Rightarrow> tunnel_config \<Rightarrow> tunnel \<Rightarrow> bool" for q c where
  started: "tunnel_start (new_tunnel c) = Inr s \<Longrightarrow> usb_run q c s"
| stepped: "usb_run q c s \<Longrightarrow> usb_step q s e s' \<Longrightarrow> usb_run q c s'"

section \<open>The pumps\<close>

text \<open>
  What both pumps promise: bytes move from the pending end of a stream to its passed end, a pump
  leaves bytes behind only when the receiving queue is at the high-water mark, and the queue never
  exceeds that mark by more than one chunk.
\<close>

locale byte_pump =
  fixes pump :: "'s \<Rightarrow> 's"
    and passed pending backlog :: "'s \<Rightarrow> bytes"
  assumes conserve: "passed (pump s) @ pending (pump s) = passed s @ pending s"
    and saturate: "pending (pump s) \<noteq> [] \<Longrightarrow> kHighWaterMark \<le> length (backlog (pump s))"
    and backlog_bound: "length (backlog (pump s))
          < max (length (backlog s) + 1) (kHighWaterMark + pump_chunk)"
begin

lemma drained:
  assumes "length (backlog (pump s)) < kHighWaterMark"
  shows "passed (pump s) = passed s @ pending s"
  using conserve [of s] saturate [of s] assms by (cases "pending (pump s) = []") auto

lemma bound_kept:
  assumes "length (backlog s) < max n (kHighWaterMark + pump_chunk)"
  shows "length (backlog (pump s)) < max n (kHighWaterMark + pump_chunk)"
  using backlog_bound [of s] assms by linarith

end

lemma pump_local_spec:
  "pump_local l r = (l', r') \<Longrightarrow>
     written r' @ inq l' = written r @ inq l
   \<and> l' = l\<lparr>inq := inq l'\<rparr> \<and> r' = r\<lparr>outq := outq r'\<rparr>
   \<and> length (outq r') < max (length (outq r) + 1) (kHighWaterMark + pump_chunk)
   \<and> (inq l' \<noteq> [] \<longrightarrow> kHighWaterMark \<le> length (outq r'))"
proof (induction l r rule: pump_local.induct)
  case (1 l r)
  show ?case
  proof (cases "inq l \<noteq> [] \<and> length (outq r) < kHighWaterMark")
    case True
    have "pump_local (l\<lparr>inq := drop pump_chunk (inq l)\<rparr>) (sock_write (take pump_chunk (inq l)) r) = (l', r')"
      using "1.prems" True by (subst (asm) pump_local.simps) simp
    from "1.IH" [OF True this] True show ?thesis
      by (auto simp: written_def sock_write_def min_def split: if_splits)
  next
    case False
    then have "(l', r') = (l, r)" using "1.prems" by (subst (asm) pump_local.simps) auto
    then show ?thesis using False by auto
  qed
qed

lemma pump_remote_spec:
  "pump_remote h l r = (h', l', r') \<Longrightarrow>
     written l' @ h' @ inq r' = written l @ h @ inq r
   \<and> l' = l\<lparr>outq := outq l'\<rparr> \<and> r' = r\<lparr>inq := inq r'\<rparr>
   \<and> length (outq l') < max (length (outq l) + 1) (kHighWaterMark + pump_chunk)
   \<and> (h' @ inq r' \<noteq> [] \<longrightarrow> kHighWaterMark \<le> length (outq l'))"
proof (induction h l r rule: pump_remote.induct)
  case (1 h l r)
  consider (full) "\<not> length (outq l) < kHighWaterMark"
    | (left) "length (outq l) < kHighWaterMark" "h \<noteq> []"
    | (sock) "length (outq l) < kHighWaterMark" "h = []" "inq r \<noteq> []"
    | (empty) "length (outq l) < kHighWaterMark" "h = []" "inq r = []"
    by blast
  then show ?case
  proof cases
    case full
    then have "(h', l', r') = (h, l, r)" using "1.prems" by (subst (asm) pump_remote.simps) simp
    then show ?thesis using full by auto
  next
    case left
    then have "pump_remote (drop pump_chunk h) (sock_write (take pump_chunk h) l) r = (h', l', r')"
      using "1.prems" by (subst (asm) pump_remote.simps) simp
    from "1.IH"(1) [OF left this] left show ?thesis
      by (auto simp: written_def sock_write_def min_def split: if_splits)
  next
    case sock
    then have "pump_remote h (sock_write (take pump_chunk (inq r)) l)
        (r\<lparr>inq := drop pump_chunk (inq r)\<rparr>) = (h', l', r')"
      using "1.prems" by (subst (asm) pump_remote.simps) simp
    from "1.IH"(2) [OF sock(1) _ sock(3) this] sock show ?thesis
      by (auto simp: written_def sock_write_def min_def split: if_splits)
  next
    case empty
    then have "(h', l', r') = (h, l, r)" using "1.prems" by (subst (asm) pump_remote.simps) simp
    then show ?thesis using empty by auto
  qed
qed


interpretation up: byte_pump "\<lambda>(l, r). pump_local l r" "\<lambda>(l, r). written r" "\<lambda>(l, r). inq l"
    "\<lambda>(l, r). outq r"
proof (unfold_locales, goal_cases)
  case (1 s) then show ?case by (cases s) (use pump_local_spec in \<open>fastforce split: prod.splits\<close>)
next
  case (2 s) then show ?case by (cases s) (use pump_local_spec in \<open>fastforce split: prod.splits\<close>)
next
  case (3 s) then show ?case by (cases s) (use pump_local_spec in \<open>fastforce split: prod.splits\<close>)
qed

interpretation down: byte_pump "\<lambda>(h, l, r). pump_remote h l r" "\<lambda>(h, l, r). written l"
    "\<lambda>(h, l, r). h @ inq r" "\<lambda>(h, l, r). outq l"
proof (unfold_locales, goal_cases)
  case (1 s) then show ?case by (cases s) (use pump_remote_spec in \<open>fastforce split: prod.splits\<close>)
next
  case (2 s) then show ?case by (cases s) (use pump_remote_spec in \<open>fastforce split: prod.splits\<close>)
next
  case (3 s) then show ?case by (cases s) (use pump_remote_spec in \<open>fastforce split: prod.splits\<close>)
qed

section \<open>The handshake line\<close>

text \<open>The line scanner sees the bytes, not how they were cut: it is a chunked reader.\<close>

definition scan_line :: "unit \<Rightarrow> bytes \<Rightarrow> bytes + bytes \<times> bytes" where
  "scan_line u b = (case split_line b of None \<Rightarrow> Inl b | Some xy \<Rightarrow> Inr xy)"

definition scan_more :: "bytes + bytes \<times> bytes \<Rightarrow> bytes \<Rightarrow> bytes + bytes \<times> bytes" where
  "scan_more r x = (case r of Inl b \<Rightarrow> scan_line () (b @ x) | Inr (l, y) \<Rightarrow> Inr (l, y @ x))"

lemma split_line_append_Some:
  "split_line a = Some (x, y) \<Longrightarrow> split_line (a @ b) = Some (x, y @ b)"
  by (induction a arbitrary: x) (auto split: if_splits)

lemma split_line_sound: "split_line a = Some (x, y) \<Longrightarrow> a = x @ 10 # y \<and> 10 \<notin> set x"
  by (induction a arbitrary: x) (auto split: if_splits)

interpretation line: chunked_reader scan_line scan_more
  by unfold_locales
    (auto simp: scan_line_def scan_more_def split_line_append_Some split: option.splits)


section \<open>The invariant of a session\<close>

text \<open>
  Before the handshake is done nothing has reached the local service and everything the host sent
  is in the handshake buffer; afterwards each direction is the bytes received, in order, past the
  one handshake line each way.
\<close>

definition quiet :: "bytes \<Rightarrow> socket \<Rightarrow> bool" where
  "quiet h r \<longleftrightarrow> peer r = None \<and> arrived r = [] \<and> inq r = [] \<and> written r = [] \<and> h = []"

definition handshaking :: "usb_text \<Rightarrow> tunnel_config \<Rightarrow> bool \<Rightarrow> bytes \<Rightarrow> socket \<Rightarrow> socket \<Rightarrow> bool" where
  "handshaking q c ver h l r \<longleftrightarrow> written l = [] \<and> h @ inq r = arrived r \<and> split_line h = None
     \<and> length h \<le> kMaxHandshakeBytes \<and> inq l = arrived l
     \<and> (if ver then peer r = pin c \<and> written r = request_line q c else quiet h r)"

definition relaying :: "usb_text \<Rightarrow> tunnel_config \<Rightarrow> bytes \<Rightarrow> socket \<Rightarrow> socket \<Rightarrow> bool" where
  "relaying q c h l r \<longleftrightarrow> connected l \<and> peer r = pin c
     \<and> (\<exists>line rest. split_line (arrived r) = Some (line, rest) \<and> length line \<le> kMaxHandshakeBytes
          \<and> reply_failure q line = None \<and> written l @ h @ inq r = rest)
     \<and> written r @ inq l = request_line q c @ arrived l"

definition queue_limit :: "usb_text \<Rightarrow> tunnel_config \<Rightarrow> nat" where
  "queue_limit q c = max (length (request_line q c) + 1) (kHighWaterMark + pump_chunk)"

definition core :: "usb_text \<Rightarrow> tunnel \<Rightarrow> socket \<Rightarrow> socket \<Rightarrow> bool" where
  "core q s l r \<longleftrightarrow> m_Local s = Some l \<and> m_Remote s = Some r \<and> \<not> finished s
     \<and> timer s = (\<not> handshake_done s)
     \<and> signals s = (if handshake_done s then [Forwarding] else [])
     \<and> pin (cfg s) \<noteq> None
     \<and> (if handshake_done s then peer_verified s \<and> relaying q (cfg s) (hbuf s) l r
        else handshaking q (cfg s) (peer_verified s) (hbuf s) l r)
     \<and> length (outq l) < kHighWaterMark + pump_chunk \<and> length (outq r) < queue_limit q (cfg s)"

text \<open>
  Bytes wait only for a reason: for the local connection before the handshake, behind a queue at
  the high-water mark (whose draining pumps again) afterwards.
\<close>

definition down_waits :: "tunnel \<Rightarrow> socket \<Rightarrow> socket \<Rightarrow> bool" where
  "down_waits s l r \<longleftrightarrow>
     (if handshake_done s then hbuf s @ inq r \<noteq> [] \<longrightarrow> kHighWaterMark \<le> length (outq l)
      else connected l \<longrightarrow> inq r = [])"

definition up_waits :: "tunnel \<Rightarrow> socket \<Rightarrow> socket \<Rightarrow> bool" where
  "up_waits s l r \<longleftrightarrow>
     (handshake_done s \<longrightarrow> inq l \<noteq> [] \<longrightarrow>
        kHighWaterMark \<le> length (outq l) \<or> kHighWaterMark \<le> length (outq r))"

definition ended :: "tunnel \<Rightarrow> bool" where
  "ended s \<longleftrightarrow> finished s \<and> m_Local s = None \<and> m_Remote s = None \<and> \<not> timer s
     \<and> (signals s \<in> {[], [Forwarding], [Forwarding, Closed None]}
        \<or> (\<exists>m. signals s = [Closed (Some m)] \<or> signals s = [Forwarding, Closed (Some m)]))"

definition tunnel_inv :: "usb_text \<Rightarrow> tunnel_config \<Rightarrow> tunnel \<Rightarrow> bool" where
  "tunnel_inv q c s \<longleftrightarrow> cfg s = c
     \<and> (ended s \<or> (\<exists>l r. core q s l r \<and> down_waits s l r \<and> up_waits s l r))"

lemma tunnel_inv_running:
  "cfg s = c \<Longrightarrow> core q s l r \<Longrightarrow> down_waits s l r \<Longrightarrow> up_waits s l r \<Longrightarrow> tunnel_inv q c s"
  by (auto simp: tunnel_inv_def)

text \<open>Ending operations.\<close>

lemma stop_inv:
  "cfg s = c \<Longrightarrow> signals s = [] \<or> signals s = [Forwarding] \<Longrightarrow> tunnel_inv q c (tunnel_stop s)"
  by (auto simp: tunnel_inv_def ended_def tunnel_stop_def)

lemma fail_inv:
  "cfg s = c \<Longrightarrow> \<not> finished s \<Longrightarrow> signals s = [] \<or> signals s = [Forwarding] \<Longrightarrow>
     tunnel_inv q c (failWith m s)"
  by (auto simp: tunnel_inv_def ended_def failWith_def tunnel_stop_def Let_def)

lemma core_signals: "core q s l r \<Longrightarrow> signals s = [] \<or> signals s = [Forwarding]"
  by (auto simp: core_def)

lemma finish_inv:
  "cfg s = c \<Longrightarrow> core q s l r \<Longrightarrow> tunnel_inv q c (finishCleanly s)"
  by (auto simp: finishCleanly_def core_def tunnel_inv_def ended_def failWith_def tunnel_stop_def
      Let_def)

text \<open>The pumps of a running session.\<close>

lemma handleLocal_inv:
  assumes "cfg s = c" and core: "core q s l r" and down: "down_waits s l r"
  shows "tunnel_inv q c (handleLocalReadyRead s)"
proof (cases "handshake_done s")
  case False
  then have "handleLocalReadyRead s = s" using core by (simp add: handleLocalReadyRead_def core_def)
  moreover have "up_waits s l r" using False by (simp add: up_waits_def)
  ultimately show ?thesis using assms by (simp add: tunnel_inv_running)
next
  case True
  obtain l' r' where p: "pump_local l r = (l', r')" by force
  let ?s = "s\<lparr>m_Local := Some l', m_Remote := Some r'\<rparr>"
  have eq: "handleLocalReadyRead s = ?s"
    using core True p by (simp add: handleLocalReadyRead_def core_def)
  note spec = pump_local_spec [OF p]
  obtain i where i: "l' = l\<lparr>inq := i\<rparr>" using spec by blast
  obtain u where u: "r' = r\<lparr>outq := u\<rparr>" using spec by blast
  have l': "connected l' = connected l" "written l' = written l" "arrived l' = arrived l"
    "outq l' = outq l" by (simp_all add: i written_def)
  have r': "peer r' = peer r" "arrived r' = arrived r" "inq r' = inq r" by (simp_all add: u)
  have "length (outq r') < queue_limit q c"
    using up.bound_kept [of "(l, r)" "length (request_line q c) + 1"] p core assms(1)
    by (simp add: queue_limit_def core_def)
  then have "core q ?s l' r'"
    using core True spec l' r' assms(1) by (auto simp: core_def relaying_def)
  moreover have "down_waits ?s l' r'" using down True l' r' by (simp add: down_waits_def)
  moreover have "up_waits ?s l' r'" using spec True l' by (simp add: up_waits_def)
  ultimately show ?thesis unfolding eq using assms(1) by (intro tunnel_inv_running) auto
qed

lemma pump_host_inv:
  assumes "cfg s = c" and core: "core q s l r" and hs: "handshake_done s"
  shows "tunnel_inv q c (pump_host s)"
proof -
  obtain h' l' r' where p: "pump_remote (hbuf s) l r = (h', l', r')" by (metis prod_cases3)
  let ?s = "s\<lparr>hbuf := h', m_Local := Some l', m_Remote := Some r'\<rparr>"
  note spec = pump_remote_spec [OF p]
  obtain u where u: "l' = l\<lparr>outq := u\<rparr>" using spec by blast
  obtain i where i: "r' = r\<lparr>inq := i\<rparr>" using spec by blast
  have l': "connected l' = connected l" "arrived l' = arrived l" "inq l' = inq l"
    by (simp_all add: u)
  have r': "peer r' = peer r" "arrived r' = arrived r" "outq r' = outq r" "written r' = written r"
    by (simp_all add: i written_def)
  have "length (outq l') < kHighWaterMark + pump_chunk"
    using spec core by (simp add: core_def)
  then have core': "core q ?s l' r'"
    using core hs spec l' r' by (auto simp: core_def relaying_def)
  have down: "down_waits ?s l' r'" using spec hs by (simp add: down_waits_def)
  have eq: "pump_host s = (if h' = [] \<and> length (outq l') < kHighWaterMark
      then handleLocalReadyRead ?s else ?s)"
    using core p by (simp add: pump_host_def core_def Let_def)
  show ?thesis
  proof (cases "h' = [] \<and> length (outq l') < kHighWaterMark")
    case True
    have "tunnel_inv q c (handleLocalReadyRead ?s)"
      using handleLocal_inv [OF _ core' down] assms(1) by simp
    then show ?thesis using True eq by simp
  next
    case False
    then have "kHighWaterMark \<le> length (outq l')" using spec by auto
    then have "up_waits ?s l' r'" by (simp add: up_waits_def)
    then have "tunnel_inv q c ?s" using tunnel_inv_running [OF _ core' down] assms(1) by simp
    then show ?thesis unfolding eq using False by (simp only: if_False)
  qed
qed


lemma handleRemote_inv:
  assumes c: "cfg s = c" and core: "core q s l r"
  shows "tunnel_inv q c (handleRemoteReadyRead q stops s)"
proof -
  have sockets: "m_Local s = Some l" "m_Remote s = Some r" "\<not> finished s"
    using core by (simp_all add: core_def)
  show ?thesis
  proof (cases "handshake_done s")
    case True
    then have "peer_verified s" "connected l" using core by (auto simp: core_def relaying_def)
    then have "handleRemoteReadyRead q stops s = pump_host s"
      using sockets True by (simp add: handleRemoteReadyRead_def)
    then show ?thesis using pump_host_inv [OF c core True] by simp
  next
    case hs: False
    then have shake: "handshaking q c (peer_verified s) (hbuf s) l r"
      and tm: "timer s" and sig: "signals s = []" using core c by (auto simp: core_def)
    have up: "up_waits s l r" using hs by (simp add: up_waits_def)
    show ?thesis
    proof (cases "peer_verified s \<and> connected l")
      case False
      then have "handleRemoteReadyRead q stops s = s"
        using sockets by (auto simp: handleRemoteReadyRead_def)
      moreover have "down_waits s l r"
        using False hs shake by (auto simp: down_waits_def handshaking_def quiet_def)
      ultimately show ?thesis using tunnel_inv_running [OF c core _ up] by simp
    next
      case True
      let ?buf = "hbuf s @ inq r"
      let ?r = "r\<lparr>inq := []\<rparr>"
      let ?s1 = "s\<lparr>hbuf := ?buf, m_Remote := Some ?r\<rparr>"
      have arr: "?buf = arrived r" using shake by (simp add: handshaking_def)
      show ?thesis
      proof (cases "split_line ?buf")
        case None
        then have eq: "handleRemoteReadyRead q stops s =
            (if length ?buf > kMaxHandshakeBytes then failWith Invalid_response ?s1 else ?s1)"
          using sockets hs True by (simp add: handleRemoteReadyRead_def Let_def)
        show ?thesis
        proof (cases "length ?buf > kMaxHandshakeBytes")
          case True
          then show ?thesis unfolding eq using c sockets sig by (simp add: fail_inv)
        next
          case False
          then have "length (arrived r) \<le> kMaxHandshakeBytes" using arr by (metis not_less)
          then have "core q ?s1 l ?r"
            using core hs True None c by (auto simp: core_def handshaking_def written_def)
          moreover have "down_waits ?s1 l ?r" using hs by (simp add: down_waits_def)
          moreover have "up_waits ?s1 l ?r" using hs by (simp add: up_waits_def)
          ultimately show ?thesis unfolding eq using False c by (auto intro: tunnel_inv_running)
        qed
      next
        case (Some lr)
        then obtain line rest where sp: "split_line ?buf = Some (line, rest)" by (cases lr) auto
        let ?s2 = "?s1\<lparr>hbuf := rest\<rparr>"
        let ?s3 = "?s2\<lparr>handshake_done := True, timer := False, signals := signals ?s2 @ [Forwarding]\<rparr>"
        have eq: "handleRemoteReadyRead q stops s =
            (if length line > kMaxHandshakeBytes then failWith Invalid_response ?s1
             else case reply_failure q line of Some m \<Rightarrow> failWith m ?s2
                  | None \<Rightarrow> if stops then tunnel_stop ?s3 else pump_host ?s3)"
          using sockets hs True sp
          by (simp add: handleRemoteReadyRead_def Let_def split: option.split)
        have bad: "tunnel_inv q c (failWith m ?s1)" "tunnel_inv q c (failWith m ?s2)" for m
          using c sockets sig by (simp_all add: fail_inv)
        show ?thesis
        proof (cases "length line > kMaxHandshakeBytes \<or> reply_failure q line \<noteq> None")
          case True
          then show ?thesis unfolding eq using bad by auto
        next
          case ok: False
          have "core q ?s3 l ?r"
            using core hs True sp ok c arr shake
            by (auto simp: core_def relaying_def handshaking_def written_def)
          then have "tunnel_inv q c (pump_host ?s3)" using c by (intro pump_host_inv) auto
          moreover have "tunnel_inv q c (tunnel_stop ?s3)" using c sig by (intro stop_inv) auto
          ultimately show ?thesis unfolding eq using ok by auto
        qed
      qed
    qed
  qed
qed


lemma start_inv:
  assumes "tunnel_start (new_tunnel c) = Inr s"
  shows "tunnel_inv q c s"
proof -
  have "m_Local s = Some new_socket" "m_Remote s = Some new_socket" "cfg s = c" "pin c \<noteq> None"
    "\<not> finished s" "\<not> handshake_done s" "\<not> peer_verified s" "hbuf s = []" "timer s" "signals s = []"
    using assms by (auto simp: tunnel_start_def new_tunnel_def split: if_splits)
  then show ?thesis
    by (intro tunnel_inv_running [where l = new_socket and r = new_socket])
      (auto simp: core_def handshaking_def quiet_def written_def new_socket_def down_waits_def
        up_waits_def queue_limit_def kHighWaterMark_def)
qed

lemma written_send: "n \<le> length (outq k) \<Longrightarrow> written (send n k) = written k"
  by (simp add: written_def send_def)

lemma send_simps [simp]:
  "connected (send n k) = connected k" "inq (send n k) = inq k" "arrived (send n k) = arrived k"
  "peer (send n k) = peer k" "length (outq (send n k)) = length (outq k) - n"
  by (simp_all add: send_def)

lemma receive_simps [simp]:
  "connected (receive b k) = connected k" "inq (receive b k) = inq k @ b"
  "arrived (receive b k) = arrived k @ b" "peer (receive b k) = peer k"
  "outq (receive b k) = outq k" "written (receive b k) = written k"
  by (simp_all add: receive_def written_def)

lemma step_inv:
  assumes inv: "tunnel_inv q c s" and step: "usb_step q s e s'"
  shows "tunnel_inv q c s'"
proof (cases "ended s")
  case True
  then have "m_Local s = None" "m_Remote s = None" "\<not> timer s" by (simp_all add: ended_def)
  with step show ?thesis
    by (cases rule: usb_step_by_event)
      (use inv True in \<open>auto simp: tunnel_inv_def ended_def tunnel_stop_def\<close>)
next
  case False
  then obtain l r where core: "core q s l r" and down: "down_waits s l r" and up: "up_waits s l r"
    and c: "cfg s = c" using inv by (auto simp: tunnel_inv_def)
  have sock: "m_Local s = Some l" "m_Remote s = Some r" "\<not> finished s"
    and sig: "signals s = [] \<or> signals s = [Forwarding]"
    using core by (auto simp: core_def)
  from step show ?thesis
  proof (cases rule: usb_step_by_event)
    case (local_connects l' stops)
    then have "core q (s\<lparr>m_Local := Some (l\<lparr>connected := True\<rparr>)\<rparr>) (l\<lparr>connected := True\<rparr>) r"
      using core by (auto simp: core_def handshaking_def relaying_def written_def)
    then show ?thesis using local_connects sock c by (auto intro: handleRemote_inv)
  next
    case (local_receives l' b)
    let ?s = "s\<lparr>m_Local := Some (receive b l)\<rparr>"
    have "core q ?s (receive b l) r"
      using core by (auto simp: core_def handshaking_def relaying_def simp flip: append_assoc)
    moreover have "down_waits ?s (receive b l) r" using down by (simp add: down_waits_def)
    ultimately show ?thesis using local_receives sock c by (auto intro: handleLocal_inv)
  next
    case (local_sends l' n stops)
    then have n: "n \<le> length (outq l)" using sock by simp
    have "core q (s\<lparr>m_Local := Some (send n l)\<rparr>) (send n l) r"
      using core written_send [OF n] by (auto simp: core_def handshaking_def relaying_def)
    then show ?thesis using local_sends sock c by (auto intro: handleRemote_inv)
  next
    case (local_disconnects l')
    then show ?thesis using finish_inv [OF c core] by simp
  next
    case (local_errors l' e)
    then show ?thesis using fail_inv [OF c sock(3) sig] by simp
  next
    case (remote_certificate r' cert)
    then have no: "peer r = None" using sock by simp
    have pin: "pin c \<noteq> None" using core c by (simp add: core_def)
    then have hs: "\<not> handshake_done s" "\<not> peer_verified s" "quiet (hbuf s) r"
      using core no c by (auto simp: core_def relaying_def handshaking_def split: if_splits)
    let ?s = "s\<lparr>m_Remote := Some (r\<lparr>peer := Some cert\<rparr>)\<rparr>"
    let ?r = "sock_write (request_line q c) (r\<lparr>peer := Some cert\<rparr>)"
    show ?thesis
    proof (cases "Some cert = pin c")
      case True
      let ?t = "?s\<lparr>peer_verified := True, m_Remote := Some ?r\<rparr>"
      have "core q ?t l ?r"
        using core hs True c
        by (auto simp: core_def handshaking_def quiet_def sock_write_def written_def queue_limit_def)
      moreover have "down_waits ?t l ?r" "up_waits ?t l ?r"
        using hs by (auto simp: down_waits_def up_waits_def quiet_def sock_write_def)
      ultimately have "tunnel_inv q c ?t" using c by (auto intro: tunnel_inv_running)
      then show ?thesis using remote_certificate sock True c by (auto simp: on_encrypted_def)
    next
      case False
      then show ?thesis
        using remote_certificate sock c sig by (auto simp: on_encrypted_def intro: fail_inv)
    qed
  next
    case (remote_ssl_errors r' cert es)
    then show ?thesis using inv c sock sig by (auto simp: on_ssl_errors_def intro: fail_inv)
  next
    case (remote_receives r' b stops)
    then have "peer r \<noteq> None" using sock by simp
    then have "core q (s\<lparr>m_Remote := Some (receive b r)\<rparr>) l (receive b r)"
      using core
      by (auto simp: core_def handshaking_def relaying_def quiet_def split_line_append_Some
          split: if_splits)
    then show ?thesis using remote_receives sock c by (auto intro: handleRemote_inv)
  next
    case (remote_sends r' n)
    then have n: "n \<le> length (outq r)" using sock by simp
    let ?s = "s\<lparr>m_Remote := Some (send n r)\<rparr>"
    have "core q ?s l (send n r)"
      using core written_send [OF n] by (auto simp: core_def handshaking_def relaying_def quiet_def)
    moreover have "down_waits ?s l (send n r)" using down by (simp add: down_waits_def)
    ultimately show ?thesis using remote_sends sock c by (auto intro: handleLocal_inv)
  next
    case (remote_disconnects r')
    then show ?thesis using finish_inv [OF c core] by simp
  next
    case (remote_errors r' e)
    then show ?thesis using fail_inv [OF c sock(3) sig] by simp
  next
    case startup_timeout
    then show ?thesis using fail_inv [OF c sock(3) sig] by simp
  next
    case owner_stops
    then show ?thesis using stop_inv [OF c sig] by simp
  qed
qed

theorem run_inv: "usb_run q c s \<Longrightarrow> tunnel_inv q c s"
  by (induction rule: usb_run.induct) (auto intro: start_inv step_inv)


section \<open>What a session guarantees\<close>

text \<open>
  C5: the tunnel is opaque. Once the handshake is done, the host's first line was a short enough
  \<open>ready\<close> reply; everything the host sent after it is, in order and without loss or repetition,
  what was written to the local service followed by what is still held; and everything written to
  the host is the one request line followed by the local service's bytes in order, however the
  sockets cut, delayed or interleaved the two streams.
\<close>

theorem tunnel_opaque:
  assumes "usb_run q c s" and "m_Local s = Some l" and "m_Remote s = Some r"
    and "handshake_done s"
  shows "(\<exists>line rest. split_line (arrived r) = Some (line, rest)
            \<and> length line \<le> kMaxHandshakeBytes \<and> reply_failure q line = None
            \<and> written l @ hbuf s @ inq r = rest)
       \<and> written r @ inq l = request_line q c @ arrived l"
  using run_inv [OF assms(1)] assms(2-)
  by (auto simp: tunnel_inv_def ended_def core_def relaying_def)

text \<open>
  C26: nothing is written to the host, the token included, unless the certificate it presented is
  the pinned one, and nothing is written to the local service before the host's reply was
  accepted.
\<close>

theorem tunnel_pinned:
  assumes "usb_run q c s" and "m_Local s = Some l" and "m_Remote s = Some r"
  shows "(written r = [] \<or> (peer r = pin c \<and> peer r \<noteq> None \<and> peer_verified s))
       \<and> (written l = [] \<or> (handshake_done s \<and> peer_verified s))"
  using run_inv [OF assms(1)] assms(2-)
  by (auto simp: tunnel_inv_def ended_def core_def relaying_def handshaking_def quiet_def
      split: if_splits)

text \<open>
  flow control. Neither write queue grows past the high-water mark by more than one chunk
  (or the request line), the handshake buffer holds at most 4 KiB before the handshake, and a
  pump leaves bytes behind only while a queue is at the mark, whose draining runs it again: no
  byte waits for an event that need not come.
\<close>

theorem tunnel_flow_control:
  assumes "usb_run q c s" and "m_Local s = Some l" and "m_Remote s = Some r"
  shows "length (outq l) < kHighWaterMark + pump_chunk \<and> length (outq r) < queue_limit q c
       \<and> (if handshake_done s
          then (hbuf s @ inq r \<noteq> [] \<longrightarrow> kHighWaterMark \<le> length (outq l))
             \<and> (inq l \<noteq> [] \<longrightarrow> kHighWaterMark \<le> length (outq l) \<or> kHighWaterMark \<le> length (outq r))
          else length (hbuf s) \<le> kMaxHandshakeBytes \<and> (connected l \<longrightarrow> inq r = []))"
  using run_inv [OF assms(1)] assms(2-)
  by (auto simp: tunnel_inv_def ended_def core_def handshaking_def down_waits_def up_waits_def
      split: if_splits)

text \<open>
  the owner hears \<open>forwarding\<close> at most once and then at most one \<open>finished\<close>, which is clean
  only after \<open>forwarding\<close>; a session has both sockets or none, and the startup timer runs exactly
  while it is neither forwarding nor over.
\<close>

theorem tunnel_outcome:
  assumes "usb_run q c s"
  shows "(m_Local s = None) = finished s \<and> (m_Remote s = None) = finished s
       \<and> timer s = (\<not> finished s \<and> \<not> handshake_done s)
       \<and> (\<exists>outcome. signals s = (if Forwarding \<in> set (signals s) then [Forwarding] else []) @ outcome
            \<and> (outcome = [] \<or> (finished s \<and> (outcome = [Closed None] \<and> Forwarding \<in> set (signals s)
                   \<or> (\<exists>m. outcome = [Closed (Some m)])))))"
  using run_inv [OF assms(1)]
  by (auto simp: tunnel_inv_def ended_def core_def)

text \<open>A concrete session: the host answers \<open>ready\<close> and sends three bytes in the same segment.\<close>

definition demo_text :: usb_text where
  "demo_text = \<lparr>parse_json = (\<lambda>_. Obj [(''op'', Str ''ready'')]), to_json = (\<lambda>_. [123, 125]),
     from_utf8 = map (\<lambda>b. char_of (unat b))\<rparr>"

definition demo_config :: tunnel_config where
  "demo_config = \<lparr>host = ''192.0.2.1'', remote_port = 47990, session_token = [116], pin = Some [1, 2],
     bus_id = [49, 45, 50], local_host = ''127.0.0.1'', local_port = 3240\<rparr>"

definition demo_remote :: socket where
  "demo_remote = new_socket\<lparr>outq := [123, 125, 10], peer := Some [1, 2]\<rparr>"

definition demo_connected :: tunnel where
  "demo_connected = (new_tunnel demo_config)\<lparr>m_Local := Some (new_socket\<lparr>connected := True\<rparr>),
     m_Remote := Some demo_remote, timer := True, peer_verified := True\<rparr>"

definition demo_forwarding :: tunnel where
  "demo_forwarding = demo_connected\<lparr>
     m_Local := Some (new_socket\<lparr>connected := True, outq := [7, 8, 9]\<rparr>),
     m_Remote := Some (demo_remote\<lparr>arrived := [120, 10, 7, 8, 9]\<rparr>),
     timer := False, handshake_done := True, signals := [Forwarding]\<rparr>"

lemma demo_run: "usb_run demo_text demo_config demo_forwarding"
proof -
  let ?run = "usb_run demo_text demo_config"
  let ?s0 = "(new_tunnel demo_config)\<lparr>m_Local := Some new_socket, m_Remote := Some new_socket,
      timer := True\<rparr>"
  let ?s1 = "?s0\<lparr>m_Local := Some (new_socket\<lparr>connected := True\<rparr>)\<rparr>"
  have "tunnel_start (new_tunnel demo_config) = Inr ?s0"
    by (simp add: tunnel_start_def new_tunnel_def demo_config_def valid_config_def bus_id_char_def
        kMaxBusIdBytes_def)
  then have "?run ?s0" by (rule usb_run.started)
  moreover have "usb_step demo_text ?s0 Local_connects ?s1"
    using usb_step.local_connects [where s = ?s0 and l = new_socket and q = demo_text and stops = False]
    by (simp add: new_socket_def handleRemoteReadyRead_def new_tunnel_def)
  ultimately have "?run ?s1" by (rule usb_run.stepped)
  moreover have "usb_step demo_text ?s1 (Remote_certificate [1, 2]) demo_connected"
    using usb_step.remote_certificate [where s = ?s1 and r = new_socket and q = demo_text
        and c = "[1, 2]"]
    by (simp add: new_socket_def on_encrypted_def new_tunnel_def demo_connected_def
        demo_config_def demo_remote_def sock_write_def request_line_def demo_text_def)
  ultimately have "?run demo_connected" by (rule usb_run.stepped)
  moreover have "usb_step demo_text demo_connected (Remote_receives [120, 10, 7, 8, 9]) demo_forwarding"
    using usb_step.remote_receives [where s = demo_connected and r = demo_remote and q = demo_text
        and stops = False and b = "[120, 10, 7, 8, 9]"]
    by (simp add: demo_connected_def demo_remote_def new_socket_def receive_def new_tunnel_def
        handleRemoteReadyRead_def reply_failure_def demo_text_def pump_host_def
        pump_remote.simps pump_local.simps sock_write_def handleLocalReadyRead_def
        kMaxHandshakeBytes_def kHighWaterMark_def pump_chunk_def demo_forwarding_def)
  ultimately show ?thesis by (rule usb_run.stepped)
qed

theorem tunnel_opaque_witness:
  "\<exists>rest. split_line [120, 10, 7, 8, 9] = Some ([120], rest) \<and> rest = [7, 8, 9]"
proof -
  have "m_Local demo_forwarding = Some (new_socket\<lparr>connected := True, outq := [7, 8, 9]\<rparr>)"
    "m_Remote demo_forwarding = Some (demo_remote\<lparr>arrived := [120, 10, 7, 8, 9]\<rparr>)"
    "handshake_done demo_forwarding"
    by (simp_all add: demo_forwarding_def)
  from tunnel_opaque [OF demo_run this] show ?thesis
    by (auto simp: new_socket_def demo_remote_def written_def demo_forwarding_def demo_connected_def
        new_tunnel_def)
qed

theorem tunnel_pinned_witness:
  "peer (demo_remote\<lparr>arrived := [120, 10, 7, 8, 9]\<rparr>) = pin demo_config"
  using tunnel_pinned [OF demo_run, of "new_socket\<lparr>connected := True, outq := [7, 8, 9]\<rparr>"
      "demo_remote\<lparr>arrived := [120, 10, 7, 8, 9]\<rparr>"]
  by (simp add: demo_forwarding_def demo_remote_def new_socket_def written_def)

theorem tunnel_flow_control_witness:
  "length [7, 8, 9 :: byte] < kHighWaterMark + pump_chunk"
  using tunnel_flow_control [OF demo_run, of "new_socket\<lparr>connected := True, outq := [7, 8, 9]\<rparr>"
      "demo_remote\<lparr>arrived := [120, 10, 7, 8, 9]\<rparr>"]
  by (simp add: demo_forwarding_def)

theorem tunnel_outcome_witness: "timer demo_forwarding = False \<and> \<not> finished demo_forwarding"
  using tunnel_outcome [OF demo_run]
  by (simp add: demo_forwarding_def demo_connected_def new_tunnel_def)

section \<open>The capability round trip\<close>

text \<open>The document a host publishes for a capability it offers.\<close>

definition to_char :: "byte \<Rightarrow> char" where
  "to_char b = char_of (unat b)"

definition capability_document :: "capability \<Rightarrow> json" where
  "capability_document cap = Obj [(''version'', Num 1), (''enabled'', Bool True),
     (''available'', Bool True), (''reason'', Str (reason cap)), (''port'', Num (of_nat (port cap))),
     (''token'', Str (map to_char (token cap)))]"

definition usable :: "capability \<Rightarrow> bool" where
  "usable cap \<longleftrightarrow> available cap \<and> 1 \<le> port cap \<and> port cap \<le> 65535
     \<and> length (token cap) = 64 \<and> list_all (\<lambda>b. hex_digit (to_char b)) (token cap)"

lemma of_char_to_char [simp]: "of_char (to_char b) = b"
proof -
  have "unat b < 256" using unsigned_less [of b, where ?'a = nat] by simp
  then have "of_char (to_char b) = unat b" by (simp add: to_char_def)
  have "(of_char (to_char b) :: byte) = of_nat (of_char (to_char b) :: nat)"
    by (simp only: of_nat_of_char)
  also have "\<dots> = b" by (simp add: \<open>of_char (to_char b) = unat b\<close>)
  finally show ?thesis .
qed

lemma to_char_of_char [simp]: "to_char (of_char c) = c"
proof -
  have "unat (of_char c :: byte) = unat (of_nat (of_char c :: nat) :: byte)"
    by (simp only: of_nat_of_char)
  also have "\<dots> = (of_char c :: nat) mod 256"
    by (simp add: unat_of_nat)
  also have "\<dots> = of_char c" by (rule of_char_mod_256)
  finally show ?thesis by (simp add: to_char_def)
qed

text \<open>
  whatever a host sends, a capability the client accepts as available has a non-zero 16-bit
  port and a token of 64 hexadecimal digits.
\<close>

theorem parse_capability_usable:
  assumes "parse_capability q b = Some cap" and "available cap"
  shows "usable cap"
  using assms
  by (auto simp: parse_capability_def usable_def Let_def valid_token_def to_latin1_def
      list_all_iff le_nat_iff nat_le_iff le_floor_iff floor_le_iff split: if_splits)

text \<open>
  the document a host publishes for a usable capability is read back as that capability.
\<close>

theorem capability_roundtrip:
  assumes "usable cap" and "length b \<le> 4096" and "parse_json q b = capability_document cap"
  shows "parse_capability q b = Some cap"
proof -
  have "map of_char (map to_char (token cap)) = token cap" by (simp add: comp_def)
  moreover have "valid_token (map to_char (token cap))"
    using assms(1) by (auto simp: usable_def valid_token_def list_all_iff)
  moreover have "1 \<le> port cap" "port cap \<le> 65535" "available cap"
    using assms(1) by (simp_all add: usable_def)
  ultimately show ?thesis
    using assms(2, 3)
    by (cases cap)
      (simp add: parse_capability_def capability_document_def to_latin1_def)
qed

definition demo_capability :: capability where
  "demo_capability = \<lparr>available = True, reason = [], port = 47995, token = replicate 64 97\<rparr>"

theorem capability_roundtrip_witness:
  "parse_capability (demo_text\<lparr>parse_json := (\<lambda>_. capability_document demo_capability)\<rparr>) [123, 125]
     = Some demo_capability"
proof (rule capability_roundtrip)
  have "hex_digit (to_char 97)" by code_simp
  then show "usable demo_capability" by (simp add: usable_def demo_capability_def list_all_iff)
qed simp_all

theorem parse_capability_usable_witness:
  "usable \<lparr>available = True, reason = [], port = 1, token = replicate 64 97\<rparr>"
proof (rule parse_capability_usable)
  let ?c = "\<lparr>available = True, reason = [], port = 1, token = replicate 64 97\<rparr>"
  have hex: "valid_token (replicate 64 (CHR ''a''))" by code_simp
  have "to_char 97 = CHR ''a''" by code_simp
  moreover have "of_char (CHR ''a'') = (97 :: byte)" by code_simp
  ultimately show "parse_capability (demo_text\<lparr>parse_json := (\<lambda>_. capability_document ?c)\<rparr>) [] = Some ?c"
    using hex
    by (simp add: parse_capability_def capability_document_def to_latin1_def)
qed simp

end
