(* ===== verification/Spec2Isabelle.thy ===== *)
theory Spec2Isabelle
  imports AppListModel
    Av1Repack
    BandwidthTracking
    Branding
    CliCommands
    ClipboardExchange
    ClipboardHelperMain
    HostFilesSession
    Localisation
    Pacer
    Pairing
    PenReplay
    Settings
    StylusReplay
    UpdateInstall
    UsbTunnel
begin

text \<open>
  A verification library for the client of a game-streaming system (\<open>src/app\<close>, \<open>src/file-mapping\<close>,
  \<open>src/clipboard-helper\<close>): a Qt program that finds and pairs with hosts, remembers them, starts streams, and
  during a stream shows decoded frames, forwards USB devices and pen input, shares the clipboard, and mirrors
  folders the host shares. Network, TLS,
  cryptography, number and JSON parsing, the disk and the window system are outside; they are arguments
  of the definitions, and what a property needs of them is among its hypotheses.

  \<^bold>\<open>How the program's parts interact.\<close> \<open>ComputerManager\<close> holds the hosts; its polling threads ask each
  host's addresses for a report, merge it into the record, and signal the change; a change is saved
  by a thread of its own. Pairing gives a host its pinned certificate, which polling, the USB tunnel and
  the file-mapping client rely on. The command line launchers drive the manager through events. In a
  stream the decoder submits frames to the pacer; a click on the overlay's host files entry starts a task
  that opens a WebSocket session with the host, sees its shared folders as a tree of items, and has a mount
  provider copy them to a folder, which the end of the session removes. The clipboard is kept by a helper
  process: its client in the stream starts and configures it, hands it the host's frames once it is ready and
  sends its frames to the host. A newer release is offered with a package for this installation, which is
  downloaded, checked against its digest and handed to an updater that replaces the program.

  \<^bold>\<open>Theories, and the code they model.\<close>
  \<^item> \<^theory_text>\<open>Prelude\<close>: bytes, words, collections of rules, runs of events, the interface of readers that take
    bytes in chunks. \<^theory_text>\<open>TextOps\<close>, \<^theory_text>\<open>QtArg\<close>, \<^theory_text>\<open>Json\<close>: \<open>QString\<close>, \<open>QString::arg\<close> and \<open>QJsonValue\<close>.
  \<^item> \<^theory_text>\<open>Branding\<close>: \<open>gui/Brand.js\<close>, all of it: the regular expression replacement written out, shown to be
    a plain left-to-right function that replaces the name outside of the English proper noun.
  \<^item> \<^theory_text>\<open>HostModel\<close>: \<open>nvcomputer.cpp\<close>, \<open>nvaddress.cpp\<close>: the host record, merging of reports and app lists,
    candidate addresses. \<^theory_text>\<open>HostPolling\<close>: \<open>PcMonitorThread\<close>. \<^theory_text>\<open>HostStore\<close>: serialising hosts to the settings
    store and back, the flush with its backup, what a crash at any point leaves. \<^theory_text>\<open>HostManager\<close>:
    \<open>computermanager.cpp\<close>, the operations on known hosts, their signals and the saving thread.
    \<^theory_text>\<open>AppListModel\<close>: \<open>appmodel.cpp\<close>.
  \<^item> \<^theory_text>\<open>Pairing\<close>: \<open>nvpairingmanager.cpp\<close>, the five stages with each early return and each read of a buffer.
    \<^theory_text>\<open>CompatCheck\<close>: the comparison of host versions in \<open>compatfetcher.cpp\<close>.
  \<^item> \<^theory_text>\<open>CliLaunchers\<close>, \<^theory_text>\<open>CliCommands\<close>: \<open>cli/\<close> and \<open>computerseeker.cpp\<close>: the four commands as machines over
    the manager's events.
  \<^item> \<^theory_text>\<open>Settings\<close>: \<open>streamingpreferences.cpp\<close>, loading with migrations, saving, setters, the default
    bitrate. \<^theory_text>\<open>Localisation\<close>: the language and the swap of translators.
  \<^item> \<^theory_text>\<open>UsbTunnel\<close>: \<open>usbforwardingtunnel.cpp\<close> and the capability document.
  \<^item> \<^theory_text>\<open>Pacer\<close>: \<open>pacer.cpp\<close>: the decoder's, the V-sync, the render and the main thread as steps of one
    machine, each from one blocking point to the next, with the lock, the wake-ups and the destructor.
  \<^item> \<^theory_text>\<open>Av1Repack\<close>: \<open>av1obu.cpp\<close> on a buffer with checked accesses. \<^theory_text>\<open>BandwidthTracking\<close>: \<open>bwtracker.cpp\<close>,
    byte counts as 64-bit words.
    \<^theory_text>\<open>PenReplay\<close>, \<^theory_text>\<open>StylusReplay\<close>: \<open>penhistory.h\<close>, \<open>stylusreplay.cpp\<close>
    with the calls of the replay's callback.
  \<^item> \<^theory_text>\<open>WebSocketFraming\<close>: \<open>filemappingwebsocket.cpp\<close>. \<^theory_text>\<open>FileMappingRpc\<close>: \<open>filemappingclient.cpp\<close> and its
    protocol adapter, over the framing; the outcome of the TLS connection and its certificate errors are parameters. \<^theory_text>\<open>RemoteVfs\<close>: \<open>protocol_remote_vfs.cpp\<close>, over the client's
    interface. \<^theory_text>\<open>FinderMirror\<close>: \<open>macos_finder_mirror_provider.cpp\<close>, over the tree's interface and a model
    of the local disk. What is asked of the host is asked from a set of states that requests do not leave:
    the client keeps a state of its own (\<open>reads_bounded\<close>, \<open>file_served\<close>). \<^theory_text>\<open>MountCoordination\<close>: \<open>mount_coordinator.cpp\<close> and the providers of each platform.
    \<^theory_text>\<open>HostFilesSession\<close>: \<open>filemappingux.cpp\<close> and the functions of \<open>session.cpp\<close> on host files, with their
    tasks.
  \<^item> \<^theory_text>\<open>ClipboardWire\<close>, \<^theory_text>\<open>ClipboardSync\<close>: \<open>clipboardsync.cpp\<close>: frames, hashes and the caches of echoes; both
    directions with compound bursts and blobs by reference. \<^theory_text>\<open>ClipboardExchange\<close>: what two ends promise.
    \<^theory_text>\<open>ClipboardIpc\<close>: \<open>clipboardipc.cpp\<close>, the messages between client and helper. \<^theory_text>\<open>ClipboardHelper\<close>:
    \<open>clipboardhelperclient.cpp\<close>, the supervision of the process, its pipe and its queues.
    \<^theory_text>\<open>ClipboardHelperRun\<close>: what every run of it keeps. \<^theory_text>\<open>ClipboardHelperMain\<close>: \<open>clipboard-helper/main.cpp\<close> with
    its event loop, in which lines read, events of the engine and queued frames interleave, and client and
    helper together, down to the frames the engine gets.
  \<^item> \<^theory_text>\<open>UpdateCheck\<close>: \<open>autoupdatechecker.cpp\<close>: versions, and the package offered. \<^theory_text>\<open>UpdateInstall\<close>:
    \<open>portableupdateinstaller.cpp\<close>: the download, the checks on it and what the updater is started with.

  State is a record with the member names of the code, an operation a definition with the name of the
  function. A machine of several threads or callbacks has an event type and a step function
  (\<open>usb_step\<close>, \<open>pacer_step\<close>, \<open>coordinator_step\<close>, \<open>files_step\<close>, \<open>clip_step\<close>,
  \<open>helper_step\<close>, \<open>main_step\<close>, \<open>install_step\<close>, those of the launchers); its properties
  hold after every list of events, that is for every interleaving. Errors are values; texts are those of
  the source, untranslated. Integers are words where they can wrap (the products of \<open>getDefaultBitrate\<close> and of the estimate of an
  update's workspace are cut to 32 and 64 bits), otherwise \<open>nat\<close> or \<open>int\<close>.

  \<^bold>\<open>What the lemmas show.\<close> Each theory proves an invariant of its state and the outcome of its operations
  on every branch; the properties are numbered in the texts before them. Interfaces are locales, each
  interpreted on the model's own definitions: \<open>launcher\<close> and \<open>audited_launcher\<close> (the commands),
  \<open>host_contract\<close> (what every operation keeps of a host), \<open>array_item\<close> (what can be written to and read
  from an array of the settings), \<open>chunked_reader\<close> (the line of the tunnel and the WebSocket reader do not
  see how bytes were cut), \<open>byte_pump\<close> (both directions of the tunnel), \<open>remote_files\<close> (what the mirror needs
  of the tree of items), \<open>mount_providers\<close> (what the coordinator needs of a provider), \<open>helper_invariant\<close> and
  \<open>helper_always\<close> (what the single changes of the helper's client must keep for every run to keep it).

  \<^bold>\<open>Loops and bounds.\<close> Every loop is a total function: structural, or with a measure. The reading loops of
  the WebSocket end when nothing more arrives before the timeout, which is the end of the list of chunks.
  The copying loop of the mirror ends because every answer that is not the last has the length asked for.
  The loops that write to the helper's pipe and read its lines end because each turn shortens their buffer.
  The version comparison, an unbounded loop in the code, is shown to return for all inputs.

  \<^bold>\<open>Not modelled.\<close> The life cycle of the stream in \<open>session.cpp\<close>, decoding, rendering, audio, overlays and
  the translation of input events (calls into SDL, FFmpeg and the protocol library, whose state is theirs);
  HTTP requests, their XML and the certificates (\<open>nvhttp.cpp\<close>, \<open>identitymanager.cpp\<close>: results are
  parameters); mDNS discovery and the threads' life cycle in the manager; the search for a picture in the
  clipboard and the requests for its blobs; box art, the HTTP requests of updates and the scripts that replace
  the program, system properties, QML; the diagnostic log, the smoke probe and the experimental mounts of macOS. Floating point is real arithmetic, so rounding is not modelled.
\<close>

end
